(* ===== verification/Prelude.thy ===== *)
theory Prelude
  imports Main "HOL-Library.Word"
begin

text \<open>
  Shared vocabulary of the development: the machine integer types of the firmware
  (a 32-bit Cortex-M target, so \<open>int\<close> and \<open>unsigned int\<close> have 32 bits), the error numbers the
  code returns, a flat byte memory with \<open>memcpy\<close>-style block accesses, circular block
  accesses over a memory region, and the generic facts about words and indices that the
  component theories rely on.
\<close>

unbundle bit_operations_syntax

section \<open>Machine types and error numbers\<close>

type_synonym u8 = "8 word"
type_synonym u16 = "16 word"
type_synonym u32 = "32 word"

text \<open>Error numbers of \<open>errno.h\<close> that the modelled functions return (negated).\<close>

abbreviation EPERM :: int where "EPERM \<equiv> 1"
abbreviation ESRCH :: int where "ESRCH \<equiv> 3"
abbreviation ENOMEM :: int where "ENOMEM \<equiv> 12"
abbreviation EACCES :: int where "EACCES \<equiv> 13"
abbreviation EFAULT :: int where "EFAULT \<equiv> 14"
abbreviation EBUSY :: int where "EBUSY \<equiv> 16"
abbreviation EEXIST :: int where "EEXIST \<equiv> 17"
abbreviation EINVAL :: int where "EINVAL \<equiv> 22"
abbreviation ENOSYS :: int where "ENOSYS \<equiv> 88"

named_theorems word_nat \<comment> \<open>reading 32-bit arithmetic as arithmetic on \<open>nat\<close>\<close>
named_theorems mem_simps \<comment> \<open>block reads and writes of the memory model\<close>

section \<open>Words read as natural numbers\<close>

lemma unat_of_nat_u32 [word_nat]: "n < 4294967296 \<Longrightarrow> unat (of_nat n :: u32) = n"
  by (simp add: unat_of_nat)

lemma unat_add_u32 [word_nat]:
  "unat a + unat b < 4294967296 \<Longrightarrow> unat (a + b :: u32) = unat a + unat b"
  by (simp add: unat_word_ariths)

lemma unat_sub_u32 [word_nat]: "unat b \<le> unat a \<Longrightarrow> unat (a - b :: u32) = unat a - unat b"
  by (simp add: unat_sub word_le_nat_alt)

lemma unat_lt_u32: "unat (a :: u32) < 4294967296"
proof -
  have "unat a < 2 ^ LENGTH(32)" by (rule unsigned_less)
  then show ?thesis by simp
qed

lemmas word_le_nat = word_le_nat_alt word_less_nat_alt

text \<open>Signed comparison with 0 of a small value.\<close>

lemma sint_small_u32:
  assumes "unat (x :: u32) < 2147483648"
  shows "sint x = uint x"
proof -
  have "uint x = int (unat x)" by simp
  then have "uint x < 2147483648" "- 2147483648 \<le> uint x" using assms by linarith+
  then show ?thesis unfolding sint_uint by (intro signed_take_bit_int_eq_self) simp_all
qed

lemma sless_0_u32:
  assumes "unat (x :: u32) < 2147483648"
  shows "0 <s x \<longleftrightarrow> x \<noteq> 0"
proof -
  have "0 < uint x \<longleftrightarrow> x \<noteq> 0" using word_less_def [of 0 x] by (simp add: word_neq_0_conv)
  then show ?thesis by (simp add: word_sless_alt sint_small_u32 assms)
qed

section \<open>A flat byte memory\<close>

type_synonym mem = "u32 \<Rightarrow> u8"

text \<open>\<open>n\<close> bytes starting at an address; the bytes written by a block store.\<close>

definition mem_read :: "mem \<Rightarrow> u32 \<Rightarrow> nat \<Rightarrow> u8 list" where
  "mem_read m a n = map (\<lambda>i. m (a + of_nat i)) [0..<n]"

definition mem_write :: "mem \<Rightarrow> u32 \<Rightarrow> u8 list \<Rightarrow> mem" where
  "mem_write m a bs = (\<lambda>x. if unat (x - a) < length bs then bs ! unat (x - a) else m x)"

text \<open>
  \<open>memcpy\<close> is only defined on regions that do not overlap (C11 7.24.2.1); \<open>None\<close> stands for
  undefined behaviour.
\<close>

definition regions_overlap :: "u32 \<Rightarrow> u32 \<Rightarrow> nat \<Rightarrow> bool" where
  "regions_overlap a b n \<longleftrightarrow> unat (b - a) < n \<or> unat (a - b) < n"

definition memcpy :: "mem \<Rightarrow> u32 \<Rightarrow> u32 \<Rightarrow> nat \<Rightarrow> mem option" where
  "memcpy m dst src n =
     (if regions_overlap dst src n then None else Some (mem_write m dst (mem_read m src n)))"

lemma length_mem_read [simp]: "length (mem_read m a n) = n"
  by (simp add: mem_read_def)

lemma nth_mem_read [simp]: "i < n \<Longrightarrow> mem_read m a n ! i = m (a + of_nat i)"
  by (simp add: mem_read_def)

lemma mem_read_0 [simp]: "mem_read m a 0 = []"
  by (simp add: mem_read_def)

lemma mem_write_Nil [simp]: "mem_write m a [] = m"
  by (simp add: mem_write_def)

section \<open>Circular accesses over a region\<close>

text \<open>
  A ring of \<open>sz\<close> bytes at \<open>base\<close>: reading and writing \<open>n\<close> bytes from offset \<open>off\<close>, wrapping at the
  end of the region. These are the specification of the split block copies in the ring
  buffer code.
\<close>

definition ring_read :: "mem \<Rightarrow> u32 \<Rightarrow> nat \<Rightarrow> nat \<Rightarrow> nat \<Rightarrow> u8 list" where
  "ring_read m base sz off n = map (\<lambda>i. m (base + of_nat ((off + i) mod sz))) [0..<n]"

definition ring_write :: "mem \<Rightarrow> u32 \<Rightarrow> nat \<Rightarrow> nat \<Rightarrow> u8 list \<Rightarrow> mem" where
  "ring_write m base sz off bs = (\<lambda>x.
     let j = unat (x - base); k = (j + sz - off) mod sz
     in if j < sz \<and> k < length bs then bs ! k else m x)"

lemma length_ring_read [simp]: "length (ring_read m base sz off n) = n"
  by (simp add: ring_read_def)

lemma nth_ring_read [simp]:
  "i < n \<Longrightarrow> ring_read m base sz off n ! i = m (base + of_nat ((off + i) mod sz))"
  by (simp add: ring_read_def)

lemma ring_read_0 [simp]: "ring_read m base sz off 0 = []"
  by (simp add: ring_read_def)

lemma wrap_index: "off < sz \<Longrightarrow> i < sz \<Longrightarrow> (off + i) mod sz = (if off + i < sz then off + i else off + i - sz)"
  for off i sz :: nat
  by (simp add: mod_if)

lemma wrap_inverse:
  fixes off i sz :: nat
  assumes "off < sz" "i < sz"
  shows "((off + i) mod sz + sz - off) mod sz = i"
proof (cases "off + i < sz")
  case True
  then have "((off + i) mod sz + sz - off) = i + sz" using assms by simp
  then show ?thesis using assms by simp
next
  case False
  then have "(off + i) mod sz + sz - off = i" using assms by (simp add: wrap_index)
  then show ?thesis using assms by simp
qed

lemma ring_read_eq_iff:
  "ring_read m base sz off n = xs \<longleftrightarrow>
     length xs = n \<and> (\<forall>i<n. m (base + of_nat ((off + i) mod sz)) = xs ! i)"
  by (auto simp: list_eq_iff_nth_eq)

text \<open>A circular read is at most two block reads: up to the end of the region, then from its start.\<close>

lemma ring_read_one: "off + n \<le> sz \<Longrightarrow> ring_read m base sz off n = mem_read m (base + of_nat off) n"
  by (auto simp: list_eq_iff_nth_eq add.assoc)

lemma ring_read_two:
  assumes "off < sz" "sz < off + n" "n \<le> sz"
  shows "ring_read m base sz off n =
           mem_read m (base + of_nat off) (sz - off) @ mem_read m base (n - (sz - off))"
proof (rule nth_equalityI)
  fix i assume "i < length (ring_read m base sz off n)"
  then have i: "i < n" by simp
  show "ring_read m base sz off n ! i =
        (mem_read m (base + of_nat off) (sz - off) @ mem_read m base (n - (sz - off))) ! i"
  proof (cases "i < sz - off")
    case True
    then show ?thesis using i assms by (simp add: nth_append add.assoc)
  next
    case False
    have "\<not> off + i < sz" using False by linarith
    then have "(off + i) mod sz = i - (sz - off)"
      using i assms by (simp add: wrap_index)
    then show ?thesis using False i assms by (simp add: nth_append)
  qed
qed (use assms in auto)

lemma ring_read_append:
  "ring_read m base sz off (n + k) =
     ring_read m base sz off n @ ring_read m base sz ((off + n) mod sz) k"
proof (rule nth_equalityI)
  fix i assume "i < length (ring_read m base sz off (n + k))"
  moreover have "((off + n) mod sz + (i - n)) mod sz = (off + i) mod sz" if "n \<le> i"
    using mod_add_left_eq [of "off + n" sz "i - n"] that by simp
  ultimately show "ring_read m base sz off (n + k) ! i =
      (ring_read m base sz off n @ ring_read m base sz ((off + n) mod sz) k) ! i"
    by (auto simp: nth_append)
qed simp

lemma take_ring_read: "n \<le> k \<Longrightarrow> take n (ring_read m base sz off k) = ring_read m base sz off n"
  using ring_read_append [of m base sz off n "k - n"] by simp

lemma drop_ring_read:
  "n \<le> k \<Longrightarrow> drop n (ring_read m base sz off k) = ring_read m base sz ((off + n) mod sz) (k - n)"
  using ring_read_append [of m base sz off n "k - n"] by simp

text \<open>Reading back what was written, and what a circular write leaves alone.\<close>

lemma ring_write_at:
  assumes "j < sz" "sz \<le> 2147483648"
  shows "ring_write m base sz off bs (base + of_nat j) =
           (if (j + sz - off) mod sz < length bs then bs ! ((j + sz - off) mod sz)
            else m (base + of_nat j))"
proof -
  have "unat (base + of_nat j - base) = j" using assms by (simp add: unat_of_nat_u32)
  then show ?thesis using assms by (simp add: ring_write_def Let_def)
qed

lemma ring_read_write_same:
  assumes "off < sz" "length bs \<le> sz" "sz \<le> 2147483648"
  shows "ring_read (ring_write m base sz off bs) base sz off (length bs) = bs"
  using assms
  by (intro nth_equalityI) (auto simp: ring_write_at wrap_inverse)

lemma ring_read_write_before:
  assumes "off < sz" "n + length bs \<le> sz" "sz \<le> 2147483648"
  shows "ring_read (ring_write m base sz ((off + n) mod sz) bs) base sz off n =
         ring_read m base sz off n"
proof (rule nth_equalityI)
  fix i assume "i < length (ring_read (ring_write m base sz ((off + n) mod sz) bs) base sz off n)"
  then have i: "i < n" by simp
  have "((off + i) mod sz + sz - (off + n) mod sz) mod sz \<ge> length bs" if "bs \<noteq> []"
  proof -
    have n: "n < sz" using that assms by (cases bs) auto
    have "((off + i) mod sz + sz - (off + n) mod sz) mod sz = sz - (n - i)"
    proof (cases "off + n < sz")
      case True
      then have "(off + i) mod sz + sz - (off + n) mod sz = sz - (n - i)" using i by simp
      then show ?thesis using i n by simp
    next
      case False
      then have *: "(off + n) mod sz = off + n - sz" using assms n by (simp add: wrap_index)
      show ?thesis
      proof (cases "off + i < sz")
        case True
        then have "(off + i) mod sz + sz - (off + n) mod sz = sz + (sz - (n - i))"
          using * i n False by simp
        then show ?thesis using i n by (metis diff_less mod_add_self1 mod_less order_le_less_trans
              zero_le zero_less_diff)
      next
        case F: False
        then have "(off + i) mod sz = off + i - sz" using assms n i by (simp add: wrap_index)
        then have "(off + i) mod sz + sz - (off + n) mod sz = sz - (n - i)"
          using * F i n by simp
        then show ?thesis using i n by simp
      qed
    qed
    then show ?thesis using assms i by simp
  qed
  then show "ring_read (ring_write m base sz ((off + n) mod sz) bs) base sz off n ! i =
      ring_read m base sz off n ! i"
    using i assms by (cases "bs = []") (auto simp: ring_write_at)
qed simp

lemma ring_write_frame: "sz \<le> unat (x - base) \<Longrightarrow> ring_write m base sz off bs x = m x"
  by (simp add: ring_write_def Let_def)

text \<open>A circular write is at most two block writes, in the order the code makes them.\<close>

lemma wrap_back:
  fixes off j sz :: nat
  assumes "off \<le> j" "j < sz"
  shows "(j + sz - off) mod sz = j - off"
proof -
  have *: "j + sz - off = (j - off) + sz" using assms by simp
  have "j - off < sz" using assms by simp
  then show ?thesis unfolding * mod_add_self2 by (rule mod_less)
qed

lemma unat_offset_sub:
  assumes "off < 4294967296"
  shows "unat (x - (base + of_nat off) :: u32) =
           (if off \<le> unat (x - base) then unat (x - base) - off
            else 4294967296 + unat (x - base) - off)"
proof -
  have e: "x - (base + of_nat off) = (x - base) - of_nat off" by simp
  have u: "unat (of_nat off :: u32) = off" using assms by (rule unat_of_nat_u32)
  define y where "y = x - base"
  show ?thesis unfolding e y_def [symmetric] unat_sub_if' u by (cases "off \<le> unat y") (simp_all only: if_True if_False add.commute, simp)
qed

lemma mem_write_at:
  assumes "off < 4294967296"
  shows "mem_write m (base + of_nat off) bs x =
     (if off \<le> unat (x - base) then
        (if unat (x - base) - off < length bs then bs ! (unat (x - base) - off) else m x)
      else if 4294967296 + unat (x - base) - off < length bs then bs ! (4294967296 + unat (x - base) - off) else m x)"
  unfolding mem_write_def unat_offset_sub [OF assms] by (cases "off \<le> unat (x - base)") simp_all

lemma ring_write_one:
  assumes "off + length bs \<le> sz" "off < sz" "sz \<le> 2147483648"
  shows "mem_write m (base + of_nat off) bs = ring_write m base sz off bs"
proof
  fix x
  define j where "j = unat (x - base)"
  have o: "off < 4294967296" using assms by simp
  show "mem_write m (base + of_nat off) bs x = ring_write m base sz off bs x"
  proof (cases "off \<le> j")
    case True
    then have "(j + sz - off) mod sz = j - off" if "j < sz"
      using that by (rule wrap_back)
    then show ?thesis
      using True assms unfolding mem_write_at [OF o] ring_write_def Let_def j_def [symmetric] by auto
  next
    case False
    then have "(j + sz - off) mod sz = j + sz - off" using assms by simp
    moreover have "\<not> 4294967296 + j - off < length bs" using assms False by linarith
    ultimately show ?thesis
      using False assms unfolding mem_write_at [OF o] ring_write_def Let_def j_def [symmetric] by auto
  qed
qed

lemma ring_write_two:
  assumes "off < sz" "sz < off + length bs" "length bs \<le> sz" "sz \<le> 2147483648"
  shows "mem_write (mem_write m (base + of_nat off) (take (sz - off) bs)) base (drop (sz - off) bs) =
           ring_write m base sz off bs"
proof
  fix x
  define j where "j = unat (x - base)"
  have o: "off < 4294967296" using assms by simp
  have b: "mem_write n base cs x = (if j < length cs then cs ! j else n x)" for n cs
    unfolding mem_write_def j_def by simp
  show "mem_write (mem_write m (base + of_nat off) (take (sz - off) bs)) base (drop (sz - off) bs) x =
        ring_write m base sz off bs x"
  proof (cases "off \<le> j")
    case True
    then have "(j + sz - off) mod sz = j - off" if "j < sz"
      using that by (rule wrap_back)
    then show ?thesis
      using True assms unfolding b mem_write_at [OF o] ring_write_def Let_def j_def [symmetric] by auto
  next
    case False
    then have "(j + sz - off) mod sz = j + sz - off" using assms by simp
    moreover have "\<not> 4294967296 + j - off < length (take (sz - off) bs)" using assms False by simp
    moreover have "sz - off + j = j + sz - off" using assms by simp
    ultimately show ?thesis
      using False assms unfolding b mem_write_at [OF o] ring_write_def Let_def j_def [symmetric] by auto
  qed
qed

text \<open>The disjointness of two regions, and that a write into one does not show in the other.\<close>

definition regions_disjoint :: "u32 \<Rightarrow> nat \<Rightarrow> u32 \<Rightarrow> nat \<Rightarrow> bool" where
  "regions_disjoint a n b k \<longleftrightarrow> (\<forall>x. \<not> (unat (x - a) < n \<and> unat (x - b) < k))"

lemma ring_read_frame:
  assumes "\<And>x. unat (x - base) < sz \<Longrightarrow> m' x = m x" "0 < sz" "sz \<le> 2147483648"
  shows "ring_read m' base sz off n = ring_read m base sz off n"
proof (rule nth_equalityI)
  fix i assume "i < length (ring_read m' base sz off n)"
  moreover have "(off + i) mod sz < sz" using assms(2) by simp
  then have "unat (base + of_nat ((off + i) mod sz) - base) < sz"
    using assms(3) by (simp add: unat_of_nat_u32)
  ultimately show "ring_read m' base sz off n ! i = ring_read m base sz off n ! i"
    using assms(1) by simp
qed simp

text \<open>Offsets reduced by a conditional subtraction, consecutive circular writes, disjoint blocks.\<close>

lemma wrap_offset:
  fixes off n sz :: u32
  assumes "unat off < unat sz" "unat n \<le> unat sz" "unat sz \<le> 2147483648"
  shows "unat (if sz \<le> off + n then off + n - sz else off + n) = (unat off + unat n) mod unat sz"
proof -
  have a: "unat (off + n) = unat off + unat n" using assms by (intro unat_add_u32) simp
  show ?thesis
  proof (cases "sz \<le> off + n")
    case True
    then have le: "unat sz \<le> unat off + unat n" by (simp add: word_le_nat a)
    then have "unat (off + n - sz) = unat off + unat n - unat sz"
      using True by (simp add: unat_sub_u32 word_le_nat a)
    moreover have "(unat off + unat n) mod unat sz = unat off + unat n - unat sz"
      using le assms by (simp add: le_mod_geq)
    ultimately show ?thesis using True by simp
  next
    case False
    then have "unat off + unat n < unat sz" by (simp add: word_le_nat a)
    then show ?thesis using False by (simp add: a)
  qed
qed

lemma back_index:
  fixes off j sz :: nat
  assumes "off < sz" "j < sz"
  shows "(j + sz - off) mod sz = (if off \<le> j then j - off else j + sz - off)"
  using assms by (auto simp: wrap_back)

lemma ring_write_append:
  assumes "off < sz" "length (xs @ ys) \<le> sz"
  shows "ring_write (ring_write m base sz off xs) base sz ((off + length xs) mod sz) ys =
         ring_write m base sz off (xs @ ys)"
proof (cases "ys = []")
  case True
  then show ?thesis by (auto simp: ring_write_def Let_def)
next
  case False
  then have n: "length xs < sz" using assms by (cases ys) auto
  show ?thesis
  proof
    fix x
    define j where "j = unat (x - base)"
    define k where "k = (j + sz - off) mod sz"
    have "(j + sz - (off + length xs) mod sz) mod sz =
          (if length xs \<le> k then k - length xs else k + sz - length xs)" if "j < sz"
      unfolding k_def using that assms n by (auto simp: back_index wrap_index)
    then show "ring_write (ring_write m base sz off xs) base sz ((off + length xs) mod sz) ys x =
        ring_write m base sz off (xs @ ys) x"
      unfolding ring_write_def Let_def j_def [symmetric] k_def [symmetric]
      using assms by (auto simp: nth_append)
  qed
qed

lemma disjoint_blocks:
  assumes "regions_disjoint db dsz sb ssz" "d + k \<le> dsz" "s + k \<le> ssz" "dsz \<le> 2147483648" "ssz \<le> 2147483648"
  shows "\<not> regions_overlap (db + of_nat d) (sb + of_nat s) k"
proof
  assume "regions_overlap (db + of_nat d) (sb + of_nat s) k"
  then consider "unat (sb + of_nat s - (db + of_nat d)) < k" | "unat (db + of_nat d - (sb + of_nat s)) < k"
    by (auto simp: regions_overlap_def)
  then obtain x where "unat (x - (db + of_nat d)) < k" "unat (x - (sb + of_nat s)) < k"
  proof cases
    case 1 then show ?thesis by (intro that [of "sb + of_nat s"]) auto
  next
    case 2 then show ?thesis by (intro that [of "db + of_nat d"]) auto
  qed
  moreover have "unat (x - base) < sz"
    if "unat (x - (base + of_nat off)) < k" "off + k \<le> sz" "sz \<le> 2147483648" for base off sz
    using that unat_lt_u32 [of "x - base"] unat_offset_sub [of off x base]
    by (auto split: if_splits)
  ultimately show False
    using assms unfolding regions_disjoint_def by blast
qed

lemma copy_step_offset:
  fixes off len sz :: u32
  assumes "unat off + unat len \<le> unat sz" "unat off < unat sz" "unat sz \<le> 2147483648"
  shows "unat (if sz \<le> off + len then 0 else off + len) = (unat off + unat len) mod unat sz"
proof -
  have a: "unat (off + len) = unat off + unat len" using assms by (intro unat_add_u32) simp
  show ?thesis
  proof (cases "sz \<le> off + len")
    case True
    then have "unat off + unat len = unat sz" using assms(1) by (simp add: word_le_nat a)
    then show ?thesis using True by simp
  next
    case False
    then have "unat off + unat len < unat sz" by (simp add: word_le_nat a)
    then show ?thesis using False by (simp add: a)
  qed
qed

lemma overlap_self:
  assumes "0 < unat roff" "unat roff + n \<le> 2147483648"
  shows "regions_overlap a (a + roff) n \<longleftrightarrow> unat roff < n"
proof -
  have "unat (a - (a + roff)) = 4294967296 - unat roff"
    using unat_offset_sub [of "unat roff" a a] assms by simp
  moreover have "\<not> 4294967296 - unat roff < n" using assms by linarith
  ultimately show ?thesis by (simp add: regions_overlap_def)
qed

end
