(* ===== verification/Fifo_Spec.thy ===== *)
theory Fifo_Spec
  imports Prelude
begin

text \<open>
  The contract of a bounded first-in first-out byte channel, as its clients rely on it: a write
  is taken whole or not at all, a read is served whole or not at all, and bytes leave in the
  order they came. The ring buffer and the stream built on it are both interpreted in it; the
  consequences for arbitrary sequences of calls are proved here once.
\<close>

datatype fifo_op = Put "u8 list" | Get nat

text \<open>
  A run of calls: the bytes handed out, the bytes taken in, and the final state.
\<close>

fun fifo_run :: "('q \<Rightarrow> u8 list \<Rightarrow> 'q \<times> nat) \<Rightarrow> ('q \<Rightarrow> nat \<Rightarrow> u8 list \<times> 'q) \<Rightarrow>
    'q \<Rightarrow> fifo_op list \<Rightarrow> u8 list \<times> u8 list \<times> 'q" where
  "fifo_run put get q [] = ([], [], q)"
| "fifo_run put get q (Put xs # ops) =
     (let (q', n) = put q xs; (outs, ins, q'') = fifo_run put get q' ops in (outs, take n xs @ ins, q''))"
| "fifo_run put get q (Get n # ops) =
     (let (ys, q') = get q n; (outs, ins, q'') = fifo_run put get q' ops in (ys @ outs, ins, q''))"

fun op_size :: "fifo_op \<Rightarrow> nat" where
  "op_size (Put xs) = length xs"
| "op_size (Get n) = n"

locale byte_fifo =
  fixes put :: "'q \<Rightarrow> u8 list \<Rightarrow> 'q \<times> nat"
    and get :: "'q \<Rightarrow> nat \<Rightarrow> u8 list \<times> 'q"
    and contents :: "'q \<Rightarrow> u8 list"
    and capacity :: "'q \<Rightarrow> nat"
    and invar :: "'q \<Rightarrow> bool"
    and limit :: nat \<comment> \<open>request sizes are below it (the width of the size argument)\<close>
  assumes bounded: "invar q \<Longrightarrow> length (contents q) \<le> capacity q"
    and put_fits: "invar q \<Longrightarrow> length xs < limit \<Longrightarrow> length (contents q) + length xs \<le> capacity q
        \<Longrightarrow> put q xs = (q', n) \<Longrightarrow> contents q' = contents q @ xs \<and> n = length xs \<and> invar q' \<and> capacity q' = capacity q"
    and put_full: "invar q \<Longrightarrow> length xs < limit \<Longrightarrow> capacity q < length (contents q) + length xs
        \<Longrightarrow> put q xs = (q', n) \<Longrightarrow> contents q' = contents q \<and> n = 0 \<and> invar q' \<and> capacity q' = capacity q"
    and get_avail: "invar q \<Longrightarrow> n < limit \<Longrightarrow> n \<le> length (contents q) \<Longrightarrow> get q n = (ys, q')
        \<Longrightarrow> ys = take n (contents q) \<and> contents q' = drop n (contents q) \<and> invar q' \<and> capacity q' = capacity q"
    and get_short: "invar q \<Longrightarrow> n < limit \<Longrightarrow> length (contents q) < n \<Longrightarrow> get q n = (ys, q')
        \<Longrightarrow> ys = [] \<and> contents q' = contents q \<and> invar q' \<and> capacity q' = capacity q"
begin

lemma put_step:
  assumes "invar q" "length xs < limit" "put q xs = (q', n)"
  shows "contents q' = contents q @ take n xs" "invar q'" "capacity q' = capacity q"
  using assms put_fits [of q xs q' n] put_full [of q xs q' n]
  by (cases "length (contents q) + length xs \<le> capacity q"; force)+

lemma get_step:
  assumes "invar q" "n < limit" "get q n = (ys, q')"
  shows "contents q = ys @ contents q'" "invar q'" "capacity q' = capacity q"
  using assms get_avail [of q n ys q'] get_short [of q n ys q']
  by (cases "n \<le> length (contents q)"; force)+

text \<open>No sequence of calls loses, duplicates or reorders a byte.\<close>

lemma conservation:
  assumes "invar q" "\<forall>c\<in>set ops. op_size c < limit" "fifo_run put get q ops = (outs, ins, q')"
  shows "contents q @ ins = outs @ contents q' \<and> invar q' \<and> capacity q' = capacity q"
  using assms
proof (induction ops arbitrary: q outs ins q')
  case Nil
  then show ?case by simp
next
  case (Cons c ops)
  show ?case
  proof (cases c)
    case (Put xs)
    obtain q1 n where p: "put q xs = (q1, n)" by (cases "put q xs")
    obtain outs1 ins1 q2 where r: "fifo_run put get q1 ops = (outs1, ins1, q2)"
      by (cases "fifo_run put get q1 ops") auto
    note st = put_step [OF Cons.prems(1) _ p]
    have "contents q1 @ ins1 = outs1 @ contents q2 \<and> invar q2 \<and> capacity q2 = capacity q1"
      using Cons.prems Put st by (intro Cons.IH [OF _ _ r]) auto
    then show ?thesis using Cons.prems Put p r st by auto
  next
    case (Get k)
    obtain ys q1 where g: "get q k = (ys, q1)" by (cases "get q k")
    obtain outs1 ins1 q2 where r: "fifo_run put get q1 ops = (outs1, ins1, q2)"
      by (cases "fifo_run put get q1 ops") auto
    note st = get_step [OF Cons.prems(1) _ g]
    have "contents q1 @ ins1 = outs1 @ contents q2 \<and> invar q2 \<and> capacity q2 = capacity q1"
      using Cons.prems Get st by (intro Cons.IH [OF _ _ r]) auto
    then show ?thesis using Cons.prems Get g r st by auto
  qed
qed

text \<open>What is written into an empty channel is what is read back.\<close>

lemma put_get_roundtrip:
  assumes "invar q" "contents q = []" "length xs < limit" "length xs \<le> capacity q"
  shows "fst (get (fst (put q xs)) (length xs)) = xs"
proof -
  obtain q1 n where p: "put q xs = (q1, n)" by (cases "put q xs")
  obtain ys q2 where g: "get q1 (length xs) = (ys, q2)" by (cases "get q1 (length xs)")
  have "contents q1 = xs \<and> invar q1" using put_fits [OF assms(1,3) _ p] assms by simp
  then show ?thesis using get_avail [OF _ assms(3) _ g] p g by simp
qed

end

end
