(* ===== verification/Acts_Ringbuf.thy ===== *)
theory Acts_Ringbuf
  imports Fifo_Spec
begin

text \<open>
  The byte ring buffer of \<^verbatim>\<open>src/framework/base/utils/acts_ringbuf/acts_ringbuf.c\<close> and the inline
  functions of its header \<^verbatim>\<open>src/framework/base/include/utils/acts_ringbuf.h\<close>.

  \<open>head\<close> and \<open>tail\<close> are free-running 32-bit counters, so the length \<open>tail - head\<close> is a wrapping
  subtraction; \<open>head_offset\<close> and \<open>tail_offset\<close> are the positions inside the data area, reduced by
  a conditional subtraction. The data area lives in the byte memory at \<open>cpu_ptr\<close>; an element
  has one byte (\<open>ACTS_RINGBUF_ELEMSZ\<close>), so sizes in elements are sizes in bytes. A \<open>data\<close> argument
  is the list of the caller's bytes, \<open>None\<close> for a null pointer.
\<close>

unbundle bit_operations_syntax

section \<open>Model\<close>

record acts_ringbuf =
  head :: u32
  tail :: u32
  size_e :: u32
  mask :: u32
  cpu_ptr :: u32
  dsp_ptr :: u32
  head_offset :: u32
  tail_offset :: u32

definition is_power_of_two :: "u32 \<Rightarrow> bool" where
  "is_power_of_two x \<longleftrightarrow> x \<noteq> 0 \<and> x AND (x - 1) = 0"

text \<open>\<open>mcu_to_dsp\<close> is the SoC's address translation (\<open>mcu_to_dsp_data_address\<close>), a parameter.\<close>

definition acts_ringbuf_init :: "(u32 \<Rightarrow> u32) \<Rightarrow> u32 \<Rightarrow> u32 \<Rightarrow> acts_ringbuf" where
  "acts_ringbuf_init mcu_to_dsp data sz =
     \<lparr>head = 0, tail = 0, size_e = sz,
      mask = (if is_power_of_two sz then sz - 1 else 0),
      cpu_ptr = data, dsp_ptr = mcu_to_dsp data, head_offset = 0, tail_offset = 0\<rparr>"

text \<open>
  Allocation and release. The allocator is a parameter (\<open>malloc\<close> returns the new heap and an
  address, \<open>None\<close> on failure; \<open>free\<close> gives a block back). The control structure occupies
  \<open>sizeof(struct acts_ringbuf) = 32\<close> bytes; results carry its address.
\<close>

definition acts_ringbuf_init_ext ::
    "('h \<Rightarrow> u32 \<Rightarrow> 'h \<times> u32 option) \<Rightarrow> (u32 \<Rightarrow> u32) \<Rightarrow> 'h \<Rightarrow> u32 \<Rightarrow> u32 \<Rightarrow> 'h \<times> (u32 \<times> acts_ringbuf) option" where
  "acts_ringbuf_init_ext malloc mcu_to_dsp h data sz =
     (case malloc h 32 of
        (h', None) \<Rightarrow> (h', None)
      | (h', Some p) \<Rightarrow> (h', Some (p, acts_ringbuf_init mcu_to_dsp data sz)))"

definition acts_ringbuf_destroy_ext :: "('h \<Rightarrow> u32 \<Rightarrow> 'h) \<Rightarrow> 'h \<Rightarrow> (u32 \<times> acts_ringbuf) option \<Rightarrow> 'h" where
  "acts_ringbuf_destroy_ext free h buf = (case buf of None \<Rightarrow> h | Some (p, _) \<Rightarrow> free h p)"

definition acts_ringbuf_alloc ::
    "('h \<Rightarrow> u32 \<Rightarrow> 'h \<times> u32 option) \<Rightarrow> ('h \<Rightarrow> u32 \<Rightarrow> 'h) \<Rightarrow> (u32 \<Rightarrow> u32) \<Rightarrow> 'h \<Rightarrow> u32
       \<Rightarrow> 'h \<times> (u32 \<times> acts_ringbuf) option" where
  "acts_ringbuf_alloc malloc free mcu_to_dsp h sz =
     (case malloc h 32 of
        (h1, None) \<Rightarrow> (h1, None)
      | (h1, Some p) \<Rightarrow>
          (case malloc h1 sz of
             (h2, None) \<Rightarrow> (free h2 p, None)
           | (h2, Some data) \<Rightarrow> (h2, Some (p, acts_ringbuf_init mcu_to_dsp data sz))))"

definition acts_ringbuf_free :: "('h \<Rightarrow> u32 \<Rightarrow> 'h) \<Rightarrow> 'h \<Rightarrow> (u32 \<times> acts_ringbuf) option \<Rightarrow> 'h" where
  "acts_ringbuf_free free h buf =
     (case buf of None \<Rightarrow> h | Some (p, b) \<Rightarrow> free (free h (cpu_ptr b)) p)"

definition acts_ringbuf_size :: "acts_ringbuf \<Rightarrow> u32" where
  "acts_ringbuf_size buf = size_e buf"

definition acts_ringbuf_length :: "acts_ringbuf \<Rightarrow> u32" where
  "acts_ringbuf_length buf = tail buf - head buf"

definition acts_ringbuf_space :: "acts_ringbuf \<Rightarrow> u32" where
  "acts_ringbuf_space buf = size_e buf - (tail buf - head buf)"

definition acts_ringbuf_is_empty :: "acts_ringbuf \<Rightarrow> bool" where
  "acts_ringbuf_is_empty buf \<longleftrightarrow> head buf = tail buf"

definition acts_ringbuf_is_full :: "acts_ringbuf \<Rightarrow> bool" where
  "acts_ringbuf_is_full buf \<longleftrightarrow> size_e buf = tail buf - head buf"

text \<open>The four statements that move the head (or the tail) forward, shared by all operations.\<close>

definition advance_head :: "acts_ringbuf \<Rightarrow> u32 \<Rightarrow> acts_ringbuf" where
  "advance_head buf n =
     (let off = head_offset buf + n
      in buf\<lparr>head := head buf + n,
             head_offset := (if size_e buf \<le> off then off - size_e buf else off)\<rparr>)"

definition advance_tail :: "acts_ringbuf \<Rightarrow> u32 \<Rightarrow> acts_ringbuf" where
  "advance_tail buf n =
     (let off = tail_offset buf + n
      in buf\<lparr>tail := tail buf + n,
             tail_offset := (if size_e buf \<le> off then off - size_e buf else off)\<rparr>)"

text \<open>
  \<open>acts_ringbuf_peek\<close>: the bytes stored through \<open>data\<close> (none when it is null) and the result.
\<close>

definition acts_ringbuf_peek :: "mem \<Rightarrow> acts_ringbuf \<Rightarrow> bool \<Rightarrow> u32 \<Rightarrow> u8 list \<times> u32" where
  "acts_ringbuf_peek m buf data sz =
     (if acts_ringbuf_length buf < sz then ([], 0)
      else let offset = head_offset buf; len = size_e buf - offset
           in (if \<not> data then []
               else if sz \<le> len then mem_read m (cpu_ptr buf + offset) (unat sz)
               else mem_read m (cpu_ptr buf + offset) (unat len)
                    @ mem_read m (cpu_ptr buf) (unat (sz - len)), sz))"

definition acts_ringbuf_get :: "mem \<Rightarrow> acts_ringbuf \<Rightarrow> bool \<Rightarrow> u32 \<Rightarrow> u8 list \<times> acts_ringbuf \<times> u32" where
  "acts_ringbuf_get m buf data sz =
     (let (out, n) = acts_ringbuf_peek m buf data sz in (out, advance_head buf n, n))"

definition acts_ringbuf_get_claim :: "acts_ringbuf \<Rightarrow> u32 \<Rightarrow> u32 \<times> u32" where
  "acts_ringbuf_get_claim buf sz =
     (let offset = head_offset buf;
          max_size = min (size_e buf - offset) (acts_ringbuf_length buf)
      in (cpu_ptr buf + offset, if sz \<le> max_size then sz else max_size))"

definition acts_ringbuf_get_finish :: "acts_ringbuf \<Rightarrow> u32 \<Rightarrow> acts_ringbuf \<times> int" where
  "acts_ringbuf_get_finish buf sz =
     (let offset = head_offset buf;
          max_size = min (size_e buf - offset) (acts_ringbuf_length buf)
      in if max_size < sz then (buf, - EINVAL) else (advance_head buf sz, 0))"

definition acts_ringbuf_put :: "mem \<Rightarrow> acts_ringbuf \<Rightarrow> u8 list option \<Rightarrow> u32 \<Rightarrow> mem \<times> acts_ringbuf \<times> u32" where
  "acts_ringbuf_put m buf data sz =
     (if acts_ringbuf_space buf < sz then (m, buf, 0)
      else let offset = tail_offset buf; len = size_e buf - offset;
               m' = (case data of None \<Rightarrow> m
                     | Some d \<Rightarrow>
                         if sz \<le> len then mem_write m (cpu_ptr buf + offset) (take (unat sz) d)
                         else mem_write (mem_write m (cpu_ptr buf + offset) (take (unat len) d))
                                (cpu_ptr buf) (take (unat (sz - len)) (drop (unat len) d)))
           in (m', advance_tail buf sz, sz))"

definition acts_ringbuf_put_claim :: "acts_ringbuf \<Rightarrow> u32 \<Rightarrow> u32 \<times> u32" where
  "acts_ringbuf_put_claim buf sz =
     (let offset = tail_offset buf;
          max_size = min (size_e buf - offset) (acts_ringbuf_space buf)
      in (cpu_ptr buf + offset, if sz \<le> max_size then sz else max_size))"

definition acts_ringbuf_put_finish :: "acts_ringbuf \<Rightarrow> u32 \<Rightarrow> acts_ringbuf \<times> int" where
  "acts_ringbuf_put_finish buf sz =
     (let offset = tail_offset buf;
          max_size = min (size_e buf - offset) (acts_ringbuf_space buf)
      in if max_size < sz then (buf, - EINVAL) else (advance_tail buf sz, 0))"

text \<open>
  The \<open>do ... while (1)\<close> loop of \<open>acts_ringbuf_copy\<close>: the source offset, the destination offset
  and the bytes left. \<open>None\<close> is a loop that never reaches its \<open>break\<close> or an overlapping \<open>memcpy\<close>.
\<close>

partial_function (option) copy_loop ::
    "mem \<Rightarrow> acts_ringbuf \<Rightarrow> acts_ringbuf \<Rightarrow> u32 \<Rightarrow> u32 \<Rightarrow> u32 \<Rightarrow> mem option" where
  "copy_loop m dst src src_offset dst_offset sz =
     (let len0 = min (size_e src - src_offset) (size_e dst - dst_offset);
          len = (if sz < len0 then sz else len0)
      in case memcpy m (cpu_ptr dst + dst_offset) (cpu_ptr src + src_offset) (unat len) of
           None \<Rightarrow> None
         | Some m' \<Rightarrow>
             if sz - len = 0 then Some m'
             else copy_loop m' dst src
                    (if size_e src \<le> src_offset + len then 0 else src_offset + len)
                    (if size_e dst \<le> dst_offset + len then 0 else dst_offset + len)
                    (sz - len))"

text \<open>\<open>acts_ringbuf_copy\<close> returns the memory, the destination, the source and the number copied.\<close>

definition acts_ringbuf_copy ::
    "mem \<Rightarrow> acts_ringbuf \<Rightarrow> acts_ringbuf \<Rightarrow> u32 \<Rightarrow> (mem \<times> acts_ringbuf \<times> acts_ringbuf \<times> u32) option" where
  "acts_ringbuf_copy m dst src sz =
     (let size1 = (if acts_ringbuf_length src < sz then acts_ringbuf_length src else sz);
          size2 = (if acts_ringbuf_space dst < size1 then acts_ringbuf_space dst else size1)
      in if size2 = 0 then Some (m, dst, src, 0)
         else case copy_loop m dst src (head_offset src) (tail_offset dst) size2 of
                None \<Rightarrow> None
              | Some m' \<Rightarrow> Some (m', advance_tail dst size2, advance_head src size2, size2))"

text \<open>
  \<open>acts_ringbuf_read\<close> hands the bytes to a stream: \<open>stream_write\<close> takes the stream state and the
  bytes and returns an \<open>int\<close>, negative on error. The second result is stored in a \<open>uint32_t\<close>
  before it is compared with 0 and added, exactly as here.
\<close>

definition acts_ringbuf_read ::
    "('s \<Rightarrow> u8 list \<Rightarrow> 's \<times> u32) \<Rightarrow> mem \<Rightarrow> acts_ringbuf \<Rightarrow> 's \<Rightarrow> u32 \<Rightarrow> 's \<times> acts_ringbuf \<times> u32" where
  "acts_ringbuf_read stream_write m buf stream sz =
     (if acts_ringbuf_length buf < sz then (stream, buf, 0)
      else let offset = head_offset buf; len = size_e buf - offset;
               (stream', stream_len) =
                 (if sz \<le> len then stream_write stream (mem_read m (cpu_ptr buf + offset) (unat sz))
                  else let (s1, l1) = stream_write stream (mem_read m (cpu_ptr buf + offset) (unat len))
                       in if l1 = len
                          then let (s2, tmp) = stream_write s1 (mem_read m (cpu_ptr buf) (unat (sz - len)))
                               in (s2, if 0 < tmp then l1 + tmp else l1)
                          else (s1, l1))
           in if 0 <s stream_len then (stream', advance_head buf stream_len, stream_len)
              else (stream', buf, 0))"

text \<open>\<open>stream_read\<close> fills memory: it returns the bytes it stored and its \<open>int\<close> result.\<close>

definition acts_ringbuf_write ::
    "('s \<Rightarrow> u32 \<Rightarrow> 's \<times> u8 list \<times> u32) \<Rightarrow> mem \<Rightarrow> acts_ringbuf \<Rightarrow> 's \<Rightarrow> u32
       \<Rightarrow> 's \<times> mem \<times> acts_ringbuf \<times> u32" where
  "acts_ringbuf_write stream_read m buf stream sz =
     (if acts_ringbuf_space buf < sz then (stream, m, buf, 0)
      else let offset = tail_offset buf; len = size_e buf - offset;
               (stream', m', stream_len) =
                 (if sz \<le> len
                  then let (s1, bs, l1) = stream_read stream sz
                       in (s1, mem_write m (cpu_ptr buf + offset) bs, l1)
                  else let (s1, bs, l1) = stream_read stream len;
                           m1 = mem_write m (cpu_ptr buf + offset) bs
                       in if l1 = len
                          then let (s2, bs2, tmp) = stream_read s1 (sz - len)
                               in (s2, mem_write m1 (cpu_ptr buf) bs2, if 0 < tmp then l1 + tmp else l1)
                          else (s1, m1, l1))
           in if 0 <s stream_len then (stream', m', advance_tail buf stream_len, stream_len)
              else (stream', m', buf, 0))"

definition acts_ringbuf_drop :: "acts_ringbuf \<Rightarrow> u32 \<Rightarrow> acts_ringbuf \<times> u32" where
  "acts_ringbuf_drop buf sz =
     (if acts_ringbuf_length buf < sz then (buf, 0) else (advance_head buf sz, sz))"

definition acts_ringbuf_drop_all :: "acts_ringbuf \<Rightarrow> acts_ringbuf \<times> u32" where
  "acts_ringbuf_drop_all buf =
     (let len = acts_ringbuf_length buf in (advance_head buf len, len))"

definition acts_ringbuf_fill :: "mem \<Rightarrow> acts_ringbuf \<Rightarrow> u8 \<Rightarrow> u32 \<Rightarrow> mem \<times> acts_ringbuf \<times> u32" where
  "acts_ringbuf_fill m buf c sz =
     (if acts_ringbuf_space buf < sz then (m, buf, 0)
      else let offset = tail_offset buf; len = size_e buf - offset;
               m' = (if sz \<le> len then mem_write m (cpu_ptr buf + offset) (replicate (unat sz) c)
                     else mem_write (mem_write m (cpu_ptr buf + offset) (replicate (unat len) c))
                            (cpu_ptr buf) (replicate (unat (sz - len)) c))
           in (m', advance_tail buf sz, sz))"

definition acts_ringbuf_fill_none :: "acts_ringbuf \<Rightarrow> u32 \<Rightarrow> acts_ringbuf \<times> u32" where
  "acts_ringbuf_fill_none buf sz =
     (if acts_ringbuf_space buf < sz then (buf, 0) else (advance_tail buf sz, sz))"

definition acts_ringbuf_head_ptr :: "acts_ringbuf \<Rightarrow> u32 \<times> u32" where
  "acts_ringbuf_head_ptr buf = acts_ringbuf_get_claim buf (acts_ringbuf_length buf)"

definition acts_ringbuf_tail_ptr :: "acts_ringbuf \<Rightarrow> u32 \<times> u32" where
  "acts_ringbuf_tail_ptr buf = acts_ringbuf_put_claim buf (acts_ringbuf_space buf)"

text \<open>\<open>acts_ringbuf_defrag\<close>; \<open>None\<close> when its \<open>memcpy\<close> has overlapping operands.\<close>

definition acts_ringbuf_defrag :: "mem \<Rightarrow> acts_ringbuf \<Rightarrow> (mem \<times> acts_ringbuf) option" where
  "acts_ringbuf_defrag m buf =
     (let rebase = (\<lambda>b. b\<lparr>tail := tail b - head b, tail_offset := tail b - head b,
                          head := 0, head_offset := 0\<rparr>)
      in if head_offset buf = 0 \<or> acts_ringbuf_is_empty buf then Some (m, rebase buf)
         else if tail_offset buf \<le> head_offset buf
         then Some (m, buf\<lparr>head := head_offset buf, tail := tail_offset buf + size_e buf\<rparr>)
         else let roff = head_offset buf; woff = tail_offset buf
              in case memcpy m (cpu_ptr buf) (cpu_ptr buf + roff) (unat (woff - roff)) of
                   None \<Rightarrow> None
                 | Some m' \<Rightarrow> Some (m', rebase buf))"

section \<open>Invariant and abstraction\<close>

text \<open>
  The abstract value of a ring buffer is the list of bytes between head and tail. The invariant
  bounds the size by \<open>2 ^ 31\<close>: beyond it \<open>head_offset += size\<close> overflows 32 bits before the
  conditional subtraction, which no data area of the target can reach.
\<close>

definition rb_len :: "acts_ringbuf \<Rightarrow> nat" where
  "rb_len buf = unat (tail buf - head buf)"

definition rb_inv :: "acts_ringbuf \<Rightarrow> bool" where
  "rb_inv buf \<longleftrightarrow>
     0 < unat (size_e buf) \<and> unat (size_e buf) \<le> 2147483648 \<and>
     unat (head_offset buf) < unat (size_e buf) \<and>
     rb_len buf \<le> unat (size_e buf) \<and>
     unat (tail_offset buf) = (unat (head_offset buf) + rb_len buf) mod unat (size_e buf)"

definition rb_list :: "mem \<Rightarrow> acts_ringbuf \<Rightarrow> u8 list" where
  "rb_list m buf =
     ring_read m (cpu_ptr buf) (unat (size_e buf)) (unat (head_offset buf)) (rb_len buf)"

section \<open>Allocation leaves no block behind\<close>

text \<open>
  With an allocator whose \<open>free\<close> undoes the matching \<open>malloc\<close> and whose failures leave the heap
  alone, a failed \<open>acts_ringbuf_alloc\<close> and an alloc/free pair leave the heap as it was.
\<close>

lemma alloc_balanced:
  assumes fail: "\<And>h h' n. malloc h n = (h', None) \<Longrightarrow> h' = h"
    and undo: "\<And>h h' n p. malloc h n = (h', Some p) \<Longrightarrow> free h' p = h"
    and run: "acts_ringbuf_alloc malloc free f h sz = (h', r)"
  shows "acts_ringbuf_free free h' r = h"
proof -
  obtain h1 p where m1: "malloc h 32 = (h1, p)" by force
  show ?thesis
  proof (cases p)
    case None
    then show ?thesis using m1 fail run by (auto simp: acts_ringbuf_alloc_def acts_ringbuf_free_def)
  next
    case (Some a)
    obtain h2 d where m2: "malloc h1 sz = (h2, d)" by force
    from m1 Some have "free h1 a = h" by (auto intro: undo)
    then show ?thesis
      using m1 m2 Some run fail [of h1 sz h2] undo [of h1 sz h2]
      by (cases d) (auto simp: acts_ringbuf_alloc_def acts_ringbuf_free_def acts_ringbuf_init_def)
  qed
qed

section \<open>The offset updates\<close>

lemma rb_inv_bounds:
  assumes "rb_inv buf"
  shows "0 < unat (size_e buf)" "unat (size_e buf) \<le> 2147483648"
    "unat (head_offset buf) < unat (size_e buf)" "unat (tail_offset buf) < unat (size_e buf)"
    "rb_len buf \<le> unat (size_e buf)"
    "unat (tail_offset buf) = (unat (head_offset buf) + rb_len buf) mod unat (size_e buf)"
  using assms by (auto simp: rb_inv_def)

lemma length_eq [simp]: "unat (acts_ringbuf_length buf) = rb_len buf"
  by (simp add: acts_ringbuf_length_def rb_len_def)

lemma space_eq: "rb_inv buf \<Longrightarrow> unat (acts_ringbuf_space buf) = unat (size_e buf) - rb_len buf"
  by (simp add: acts_ringbuf_space_def rb_len_def rb_inv_def unat_sub_u32)

lemma advance_fields [simp]:
  "size_e (advance_head buf n) = size_e buf" "size_e (advance_tail buf n) = size_e buf"
  "cpu_ptr (advance_head buf n) = cpu_ptr buf" "cpu_ptr (advance_tail buf n) = cpu_ptr buf"
  "head_offset (advance_tail buf n) = head_offset buf" "tail_offset (advance_head buf n) = tail_offset buf"
  "head (advance_tail buf n) = head buf" "tail (advance_head buf n) = tail buf"
  "head (advance_head buf n) = head buf + n" "tail (advance_tail buf n) = tail buf + n"
  by (simp_all add: advance_head_def advance_tail_def Let_def)

lemma advance_head_offset:
  assumes "rb_inv buf" "unat n \<le> unat (size_e buf)"
  shows "unat (head_offset (advance_head buf n)) =
           (unat (head_offset buf) + unat n) mod unat (size_e buf)"
  using wrap_offset [of "head_offset buf" "size_e buf" n] assms
  by (simp add: advance_head_def Let_def rb_inv_bounds)

lemma advance_tail_offset:
  assumes "rb_inv buf" "unat n \<le> unat (size_e buf)"
  shows "unat (tail_offset (advance_tail buf n)) =
           (unat (tail_offset buf) + unat n) mod unat (size_e buf)"
  using wrap_offset [of "tail_offset buf" "size_e buf" n] assms
  by (simp add: advance_tail_def Let_def rb_inv_bounds)

lemma advance_head_len:
  assumes "unat n \<le> rb_len buf"
  shows "rb_len (advance_head buf n) = rb_len buf - unat n"
proof -
  have "tail buf - (head buf + n) = tail buf - head buf - n" by simp
  then have "rb_len (advance_head buf n) = unat (tail buf - head buf - n)"
    unfolding rb_len_def advance_fields by (rule arg_cong)
  also have "\<dots> = rb_len buf - unat n"
    using assms unfolding rb_len_def by (rule unat_sub_u32)
  finally show ?thesis .
qed

lemma advance_tail_len:
  assumes "rb_inv buf" "unat n \<le> unat (size_e buf) - rb_len buf"
  shows "rb_len (advance_tail buf n) = rb_len buf + unat n"
proof -
  have "tail buf + n - head buf = (tail buf - head buf) + n" by simp
  then have "rb_len (advance_tail buf n) = unat ((tail buf - head buf) + n)"
    unfolding rb_len_def advance_fields by (rule arg_cong)
  also have "unat (tail buf - head buf) + unat n < 4294967296"
    using assms rb_inv_bounds(2,5) [OF assms(1)] by (simp add: rb_len_def)
  then have "unat ((tail buf - head buf) + n) = rb_len buf + unat n"
    unfolding rb_len_def by (rule unat_add_u32)
  finally show ?thesis .
qed

lemma advance_head_inv:
  assumes "rb_inv buf" "unat n \<le> rb_len buf"
  shows "rb_inv (advance_head buf n)"
proof -
  have n: "unat n \<le> unat (size_e buf)" using assms rb_inv_bounds(5) [OF assms(1)] by simp
  have "((unat (head_offset buf) + unat n) mod unat (size_e buf) + (rb_len buf - unat n)) mod unat (size_e buf)
      = (unat (head_offset buf) + rb_len buf) mod unat (size_e buf)"
    using assms(2) mod_add_left_eq [of "unat (head_offset buf) + unat n" "unat (size_e buf)" "rb_len buf - unat n"]
    by simp
  then show ?thesis
    using assms rb_inv_bounds [OF assms(1)] advance_head_offset [OF assms(1) n] advance_head_len [OF assms(2)]
    by (simp add: rb_inv_def del: Nat.add_diff_assoc)
qed

lemma advance_tail_inv:
  assumes "rb_inv buf" "unat n \<le> unat (size_e buf) - rb_len buf"
  shows "rb_inv (advance_tail buf n)"
proof -
  have n: "unat n \<le> unat (size_e buf)" using assms by simp
  show ?thesis
    using assms rb_inv_bounds [OF assms(1)] advance_tail_offset [OF assms(1) n] advance_tail_len [OF assms]
    by (simp add: rb_inv_def mod_add_left_eq add.assoc)
qed

section \<open>Effect of each operation on the abstract list\<close>

lemma length_rb_list [simp]: "length (rb_list m buf) = rb_len buf"
  by (simp add: rb_list_def)

lemma advance_head_list:
  assumes "rb_inv buf" "unat n \<le> rb_len buf"
  shows "rb_list m (advance_head buf n) = drop (unat n) (rb_list m buf)"
  using assms rb_inv_bounds(5) [OF assms(1)]
  by (simp add: rb_list_def drop_ring_read advance_head_len advance_head_offset)

lemma advance_tail_list:
  assumes "rb_inv buf" "unat n \<le> unat (size_e buf) - rb_len buf"
  shows "rb_list m (advance_tail buf n) = rb_list m buf @
           ring_read m (cpu_ptr buf) (unat (size_e buf)) (unat (tail_offset buf)) (unat n)"
  using assms by (simp add: rb_list_def advance_tail_len ring_read_append rb_inv_bounds(6))

text \<open>The split copies of the code are circular accesses.\<close>

lemma split_read:
  assumes "rb_inv buf" "unat n \<le> unat (size_e buf)" "unat off < unat (size_e buf)"
  shows "(if n \<le> size_e buf - off then mem_read m (cpu_ptr buf + off) (unat n)
          else mem_read m (cpu_ptr buf + off) (unat (size_e buf - off))
               @ mem_read m (cpu_ptr buf) (unat (n - (size_e buf - off)))) =
         ring_read m (cpu_ptr buf) (unat (size_e buf)) (unat off) (unat n)"
proof -
  have l: "unat (size_e buf - off) = unat (size_e buf) - unat off"
    using assms by (simp add: unat_sub_u32)
  show ?thesis
  proof (cases "n \<le> size_e buf - off")
    case True
    then have "unat off + unat n \<le> unat (size_e buf)" using assms by (simp add: word_le_nat l)
    from ring_read_one [OF this, of m "cpu_ptr buf"] show ?thesis using True by simp
  next
    case False
    then have "unat (size_e buf) < unat off + unat n" using assms by (simp add: word_le_nat l)
    moreover from False have "unat (n - (size_e buf - off)) = unat n - (unat (size_e buf) - unat off)"
      by (simp add: unat_sub_u32 word_le_nat l)
    ultimately show ?thesis
      using ring_read_two [of "unat off" "unat (size_e buf)" "unat n" m "cpu_ptr buf"] False assms
      by (simp add: l)
  qed
qed

lemma split_write:
  assumes "rb_inv buf" "unat n \<le> unat (size_e buf)" "unat off < unat (size_e buf)" "length d = unat n"
  shows "(if n \<le> size_e buf - off then mem_write m (cpu_ptr buf + off) d
          else mem_write (mem_write m (cpu_ptr buf + off) (take (unat (size_e buf - off)) d))
                 (cpu_ptr buf) (drop (unat (size_e buf - off)) d)) =
         ring_write m (cpu_ptr buf) (unat (size_e buf)) (unat off) d"
proof -
  have l: "unat (size_e buf - off) = unat (size_e buf) - unat off"
    using assms by (simp add: unat_sub_u32)
  note sz = rb_inv_bounds(2) [OF assms(1)]
  show ?thesis
  proof (cases "n \<le> size_e buf - off")
    case True
    then have "unat off + length d \<le> unat (size_e buf)" using assms by (simp add: word_le_nat l)
    from ring_write_one [OF this assms(3) sz, of m "cpu_ptr buf"] show ?thesis using True by simp
  next
    case False
    then have "unat (size_e buf) < unat off + length d" using assms by (simp add: word_le_nat l)
    from ring_write_two [OF assms(3) this _ sz, of m "cpu_ptr buf"] show ?thesis
      using False assms by (simp add: l)
  qed
qed

lemma ring_write_tail_list:
  assumes "rb_inv buf" "length d = unat n" "unat n \<le> unat (size_e buf) - rb_len buf"
  shows "rb_list (ring_write m (cpu_ptr buf) (unat (size_e buf)) (unat (tail_offset buf)) d)
           (advance_tail buf n) = rb_list m buf @ d"
proof -
  note b = rb_inv_bounds [OF assms(1)]
  let ?m = "ring_write m (cpu_ptr buf) (unat (size_e buf)) (unat (tail_offset buf)) d"
  have "rb_list ?m buf = rb_list m buf"
    unfolding rb_list_def b(6) using assms b by (intro ring_read_write_before) auto
  moreover have "ring_read ?m (cpu_ptr buf) (unat (size_e buf)) (unat (tail_offset buf)) (unat n) = d"
    using ring_read_write_same [of "unat (tail_offset buf)" "unat (size_e buf)" d m "cpu_ptr buf"] assms b
    by simp
  ultimately show ?thesis using assms by (simp add: advance_tail_list)
qed

section \<open>Put, get and the other transfers\<close>

lemma put_accept:
  assumes "rb_inv buf" "length d = unat n" "unat n \<le> unat (size_e buf) - rb_len buf"
  shows "acts_ringbuf_put m buf (Some d) n =
           (ring_write m (cpu_ptr buf) (unat (size_e buf)) (unat (tail_offset buf)) d, advance_tail buf n, n)"
proof -
  note b = rb_inv_bounds [OF assms(1)]
  have "\<not> acts_ringbuf_space buf < n"
    using assms by (simp add: word_le_nat space_eq not_less)
  moreover have "unat n \<le> unat (size_e buf)" using assms by simp
  note split_write [OF assms(1) this b(4) assms(2), of m]
  moreover let ?len = "size_e buf - tail_offset buf"
  have "take (unat (n - ?len)) (drop (unat ?len) d) = drop (unat ?len) d" if "\<not> n \<le> ?len"
    using that assms(2) by (simp add: unat_sub_u32 word_le_nat)
  ultimately show ?thesis
    using assms(2) unfolding acts_ringbuf_put_def Let_def by (cases "n \<le> ?len") simp_all
qed

lemma put_reject:
  assumes "rb_inv buf" "unat (size_e buf) - rb_len buf < unat n"
  shows "acts_ringbuf_put m buf d n = (m, buf, 0)"
  using assms by (simp add: acts_ringbuf_put_def word_le_nat space_eq)

lemma peek_accept:
  assumes "rb_inv buf" "unat n \<le> rb_len buf"
  shows "acts_ringbuf_peek m buf data n = (if data then take (unat n) (rb_list m buf) else [], n)"
proof -
  note b = rb_inv_bounds [OF assms(1)]
  have "\<not> acts_ringbuf_length buf < n" using assms by (simp add: word_le_nat not_less)
  then show ?thesis
    using split_read [OF assms(1) _ b(3), of n m] assms b
    by (simp add: acts_ringbuf_peek_def Let_def rb_list_def take_ring_read)
qed

lemma peek_reject: "rb_len buf < unat n \<Longrightarrow> acts_ringbuf_peek m buf data n = ([], 0)"
  by (simp add: acts_ringbuf_peek_def word_le_nat)

lemma advance_head_0: "rb_inv buf \<Longrightarrow> advance_head buf 0 = buf"
  by (auto simp: advance_head_def rb_inv_def word_le_nat)

lemma get_accept:
  assumes "rb_inv buf" "unat n \<le> rb_len buf"
  shows "acts_ringbuf_get m buf data n =
           (if data then take (unat n) (rb_list m buf) else [], advance_head buf n, n)"
  using assms by (simp add: acts_ringbuf_get_def peek_accept)

lemma get_reject:
  assumes "rb_inv buf" "rb_len buf < unat n"
  shows "acts_ringbuf_get m buf data n = ([], buf, 0)"
  using assms by (simp add: acts_ringbuf_get_def peek_reject advance_head_0)

lemma fill_accept:
  assumes "rb_inv buf" "unat n \<le> unat (size_e buf) - rb_len buf"
  shows "acts_ringbuf_fill m buf c n =
           (ring_write m (cpu_ptr buf) (unat (size_e buf)) (unat (tail_offset buf)) (replicate (unat n) c),
            advance_tail buf n, n)"
proof -
  note b = rb_inv_bounds [OF assms(1)]
  have "\<not> acts_ringbuf_space buf < n"
    using assms by (simp add: word_le_nat space_eq not_less)
  moreover have "unat n \<le> unat (size_e buf)" using assms by simp
  note split_write [OF assms(1) this b(4), of "replicate (unat n) c" m]
  moreover let ?len = "size_e buf - tail_offset buf"
  have "take (unat ?len) (replicate (unat n) c) = replicate (unat ?len) c \<and>
     drop (unat ?len) (replicate (unat n) c) = replicate (unat (n - ?len)) c" if "\<not> n \<le> ?len"
    using that by (simp add: unat_sub_u32 word_le_nat)
  ultimately show ?thesis
    unfolding acts_ringbuf_fill_def Let_def by (cases "n \<le> ?len") simp_all
qed

section \<open>The copy loop\<close>

lemma copy_loop_correct:
  assumes "rb_inv dst" "rb_inv src"
    and "regions_disjoint (cpu_ptr dst) (unat (size_e dst)) (cpu_ptr src) (unat (size_e src))"
    and "unat so < unat (size_e src)" "unat d < unat (size_e dst)"
    and "0 < unat n" "unat n \<le> unat (size_e src)" "unat n \<le> unat (size_e dst)"
  shows "copy_loop m dst src so d n =
    Some (ring_write m (cpu_ptr dst) (unat (size_e dst)) (unat d)
            (ring_read m (cpu_ptr src) (unat (size_e src)) (unat so) (unat n)))"
  using assms(4-)
proof (induction "unat n" arbitrary: m so d n rule: less_induct)
  case less
  let ?ss = "unat (size_e src)" and ?ds = "unat (size_e dst)"
  let ?sb = "cpu_ptr src" and ?db = "cpu_ptr dst"
  note bs = rb_inv_bounds(2) [OF assms(2)] and bd = rb_inv_bounds(2) [OF assms(1)]
  define len0 where "len0 = min (size_e src - so) (size_e dst - d)"
  define len where "len = (if n < len0 then n else len0)"
  have ul: "unat len = min (unat n) (min (?ss - unat so) (?ds - unat d))"
    using less.prems by (auto simp: len_def len0_def min_def word_le_nat unat_sub_u32)
  then have lpos: "0 < unat len" and ln: "unat len \<le> unat n"
    and ls: "unat so + unat len \<le> ?ss" and ld: "unat d + unat len \<le> ?ds"
    using less.prems by auto
  let ?chunk = "ring_read m ?sb ?ss (unat so) (unat len)"
  let ?m1 = "ring_write m ?db ?ds (unat d) ?chunk"
  have "\<not> regions_overlap (?db + d) (?sb + so) (unat len)"
    using disjoint_blocks [OF assms(3) ld ls bd bs] by simp
  then have cp: "memcpy m (?db + d) (?sb + so) (unat len) = Some ?m1"
    using ring_read_one [OF ls, of m ?sb] ring_write_one [of "unat d" ?chunk ?ds m ?db] ld less.prems bd
    by (simp add: memcpy_def)
  have un: "unat (n - len) = unat n - unat len" using ln by (rule unat_sub_u32)
  show ?case
  proof (cases "n - len = 0")
    case True
    then have "len = n" by simp
    then show ?thesis using cp True
      by (subst copy_loop.simps) (simp add: Let_def len0_def [symmetric] len_def [symmetric])
  next
    case False
    then have nl: "unat len < unat n" using un ln by (metis diff_is_0_eq' le_neq_implies_less unat_eq_zero)
    let ?so = "if size_e src \<le> so + len then 0 else so + len"
    let ?d = "if size_e dst \<le> d + len then 0 else d + len"
    have so': "unat ?so = (unat so + unat len) mod ?ss" by (rule copy_step_offset [OF ls less.prems(1) bs])
    have d': "unat ?d = (unat d + unat len) mod ?ds" by (rule copy_step_offset [OF ld less.prems(2) bd])
    have frame: "ring_read ?m1 ?sb ?ss off k = ring_read m ?sb ?ss off k" for off k
      using assms(3) less.prems bs
      by (intro ring_read_frame ring_write_frame) (auto simp: regions_disjoint_def not_less [symmetric])
    have "copy_loop ?m1 dst src ?so ?d (n - len) =
        Some (ring_write ?m1 ?db ?ds (unat ?d) (ring_read ?m1 ?sb ?ss (unat ?so) (unat (n - len))))"
    proof (rule less.hyps)
      show "unat (n - len) < unat n" using un lpos nl by simp
      show "unat ?so < ?ss" unfolding so' using less.prems(1) by simp
      show "unat ?d < ?ds" unfolding d' using less.prems(2) by simp
      show "0 < unat (n - len)" unfolding un using nl by simp
      show "unat (n - len) \<le> ?ss" "unat (n - len) \<le> ?ds" unfolding un using less.prems by auto
    qed
    also have "ring_write ?m1 ?db ?ds (unat ?d) (ring_read ?m1 ?sb ?ss (unat ?so) (unat (n - len))) =
        ring_write m ?db ?ds (unat d) (?chunk @ ring_read m ?sb ?ss (unat ?so) (unat (n - len)))"
      unfolding frame unfolding d'
      using ring_write_append [of "unat d" ?ds ?chunk "ring_read m ?sb ?ss (unat ?so) (unat (n - len))" m ?db]
        less.prems nl un by simp
    also have "?chunk @ ring_read m ?sb ?ss (unat ?so) (unat (n - len)) = ring_read m ?sb ?ss (unat so) (unat n)"
      unfolding so' using ring_read_append [of m ?sb ?ss "unat so" "unat len" "unat (n - len)"] un ln by simp
    finally show ?thesis using cp False
      by (subst copy_loop.simps) (simp only: Let_def len0_def [symmetric] len_def [symmetric] option.case if_False)
  qed
qed

lemma copy_spec:
  assumes "rb_inv dst" "rb_inv src"
    and "regions_disjoint (cpu_ptr dst) (unat (size_e dst)) (cpu_ptr src) (unat (size_e src))"
  shows "\<exists>m' dst' src' k. acts_ringbuf_copy m dst src n = Some (m', dst', src', k) \<and>
     unat k = min (unat n) (min (rb_len src) (unat (size_e dst) - rb_len dst)) \<and>
     rb_list m' dst' = rb_list m dst @ take (unat k) (rb_list m src) \<and>
     rb_list m' src' = drop (unat k) (rb_list m src) \<and> rb_inv dst' \<and> rb_inv src'"
proof -
  let ?ss = "unat (size_e src)" and ?ds = "unat (size_e dst)"
  let ?sb = "cpu_ptr src" and ?db = "cpu_ptr dst"
  note bs = rb_inv_bounds [OF assms(2)] and bd = rb_inv_bounds [OF assms(1)]
  define k1 where "k1 = (if acts_ringbuf_length src < n then acts_ringbuf_length src else n)"
  define k where "k = (if acts_ringbuf_space dst < k1 then acts_ringbuf_space dst else k1)"
  have uk: "unat k = min (unat n) (min (rb_len src) (?ds - rb_len dst))"
    using assms by (auto simp: k_def k1_def word_le_nat space_eq min_def)
  let ?m = "if k = 0 then m else ring_write m ?db ?ds (unat (tail_offset dst))
      (ring_read m ?sb ?ss (unat (head_offset src)) (unat k))"
  let ?dst = "if k = 0 then dst else advance_tail dst k" and ?src = "if k = 0 then src else advance_head src k"
  have ks: "unat k \<le> rb_len src" and kd: "unat k \<le> ?ds - rb_len dst" using uk by auto
  have "copy_loop m dst src (head_offset src) (tail_offset dst) k = Some ?m" if "k \<noteq> 0"
  proof -
    have "0 < unat k" "unat k \<le> ?ss" "unat k \<le> ?ds"
      using that ks kd bs(5) bd(5) by (auto simp: unat_gt_0)
    from copy_loop_correct [OF assms bs(3) bd(4) this] show ?thesis using that by simp
  qed
  then have r: "acts_ringbuf_copy m dst src n = Some (?m, ?dst, ?src, k)"
    by (simp add: acts_ringbuf_copy_def Let_def k1_def [symmetric] k_def [symmetric])
  have chunk: "ring_read m ?sb ?ss (unat (head_offset src)) (unat k) = take (unat k) (rb_list m src)"
    using ks by (simp add: rb_list_def take_ring_read)
  have "rb_list ?m ?dst = rb_list m dst @ take (unat k) (rb_list m src)"
    using ring_write_tail_list [OF assms(1) _ kd, of "take (unat k) (rb_list m src)" m] ks
    by (simp add: chunk)
  moreover have "rb_list ?m b = rb_list m b" if "cpu_ptr b = ?sb" "size_e b = size_e src" for b
    unfolding rb_list_def that using assms(3) bs
    by (auto intro!: ring_read_frame ring_write_frame simp: regions_disjoint_def not_less [symmetric])
  then have "rb_list ?m ?src = drop (unat k) (rb_list m src)"
    using advance_head_list [OF assms(2) ks] by simp
  moreover have "rb_inv ?dst" "rb_inv ?src"
    using assms advance_tail_inv [OF assms(1) kd] advance_head_inv [OF assms(2) ks] by auto
  ultimately show ?thesis using r uk by blast
qed

section \<open>Claiming and finishing\<close>

lemma put_claim_finish:
  assumes "rb_inv buf" "acts_ringbuf_put_claim buf n = (a, k)" "length d = unat k"
  shows "acts_ringbuf_put_finish buf k = (advance_tail buf k, 0) \<and>
    rb_list (mem_write m a d) (advance_tail buf k) = rb_list m buf @ d \<and>
    unat k \<le> unat n \<and> unat k \<le> unat (size_e buf) - rb_len buf"
proof -
  note b = rb_inv_bounds [OF assms(1)]
  define mx where "mx = min (size_e buf - tail_offset buf) (acts_ringbuf_space buf)"
  have umx: "unat mx = min (unat (size_e buf) - unat (tail_offset buf)) (unat (size_e buf) - rb_len buf)"
    unfolding mx_def using b assms(1) by (simp add: min_def word_le_nat unat_sub_u32 space_eq)
  have a: "a = cpu_ptr buf + tail_offset buf" and k: "k = (if n \<le> mx then n else mx)"
    using assms(2) by (auto simp: acts_ringbuf_put_claim_def Let_def mx_def)
  have kn: "unat k \<le> unat n" "unat k \<le> unat mx" using k by (auto simp: word_le_nat split: if_splits)
  have "mem_write m a d = ring_write m (cpu_ptr buf) (unat (size_e buf)) (unat (tail_offset buf)) d"
  proof -
    have "unat (tail_offset buf) + length d \<le> unat (size_e buf)" using kn umx b(4) assms(3) by linarith
    from ring_write_one [OF this b(4,2)] show ?thesis unfolding a by simp
  qed
  then have "rb_list (mem_write m a d) (advance_tail buf k) = rb_list m buf @ d"
    using ring_write_tail_list [OF assms(1,3)] kn umx by simp
  moreover have "acts_ringbuf_put_finish buf k = (advance_tail buf k, 0)"
    using kn by (simp add: acts_ringbuf_put_finish_def Let_def mx_def [symmetric] word_le_nat not_less)
  ultimately show ?thesis using kn umx by simp
qed

lemma get_claim_finish:
  assumes "rb_inv buf" "acts_ringbuf_get_claim buf n = (a, k)"
  shows "acts_ringbuf_get_finish buf k = (advance_head buf k, 0) \<and>
    mem_read m a (unat k) = take (unat k) (rb_list m buf) \<and> unat k \<le> unat n \<and> unat k \<le> rb_len buf"
proof -
  note b = rb_inv_bounds [OF assms(1)]
  define mx where "mx = min (size_e buf - head_offset buf) (acts_ringbuf_length buf)"
  have umx: "unat mx = min (unat (size_e buf) - unat (head_offset buf)) (rb_len buf)"
    unfolding mx_def using b assms(1) by (simp add: min_def word_le_nat unat_sub_u32)
  have a: "a = cpu_ptr buf + head_offset buf" and k: "k = (if n \<le> mx then n else mx)"
    using assms(2) by (auto simp: acts_ringbuf_get_claim_def Let_def mx_def)
  have kn: "unat k \<le> unat n" "unat k \<le> unat mx" using k by (auto simp: word_le_nat split: if_splits)
  have "mem_read m a (unat k) = ring_read m (cpu_ptr buf) (unat (size_e buf)) (unat (head_offset buf)) (unat k)"
  proof -
    have "unat (head_offset buf) + unat k \<le> unat (size_e buf)" using kn umx b(3) by linarith
    from ring_read_one [OF this] show ?thesis unfolding a by simp
  qed
  also have "\<dots> = take (unat k) (rb_list m buf)"
    using kn umx by (simp add: rb_list_def take_ring_read)
  finally show ?thesis
    using kn umx by (simp add: acts_ringbuf_get_finish_def Let_def mx_def [symmetric] word_le_nat not_less)
qed

section \<open>Defragmentation\<close>

lemma not_empty_iff: "acts_ringbuf_is_empty buf \<longleftrightarrow> rb_len buf = 0"
  by (auto simp: acts_ringbuf_is_empty_def rb_len_def unat_eq_zero)

lemma linear_layout:
  assumes "rb_inv buf" "head_offset buf < tail_offset buf"
  shows "unat (tail_offset buf) = unat (head_offset buf) + rb_len buf"
    "unat (tail_offset buf - head_offset buf) = rb_len buf"
proof -
  note b = rb_inv_bounds [OF assms(1)]
  have lt: "unat (head_offset buf) < unat (tail_offset buf)" using assms(2) by (simp add: word_le_nat)
  show 1: "unat (tail_offset buf) = unat (head_offset buf) + rb_len buf"
  proof (cases "unat (head_offset buf) + rb_len buf < unat (size_e buf)")
    case True then show ?thesis using b(6) by simp
  next
    case False
    then have "(unat (head_offset buf) + rb_len buf) mod unat (size_e buf) =
        unat (head_offset buf) + rb_len buf - unat (size_e buf)"
      using b(3,5) by (simp add: le_mod_geq)
    then show ?thesis using b lt False by linarith
  qed
  show "unat (tail_offset buf - head_offset buf) = rb_len buf"
    using 1 lt by (simp add: unat_sub_u32)
qed

lemma wrapped_layout:
  assumes "rb_inv buf" "tail_offset buf \<le> head_offset buf" "0 < rb_len buf"
  shows "unat (tail_offset buf) + unat (size_e buf) = unat (head_offset buf) + rb_len buf"
proof -
  note b = rb_inv_bounds [OF assms(1)]
  have "unat (tail_offset buf) \<le> unat (head_offset buf)" using assms(2) by (simp add: word_le_nat)
  then have "\<not> unat (head_offset buf) + rb_len buf < unat (size_e buf)" using b(6) assms(3) by auto
  then show ?thesis using b by (simp add: le_mod_geq)
qed

definition defrag_overlaps :: "acts_ringbuf \<Rightarrow> bool" where
  "defrag_overlaps buf \<longleftrightarrow> head_offset buf \<noteq> 0 \<and> head_offset buf < tail_offset buf \<and>
     unat (head_offset buf) < rb_len buf"

lemma defrag_None_iff:
  assumes "rb_inv buf"
  shows "acts_ringbuf_defrag m buf = None \<longleftrightarrow> defrag_overlaps buf"
proof (cases "head_offset buf = 0 \<or> acts_ringbuf_is_empty buf \<or> tail_offset buf \<le> head_offset buf")
  case True
  then show ?thesis
    by (auto simp: acts_ringbuf_defrag_def defrag_overlaps_def not_empty_iff Let_def)
next
  case False
  then have lt: "head_offset buf < tail_offset buf" by auto
  note l = linear_layout [OF assms lt] and b = rb_inv_bounds [OF assms]
  have "0 < unat (head_offset buf)" using False by (simp add: unat_gt_0)
  moreover have "unat (head_offset buf) + rb_len buf \<le> 2147483648" using l b by linarith
  ultimately have "regions_overlap (cpu_ptr buf) (cpu_ptr buf + head_offset buf) (rb_len buf)
      \<longleftrightarrow> unat (head_offset buf) < rb_len buf" by (rule overlap_self)
  then show ?thesis
    using False lt l by (auto simp: acts_ringbuf_defrag_def defrag_overlaps_def Let_def memcpy_def)
qed

lemma rebase_spec:
  assumes "rb_inv buf" "rb_len buf < unat (size_e buf)"
    "b' = buf\<lparr>tail := tail buf - head buf, tail_offset := tail buf - head buf, head := 0, head_offset := 0\<rparr>"
  shows "rb_inv b'" "rb_len b' = rb_len buf"
    "rb_list m b' = mem_read m (cpu_ptr buf) (rb_len buf)"
  using assms rb_inv_bounds [OF assms(1)]
  by (auto simp: rb_inv_def rb_len_def rb_list_def ring_read_one)

lemma defrag_spec:
  assumes "rb_inv buf" "rb_len buf < unat (size_e buf)" "acts_ringbuf_defrag m buf = Some (m', buf')"
  shows "rb_inv buf' \<and> rb_list m' buf' = rb_list m buf"
proof -
  note b = rb_inv_bounds [OF assms(1)]
  let ?r = "buf\<lparr>tail := tail buf - head buf, tail_offset := tail buf - head buf, head := 0, head_offset := 0\<rparr>"
  note rb = rebase_spec [OF assms(1,2) refl]
  consider (start) "head_offset buf = 0 \<or> acts_ringbuf_is_empty buf"
    | (wrap) "head_offset buf \<noteq> 0" "\<not> acts_ringbuf_is_empty buf" "tail_offset buf \<le> head_offset buf"
    | (move) "head_offset buf \<noteq> 0" "\<not> acts_ringbuf_is_empty buf" "head_offset buf < tail_offset buf"
    by force
  then show ?thesis
  proof cases
    case start
    then have "m' = m" "buf' = ?r" using assms(3) by (auto simp: acts_ringbuf_defrag_def Let_def)
    moreover have "rb_list m buf = mem_read m (cpu_ptr buf) (rb_len buf)"
      using start assms(2) by (auto simp: rb_list_def ring_read_one not_empty_iff)
    ultimately show ?thesis using rb by simp
  next
    case wrap
    then have e: "m' = m" "buf' = buf\<lparr>head := head_offset buf, tail := tail_offset buf + size_e buf\<rparr>"
      using assms(3) by (auto simp: acts_ringbuf_defrag_def Let_def)
    have w: "unat (tail_offset buf) + unat (size_e buf) = unat (head_offset buf) + rb_len buf"
      using wrap by (intro wrapped_layout [OF assms(1)]) (auto simp: not_empty_iff)
    have "unat (tail_offset buf + size_e buf) = unat (tail_offset buf) + unat (size_e buf)"
      using b(2,4) by (intro unat_add_u32) linarith
    then have "rb_len buf' = rb_len buf"
      using w unfolding e by (simp add: rb_len_def unat_sub_u32)
    then show ?thesis using assms(1) unfolding e by (auto simp: rb_inv_def rb_list_def)
  next
    case move
    note l = linear_layout [OF assms(1) move(3)]
    have "\<not> tail_offset buf \<le> head_offset buf" using move(3) by simp
    then have "acts_ringbuf_defrag m buf = (case memcpy m (cpu_ptr buf) (cpu_ptr buf + head_offset buf) (rb_len buf)
        of None \<Rightarrow> None | Some m' \<Rightarrow> Some (m', ?r))"
      using move(1,2) l(2) by (simp add: acts_ringbuf_defrag_def Let_def)
    then have e: "m' = mem_write m (cpu_ptr buf) (mem_read m (cpu_ptr buf + head_offset buf) (rb_len buf))"
        "buf' = ?r"
      using assms(3) by (auto simp: memcpy_def split: if_splits)
    have "mem_read m' (cpu_ptr buf) (rb_len buf) = mem_read m (cpu_ptr buf + head_offset buf) (rb_len buf)"
      unfolding e using b by (intro nth_equalityI) (simp_all add: mem_write_def unat_of_nat_u32)
    also have "\<dots> = rb_list m buf"
      using l b ring_read_one [of "unat (head_offset buf)" "rb_len buf" "unat (size_e buf)" m "cpu_ptr buf"]
      by (simp add: rb_list_def)
    finally show ?thesis using rb unfolding e(2) by simp
  qed
qed

section \<open>The ring buffer is a FIFO\<close>

definition rb_put :: "mem \<times> acts_ringbuf \<Rightarrow> u8 list \<Rightarrow> (mem \<times> acts_ringbuf) \<times> nat" where
  "rb_put q xs = (let (m', b', n) = acts_ringbuf_put (fst q) (snd q) (Some xs) (of_nat (length xs))
                  in ((m', b'), unat n))"

definition rb_get :: "mem \<times> acts_ringbuf \<Rightarrow> nat \<Rightarrow> u8 list \<times> mem \<times> acts_ringbuf" where
  "rb_get q n = (let (out, b', k) = acts_ringbuf_get (fst q) (snd q) True (of_nat n) in (out, fst q, b'))"

lemma rb_byte_fifo:
  "byte_fifo rb_put rb_get (\<lambda>q. rb_list (fst q) (snd q)) (\<lambda>q. unat (size_e (snd q)))
     (\<lambda>q. rb_inv (snd q)) 4294967296"
proof (unfold_locales, goal_cases)
  case (1 q)
  then show ?case by (simp add: rb_inv_bounds)
next
  case (2 q xs q' n)
  then have "length xs = unat (of_nat (length xs) :: u32)" by (simp add: unat_of_nat_u32)
  with 2 put_accept [of "snd q" xs "of_nat (length xs)" "fst q"] show ?case
    by (auto simp: rb_put_def ring_write_tail_list advance_tail_inv)
next
  case (3 q xs q' n)
  then have "unat (size_e (snd q)) - rb_len (snd q) < unat (of_nat (length xs) :: u32)"
    using rb_inv_bounds(5) [of "snd q"] by (simp add: unat_of_nat_u32 less_diff_conv2 add.commute)
  from put_reject [OF 3(1) this] 3 show ?case by (auto simp: rb_put_def)
next
  case (4 q n ys q')
  then have "n = unat (of_nat n :: u32)" by (simp add: unat_of_nat_u32)
  with 4 get_accept [of "snd q" "of_nat n" "fst q" True] show ?case
    by (auto simp: rb_get_def advance_head_list advance_head_inv)
next
  case (5 q n ys q')
  then have "n = unat (of_nat n :: u32)" by (simp add: unat_of_nat_u32)
  with 5 get_reject [of "snd q" "of_nat n" "fst q" True] show ?case
    by (cases q) (auto simp: rb_get_def)
qed

interpretation rb: byte_fifo rb_put rb_get "\<lambda>q. rb_list (fst q) (snd q)" "\<lambda>q. unat (size_e (snd q))"
    "\<lambda>q. rb_inv (snd q)" 4294967296
  by (rule rb_byte_fifo)

lemma init_inv:
  assumes "0 < unat sz" "unat sz \<le> 2147483648"
  shows "rb_inv (acts_ringbuf_init f data sz)" "rb_len (acts_ringbuf_init f data sz) = 0"
  using assms by (simp_all add: acts_ringbuf_init_def rb_inv_def rb_len_def)

section \<open>Streaming out of the ring buffer\<close>

lemma read_result:
  assumes "rb_inv buf" "unat k \<le> rb_len buf" "unat k < 2147483648"
    "(if 0 <s k then (s', advance_head buf k, k) else (s', buf, 0)) = (t, buf', r)"
  shows "t = s' \<and> r = k \<and> rb_inv buf' \<and> rb_list m buf' = drop (unat k) (rb_list m buf)"
  using assms advance_head_inv [OF assms(1,2)] advance_head_list [OF assms(1,2)]
  by (cases "k = 0") (auto simp: sless_0_u32)

text \<open>
  if every call of the stream's write operation stores a prefix of the bytes it is given and
  returns its length, then \<open>acts_ringbuf_read\<close> delivers to the stream exactly the oldest bytes of
  the buffer, in order and across the wrap of the data area, and removes exactly those.
\<close>

theorem ringbuf_read_delivers:
  assumes contract: "\<And>s bs s' k. stream_write s bs = (s', k) \<Longrightarrow>
      unat k \<le> length bs \<and> log s' = log s @ take (unat k) bs"
    and inv: "rb_inv buf" and n: "unat n < 2147483648"
    and run: "acts_ringbuf_read stream_write m buf s n = (s', buf', k)"
  shows "log s' = log s @ take (unat k) (rb_list m buf) \<and>
    rb_list m buf' = drop (unat k) (rb_list m buf) \<and> rb_inv buf' \<and> unat k \<le> unat n"
proof (cases "acts_ringbuf_length buf < n")
  case True
  then show ?thesis using run inv by (simp add: acts_ringbuf_read_def)
next
  case False
  then have nl: "unat n \<le> rb_len buf" by (simp add: word_le_nat not_less)
  note b = rb_inv_bounds [OF inv]
  define len where "len = size_e buf - head_offset buf"
  define A where "A = mem_read m (cpu_ptr buf + head_offset buf) (unat len)"
  define B where "B = mem_read m (cpu_ptr buf) (unat (n - len))"
  have whole: "(if n \<le> len then mem_read m (cpu_ptr buf + head_offset buf) (unat n) else A @ B) =
      take (unat n) (rb_list m buf)"
  proof -
    have "take (unat n) (rb_list m buf) =
        ring_read m (cpu_ptr buf) (unat (size_e buf)) (unat (head_offset buf)) (unat n)"
      using nl by (simp add: rb_list_def take_ring_read)
    moreover have "unat n \<le> unat (size_e buf)" using nl b(5) by simp
    ultimately show ?thesis unfolding len_def A_def B_def using split_read [OF inv _ b(3)] by simp
  qed
  show ?thesis
  proof (cases "n \<le> len")
    case True
    obtain s1 l where w: "stream_write s (take (unat n) (rb_list m buf)) = (s1, l)" by force
    have c: "unat l \<le> unat n" "log s1 = log s @ take (unat l) (rb_list m buf)"
      using contract [OF w] nl by (auto simp: min_absorb1 min_absorb2)
    have "(if 0 <s l then (s1, advance_head buf l, l) else (s1, buf, 0)) = (s', buf', k)"
      using run False True whole w by (simp add: acts_ringbuf_read_def Let_def len_def [symmetric])
    then show ?thesis using read_result [OF inv, of l s1 s' buf' k m] c n nl by simp
  next
    case False': False
    have AB: "A @ B = take (unat n) (rb_list m buf)" using whole False' by simp
    have ln: "unat len < unat n" using False' by (simp add: word_le_nat)
    have lA: "length A = unat len" and lB: "length B = unat n - unat len"
      using ln by (auto simp: A_def B_def unat_sub_u32)
    obtain s1 l1 where w1: "stream_write s A = (s1, l1)" by force
    obtain s2 tmp where w2: "stream_write s1 B = (s2, tmp)" by force
    note c1 = contract [OF w1] and c2 = contract [OF w2]
    define t l where "t = (if l1 = len then s2 else s1)" and "l = (if l1 = len then l1 + tmp else l1)"
    have "(if 0 < tmp then l1 + tmp else l1) = l1 + tmp" by (cases "tmp = 0") (auto simp: word_neq_0_conv)
    then have r: "(if 0 <s l then (t, advance_head buf l, l) else (t, buf, 0)) = (s', buf', k)"
      using run False False' w1 w2
      by (auto simp: acts_ringbuf_read_def Let_def len_def [symmetric] A_def [symmetric] B_def [symmetric]
          t_def l_def split: if_splits)
    have "unat l \<le> unat n \<and> log t = log s @ take (unat l) (A @ B)"
    proof (cases "l1 = len")
      case True
      have "unat len + unat tmp < 4294967296" using c2 lB ln n by linarith
      then have ul: "unat l = unat len + unat tmp" using True by (simp add: l_def unat_add_u32)
      moreover have "take (unat l) (A @ B) = A @ take (unat tmp) B" unfolding ul using lA by simp
      moreover have "unat l \<le> unat n" using ul c2 lB ln by linarith
      ultimately show ?thesis using True c1 c2 lA by (simp add: t_def)
    next
      case False
      then have "unat l1 \<le> unat len" "l = l1" "t = s1" using c1 lA by (auto simp: l_def t_def)
      then show ?thesis using c1 lA ln by simp
    qed
    then show ?thesis
      using read_result [OF inv _ _ r, of m] n nl AB by (auto simp: min_def)
  qed
qed

text \<open>A stream that accepts everything, and a full ring of four bytes whose data wraps.\<close>

definition sink :: "u8 list \<Rightarrow> u8 list \<Rightarrow> u8 list \<times> u32" where
  "sink s bs = (let k = of_nat (length bs) in (s @ take (unat k) bs, k))"

definition ring4 :: acts_ringbuf where
  "ring4 = (acts_ringbuf_init id 100 4)\<lparr>head := 2, tail := 6, head_offset := 2, tail_offset := 2\<rparr>"

definition mem4 :: mem where
  "mem4 = mem_write (\<lambda>_. 0) 100 [3, 4, 1, 2]"

lemma ring4_inv: "rb_inv ring4"
  by (simp add: ring4_def rb_inv_def rb_len_def acts_ringbuf_init_def)

lemma ring4_list: "rb_list mem4 ring4 = [1, 2, 3, 4]"
  by (simp add: ring4_def mem4_def rb_list_def rb_len_def acts_ringbuf_init_def ring_read_def
      mem_write_def upt_rec)

lemma sink_contract: "sink s bs = (s', k) \<Longrightarrow> unat k \<le> length bs \<and> s' = s @ take (unat k) bs"
  by (auto simp: sink_def Let_def unat_of_nat)

theorem ringbuf_read_delivers_witness:
  "acts_ringbuf_read sink mem4 ring4 [] 3 = ([1, 2, 3], advance_head ring4 3, 3) \<and>
   rb_list mem4 (advance_head ring4 3) = [4]"
proof -
  have r: "acts_ringbuf_read sink mem4 ring4 [] 3 = ([1, 2, 3], advance_head ring4 3, 3)"
    by (simp add: acts_ringbuf_read_def acts_ringbuf_length_def ring4_def acts_ringbuf_init_def mem4_def
        sink_def Let_def mem_read_def mem_write_def upt_rec word_sless_alt)
  have "rb_list mem4 (advance_head ring4 3) = drop (unat (3 :: u32)) (rb_list mem4 ring4)"
    using ringbuf_read_delivers [where log = "\<lambda>s. s" and stream_write = sink,
        OF sink_contract ring4_inv _ r] by simp
  then show ?thesis using r by (simp add: ring4_list)
qed

text \<open>
  C1: writing is atomic and keeps the order: a request that fits in the free space appends exactly
  its bytes and touches no byte outside the data area, any other request changes nothing and
  returns 0.
\<close>

theorem ringbuf_put_appends:
  assumes "rb_inv buf" "length d = unat n"
  shows "case acts_ringbuf_put m buf (Some d) n of (m', buf', r) \<Rightarrow>
    if unat n \<le> unat (size_e buf) - rb_len buf
    then r = n \<and> rb_inv buf' \<and> rb_list m' buf' = rb_list m buf @ d \<and>
         (\<forall>x. unat (size_e buf) \<le> unat (x - cpu_ptr buf) \<longrightarrow> m' x = m x)
    else r = 0 \<and> m' = m \<and> buf' = buf"
proof (cases "unat n \<le> unat (size_e buf) - rb_len buf")
  case True
  then show ?thesis
    using assms by (simp add: put_accept ring_write_tail_list advance_tail_inv ring_write_frame)
next
  case False
  then show ?thesis using assms by (simp add: put_reject not_le)
qed

theorem ringbuf_put_appends_witness:
  "case acts_ringbuf_put mem4 (advance_head ring4 3) (Some [5, 6, 7]) 3 of (m', buf', r) \<Rightarrow>
     r = 3 \<and> rb_list m' buf' = [4, 5, 6, 7]"
proof -
  have i: "rb_inv (advance_head ring4 3)" and l: "rb_len (advance_head ring4 3) = 1"
    by (simp_all add: advance_head_def ring4_def acts_ringbuf_init_def rb_inv_def rb_len_def)
  have "rb_list mem4 (advance_head ring4 3) = [4]"
    using ring4_list advance_head_list [OF ring4_inv, of 3 mem4] by (simp add: ring4_def rb_len_def)
  moreover have "size_e ring4 = 4" by (simp add: ring4_def acts_ringbuf_init_def)
  ultimately show ?thesis
    using ringbuf_put_appends [OF i, of "[5, 6, 7]" 3 mem4] l by (auto split: prod.splits)
qed

text \<open>
  C2: reading is atomic and first-in first-out: a request for no more bytes than are stored returns
  the oldest bytes in order and removes them, any other request returns 0 and changes nothing;
  \<open>acts_ringbuf_peek\<close> returns the same bytes.
\<close>

theorem ringbuf_get_removes:
  assumes "rb_inv buf"
  shows "case acts_ringbuf_get m buf True n of (out, buf', r) \<Rightarrow>
    acts_ringbuf_peek m buf True n = (out, r) \<and> rb_inv buf' \<and>
    (if unat n \<le> rb_len buf
     then r = n \<and> out = take (unat n) (rb_list m buf) \<and> rb_list m buf' = drop (unat n) (rb_list m buf)
     else r = 0 \<and> out = [] \<and> buf' = buf)"
  using assms
  by (cases "unat n \<le> rb_len buf")
    (simp_all add: get_accept get_reject peek_accept peek_reject advance_head_list advance_head_inv not_le)

theorem ringbuf_get_removes_witness:
  "case acts_ringbuf_get mem4 ring4 True 3 of (out, buf', r) \<Rightarrow>
     r = 3 \<and> out = [1, 2, 3] \<and> rb_list mem4 buf' = [4]"
proof -
  have "rb_len ring4 = 4" by (simp add: ring4_def rb_len_def)
  then show ?thesis
    using ringbuf_get_removes [OF ring4_inv, of mem4 3] by (auto simp: ring4_list)
qed

text \<open>
  C3: for every sequence of whole writes and reads on a freshly initialised ring buffer, the bytes
  accepted are exactly the bytes handed out followed by the bytes still stored: none is lost,
  duplicated or reordered, although the head and tail counters wrap at 32 bits.
\<close>

theorem ringbuf_conservation:
  assumes "0 < unat sz" "unat sz \<le> 2147483648" "\<forall>c\<in>set ops. op_size c < 4294967296"
  shows "case fifo_run rb_put rb_get (m, acts_ringbuf_init mcu_to_dsp data sz) ops of
    (outs, ins, m', buf') \<Rightarrow> ins = outs @ rb_list m' buf' \<and> rb_inv buf' \<and> size_e buf' = sz"
proof -
  obtain outs ins m' buf' where
    r: "fifo_run rb_put rb_get (m, acts_ringbuf_init mcu_to_dsp data sz) ops = (outs, ins, m', buf')"
    by (metis prod_cases3 surj_pair)
  have "rb_list m (acts_ringbuf_init mcu_to_dsp data sz) = []"
    using init_inv(2) [OF assms(1,2)] by (metis length_0_conv length_rb_list)
  then show ?thesis
    using rb.conservation [OF _ assms(3) r] init_inv(1) [OF assms(1,2)] r
    by (simp add: acts_ringbuf_init_def word_unat_eq_iff)
qed

theorem ringbuf_conservation_witness:
  "case fifo_run rb_put rb_get ((\<lambda>_. 0), acts_ringbuf_init id 100 2) [Put [7], Get 2, Put [8], Put [9], Get 2]
     of (outs, ins, m', buf') \<Rightarrow> ins = outs @ rb_list m' buf' \<and> rb_inv buf' \<and> size_e buf' = 2"
  by (rule ringbuf_conservation) simp_all

text \<open>
  C12: \<open>acts_ringbuf_copy\<close> always returns (its copy loop, which has no other exit than its
  \<open>break\<close>, terminates) and moves as many of the oldest bytes as both buffers allow from the
  source to the end of the destination, for data areas that do not overlap and any offsets.
\<close>

theorem ringbuf_copy_total:
  assumes "rb_inv dst" "rb_inv src"
    and "regions_disjoint (cpu_ptr dst) (unat (size_e dst)) (cpu_ptr src) (unat (size_e src))"
  shows "\<exists>m' dst' src' k. acts_ringbuf_copy m dst src n = Some (m', dst', src', k) \<and>
     unat k = min (unat n) (min (rb_len src) (unat (size_e dst) - rb_len dst)) \<and>
     rb_list m' dst' = rb_list m dst @ take (unat k) (rb_list m src) \<and>
     rb_list m' src' = drop (unat k) (rb_list m src) \<and> rb_inv dst' \<and> rb_inv src'"
  by (rule copy_spec [OF assms])

definition ring3 :: acts_ringbuf where
  "ring3 = (acts_ringbuf_init id 200 3)\<lparr>head := 2, tail := 2, head_offset := 2, tail_offset := 2\<rparr>"

lemma ring3_inv: "rb_inv ring3" "rb_len ring3 = 0"
  by (simp_all add: ring3_def rb_inv_def rb_len_def acts_ringbuf_init_def)

lemma ring3_ring4_disjoint:
  "regions_disjoint (cpu_ptr ring3) (unat (size_e ring3)) (cpu_ptr ring4) (unat (size_e ring4))"
proof -
  have "\<not> unat (x - 100) < 4" if "unat (x - 200 :: u32) < 3" for x
  proof -
    have "x - 100 = (x - 200) + 100" by simp
    moreover have "unat ((x - 200) + 100) = unat (x - 200) + unat (100 :: u32)"
      using that by (intro unat_add_u32) simp
    ultimately show ?thesis by simp
  qed
  then show ?thesis by (auto simp: regions_disjoint_def ring3_def ring4_def acts_ringbuf_init_def)
qed

theorem ringbuf_copy_total_witness:
  "\<exists>m' dst' src'. acts_ringbuf_copy mem4 ring3 ring4 9 = Some (m', dst', src', 3) \<and>
     rb_list m' dst' = [1, 2, 3] \<and> rb_list m' src' = [4]"
proof -
  have l: "rb_len ring4 = 4" "size_e ring3 = 3"
    by (simp_all add: ring4_def ring3_def rb_len_def acts_ringbuf_init_def)
  have "rb_list mem4 ring3 = []" using ring3_inv(2) by (metis length_0_conv length_rb_list)
  moreover obtain m' dst' src' k where
    r: "acts_ringbuf_copy mem4 ring3 ring4 9 = Some (m', dst', src', k)" and
    k: "unat k = min (unat (9 :: u32)) (min (rb_len ring4) (unat (size_e ring3) - rb_len ring3))" and
    d: "rb_list m' dst' = rb_list mem4 ring3 @ take (unat k) (rb_list mem4 ring4)" and
    s: "rb_list m' src' = drop (unat k) (rb_list mem4 ring4)"
    using ringbuf_copy_total [OF ring3_inv(1) ring4_inv ring3_ring4_disjoint, of mem4 9] by blast
  moreover have "unat k = unat (3 :: u32)" using k l ring3_inv(2) by simp
  then have "k = 3" by (simp only: word_unat_eq_iff)
  ultimately show ?thesis by (auto simp: ring4_list)
qed

text \<open>
  writing in place is equivalent to \<open>acts_ringbuf_put\<close>: storing bytes in the area handed out by
  \<open>acts_ringbuf_put_claim\<close> and confirming them with \<open>acts_ringbuf_put_finish\<close> succeeds and appends
  exactly those bytes; dually the area of \<open>acts_ringbuf_get_claim\<close> holds the oldest bytes and
  \<open>acts_ringbuf_get_finish\<close> removes them.
\<close>

theorem ringbuf_claim_finish:
  assumes "rb_inv buf" "acts_ringbuf_put_claim buf n = (a, k)" "length d = unat k"
    and "acts_ringbuf_get_claim buf n' = (a', k')"
  shows "acts_ringbuf_put_finish buf k = (advance_tail buf k, 0) \<and>
     rb_list (mem_write m a d) (advance_tail buf k) = rb_list m buf @ d \<and>
     rb_inv (advance_tail buf k) \<and>
     acts_ringbuf_get_finish buf k' = (advance_head buf k', 0) \<and>
     mem_read m a' (unat k') = take (unat k') (rb_list m buf) \<and>
     rb_list m (advance_head buf k') = drop (unat k') (rb_list m buf) \<and> rb_inv (advance_head buf k')"
  using put_claim_finish [OF assms(1-3), of m] get_claim_finish [OF assms(1,4), of m] assms(1)
  by (simp add: advance_tail_inv advance_head_inv advance_head_list)

theorem ringbuf_claim_finish_witness:
  "acts_ringbuf_put_finish ring3 1 = (advance_tail ring3 1, 0) \<and>
   rb_list (mem_write mem4 202 [9]) (advance_tail ring3 1) = [9]"
proof -
  have p: "acts_ringbuf_put_claim ring3 2 = (202, 1)"
    by (simp add: ring3_def acts_ringbuf_init_def acts_ringbuf_put_claim_def acts_ringbuf_space_def word_le_nat)
  have g: "acts_ringbuf_get_claim ring3 2 = (202, 0)"
    by (simp add: ring3_def acts_ringbuf_init_def acts_ringbuf_get_claim_def acts_ringbuf_length_def)
  have "rb_list mem4 ring3 = []" using ring3_inv(2) by (metis length_0_conv length_rb_list)
  then show ?thesis
    using ringbuf_claim_finish [OF ring3_inv(1) p _ g, of "[9]" mem4] by simp
qed

text \<open>
  \<open>acts_ringbuf_defrag\<close> keeps the stored bytes and the invariant of a buffer that is not full
  whenever it is defined, and its \<open>memcpy\<close> has overlapping operands (undefined behaviour) exactly
  when the data starts past the beginning, does not wrap, and is longer than the gap in front of it.
\<close>

theorem ringbuf_defrag_spec:
  assumes "rb_inv buf" "rb_len buf < unat (size_e buf)"
  shows "case acts_ringbuf_defrag m buf of
      None \<Rightarrow> head_offset buf < tail_offset buf \<and> 0 < unat (head_offset buf) \<and> unat (head_offset buf) < rb_len buf
    | Some (m', buf') \<Rightarrow> rb_inv buf' \<and> rb_list m' buf' = rb_list m buf \<and>
        (tail_offset buf \<le> head_offset buf \<or> head_offset buf = 0 \<or> rb_len buf \<le> unat (head_offset buf))"
  using defrag_None_iff [OF assms(1), of m] defrag_spec [OF assms, of m]
  by (auto simp: defrag_overlaps_def unat_gt_0 not_less split: option.splits)

definition ring8 :: acts_ringbuf where
  "ring8 = (acts_ringbuf_init id 100 8)\<lparr>head := 1, tail := 4, head_offset := 1, tail_offset := 4\<rparr>"

theorem ringbuf_defrag_spec_witness:
  "acts_ringbuf_defrag mem4 ring8 = None \<and> rb_inv ring8 \<and> unat (head_offset ring8) < rb_len ring8"
proof -
  have i: "rb_inv ring8" "rb_len ring8 < unat (size_e ring8)"
    by (simp_all add: ring8_def rb_inv_def rb_len_def acts_ringbuf_init_def)
  have n: "acts_ringbuf_defrag mem4 ring8 = None"
    by (simp add: ring8_def acts_ringbuf_defrag_def acts_ringbuf_is_empty_def memcpy_def regions_overlap_def
        acts_ringbuf_init_def word_le_nat)
  then show ?thesis using ringbuf_defrag_spec [OF i, of mem4] i by simp
qed

text \<open>
  after \<open>acts_ringbuf_defrag\<close> on a full buffer whose data starts at offset 0 the tail offset is
  one past the data area instead of 0, so that \<open>acts_ringbuf_put_claim\<close> offers no space even
  after bytes have been removed.
\<close>

theorem ringbuf_defrag_full_tail:
  assumes "rb_inv buf" "rb_len buf = unat (size_e buf)" "head_offset buf = 0"
  shows "\<exists>buf'. acts_ringbuf_defrag m buf = Some (m, buf') \<and> tail_offset buf' = size_e buf \<and>
     (\<forall>k n. unat k \<le> rb_len buf \<longrightarrow>
        acts_ringbuf_drop buf' k = (advance_head buf' k, k) \<and>
        acts_ringbuf_space (advance_head buf' k) = k \<and>
        snd (acts_ringbuf_put_claim (advance_head buf' k) n) = 0)"
proof -
  let ?b = "buf\<lparr>tail := tail buf - head buf, tail_offset := tail buf - head buf, head := 0, head_offset := 0\<rparr>"
  have e: "tail buf - head buf = size_e buf" using assms(2) by (simp add: rb_len_def word_unat_eq_iff)
  have "acts_ringbuf_defrag m buf = Some (m, ?b)" using assms(3) by (simp add: acts_ringbuf_defrag_def Let_def)
  moreover have "acts_ringbuf_drop ?b k = (advance_head ?b k, k)" if "unat k \<le> rb_len buf" for k
    using that by (simp add: acts_ringbuf_drop_def acts_ringbuf_length_def word_le_nat rb_len_def not_less)
  ultimately show ?thesis
    unfolding e by (auto simp: e acts_ringbuf_space_def acts_ringbuf_put_claim_def Let_def)
qed

theorem ringbuf_defrag_full_tail_witness:
  "\<exists>buf. acts_ringbuf_defrag mem4 (ring8\<lparr>head := 0, tail := 8, head_offset := 0, tail_offset := 0\<rparr>) = Some (mem4, buf) \<and>
     acts_ringbuf_space (advance_head buf 5) = 5 \<and> snd (acts_ringbuf_put_claim (advance_head buf 5) 1) = 0"
proof -
  let ?b = "ring8\<lparr>head := 0, tail := 8, head_offset := 0, tail_offset := 0\<rparr>"
  have i: "rb_inv ?b" "rb_len ?b = unat (size_e ?b)" "head_offset ?b = 0" "rb_len ?b = 8"
    by (simp_all add: ring8_def rb_inv_def rb_len_def acts_ringbuf_init_def)
  obtain buf where b: "acts_ringbuf_defrag mem4 ?b = Some (mem4, buf)" and
    p: "\<And>k n. unat k \<le> rb_len ?b \<Longrightarrow> acts_ringbuf_space (advance_head buf k) = k \<and>
        snd (acts_ringbuf_put_claim (advance_head buf k) n) = 0"
    using ringbuf_defrag_full_tail [OF i(1-3), of mem4] by blast
  have "unat (5 :: u32) \<le> rb_len ?b" using i(4) by simp
  from b p [OF this] show ?thesis by blast
qed

text \<open>
  when the stream's second write of a wrapped transfer fails with a negative error \<open>-e\<close>, the
  error is stored in an unsigned variable, passes the test for a positive count and is added:
  the buffer drops \<open>e\<close> bytes fewer than the first write delivered instead of all of them.
\<close>

theorem ringbuf_read_error_subtracted:
  fixes buf n e
  defines "len \<equiv> size_e buf - head_offset buf"
  assumes "rb_inv buf" "unat n \<le> rb_len buf" "len < n" "unat (size_e buf) < 2147483648"
    and "stream_write s (mem_read m (cpu_ptr buf + head_offset buf) (unat len)) = (s1, len)"
    and "stream_write s1 (mem_read m (cpu_ptr buf) (unat (n - len))) = (s2, - e)" "0 < e" "e < len"
  shows "acts_ringbuf_read stream_write m buf s n = (s2, advance_head buf (len - e), len - e)"
proof -
  have ul: "unat len = unat (size_e buf) - unat (head_offset buf)"
    unfolding len_def using rb_inv_bounds(3) [OF assms(2)] by (simp add: unat_sub_u32)
  have "unat (len - e) = unat len - unat e" using assms(9) by (intro unat_sub_u32) (simp add: word_le_nat)
  then have small: "unat (len - e) < 2147483648" and ne: "len - e \<noteq> 0"
    using ul assms(5,9) by auto
  have "\<not> acts_ringbuf_length buf < n" using assms(3) by (simp add: word_le_nat not_less)
  moreover have "\<not> n \<le> len" using assms(4) by simp
  moreover have "0 < - e" using assms(8) by (metis neg_equal_0_iff_equal word_neq_0_conv)
  ultimately show ?thesis
    using assms(6,7) sless_0_u32 [OF small] ne by (simp add: acts_ringbuf_read_def Let_def len_def [symmetric])
qed

text \<open>A stream that takes the first block and fails with \<open>-1\<close> on the second.\<close>

definition flaky :: "nat \<Rightarrow> u8 list \<Rightarrow> nat \<times> u32" where
  "flaky s bs = (if s = 0 then (1, of_nat (length bs)) else (2, - 1))"

theorem ringbuf_read_error_subtracted_witness:
  "acts_ringbuf_read flaky mem4 ring4 0 4 = (2, advance_head ring4 1, 1)"
proof -
  have l: "size_e ring4 - head_offset ring4 = 2" "rb_len ring4 = 4" "size_e ring4 = 4"
    by (simp_all add: ring4_def acts_ringbuf_init_def rb_len_def)
  then show ?thesis
    using ringbuf_read_error_subtracted [OF ring4_inv, of 4 flaky 0 mem4 1 2 1]
    by (simp add: flaky_def word_less_nat_alt)
qed

end
