(* ===== verification/Io_Stream.thy ===== *)
theory Io_Stream
  imports Prelude
begin

text \<open>
  The stream interface of \<^verbatim>\<open>src/framework/base/utils/stream/stream.c\<close> with the handle structure and the
  operation table of \<^verbatim>\<open>src/framework/base/include/utils/stream/stream.h\<close>.

  A handle is an address into a store of stream structures; an address without a structure is
  the null handle. The operation table of a stream is reached through an address as well, so a
  table is a record of functions on the whole world, \<open>None\<close> for a null function pointer (a destroy
  operation may itself dereference a null pointer, so it returns an \<open>option\<close>). The code
  the stream layer calls back into is gathered in the record \<open>stream_env\<close>: the tables, the allocator, the
  observers and the semaphore wait, during which other threads run and may change the world.
  Every operation returns an \<open>option\<close>: \<open>None\<close> is a call through a null pointer, a dereferenced
  null handle or a wait that never ends. Locks are not modelled: the attach lock only orders
  operations of different threads.
\<close>

unbundle bit_operations_syntax

section \<open>Data\<close>

abbreviation MODE_IN :: u8 where "MODE_IN \<equiv> 0x01"
abbreviation MODE_OUT :: u8 where "MODE_OUT \<equiv> 0x02"
abbreviation MODE_IN_OUT :: u8 where "MODE_IN_OUT \<equiv> 0x03"
abbreviation MODE_READ_BLOCK :: u8 where "MODE_READ_BLOCK \<equiv> 0x04"
abbreviation MODE_WRITE_BLOCK :: u8 where "MODE_WRITE_BLOCK \<equiv> 0x08"
abbreviation MODE_BLOCK_TIMEOUT :: u8 where "MODE_BLOCK_TIMEOUT \<equiv> 0x10"

abbreviation STATE_INIT :: u8 where "STATE_INIT \<equiv> 1"
abbreviation STATE_OPEN :: u8 where "STATE_OPEN \<equiv> 2"
abbreviation STATE_CLOSE :: u8 where "STATE_CLOSE \<equiv> 3"

abbreviation STREAM_NOTIFY_READ :: u8 where "STREAM_NOTIFY_READ \<equiv> 0x01"
abbreviation STREAM_NOTIFY_WRITE :: u8 where "STREAM_NOTIFY_WRITE \<equiv> 0x02"
abbreviation STREAM_NOTIFY_SEEK :: u8 where "STREAM_NOTIFY_SEEK \<equiv> 0x04"
abbreviation STREAM_NOTIFY_PRE_WRITE :: u8 where "STREAM_NOTIFY_PRE_WRITE \<equiv> 0x10"

datatype seek_dir = SEEK_DIR_BEG | SEEK_DIR_CUR | SEEK_DIR_END

text \<open>An observer slot: the observer, its notification mask and its callback (0 for none).\<close>

record observer_slot =
  observer :: u32
  observer_type :: u8
  observer_notify :: u32

text \<open>
  \<open>struct __stream\<close>. \<open>sync_sem\<close> is the count of the binary semaphore, \<open>None\<close> for a null pointer;
  the arrays \<open>attach_mode\<close> and \<open>attach_stream\<close> have one element each; \<open>s_data\<close> is the private data
  of the implementation.
\<close>

record 'd stream =
  s_type :: u8
  s_mode :: u8
  s_state :: u8
  rofs :: u32
  wofs :: u32
  write_finished :: bool
  cache_size :: u32
  total_size :: u32
  sync_sem :: "nat option"
  observers :: "observer_slot list"
  attach_mode :: u8
  attach_stream :: u32
  attached_stream :: u32
  s_ops :: u32
  s_data :: "'d option"

record ('d, 'g) world =
  streams :: "u32 \<Rightarrow> 'd stream option"
  shared :: 'g \<comment> \<open>what the stream implementations share: memory, ring buffers\<close>

record ('p, 'd, 'g) stream_ops =
  op_init :: "(('d, 'g) world \<Rightarrow> u32 \<Rightarrow> 'p \<Rightarrow> ('d, 'g) world \<times> int) option"
  op_open :: "(('d, 'g) world \<Rightarrow> u32 \<Rightarrow> u8 \<Rightarrow> ('d, 'g) world \<times> int) option"
  op_read :: "(('d, 'g) world \<Rightarrow> u32 \<Rightarrow> int \<Rightarrow> ('d, 'g) world \<times> u8 list \<times> int) option"
  op_seek :: "(('d, 'g) world \<Rightarrow> u32 \<Rightarrow> int \<Rightarrow> seek_dir \<Rightarrow> ('d, 'g) world \<times> int) option"
  op_tell :: "(('d, 'g) world \<Rightarrow> u32 \<Rightarrow> int) option"
  op_get_length :: "(('d, 'g) world \<Rightarrow> u32 \<Rightarrow> int) option"
  op_get_space :: "(('d, 'g) world \<Rightarrow> u32 \<Rightarrow> int) option"
  op_write :: "(('d, 'g) world \<Rightarrow> u32 \<Rightarrow> u8 list option \<Rightarrow> int \<Rightarrow> ('d, 'g) world \<times> int) option"
  op_flush :: "(('d, 'g) world \<Rightarrow> u32 \<Rightarrow> ('d, 'g) world \<times> int) option"
  op_close :: "(('d, 'g) world \<Rightarrow> u32 \<Rightarrow> ('d, 'g) world \<times> int) option"
  op_destroy :: "(('d, 'g) world \<Rightarrow> u32 \<Rightarrow> (('d, 'g) world \<times> int) option) option"
  op_get_ringbuffer :: "(('d, 'g) world \<Rightarrow> u32 \<Rightarrow> u32) option"

record notification =
  n_observer :: u32
  n_rofs :: u32
  n_wofs :: u32
  n_total :: u32
  n_num :: int
  n_type :: u8

text \<open>
  The environment: \<open>ops_at\<close> reads an operation table, \<open>new_stream\<close> is the address \<open>mem_malloc\<close>
  returns for a structure (0 on failure), \<open>sem_alloc_ok\<close> whether the allocation of a semaphore succeeds,
  \<open>call_observer\<close> runs a callback, \<open>os_sem_take\<close> waits up to 50 ms on the stream's semaphore.
\<close>

record ('p, 'd, 'g) stream_env =
  ops_at :: "u32 \<Rightarrow> ('p, 'd, 'g) stream_ops"
  new_stream :: "('d, 'g) world \<Rightarrow> u32"
  sem_alloc_ok :: "('d, 'g) world \<Rightarrow> bool"
  call_observer :: "u32 \<Rightarrow> notification \<Rightarrow> ('d, 'g) world \<Rightarrow> ('d, 'g) world"
  os_sem_take :: "u32 \<Rightarrow> ('d, 'g) world \<Rightarrow> ('d, 'g) world"

definition upd_stream :: "u32 \<Rightarrow> ('d stream \<Rightarrow> 'd stream) \<Rightarrow> ('d, 'g) world \<Rightarrow> ('d, 'g) world" where
  "upd_stream h f w = w\<lparr>streams := (streams w)(h := map_option f (streams w h))\<rparr>"

definition zero_stream :: "'d stream" where
  "zero_stream =
     \<lparr>s_type = 0, s_mode = 0, s_state = 0, rofs = 0, wofs = 0, write_finished = False, cache_size = 0,
      total_size = 0, sync_sem = None,
      observers = replicate 2 \<lparr>observer = 0, observer_type = 0, observer_notify = 0\<rparr>,
      attach_mode = 0, attach_stream = 0, attached_stream = 0, s_ops = 0, s_data = None\<rparr>"

section \<open>Operations\<close>

definition stream_check_handle_state :: "('d, 'g) world \<Rightarrow> u32 \<Rightarrow> u8 \<Rightarrow> bool" where
  "stream_check_handle_state w h need =
     (case streams w h of None \<Rightarrow> False | Some s \<Rightarrow> s_state s = need)"

text \<open>\<open>mem_malloc\<close> returns zeroed memory (\<^verbatim>\<open>mem_pool.c\<close>), so unset fields are zero.\<close>

definition stream_create ::
    "('p, 'd, 'g) stream_env \<Rightarrow> ('d, 'g) world \<Rightarrow> u32 \<Rightarrow> 'p \<Rightarrow> ('d, 'g) world \<times> u32" where
  "stream_create E w tab init_param =
     (let h = new_stream E w
      in if h = 0 then (w, 0)
         else let w1 = w\<lparr>streams := (streams w)(h \<mapsto> zero_stream\<lparr>s_state := STATE_INIT, s_ops := tab\<rparr>)\<rparr>;
                  (w2, ret) = (case op_init (ops_at E tab) of None \<Rightarrow> (w1, 0)
                               | Some f \<Rightarrow> f w1 h init_param)
              in if ret \<noteq> 0 then (w2\<lparr>streams := (streams w2)(h := None)\<rparr>, 0) else (w2, h))"

definition stream_open ::
    "('p, 'd, 'g) stream_env \<Rightarrow> ('d, 'g) world \<Rightarrow> u32 \<Rightarrow> u8 \<Rightarrow> (('d, 'g) world \<times> int) option" where
  "stream_open E w h mode =
     (case streams w h of
        None \<Rightarrow> Some (w, - ENOSYS)
      | Some s \<Rightarrow>
          if s_state s \<noteq> STATE_INIT \<and> s_state s \<noteq> STATE_CLOSE then Some (w, - ENOSYS)
          else let ops = ops_at E (s_ops s)
               in if (mode AND MODE_IN \<noteq> 0 \<and> op_read ops = None) \<or> (mode AND MODE_OUT \<noteq> 0 \<and> op_write ops = None)
                  then Some (w, - EPERM)
                  else case op_open ops of
                         None \<Rightarrow> None
                       | Some f \<Rightarrow>
                           (let (w1, res) = f w h mode
                            in if res \<noteq> 0 then Some (w1, res)
                               else if mode AND (MODE_READ_BLOCK OR MODE_WRITE_BLOCK) \<noteq> 0
                               then if sem_alloc_ok E w1
                                    then Some (upd_stream h (\<lambda>s. s\<lparr>sync_sem := Some 0, write_finished := False,
                                                 s_mode := mode, s_state := STATE_OPEN\<rparr>) w1, res)
                                    else Some (upd_stream h (\<lambda>s. s\<lparr>sync_sem := None\<rparr>) w1, - ENOMEM)
                               else Some (upd_stream h (\<lambda>s. s\<lparr>s_mode := mode, s_state := STATE_OPEN\<rparr>) w1, res)))"

definition stream_get_length :: "('p, 'd, 'g) stream_env \<Rightarrow> ('d, 'g) world \<Rightarrow> u32 \<Rightarrow> int" where
  "stream_get_length E w h =
     (case streams w h of
        None \<Rightarrow> - ENOSYS
      | Some s \<Rightarrow>
          if s_state s \<noteq> STATE_OPEN then - ENOSYS
          else case op_get_length (ops_at E (s_ops s)) of
                 Some f \<Rightarrow> f w h
               | None \<Rightarrow> sint (wofs s - rofs s))"

text \<open>
  The space of the stream itself, then the loop over the attached stream, which calls
  \<open>stream_get_space\<close> again; a chain of attached streams may be cyclic, so the recursion may not end.
\<close>

definition own_space :: "('p, 'd, 'g) stream_env \<Rightarrow> ('d, 'g) world \<Rightarrow> u32 \<Rightarrow> 'd stream \<Rightarrow> int" where
  "own_space E w h s =
     (case op_get_space (ops_at E (s_ops s)) of
        Some f \<Rightarrow> f w h
      | None \<Rightarrow> (let brw = stream_get_length E w h
                 in if 0 \<le> brw then sint (total_size s - word_of_int (stream_get_length E w h)) else brw))"

partial_function (option) stream_get_space ::
    "('p, 'd, 'g) stream_env \<Rightarrow> ('d, 'g) world \<Rightarrow> u32 \<Rightarrow> int option" where
  "stream_get_space E w h =
     (case streams w h of
        None \<Rightarrow> Some (- ENOSYS)
      | Some s \<Rightarrow>
          if s_state s \<noteq> STATE_OPEN then Some (- ENOSYS)
          else if attach_mode s \<noteq> MODE_OUT \<or> attach_stream s = 0 then Some (own_space E w h s)
          else Option.bind (stream_get_space E w (attach_stream s)) (\<lambda>attached_space.
                 Some (if attached_space < own_space E w h s then attached_space else own_space E w h s)))"

definition sem_give :: "u32 \<Rightarrow> ('d, 'g) world \<Rightarrow> ('d, 'g) world" where
  "sem_give h = upd_stream h (\<lambda>s. s\<lparr>sync_sem := map_option (\<lambda>c. 1) (sync_sem s)\<rparr>)"

text \<open>The notification loops: every slot with a callback and the wanted bit in its mask.\<close>

fun notify_slots ::
    "('p, 'd, 'g) stream_env \<Rightarrow> u32 \<Rightarrow> u8 \<Rightarrow> int \<Rightarrow> nat list \<Rightarrow> ('d, 'g) world \<Rightarrow> ('d, 'g) world" where
  "notify_slots E h ty num [] w = w"
| "notify_slots E h ty num (i # is) w =
     (case streams w h of
        None \<Rightarrow> w
      | Some s \<Rightarrow>
          let slot = observers s ! i;
              w' = (if observer_notify slot \<noteq> 0 \<and> observer_type slot AND ty \<noteq> 0
                    then call_observer E (observer_notify slot)
                           \<lparr>n_observer = observer slot, n_rofs = rofs s, n_wofs = wofs s,
                            n_total = total_size s, n_num = num, n_type = ty\<rparr> w
                    else w)
          in notify_slots E h ty num is w')"

definition notify_observers ::
    "('p, 'd, 'g) stream_env \<Rightarrow> u32 \<Rightarrow> u8 \<Rightarrow> int \<Rightarrow> ('d, 'g) world \<Rightarrow> ('d, 'g) world" where
  "notify_observers E h ty num w = notify_slots E h ty num [0, 1] w"

text \<open>
  The loop that forwards the bytes to the attached stream (\<open>dir\<close> is \<open>MODE_IN\<close> in \<open>stream_read\<close> and
  \<open>MODE_OUT\<close> in \<open>stream_write\<close>). It returns \<open>brw\<close>, the result of the last write, or the incoming one.
\<close>

definition forward_attached ::
    "('p, 'd, 'g) stream_env \<Rightarrow> u32 \<Rightarrow> u8 \<Rightarrow> u8 list option \<Rightarrow> int \<Rightarrow> int \<Rightarrow> ('d, 'g) world
       \<Rightarrow> (('d, 'g) world \<times> int \<times> bool) option" where
  "forward_attached E h dir buf num brw w =
     (case streams w h of
        None \<Rightarrow> None
      | Some s \<Rightarrow>
          if attach_mode s \<noteq> dir \<or> attach_stream s = 0 then Some (w, brw, True)
          else case streams w (attach_stream s) of
                 None \<Rightarrow> None
               | Some t \<Rightarrow>
                   case op_write (ops_at E (s_ops t)) of
                     None \<Rightarrow> None
                   | Some f \<Rightarrow> (let (w', r) = f w (attach_stream s) buf num in Some (w', r, r = num)))"

text \<open>
  The wait of a blocking read: \<open>Inl r\<close> leaves the function with \<open>r\<close>, \<open>Inr ()\<close> goes on to the read. A stream that another thread
  destroys during the wait is used after it was freed: the result is \<open>None\<close>.
\<close>

partial_function (option) read_wait ::
    "('p, 'd, 'g) stream_env \<Rightarrow> u32 \<Rightarrow> int \<Rightarrow> nat \<Rightarrow> ('d, 'g) world \<Rightarrow> (('d, 'g) world \<times> (int + unit)) option" where
  "read_wait E h num try_cnt w =
     (case streams w h of
        None \<Rightarrow> None
      | Some s \<Rightarrow>
          if \<not> stream_get_length E w h < num then Some (w, Inr ())
          else if s_mode s AND MODE_BLOCK_TIMEOUT \<noteq> 0 \<and> 20 < try_cnt
          then Some (upd_stream h (\<lambda>s. s\<lparr>write_finished := True\<rparr>) w, Inl 0)
          else let w1 = os_sem_take E h w
               in case streams w1 h of
                    None \<Rightarrow> None
                  | Some s1 \<Rightarrow>
                      if s_state s1 \<noteq> STATE_OPEN then Some (w1, Inl (- ENOSYS))
                      else if write_finished s1 then Some (w1, Inr ())
                      else read_wait E h num
                             (if s_mode s AND MODE_BLOCK_TIMEOUT \<noteq> 0 then try_cnt + 1 else try_cnt) w1)"

text \<open>
  \<open>buf\<close> is the caller's buffer before the call; the result carries its contents afterwards: the bytes
  the implementation stored, then what was there before.
\<close>

definition stream_read ::
    "('p, 'd, 'g) stream_env \<Rightarrow> ('d, 'g) world \<Rightarrow> u32 \<Rightarrow> u8 list \<Rightarrow> int
       \<Rightarrow> (('d, 'g) world \<times> u8 list \<times> int) option" where
  "stream_read E w h buf num =
     (case streams w h of
        None \<Rightarrow> Some (w, buf, - ENOSYS)
      | Some s \<Rightarrow>
          if s_state s \<noteq> STATE_OPEN then Some (w, buf, - ENOSYS)
          else if s_mode s AND MODE_IN = 0 then Some (w, buf, - EPERM)
          else case (if s_mode s AND MODE_READ_BLOCK \<noteq> 0 then read_wait E h num 0 w else Some (w, Inr ())) of
                 None \<Rightarrow> None
               | Some (w1, Inl r) \<Rightarrow> Some (w1, buf, r)
               | Some (w1, Inr _) \<Rightarrow>
                   case Option.bind (streams w1 h) (\<lambda>s1. op_read (ops_at E (s_ops s1))) of
                     None \<Rightarrow> None
                   | Some f \<Rightarrow>
                       (let (w2, bs, brw) = f w1 h num; buf' = bs @ drop (length bs) buf
                        in if brw < 0 then Some (w2, buf', 0)
                           else case forward_attached E h MODE_IN (Some buf') num brw (sem_give h w2) of
                                  None \<Rightarrow> None
                                | Some (w3, brw', ok) \<Rightarrow>
                                    if ok then Some (notify_observers E h STREAM_NOTIFY_READ brw' w3, buf', brw')
                                    else Some (w3, buf', brw')))"

partial_function (option) seek_wait ::
    "('p, 'd, 'g) stream_env \<Rightarrow> u32 \<Rightarrow> int \<Rightarrow> ('d, 'g) world \<Rightarrow> (('d, 'g) world \<times> bool) option" where
  "seek_wait E h target_off w =
     (case streams w h of
        None \<Rightarrow> None
      | Some s \<Rightarrow>
          if \<not> wofs s < word_of_int target_off then Some (w, True)
          else let w1 = os_sem_take E h w
               in case streams w1 h of
                    None \<Rightarrow> None
                  | Some s1 \<Rightarrow> if s_state s1 \<noteq> STATE_OPEN then Some (w1, False) else seek_wait E h target_off w1)"

definition stream_seek ::
    "('p, 'd, 'g) stream_env \<Rightarrow> ('d, 'g) world \<Rightarrow> u32 \<Rightarrow> int \<Rightarrow> seek_dir \<Rightarrow> (('d, 'g) world \<times> int) option" where
  "stream_seek E w h offset origin =
     (case streams w h of
        None \<Rightarrow> Some (w, - ENOSYS)
      | Some s \<Rightarrow>
          if s_state s \<noteq> STATE_OPEN then Some (w, - ENOSYS)
          else case op_seek (ops_at E (s_ops s)) of
                 None \<Rightarrow> Some (w, - ENOSYS)
               | Some f \<Rightarrow>
                   let target_off =
                         (case origin of
                            SEEK_DIR_BEG \<Rightarrow> offset
                          | SEEK_DIR_CUR \<Rightarrow>
                              if s_mode s AND MODE_IN_OUT = MODE_OUT then sint (wofs s + word_of_int offset)
                              else sint (rofs s + word_of_int offset)
                          | SEEK_DIR_END \<Rightarrow> sint (total_size s + word_of_int offset))
                   in case (if s_mode s AND MODE_IN_OUT = MODE_IN_OUT then seek_wait E h target_off w
                            else Some (w, True)) of
                        None \<Rightarrow> None
                      | Some (w1, False) \<Rightarrow> Some (w1, - ENOSYS)
                      | Some (w1, True) \<Rightarrow>
                          (let (w2, brw) = f w1 h target_off SEEK_DIR_BEG
                           in if brw < 0 then Some (w2, brw)
                              else Some (notify_observers E h STREAM_NOTIFY_SEEK 0 w2, brw)))"

definition stream_tell :: "('p, 'd, 'g) stream_env \<Rightarrow> ('d, 'g) world \<Rightarrow> u32 \<Rightarrow> int" where
  "stream_tell E w h =
     (case streams w h of
        None \<Rightarrow> - ENOSYS
      | Some s \<Rightarrow>
          if s_state s \<noteq> STATE_OPEN then - ENOSYS
          else case op_tell (ops_at E (s_ops s)) of None \<Rightarrow> - ENOSYS | Some f \<Rightarrow> f w h)"

partial_function (option) write_wait ::
    "('p, 'd, 'g) stream_env \<Rightarrow> u32 \<Rightarrow> int \<Rightarrow> nat \<Rightarrow> ('d, 'g) world \<Rightarrow> (('d, 'g) world \<times> (int + unit)) option" where
  "write_wait E h num try_cnt w =
     (case streams w h of
        None \<Rightarrow> None
      | Some s \<Rightarrow>
          case stream_get_space E w h of
            None \<Rightarrow> None
          | Some space \<Rightarrow>
              if \<not> space < num then Some (w, Inr ())
              else if s_mode s AND MODE_BLOCK_TIMEOUT \<noteq> 0 \<and> 20 < try_cnt
              then Some (upd_stream h (\<lambda>s. s\<lparr>write_finished := True\<rparr>) w, Inl 0)
              else let w1 = os_sem_take E h w
                   in case streams w1 h of
                        None \<Rightarrow> None
                      | Some s1 \<Rightarrow>
                          if s_state s1 \<noteq> STATE_OPEN then Some (w1, Inl (- ENOSYS))
                          else write_wait E h num
                                 (if s_mode s AND MODE_BLOCK_TIMEOUT \<noteq> 0 then try_cnt + 1 else try_cnt) w1)"

definition stream_write ::
    "('p, 'd, 'g) stream_env \<Rightarrow> ('d, 'g) world \<Rightarrow> u32 \<Rightarrow> u8 list option \<Rightarrow> int
       \<Rightarrow> (('d, 'g) world \<times> int) option" where
  "stream_write E w h buf num =
     (case streams w h of
        None \<Rightarrow> Some (w, - ENOSYS)
      | Some s \<Rightarrow>
          if s_state s \<noteq> STATE_OPEN then Some (w, - ENOSYS)
          else if s_mode s AND MODE_OUT = 0 then Some (w, - EPERM)
          else case (if s_mode s AND MODE_WRITE_BLOCK \<noteq> 0 then write_wait E h num 0 w else Some (w, Inr ())) of
                 None \<Rightarrow> None
               | Some (w1, Inl r) \<Rightarrow> Some (w1, r)
               | Some (w0, Inr _) \<Rightarrow>
                   let w1 = notify_observers E h STREAM_NOTIFY_PRE_WRITE num w0
                   in case Option.bind (streams w1 h) (\<lambda>s1. op_write (ops_at E (s_ops s1))) of
                     None \<Rightarrow> None
                   | Some f \<Rightarrow>
                       (let (w2, brw) = f w1 h buf num
                        in if brw \<noteq> num then Some (w2, brw)
                           else let w3 = (if num = 0 then upd_stream h (\<lambda>s. s\<lparr>write_finished := True\<rparr>) w2 else w2)
                                in case forward_attached E h MODE_OUT buf num brw (sem_give h w3) of
                                     None \<Rightarrow> None
                                   | Some (w4, brw', ok) \<Rightarrow>
                                       if ok then Some (notify_observers E h STREAM_NOTIFY_WRITE num w4, brw')
                                       else Some (w4, brw')))"

definition stream_flush ::
    "('p, 'd, 'g) stream_env \<Rightarrow> ('d, 'g) world \<Rightarrow> u32 \<Rightarrow> ('d, 'g) world \<times> int" where
  "stream_flush E w h =
     (case streams w h of
        None \<Rightarrow> (w, - ENOSYS)
      | Some s \<Rightarrow>
          if s_state s \<noteq> STATE_OPEN then (w, - ENOSYS)
          else case op_flush (ops_at E (s_ops s)) of
                 None \<Rightarrow> (w, 0)
               | Some f \<Rightarrow> (let (w1, brw) = f w h in if brw < 0 then (w1, brw) else (w1, 0)))"

definition stream_set_observer ::
    "('d, 'g) world \<Rightarrow> u32 \<Rightarrow> u32 \<Rightarrow> u32 \<Rightarrow> u8 \<Rightarrow> ('d, 'g) world \<times> int" where
  "stream_set_observer w h obs notify ty =
     (case streams w h of
        None \<Rightarrow> (w, - ENOSYS)
      | Some s \<Rightarrow>
          if s_state s \<noteq> STATE_OPEN then (w, - ENOSYS)
          else case List.find (\<lambda>i. observer_notify (observers s ! i) = 0) [0..<length (observers s)] of
                 None \<Rightarrow> (w, - EBUSY)
               | Some i \<Rightarrow>
                   (upd_stream h (\<lambda>s. s\<lparr>observers := (observers s)
                      [i := \<lparr>observer = obs, observer_type = ty, observer_notify = notify\<rparr>]\<rparr>) w, 0))"

definition stream_attach ::
    "('d, 'g) world \<Rightarrow> u32 \<Rightarrow> u32 \<Rightarrow> u8 \<Rightarrow> (('d, 'g) world \<times> int) option" where
  "stream_attach w origin att attach_type =
     (case streams w att of
        None \<Rightarrow> None
      | Some t \<Rightarrow>
          if s_mode t AND MODE_OUT = 0 then Some (w, - EINVAL)
          else case streams w origin of
                 None \<Rightarrow> Some (w, - ENOSYS)
               | Some s \<Rightarrow>
                   if s_state s \<noteq> STATE_OPEN then Some (w, - ENOSYS)
                   else if s_mode s AND attach_type = 0 then Some (w, - EINVAL)
                   else if attach_stream s = 0
                   then Some (upd_stream att (\<lambda>t. t\<lparr>attached_stream := origin\<rparr>)
                          (upd_stream origin (\<lambda>s. s\<lparr>attach_stream := att, attach_mode := attach_type\<rparr>) w), 0)
                   else Some (w, - ENOSYS))"

definition stream_detach :: "('d, 'g) world \<Rightarrow> u32 \<Rightarrow> u32 \<Rightarrow> ('d, 'g) world \<times> int" where
  "stream_detach w origin det =
     (if \<not> stream_check_handle_state w origin STATE_OPEN
      then (upd_stream det (\<lambda>t. t\<lparr>attached_stream := 0\<rparr>) w, - ENOSYS)
      else case streams w origin of
             None \<Rightarrow> (w, - ENOSYS)
           | Some s \<Rightarrow>
               if attach_stream s = det
               then (upd_stream det (\<lambda>t. t\<lparr>attached_stream := 0\<rparr>)
                       (upd_stream origin (\<lambda>s. s\<lparr>attach_stream := 0, attach_mode := 0\<rparr>) w), 0)
               else (w, - ENOSYS))"

definition stream_close ::
    "('p, 'd, 'g) stream_env \<Rightarrow> ('d, 'g) world \<Rightarrow> u32 \<Rightarrow> (('d, 'g) world \<times> int) option" where
  "stream_close E w h =
     (case streams w h of
        None \<Rightarrow> Some (w, - ENOSYS)
      | Some s \<Rightarrow>
          if s_state s \<noteq> STATE_OPEN then Some (w, - ENOSYS)
          else let w1 = (if attached_stream s \<noteq> 0 then fst (stream_detach w (attached_stream s) h) else w)
               in case op_close (ops_at E (s_ops s)) of
                    None \<Rightarrow> None
                  | Some f \<Rightarrow>
                      (let (w2, res) = f w1 h
                       in Some (upd_stream h (\<lambda>s. s\<lparr>
                            write_finished := (if sync_sem s \<noteq> None then True else write_finished s),
                            sync_sem := map_option (\<lambda>c. 1) (sync_sem s),
                            s_state := STATE_CLOSE\<rparr>) w2, res)))"

definition stream_destroy ::
    "('p, 'd, 'g) stream_env \<Rightarrow> ('d, 'g) world \<Rightarrow> u32 \<Rightarrow> (('d, 'g) world \<times> int) option" where
  "stream_destroy E w h =
     (case streams w h of
        None \<Rightarrow> None
      | Some s \<Rightarrow>
          let w1 = (if attached_stream s \<noteq> 0 then fst (stream_detach w (attached_stream s) h) else w)
          in case (case op_destroy (ops_at E (s_ops s)) of None \<Rightarrow> Some (w1, 0) | Some f \<Rightarrow> f w1 h) of
               None \<Rightarrow> None
             | Some (w2, res) \<Rightarrow> Some (w2\<lparr>streams := (streams w2)(h := None)\<rparr>, res))"

definition stream_check_finished :: "('p, 'd, 'g) stream_env \<Rightarrow> ('d, 'g) world \<Rightarrow> u32 \<Rightarrow> bool" where
  "stream_check_finished E w h =
     (case streams w h of
        None \<Rightarrow> False
      | Some s \<Rightarrow> s_state s = STATE_OPEN \<and> write_finished s \<and> stream_get_length E w h \<le> 0)"

definition stream_get_ringbuffer :: "('p, 'd, 'g) stream_env \<Rightarrow> ('d, 'g) world \<Rightarrow> u32 \<Rightarrow> u32" where
  "stream_get_ringbuffer E w h =
     (case streams w h of
        None \<Rightarrow> 0
      | Some s \<Rightarrow> case op_get_ringbuffer (ops_at E (s_ops s)) of None \<Rightarrow> 0 | Some f \<Rightarrow> f w h)"

section \<open>The store of streams\<close>

lemma streams_upd [simp]:
  "streams (upd_stream h f w) x = (if x = h then map_option f (streams w h) else streams w x)"
  by (simp add: upd_stream_def)

lemma shared_upd [simp]: "shared (upd_stream h f w) = shared w"
  by (simp add: upd_stream_def)

lemma streams_sem_give [simp]:
  "streams (sem_give h w) x =
     (if x = h then map_option (\<lambda>s. s\<lparr>sync_sem := map_option (\<lambda>c. 1) (sync_sem s)\<rparr>) (streams w h)
      else streams w x)"
  by (simp add: sem_give_def)

lemma shared_sem_give [simp]: "shared (sem_give h w) = shared w"
  by (simp add: sem_give_def)

text \<open>A stream nobody observes: the notification loops do nothing.\<close>

definition unobserved :: "'d stream \<Rightarrow> bool" where
  "unobserved s \<longleftrightarrow> (\<forall>i<2. observer_notify (observers s ! i) = 0)"

lemma notify_unobserved:
  assumes "streams w h = Some s" "unobserved s"
  shows "notify_observers E h ty num w = w"
  using assms by (simp add: notify_observers_def unobserved_def Let_def)

lemma forward_unattached:
  assumes "streams w h = Some s" "attach_stream s = 0"
  shows "forward_attached E h dir buf num brw w = Some (w, brw, True)"
  using assms by (simp add: forward_attached_def)

section \<open>Waiting\<close>

text \<open>
  With \<open>MODE_BLOCK_TIMEOUT\<close> the wait of a read ends after at most 22 attempts, whatever the other
  threads do to the world in the meantime, provided nobody changes the mode of the stream.
\<close>

definition keeps_timeout :: "('p, 'd, 'g) stream_env \<Rightarrow> u32 \<Rightarrow> bool" where
  "keeps_timeout E h \<longleftrightarrow>
     (\<forall>w s. streams w h = Some s \<longrightarrow> s_mode s AND MODE_BLOCK_TIMEOUT \<noteq> 0 \<longrightarrow>
        (\<exists>s'. streams (os_sem_take E h w) h = Some s' \<and> s_mode s' AND MODE_BLOCK_TIMEOUT \<noteq> 0))"

lemma keeps_timeoutD:
  assumes "keeps_timeout E h" "streams w h = Some s" "s_mode s AND MODE_BLOCK_TIMEOUT \<noteq> 0"
  obtains s' where "streams (os_sem_take E h w) h = Some s'" "s_mode s' AND MODE_BLOCK_TIMEOUT \<noteq> 0"
  using assms unfolding keeps_timeout_def by blast

lemma read_wait_returns:
  assumes "keeps_timeout E h" "streams w h = Some s" "s_mode s AND MODE_BLOCK_TIMEOUT \<noteq> 0"
  shows "\<exists>w' r. read_wait E h num n w = Some (w', r)"
  using assms(2,3)
proof (induction "21 - n" arbitrary: n w s)
  case 0
  then show ?case by (subst read_wait.simps) simp
next
  case (Suc k)
  obtain s1 where s1: "streams (os_sem_take E h w) h = Some s1" "s_mode s1 AND MODE_BLOCK_TIMEOUT \<noteq> 0"
    by (rule keeps_timeoutD [OF assms(1) Suc.prems])
  have "\<exists>w' r. read_wait E h num (Suc n) (os_sem_take E h w) = Some (w', r)"
    using Suc.hyps(2) s1 by (intro Suc.hyps(1) [of "Suc n"]) auto
  then show ?case using Suc.prems s1(1) by (subst read_wait.simps) (auto simp: Let_def)
qed

section \<open>Space along a chain of attached streams\<close>

definition space_at :: "('p, 'd, 'g) stream_env \<Rightarrow> ('d, 'g) world \<Rightarrow> u32 \<Rightarrow> int" where
  "space_at E w h = (case streams w h of None \<Rightarrow> - ENOSYS | Some s \<Rightarrow> own_space E w h s)"

text \<open>\<open>attach_chain w h hs\<close>: following the outgoing attachments from \<open>h\<close> visits the open streams \<open>hs\<close>.\<close>

inductive attach_chain :: "('d, 'g) world \<Rightarrow> u32 \<Rightarrow> u32 list \<Rightarrow> bool" for w where
  chain_leaf: "streams w h = Some s \<Longrightarrow> s_state s = STATE_OPEN \<Longrightarrow>
      attach_mode s \<noteq> MODE_OUT \<or> attach_stream s = 0 \<Longrightarrow> attach_chain w h [h]"
| chain_link: "streams w h = Some s \<Longrightarrow> s_state s = STATE_OPEN \<Longrightarrow>
      attach_mode s = MODE_OUT \<Longrightarrow> attach_stream s \<noteq> 0 \<Longrightarrow> attach_chain w (attach_stream s) hs \<Longrightarrow>
      attach_chain w h (h # hs)"

inductive_cases attach_chainE: "attach_chain w h hs"

lemma attach_chain_nonempty: "attach_chain w h hs \<Longrightarrow> hs \<noteq> []"
  by (erule attach_chain.cases) simp_all

lemma attach_chain_closed_no:
  assumes "attach_chain w h hs" "k \<in> set hs"
  shows "stream_check_handle_state w k STATE_OPEN"
  using assms by induction (auto simp: stream_check_handle_state_def)

text \<open>
  \<open>stream_get_space\<close> of a stream whose chain of attached streams ends returns the least space
  of all the streams of the chain, so a write of that many bytes fits in each of them.
\<close>

theorem stream_space_chain:
  assumes "attach_chain w h hs"
  shows "stream_get_space E w h = Some (Min (space_at E w ` set hs))"
  using assms
proof induction
  case (chain_leaf h s)
  then show ?case by (subst stream_get_space.simps) (auto simp: space_at_def)
next
  case (chain_link h s hs)
  have "Min (space_at E w ` set (h # hs)) = min (space_at E w h) (Min (space_at E w ` set hs))"
    using attach_chain_nonempty [OF chain_link(5)] by simp
  then show ?case using chain_link
    by (subst stream_get_space.simps) (auto simp: space_at_def min_def)
qed

text \<open>
  Two streams without operations of their own, 8 and 4 bytes large, the second attached to the
  first; an environment in which nothing ever happens.
\<close>

definition null_ops :: "(unit, unit, unit) stream_ops" where
  "null_ops = \<lparr>op_init = None, op_open = None, op_read = None, op_seek = None, op_tell = None, op_get_length = None,
     op_get_space = None, op_write = None, op_flush = None, op_close = None, op_destroy = None, op_get_ringbuffer = None\<rparr>"

definition idle_env :: "(unit, unit, unit) stream_env" where
  "idle_env = \<lparr>ops_at = (\<lambda>_. null_ops), new_stream = (\<lambda>_. 0), sem_alloc_ok = (\<lambda>_. True),
     call_observer = (\<lambda>_ _ w. w), os_sem_take = (\<lambda>_ w. w)\<rparr>"

definition two_streams :: "(unit, unit) world" where
  "two_streams =
     \<lparr>streams = [1 \<mapsto> zero_stream\<lparr>s_state := STATE_OPEN, s_mode := 0x1F, total_size := 8, attach_mode := MODE_OUT, attach_stream := 2\<rparr>,
                 2 \<mapsto> zero_stream\<lparr>s_state := STATE_OPEN, s_mode := 0x1F, total_size := 4, wofs := 1, attached_stream := 1\<rparr>],
      shared = ()\<rparr>"

lemma two_streams_chain: "attach_chain two_streams 1 [1, 2]"
proof (rule chain_link)
  show "streams two_streams 1 =
      Some (zero_stream\<lparr>s_state := STATE_OPEN, s_mode := 0x1F, total_size := 8, attach_mode := MODE_OUT, attach_stream := 2\<rparr>)"
    by (simp add: two_streams_def)
  show "attach_chain two_streams (attach_stream (zero_stream\<lparr>s_state := STATE_OPEN, s_mode := 0x1F, total_size := 8,
      attach_mode := MODE_OUT, attach_stream := 2\<rparr>)) [2]"
    by (simp, rule chain_leaf, simp add: two_streams_def, simp_all add: zero_stream_def)
qed simp_all

theorem stream_space_chain_witness:
  "stream_get_space idle_env two_streams 1 = Some (Min (space_at idle_env two_streams ` set [1, 2]))"
  by (rule stream_space_chain [OF two_streams_chain])

text \<open>
  C25: a blocking read with \<open>MODE_BLOCK_TIMEOUT\<close> does not wait for ever: as long as other threads, while it waits, neither
  destroy the stream nor reopen it without the timeout, the wait ends, whatever else they do; and when nothing arrives
  and the stream stays open it ends with result 0 and the stream marked as finished.
\<close>

theorem stream_read_wait_ends:
  assumes keep: "keeps_timeout E h" and s: "streams w h = Some s" "s_mode s AND MODE_BLOCK_TIMEOUT \<noteq> 0"
  shows "(\<exists>w' r. read_wait E h num 0 w = Some (w', r)) \<and>
    (os_sem_take E h w = w \<and> s_state s = STATE_OPEN \<and> \<not> write_finished s \<and> stream_get_length E w h < num \<longrightarrow>
     read_wait E h num 0 w = Some (upd_stream h (\<lambda>s. s\<lparr>write_finished := True\<rparr>) w, Inl 0))"
proof (intro conjI impI)
  show "\<exists>w' r. read_wait E h num 0 w = Some (w', r)" by (rule read_wait_returns [OF assms])
  assume idle: "os_sem_take E h w = w \<and> s_state s = STATE_OPEN \<and> \<not> write_finished s \<and> stream_get_length E w h < num"
  have "read_wait E h num n w = Some (upd_stream h (\<lambda>s. s\<lparr>write_finished := True\<rparr>) w, Inl 0)" for n
  proof (induction "21 - n" arbitrary: n)
    case 0
    then show ?case using s idle by (subst read_wait.simps) simp
  next
    case (Suc k)
    then have "read_wait E h num (Suc n) w = Some (upd_stream h (\<lambda>s. s\<lparr>write_finished := True\<rparr>) w, Inl 0)" by simp
    then show ?case using s idle Suc.hyps(2) by (subst read_wait.simps) (simp add: Let_def)
  qed
  then show "read_wait E h num 0 w = Some (upd_stream h (\<lambda>s. s\<lparr>write_finished := True\<rparr>) w, Inl 0)" .
qed

theorem stream_read_wait_ends_witness:
  "read_wait idle_env 1 1 0 two_streams = Some (upd_stream 1 (\<lambda>s. s\<lparr>write_finished := True\<rparr>) two_streams, Inl 0)"
proof -
  have k: "keeps_timeout idle_env 1" by (auto simp: keeps_timeout_def idle_env_def)
  show ?thesis
    using stream_read_wait_ends [OF k, of two_streams _ 1] by (simp add: idle_env_def null_ops_def two_streams_def
        zero_stream_def stream_get_length_def)
qed

text \<open>
  A stream attached to itself, which \<open>stream_attach\<close> accepts, makes \<open>stream_get_space\<close> recurse for ever.
\<close>

lemma space_self_loop:
  assumes "stream_get_space E w h = Some r" "streams w h = Some s" "s_state s = STATE_OPEN"
    "attach_mode s = MODE_OUT" "attach_stream s = h"
  shows "h = 0"
proof -
  have "streams w h = Some s \<and> s_state s = STATE_OPEN \<and> attach_mode s = MODE_OUT \<and> attach_stream s = h \<longrightarrow> h = 0"
  proof (rule stream_get_space.raw_induct [OF _ assms(1)])
    fix f :: "('a, 'b, 'c) stream_env \<Rightarrow> ('b, 'c) world \<Rightarrow> u32 \<Rightarrow> int option"
      and E :: "('a, 'b, 'c) stream_env" and w :: "('b, 'c) world" and h r
    assume "\<And>E w h r. f E w h = Some r \<Longrightarrow>
        streams w h = Some s \<and> s_state s = STATE_OPEN \<and> attach_mode s = MODE_OUT \<and> attach_stream s = h \<longrightarrow> h = 0"
      and "(case streams w h of None \<Rightarrow> Some (- ENOSYS) | Some s \<Rightarrow>
          if s_state s \<noteq> STATE_OPEN then Some (- ENOSYS)
          else if attach_mode s \<noteq> MODE_OUT \<or> attach_stream s = 0 then Some (own_space E w h s)
          else Option.bind (f E w (attach_stream s)) (\<lambda>attached_space.
                 Some (if attached_space < own_space E w h s then attached_space else own_space E w h s))) = Some r"
    then show "streams w h = Some s \<and> s_state s = STATE_OPEN \<and> attach_mode s = MODE_OUT \<and> attach_stream s = h \<longrightarrow> h = 0"
      by (cases "f E w h") (auto split: if_splits)
  qed
  then show ?thesis using assms by blast
qed

lemma stream_self_attach_diverges:
  assumes "streams w h = Some s" "s_state s = STATE_OPEN" "s_mode s AND MODE_OUT \<noteq> 0" "attach_stream s = 0" "h \<noteq> 0"
  shows "\<exists>w'. stream_attach w h h MODE_OUT = Some (w', 0) \<and> stream_get_space E w' h = None"
proof -
  let ?w = "upd_stream h (\<lambda>t. t\<lparr>attached_stream := h\<rparr>)
       (upd_stream h (\<lambda>s. s\<lparr>attach_stream := h, attach_mode := MODE_OUT\<rparr>) w)"
  have "stream_attach w h h MODE_OUT = Some (?w, 0)"
    using assms by (simp add: stream_attach_def)
  moreover have "stream_get_space E ?w h \<noteq> Some r" for r
    using space_self_loop [of E ?w h r "s\<lparr>attach_stream := h, attach_mode := MODE_OUT, attached_stream := h\<rparr>"] assms
    by auto
  ultimately show ?thesis by (metis not_None_eq)
qed

end
