(* ===== verification/Ringbuff_Stream.thy ===== *)
theory Ringbuff_Stream
  imports Io_Stream Acts_Ringbuf
begin

text \<open>
  Streams over a ring buffer, \<^verbatim>\<open>src/framework/base/utils/stream/ringbuff_stream.c\<close>: the operation
  tables \<open>ringbuff_stream_ops\<close> and \<open>ringbuff_stream_ops_ext\<close>, and the pool of eight ring buffer
  structures the second one takes its buffers from.

  The private data of a stream (\<open>ringbuff_info_t\<close>) is the address of its ring buffer; the ring
  buffers are structures of a store, their bytes lie in the byte memory.
\<close>

unbundle bit_operations_syntax

section \<open>Model\<close>

record ring_shared =
  bytes :: mem
  rings :: "u32 \<Rightarrow> acts_ringbuf option"
  buff_pool :: u32 \<comment> \<open>address of the pool array\<close>
  bit_mask :: u32

type_synonym ring_world = "(u32, ring_shared) world"

text \<open>
  The ring buffer behind a handle, \<open>None\<close> when the stream has no data. The code dereferences
  \<open>info->buf\<close> without a test; the model gives a dangling buffer pointer the same result as missing data.
\<close>

definition ring_of :: "ring_world \<Rightarrow> u32 \<Rightarrow> (u32 \<times> acts_ringbuf) option" where
  "ring_of w h = Option.bind (streams w h) (\<lambda>s. Option.bind (s_data s) (\<lambda>a.
     map_option (\<lambda>b. (a, b)) (rings (shared w) a)))"

definition set_ring :: "u32 \<Rightarrow> acts_ringbuf \<Rightarrow> mem \<Rightarrow> ring_world \<Rightarrow> ring_world" where
  "set_ring a b m w = w\<lparr>shared := (shared w)\<lparr>rings := (rings (shared w))(a \<mapsto> b), bytes := m\<rparr>\<rparr>"

definition ringbuff_stream_open :: "ring_world \<Rightarrow> u32 \<Rightarrow> u8 \<Rightarrow> ring_world \<times> int" where
  "ringbuff_stream_open w h mode =
     (case Option.bind (streams w h) s_data of
        None \<Rightarrow> (w, - EACCES)
      | Some _ \<Rightarrow> (upd_stream h (\<lambda>s. s\<lparr>s_mode := mode\<rparr>) w, 0))"

definition ringbuff_stream_read :: "ring_world \<Rightarrow> u32 \<Rightarrow> int \<Rightarrow> ring_world \<times> u8 list \<times> int" where
  "ringbuff_stream_read w h len =
     (case ring_of w h of
        None \<Rightarrow> (w, [], - EACCES)
      | Some (a, b) \<Rightarrow>
          (let (out, b', ret) = acts_ringbuf_get (bytes (shared w)) b True (word_of_int len)
           in (upd_stream h (\<lambda>s. s\<lparr>rofs := head b', wofs := tail b'\<rparr>)
                 (set_ring a b' (bytes (shared w)) w), out, sint ret)))"

definition ringbuff_stream_write :: "ring_world \<Rightarrow> u32 \<Rightarrow> u8 list option \<Rightarrow> int \<Rightarrow> ring_world \<times> int" where
  "ringbuff_stream_write w h buf len =
     (case ring_of w h of
        None \<Rightarrow> (w, - EACCES)
      | Some (a, b) \<Rightarrow>
          (let (m', b', ret) =
                 (case buf of
                    None \<Rightarrow> (let (b', r) = acts_ringbuf_fill_none b (word_of_int len) in (bytes (shared w), b', r))
                  | Some d \<Rightarrow> acts_ringbuf_put (bytes (shared w)) b (Some d) (word_of_int len))
           in (upd_stream h (\<lambda>s. s\<lparr>rofs := head b', wofs := tail b'\<rparr>) (set_ring a b' m' w), sint ret)))"

definition ringbuff_stream_get_length :: "ring_world \<Rightarrow> u32 \<Rightarrow> int" where
  "ringbuff_stream_get_length w h =
     (case ring_of w h of None \<Rightarrow> - EACCES | Some (a, b) \<Rightarrow> sint (acts_ringbuf_length b))"

definition ringbuff_stream_get_space :: "ring_world \<Rightarrow> u32 \<Rightarrow> int" where
  "ringbuff_stream_get_space w h =
     (case ring_of w h of None \<Rightarrow> - EACCES | Some (a, b) \<Rightarrow> sint (acts_ringbuf_space b))"

definition ringbuff_stream_tell :: "ring_world \<Rightarrow> u32 \<Rightarrow> int" where
  "ringbuff_stream_tell w h = ringbuff_stream_get_length w h"

definition ringbuff_stream_flush :: "ring_world \<Rightarrow> u32 \<Rightarrow> ring_world \<times> int" where
  "ringbuff_stream_flush w h =
     (case ring_of w h of
        None \<Rightarrow> (w, - EACCES)
      | Some (a, b) \<Rightarrow>
          (let len = sint (acts_ringbuf_length b);
               (b', r) = acts_ringbuf_drop b (word_of_int len)
           in (set_ring a b' (bytes (shared w)) w, sint r)))"

definition ringbuff_stream_close :: "ring_world \<Rightarrow> u32 \<Rightarrow> ring_world \<times> int" where
  "ringbuff_stream_close w h =
     (case Option.bind (streams w h) s_data of None \<Rightarrow> (w, - EACCES) | Some _ \<Rightarrow> (w, 0))"

definition ringbuff_stream_destroy :: "ring_world \<Rightarrow> u32 \<Rightarrow> (ring_world \<times> int) option" where
  "ringbuff_stream_destroy w h =
     Some (case Option.bind (streams w h) s_data of
             None \<Rightarrow> (w, - EACCES)
           | Some _ \<Rightarrow> (upd_stream h (\<lambda>s. s\<lparr>s_data := None\<rparr>) w, 0))"

text \<open>
  \<open>malloc_ok\<close> is whether \<open>mem_malloc\<close> of the \<open>ringbuff_info_t\<close> succeeds. The parameter of the plain
  table is a ring buffer address, the first component here; the extended table gets the data
  area and its size.
\<close>

definition ringbuff_stream_init :: "(ring_world \<Rightarrow> bool) \<Rightarrow> ring_world \<Rightarrow> u32 \<Rightarrow> u32 \<times> u32 \<Rightarrow> ring_world \<times> int" where
  "ringbuff_stream_init malloc_ok w h param =
     (if \<not> malloc_ok w then (w, - ENOMEM)
      else case rings (shared w) (fst param) of
             None \<Rightarrow> (w, - EACCES)
           | Some b \<Rightarrow>
               (upd_stream h (\<lambda>s. s\<lparr>s_data := Some (fst param), s_type := 0x55, total_size := acts_ringbuf_size b\<rparr>) w, 0))"

definition ringbuff_stream_get_ringbuf :: "ring_world \<Rightarrow> u32 \<Rightarrow> u32" where
  "ringbuff_stream_get_ringbuf w h =
     (case streams w h of
        None \<Rightarrow> 0
      | Some s \<Rightarrow> if s_type s = 0x55 then (case s_data s of None \<Rightarrow> 0 | Some a \<Rightarrow> a) else 0)"

definition ringbuff_stream_get_ringbuf_buf :: "ring_world \<Rightarrow> u32 \<Rightarrow> u32" where
  "ringbuff_stream_get_ringbuf_buf w h =
     (case streams w h of
        None \<Rightarrow> 0
      | Some s \<Rightarrow> if s_type s = 0x55 then (case ring_of w h of None \<Rightarrow> 0 | Some (a, b) \<Rightarrow> cpu_ptr b) else 0)"

definition ringbuff_stream_get_ringbuf_size :: "ring_world \<Rightarrow> u32 \<Rightarrow> u32" where
  "ringbuff_stream_get_ringbuf_size w h =
     (case streams w h of
        None \<Rightarrow> 0
      | Some s \<Rightarrow> if s_type s = 0x55 then (case ring_of w h of None \<Rightarrow> 0 | Some (a, b) \<Rightarrow> size_e b) else 0)"

definition ringbuff_stream_ops :: "(ring_world \<Rightarrow> bool) \<Rightarrow> (u32 \<times> u32, u32, ring_shared) stream_ops" where
  "ringbuff_stream_ops malloc_ok =
     \<lparr>op_init = Some (ringbuff_stream_init malloc_ok), op_open = Some ringbuff_stream_open,
      op_read = Some ringbuff_stream_read, op_seek = None, op_tell = Some ringbuff_stream_tell,
      op_get_length = Some ringbuff_stream_get_length, op_get_space = Some ringbuff_stream_get_space,
      op_write = Some ringbuff_stream_write, op_flush = Some ringbuff_stream_flush,
      op_close = Some ringbuff_stream_close, op_destroy = Some ringbuff_stream_destroy,
      op_get_ringbuffer = Some ringbuff_stream_get_ringbuf\<rparr>"

definition ringbuff_stream_create where
  "ringbuff_stream_create E w tab param = stream_create E w tab (param, 0)"

text \<open>The pool: slot \<open>i\<close> lies at \<open>buff_pool + i * sizeof(struct acts_ringbuf)\<close>.\<close>

definition pool_slot :: "ring_shared \<Rightarrow> nat \<Rightarrow> u32" where
  "pool_slot g i = buff_pool g + 32 * of_nat i"

definition zero_ringbuf :: acts_ringbuf where
  "zero_ringbuf = \<lparr>head = 0, tail = 0, size_e = 0, mask = 0, cpu_ptr = 0, dsp_ptr = 0, head_offset = 0, tail_offset = 0\<rparr>"

definition malloc_ring_buf :: "ring_shared \<Rightarrow> ring_shared \<times> u32" where
  "malloc_ring_buf g =
     (case List.find (\<lambda>i. bit_mask g AND push_bit i 1 = 0) [0..<8] of
        None \<Rightarrow> (g, 0)
      | Some i \<Rightarrow> (g\<lparr>bit_mask := bit_mask g OR push_bit i 1, rings := (rings g)(pool_slot g i \<mapsto> zero_ringbuf)\<rparr>,
                   pool_slot g i))"

definition free_ring_buf :: "ring_shared \<Rightarrow> u32 \<Rightarrow> ring_shared" where
  "free_ring_buf g a =
     (case List.find (\<lambda>i. pool_slot g i = a) [0..<8] of
        None \<Rightarrow> g
      | Some i \<Rightarrow> g\<lparr>bit_mask := bit_mask g AND NOT (push_bit i 1)\<rparr>)"

definition ringbuff_stream_init_ext ::
    "(ring_world \<Rightarrow> bool) \<Rightarrow> (u32 \<Rightarrow> u32) \<Rightarrow> ring_world \<Rightarrow> u32 \<Rightarrow> u32 \<times> u32 \<Rightarrow> ring_world \<times> int" where
  "ringbuff_stream_init_ext malloc_ok mcu_to_dsp w h param =
     (case malloc_ring_buf (shared w) of
        (g, a) \<Rightarrow>
          if a = 0 then (w\<lparr>shared := g\<rparr>, - ENOMEM)
          else let w1 = w\<lparr>shared := g\<lparr>rings := (rings g)(a \<mapsto> acts_ringbuf_init mcu_to_dsp (fst param) (snd param))\<rparr>\<rparr>
               in (fst (ringbuff_stream_init malloc_ok w1 h (a, 0)), 0))"

definition ringbuff_stream_destroy_ext :: "ring_world \<Rightarrow> u32 \<Rightarrow> (ring_world \<times> int) option" where
  "ringbuff_stream_destroy_ext w h =
     (case Option.bind (streams w h) s_data of
        None \<Rightarrow> None
      | Some a \<Rightarrow>
          let w1 = (if a \<noteq> 0 then w\<lparr>shared := free_ring_buf (shared w) a\<rparr> else w)
          in map_option (\<lambda>(w2, _). (w2, 0)) (ringbuff_stream_destroy w1 h))"

definition ringbuff_stream_ops_ext ::
    "(ring_world \<Rightarrow> bool) \<Rightarrow> (u32 \<Rightarrow> u32) \<Rightarrow> (u32 \<times> u32, u32, ring_shared) stream_ops" where
  "ringbuff_stream_ops_ext malloc_ok mcu_to_dsp =
     (ringbuff_stream_ops malloc_ok)\<lparr>op_init := Some (ringbuff_stream_init_ext malloc_ok mcu_to_dsp),
        op_destroy := Some ringbuff_stream_destroy_ext\<rparr>"

definition ringbuff_stream_create_ext where
  "ringbuff_stream_create_ext E w tab ring_buff ring_buff_size =
     stream_create E w tab (ring_buff, ring_buff_size)"

section \<open>The stream operations on a ring stream\<close>

text \<open>
  \<open>ring_stream E w h s a b\<close>: \<open>h\<close> is an open ring stream with structure \<open>s\<close> over the ring buffer \<open>b\<close> at \<open>a\<close>.
\<close>

definition ring_stream ::
    "(u32 \<times> u32, u32, ring_shared) stream_env \<Rightarrow> ring_world \<Rightarrow> u32 \<Rightarrow> u32 stream \<Rightarrow> u32 \<Rightarrow> acts_ringbuf \<Rightarrow> bool" where
  "ring_stream E w h s a b \<longleftrightarrow>
     streams w h = Some s \<and> s_state s = STATE_OPEN \<and> s_data s = Some a \<and> rings (shared w) a = Some b \<and> rb_inv b \<and>
     unat (size_e b) < 2147483648 \<and>
     op_read (ops_at E (s_ops s)) = Some ringbuff_stream_read \<and>
     op_write (ops_at E (s_ops s)) = Some ringbuff_stream_write \<and> unobserved s"

lemma ring_streamD:
  assumes "ring_stream E w h s a b"
  shows "streams w h = Some s" "s_state s = STATE_OPEN" "s_data s = Some a" "rings (shared w) a = Some b"
    "rb_inv b" "unat (size_e b) < 2147483648" "op_read (ops_at E (s_ops s)) = Some ringbuff_stream_read"
    "op_write (ops_at E (s_ops s)) = Some ringbuff_stream_write" "unobserved s" "ring_of w h = Some (a, b)"
  using assms by (simp_all add: ring_stream_def ring_of_def)

lemma streams_set_ring [simp]: "streams (set_ring a b m w) = streams w"
  by (simp add: set_ring_def)

lemma shared_set_ring [simp]:
  "shared (set_ring a b m w) = (shared w)\<lparr>rings := (rings (shared w))(a \<mapsto> b), bytes := m\<rparr>"
  by (simp add: set_ring_def)

lemma unat_word_of_int: "0 \<le> n \<Longrightarrow> n < 2147483648 \<Longrightarrow> unat (word_of_int n :: u32) = nat n"
  by (simp add: unsigned_of_int take_bit_int_eq_self)

lemma sint_word_of_int: "0 \<le> n \<Longrightarrow> n < 2147483648 \<Longrightarrow> sint (word_of_int n :: u32) = n"
  by (subst sint_small_u32) (simp_all add: unat_word_of_int uint_word_of_int_eq take_bit_int_eq_self)

lemma ring_write_fits:
  assumes "ring_stream E w h s a b" "0 \<le> num" "num < 2147483648" "length d = nat num"
    "rb_len b + nat num \<le> unat (size_e b)"
  shows "ringbuff_stream_write w h (Some d) num =
    (upd_stream h (\<lambda>s. s\<lparr>rofs := head (advance_tail b (word_of_int num)),
                         wofs := tail (advance_tail b (word_of_int num))\<rparr>)
       (set_ring a (advance_tail b (word_of_int num))
          (ring_write (bytes (shared w)) (cpu_ptr b) (unat (size_e b)) (unat (tail_offset b)) d) w), num)"
proof -
  note u = unat_word_of_int [OF assms(2,3)]
  have "acts_ringbuf_put (bytes (shared w)) b (Some d) (word_of_int num) =
      (ring_write (bytes (shared w)) (cpu_ptr b) (unat (size_e b)) (unat (tail_offset b)) d,
       advance_tail b (word_of_int num), word_of_int num)"
    using assms by (intro put_accept) (auto simp: u ring_streamD)
  then show ?thesis using assms by (simp add: ringbuff_stream_write_def ring_streamD sint_word_of_int)
qed

lemma ring_write_full:
  assumes "ring_stream E w h s a b" "0 \<le> num" "num < 2147483648" "unat (size_e b) < rb_len b + nat num"
  shows "ringbuff_stream_write w h (Some d) num =
    (upd_stream h (\<lambda>s. s\<lparr>rofs := head b, wofs := tail b\<rparr>) (set_ring a b (bytes (shared w)) w), 0)"
proof -
  have "acts_ringbuf_put (bytes (shared w)) b (Some d) (word_of_int num) = (bytes (shared w), b, 0)"
    using assms rb_inv_bounds(5) [OF ring_streamD(5) [OF assms(1)]]
    by (intro put_reject) (simp_all add: unat_word_of_int ring_streamD(5) [OF assms(1)])
  then show ?thesis using assms by (simp add: ringbuff_stream_write_def ring_streamD)
qed

lemma ring_read_avail:
  assumes "ring_stream E w h s a b" "0 \<le> num" "num < 2147483648" "nat num \<le> rb_len b"
  shows "ringbuff_stream_read w h num =
    (upd_stream h (\<lambda>s. s\<lparr>rofs := head (advance_head b (word_of_int num)),
                         wofs := tail (advance_head b (word_of_int num))\<rparr>)
       (set_ring a (advance_head b (word_of_int num)) (bytes (shared w)) w),
     take (nat num) (rb_list (bytes (shared w)) b), num)"
  using assms get_accept [of b "word_of_int num" "bytes (shared w)" True]
  by (simp add: ringbuff_stream_read_def ring_streamD unat_word_of_int sint_word_of_int)

lemma ring_read_short:
  assumes "ring_stream E w h s a b" "0 \<le> num" "num < 2147483648" "rb_len b < nat num"
  shows "ringbuff_stream_read w h num =
    (upd_stream h (\<lambda>s. s\<lparr>rofs := head b, wofs := tail b\<rparr>) (set_ring a b (bytes (shared w)) w), [], 0)"
  using assms get_reject [of b "word_of_int num" "bytes (shared w)" True]
  by (simp add: ringbuff_stream_read_def ring_streamD unat_word_of_int)

section \<open>A ring stream is a FIFO\<close>

text \<open>
  \<open>stream_write\<close> and \<open>stream_read\<close> on an open non-blocking ring stream that is neither attached nor
  observed satisfy the contract of a byte channel.
\<close>

type_synonym rs_state = "(u32 \<times> u32, u32, ring_shared) stream_env \<times> ring_world \<times> u32"

definition rs_put :: "rs_state \<Rightarrow> u8 list \<Rightarrow> rs_state \<times> nat" where
  "rs_put q xs = (case q of (E, w, h) \<Rightarrow>
     case stream_write E w h (Some xs) (int (length xs)) of
       None \<Rightarrow> (q, 0) | Some (w', n) \<Rightarrow> ((E, w', h), nat n))"

definition rs_get :: "rs_state \<Rightarrow> nat \<Rightarrow> u8 list \<times> rs_state" where
  "rs_get q n = (case q of (E, w, h) \<Rightarrow>
     case stream_read E w h [] (int n) of None \<Rightarrow> ([], q) | Some (w', bs, k) \<Rightarrow> (bs, E, w', h))"

definition rs_contents :: "rs_state \<Rightarrow> u8 list" where
  "rs_contents q = (case q of (E, w, h) \<Rightarrow>
     case ring_of w h of None \<Rightarrow> [] | Some (a, b) \<Rightarrow> rb_list (bytes (shared w)) b)"

definition rs_capacity :: "rs_state \<Rightarrow> nat" where
  "rs_capacity q = (case q of (E, w, h) \<Rightarrow>
     case ring_of w h of None \<Rightarrow> 0 | Some (a, b) \<Rightarrow> unat (size_e b))"

definition plain_mode :: "u8 \<Rightarrow> bool" where
  "plain_mode mode \<longleftrightarrow> mode AND MODE_IN \<noteq> 0 \<and> mode AND MODE_OUT \<noteq> 0 \<and>
     mode AND MODE_READ_BLOCK = 0 \<and> mode AND MODE_WRITE_BLOCK = 0"

definition rs_inv :: "rs_state \<Rightarrow> bool" where
  "rs_inv q = (case q of (E, w, h) \<Rightarrow>
     \<exists>s a b. ring_stream E w h s a b \<and> plain_mode (s_mode s) \<and> attach_stream s = 0)"

lemma rs_invE:
  assumes "rs_inv (E, w, h)"
  obtains s a b where "ring_stream E w h s a b" "plain_mode (s_mode s)" "attach_stream s = 0"
  using assms by (auto simp: rs_inv_def)

text \<open>The world after an operation that left the ring \<open>b'\<close> and the memory \<open>m'\<close>.\<close>

definition ring_after :: "u32 \<Rightarrow> u32 \<Rightarrow> acts_ringbuf \<Rightarrow> mem \<Rightarrow> ring_world \<Rightarrow> ring_world" where
  "ring_after h a b' m' w =
     upd_stream h (\<lambda>s. s\<lparr>rofs := head b', wofs := tail b'\<rparr>) (set_ring a b' m' w)"

lemma ring_after_simps [simp]:
  "streams (ring_after h a b' m' w) x =
     (if x = h then map_option (\<lambda>s. s\<lparr>rofs := head b', wofs := tail b'\<rparr>) (streams w h) else streams w x)"
  "shared (ring_after h a b' m' w) = (shared w)\<lparr>rings := (rings (shared w))(a \<mapsto> b'), bytes := m'\<rparr>"
  by (simp_all add: ring_after_def)

lemma unobserved_upd [simp]:
  "unobserved (s\<lparr>rofs := x\<rparr>) = unobserved s" "unobserved (s\<lparr>wofs := x\<rparr>) = unobserved s"
  "unobserved (s\<lparr>sync_sem := y\<rparr>) = unobserved s" "unobserved (s\<lparr>write_finished := z\<rparr>) = unobserved s"
  by (simp_all add: unobserved_def)

lemma stream_write_ring:
  assumes "ring_stream E w h s a b" "plain_mode (s_mode s)" "attach_stream s = 0"
    "ringbuff_stream_write w h (Some xs) num = (ring_after h a b' m' w, n)"
  shows "stream_write E w h (Some xs) num =
    Some (if n \<noteq> num then ring_after h a b' m' w
          else sem_give h (if num = 0 then upd_stream h (\<lambda>s. s\<lparr>write_finished := True\<rparr>) (ring_after h a b' m' w)
                           else ring_after h a b' m' w), n)"
proof -
  note d = ring_streamD [OF assms(1)]
  let ?w = "sem_give h (if num = 0 then upd_stream h (\<lambda>s. s\<lparr>write_finished := True\<rparr>) (ring_after h a b' m' w)
                        else ring_after h a b' m' w)"
  obtain s' where s': "streams ?w h = Some s'" "attach_stream s' = 0" "unobserved s'"
    using d assms(3) by (cases "num = 0") auto
  have "stream_write E w h (Some xs) num =
      (if n \<noteq> num then Some (ring_after h a b' m' w, n)
       else case forward_attached E h MODE_OUT (Some xs) num n ?w of
              None \<Rightarrow> None
            | Some (w4, brw', ok) \<Rightarrow>
                if ok then Some (notify_observers E h STREAM_NOTIFY_WRITE num w4, brw') else Some (w4, brw'))"
    using assms(2,4) by (simp add: stream_write_def plain_mode_def d notify_unobserved [OF d(1) d(9)])
  then show ?thesis
    by (simp only: forward_unattached [OF s'(1,2)] notify_unobserved [OF s'(1,3)] option.case prod.case) simp
qed

lemma stream_read_ring:
  assumes "ring_stream E w h s a b" "plain_mode (s_mode s)" "attach_stream s = 0"
    "ringbuff_stream_read w h num = (ring_after h a b' m' w, bs, n)" "0 \<le> n"
  shows "stream_read E w h buf num = Some (sem_give h (ring_after h a b' m' w), bs @ drop (length bs) buf, n)"
proof -
  note d = ring_streamD [OF assms(1)]
  let ?w = "sem_give h (ring_after h a b' m' w)"
  obtain s' where s': "streams ?w h = Some s'" "attach_stream s' = 0" "unobserved s'"
    using d assms(3) by auto
  show ?thesis
    using assms(2,4,5)
    by (simp add: stream_read_def plain_mode_def d Let_def forward_unattached [OF s'(1,2)] notify_unobserved [OF s'(1,3)])
qed

text \<open>What the channel looks like afterwards.\<close>

lemma rs_after:
  assumes "ring_stream E w h s a b" "plain_mode (s_mode s)" "attach_stream s = 0"
    "rb_inv b'" "size_e b' = size_e b" "streams w' h = Some s'" "shared w' = shared (ring_after h a b' m' w)"
    "s_state s' = STATE_OPEN" "s_mode s' = s_mode s" "s_data s' = Some a" "s_ops s' = s_ops s" "unobserved s'"
    "attach_stream s' = 0"
  shows "rs_contents (E, w', h) = rb_list m' b'" "rs_inv (E, w', h)" "rs_capacity (E, w', h) = unat (size_e b)"
  using assms ring_streamD [OF assms(1)]
  by (simp_all add: rs_contents_def rs_capacity_def ring_of_def rs_inv_def ring_stream_def)

lemma rs_put_step:
  assumes "ring_stream E w h s a b" "plain_mode (s_mode s)" "attach_stream s = 0"
    "ringbuff_stream_write w h (Some xs) (int (length xs)) = (ring_after h a b' m' w, int n)"
    "rb_inv b'" "size_e b' = size_e b" "rs_put (E, w, h) xs = (q', k)"
  shows "k = n \<and> rs_contents q' = rb_list m' b' \<and> rs_inv q' \<and> rs_capacity q' = unat (size_e b)"
proof -
  note d = ring_streamD [OF assms(1)]
  define w' where "w' = (if int n \<noteq> int (length xs) then ring_after h a b' m' w
          else sem_give h (if int (length xs) = 0 then upd_stream h (\<lambda>s. s\<lparr>write_finished := True\<rparr>) (ring_after h a b' m' w)
                           else ring_after h a b' m' w))"
  note w = stream_write_ring [OF assms(1-4), folded w'_def]
  have q': "q' = (E, w', h)" "k = n" using assms(7) by (simp_all add: rs_put_def w)
  obtain s' where "streams w' h = Some s'" "shared w' = shared (ring_after h a b' m' w)"
    "s_state s' = STATE_OPEN" "s_mode s' = s_mode s" "s_data s' = Some a" "s_ops s' = s_ops s" "unobserved s'"
    "attach_stream s' = 0"
    unfolding w'_def using d assms(3) by (cases "n = length xs"; cases "xs = []") auto
  from rs_after [OF assms(1-3,5,6) this] q' show ?thesis by blast
qed

lemma rs_get_step:
  assumes "ring_stream E w h s a b" "plain_mode (s_mode s)" "attach_stream s = 0"
    "ringbuff_stream_read w h (int n) = (ring_after h a b' m' w, bs, int k)"
    "rb_inv b'" "size_e b' = size_e b" "rs_get (E, w, h) n = (ys, q')"
  shows "ys = bs \<and> rs_contents q' = rb_list m' b' \<and> rs_inv q' \<and> rs_capacity q' = unat (size_e b)"
proof -
  note d = ring_streamD [OF assms(1)]
  let ?w = "sem_give h (ring_after h a b' m' w)"
  have q': "ys = bs" "q' = (E, ?w, h)"
    using assms(7) unfolding rs_get_def by (simp_all add: stream_read_ring [OF assms(1-4)])
  obtain s' where "streams ?w h = Some s'" "shared ?w = shared (ring_after h a b' m' w)"
    "s_state s' = STATE_OPEN" "s_mode s' = s_mode s" "s_data s' = Some a" "s_ops s' = s_ops s" "unobserved s'"
    "attach_stream s' = 0"
    using d assms(3) by auto
  from rs_after [OF assms(1-3,5,6) this] q' show ?thesis by blast
qed

lemma ring_write_after:
  assumes "ring_stream E w h s a b" "length xs < 2147483648"
  shows "rb_len b + length xs \<le> unat (size_e b) \<Longrightarrow>
      ringbuff_stream_write w h (Some xs) (int (length xs)) =
        (ring_after h a (advance_tail b (of_nat (length xs)))
           (ring_write (bytes (shared w)) (cpu_ptr b) (unat (size_e b)) (unat (tail_offset b)) xs) w, int (length xs))"
    and "unat (size_e b) < rb_len b + length xs \<Longrightarrow>
      ringbuff_stream_write w h (Some xs) (int (length xs)) = (ring_after h a b (bytes (shared w)) w, int 0)"
  using assms ring_write_fits [OF assms(1), of "int (length xs)" xs]
    ring_write_full [OF assms(1), of "int (length xs)" xs]
  by (simp_all add: ring_after_def)

lemma ring_read_after:
  assumes "ring_stream E w h s a b" "n < 2147483648"
  shows "n \<le> rb_len b \<Longrightarrow> ringbuff_stream_read w h (int n) =
        (ring_after h a (advance_head b (of_nat n)) (bytes (shared w)) w,
         take n (rb_list (bytes (shared w)) b), int n)"
    and "rb_len b < n \<Longrightarrow> ringbuff_stream_read w h (int n) = (ring_after h a b (bytes (shared w)) w, [], int 0)"
  using assms ring_read_avail [OF assms(1), of "int n"] ring_read_short [OF assms(1), of "int n"]
  by (simp_all add: ring_after_def)

lemma rs_state_eq:
  assumes "ring_stream E w h s a b"
  shows "rs_contents (E, w, h) = rb_list (bytes (shared w)) b" "rs_capacity (E, w, h) = unat (size_e b)"
    "length (rs_contents (E, w, h)) = rb_len b"
  using ring_streamD [OF assms] by (simp_all add: rs_contents_def rs_capacity_def rb_list_def)

lemma unat_of_nat_small: "n < 2147483648 \<Longrightarrow> unat (of_nat n :: u32) = n"
  by (simp add: unat_of_nat_u32)

lemma rs_inv_cases:
  assumes "rs_inv q"
  obtains E w h s a b where "q = (E, w, h)" "ring_stream E w h s a b" "plain_mode (s_mode s)" "attach_stream s = 0"
    "rs_contents q = rb_list (bytes (shared w)) b" "rs_capacity q = unat (size_e b)"
    "length (rs_contents q) = rb_len b" "rb_inv b"
  using assms by (cases q) (metis rs_invE rs_state_eq ring_streamD(5))

lemma rs_byte_fifo: "byte_fifo rs_put rs_get rs_contents rs_capacity rs_inv 2147483648"
proof (unfold_locales, goal_cases)
  case (1 q)
  then show ?case by (elim rs_inv_cases) (simp add: rb_inv_bounds)
next
  case (2 q xs q' n)
  from 2(1) show ?case
  proof (cases rule: rs_inv_cases)
    case (1 E w h s a b)
    have f: "rb_len b + length xs \<le> unat (size_e b)" "unat (of_nat (length xs) :: u32) = length xs"
      using 2 1 by (simp_all add: unat_of_nat_small)
    from rs_put_step [OF 1(2-4) ring_write_after(1) [OF 1(2) 2(2) f(1)] _ _ 2(4) [unfolded 1(1)]] show ?thesis
      using f 1 by (simp add: advance_tail_inv ring_write_tail_list)
  qed
next
  case (3 q xs q' n)
  from 3(1) show ?case
  proof (cases rule: rs_inv_cases)
    case (1 E w h s a b)
    have f: "unat (size_e b) < rb_len b + length xs" using 3 1 by simp
    from rs_put_step [OF 1(2-4) ring_write_after(2) [OF 1(2) 3(2) f] 1(8) refl 3(4) [unfolded 1(1)]] show ?thesis
      using 1 by simp
  qed
next
  case (4 q n ys q')
  from 4(1) show ?case
  proof (cases rule: rs_inv_cases)
    case (1 E w h s a b)
    have f: "n \<le> rb_len b" "unat (of_nat n :: u32) = n" using 4 1 by (simp_all add: unat_of_nat_small)
    from rs_get_step [OF 1(2-4) ring_read_after(1) [OF 1(2) 4(2) f(1)] _ _ 4(4) [unfolded 1(1)]] show ?thesis
      using f 1 by (simp add: advance_head_inv advance_head_list)
  qed
next
  case (5 q n ys q')
  from 5(1) show ?case
  proof (cases rule: rs_inv_cases)
    case (1 E w h s a b)
    have f: "rb_len b < n" using 5 1 by simp
    from rs_get_step [OF 1(2-4) ring_read_after(2) [OF 1(2) 5(2) f] 1(8) refl 5(4) [unfolded 1(1)]] show ?thesis
      using 1 by simp
  qed
qed

interpretation rs: byte_fifo rs_put rs_get rs_contents rs_capacity rs_inv 2147483648
  by (rule rs_byte_fifo)

text \<open>Two open ring streams, at 1 and 2, over the empty rings of four bytes at 100 and 200.\<close>

definition ex_ring :: "u32 \<Rightarrow> acts_ringbuf" where
  "ex_ring base = acts_ringbuf_init (\<lambda>a. a) base 4"

definition ex_stream :: "u8 \<Rightarrow> u32 \<Rightarrow> u32 stream" where
  "ex_stream dir a = zero_stream\<lparr>s_state := STATE_OPEN, s_mode := MODE_IN_OUT, s_data := Some a, total_size := 4,
     attach_mode := dir, attach_stream := (if dir = 0 then 0 else 2)\<rparr>"

definition ex_world :: "u8 \<Rightarrow> ring_world" where
  "ex_world dir =
     \<lparr>streams = [1 \<mapsto> ex_stream dir 100, 2 \<mapsto> (ex_stream 0 200)\<lparr>attached_stream := (if dir = 0 then 0 else 1)\<rparr>],
      shared = \<lparr>bytes = (\<lambda>x. 0), rings = [100 \<mapsto> ex_ring 1000, 200 \<mapsto> ex_ring 2000], buff_pool = 500, bit_mask = 0\<rparr>\<rparr>"

definition ex_env :: "(u32 \<times> u32, u32, ring_shared) stream_env" where
  "ex_env = \<lparr>ops_at = (\<lambda>_. ringbuff_stream_ops (\<lambda>_. True)), new_stream = (\<lambda>_. 3), sem_alloc_ok = (\<lambda>_. True),
     call_observer = (\<lambda>_ _ w. w), os_sem_take = (\<lambda>_ w. w)\<rparr>"

lemma ex_ring_inv [simp]:
  "rb_inv (ex_ring base)" "rb_len (ex_ring base) = 0" "size_e (ex_ring base) = 4" "cpu_ptr (ex_ring base) = base"
  by (simp_all add: ex_ring_def acts_ringbuf_init_def rb_inv_def rb_len_def)

lemma ex_ring_stream:
  "ring_stream ex_env (ex_world dir) 1 (ex_stream dir 100) 100 (ex_ring 1000)"
  "ring_stream ex_env (ex_world dir) 2 ((ex_stream 0 200)\<lparr>attached_stream := (if dir = 0 then 0 else 1)\<rparr>) 200 (ex_ring 2000)"
  by (simp_all add: ring_stream_def ex_world_def ex_stream_def ex_env_def ringbuff_stream_ops_def unobserved_def
      zero_stream_def less_2_cases_iff all_conj_distrib)

lemma ex_rs_inv: "rs_inv (ex_env, ex_world 0, 1)"
  unfolding rs_inv_def prod.case
  by (intro exI conjI, rule ex_ring_stream) (simp_all add: ex_stream_def plain_mode_def)

text \<open>
  C15: whatever sequence of \<open>stream_write\<close> and \<open>stream_read\<close> calls is made on an open ring stream that does
  not block, has no stream attached and no observer, the bytes read are the bytes written, in order: the contents before the calls followed by the
  accepted bytes are the delivered bytes followed by the contents after, and the stream stays usable.
\<close>

theorem ring_stream_conservation:
  assumes "rs_inv q" "\<forall>c\<in>set ops. op_size c < 2147483648" "fifo_run rs_put rs_get q ops = (outs, ins, q')"
  shows "rs_contents q @ ins = outs @ rs_contents q' \<and> rs_inv q' \<and> rs_capacity q' = rs_capacity q"
  by (rule rs.conservation [OF assms])

theorem ring_stream_conservation_witness:
  "case fifo_run rs_put rs_get (ex_env, ex_world 0, 1) [Put [1, 2, 3], Get 2, Put [4, 5, 6]] of (outs, ins, q') \<Rightarrow>
     rs_contents (ex_env, ex_world 0, 1) @ ins = outs @ rs_contents q' \<and> rs_inv q' \<and>
     rs_capacity q' = rs_capacity (ex_env, ex_world 0, 1)"
  using ring_stream_conservation [OF ex_rs_inv, of "[Put [1, 2, 3], Get 2, Put [4, 5, 6]]"]
  by (cases "fifo_run rs_put rs_get (ex_env, ex_world 0, 1) [Put [1, 2, 3], Get 2, Put [4, 5, 6]]") auto

section \<open>Attached streams\<close>

lemma rb_list_frame:
  assumes "rb_inv b" "regions_disjoint (cpu_ptr b) (unat (size_e b)) base sz"
  shows "rb_list (ring_write m base sz off xs) b = rb_list m b"
  unfolding rb_list_def using assms rb_inv_bounds [OF assms(1)]
  by (intro ring_read_frame ring_write_frame) (auto simp: regions_disjoint_def not_less [symmetric])

lemma forward_to_ring:
  assumes "streams w h = Some s" "attach_mode s = dir" "attach_stream s = h2" "h2 \<noteq> 0"
    "ring_stream E w h2 s2 a2 b2" "ringbuff_stream_write w h2 (Some xs) num = (w', r)"
  shows "forward_attached E h dir (Some xs) num brw w = Some (w', r, r = num)"
  using assms ring_streamD [OF assms(5)] by (simp add: forward_attached_def)

lemma ring_stream_unaffected:
  assumes "ring_stream E w h2 s2 a2 b2" "h2 \<noteq> h" "a2 \<noteq> a"
  shows "ring_stream E (sem_give h (ring_after h a b' m' w)) h2 s2 a2 b2" "ring_stream E (ring_after h a b' m' w) h2 s2 a2 b2"
  using assms by (simp_all add: ring_stream_def)

text \<open>The write to the stream itself, up to the forwarding loop.\<close>

lemma stream_write_attached:
  assumes "ring_stream E w h s a b" "plain_mode (s_mode s)"
    "ringbuff_stream_write w h (Some xs) num = (ring_after h a b' m' w, num)" "num \<noteq> 0"
    "forward_attached E h MODE_OUT (Some xs) num num (sem_give h (ring_after h a b' m' w)) = Some (w4, r, ok)"
    "streams w4 h = Some s4" "unobserved s4"
  shows "stream_write E w h (Some xs) num = Some (w4, r)"
  using assms(2-5) ring_streamD [OF assms(1)]
  by (simp add: stream_write_def plain_mode_def notify_unobserved [OF assms(6,7)]
      notify_unobserved [OF ring_streamD(1,9) [OF assms(1)]])

text \<open>Two ring streams over separate rings, the second attached to the first.\<close>

definition tee :: "(u32 \<times> u32, u32, ring_shared) stream_env \<Rightarrow> ring_world \<Rightarrow> u8 \<Rightarrow> u32 \<Rightarrow> u32 stream \<Rightarrow> u32 \<Rightarrow> acts_ringbuf
    \<Rightarrow> u32 \<Rightarrow> u32 stream \<Rightarrow> u32 \<Rightarrow> acts_ringbuf \<Rightarrow> bool" where
  "tee E w dir h s a b h2 s2 a2 b2 \<longleftrightarrow>
     ring_stream E w h s a b \<and> plain_mode (s_mode s) \<and> attach_mode s = dir \<and> attach_stream s = h2 \<and> h2 \<noteq> 0 \<and>
     h2 \<noteq> h \<and> ring_stream E w h2 s2 a2 b2 \<and> a2 \<noteq> a \<and>
     regions_disjoint (cpu_ptr b) (unat (size_e b)) (cpu_ptr b2) (unat (size_e b2)) \<and>
     regions_disjoint (cpu_ptr b2) (unat (size_e b2)) (cpu_ptr b) (unat (size_e b))"

lemma teeD:
  assumes "tee E w dir h s a b h2 s2 a2 b2"
  shows "ring_stream E w h s a b" "plain_mode (s_mode s)" "attach_mode s = dir" "attach_stream s = h2" "h2 \<noteq> 0"
    "h2 \<noteq> h" "ring_stream E w h2 s2 a2 b2" "a2 \<noteq> a"
    "regions_disjoint (cpu_ptr b) (unat (size_e b)) (cpu_ptr b2) (unat (size_e b2))"
    "regions_disjoint (cpu_ptr b2) (unat (size_e b2)) (cpu_ptr b) (unat (size_e b))"
    "rb_inv b" "rb_inv b2"
  using assms ring_streamD(5) unfolding tee_def by auto

lemma tee_write:
  assumes t: "tee E w MODE_OUT h s a b h2 s2 a2 b2" and xs: "xs \<noteq> []" "length xs < 2147483648"
    "rb_len b + length xs \<le> unat (size_e b)"
    and w2: "w2 = sem_give h (ring_after h a (advance_tail b (of_nat (length xs)))
           (ring_write (bytes (shared w)) (cpu_ptr b) (unat (size_e b)) (unat (tail_offset b)) xs) w)"
    and f: "ringbuff_stream_write w2 h2 (Some xs) (int (length xs)) = (ring_after h2 a2 b2' m2 w2, r)"
  shows "stream_write E w h (Some xs) (int (length xs)) = Some (ring_after h2 a2 b2' m2 w2, r)"
proof -
  note d = teeD [OF t] and e = ring_streamD [OF teeD(1) [OF t]]
  obtain s' where s': "streams w2 h = Some s'" "attach_mode s' = MODE_OUT" "attach_stream s' = h2" "unobserved s'"
    unfolding w2 using d e by auto
  have r2: "ring_stream E w2 h2 s2 a2 b2" unfolding w2 by (rule ring_stream_unaffected [OF d(7,6,8)])
  have "streams (ring_after h2 a2 b2' m2 w2) h = Some s'" using s' d by simp
  from stream_write_attached [OF d(1,2) ring_write_after(1) [OF d(1) xs(2,3)] _ _ this s'(4)]
  show ?thesis using xs(1) forward_to_ring [OF s'(1-3) d(5) r2 f] unfolding w2 by simp
qed

lemma tee_rings:
  assumes "tee E w dir h s a b h2 s2 a2 b2"
  shows "ring_of (ring_after h2 a2 b2' m2 (sem_give h (ring_after h a b' m' w))) h = Some (a, b')"
    "ring_of (ring_after h2 a2 b2' m2 (sem_give h (ring_after h a b' m' w))) h2 = Some (a2, b2')"
  using teeD [OF assms] ring_streamD [OF teeD(1) [OF assms]] ring_streamD [OF teeD(7) [OF assms]]
  by (simp_all add: ring_of_def)


text \<open>
  when the block fits in the stream but not in the attached one, the stream itself has already
  stored the block although the call reports that nothing was written, so a caller that repeats
  the write stores the block twice.
\<close>

theorem stream_tee_short:
  assumes t: "tee E w MODE_OUT h s a b h2 s2 a2 b2" and xs: "xs \<noteq> []" "length xs < 2147483648"
    "rb_len b + length xs \<le> unat (size_e b)" and xs2: "unat (size_e b2) < rb_len b2 + length xs"
  shows "\<exists>w'. stream_write E w h (Some xs) (int (length xs)) = Some (w', 0) \<and>
    rs_contents (E, w', h) = rs_contents (E, w, h) @ xs \<and> rs_contents (E, w', h2) = rs_contents (E, w, h2)"
proof -
  note d = teeD [OF t]
  let ?m = "ring_write (bytes (shared w)) (cpu_ptr b) (unat (size_e b)) (unat (tail_offset b)) xs"
  let ?w = "sem_give h (ring_after h a (advance_tail b (of_nat (length xs))) ?m w)"
  have r2: "ring_stream E ?w h2 s2 a2 b2" by (rule ring_stream_unaffected [OF d(7,6,8)])
  have "rb_list ?m (advance_tail b (of_nat (length xs))) = rb_list (bytes (shared w)) b @ xs"
    using ring_write_tail_list [OF d(11)] unat_of_nat_small [OF xs(2)] xs(3) by simp
  then show ?thesis
    using rb_list_frame [OF d(12,10)]
    unfolding tee_write [OF t xs refl ring_write_after(2) [OF r2 xs(2) xs2]] rs_state_eq(1) [OF d(1)] rs_state_eq(1) [OF d(7)]
    by (simp add: rs_contents_def tee_rings [OF t])
qed

text \<open>
  a read from a ring stream that holds fewer bytes than asked for, with a stream attached to its
  read side, hands the attached stream the old contents of the caller's buffer as if they had been
  read, and reports the full length to the caller.
\<close>

theorem stream_read_attached_stale:
  assumes t: "tee E w MODE_IN h s a b h2 s2 a2 b2" and n: "length buf < 2147483648" "rb_len b < length buf"
    and fit: "rb_len b2 + length buf \<le> unat (size_e b2)"
  shows "\<exists>w'. stream_read E w h buf (int (length buf)) = Some (w', buf, int (length buf)) \<and>
    rs_contents (E, w', h) = rs_contents (E, w, h) \<and> rs_contents (E, w', h2) = rs_contents (E, w, h2) @ buf"
proof -
  note d = teeD [OF t] and e = ring_streamD [OF teeD(1) [OF t]]
  let ?w = "sem_give h (ring_after h a b (bytes (shared w)) w)"
  let ?m = "ring_write (bytes (shared w)) (cpu_ptr b2) (unat (size_e b2)) (unat (tail_offset b2)) buf"
  let ?w' = "ring_after h2 a2 (advance_tail b2 (of_nat (length buf))) ?m ?w"
  obtain s' where s': "streams ?w h = Some s'" "attach_mode s' = MODE_IN" "attach_stream s' = h2" "unobserved s'"
    using d e by auto
  have r2: "ring_stream E ?w h2 s2 a2 b2" by (rule ring_stream_unaffected [OF d(7,6,8)])
  note f = forward_to_ring [OF s'(1-3) d(5) r2 ring_write_after(1) [OF r2 n(1) fit]]
  have s4: "streams ?w' h = Some s'" using s' d by simp
  have "stream_read E w h buf (int (length buf)) = Some (?w', buf, int (length buf))"
    using d(2) e ring_read_after(2) [OF d(1) n] f notify_unobserved [OF s4 s'(4)]
    by (simp add: stream_read_def plain_mode_def Let_def notify_unobserved [OF s4 s'(4)])
  moreover have "rb_list ?m (advance_tail b2 (of_nat (length buf))) = rb_list (bytes (shared w)) b2 @ buf"
    using ring_write_tail_list [OF d(12)] unat_of_nat_small [OF n(1)] fit by simp
  ultimately show ?thesis
    using rb_list_frame [OF d(11,9)] unfolding rs_state_eq(1) [OF d(1)] rs_state_eq(1) [OF d(7)]
    by (simp add: rs_contents_def tee_rings [OF t])
qed

lemma ex_disjoint:
  "regions_disjoint 1000 4 2000 4" "regions_disjoint 2000 4 1000 4"
  by (auto simp: regions_disjoint_def; unat_arith)+

lemma ex_tee:
  assumes "dir = MODE_IN \<or> dir = MODE_OUT"
  shows "tee ex_env (ex_world dir) dir 1 (ex_stream dir 100) 100 (ex_ring 1000)
     2 ((ex_stream 0 200)\<lparr>attached_stream := (if dir = 0 then 0 else 1)\<rparr>) 200 (ex_ring 2000)"
  using ex_ring_stream [of dir] ex_disjoint assms
  by (auto simp: tee_def ex_stream_def plain_mode_def)


text \<open>The same pair with a second ring that holds three of its four bytes.\<close>

definition ex_world_full :: ring_world where
  "ex_world_full = (ex_world MODE_OUT)\<lparr>shared := (shared (ex_world MODE_OUT))
     \<lparr>rings := [100 \<mapsto> ex_ring 1000, 200 \<mapsto> advance_tail (ex_ring 2000) 3]\<rparr>\<rparr>"

lemma ex_ring_3: "rb_inv (advance_tail (ex_ring 2000) 3)" "rb_len (advance_tail (ex_ring 2000) 3) = 3"
  using advance_tail_inv [of "ex_ring 2000" 3] advance_tail_len [of "ex_ring 2000" 3] by simp_all

lemma ex_tee_full:
  "tee ex_env ex_world_full MODE_OUT 1 (ex_stream MODE_OUT 100) 100 (ex_ring 1000)
     2 ((ex_stream 0 200)\<lparr>attached_stream := 1\<rparr>) 200 (advance_tail (ex_ring 2000) 3)"
  using ex_ring_stream [of MODE_OUT] ex_disjoint ex_ring_3
  by (simp add: tee_def ex_stream_def plain_mode_def ring_stream_def ex_world_full_def ex_world_def)

theorem stream_tee_short_witness:
  "\<exists>w'. stream_write ex_env ex_world_full 1 (Some [7, 8]) 2 = Some (w', 0) \<and>
     rs_contents (ex_env, w', 1) = rs_contents (ex_env, ex_world_full, 1) @ [7, 8] \<and>
     rs_contents (ex_env, w', 2) = rs_contents (ex_env, ex_world_full, 2)"
  using stream_tee_short [OF ex_tee_full, of "[7, 8]"] ex_ring_3 by simp

theorem stream_read_attached_stale_witness:
  "\<exists>w'. stream_read ex_env (ex_world MODE_IN) 1 [9, 9] 2 = Some (w', [9, 9], 2) \<and>
     rs_contents (ex_env, w', 1) = rs_contents (ex_env, ex_world MODE_IN, 1) \<and>
     rs_contents (ex_env, w', 2) = rs_contents (ex_env, ex_world MODE_IN, 2) @ [9, 9]"
  using stream_read_attached_stale [OF ex_tee [of MODE_IN], of "[9, 9]"] by simp

section \<open>The pool of ring buffers\<close>

lemma pool_slot_inj: "i < 8 \<Longrightarrow> j < 8 \<Longrightarrow> pool_slot g i = pool_slot g j \<Longrightarrow> i = j"
proof -
  assume b: "i < 8" "j < 8" and "pool_slot g i = pool_slot g j"
  then have "of_nat (32 * i) = (of_nat (32 * j) :: u32)" by (simp add: pool_slot_def)
  then have "unat (of_nat (32 * i) :: u32) = unat (of_nat (32 * j) :: u32)" by (rule arg_cong)
  then show "i = j" using b by (simp add: unat_of_nat_u32 del: of_nat_mult)
qed

lemma malloc_ring_bufE:
  assumes "malloc_ring_buf g = (g', a)" "a \<noteq> 0"
  obtains i where "i < 8" "a = pool_slot g i" "bit_mask g AND push_bit i 1 = 0"
    "g' = g\<lparr>bit_mask := bit_mask g OR push_bit i 1, rings := (rings g)(pool_slot g i \<mapsto> zero_ringbuf)\<rparr>"
  using assms by (auto simp: malloc_ring_buf_def find_Some_iff split: option.splits)

lemma find_slot: "i < 8 \<Longrightarrow> List.find (\<lambda>k. pool_slot g k = pool_slot g i) [0..<8] = Some i"
  unfolding find_Some_iff by (rule exI [of _ i]) (auto dest: pool_slot_inj [rotated 2])

lemma pool_slot_upd [simp]:
  "pool_slot (g\<lparr>bit_mask := x\<rparr>) = pool_slot g" "pool_slot (g\<lparr>rings := y\<rparr>) = pool_slot g"
  "pool_slot (g\<lparr>bytes := z\<rparr>) = pool_slot g"
  by (simp_all add: pool_slot_def fun_eq_iff)

lemma clear_set_bit:
  fixes x y :: u32
  assumes "x AND y = 0"
  shows "(x OR y) AND NOT y = x"
proof (rule bit_eqI)
  fix n
  have "bit (x AND y) n = False" unfolding assms by simp
  then show "bit ((x OR y) AND NOT y) n = bit x n"
    by (auto simp: bit_and_iff bit_or_iff bit_not_iff dest: bit_imp_le_length)
qed

lemma pool_roundtrip:
  assumes "malloc_ring_buf g = (g', a)" "a \<noteq> 0" "bit_mask g'' = bit_mask g'" "buff_pool g'' = buff_pool g'"
  shows "bit_mask (free_ring_buf g'' a) = bit_mask g" "bit_mask g' \<noteq> bit_mask g"
proof -
  obtain i where i: "i < 8" "a = pool_slot g i" "bit_mask g AND push_bit i 1 = 0"
    "g' = g\<lparr>bit_mask := bit_mask g OR push_bit i 1, rings := (rings g)(pool_slot g i \<mapsto> zero_ringbuf)\<rparr>"
    using assms(1,2) by (rule malloc_ring_bufE)
  have "pool_slot g'' = pool_slot g" using assms(4) i(4) by (simp add: pool_slot_def fun_eq_iff)
  then show "bit_mask (free_ring_buf g'' a) = bit_mask g"
    using find_slot [OF i(1), of g''] assms(3) i clear_set_bit [OF i(3)] by (simp add: free_ring_buf_def)
  have "bit (bit_mask g AND push_bit i 1) i = False" unfolding i(3) by simp
  moreover have "bit (push_bit i (1 :: u32)) i" using i(1) by (simp add: bit_simps)
  ultimately have "bit (bit_mask g') i \<noteq> bit (bit_mask g) i"
    using i(4) by (simp add: bit_and_iff bit_or_iff)
  then show "bit_mask g' \<noteq> bit_mask g" by metis
qed

text \<open>
  creating a stream over a data area and destroying it gives the ring buffer structure back to
  the pool: afterwards the pool and the store of streams are as before.
\<close>

theorem ring_ext_create_destroy:
  assumes ops: "ops_at E tab = ringbuff_stream_ops_ext (\<lambda>_. True) f"
    and new: "new_stream E w = h" "h \<noteq> 0" "streams w h = None"
    and pool: "malloc_ring_buf (shared w) = (g, a)" "a \<noteq> 0"
  shows "\<exists>w' w''. ringbuff_stream_create_ext E w tab data sz = (w', h) \<and> stream_destroy E w' h = Some (w'', 0) \<and>
    streams w'' = streams w \<and> bit_mask (shared w'') = bit_mask (shared w)"
proof -
  let ?b = "acts_ringbuf_init f data sz"
  let ?w = "\<lparr>streams = (streams w)(h \<mapsto> zero_stream\<lparr>s_state := STATE_INIT, s_ops := tab, s_data := Some a,
               s_type := 0x55, total_size := sz\<rparr>), shared = g\<lparr>rings := (rings g)(a \<mapsto> ?b)\<rparr>\<rparr>"
  have "ringbuff_stream_create_ext E w tab data sz = (?w, h)"
    using assms by (simp add: ringbuff_stream_create_ext_def stream_create_def Let_def ringbuff_stream_ops_ext_def
        ringbuff_stream_ops_def ringbuff_stream_init_ext_def ringbuff_stream_init_def upd_stream_def zero_stream_def
        acts_ringbuf_size_def acts_ringbuf_init_def)
  moreover have "\<exists>w''. stream_destroy E ?w h = Some (w'', 0) \<and> streams w'' = streams w \<and>
      bit_mask (shared w'') = bit_mask (free_ring_buf (g\<lparr>rings := (rings g)(a \<mapsto> ?b)\<rparr>) a)"
    using assms by (simp add: stream_destroy_def ringbuff_stream_ops_ext_def ringbuff_stream_ops_def
        ringbuff_stream_destroy_ext_def ringbuff_stream_destroy_def zero_stream_def upd_stream_def Let_def
        fun_upd_idem)
  ultimately show ?thesis using pool_roundtrip(1) [OF pool, of "g\<lparr>rings := (rings g)(a \<mapsto> ?b)\<rparr>"] by force
qed

text \<open>
  when the allocation of the stream's private data fails, the creation of the stream
  still reports success: the pool slot stays taken, and destroying the stream dereferences a
  null pointer.
\<close>

theorem ring_ext_create_nomem:
  assumes ops: "ops_at E tab = ringbuff_stream_ops_ext (\<lambda>_. False) f"
    and new: "new_stream E w = h" "h \<noteq> 0"
    and pool: "malloc_ring_buf (shared w) = (g, a)" "a \<noteq> 0"
  shows "\<exists>w'. ringbuff_stream_create_ext E w tab data sz = (w', h) \<and> stream_destroy E w' h = None \<and>
    bit_mask (shared w') \<noteq> bit_mask (shared w)"
  using assms pool_roundtrip(2) [OF pool, of g]
  by (simp add: ringbuff_stream_create_ext_def stream_create_def Let_def ringbuff_stream_ops_ext_def
      ringbuff_stream_ops_def ringbuff_stream_init_ext_def ringbuff_stream_init_def zero_stream_def
      stream_destroy_def ringbuff_stream_destroy_ext_def)

definition ex_env_ext :: "bool \<Rightarrow> (u32 \<times> u32, u32, ring_shared) stream_env" where
  "ex_env_ext ok = ex_env\<lparr>ops_at := (\<lambda>_. ringbuff_stream_ops_ext (\<lambda>_. ok) (\<lambda>x. x))\<rparr>"

lemma ex_pool:
  "malloc_ring_buf (shared (ex_world 0)) =
    ((shared (ex_world 0))\<lparr>bit_mask := 1, rings := (rings (shared (ex_world 0)))(500 \<mapsto> zero_ringbuf)\<rparr>, 500)"
  by (simp add: malloc_ring_buf_def ex_world_def pool_slot_def upt_rec)

theorem ring_ext_create_destroy_witness:
  "\<exists>w' w''. ringbuff_stream_create_ext (ex_env_ext True) (ex_world 0) 0 3000 16 = (w', 3) \<and>
    stream_destroy (ex_env_ext True) w' 3 = Some (w'', 0) \<and>
    streams w'' = streams (ex_world 0) \<and> bit_mask (shared w'') = bit_mask (shared (ex_world 0))"
  by (rule ring_ext_create_destroy [OF _ _ _ _ ex_pool, where f = "\<lambda>x. x"])
    (simp_all add: ex_env_ext_def ex_env_def ex_world_def)

theorem ring_ext_create_nomem_witness:
  "\<exists>w'. ringbuff_stream_create_ext (ex_env_ext False) (ex_world 0) 0 3000 16 = (w', 3) \<and>
    stream_destroy (ex_env_ext False) w' 3 = None \<and> bit_mask (shared w') \<noteq> bit_mask (shared (ex_world 0))"
  by (rule ring_ext_create_nomem [OF _ _ _ ex_pool, where f = "\<lambda>x. x"]) (simp_all add: ex_env_ext_def ex_env_def)

end
