(* ===== verification/Buffer_Stream.thy ===== *)
theory Buffer_Stream
  imports Io_Stream
begin

text \<open>
  Streams over a memory buffer, \<^verbatim>\<open>src/framework/base/utils/stream/bufferstream.c\<close>: a circular buffer
  in mode \<open>MODE_IN_OUT\<close>, a plain block of bytes otherwise. The offsets are free-running 32-bit
  counters, reduced by a remainder at each access, and the operations do not look at the fill
  level: that is left to the caller, who asks \<open>stream_get_length\<close> and \<open>stream_get_space\<close> first.
\<close>

unbundle bit_operations_syntax

section \<open>Model\<close>

record buffer_info =
  b_length :: int
  buffer_base :: u32

record buffer_param =
  bp_length :: int
  bp_base :: u32
  bp_cache_size :: int

type_synonym buffer_world = "(buffer_info, mem) world"

text \<open>
  \<open>lock\<close> is the result of \<open>os_mutex_lock\<close>. A missing \<open>buffer_info_t\<close> stops the firmware at an
  \<open>assert\<close>, a null source faults; the model leaves the world alone and returns \<open>- EFAULT\<close> there.
\<close>

definition buffer_of :: "buffer_world \<Rightarrow> u32 \<Rightarrow> (buffer_info stream \<times> buffer_info) option" where
  "buffer_of w h = Option.bind (streams w h) (\<lambda>s. map_option (\<lambda>i. (s, i)) (s_data s))"

definition buffer_stream_open :: "buffer_world \<Rightarrow> u32 \<Rightarrow> u8 \<Rightarrow> buffer_world \<times> int" where
  "buffer_stream_open w h mode = (upd_stream h (\<lambda>s. s\<lparr>s_mode := mode\<rparr>) w, 0)"

text \<open>The size argument of \<open>memcpy\<close>: an \<open>int\<close> converted to \<open>size_t\<close>.\<close>

definition size_t :: "int \<Rightarrow> nat" where
  "size_t n = unat (word_of_int n :: u32)"

definition file_offset :: "u32 \<Rightarrow> int \<Rightarrow> int" where
  "file_offset ofs len = sint (ofs mod word_of_int len)"

text \<open>The circular branch of \<open>buffer_stream_read\<close>: the bytes, the new read offset, the length read.\<close>

definition buffer_read_ring :: "mem \<Rightarrow> buffer_info \<Rightarrow> u32 \<Rightarrow> int \<Rightarrow> u8 list \<times> u32 \<times> int" where
  "buffer_read_ring m info r num =
     (let file_off = file_offset r (b_length info);
          (out, num1, r1, read_len) =
            (if b_length info < file_off + num
             then let brw = b_length info - file_off
                  in (mem_read m (buffer_base info + word_of_int file_off) (size_t brw), num - brw,
                      r + word_of_int brw, brw)
             else ([], num, r, 0));
          file_off1 = file_offset r1 (b_length info)
      in (out @ mem_read m (buffer_base info + word_of_int file_off1) (size_t num1),
          r1 + word_of_int num1, read_len + num1))"

text \<open>The plain branch: everything up to the end of the block.\<close>

definition buffer_read_plain :: "mem \<Rightarrow> buffer_info \<Rightarrow> u32 \<Rightarrow> int \<Rightarrow> u8 list \<times> u32 \<times> int" where
  "buffer_read_plain m info r num =
     (let read_len = (if word_of_int (b_length info) < r + word_of_int num
                      then sint (word_of_int (b_length info) - r) else num)
      in (mem_read m (buffer_base info + r) (size_t read_len), r + word_of_int read_len, read_len))"

definition buffer_stream_read :: "int \<Rightarrow> buffer_world \<Rightarrow> u32 \<Rightarrow> int \<Rightarrow> buffer_world \<times> u8 list \<times> int" where
  "buffer_stream_read lock w h num =
     (case buffer_of w h of
        None \<Rightarrow> (w, [], - EFAULT)
      | Some (s, info) \<Rightarrow>
          if lock < 0 then (w, [], - lock)
          else if s_state s \<noteq> STATE_OPEN then (w, [], 0)
          else let (out, r', n) = (if s_mode s AND MODE_IN_OUT = MODE_IN_OUT
                                   then buffer_read_ring (shared w) info (rofs s) num
                                   else buffer_read_plain (shared w) info (rofs s) num)
               in (upd_stream h (\<lambda>s. s\<lparr>rofs := r'\<rparr>) w, out, n))"

definition buffer_stream_seek :: "buffer_world \<Rightarrow> u32 \<Rightarrow> int \<Rightarrow> seek_dir \<Rightarrow> buffer_world \<times> int" where
  "buffer_stream_seek w h offset origin =
     (if \<not> stream_check_handle_state w h STATE_OPEN then (w, - EPERM)
      else (upd_stream h (\<lambda>s. s\<lparr>rofs := word_of_int offset\<rparr>) w, 0))"

definition buffer_stream_tell :: "buffer_world \<Rightarrow> u32 \<Rightarrow> int" where
  "buffer_stream_tell w h = (case streams w h of None \<Rightarrow> - EFAULT | Some s \<Rightarrow> sint (rofs s))"

definition buffer_stream_get_length :: "buffer_world \<Rightarrow> u32 \<Rightarrow> int" where
  "buffer_stream_get_length w h =
     (case streams w h of
        None \<Rightarrow> - EFAULT
      | Some s \<Rightarrow> if s_mode s AND MODE_IN_OUT = MODE_IN_OUT then sint (wofs s - rofs s)
                  else sint (total_size s - rofs s))"

definition buffer_write_ring :: "mem \<Rightarrow> buffer_info \<Rightarrow> u32 \<Rightarrow> u8 list \<Rightarrow> int \<Rightarrow> mem \<times> u32 \<times> int" where
  "buffer_write_ring m info p buf num =
     (let file_off = file_offset p (b_length info);
          (m1, num1, p1, write_len) =
            (if b_length info < file_off + num
             then let brw = b_length info - file_off
                  in (mem_write m (buffer_base info + word_of_int file_off) (take (size_t brw) buf), num - brw,
                      p + word_of_int brw, brw)
             else (m, num, p, 0));
          file_off1 = file_offset p1 (b_length info)
      in (mem_write m1 (buffer_base info + word_of_int file_off1) (take (size_t num1) (drop (nat write_len) buf)),
          p1 + word_of_int num1, write_len + num1))"

definition buffer_stream_write :: "int \<Rightarrow> buffer_world \<Rightarrow> u32 \<Rightarrow> u8 list option \<Rightarrow> int \<Rightarrow> buffer_world \<times> int" where
  "buffer_stream_write lock w h buf num =
     (case (buffer_of w h, buf) of
        (Some (s, info), Some d) \<Rightarrow>
          if lock < 0 then (w, - lock)
          else let (m', p', n) = buffer_write_ring (shared w) info (wofs s) d num
               in (upd_stream h (\<lambda>s. s\<lparr>wofs := p'\<rparr>) (w\<lparr>shared := m'\<rparr>), n)
      | _ \<Rightarrow> (w, - EFAULT))"

definition buffer_stream_close :: "int \<Rightarrow> buffer_world \<Rightarrow> u32 \<Rightarrow> buffer_world \<times> int" where
  "buffer_stream_close lock w h =
     (case buffer_of w h of
        None \<Rightarrow> (w, - EFAULT)
      | Some _ \<Rightarrow> if lock < 0 then (w, lock)
                  else (upd_stream h (\<lambda>s. s\<lparr>wofs := 0, rofs := 0, s_state := STATE_CLOSE\<rparr>) w, lock))"

definition buffer_stream_destory :: "buffer_world \<Rightarrow> u32 \<Rightarrow> (buffer_world \<times> int) option" where
  "buffer_stream_destory w h =
     (case buffer_of w h of None \<Rightarrow> None | Some _ \<Rightarrow> Some (upd_stream h (\<lambda>s. s\<lparr>s_data := None\<rparr>) w, 0))"

definition buffer_stream_init :: "(buffer_world \<Rightarrow> bool) \<Rightarrow> buffer_world \<Rightarrow> u32 \<Rightarrow> buffer_param \<Rightarrow> buffer_world \<times> int" where
  "buffer_stream_init malloc_ok w h param =
     (if \<not> malloc_ok w then (w, - ENOMEM)
      else (upd_stream h (\<lambda>s. s\<lparr>s_data := Some \<lparr>b_length = bp_length param, buffer_base = bp_base param\<rparr>,
              cache_size := word_of_int (bp_cache_size param), total_size := word_of_int (bp_length param)\<rparr>) w, 0))"

definition buffer_stream_ops :: "(buffer_world \<Rightarrow> bool) \<Rightarrow> int \<Rightarrow> (buffer_param, buffer_info, mem) stream_ops" where
  "buffer_stream_ops malloc_ok lock =
     \<lparr>op_init = Some (buffer_stream_init malloc_ok), op_open = Some buffer_stream_open,
      op_read = Some (buffer_stream_read lock), op_seek = Some buffer_stream_seek, op_tell = Some buffer_stream_tell,
      op_get_length = Some buffer_stream_get_length, op_get_space = None,
      op_write = Some (buffer_stream_write lock), op_flush = None,
      op_close = Some (buffer_stream_close lock), op_destroy = Some buffer_stream_destory, op_get_ringbuffer = None\<rparr>"

definition buffer_stream_create where
  "buffer_stream_create E w tab param = stream_create E w tab param"

section \<open>The circular accesses\<close>

text \<open>
  The buffer is well formed when its length is positive and below \<open>2 ^ 31\<close> and the counters have
  not wrapped; its contents are the bytes between the two counters.
\<close>

definition buf_ok :: "buffer_info \<Rightarrow> u32 \<Rightarrow> u32 \<Rightarrow> bool" where
  "buf_ok info r p \<longleftrightarrow> 0 < b_length info \<and> b_length info < 2147483648 \<and> unat r \<le> unat p \<and>
     unat p - unat r \<le> nat (b_length info)"

definition buf_list :: "mem \<Rightarrow> buffer_info \<Rightarrow> u32 \<Rightarrow> u32 \<Rightarrow> u8 list" where
  "buf_list m info r p =
     ring_read m (buffer_base info) (nat (b_length info)) (unat r mod nat (b_length info)) (unat p - unat r)"

lemma int_u32: "0 \<le> n \<Longrightarrow> n < 2147483648 \<Longrightarrow> unat (word_of_int n :: u32) = nat n"
  by (simp add: unsigned_of_int take_bit_int_eq_self)

lemma word_of_int_nat: "word_of_int (int n) = (of_nat n :: u32)"
  by simp

lemma file_offset_nat:
  assumes "0 < len" "len < 2147483648"
  shows "file_offset ofs len = int (unat ofs mod nat len)"
proof -
  have u: "unat (ofs mod word_of_int len) = unat ofs mod nat len"
    using assms by (simp add: unat_mod_distrib int_u32)
  also have "\<dots> < nat len" using assms by simp
  finally have "unat (ofs mod word_of_int len) < 2147483648" using assms by linarith
  then have "sint (ofs mod word_of_int len) = uint (ofs mod word_of_int len)" by (rule sint_small_u32)
  also have "\<dots> = int (unat (ofs mod word_of_int len))" by simp
  finally show ?thesis unfolding file_offset_def u .
qed

lemma size_t_nat [simp]: "n < 2147483648 \<Longrightarrow> size_t (int n) = n"
  by (simp add: size_t_def unat_of_nat_u32)

lemma counter_wraps_block:
  assumes "0 < L" "off = k mod L" "k + (L - off) < 4294967296" "unat (p :: u32) = k" "L < 2147483648"
  shows "unat (p + of_nat (L - off)) mod L = 0"
proof -
  have "unat (p + of_nat (L - off)) = k + (L - off)"
    using assms(3-5) unat_add_u32 [of p "of_nat (L - off)"] by (simp add: unat_of_nat_u32 del: of_nat_diff)
  also have "k + (L - off) = k - off + L"
    using assms mod_less_divisor [OF assms(1), of k] mod_less_eq_dividend [of k L] by simp
  also have "(k - off + L) mod L = 0" unfolding assms(2) by (simp add: minus_mod_eq_mult_div)
  finally show ?thesis by simp
qed

lemma word_add_split: "(p :: u32) + of_nat a + of_nat b = p + of_nat (a + b)"
  by simp

text \<open>Both halves of an access together are one circular access.\<close>

lemma buffer_write_ring_eq:
  assumes len: "b_length info = int L" "0 < L" "L < 2147483648"
    and d: "length d \<le> L" "unat p + length d < 4294967296"
  shows "buffer_write_ring m info p d (int (length d)) =
    (ring_write m (buffer_base info) L (unat p mod L) d, p + of_nat (length d), int (length d))"
proof -
  define off where "off = unat p mod L"
  have o: "off < L" "file_offset p (b_length info) = int off"
    using len by (simp_all add: file_offset_nat off_def)
  have n: "length d < 2147483648" using d len by simp
  show ?thesis
  proof (cases "L < off + length d")
    case False
    then have "ring_write m (buffer_base info) L off d = mem_write m (buffer_base info + of_nat off) d"
      using o len by (intro ring_write_one [symmetric]) simp_all
    moreover have "\<not> int L < int off + int (length d)" using False by linarith
    ultimately show ?thesis using o n len
      by (simp add: buffer_write_ring_def Let_def off_def [symmetric])
  next
    case True
    let ?p1 = "p + of_nat (L - off)"
    have f: "file_offset ?p1 (b_length info) = 0"
      using counter_wraps_block [OF len(2) off_def _ refl len(3)] True d o len by (simp add: file_offset_nat)
    have "mem_write (mem_write m (buffer_base info + of_nat off) (take (L - off) d)) (buffer_base info) (drop (L - off) d) =
        ring_write m (buffer_base info) L off d"
      using o len True d by (intro ring_write_two) simp_all
    moreover have "int L < int off + int (length d)" "int L - int off = int (L - off)"
        "int (length d) - int (L - off) = int (length d - (L - off))"
      using True o by linarith+
    moreover have "length d - (L - off) < 2147483648" "L - off < 2147483648" "L - off + (length d - (L - off)) = length d"
      using n len True o by linarith+
    ultimately show ?thesis using o f len(1)
      by (simp add: buffer_write_ring_def Let_def off_def [symmetric] word_add_split del: of_nat_add of_nat_diff)
  qed
qed

lemma buffer_read_ring_eq:
  assumes len: "b_length info = int L" "0 < L" "L < 2147483648"
    and d: "n \<le> L" "unat r + n < 4294967296"
  shows "buffer_read_ring m info r (int n) =
    (ring_read m (buffer_base info) L (unat r mod L) n, r + of_nat n, int n)"
proof -
  define off where "off = unat r mod L"
  have o: "off < L" "file_offset r (b_length info) = int off"
    using len by (simp_all add: file_offset_nat off_def)
  have n: "n < 2147483648" using d len by simp
  show ?thesis
  proof (cases "L < off + n")
    case False
    then have "ring_read m (buffer_base info) L off n = mem_read m (buffer_base info + of_nat off) n"
      by (intro ring_read_one) simp
    moreover have "\<not> int L < int off + int n" using False by linarith
    ultimately show ?thesis using o n len
      by (simp add: buffer_read_ring_def Let_def off_def [symmetric])
  next
    case True
    let ?r1 = "r + of_nat (L - off)"
    have f: "file_offset ?r1 (b_length info) = 0"
      using counter_wraps_block [OF len(2) off_def _ refl len(3)] True d o len by (simp add: file_offset_nat)
    note ring_read_two [OF o(1) True d(1), of m "buffer_base info"]
    moreover have "int L < int off + int n" "int L - int off = int (L - off)"
        "int n - int (L - off) = int (n - (L - off))"
      using True o by linarith+
    moreover have "n - (L - off) < 2147483648" "L - off < 2147483648" "L - off + (n - (L - off)) = n"
      using n len True o by linarith+
    ultimately show ?thesis using o f len(1)
      by (simp add: buffer_read_ring_def Let_def off_def [symmetric] word_add_split del: of_nat_add of_nat_diff)
  qed
qed

text \<open>
  \<open>buffer_stream E w h s info\<close>: \<open>h\<close> is an open circular buffer stream in a well formed state.
\<close>

definition buffer_stream :: "buffer_world \<Rightarrow> u32 \<Rightarrow> buffer_info stream \<Rightarrow> buffer_info \<Rightarrow> bool" where
  "buffer_stream w h s info \<longleftrightarrow> streams w h = Some s \<and> s_data s = Some info \<and> s_state s = STATE_OPEN \<and>
     s_mode s AND MODE_IN_OUT = MODE_IN_OUT \<and> buf_ok info (rofs s) (wofs s)"

definition bs_contents :: "buffer_world \<Rightarrow> u32 \<Rightarrow> u8 list" where
  "bs_contents w h = (case buffer_of w h of None \<Rightarrow> [] | Some (s, info) \<Rightarrow> buf_list (shared w) info (rofs s) (wofs s))"

lemma buffer_streamD:
  assumes "buffer_stream w h s info"
  obtains L where "streams w h = Some s" "s_data s = Some info" "s_state s = STATE_OPEN"
    "s_mode s AND MODE_IN_OUT = MODE_IN_OUT" "b_length info = int L" "0 < L" "L < 2147483648"
    "unat (rofs s) \<le> unat (wofs s)" "unat (wofs s) - unat (rofs s) \<le> L" "buffer_of w h = Some (s, info)"
    "bs_contents w h = ring_read (shared w) (buffer_base info) L (unat (rofs s) mod L) (unat (wofs s) - unat (rofs s))"
proof -
  obtain L where "b_length info = int L" using assms nonneg_int_cases [of "b_length info"]
    by (auto simp: buffer_stream_def buf_ok_def)
  with assms show ?thesis
    by (intro that [of L]) (auto simp: buffer_stream_def buf_ok_def buffer_of_def bs_contents_def buf_list_def)
qed

text \<open>
  a write that fits in the free part of an open circular buffer stream appends its bytes,
  whether or not it wraps around the end of the buffer, touches no byte outside the buffer and
  keeps the stream well formed.
\<close>

theorem buffer_stream_write_appends:
  assumes b: "buffer_stream w h s info" and lock: "0 \<le> lock"
    and n: "length (bs_contents w h) + length d \<le> nat (b_length info)" "unat (wofs s) + length d < 4294967296"
    and run: "buffer_stream_write lock w h (Some d) (int (length d)) = (w', r)"
  shows "r = int (length d) \<and> bs_contents w' h = bs_contents w h @ d \<and> (\<exists>s'. buffer_stream w' h s' info) \<and>
    (\<forall>x. nat (b_length info) \<le> unat (x - buffer_base info) \<longrightarrow> shared w' x = shared w x)"
proof -
  obtain L where s: "streams w h = Some s" "s_data s = Some info" "s_state s = STATE_OPEN"
    "s_mode s AND MODE_IN_OUT = MODE_IN_OUT" "b_length info = int L" "0 < L" "L < 2147483648"
    "unat (rofs s) \<le> unat (wofs s)" "unat (wofs s) - unat (rofs s) \<le> L" "buffer_of w h = Some (s, info)"
    "bs_contents w h = ring_read (shared w) (buffer_base info) L (unat (rofs s) mod L) (unat (wofs s) - unat (rofs s))"
    using b by (rule buffer_streamD)
  define k where "k = unat (wofs s) - unat (rofs s)"
  let ?m = "ring_write (shared w) (buffer_base info) L (unat (wofs s) mod L) d"
  have fit: "k + length d \<le> L" using n(1) s by (simp add: k_def)
  have w': "r = int (length d)" "w' = upd_stream h (\<lambda>t. t\<lparr>wofs := wofs s + of_nat (length d)\<rparr>) (w\<lparr>shared := ?m\<rparr>)"
    using run lock fit n(2) s by (simp_all add: buffer_stream_write_def buffer_write_ring_eq)
  have p: "unat (wofs s + of_nat (length d)) = unat (wofs s) + length d"
    using n(2) by (simp add: unat_add_u32 unat_of_nat_u32)
  have o: "unat (wofs s) mod L = (unat (rofs s) mod L + k) mod L"
    using s(8) unfolding k_def mod_add_left_eq by simp
  have "ring_read ?m (buffer_base info) L (unat (rofs s) mod L) (k + length d) = bs_contents w h @ d"
    unfolding ring_read_append s(11) k_def [symmetric] unfolding o
    using s fit by (simp add: ring_read_write_before ring_read_write_same)
  then have "bs_contents w' h = bs_contents w h @ d"
    using s p unfolding w'(2) by (simp add: bs_contents_def buffer_of_def buf_list_def k_def)
  moreover have "buffer_stream w' h (s\<lparr>wofs := wofs s + of_nat (length d)\<rparr>) info"
    using s p fit unfolding w'(2) by (simp add: buffer_stream_def buf_ok_def k_def)
  ultimately show ?thesis using w' s by (auto simp: ring_write_frame)
qed

text \<open>
  a read of at most the buffered number of bytes from an open circular buffer stream returns
  the oldest bytes, across the wrap, and removes exactly those.
\<close>

theorem buffer_stream_read_takes:
  assumes b: "buffer_stream w h s info" and lock: "0 \<le> lock" and n: "n \<le> length (bs_contents w h)"
    and run: "buffer_stream_read lock w h (int n) = (w', out, r)"
  shows "r = int n \<and> out = take n (bs_contents w h) \<and> bs_contents w' h = drop n (bs_contents w h) \<and>
    (\<exists>s'. buffer_stream w' h s' info)"
proof -
  obtain L where s: "streams w h = Some s" "s_data s = Some info" "s_state s = STATE_OPEN"
    "s_mode s AND MODE_IN_OUT = MODE_IN_OUT" "b_length info = int L" "0 < L" "L < 2147483648"
    "unat (rofs s) \<le> unat (wofs s)" "unat (wofs s) - unat (rofs s) \<le> L" "buffer_of w h = Some (s, info)"
    "bs_contents w h = ring_read (shared w) (buffer_base info) L (unat (rofs s) mod L) (unat (wofs s) - unat (rofs s))"
    using b by (rule buffer_streamD)
  have n': "n \<le> unat (wofs s) - unat (rofs s)" using n s by simp
  then have "unat (rofs s) + n \<le> unat (wofs s)" using s(8) by linarith
  then have c: "unat (rofs s) + n < 4294967296" using unat_lt_u32 [of "wofs s"] by linarith
  have w': "r = int n" "out = ring_read (shared w) (buffer_base info) L (unat (rofs s) mod L) n"
      "w' = upd_stream h (\<lambda>t. t\<lparr>rofs := rofs s + of_nat n\<rparr>) w"
    using run lock n' c s by (simp_all add: buffer_stream_read_def buffer_read_ring_eq)
  have p: "unat (rofs s + of_nat n) = unat (rofs s) + n"
    using c by (simp add: unat_add_u32 unat_of_nat_u32)
  have "bs_contents w' h = drop n (bs_contents w h)"
    using s p n' unfolding w'(3)
    by (simp add: bs_contents_def buffer_of_def buf_list_def drop_ring_read mod_add_left_eq)
  moreover have "buffer_stream w' h (s\<lparr>rofs := rofs s + of_nat n\<rparr>) info"
    using s p n' \<open>unat (rofs s) + n \<le> unat (wofs s)\<close> unfolding w'(3) by (simp add: buffer_stream_def buf_ok_def)
  ultimately show ?thesis using w' s n' by (auto simp: take_ring_read)
qed

definition ex_buffer :: buffer_world where
  "ex_buffer = \<lparr>streams = [1 \<mapsto> zero_stream\<lparr>s_state := STATE_OPEN, s_mode := MODE_IN_OUT, rofs := 5, wofs := 7,
      s_data := Some \<lparr>b_length = 4, buffer_base = 100\<rparr>\<rparr>], shared = (\<lambda>x. ucast x)\<rparr>"

lemma ex_buffer_ok:
  "buffer_stream ex_buffer 1 (zero_stream\<lparr>s_state := STATE_OPEN, s_mode := MODE_IN_OUT, rofs := 5, wofs := 7,
      s_data := Some \<lparr>b_length = 4, buffer_base = 100\<rparr>\<rparr>) \<lparr>b_length = 4, buffer_base = 100\<rparr>"
  "length (bs_contents ex_buffer 1) = 2"
  by (simp_all add: buffer_stream_def ex_buffer_def buf_ok_def bs_contents_def buffer_of_def buf_list_def)

theorem buffer_stream_write_appends_witness:
  "case buffer_stream_write 0 ex_buffer 1 (Some [8, 9]) 2 of (w', r) \<Rightarrow>
     r = 2 \<and> bs_contents w' 1 = bs_contents ex_buffer 1 @ [8, 9]"
  using buffer_stream_write_appends [OF ex_buffer_ok(1), of 0 "[8, 9]"] ex_buffer_ok(2)
  by (cases "buffer_stream_write 0 ex_buffer 1 (Some [8, 9]) 2") simp

theorem buffer_stream_read_takes_witness:
  "case buffer_stream_read 0 ex_buffer 1 2 of (w', out, r) \<Rightarrow>
     r = 2 \<and> out = take 2 (bs_contents ex_buffer 1) \<and> bs_contents w' 1 = []"
  using buffer_stream_read_takes [OF ex_buffer_ok(1), of 0 2] ex_buffer_ok(2)
  by (cases "buffer_stream_read 0 ex_buffer 1 2") simp

text \<open>
  unless the buffer length divides \<open>2 ^ 32\<close>, the position in the buffer jumps when the 32-bit
  offset wraps: the byte after the last one before the wrap is not stored behind it.
\<close>

theorem buffer_offset_jump:
  assumes "1 < L" "L < 2147483648" "\<not> int L dvd 4294967296"
  shows "file_offset (0xFFFFFFFF + 1) (int L) \<noteq> (file_offset 0xFFFFFFFF (int L) + 1) mod int L"
proof
  assume a: "file_offset (0xFFFFFFFF + 1) (int L) = (file_offset 0xFFFFFFFF (int L) + 1) mod int L"
  have "file_offset (0xFFFFFFFF + 1) (int L) = 0" using assms by (simp add: file_offset_nat)
  moreover have "file_offset 0xFFFFFFFF (int L) = 4294967295 mod int L"
    using assms by (simp add: file_offset_nat zmod_int)
  ultimately have "(4294967295 mod int L + 1) mod int L = 0" using a by simp
  then have "4294967296 mod int L = 0" unfolding mod_add_left_eq by simp
  then show False using assms by auto
qed

theorem buffer_offset_jump_witness:
  "file_offset (0xFFFFFFFF + 1) 3 \<noteq> (file_offset 0xFFFFFFFF 3 + 1) mod 3"
  using buffer_offset_jump [of 3] by simp

lemma sint_int_u32: "- 2147483648 \<le> x \<Longrightarrow> x < 2147483648 \<Longrightarrow> sint (word_of_int x :: u32) = x"
  by (simp add: signed_of_int signed_take_bit_int_eq_self)

lemma size_t_negative: "- 2147483648 < x \<Longrightarrow> x < 0 \<Longrightarrow> 2147483648 < size_t x"
proof -
  assume x: "- 2147483648 < x" "x < 0"
  have "take_bit 32 x = (x + 4294967296) mod 4294967296" by (simp add: take_bit_eq_mod)
  also have "\<dots> = x + 4294967296" using x by (intro mod_pos_pos_trivial) auto
  finally show "2147483648 < size_t x" using x by (simp add: size_t_def unsigned_of_int)
qed

text \<open>
  \<open>buffer_stream_seek\<close> accepts any offset; a read of a plain buffer after a seek beyond its end
  returns a negative length and asks \<open>memcpy\<close> for more than \<open>2 ^ 31\<close> bytes.
\<close>

theorem buffer_seek_beyond_end:
  assumes "streams w h = Some s" "s_data s = Some info" "s_state s = STATE_OPEN"
    "s_mode s AND MODE_IN_OUT \<noteq> MODE_IN_OUT" "0 \<le> b_length info" "b_length info < off" "off + num < 2147483648"
    "0 \<le> num"
  shows "case buffer_stream_read 0 (fst (buffer_stream_seek w h off SEEK_DIR_BEG)) h num of (w', out, r) \<Rightarrow>
    r = b_length info - off \<and> r < 0 \<and> 2147483648 < length out"
proof -
  have u: "unat (word_of_int off :: u32) = nat off" "unat (word_of_int num :: u32) = nat num"
    "unat (word_of_int (b_length info) :: u32) = nat (b_length info)"
    using assms by (simp_all add: int_u32)
  have "unat (word_of_int off + word_of_int num :: u32) = nat off + nat num"
    using assms u by (subst unat_add_u32) (simp_all add: u)
  then have g: "(word_of_int (b_length info) :: u32) < word_of_int off + word_of_int num"
    using assms u by (simp add: word_less_nat_alt)
  have r: "sint ((word_of_int (b_length info) :: u32) - word_of_int off) = b_length info - off"
    using sint_int_u32 [of "b_length info - off"] assms by simp
  have "2147483648 < size_t (b_length info - off)" using assms by (intro size_t_negative) auto
  then show ?thesis using assms g
    by (simp add: buffer_stream_seek_def stream_check_handle_state_def buffer_stream_read_def buffer_of_def
        buffer_read_plain_def Let_def r)
qed

theorem buffer_seek_beyond_end_witness:
  "case buffer_stream_read 0 (fst (buffer_stream_seek
       (upd_stream 1 (\<lambda>s. s\<lparr>s_mode := MODE_IN\<rparr>) ex_buffer) 1 10 SEEK_DIR_BEG)) 1 2 of (w', out, r) \<Rightarrow>
    r = - 6 \<and> r < 0 \<and> 2147483648 < length out"
  using buffer_seek_beyond_end [of "upd_stream 1 (\<lambda>s. s\<lparr>s_mode := MODE_IN\<rparr>) ex_buffer" 1
      "zero_stream\<lparr>s_state := STATE_OPEN, s_mode := MODE_IN, rofs := 5, wofs := 7,
        s_data := Some \<lparr>b_length = 4, buffer_base = 100\<rparr>\<rparr>" "\<lparr>b_length = 4, buffer_base = 100\<rparr>" 10 2]
  by (simp add: ex_buffer_def zero_stream_def)

end
