(* ===== verification/Sys_Wakelock.thy ===== *)
theory Sys_Wakelock
  imports Prelude
begin

text \<open>
  The wake locks of \<^verbatim>\<open>src/framework/system/sys_wakelock.c\<close>: one reference count per type of lock and
  the time of its last release. Interrupt locking is not modelled, each operation runs under it as a
  whole. \<open>None\<close> is a failed \<open>assert\<close> or a dereferenced null pointer.

  The state is a record that the standby component extends; of the standby context only
  \<open>force_standby\<close> is visible here, because \<open>sys_wake_unlock\<close> clears it through
  \<open>system_clear_fast_standby\<close> (\<^verbatim>\<open>sys_standby.c\<close>).
\<close>

section \<open>Model\<close>

abbreviation PARTIAL_WAKE_LOCK :: int where "PARTIAL_WAKE_LOCK \<equiv> 0"
abbreviation FULL_WAKE_LOCK :: int where "FULL_WAKE_LOCK \<equiv> 1"
abbreviation MAX_WAKE_LOCK_TYPE :: nat where "MAX_WAKE_LOCK_TYPE \<equiv> 2"

record wakelock =
  wake_lock_type :: u8
  ref_cnt :: u16
  free_timestamp :: u32

record wakelocks_manager =
  wakelocks :: "wakelock list"
  force_standby :: bool

definition sys_wakelock_lookup :: "'a wakelocks_manager_scheme \<Rightarrow> int \<Rightarrow> nat option" where
  "sys_wakelock_lookup st ty =
     List.find (\<lambda>i. uint (wake_lock_type (wakelocks st ! i)) = ty) [0..<MAX_WAKE_LOCK_TYPE]"

definition upd_lock :: "nat \<Rightarrow> (wakelock \<Rightarrow> wakelock) \<Rightarrow> 'a wakelocks_manager_scheme \<Rightarrow> 'a wakelocks_manager_scheme" where
  "upd_lock i f st = st\<lparr>wakelocks := (wakelocks st)[i := f (wakelocks st ! i)]\<rparr>"

definition system_clear_fast_standby :: "'a wakelocks_manager_scheme \<Rightarrow> 'a wakelocks_manager_scheme" where
  "system_clear_fast_standby st = st\<lparr>force_standby := False\<rparr>"

text \<open>
  \<open>log\<close> is whether \<open>SYS_LOG_INF\<close> is compiled in: it prints the fields of the lock even when the
  lookup found none.
\<close>

definition sys_wake_lock ::
    "bool \<Rightarrow> 'a wakelocks_manager_scheme \<Rightarrow> int \<Rightarrow> ('a wakelocks_manager_scheme \<times> int) option" where
  "sys_wake_lock log st ty =
     (case sys_wakelock_lookup st ty of
        None \<Rightarrow> if log then None else Some (st, - EEXIST)
      | Some i \<Rightarrow>
          if \<not> ref_cnt (wakelocks st ! i) < 0xFFFF then None
          else Some (upd_lock i (\<lambda>l. l\<lparr>ref_cnt := ref_cnt l + 1, free_timestamp := 0\<rparr>) st, 0))"

text \<open>The decrement and the time stamps, shared by \<open>sys_wake_unlock\<close> and \<open>sys_wake_lock_reset\<close>.\<close>

definition release_lock :: "u32 \<Rightarrow> nat \<Rightarrow> int \<Rightarrow> 'a wakelocks_manager_scheme \<Rightarrow> 'a wakelocks_manager_scheme" where
  "release_lock now i ty st =
     (let st1 = upd_lock i (\<lambda>l. l\<lparr>ref_cnt := ref_cnt l - 1\<rparr>) st
      in if ty = FULL_WAKE_LOCK
         then st1\<lparr>wakelocks := map (\<lambda>l. l\<lparr>free_timestamp := now\<rparr>) (wakelocks st1)\<rparr>
         else upd_lock i (\<lambda>l. l\<lparr>free_timestamp := now\<rparr>) st1)"

definition sys_wake_unlock ::
    "bool \<Rightarrow> u32 \<Rightarrow> 'a wakelocks_manager_scheme \<Rightarrow> int \<Rightarrow> ('a wakelocks_manager_scheme \<times> int) option" where
  "sys_wake_unlock log now st ty =
     (case sys_wakelock_lookup st ty of
        None \<Rightarrow> if log then None else Some (st, - ESRCH)
      | Some i \<Rightarrow>
          if \<not> 0 < ref_cnt (wakelocks st ! i) then None
          else Some (system_clear_fast_standby (release_lock now i ty st), 0))"

definition sys_wake_lock_reset ::
    "u32 \<Rightarrow> 'a wakelocks_manager_scheme \<Rightarrow> int \<Rightarrow> ('a wakelocks_manager_scheme \<times> int) option" where
  "sys_wake_lock_reset now st ty =
     (case sys_wakelock_lookup st ty of
        None \<Rightarrow> Some (st, - EEXIST)
      | Some i \<Rightarrow>
          if \<not> ref_cnt (wakelocks st ! i) < 0xFFFF then None
          else let st1 = upd_lock i (\<lambda>l. l\<lparr>ref_cnt := ref_cnt l + 1, free_timestamp := 0\<rparr>) st
               in Some (system_clear_fast_standby (release_lock now i ty st1), 0))"

definition sys_wakelocks_init ::
    "bool \<Rightarrow> u32 \<Rightarrow> 'a wakelocks_manager_scheme \<Rightarrow> 'a wakelocks_manager_scheme option" where
  "sys_wakelocks_init log now st =
     map_option fst (sys_wake_lock log
       (st\<lparr>wakelocks := map (\<lambda>i. \<lparr>wake_lock_type = of_nat i, ref_cnt = 0, free_timestamp = now\<rparr>)
              [0..<MAX_WAKE_LOCK_TYPE]\<rparr>) FULL_WAKE_LOCK)"

definition sys_wakelocks_check :: "'a wakelocks_manager_scheme \<Rightarrow> int \<Rightarrow> int" where
  "sys_wakelocks_check st ty =
     (case sys_wakelock_lookup st ty of None \<Rightarrow> 0 | Some i \<Rightarrow> uint (ref_cnt (wakelocks st ! i)))"

definition sys_wakelocks_get_free_time :: "u32 \<Rightarrow> 'a wakelocks_manager_scheme \<Rightarrow> int \<Rightarrow> u32" where
  "sys_wakelocks_get_free_time now st ty =
     (case sys_wakelock_lookup st ty of
        None \<Rightarrow> 0
      | Some i \<Rightarrow> if ref_cnt (wakelocks st ! i) = 0 then now - free_timestamp (wakelocks st ! i) else 0)"

section \<open>The contract of counted locks\<close>

datatype lock_op = Lock nat | Unlock nat

fun lock_run :: "('s \<Rightarrow> nat \<Rightarrow> 's option) \<Rightarrow> ('s \<Rightarrow> nat \<Rightarrow> 's option) \<Rightarrow> 's \<Rightarrow> lock_op list \<Rightarrow> 's option" where
  "lock_run lock unlock s [] = Some s"
| "lock_run lock unlock s (Lock t # ops) = Option.bind (lock s t) (\<lambda>s'. lock_run lock unlock s' ops)"
| "lock_run lock unlock s (Unlock t # ops) = Option.bind (unlock s t) (\<lambda>s'. lock_run lock unlock s' ops)"

text \<open>A sequence of calls is fair when no type is released more often than it is held.\<close>

fun fair :: "(nat \<Rightarrow> nat) \<Rightarrow> lock_op list \<Rightarrow> bool" where
  "fair c [] \<longleftrightarrow> True"
| "fair c (Lock t # ops) \<longleftrightarrow> fair (c(t := c t + 1)) ops"
| "fair c (Unlock t # ops) \<longleftrightarrow> 0 < c t \<and> fair (c(t := c t - 1)) ops"

fun lock_count :: "(nat \<Rightarrow> nat) \<Rightarrow> lock_op list \<Rightarrow> nat \<Rightarrow> nat" where
  "lock_count c [] = c"
| "lock_count c (Lock t # ops) = lock_count (c(t := c t + 1)) ops"
| "lock_count c (Unlock t # ops) = lock_count (c(t := c t - 1)) ops"

locale counted_locks =
  fixes lock unlock :: "'s \<Rightarrow> nat \<Rightarrow> 's option"
    and held :: "'s \<Rightarrow> nat \<Rightarrow> nat"
    and invar :: "'s \<Rightarrow> bool"
    and types limit :: nat
  assumes lock_ok: "invar s \<Longrightarrow> t < types \<Longrightarrow> held s t < limit \<Longrightarrow>
      \<exists>s'. lock s t = Some s' \<and> invar s' \<and> (\<forall>u<types. held s' u = (if u = t then held s t + 1 else held s u))"
    and unlock_ok: "invar s \<Longrightarrow> t < types \<Longrightarrow> 0 < held s t \<Longrightarrow>
      \<exists>s'. unlock s t = Some s' \<and> invar s' \<and> (\<forall>u<types. held s' u = (if u = t then held s t - 1 else held s u))"
begin

text \<open>
  A sequence that is shorter than the room left in the counters never fails and leaves each type
  held as often as it was taken and not released, when it is fair or when a release of a type that
  is not held is ignored.
\<close>

lemma run_counts_or_ignores:
  assumes "invar s" "\<forall>t<types. held s t = c t" "\<forall>t<types. c t + length ops \<le> limit"
    "\<forall>x\<in>set ops. (case x of Lock t \<Rightarrow> t | Unlock t \<Rightarrow> t) < types"
    "fair c ops \<or> (\<forall>s t. invar s \<longrightarrow> t < types \<longrightarrow> held s t = 0 \<longrightarrow> unlock s t = Some s)"
  shows "\<exists>s'. lock_run lock unlock s ops = Some s' \<and> invar s' \<and> (\<forall>t<types. held s' t = lock_count c ops t)"
  using assms
proof (induction ops arbitrary: s c)
  case Nil
  then show ?case by simp
next
  case (Cons x ops)
  show ?case
  proof (cases x)
    case (Lock t)
    with Cons.prems have "t < types" "c t + length (x # ops) \<le> limit" by auto
    then obtain s1 where s1: "lock s t = Some s1" "invar s1"
        "\<forall>u<types. held s1 u = (if u = t then held s t + 1 else held s u)"
      using lock_ok [of s t] Cons.prems(1,2) by force
    have "\<exists>s'. lock_run lock unlock s1 ops = Some s' \<and> invar s' \<and> (\<forall>u<types. held s' u = lock_count (c(t := c t + 1)) ops u)"
      using Cons.prems s1 Lock \<open>t < types\<close> by (intro Cons.IH) (auto simp: Suc_le_eq fun_upd_def)
    then show ?thesis using s1 Lock by simp
  next
    case (Unlock t)
    with Cons.prems have t: "t < types" by auto
    obtain s1 where s1: "unlock s t = Some s1" "invar s1"
        "\<forall>u<types. held s1 u = (if u = t then held s t - 1 else held s u)"
    proof (cases "c t = 0")
      case True
      then have "unlock s t = Some s" using Cons.prems(1,2,5) t Unlock by simp
      then show ?thesis using that Cons.prems(1,2) t True by simp
    next
      case False
      then show ?thesis using that unlock_ok [of s t] Cons.prems(1,2) t by force
    qed
    have "\<exists>s'. lock_run lock unlock s1 ops = Some s' \<and> invar s' \<and> (\<forall>u<types. held s' u = lock_count (c(t := c t - 1)) ops u)"
      using Cons.prems s1 Unlock t by (intro Cons.IH) (auto simp: Suc_le_eq fun_upd_def)
    then show ?thesis using s1 Unlock by simp
  qed
qed

lemmas run_counts = run_counts_or_ignores [OF _ _ _ _ disjI1]

end

text \<open>Locks whose release is ignored when they are not held: every sequence counts, fair or not.\<close>

locale saturating_locks = counted_locks +
  assumes unlock_idle: "invar s \<Longrightarrow> t < types \<Longrightarrow> held s t = 0 \<Longrightarrow> unlock s t = Some s"
begin

lemma run_saturates:
  assumes "invar s" "\<forall>t<types. held s t = c t" "\<forall>t<types. c t + length ops \<le> limit"
    "\<forall>x\<in>set ops. (case x of Lock t \<Rightarrow> t | Unlock t \<Rightarrow> t) < types"
  shows "\<exists>s'. lock_run lock unlock s ops = Some s' \<and> invar s' \<and> (\<forall>t<types. held s' t = lock_count c ops t)"
  using run_counts_or_ignores [OF assms] unlock_idle by blast

end

section \<open>The wake locks satisfy it\<close>

definition wl_inv :: "'a wakelocks_manager_scheme \<Rightarrow> bool" where
  "wl_inv st \<longleftrightarrow> length (wakelocks st) = 2 \<and> wake_lock_type (wakelocks st ! 0) = 0 \<and> wake_lock_type (wakelocks st ! 1) = 1"

definition wl_held :: "'a wakelocks_manager_scheme \<Rightarrow> nat \<Rightarrow> nat" where
  "wl_held st t = unat (ref_cnt (wakelocks st ! t))"

lemma less_2E: "t < (2 :: nat) \<Longrightarrow> (t = 0 \<Longrightarrow> P) \<Longrightarrow> (t = 1 \<Longrightarrow> P) \<Longrightarrow> P"
  by (auto simp: less_2_cases_iff)

lemma lookup_type: "wl_inv st \<Longrightarrow> t < 2 \<Longrightarrow> sys_wakelock_lookup st (int t) = Some t"
  by (elim less_2E) (simp_all add: sys_wakelock_lookup_def wl_inv_def upt_rec)

lemma lookup_unknown: "wl_inv st \<Longrightarrow> ty \<noteq> 0 \<Longrightarrow> ty \<noteq> 1 \<Longrightarrow> sys_wakelock_lookup st ty = None"
  by (simp add: sys_wakelock_lookup_def wl_inv_def upt_rec)

lemmas lookup_01 = lookup_type [of _ 0, simplified] lookup_type [of _ 1, simplified]

lemma check_held: "wl_inv st \<Longrightarrow> t < 2 \<Longrightarrow> sys_wakelocks_check st (int t) = int (wl_held st t)"
  by (simp add: sys_wakelocks_check_def lookup_type wl_held_def)

lemma upd_lock_simps [simp]:
  "length (wakelocks (upd_lock i f st)) = length (wakelocks st)"
  "i < length (wakelocks st) \<Longrightarrow> j < length (wakelocks st) \<Longrightarrow>
     wakelocks (upd_lock i f st) ! j = (if j = i then f (wakelocks st ! i) else wakelocks st ! j)"
  "force_standby (upd_lock i f st) = force_standby st"
  by (simp_all add: upd_lock_def nth_list_update)

lemma release_simps:
  assumes "i < length (wakelocks st)"
  shows "length (wakelocks (release_lock now i ty st)) = length (wakelocks st)"
    "j < length (wakelocks st) \<Longrightarrow> wakelocks (release_lock now i ty st) ! j =
       (wakelocks st ! j)\<lparr>ref_cnt := (if j = i then ref_cnt (wakelocks st ! j) - 1 else ref_cnt (wakelocks st ! j)),
          free_timestamp := (if j = i \<or> ty = FULL_WAKE_LOCK then now else free_timestamp (wakelocks st ! j))\<rparr>"
  using assms by (simp_all add: release_lock_def Let_def)

lemma clear_simps [simp]: "wakelocks (system_clear_fast_standby st) = wakelocks st"
  by (simp add: system_clear_fast_standby_def)

lemma wake_lock_effect:
  assumes "wl_inv st" "t < 2" "wl_held st t < 65535"
  shows "sys_wake_lock log st (int t) =
      Some (upd_lock t (\<lambda>l. l\<lparr>ref_cnt := ref_cnt l + 1, free_timestamp := 0\<rparr>) st, 0)"
  using assms by (simp add: sys_wake_lock_def lookup_type wl_held_def word_less_nat_alt)

lemma wake_unlock_effect:
  assumes "wl_inv st" "t < 2" "0 < wl_held st t"
  shows "sys_wake_unlock log now st (int t) = Some (system_clear_fast_standby (release_lock now t (int t) st), 0)"
  using assms by (simp add: sys_wake_unlock_def lookup_type wl_held_def word_less_nat_alt)

lemma unat_inc_u16: "unat (x :: u16) < 65535 \<Longrightarrow> unat (x + 1) = unat x + 1"
  by (simp add: unat_word_ariths)

lemma unat_dec_u16: "0 < unat (x :: u16) \<Longrightarrow> unat (x - 1) = unat x - 1"
  by (simp add: unat_sub word_le_nat_alt)

lemma lock_held:
  assumes "wl_inv st" "t < 2" "u < 2" "wl_held st t < 65535"
  shows "wl_held (upd_lock t (\<lambda>l. l\<lparr>ref_cnt := ref_cnt l + 1, free_timestamp := 0\<rparr>) st) u =
      (if u = t then wl_held st t + 1 else wl_held st u)"
    "wl_inv (upd_lock t (\<lambda>l. l\<lparr>ref_cnt := ref_cnt l + 1, free_timestamp := 0\<rparr>) st)"
  using assms by (auto simp: wl_held_def wl_inv_def unat_inc_u16 less_2_cases_iff)

lemma release_held:
  assumes "wl_inv st" "t < 2" "u < 2" "0 < wl_held st t"
  shows "wl_held (system_clear_fast_standby (release_lock now t ty st)) u = (if u = t then wl_held st t - 1 else wl_held st u)"
    "wl_inv (system_clear_fast_standby (release_lock now t ty st))"
  using assms by (auto simp: wl_held_def wl_inv_def release_simps unat_dec_u16 less_2_cases_iff)

interpretation wl: counted_locks
    "\<lambda>st t. map_option fst (sys_wake_lock log st (int t))" "\<lambda>st t. map_option fst (sys_wake_unlock log now st (int t))"
    wl_held wl_inv 2 65535
  for log now
  by unfold_locales (auto simp: wake_lock_effect wake_unlock_effect lock_held release_held)

lemma reset_effect:
  assumes "wl_inv st" "t < 2" "wl_held st t < 65535"
  shows "\<exists>st'. sys_wake_lock_reset now st (int t) = Some (st', 0) \<and> wl_inv st' \<and> (\<forall>u<2. wl_held st' u = wl_held st u) \<and>
    free_timestamp (wakelocks st' ! t) = now \<and> \<not> force_standby st'"
proof -
  let ?st1 = "upd_lock t (\<lambda>l. l\<lparr>ref_cnt := ref_cnt l + 1, free_timestamp := 0\<rparr>) st"
  let ?st2 = "system_clear_fast_standby (release_lock now t (int t) ?st1)"
  have h: "wl_inv ?st1" "wl_held ?st1 t = wl_held st t + 1" using lock_held [OF assms(1,2,2,3)] by simp_all
  have "wl_inv ?st2" using release_held(2) [OF h(1) assms(2,2)] h(2) by simp
  moreover have "\<forall>u<2. wl_held ?st2 u = wl_held st u"
    using release_held(1) [OF h(1) assms(2), of _ now "int t"] h(2) lock_held(1) [OF assms(1,2) _ assms(3)] by auto
  moreover have "free_timestamp (wakelocks ?st2 ! t) = now"
    using assms by (simp add: release_simps wl_inv_def)
  ultimately show ?thesis using assms
    by (simp add: sys_wake_lock_reset_def lookup_type wl_held_def word_less_nat_alt system_clear_fast_standby_def)
qed

text \<open>
  C28: a sequence of \<open>sys_wake_lock\<close> and \<open>sys_wake_unlock\<close> calls that releases no type more often
  than it is held, and is short enough for the 16-bit counters, never fails, and afterwards
  \<open>sys_wakelocks_check\<close> reports for each type exactly the number of holders.
\<close>

theorem wakelock_counts:
  fixes st :: "'a wakelocks_manager_scheme"
  assumes "wl_inv st" "\<forall>t<2. wl_held st t = c t" "\<forall>t<2. c t + length ops \<le> 65535"
    "\<forall>x\<in>set ops. (case x of Lock t \<Rightarrow> t | Unlock t \<Rightarrow> t) < 2" "fair c ops"
  shows "\<exists>st'. lock_run (\<lambda>st t. map_option fst (sys_wake_lock log st (int t)))
      (\<lambda>st t. map_option fst (sys_wake_unlock log now st (int t))) st ops = Some st' \<and>
    wl_inv st' \<and> (\<forall>t<2. sys_wakelocks_check st' (int t) = int (lock_count c ops t))"
  using wl.run_counts [OF assms, of log now] by (auto simp: check_held)

definition ex_locks :: wakelocks_manager where
  "ex_locks = \<lparr>wakelocks = [\<lparr>wake_lock_type = 0, ref_cnt = 0, free_timestamp = 10\<rparr>,
     \<lparr>wake_lock_type = 1, ref_cnt = 1, free_timestamp = 0\<rparr>], force_standby = True\<rparr>"

lemma ex_locks_inv: "wl_inv ex_locks" "wl_held ex_locks 0 = 0" "wl_held ex_locks (Suc 0) = 1"
  by (simp_all add: wl_inv_def wl_held_def ex_locks_def)

theorem wakelock_counts_witness:
  "\<exists>st'. lock_run (\<lambda>st t. map_option fst (sys_wake_lock True st (int t)))
      (\<lambda>st t. map_option fst (sys_wake_unlock True 7 st (int t))) ex_locks [Lock 0, Unlock 1, Lock 0] = Some st' \<and>
    wl_inv st' \<and> (\<forall>t<2. sys_wakelocks_check st' (int t) = int (lock_count (\<lambda>t. t) [Lock 0, Unlock 1, Lock 0] t))"
  by (rule wakelock_counts [OF ex_locks_inv(1)]) (simp_all add: less_2_cases_iff ex_locks_inv all_conj_distrib)

text \<open>
  when the last holder of a lock releases it, the free time of that lock counts from that
  moment; releasing the full lock also restarts the free time of the partial one. A request
  for fast standby does not survive a release.
\<close>

theorem wakelock_free_time:
  assumes "wl_inv st" "t < 2" "wl_held st t = 1" "sys_wake_unlock log now st (int t) = Some (st', r)"
  shows "r = 0 \<and> sys_wakelocks_get_free_time later st' (int t) = later - now \<and> \<not> force_standby st' \<and>
    (int t = FULL_WAKE_LOCK \<and> wl_held st 0 = 0 \<longrightarrow>
       sys_wakelocks_get_free_time later st' PARTIAL_WAKE_LOCK = later - now)"
proof -
  have st': "r = 0" "st' = system_clear_fast_standby (release_lock now t (int t) st)"
    using assms wake_unlock_effect [of st t log now] by simp_all
  have i: "wl_inv st'" unfolding st'(2) using release_held(2) [OF assms(1,2,2)] assms(3) by simp
  have h: "wl_held st' t = 0" "t \<noteq> 0 \<Longrightarrow> wl_held st' 0 = wl_held st 0"
    using release_held(1) [OF assms(1,2), of _ now "int t"] assms(2,3) unfolding st' by auto
  have f: "free_timestamp (wakelocks st' ! u) = now" if "u = t \<or> t = 1" "u < 2" for u
    using assms that unfolding st' by (auto simp: release_simps wl_inv_def)
  have z: "ref_cnt (wakelocks st' ! u) = 0" if "wl_held st' u = 0" for u
    using that by (simp add: wl_held_def unat_eq_0)
  show ?thesis
    using st'(1) lookup_type [OF i assms(2)] lookup_01(1) [OF i] z h f [of t] f [of 0] assms(2)
    by (auto simp: sys_wakelocks_get_free_time_def st'(2) system_clear_fast_standby_def)
qed

theorem wakelock_free_time_witness:
  "case sys_wake_unlock True 100 ex_locks 1 of
     None \<Rightarrow> False
   | Some (st', r) \<Rightarrow> r = 0 \<and> sys_wakelocks_get_free_time 150 st' FULL_WAKE_LOCK = 50 \<and> \<not> force_standby st' \<and>
       sys_wakelocks_get_free_time 150 st' PARTIAL_WAKE_LOCK = 50"
  using wakelock_free_time [OF ex_locks_inv(1), of 1 True 100 _ _ 150] wake_unlock_effect [OF ex_locks_inv(1), of 1 True 100]
  by (simp add: ex_locks_inv)

text \<open>
  locking or unlocking an unknown type does not return its error code when information
  messages are compiled in: the message at the end of the function dereferences the null lock.
\<close>

theorem wakelock_unknown_type:
  assumes "wl_inv st" "ty \<noteq> PARTIAL_WAKE_LOCK" "ty \<noteq> FULL_WAKE_LOCK"
  shows "sys_wake_lock True st ty = None \<and> sys_wake_unlock True now st ty = None \<and>
    sys_wake_lock False st ty = Some (st, - EEXIST) \<and> sys_wake_unlock False now st ty = Some (st, - ESRCH) \<and>
    sys_wake_lock_reset now st ty = Some (st, - EEXIST)"
  using assms by (simp_all add: sys_wake_lock_def sys_wake_unlock_def sys_wake_lock_reset_def lookup_unknown)

theorem wakelock_unknown_type_witness:
  "sys_wake_lock True ex_locks 2 = None \<and> sys_wake_unlock True 0 ex_locks 2 = None"
  using wakelock_unknown_type [OF ex_locks_inv(1), of 2 0] by simp_all

end
