(* ===== verification/Sys_Standby.thy ===== *)
theory Sys_Standby
  imports Sys_Wakelock
begin

text \<open>
  The standby state machine of \<^verbatim>\<open>src/framework/system/sys_standby.c\<close>, run by the system monitor:
  NORMAL, S1 (display off), S2 (applications suspended, messages stopped) and S3 (deep sleep),
  driven by the wake locks and their free times.

  The state extends the wake locks with the fields of \<open>struct standby_context_t\<close>, the system time and
  a trace of the calls into other components. What those calls and the passing of time do to the
  state (a suspended application may take a wake lock, the exit from deep sleep raises
  \<open>wakeup_flag\<close>, the power-down timer fires) is a parameter, the record \<open>standby_env\<close>.
  The configuration is that of the earphone (\<open>CONFIG_SOC_EP_MODE\<close>, no simulator).
\<close>

section \<open>Model\<close>

datatype standby_level = STANDBY_NORMAL | STANDBY_S1 | STANDBY_S2 | STANDBY_S3

abbreviation STANDBY_SLEEP :: u8 where "STANDBY_SLEEP \<equiv> 0"
abbreviation STANDBY_LIGHT_SLEEP :: u8 where "STANDBY_LIGHT_SLEEP \<equiv> 1"
abbreviation STANDBY_DEEP_SLEEP :: u8 where "STANDBY_DEEP_SLEEP \<equiv> 2"
abbreviation STANDBY_MIN_TIME_SEC :: u32 where "STANDBY_MIN_TIME_SEC \<equiv> 5"
abbreviation SLEEP_WK_SRC_BT :: nat where "SLEEP_WK_SRC_BT \<equiv> 0"

datatype app_msg = MSG_SUSPEND_APP | MSG_RESUME_APP

datatype event =
    Pm_early_suspend | Pm_late_resume
  | Notifier app_msg | Notify_app u32 app_msg | Notify_service app_msg
  | Msg_manager_lock | Msg_manager_unlock
  | Enter_deep_sleep | Timer_start int | Timer_stop | Send_power_off

record standby_context = wakelocks_manager +
  uptime :: u32
  auto_standby_time :: u32
  auto_powerdown_time :: u32
  standby_state :: standby_level
  standby_mode :: u8
  auto_powerdown :: bool
  wakeup_timestamp :: u32
  wakeup_flag :: bool
  last_app :: u32
  notifier :: bool
  trace :: "event list"

record standby_env =
  react :: "event \<Rightarrow> standby_context \<Rightarrow> standby_context"
  os_sleep :: "standby_context \<Rightarrow> standby_context"
  current_app :: "standby_context \<Rightarrow> u32"
  wksrc :: "standby_context \<Rightarrow> nat"

text \<open>A call into another component: recorded, then whatever that component does.\<close>

definition emit :: "standby_env \<Rightarrow> event \<Rightarrow> standby_context \<Rightarrow> standby_context" where
  "emit E e st = react E e (st\<lparr>trace := trace st @ [e]\<rparr>)"

definition free_time :: "standby_context \<Rightarrow> int \<Rightarrow> u32" where
  "free_time st ty = sys_wakelocks_get_free_time (uptime st) st ty"

definition sys_standby_check_auto_powerdown :: "standby_env \<Rightarrow> standby_context \<Rightarrow> standby_context \<times> int" where
  "sys_standby_check_auto_powerdown E st =
     (if auto_powerdown st then (st, 1)
      else if auto_powerdown_time st < free_time st PARTIAL_WAKE_LOCK \<and> auto_powerdown_time st < free_time st FULL_WAKE_LOCK
      then (emit E Send_power_off (st\<lparr>auto_powerdown := True\<rparr>), 1)
      else (st, 0))"

definition sys_standby_powerdown_timer_handler :: "standby_context \<Rightarrow> standby_context" where
  "sys_standby_powerdown_timer_handler st = st\<lparr>auto_powerdown := True\<rparr>"

definition sys_standby_enter_s1 :: "standby_env \<Rightarrow> standby_context \<Rightarrow> standby_context" where
  "sys_standby_enter_s1 E st = emit E Pm_early_suspend (st\<lparr>standby_state := STANDBY_S1\<rparr>)"

definition sys_standby_exit_s1 :: "standby_env \<Rightarrow> standby_context \<Rightarrow> standby_context" where
  "sys_standby_exit_s1 E st =
     emit E Pm_late_resume (st\<lparr>standby_state := STANDBY_NORMAL, wakeup_timestamp := uptime st\<rparr>)"

definition locks_held :: "standby_context \<Rightarrow> bool" where
  "locks_held st \<longleftrightarrow> sys_wakelocks_check st PARTIAL_WAKE_LOCK \<noteq> 0 \<or> sys_wakelocks_check st FULL_WAKE_LOCK \<noteq> 0"

definition back_to_s1_if_locked :: "standby_context \<Rightarrow> standby_context" where
  "back_to_s1_if_locked st = (if locks_held st then st\<lparr>standby_state := STANDBY_S1\<rparr> else st)"

definition sys_standby_enter_s2 :: "standby_env \<Rightarrow> standby_context \<Rightarrow> standby_context" where
  "sys_standby_enter_s2 E st =
     (let st1 = st\<lparr>standby_state := STANDBY_S2\<rparr>
      in if standby_mode st1 \<noteq> STANDBY_DEEP_SLEEP then st1
         else let st2 = (if notifier st1 then emit E (Notifier MSG_SUSPEND_APP) st1 else st1);
                  st3 = st2\<lparr>last_app := current_app E st2\<rparr>;
                  st4 = back_to_s1_if_locked (emit E (Notify_app (last_app st3) MSG_SUSPEND_APP) st3);
                  st5 = back_to_s1_if_locked (emit E (Notify_service MSG_SUSPEND_APP) st4)
              in emit E Msg_manager_lock st5)"

definition sys_standby_exit_s2 :: "standby_env \<Rightarrow> standby_context \<Rightarrow> standby_context" where
  "sys_standby_exit_s2 E st =
     (let st1 = st\<lparr>standby_state := STANDBY_S1\<rparr>;
          st2 = (if last_app st1 \<noteq> 0
                 then let a = emit E Msg_manager_unlock st1; b = emit E (Notify_service MSG_RESUME_APP) a
                      in emit E (Notify_app (last_app b) MSG_RESUME_APP) b
                 else st1)
      in if notifier st2 then emit E (Notifier MSG_RESUME_APP) st2 else st2)"

text \<open>The loop that waits for \<open>wakeup_flag\<close>; \<open>None\<close> when it is never raised.\<close>

partial_function (option) wait_wakeup :: "standby_env \<Rightarrow> standby_context \<Rightarrow> standby_context option" where
  "wait_wakeup E st = (if wakeup_flag st then Some st else wait_wakeup E (os_sleep E st))"

definition sys_standby_enter_s3 :: "standby_env \<Rightarrow> standby_context \<Rightarrow> standby_context option" where
  "sys_standby_enter_s3 E st =
     wait_wakeup E (emit E Enter_deep_sleep (st\<lparr>standby_state := STANDBY_S3, wakeup_flag := False\<rparr>))"

definition sys_standby_process_normal :: "standby_env \<Rightarrow> standby_context \<Rightarrow> standby_context" where
  "sys_standby_process_normal E st =
     (if sys_wakelocks_check st FULL_WAKE_LOCK \<noteq> 0 then st
      else if force_standby st \<or> auto_standby_time st < free_time st FULL_WAKE_LOCK then sys_standby_enter_s1 E st
      else st)"

definition sys_standby_process_s1 :: "standby_env \<Rightarrow> standby_context \<Rightarrow> standby_context" where
  "sys_standby_process_s1 E st =
     (if sys_wakelocks_check st FULL_WAKE_LOCK \<noteq> 0 then sys_standby_exit_s1 E st
      else if free_time st FULL_WAKE_LOCK < auto_standby_time st
      then (if \<not> force_standby st then sys_standby_exit_s1 E st else st)
      else if auto_standby_time st < free_time st PARTIAL_WAKE_LOCK
      then (if sys_wakelocks_check st PARTIAL_WAKE_LOCK = 0 then sys_standby_enter_s2 E st else st)
      else if force_standby st
      then (if sys_wakelocks_check st PARTIAL_WAKE_LOCK = 0 then sys_standby_enter_s2 E st else st)
      else st)"

text \<open>\<open>_sys_standby_wakeup_from_s2\<close>: everything before its \<open>return true\<close> is compiled out.\<close>

definition sys_standby_wakeup_from_s2 :: "standby_context \<Rightarrow> bool" where
  "sys_standby_wakeup_from_s2 st = True"

text \<open>
  The power-down timer of \<open>_sys_standby_process_s2\<close>: the remaining time is a 32-bit difference, the
  comparison of the two is unsigned, the test against 0 signed, and the duration in
  microseconds is a signed 32-bit product.
\<close>

definition start_powerdown_timer :: "standby_env \<Rightarrow> standby_context \<Rightarrow> standby_context" where
  "start_powerdown_timer E st =
     (if auto_powerdown_time st = - 1 then st
      else let t1 = auto_powerdown_time st - free_time st FULL_WAKE_LOCK;
               t2 = auto_powerdown_time st - free_time st PARTIAL_WAKE_LOCK;
               t = (if t2 < t1 then t2 else t1)
           in if 0 <s t then emit E (Timer_start (sint (t * 1000))) st else st)"

text \<open>The \<open>while(true)\<close> loop of \<open>_sys_standby_process_s2\<close>.\<close>

partial_function (option) s2_loop :: "standby_env \<Rightarrow> standby_context \<Rightarrow> standby_context option" where
  "s2_loop E st =
     (if locks_held st then Some (sys_standby_exit_s2 E st)
      else Option.bind (sys_standby_enter_s3 E st) (\<lambda>st1.
             if sys_standby_wakeup_from_s2 st1 then Some (sys_standby_exit_s2 E st1) else s2_loop E st1))"

definition lock_unlock :: "int \<Rightarrow> (standby_context \<Rightarrow> standby_context) \<Rightarrow> standby_context \<Rightarrow> standby_context option" where
  "lock_unlock ty f st =
     Option.bind (sys_wake_lock True st ty) (\<lambda>(st1, _).
       let st2 = f st1 in map_option fst (sys_wake_unlock True (uptime st2) st2 ty))"

definition sys_standby_process_s2 :: "standby_env \<Rightarrow> standby_context \<Rightarrow> (standby_context \<times> int) option" where
  "sys_standby_process_s2 E st =
     Option.bind (s2_loop E (start_powerdown_timer E (st\<lparr>force_standby := False\<rparr>))) (\<lambda>st1.
       if auto_powerdown st1 then Some (emit E Send_power_off st1, 1)
       else let st2 = emit E Timer_stop st1
            in map_option (\<lambda>s. (s, 0))
                 (if wksrc E st2 \<noteq> SLEEP_WK_SRC_BT then lock_unlock FULL_WAKE_LOCK (sys_standby_exit_s1 E) st2
                  else lock_unlock PARTIAL_WAKE_LOCK (\<lambda>s. s) st2))"

definition sys_standby_work_handle :: "standby_env \<Rightarrow> standby_context \<Rightarrow> (standby_context \<times> int) option" where
  "sys_standby_work_handle E st =
     (let (st1, ret) = sys_standby_check_auto_powerdown E st
      in if ret \<noteq> 0 then Some (st1, ret)
         else case standby_state st1 of
                STANDBY_NORMAL \<Rightarrow> Some (sys_standby_process_normal E st1, 0)
              | STANDBY_S1 \<Rightarrow> Some (sys_standby_process_s1 E st1, 0)
              | STANDBY_S2 \<Rightarrow> sys_standby_process_s2 E st1
              | STANDBY_S3 \<Rightarrow> Some (st1, ret))"

definition sys_standby_is_auto_powerdown :: "string option \<Rightarrow> bool" where
  "sys_standby_is_auto_powerdown prop = (prop \<noteq> Some ''false'')"

definition sys_standby_exit_sleep :: "standby_context \<Rightarrow> standby_context" where
  "sys_standby_exit_sleep st = st\<lparr>wakeup_flag := True\<rparr>"

text \<open>
  \<open>standby_sec\<close> and \<open>powerdown_sec\<close> are the two configuration options, \<open>None\<close> when undefined; \<open>prop\<close> is the
  stored property \<open>CFG_AUTO_POWERDOWN\<close>; \<open>work_ok\<close> is whether the system monitor has a free slot.
\<close>

definition sys_standby_init ::
    "u32 option \<Rightarrow> u32 option \<Rightarrow> string option \<Rightarrow> bool \<Rightarrow> u32 \<Rightarrow> (standby_context \<times> int) option" where
  "sys_standby_init standby_sec powerdown_sec prop work_ok now =
     (let st = \<lparr>wakelocks = [], force_standby = False, uptime = now,
                auto_standby_time =
                  (case standby_sec of
                     None \<Rightarrow> - 1
                   | Some s \<Rightarrow> if s = 0 then - 1 else if s < STANDBY_MIN_TIME_SEC then STANDBY_MIN_TIME_SEC * 1000 else s * 1000),
                auto_powerdown_time =
                  (case powerdown_sec of
                     None \<Rightarrow> - 1 | Some s \<Rightarrow> if sys_standby_is_auto_powerdown prop then s * 1000 else - 1),
                standby_state = STANDBY_NORMAL, standby_mode = STANDBY_DEEP_SLEEP, auto_powerdown = False,
                wakeup_timestamp = now, wakeup_flag = False, last_app = 0, notifier = False, trace = []\<rparr>
      in map_option (\<lambda>st1. (st1, if work_ok then 0 else - EFAULT)) (sys_wakelocks_init True now st))"

definition system_wakeup_time :: "standby_context \<Rightarrow> u32" where
  "system_wakeup_time st = (if wakeup_timestamp st \<noteq> 0 then uptime st - wakeup_timestamp st else - 1)"

definition system_set_standby_mode :: "u8 \<Rightarrow> standby_context \<Rightarrow> standby_context" where
  "system_set_standby_mode sleep_mode st = st\<lparr>standby_mode := sleep_mode\<rparr>"

definition system_set_autosleep_time :: "u32 \<Rightarrow> standby_context \<Rightarrow> standby_context" where
  "system_set_autosleep_time timeout st = st\<lparr>auto_standby_time := (if timeout \<noteq> 0 then timeout * 1000 else - 1)\<rparr>"

definition system_request_fast_standby :: "standby_context \<Rightarrow> standby_context" where
  "system_request_fast_standby st = st\<lparr>force_standby := True\<rparr>"

definition system_is_screen_on :: "standby_context \<Rightarrow> bool" where
  "system_is_screen_on st \<longleftrightarrow> standby_state st = STANDBY_NORMAL"

definition system_set_auto_poweroff_time :: "u32 \<Rightarrow> standby_context \<Rightarrow> standby_context" where
  "system_set_auto_poweroff_time timeout st = st\<lparr>auto_powerdown_time := (if timeout \<noteq> 0 then timeout * 1000 else - 1)\<rparr>"

definition system_register_standby_notifier :: "standby_context \<Rightarrow> standby_context \<times> int" where
  "system_register_standby_notifier st = (if notifier st then (st, - 1) else (st\<lparr>notifier := True\<rparr>, 0))"

section \<open>The environment\<close>

text \<open>
  What the components called by the standby machine, the timer and the interrupts may do: take
  and release wake locks, let time pass, raise \<open>wakeup_flag\<close>, and let the power-down timer expire at any point from its
  start in \<open>_sys_standby_process_s2\<close> to the test of its flag: while the timer is started, in deep sleep, and while the
  application and the services are resumed. They do not touch the state of the machine itself. An expiry in the
  few instructions between the test of the flag and \<open>hrtimer_stop\<close> is excluded: it sets the flag with no power-off message.
\<close>

fun timer_window :: "event \<Rightarrow> bool" where
  "timer_window (Timer_start n) = True"
| "timer_window Enter_deep_sleep = True"
| "timer_window Msg_manager_unlock = True"
| "timer_window (Notify_service m) = (m = MSG_RESUME_APP)"
| "timer_window (Notify_app a m) = (m = MSG_RESUME_APP)"
| "timer_window (Notifier m) = (m = MSG_RESUME_APP)"
| "timer_window e = False"

definition keeps_machine :: "standby_context \<Rightarrow> standby_context \<Rightarrow> bool" where
  "keeps_machine st st' \<longleftrightarrow>
     standby_state st' = standby_state st \<and> standby_mode st' = standby_mode st \<and> last_app st' = last_app st \<and>
     notifier st' = notifier st \<and> trace st' = trace st"

definition quiet :: "standby_env \<Rightarrow> bool" where
  "quiet E \<longleftrightarrow>
     (\<forall>e st. keeps_machine st (react E e st) \<and> (\<not> timer_window e \<longrightarrow> auto_powerdown (react E e st) = auto_powerdown st)) \<and>
     (\<forall>st. keeps_machine st (os_sleep E st))"

lemma emit_simps:
  assumes "quiet E"
  shows "standby_state (emit E e st) = standby_state st" "standby_mode (emit E e st) = standby_mode st"
    "last_app (emit E e st) = last_app st" "notifier (emit E e st) = notifier st"
    "trace (emit E e st) = trace st @ [e]"
    "\<not> timer_window e \<Longrightarrow> auto_powerdown (emit E e st) = auto_powerdown st"
  using assms by (auto simp: quiet_def keeps_machine_def emit_def)

lemma wait_wakeup_machine:
  assumes "wait_wakeup E st = Some st'" "quiet E"
  shows "standby_state st' = standby_state st" "standby_mode st' = standby_mode st" "last_app st' = last_app st"
    "notifier st' = notifier st" "trace st' = trace st"
proof -
  have "quiet E \<longrightarrow> keeps_machine st st'"
  proof (rule wait_wakeup.raw_induct [OF _ assms(1)])
    fix f :: "standby_env \<Rightarrow> standby_context \<Rightarrow> standby_context option" and E st y
    assume "\<And>E st y. f E st = Some y \<Longrightarrow> quiet E \<longrightarrow> keeps_machine st y"
      and "(if wakeup_flag st then Some st else f E (os_sleep E st)) = Some y"
    then show "quiet E \<longrightarrow> keeps_machine st y"
      by (cases "wakeup_flag st") (fastforce simp: keeps_machine_def quiet_def)+
  qed
  then show "standby_state st' = standby_state st" "standby_mode st' = standby_mode st" "last_app st' = last_app st"
    "notifier st' = notifier st" "trace st' = trace st"
    using assms(2) by (simp_all add: keeps_machine_def)
qed

text \<open>\<open>grows P st st'\<close>: between the two states only events satisfying \<open>P\<close> were recorded.\<close>

definition grows :: "(event \<Rightarrow> bool) \<Rightarrow> standby_context \<Rightarrow> standby_context \<Rightarrow> bool" where
  "grows P st st' \<longleftrightarrow> (\<exists>es. trace st' = trace st @ es \<and> (\<forall>e\<in>set es. P e))"

lemma grows_refl: "trace st' = trace st \<Longrightarrow> grows P st st'"
  by (simp add: grows_def)

lemma grows_snoc: "grows P st st' \<Longrightarrow> trace st'' = trace st' @ [e] \<Longrightarrow> P e \<Longrightarrow> grows P st st''"
  by (force simp: grows_def)

lemma grows_trans: "grows P st st' \<Longrightarrow> grows P st' st'' \<Longrightarrow> grows P st st''"
  by (force simp: grows_def)

lemma back_simps [simp]:
  "trace (back_to_s1_if_locked st) = trace st" "standby_mode (back_to_s1_if_locked st) = standby_mode st"
  "last_app (back_to_s1_if_locked st) = last_app st" "notifier (back_to_s1_if_locked st) = notifier st"
  "auto_powerdown (back_to_s1_if_locked st) = auto_powerdown st"
  "standby_state (back_to_s1_if_locked st) = (if locks_held st then STANDBY_S1 else standby_state st)"
  by (simp_all add: back_to_s1_if_locked_def)

definition silent :: "event \<Rightarrow> bool" where
  "silent e \<longleftrightarrow> e \<noteq> Pm_early_suspend \<and> e \<noteq> Pm_late_resume \<and> e \<noteq> Send_power_off"

lemma enter_s2_machine:
  assumes "quiet E"
  shows "standby_state (sys_standby_enter_s2 E st) \<in> {STANDBY_S1, STANDBY_S2}"
    "grows silent st (sys_standby_enter_s2 E st)"
    "auto_powerdown (sys_standby_enter_s2 E st) = auto_powerdown st"
  using emit_simps [OF assms]
  by (auto simp: sys_standby_enter_s2_def Let_def grows_def silent_def)

lemma exit_s2_machine:
  assumes "quiet E"
  shows "standby_state (sys_standby_exit_s2 E st) = STANDBY_S1"
    "grows silent st (sys_standby_exit_s2 E st)"
  using emit_simps [OF assms]
  by (auto simp: sys_standby_exit_s2_def Let_def grows_def silent_def)

lemma s2_loop_once:
  "s2_loop E st = (if locks_held st then Some (sys_standby_exit_s2 E st)
     else map_option (sys_standby_exit_s2 E) (sys_standby_enter_s3 E st))"
  by (subst s2_loop.simps) (auto simp: sys_standby_wakeup_from_s2_def split: bind_splits)

lemma s2_loop_machine:
  assumes "quiet E" "s2_loop E st = Some st'"
  shows "standby_state st' = STANDBY_S1" "grows silent st st'"
proof -
  consider "st' = sys_standby_exit_s2 E st"
    | st1 where "wait_wakeup E (emit E Enter_deep_sleep (st\<lparr>standby_state := STANDBY_S3, wakeup_flag := False\<rparr>)) = Some st1"
        "st' = sys_standby_exit_s2 E st1"
    using assms(2) unfolding s2_loop_once sys_standby_enter_s3_def by (auto split: if_splits)
  then have "standby_state st' = STANDBY_S1 \<and> grows silent st st'"
  proof cases
    case 1
    then show ?thesis using exit_s2_machine [OF assms(1)] by simp
  next
    case 2
    have "trace st1 = trace st @ [Enter_deep_sleep]"
      using wait_wakeup_machine [OF 2(1) assms(1)] emit_simps [OF assms(1)] by simp
    then have "grows silent st st1" by (simp add: grows_def silent_def)
    then show ?thesis using 2 exit_s2_machine [OF assms(1), of st1] grows_trans by auto
  qed
  then show "standby_state st' = STANDBY_S1" "grows silent st st'" by simp_all
qed

lemma timer_machine:
  assumes "quiet E"
  shows "standby_state (start_powerdown_timer E st) = standby_state st" "grows silent st (start_powerdown_timer E st)"
  using emit_simps [OF assms] by (auto simp: start_powerdown_timer_def Let_def grows_def silent_def)

section \<open>The invariant of the machine\<close>

text \<open>
  \<open>alternate on off b es\<close> follows a pair of opposite events: \<open>None\<close> when one of them occurs twice in a
  row, otherwise whether the last one was \<open>on\<close>.
\<close>

fun alternate :: "'e \<Rightarrow> 'e \<Rightarrow> bool \<Rightarrow> 'e list \<Rightarrow> bool option" where
  "alternate on off b [] = Some b"
| "alternate on off b (e # es) =
     (if e = on then (if b then None else alternate on off True es)
      else if e = off then (if b then alternate on off False es else None)
      else alternate on off b es)"

lemma alternate_append: "alternate on off b (es @ fs) = Option.bind (alternate on off b es) (\<lambda>c. alternate on off c fs)"
  by (induction es arbitrary: b) auto

lemma alternate_other: "\<forall>e\<in>set es. e \<noteq> on \<and> e \<noteq> off \<Longrightarrow> alternate on off b es = Some b"
  by (induction es) auto

abbreviation pm_phase :: "standby_context \<Rightarrow> bool option" where
  "pm_phase st \<equiv> alternate Pm_early_suspend Pm_late_resume False (trace st)"

definition standby_inv :: "standby_context \<Rightarrow> bool" where
  "standby_inv st \<longleftrightarrow> standby_state st \<noteq> STANDBY_S3 \<and> pm_phase st = Some (standby_state st \<noteq> STANDBY_NORMAL) \<and>
     count_list (trace st) Send_power_off = (if auto_powerdown st then 1 else 0)"

lemma count_list_silent: "\<forall>e\<in>set es. silent e \<Longrightarrow> count_list es Send_power_off = 0"
  by (induction es) (auto simp: silent_def)

lemma grows_silent_phase:
  assumes "grows silent st st'"
  shows "pm_phase st' = pm_phase st" "count_list (trace st') Send_power_off = count_list (trace st) Send_power_off"
proof -
  obtain es where es: "trace st' = trace st @ es" "\<forall>e\<in>set es. silent e" using assms by (auto simp: grows_def)
  then have "alternate Pm_early_suspend Pm_late_resume b es = Some b" for b
    by (intro alternate_other) (auto simp: silent_def)
  then show "pm_phase st' = pm_phase st" unfolding es(1) alternate_append
    by (cases "pm_phase st") simp_all
  show "count_list (trace st') Send_power_off = count_list (trace st) Send_power_off"
    using es count_list_silent by simp
qed

text \<open>The wake lock operations leave the machine alone.\<close>

definition locks_only :: "standby_context \<Rightarrow> standby_context \<Rightarrow> bool" where
  "locks_only st st' \<longleftrightarrow> keeps_machine st st' \<and> auto_powerdown st' = auto_powerdown st \<and> uptime st' = uptime st"

lemma locks_only_ops:
  fixes st :: standby_context
  shows "locks_only st (upd_lock i f st)" "locks_only st (system_clear_fast_standby st)" "locks_only st (release_lock now i ty st)"
  by (simp_all add: locks_only_def keeps_machine_def upd_lock_def system_clear_fast_standby_def release_lock_def Let_def)

lemma locks_only_refl: "locks_only st st"
  by (simp add: locks_only_def keeps_machine_def)

lemma locks_only_trans: "locks_only a b \<Longrightarrow> locks_only b c \<Longrightarrow> locks_only a c"
  by (simp add: locks_only_def keeps_machine_def)

lemma wake_lock_machine: "sys_wake_lock log (st :: standby_context) ty = Some (st', r) \<Longrightarrow> locks_only st st'"
  by (auto simp: sys_wake_lock_def locks_only_ops locks_only_refl split: option.splits if_splits)

lemma wake_unlock_machine: "sys_wake_unlock log now (st :: standby_context) ty = Some (st', r) \<Longrightarrow> locks_only st st'"
  by (auto simp: sys_wake_unlock_def split: option.splits if_splits intro: locks_only_trans locks_only_ops locks_only_refl)

lemma lock_unlock_machine:
  assumes "lock_unlock ty f st = Some st'"
  shows "\<exists>st1. locks_only st st1 \<and> locks_only (f st1) st'"
  using assms by (auto simp: lock_unlock_def Let_def split: bind_splits dest!: wake_lock_machine wake_unlock_machine)

lemma locks_only_inv:
  assumes "locks_only st st'"
  shows "standby_state st' = standby_state st" "trace st' = trace st" "auto_powerdown st' = auto_powerdown st"
  using assms by (simp_all add: locks_only_def keeps_machine_def)

lemma inv_transfer:
  assumes "standby_inv st" "standby_state st' = standby_state st" "trace st' = trace st" "auto_powerdown st' = auto_powerdown st"
  shows "standby_inv st'"
  using assms by (simp add: standby_inv_def)

lemma process_normal_inv:
  assumes "quiet E" "standby_inv st" "standby_state st = STANDBY_NORMAL"
  shows "standby_inv (sys_standby_process_normal E st)"
  using assms emit_simps [OF assms(1)]
  by (auto simp: sys_standby_process_normal_def sys_standby_enter_s1_def standby_inv_def alternate_append)

lemma exit_s1_inv:
  assumes "quiet E" "standby_inv st" "standby_state st = STANDBY_S1"
  shows "standby_inv (sys_standby_exit_s1 E st)"
  using assms emit_simps [OF assms(1)] by (auto simp: sys_standby_exit_s1_def standby_inv_def alternate_append)

lemma enter_s2_inv:
  assumes "quiet E" "standby_inv st" "standby_state st = STANDBY_S1"
  shows "standby_inv (sys_standby_enter_s2 E st)"
  using assms enter_s2_machine [OF assms(1), of st] grows_silent_phase [OF enter_s2_machine(2) [OF assms(1), of st]]
  by (auto simp: standby_inv_def)

lemma process_s1_inv:
  assumes "quiet E" "standby_inv st" "standby_state st = STANDBY_S1"
  shows "standby_inv (sys_standby_process_s1 E st)"
  using assms exit_s1_inv [OF assms] enter_s2_inv [OF assms] by (simp add: sys_standby_process_s1_def)

lemma process_s2_inv:
  assumes "quiet E" "standby_inv st" "standby_state st = STANDBY_S2" "\<not> auto_powerdown st"
    "sys_standby_process_s2 E st = Some (st', r)"
  shows "standby_inv st'"
proof -
  let ?st0 = "start_powerdown_timer E (st\<lparr>force_standby := False\<rparr>)"
  obtain st1 where st1: "s2_loop E ?st0 = Some st1"
    using assms(5) by (auto simp: sys_standby_process_s2_def split: bind_splits)
  note em = emit_simps [OF assms(1)]
  have "grows silent st ?st0" using timer_machine(2) [OF assms(1), of "st\<lparr>force_standby := False\<rparr>"] by (simp add: grows_def)
  then have g: "grows silent st st1" using s2_loop_machine(2) [OF assms(1) st1] by (rule grows_trans)
  have s1: "standby_state st1 = STANDBY_S1" "pm_phase st1 = Some True" "count_list (trace st1) Send_power_off = 0"
    using s2_loop_machine(1) [OF assms(1) st1] grows_silent_phase [OF g] assms(2-4) by (simp_all add: standby_inv_def)
  show ?thesis
  proof (cases "auto_powerdown st1")
    case True
    then have "st' = emit E Send_power_off st1" using assms(5) st1 by (simp add: sys_standby_process_s2_def)
    then show ?thesis using s1 True by (simp add: em standby_inv_def alternate_append)
  next
    case False
    let ?st2 = "emit E Timer_stop st1"
    have inv2: "standby_inv ?st2" "standby_state ?st2 = STANDBY_S1"
      using s1 False by (simp_all add: em standby_inv_def alternate_append)
    from False assms(5) st1 consider "lock_unlock FULL_WAKE_LOCK (sys_standby_exit_s1 E) ?st2 = Some st'"
      | "lock_unlock PARTIAL_WAKE_LOCK (\<lambda>s. s) ?st2 = Some st'"
      by (auto simp: sys_standby_process_s2_def Let_def split: if_splits)
    then show ?thesis
    proof cases
      case 1
      then obtain st3 where l: "locks_only ?st2 st3" "locks_only (sys_standby_exit_s1 E st3) st'"
        using lock_unlock_machine by blast
      have "standby_inv st3" by (rule inv_transfer [OF inv2(1) locks_only_inv [OF l(1)]])
      then have "standby_inv (sys_standby_exit_s1 E st3)"
        using exit_s1_inv [OF assms(1)] locks_only_inv(1) [OF l(1)] inv2(2) by simp
      then show ?thesis by (rule inv_transfer [OF _ locks_only_inv [OF l(2)]])
    next
      case 2
      then obtain st3 where l: "locks_only ?st2 st3" "locks_only st3 st'" using lock_unlock_machine by blast
      show ?thesis by (rule inv_transfer [OF inv2(1) locks_only_inv [OF locks_only_trans [OF l]]])
    qed
  qed
qed

lemma work_handle_inv:
  assumes "quiet E" "standby_inv st" "sys_standby_work_handle E st = Some (st', r)"
  shows "standby_inv st'"
proof (cases "sys_standby_check_auto_powerdown E st = (st, 0)")
  case True
  then have w: "sys_standby_work_handle E st = (case standby_state st of
      STANDBY_NORMAL \<Rightarrow> Some (sys_standby_process_normal E st, 0)
    | STANDBY_S1 \<Rightarrow> Some (sys_standby_process_s1 E st, 0)
    | STANDBY_S2 \<Rightarrow> sys_standby_process_s2 E st
    | STANDBY_S3 \<Rightarrow> Some (st, 0))"
    by (simp add: sys_standby_work_handle_def)
  have "\<not> auto_powerdown st" using True by (auto simp: sys_standby_check_auto_powerdown_def)
  then show ?thesis
    using assms(2,3) process_normal_inv [OF assms(1,2)] process_s1_inv [OF assms(1,2)]
      process_s2_inv [OF assms(1,2), of st' r]
    unfolding w by (cases "standby_state st") auto
next
  case False
  then show ?thesis using assms emit_simps [OF assms(1)]
    by (auto simp: sys_standby_work_handle_def sys_standby_check_auto_powerdown_def Let_def standby_inv_def
        alternate_append split: if_splits)
qed

section \<open>Steps of the system\<close>

text \<open>
  A step of the system is a run of the monitor work, a wake lock operation of some component, the
  passing of time, or one of the settings. Nothing in the firmware calls \<open>system_set_standby_mode\<close>, so
  the mode stays the one of \<open>sys_standby_init\<close>.
\<close>

inductive standby_step :: "standby_env \<Rightarrow> standby_context \<Rightarrow> standby_context \<Rightarrow> bool" for E where
  step_work: "sys_standby_work_handle E st = Some (st', r) \<Longrightarrow> standby_step E st st'"
| step_lock: "sys_wake_lock True st ty = Some (st', r) \<Longrightarrow> standby_step E st st'"
| step_unlock: "sys_wake_unlock True (uptime st) st ty = Some (st', r) \<Longrightarrow> standby_step E st st'"
| step_time: "standby_step E st (st\<lparr>uptime := now\<rparr>)"
| step_fast: "standby_step E st (system_request_fast_standby st)"
| step_autosleep: "standby_step E st (system_set_autosleep_time t st)"
| step_poweroff: "standby_step E st (system_set_auto_poweroff_time t st)"
| step_notifier: "standby_step E st (fst (system_register_standby_notifier st))"

inductive_cases standby_stepE: "standby_step E st st'"

inductive standby_reach :: "standby_env \<Rightarrow> standby_context \<Rightarrow> standby_context \<Rightarrow> bool" for E st0 where
  reach_start: "standby_reach E st0 st0"
| reach_step: "standby_reach E st0 st \<Longrightarrow> standby_step E st st' \<Longrightarrow> standby_reach E st0 st'"

lemmas system_settings = system_request_fast_standby_def system_set_autosleep_time_def
  system_set_auto_poweroff_time_def system_register_standby_notifier_def

lemma step_inv:
  assumes "quiet E" "standby_inv st" "standby_step E st st'"
  shows "standby_inv st'"
  using assms(3)
proof cases
  case step_work
  then show ?thesis by (rule work_handle_inv [OF assms(1,2)])
next
  case step_lock
  then show ?thesis using inv_transfer [OF assms(2) locks_only_inv [OF wake_lock_machine]] by blast
next
  case step_unlock
  then show ?thesis using inv_transfer [OF assms(2) locks_only_inv [OF wake_unlock_machine]] by blast
qed (use assms(2) in \<open>simp_all add: standby_inv_def system_settings\<close>)

lemma init_state:
  assumes "sys_standby_init a b p ok now = Some (st, r)"
  shows "standby_state st = STANDBY_NORMAL" "trace st = []" "\<not> auto_powerdown st" "standby_mode st = STANDBY_DEEP_SLEEP"
    "last_app st = 0" "wl_inv st" "wl_held st 0 = 0" "wl_held st (Suc 0) = 1"
  using assms
  by (auto simp: sys_standby_init_def sys_wakelocks_init_def sys_wake_lock_def sys_wakelock_lookup_def Let_def
      upt_rec upd_lock_def wl_inv_def wl_held_def split: if_splits)

text \<open>
  C24: from initialisation on, through any interleaving of the monitor work with wake lock calls,
  the passing of time and settings, the machine rests in NORMAL, S1 or S2; the display is
  suspended and resumed alternately and is on exactly in NORMAL; and at most one power-off message
  is ever sent, namely when the auto power-down flag is set.
\<close>

theorem standby_machine_safe:
  assumes "quiet E" "sys_standby_init a b p ok now = Some (st0, r)" "standby_reach E st0 st"
  shows "standby_state st \<noteq> STANDBY_S3 \<and> pm_phase st = Some (\<not> system_is_screen_on st) \<and>
    count_list (trace st) Send_power_off = (if auto_powerdown st then 1 else 0)"
proof -
  have "standby_inv st0" using init_state [OF assms(2)] by (simp add: standby_inv_def)
  from assms(3) this have "standby_inv st" by induction (auto intro: step_inv [OF assms(1)])
  then show ?thesis by (simp add: standby_inv_def system_is_screen_on_def)
qed

text \<open>
  A world in which no component does anything in response, except that leaving deep sleep
  raises \<open>wakeup_flag\<close>.
\<close>

definition calm_env :: standby_env where
  "calm_env = \<lparr>react = (\<lambda>e st. if e = Enter_deep_sleep then sys_standby_exit_sleep st else st),
     os_sleep = (\<lambda>st. st), current_app = (\<lambda>_. 1), wksrc = (\<lambda>_. SLEEP_WK_SRC_BT)\<rparr>"

lemma calm_quiet: "quiet calm_env"
  by (simp add: quiet_def calm_env_def keeps_machine_def sys_standby_exit_sleep_def)

definition booted :: standby_context where
  "booted = \<lparr>wakelocks = [\<lparr>wake_lock_type = 0, ref_cnt = 0, free_timestamp = 7\<rparr>, \<lparr>wake_lock_type = 1, ref_cnt = 1, free_timestamp = 0\<rparr>],
     force_standby = False, uptime = 7, auto_standby_time = 10000, auto_powerdown_time = - 1, standby_state = STANDBY_NORMAL,
     standby_mode = STANDBY_DEEP_SLEEP, auto_powerdown = False, wakeup_timestamp = 7, wakeup_flag = False, last_app = 0,
     notifier = False, trace = []\<rparr>"

lemma booted_init: "sys_standby_init (Some 10) None None True 7 = Some (booted, 0)"
  by (simp add: sys_standby_init_def sys_wakelocks_init_def sys_wake_lock_def sys_wakelock_lookup_def Let_def
      upt_rec upd_lock_def booted_def)

theorem standby_machine_safe_witness:
  "standby_state (system_request_fast_standby booted) \<noteq> STANDBY_S3 \<and>
   pm_phase (system_request_fast_standby booted) = Some (\<not> system_is_screen_on (system_request_fast_standby booted)) \<and>
   count_list (trace (system_request_fast_standby booted)) Send_power_off =
     (if auto_powerdown (system_request_fast_standby booted) then 1 else 0)"
  by (rule standby_machine_safe [OF calm_quiet booted_init reach_step [OF reach_start step_fast]])

section \<open>Stopping and restarting the messages\<close>

abbreviation msg_phase :: "standby_context \<Rightarrow> bool option" where
  "msg_phase st \<equiv> alternate Msg_manager_lock Msg_manager_unlock False (trace st)"

text \<open>
  An environment in which there always is a current application and no component takes a wake
  lock while it is told to suspend.
\<close>

definition obedient :: "standby_env \<Rightarrow> bool" where
  "obedient E \<longleftrightarrow> quiet E \<and> (\<forall>st. current_app E st \<noteq> 0) \<and>
     (\<forall>e st. e \<in> {Notifier MSG_SUSPEND_APP, Notify_service MSG_SUSPEND_APP} \<union> range (\<lambda>a. Notify_app a MSG_SUSPEND_APP) \<longrightarrow>
        \<not> locks_held st \<longrightarrow> \<not> locks_held (react E e st))"

definition msg_inv :: "standby_context \<Rightarrow> bool" where
  "msg_inv st \<longleftrightarrow> msg_phase st = Some (standby_state st = STANDBY_S2) \<and>
     (standby_state st = STANDBY_S2 \<longrightarrow> last_app st \<noteq> 0) \<and> standby_mode st = STANDBY_DEEP_SLEEP \<and>
     standby_state st \<noteq> STANDBY_S3"

lemma check_cong: "wakelocks st' = wakelocks st \<Longrightarrow> sys_wakelocks_check st' ty = sys_wakelocks_check st ty"
  by (simp add: sys_wakelocks_check_def sys_wakelock_lookup_def cong: option.case_cong)

lemma locks_held_wakelocks: "wakelocks st' = wakelocks st \<Longrightarrow> locks_held st' = locks_held st"
  by (simp add: locks_held_def check_cong [of st' st])

lemma locks_held_cong [simp]:
  "locks_held (st\<lparr>trace := x\<rparr>) = locks_held st" "locks_held (st\<lparr>standby_state := y\<rparr>) = locks_held st"
  "locks_held (st\<lparr>last_app := z\<rparr>) = locks_held st" "locks_held (st\<lparr>force_standby := f\<rparr>) = locks_held st"
  by (rule locks_held_wakelocks, simp)+

lemma locks_held_back [simp]: "locks_held (back_to_s1_if_locked st) = locks_held st"
  by (simp add: back_to_s1_if_locked_def)

lemma obedientD:
  assumes "obedient E"
  shows "quiet E" "current_app E st \<noteq> 0"
    "\<not> locks_held st \<Longrightarrow> \<not> locks_held (emit E (Notifier MSG_SUSPEND_APP) st)"
    "\<not> locks_held st \<Longrightarrow> \<not> locks_held (emit E (Notify_app a MSG_SUSPEND_APP) st)"
    "\<not> locks_held st \<Longrightarrow> \<not> locks_held (emit E (Notify_service MSG_SUSPEND_APP) st)"
  using assms by (auto simp: obedient_def emit_def)

lemma enter_s2_msg:
  assumes "obedient E" "msg_inv st" "standby_state st = STANDBY_S1" "\<not> locks_held st"
  shows "msg_inv (sys_standby_enter_s2 E st)"
  using assms(2-4) emit_simps [OF obedientD(1) [OF assms(1)]] obedientD [OF assms(1)]
  by (simp add: sys_standby_enter_s2_def Let_def msg_inv_def alternate_append)

lemma exit_s2_msg:
  assumes "quiet E" "msg_phase st = Some True" "last_app st \<noteq> 0" "standby_mode st = STANDBY_DEEP_SLEEP"
  shows "msg_inv (sys_standby_exit_s2 E st)"
  using assms(2-4) emit_simps [OF assms(1)]
  by (simp add: sys_standby_exit_s2_def Let_def msg_inv_def alternate_append)

lemma exit_s1_msg:
  assumes "quiet E" "msg_inv st" "standby_state st = STANDBY_S1"
  shows "msg_inv (sys_standby_exit_s1 E st)"
  using assms(2,3) emit_simps [OF assms(1)] by (simp add: sys_standby_exit_s1_def msg_inv_def alternate_append)

lemma s2_loop_msg:
  assumes "quiet E" "msg_inv st" "standby_state st = STANDBY_S2" "s2_loop E st = Some st'"
  shows "msg_inv st'"
proof (cases "locks_held st")
  case True
  then show ?thesis using assms exit_s2_msg [OF assms(1), of st] by (simp add: s2_loop_once msg_inv_def)
next
  case False
  let ?st0 = "emit E Enter_deep_sleep (st\<lparr>standby_state := STANDBY_S3, wakeup_flag := False\<rparr>)"
  obtain st1 where st1: "wait_wakeup E ?st0 = Some st1" "st' = sys_standby_exit_s2 E st1"
    using assms(4) False by (auto simp: s2_loop_once sys_standby_enter_s3_def)
  then show ?thesis
    using assms(2,3) wait_wakeup_machine [OF st1(1) assms(1)] emit_simps [OF assms(1)]
    unfolding st1(2) by (intro exit_s2_msg [OF assms(1)]) (simp_all add: msg_inv_def alternate_append)
qed

lemma msg_transfer:
  assumes "msg_inv st" "keeps_machine st st'"
  shows "msg_inv st'"
  using assms by (simp add: msg_inv_def keeps_machine_def)

lemma locks_only_keeps: "locks_only st st' \<Longrightarrow> keeps_machine st st'"
  by (simp add: locks_only_def)

lemma process_s2_msg:
  assumes "quiet E" "msg_inv st" "standby_state st = STANDBY_S2" "sys_standby_process_s2 E st = Some (st', r)"
  shows "msg_inv st'"
proof -
  note em = emit_simps [OF assms(1)]
  let ?st0 = "start_powerdown_timer E (st\<lparr>force_standby := False\<rparr>)"
  obtain st1 where st1: "s2_loop E ?st0 = Some st1"
    using assms(4) by (auto simp: sys_standby_process_s2_def split: bind_splits)
  have m1: "msg_inv st1"
    using assms(2,3) by (intro s2_loop_msg [OF assms(1) _ _ st1])
      (simp_all add: start_powerdown_timer_def Let_def msg_inv_def em alternate_append)
  have s1: "standby_state st1 = STANDBY_S1" by (rule s2_loop_machine(1) [OF assms(1) st1])
  let ?st2 = "emit E Timer_stop st1"
  have m2: "msg_inv ?st2" "standby_state ?st2 = STANDBY_S1" "msg_inv (emit E Send_power_off st1)"
    using m1 s1 by (simp_all add: em msg_inv_def alternate_append)
  from assms(4) st1 consider "st' = emit E Send_power_off st1"
    | "lock_unlock FULL_WAKE_LOCK (sys_standby_exit_s1 E) ?st2 = Some st'"
    | "lock_unlock PARTIAL_WAKE_LOCK (\<lambda>s. s) ?st2 = Some st'"
    by (auto simp: sys_standby_process_s2_def Let_def split: if_splits)
  then show ?thesis
  proof cases
    case 1
    then show ?thesis using m2 by simp
  next
    case 2
    then obtain st3 where l: "locks_only ?st2 st3" "locks_only (sys_standby_exit_s1 E st3) st'"
      using lock_unlock_machine by blast
    have "msg_inv st3" by (rule msg_transfer [OF m2(1) locks_only_keeps [OF l(1)]])
    then have "msg_inv (sys_standby_exit_s1 E st3)"
      using exit_s1_msg [OF assms(1)] locks_only_inv(1) [OF l(1)] m2(2) by simp
    then show ?thesis by (rule msg_transfer [OF _ locks_only_keeps [OF l(2)]])
  next
    case 3
    then obtain st3 where l: "locks_only ?st2 st3" "locks_only st3 st'" using lock_unlock_machine by blast
    show ?thesis by (rule msg_transfer [OF m2(1) locks_only_keeps [OF locks_only_trans [OF l]]])
  qed
qed

lemma process_s1_msg:
  assumes "obedient E" "msg_inv st" "standby_state st = STANDBY_S1"
  shows "msg_inv (sys_standby_process_s1 E st)"
  using assms(2) exit_s1_msg [OF obedientD(1) [OF assms(1)] assms(2,3)] enter_s2_msg [OF assms]
  by (simp add: sys_standby_process_s1_def locks_held_def)

lemma process_normal_msg:
  assumes "quiet E" "msg_inv st" "standby_state st = STANDBY_NORMAL"
  shows "msg_inv (sys_standby_process_normal E st)"
  using assms(2,3) emit_simps [OF assms(1)]
  by (simp add: sys_standby_process_normal_def sys_standby_enter_s1_def msg_inv_def alternate_append)

lemma work_handle_msg:
  assumes "obedient E" "msg_inv st" "sys_standby_work_handle E st = Some (st', r)"
  shows "msg_inv st'"
proof (cases "sys_standby_check_auto_powerdown E st = (st, 0)")
  case True
  note q = obedientD(1) [OF assms(1)]
  show ?thesis
    using assms(3) True process_normal_msg [OF q assms(2)] process_s1_msg [OF assms(1,2)]
      process_s2_msg [OF q assms(2), of st' r] assms(2)
    by (cases "standby_state st") (auto simp: sys_standby_work_handle_def)
next
  case False
  then show ?thesis using assms(2,3) emit_simps [OF obedientD(1) [OF assms(1)]]
    by (auto simp: sys_standby_work_handle_def sys_standby_check_auto_powerdown_def Let_def msg_inv_def
        alternate_append split: if_splits)
qed

lemma step_msg:
  assumes "obedient E" "msg_inv st" "standby_step E st st'"
  shows "msg_inv st'"
  using assms(3)
proof cases
  case step_work
  then show ?thesis by (rule work_handle_msg [OF assms(1,2)])
next
  case step_lock
  then show ?thesis using msg_transfer [OF assms(2) locks_only_keeps [OF wake_lock_machine]] by blast
next
  case step_unlock
  then show ?thesis using msg_transfer [OF assms(2) locks_only_keeps [OF wake_unlock_machine]] by blast
qed (use assms(2) in \<open>simp_all add: msg_inv_def system_settings\<close>)

text \<open>
  as long as there is a current application and no component takes a wake lock in answer to
  a suspend request, the message manager is locked and unlocked alternately over any run of the
  system, and it is locked exactly while the machine is in S2.
\<close>

theorem standby_messages_balanced:
  assumes "obedient E" "sys_standby_init a b p ok now = Some (st0, r)" "standby_reach E st0 st"
  shows "msg_phase st = Some (standby_state st = STANDBY_S2)"
proof -
  have "msg_inv st0" using init_state [OF assms(2)] by (simp add: msg_inv_def)
  from assms(3) this have "msg_inv st" by induction (auto intro: step_msg [OF assms(1)])
  then show ?thesis by (simp add: msg_inv_def)
qed

lemma calm_obedient: "obedient calm_env"
  using calm_quiet by (auto simp: obedient_def calm_env_def)

theorem standby_messages_balanced_witness:
  "msg_phase (system_request_fast_standby booted) = Some (standby_state (system_request_fast_standby booted) = STANDBY_S2)"
  by (rule standby_messages_balanced [OF calm_obedient booted_init reach_step [OF reach_start step_fast]])

text \<open>
  when a component takes a wake lock in answer to the suspend request, the machine falls back to
  S1 but has already suspended the application and locks the message manager all the same;
  nothing in S1 or NORMAL unlocks it again.
\<close>

theorem standby_suspend_refused:
  assumes "quiet E" "standby_mode st = STANDBY_DEEP_SLEEP" "\<And>st. locks_held (react E (Notify_service MSG_SUSPEND_APP) st)"
    "msg_phase st = Some False"
  shows "standby_state (sys_standby_enter_s2 E st) = STANDBY_S1 \<and> msg_phase (sys_standby_enter_s2 E st) = Some True \<and>
    msg_phase (sys_standby_exit_s1 E (sys_standby_enter_s2 E st)) = Some True"
proof -
  note em = emit_simps [OF assms(1)]
  have "locks_held (emit E (Notify_service MSG_SUSPEND_APP) st)" for st using assms(3) by (simp add: emit_def)
  then have "standby_state (sys_standby_enter_s2 E st) = STANDBY_S1" "msg_phase (sys_standby_enter_s2 E st) = Some True"
    using assms(2,4) by (simp_all add: sys_standby_enter_s2_def Let_def em alternate_append)
  then show ?thesis by (simp add: sys_standby_exit_s1_def em alternate_append)
qed

definition refusing_env :: standby_env where
  "refusing_env = calm_env\<lparr>react := (\<lambda>e st. if e = Notify_service MSG_SUSPEND_APP
     then st\<lparr>wakelocks := wakelocks booted\<rparr> else st)\<rparr>"

theorem standby_suspend_refused_witness:
  "standby_state (sys_standby_enter_s2 refusing_env booted) = STANDBY_S1 \<and>
   msg_phase (sys_standby_enter_s2 refusing_env booted) = Some True \<and>
   msg_phase (sys_standby_exit_s1 refusing_env (sys_standby_enter_s2 refusing_env booted)) = Some True"
  by (rule standby_suspend_refused) (simp_all add: quiet_def refusing_env_def calm_env_def keeps_machine_def booted_def
      locks_held_def sys_wakelocks_check_def sys_wakelock_lookup_def upt_rec)

text \<open>
  without a current application, entering S2 locks the message manager and leaving S2 does not
  unlock it.
\<close>

theorem standby_no_app_keeps_lock:
  assumes "quiet E" "standby_mode st = STANDBY_DEEP_SLEEP" "\<And>st. current_app E st = 0" "msg_phase st = Some False"
  shows "msg_phase (sys_standby_exit_s2 E (sys_standby_enter_s2 E st)) = Some True"
  using assms(2-4) emit_simps [OF assms(1)]
  by (simp add: sys_standby_enter_s2_def sys_standby_exit_s2_def Let_def alternate_append)

theorem standby_no_app_keeps_lock_witness:
  "msg_phase (sys_standby_exit_s2 (calm_env\<lparr>current_app := (\<lambda>_. 0)\<rparr>)
     (sys_standby_enter_s2 (calm_env\<lparr>current_app := (\<lambda>_. 0)\<rparr>) booted)) = Some True"
  by (rule standby_no_app_keeps_lock) (use calm_quiet in \<open>simp_all add: quiet_def booted_def\<close>)

section \<open>Wake locks keep the system awake\<close>

definition awake :: "event \<Rightarrow> bool" where
  "awake e \<longleftrightarrow> e \<noteq> Enter_deep_sleep \<and> e \<noteq> Notifier MSG_SUSPEND_APP \<and> e \<noteq> Notify_service MSG_SUSPEND_APP \<and>
     (\<forall>a. e \<noteq> Notify_app a MSG_SUSPEND_APP)"

lemma locks_only_trace: "locks_only st st' \<Longrightarrow> trace st' = trace st"
  by (simp add: locks_only_inv)

lemma exit_s2_awake:
  assumes "quiet E"
  shows "grows awake st (sys_standby_exit_s2 E st)"
  using emit_simps [OF assms] by (auto simp: sys_standby_exit_s2_def Let_def grows_def awake_def)

lemma process_s2_awake:
  assumes "quiet E" "\<And>n st. locks_held st \<Longrightarrow> locks_held (react E (Timer_start n) st)" "locks_held st"
    "sys_standby_process_s2 E st = Some (st', r)"
  shows "grows awake st st' \<and> standby_state st' \<noteq> STANDBY_S2"
proof -
  note em = emit_simps [OF assms(1)]
  let ?st0 = "start_powerdown_timer E (st\<lparr>force_standby := False\<rparr>)"
  let ?st1 = "sys_standby_exit_s2 E ?st0"
  have "locks_held ?st0" using assms(2,3) by (simp add: start_powerdown_timer_def Let_def emit_def)
  then have l: "s2_loop E ?st0 = Some ?st1" by (simp add: s2_loop_once)
  have "grows awake st ?st0" by (auto simp: start_powerdown_timer_def Let_def grows_def em awake_def)
  then have g: "grows awake st ?st1" using exit_s2_awake [OF assms(1)] grows_trans by blast
  have s: "standby_state ?st1 = STANDBY_S1" by (rule exit_s2_machine(1) [OF assms(1)])
  let ?st2 = "emit E Timer_stop ?st1"
  have g2: "grows awake st (emit E Send_power_off ?st1)" "grows awake st ?st2"
    by (rule grows_snoc [OF g em(5)], simp add: awake_def)+
  from assms(4) l consider "st' = emit E Send_power_off ?st1"
    | "lock_unlock FULL_WAKE_LOCK (sys_standby_exit_s1 E) ?st2 = Some st'"
    | "lock_unlock PARTIAL_WAKE_LOCK (\<lambda>s. s) ?st2 = Some st'"
    by (auto simp: sys_standby_process_s2_def Let_def split: if_splits)
  then show ?thesis
  proof cases
    case 1
    then show ?thesis using g2 s by (simp add: em)
  next
    case 2
    then obtain st3 where o: "locks_only ?st2 st3" "locks_only (sys_standby_exit_s1 E st3) st'"
      using lock_unlock_machine by blast
    have "trace st' = trace ?st2 @ [Pm_late_resume]" "standby_state st' = STANDBY_NORMAL"
      using locks_only_inv [OF o(1)] locks_only_inv [OF o(2)] by (simp_all add: sys_standby_exit_s1_def em)
    then show ?thesis using grows_snoc [OF g2(2)] by (simp add: awake_def)
  next
    case 3
    then obtain st3 where o: "locks_only ?st2 st3" "locks_only st3 st'" using lock_unlock_machine by blast
    have "trace st' = trace ?st2" "standby_state st' = STANDBY_S1"
      using locks_only_inv [OF o(1)] locks_only_inv [OF o(2)] s by (simp_all add: em)
    then show ?thesis using g2(2) by (simp add: grows_def)
  qed
qed

lemma process_s1_awake:
  assumes "quiet E" "locks_held st" "standby_state st = STANDBY_S1"
  shows "grows awake st (sys_standby_process_s1 E st) \<and> standby_state (sys_standby_process_s1 E st) \<noteq> STANDBY_S2"
proof -
  have "sys_standby_process_s1 E st = st \<or> sys_standby_process_s1 E st = sys_standby_exit_s1 E st"
    using assms(2) by (auto simp: sys_standby_process_s1_def locks_held_def)
  then show ?thesis using emit_simps [OF assms(1)] assms(3)
    by (auto simp: sys_standby_exit_s1_def grows_def awake_def)
qed

text \<open>
  C27: a run of the monitor work that starts while any wake lock is held suspends no application, does
  not enter deep sleep and does not bring the machine into S2 (the start of the power-down timer being
  assumed not to release locks). A lock that is taken during the run is another matter: the
  application may be told to suspend while it is held.
\<close>

theorem standby_respects_locks:
  assumes "quiet E" "\<And>n st. locks_held st \<Longrightarrow> locks_held (react E (Timer_start n) st)"
    "locks_held st" "sys_standby_work_handle E st = Some (st', r)"
  shows "grows awake st st' \<and> (standby_state st' = STANDBY_S2 \<longrightarrow> standby_state st = STANDBY_S2 \<and> auto_powerdown st')"
proof (cases "sys_standby_check_auto_powerdown E st = (st, 0)")
  case True
  note em = emit_simps [OF assms(1)]
  show ?thesis
  proof (cases "standby_state st")
    case STANDBY_S2
    then show ?thesis
      using process_s2_awake [OF assms(1-3), of st' r] assms(4) True by (simp add: sys_standby_work_handle_def)
  next
    case STANDBY_S1
    then show ?thesis
      using process_s1_awake [OF assms(1,3) STANDBY_S1] assms(4) True by (auto simp: sys_standby_work_handle_def)
  qed (use assms(4) True in \<open>auto simp: sys_standby_work_handle_def sys_standby_process_normal_def
      sys_standby_enter_s1_def em grows_def awake_def split: if_splits\<close>)
next
  case False
  then show ?thesis using assms(4) emit_simps [OF assms(1)]
    by (auto simp: sys_standby_work_handle_def sys_standby_check_auto_powerdown_def Let_def grows_def awake_def
        split: if_splits)
qed

lemma booted_locked: "locks_held booted"
  by (simp add: locks_held_def sys_wakelocks_check_def sys_wakelock_lookup_def booted_def upt_rec)

theorem standby_respects_locks_witness:
  "case sys_standby_work_handle calm_env booted of None \<Rightarrow> False
   | Some (st', r) \<Rightarrow> grows awake booted st' \<and> (standby_state st' = STANDBY_S2 \<longrightarrow>
       standby_state booted = STANDBY_S2 \<and> auto_powerdown st')"
proof -
  have "sys_standby_work_handle calm_env booted \<noteq> None"
    by (auto simp: sys_standby_work_handle_def sys_standby_check_auto_powerdown_def booted_def)
  then show ?thesis
    using standby_respects_locks [OF calm_quiet _ booted_locked] by (auto simp: calm_env_def)
qed

section \<open>The monitor work returns\<close>

text \<open>
  The components called back neither gain nor lose wake locks over a call, and leaving deep
  sleep raises \<open>wakeup_flag\<close> (\<open>_sys_standby_exit_sleep\<close> is registered for it).
\<close>

definition balanced :: "standby_env \<Rightarrow> bool" where
  "balanced E \<longleftrightarrow> (\<forall>e st. (wl_inv st \<longrightarrow> wl_inv (react E e st)) \<and> (\<forall>t. wl_held (react E e st) t = wl_held st t)) \<and>
     (\<forall>st. wakeup_flag (react E Enter_deep_sleep st))"

definition lock_safe :: "standby_context \<Rightarrow> bool" where
  "lock_safe st \<longleftrightarrow> wl_inv st \<and> (\<forall>t<2. wl_held st t < 65535)"

lemma wl_cong: "wakelocks st' = wakelocks st \<Longrightarrow> wl_inv st' = wl_inv st" "wakelocks st' = wakelocks st \<Longrightarrow> wl_held st' = wl_held st"
  by (simp_all add: wl_inv_def wl_held_def fun_eq_iff)

lemma lock_safe_cong [simp]:
  "lock_safe (st\<lparr>trace := a\<rparr>) = lock_safe st" "lock_safe (st\<lparr>standby_state := b\<rparr>) = lock_safe st"
  "lock_safe (st\<lparr>last_app := c\<rparr>) = lock_safe st" "lock_safe (st\<lparr>force_standby := d\<rparr>) = lock_safe st"
  "lock_safe (st\<lparr>wakeup_flag := e\<rparr>) = lock_safe st"
  by (simp_all add: lock_safe_def wl_inv_def wl_held_def)

lemma emit_wl:
  assumes "balanced E"
  shows "wl_inv st \<Longrightarrow> wl_inv (emit E e st)" "wl_held (emit E e st) t = wl_held st t"
proof -
  have r: "wl_inv st \<Longrightarrow> wl_inv (react E e st)" "wl_held (react E e st) t = wl_held st t" for st
    using assms by (simp_all add: balanced_def)
  have c: "wl_inv (st\<lparr>trace := trace st @ [e]\<rparr>) = wl_inv st" "wl_held (st\<lparr>trace := trace st @ [e]\<rparr>) = wl_held st"
    by (rule wl_cong, simp)+
  show "wl_inv st \<Longrightarrow> wl_inv (emit E e st)" unfolding emit_def using r(1) c(1) by blast
  show "wl_held (emit E e st) t = wl_held st t" unfolding emit_def r(2) c(2) ..
qed

lemma emit_safe: "balanced E \<Longrightarrow> lock_safe st \<Longrightarrow> lock_safe (emit E e st)"
  by (simp add: lock_safe_def emit_wl)

lemma exit_s2_safe: "balanced E \<Longrightarrow> lock_safe st \<Longrightarrow> lock_safe (sys_standby_exit_s2 E st)"
  by (simp add: sys_standby_exit_s2_def Let_def emit_safe)

lemma timer_safe: "balanced E \<Longrightarrow> lock_safe st \<Longrightarrow> lock_safe (start_powerdown_timer E st)"
  by (simp add: start_powerdown_timer_def Let_def emit_safe)

lemma s2_loop_returns:
  assumes "balanced E" "lock_safe st"
  shows "\<exists>st'. s2_loop E st = Some st' \<and> lock_safe st'"
proof (cases "locks_held st")
  case True
  then show ?thesis using exit_s2_safe [OF assms] by (simp add: s2_loop_once)
next
  case False
  let ?st = "emit E Enter_deep_sleep (st\<lparr>standby_state := STANDBY_S3, wakeup_flag := False\<rparr>)"
  have "wakeup_flag ?st" using assms(1) by (simp add: emit_def balanced_def)
  then have "wait_wakeup E ?st = Some ?st" by (subst wait_wakeup.simps) simp
  then show ?thesis using False exit_s2_safe [OF assms(1) emit_safe [OF assms(1)]] assms(2)
    by (simp add: s2_loop_once sys_standby_enter_s3_def)
qed

lemma lock_unlock_returns:
  assumes "lock_safe st" "t < 2"
    "\<And>st. wl_inv st \<Longrightarrow> wl_inv (f st)" "\<And>st. wl_held (f st) t = wl_held st t"
  shows "\<exists>st'. lock_unlock (int t) f st = Some st'"
proof -
  have s: "wl_inv st" "wl_held st t < 65535" using assms(1,2) by (simp_all add: lock_safe_def)
  let ?st1 = "upd_lock t (\<lambda>l. l\<lparr>ref_cnt := ref_cnt l + 1, free_timestamp := 0\<rparr>) st"
  have "wl_inv ?st1" "wl_held ?st1 t = wl_held st t + 1" using lock_held [OF s(1) assms(2,2) s(2)] by simp_all
  then have "wl_inv (f ?st1)" "0 < wl_held (f ?st1) t" using assms(3,4) by simp_all
  from wake_unlock_effect [OF this(1) assms(2) this(2)] show ?thesis
    by (simp add: lock_unlock_def wake_lock_effect [OF s(1) assms(2) s(2)] Let_def)
qed

lemma exit_s1_wl:
  assumes "balanced E"
  shows "wl_inv st \<Longrightarrow> wl_inv (sys_standby_exit_s1 E st)" "wl_held (sys_standby_exit_s1 E st) t = wl_held st t"
proof -
  let ?st = "st\<lparr>standby_state := STANDBY_NORMAL, wakeup_timestamp := uptime st\<rparr>"
  have "wl_inv ?st = wl_inv st" "wl_held ?st = wl_held st" by (rule wl_cong, simp)+
  then show "wl_inv st \<Longrightarrow> wl_inv (sys_standby_exit_s1 E st)" "wl_held (sys_standby_exit_s1 E st) t = wl_held st t"
    using emit_wl [OF assms] by (simp_all add: sys_standby_exit_s1_def)
qed

text \<open>
  the monitor work always returns, also through deep sleep, provided leaving deep sleep
  raises the wake-up flag, the wake lock counters are not at their limit and the
  components called back are balanced in their wake locks.
\<close>

theorem standby_work_returns:
  assumes "balanced E" "lock_safe st"
  shows "\<exists>st' r. sys_standby_work_handle E st = Some (st', r)"
proof -
  have s2: "\<exists>st' r. sys_standby_process_s2 E st1 = Some (st', r)" if s: "lock_safe st1" for st1
  proof -
    obtain st2 where l: "s2_loop E (start_powerdown_timer E (st1\<lparr>force_standby := False\<rparr>)) = Some st2" "lock_safe st2"
      using s2_loop_returns [OF assms(1) timer_safe [OF assms(1), of "st1\<lparr>force_standby := False\<rparr>"]] s by auto
    then have "lock_safe (emit E Timer_stop st2)" using emit_safe [OF assms(1)] by simp
    from lock_unlock_returns [OF this, of 0 "\<lambda>s. s"] lock_unlock_returns [OF this, of 1 "sys_standby_exit_s1 E"]
    show ?thesis using l(1) exit_s1_wl [OF assms(1)] by (auto simp: sys_standby_process_s2_def Let_def)
  qed
  then show ?thesis using assms(2)
    by (auto simp: sys_standby_work_handle_def sys_standby_check_auto_powerdown_def split: standby_level.splits)
qed

lemma calm_balanced: "balanced calm_env"
proof -
  have "wl_inv (st\<lparr>wakeup_flag := True\<rparr>) = wl_inv st" "wl_held (st\<lparr>wakeup_flag := True\<rparr>) = wl_held st" for st :: standby_context
    by (rule wl_cong, simp)+
  then show ?thesis by (simp add: balanced_def calm_env_def sys_standby_exit_sleep_def)
qed

theorem standby_work_returns_witness:
  "\<exists>st' r. sys_standby_work_handle calm_env (booted\<lparr>standby_state := STANDBY_S2\<rparr>) = Some (st', r)"
  by (rule standby_work_returns [OF calm_balanced])
    (simp add: lock_safe_def wl_inv_def wl_held_def booted_def less_2_cases_iff all_conj_distrib)

text \<open>
  the power-down timer is started with a negative duration whenever between 2147484 and 4294967
  milliseconds are left (about 36 to 71 minutes): the product with 1000 does not fit in 32 signed bits.
\<close>

theorem standby_timer_overflow:
  assumes "free_time st FULL_WAKE_LOCK = free_time st PARTIAL_WAKE_LOCK"
    "unat (auto_powerdown_time st - free_time st FULL_WAKE_LOCK) = t" "2147484 \<le> t" "t \<le> 4294967"
    "auto_powerdown_time st \<noteq> - 1"
  shows "\<exists>d. start_powerdown_timer E st = emit E (Timer_start d) st \<and> d < 0"
proof -
  define x where "x = auto_powerdown_time st - free_time st FULL_WAKE_LOCK"
  have t: "unat x = t" using assms(2) by (simp add: x_def)
  have "0 <s x" using t assms(3,4) by (subst sless_0_u32) auto
  moreover have "sint (x * 1000) < 0"
  proof -
    have "unat (x * 1000) = t * 1000"
      using t assms(4) by (simp add: unat_word_ariths)
    then have u: "uint (x * 1000) = int t * 1000" by (metis int_ops(7) of_nat_numeral uint_nat)
    have "(int t * 1000 + 2147483648) mod 4294967296 = int t * 1000 - 2147483648"
      using assms(3,4) mod_pos_pos_trivial [of "int t * 1000 - 2147483648" 4294967296]
        mod_add_self2 [of "int t * 1000 - 2147483648" 4294967296] by (simp add: add.commute)
    then have "sint (x * 1000) = int t * 1000 - 4294967296"
      unfolding sint_uint u by (simp add: signed_take_bit_eq_take_bit_shift take_bit_eq_mod)
    then show ?thesis using assms(4) by simp
  qed
  ultimately show ?thesis using assms(1,5) by (auto simp: start_powerdown_timer_def Let_def x_def)
qed

theorem standby_timer_overflow_witness:
  "\<exists>d. start_powerdown_timer calm_env (booted\<lparr>auto_powerdown_time := 3600000\<rparr>) =
     emit calm_env (Timer_start d) (booted\<lparr>auto_powerdown_time := 3600000\<rparr>) \<and> d < 0"
  by (rule standby_timer_overflow [where t = 3600000])
    (simp_all add: free_time_def sys_wakelocks_get_free_time_def sys_wakelock_lookup_def booted_def upt_rec)

end
