(* ===== verification/Led_Layer.thy ===== *)
theory Led_Layer
  imports Prelude
begin

text \<open>
  The LED layers of \<^verbatim>\<open>src/application/bt_earphone/src/libsrc/led_display/led_layer.c\<close> with the region
  functions of \<^verbatim>\<open>libsrc/include/led_display.h\<close>. A region is a bit mask of LEDs; the layers form a
  list from front to back, and a layer hides the LEDs of its region from the layers behind it.
  The doubly linked list of the code is a list of layer records, a layer being found by its id.
\<close>

unbundle bit_operations_syntax

section \<open>Model\<close>

type_synonym led_region = u32

abbreviation LED_REGION_NONE :: led_region where "LED_REGION_NONE \<equiv> 0"
abbreviation LED_REGION_ALL_LEDS :: led_region where "LED_REGION_ALL_LEDS \<equiv> 0xFF"

abbreviation LED_LAYER_CHARGER :: u8 where "LED_LAYER_CHARGER \<equiv> 0"
abbreviation LED_LAYER_SYS_NOTIFY :: u8 where "LED_LAYER_SYS_NOTIFY \<equiv> 1"
abbreviation LED_LAYER_BT :: u8 where "LED_LAYER_BT \<equiv> 2"
abbreviation LED_LAYER_BT_MANAGER :: u8 where "LED_LAYER_BT_MANAGER \<equiv> 3"
abbreviation LED_LAYER_MAX :: nat where "LED_LAYER_MAX \<equiv> 4"

record led_layer =
  region :: led_region
  layer_order :: u8
  layer_id :: u8
  led_model_id :: u8
  disp_leds :: u16

record led_display_context =
  layer_list :: "led_layer list"
  update_region :: led_region

definition led_region_clip :: "led_region \<Rightarrow> led_region \<Rightarrow> led_region" where
  "led_region_clip region1 region2 = region1 AND NOT region2"

definition led_region_intersect :: "led_region \<Rightarrow> led_region \<Rightarrow> led_region" where
  "led_region_intersect region1 region2 = region1 AND region2"

definition led_region_merge :: "led_region \<Rightarrow> led_region \<Rightarrow> led_region" where
  "led_region_merge region1 region2 = region1 OR region2"

definition led_region_valid :: "led_region \<Rightarrow> bool" where
  "led_region_valid r \<longleftrightarrow> r \<noteq> 0"

text \<open>The user interface events that \<open>led_get_layer_id\<close> tells apart; the events of the sample cases
  (\<open>CONFIG_SAMPLE_CASE_1\<close>, \<open>CONFIG_SAMPLE_CASE_XNT\<close>) depend on the configuration.\<close>

datatype ui_event =
    UI_EVENT_CUSTOMED_8 | UI_EVENT_CUSTOMED_9 | UI_EVENT_STANDBY | UI_EVENT_BATTERY_LOW | UI_EVENT_BATTERY_LOW_EX
  | UI_EVENT_BATTERY_TOO_LOW | UI_EVENT_REPEAT_BAT_LOW | UI_EVENT_CHARGE_START | UI_EVENT_CHARGE_STOP
  | UI_EVENT_CHARGE_FULL | UI_EVENT_FRONT_CHARGE_POWON
  | UI_EVENT_BT_CALL_OUTGOING | UI_EVENT_BT_CALL_INCOMING | UI_EVENT_BT_CALL_3WAYIN | UI_EVENT_BT_CALL_ONGOING
  | UI_EVENT_BT_MUSIC_PAUSE | UI_EVENT_BT_MUSIC_PLAY | UI_EVENT_VOICE_ASSIST_START | UI_EVENT_BT_MUSIC_DISP_NONE
  | UI_EVENT_BT_CALL_DISP_NONE | UI_EVENT_MIC_MUTE_ON | UI_EVENT_MIC_MUTE_OFF
  | UI_EVENT_CUSTOMED_1 | UI_EVENT_CUSTOMED_2 | UI_EVENT_CUSTOMED_3 | UI_EVENT_CUSTOMED_4 | UI_EVENT_CUSTOMED_5
  | UI_EVENT_CUSTOMED_6
  | UI_EVENT_BT_UNLINKED | UI_EVENT_ENTER_PAIR_MODE | UI_EVENT_TWS_WAIT_PAIR | UI_EVENT_TWS_CONNECTED
  | UI_EVENT_BT_CONNECTED | UI_EVENT_BT_WAIT_CONNECT | UI_EVENT_ENTER_BQB_TEST_MODE
  | UI_EVENT_BT_CONNECTED_USB | UI_EVENT_BT_DISCONNECTED_USB | UI_EVENT_BT_CONNECTED_BR
  | UI_EVENT_BT_DISCONNECTED_BR | UI_EVENT_ENTER_PAIRING_MODE
  | UI_EVENT_OTHER int

definition led_get_layer_id :: "bool \<Rightarrow> ui_event \<Rightarrow> u8" where
  "led_get_layer_id sample_case ev =
     (if ev \<in> {UI_EVENT_CUSTOMED_8, UI_EVENT_CUSTOMED_9, UI_EVENT_STANDBY, UI_EVENT_BATTERY_LOW, UI_EVENT_BATTERY_LOW_EX,
               UI_EVENT_BATTERY_TOO_LOW, UI_EVENT_REPEAT_BAT_LOW, UI_EVENT_CHARGE_START, UI_EVENT_CHARGE_STOP,
               UI_EVENT_CHARGE_FULL, UI_EVENT_FRONT_CHARGE_POWON}
      then LED_LAYER_CHARGER
      else if ev \<in> {UI_EVENT_MIC_MUTE_ON, UI_EVENT_MIC_MUTE_OFF} \<or>
         (\<not> sample_case \<and> ev \<in> {UI_EVENT_BT_CALL_OUTGOING, UI_EVENT_BT_CALL_INCOMING, UI_EVENT_BT_CALL_3WAYIN,
            UI_EVENT_BT_CALL_ONGOING, UI_EVENT_BT_MUSIC_PAUSE, UI_EVENT_BT_MUSIC_PLAY, UI_EVENT_VOICE_ASSIST_START,
            UI_EVENT_BT_MUSIC_DISP_NONE, UI_EVENT_BT_CALL_DISP_NONE}) \<or>
         (sample_case \<and> ev \<in> {UI_EVENT_CUSTOMED_1, UI_EVENT_CUSTOMED_2, UI_EVENT_CUSTOMED_3, UI_EVENT_CUSTOMED_4,
            UI_EVENT_CUSTOMED_5, UI_EVENT_CUSTOMED_6})
      then LED_LAYER_BT
      else if ev \<in> {UI_EVENT_BT_UNLINKED, UI_EVENT_ENTER_PAIR_MODE, UI_EVENT_TWS_WAIT_PAIR, UI_EVENT_TWS_CONNECTED,
            UI_EVENT_BT_CONNECTED, UI_EVENT_BT_WAIT_CONNECT, UI_EVENT_ENTER_BQB_TEST_MODE} \<or>
         (sample_case \<and> ev \<in> {UI_EVENT_BT_CONNECTED_USB, UI_EVENT_BT_DISCONNECTED_USB, UI_EVENT_BT_CONNECTED_BR,
            UI_EVENT_BT_DISCONNECTED_BR, UI_EVENT_ENTER_PAIRING_MODE})
      then LED_LAYER_BT_MANAGER
      else LED_LAYER_SYS_NOTIFY)"

definition led_layer_get_context :: "led_display_context \<Rightarrow> u8 \<Rightarrow> led_layer option" where
  "led_layer_get_context d lid = List.find (\<lambda>t. layer_id t = lid) (layer_list d)"

text \<open>An update of the layer \<open>led_layer_get_context\<close> finds, the first one with the id.\<close>

fun upd_first :: "u8 \<Rightarrow> (led_layer \<Rightarrow> led_layer) \<Rightarrow> led_layer list \<Rightarrow> led_layer list" where
  "upd_first lid f [] = []"
| "upd_first lid f (t # ts) = (if layer_id t = lid then f t # ts else t # upd_first lid f ts)"

definition upd_layer :: "u8 \<Rightarrow> (led_layer \<Rightarrow> led_layer) \<Rightarrow> led_display_context \<Rightarrow> led_display_context" where
  "upd_layer lid f d = d\<lparr>layer_list := upd_first lid f (layer_list d)\<rparr>"

text \<open>The loop of \<open>led_layer_need_update\<close> that clips the region by the layers in front; \<open>None\<close> when
  nothing is left.\<close>

fun clip_by_front :: "u8 \<Rightarrow> led_region \<Rightarrow> led_layer list \<Rightarrow> led_region option" where
  "clip_by_front lid r [] = Some r"
| "clip_by_front lid r (t # ts) =
     (if layer_id t = lid then Some r
      else let r' = led_region_clip r (region t)
           in if \<not> led_region_valid r' then None else clip_by_front lid r' ts)"

definition led_layer_need_update :: "u8 \<Rightarrow> led_region \<Rightarrow> led_display_context \<Rightarrow> led_display_context" where
  "led_layer_need_update lid r d =
     (case led_layer_get_context d lid of
        None \<Rightarrow> d
      | Some layer \<Rightarrow>
          let r1 = led_region_intersect r (region layer)
          in if \<not> led_region_valid r1 then d
             else case clip_by_front lid r1 (layer_list d) of
                    None \<Rightarrow> d
                  | Some r2 \<Rightarrow> d\<lparr>update_region := led_region_merge (update_region d) r2\<rparr>)"

fun need_update_loop :: "led_layer list \<Rightarrow> led_region \<Rightarrow> led_display_context \<Rightarrow> led_display_context" where
  "need_update_loop [] r d = d"
| "need_update_loop (t # ts) r d =
     (let d' = led_layer_need_update (layer_id t) r d; r' = led_region_clip r (region t)
      in if \<not> led_region_valid r' then d' else need_update_loop ts r' d')"

definition led_layer_need_update_all :: "led_region \<Rightarrow> led_display_context \<Rightarrow> led_display_context" where
  "led_layer_need_update_all r d = need_update_loop (layer_list d) r d"

definition led_layer_set_region :: "u8 \<Rightarrow> led_region \<Rightarrow> led_display_context \<Rightarrow> led_display_context \<times> bool" where
  "led_layer_set_region lid r d =
     (case led_layer_get_context d lid of
        None \<Rightarrow> (d, False)
      | Some layer \<Rightarrow>
          (led_layer_need_update_all (led_region_merge (region layer) r) (upd_layer lid (\<lambda>t. t\<lparr>region := r\<rparr>) d), True))"

text \<open>Insertion before the first layer of an order not above the new one, else at the end.\<close>

fun led_layer_add_list :: "led_layer \<Rightarrow> led_layer list \<Rightarrow> led_layer list" where
  "led_layer_add_list layer [] = [layer]"
| "led_layer_add_list layer (pos # ts) =
     (if layer_order pos \<le> layer_order layer then layer # pos # ts else pos # led_layer_add_list layer ts)"

fun led_layer_get_index :: "u8 \<Rightarrow> led_layer list \<Rightarrow> nat" where
  "led_layer_get_index lid [] = 0"
| "led_layer_get_index lid (t # ts) = (if layer_id t = lid then 0 else Suc (led_layer_get_index lid ts))"

fun remove_first :: "u8 \<Rightarrow> led_layer list \<Rightarrow> led_layer list" where
  "remove_first lid [] = []"
| "remove_first lid (t # ts) = (if layer_id t = lid then ts else t # remove_first lid ts)"

definition led_layer_set_order :: "u8 \<Rightarrow> u32 \<Rightarrow> led_display_context \<Rightarrow> led_display_context \<times> bool" where
  "led_layer_set_order lid order d =
     (case led_layer_get_context d lid of
        None \<Rightarrow> (d, False)
      | Some layer \<Rightarrow>
          let layer' = layer\<lparr>layer_order := ucast order\<rparr>;
              d' = d\<lparr>layer_list := led_layer_add_list layer' (remove_first lid (layer_list d))\<rparr>
          in (if led_layer_get_index lid (layer_list d') \<noteq> led_layer_get_index lid (layer_list d)
              then led_layer_need_update_all (region layer') d' else d', True))"

text \<open>\<open>None\<close> when the allocation of the id array fails: the number of layers is then never set.\<close>

definition led_layer_get_list :: "bool \<Rightarrow> led_display_context \<Rightarrow> u8 list option" where
  "led_layer_get_list malloc_ok d =
     (if layer_list d = [] then Some [] else if \<not> malloc_ok then None else Some (map layer_id (layer_list d)))"

definition led_layer_create :: "bool \<Rightarrow> u8 \<Rightarrow> led_display_context \<Rightarrow> led_display_context \<times> bool" where
  "led_layer_create malloc_ok lid d =
     (if \<not> malloc_ok then (d, False)
      else (d\<lparr>layer_list := led_layer_add_list
               \<lparr>region = 0, layer_order = 0, layer_id = lid, led_model_id = 0, disp_leds = 0\<rparr> (layer_list d)\<rparr>, True))"

definition led_layer_delete :: "u8 \<Rightarrow> led_display_context \<Rightarrow> led_display_context \<times> bool" where
  "led_layer_delete lid d = (d\<lparr>layer_list := remove_first lid (layer_list d)\<rparr>, True)"

section \<open>The order of the layers\<close>

text \<open>
  The layers are sorted from high to low order and their ids are distinct. Every operation on the
  list keeps this.
\<close>

definition layers_ok :: "led_layer list \<Rightarrow> bool" where
  "layers_ok ts \<longleftrightarrow> sorted_wrt (\<lambda>a b. layer_order b \<le> layer_order a) ts \<and> distinct (map layer_id ts)"

lemma set_add_list [simp]: "set (led_layer_add_list x ts) = insert x (set ts)"
  by (induction ts) auto

lemma add_list_sorted:
  "sorted_wrt (\<lambda>a b. layer_order b \<le> layer_order a) ts \<Longrightarrow>
   sorted_wrt (\<lambda>a b. layer_order b \<le> layer_order a) (led_layer_add_list x ts)"
  by (induction ts) (auto intro: order_trans)

lemma add_list_ids: "distinct (map layer_id ts) \<Longrightarrow> layer_id x \<notin> layer_id ` set ts \<Longrightarrow>
    distinct (map layer_id (led_layer_add_list x ts))"
  by (induction ts) auto

lemma set_remove_first: "set (remove_first lid ts) \<subseteq> set ts"
  by (induction ts) auto

lemma remove_first_ids: "distinct (map layer_id ts) \<Longrightarrow> layer_id ` set (remove_first lid ts) = layer_id ` set ts - {lid}"
proof (induction ts)
  case (Cons t ts)
  then show ?case by (cases "layer_id t = lid") auto
qed simp

lemma remove_first_ok: "layers_ok ts \<Longrightarrow> layers_ok (remove_first lid ts)"
proof (induction ts)
  case (Cons t ts)
  then show ?case using set_remove_first [of lid ts] by (force simp: layers_ok_def)
qed (simp add: layers_ok_def)

lemma add_list_ok: "layers_ok ts \<Longrightarrow> layer_id x \<notin> layer_id ` set ts \<Longrightarrow> layers_ok (led_layer_add_list x ts)"
  by (simp add: layers_ok_def add_list_sorted add_list_ids)

lemma upd_first_ids [simp]: "(\<And>t. layer_id (f t) = layer_id t) \<Longrightarrow> map layer_id (upd_first lid f ts) = map layer_id ts"
  by (induction ts) auto

lemma upd_first_orders [simp]:
  "(\<And>t. layer_order (f t) = layer_order t) \<Longrightarrow> map layer_order (upd_first lid f ts) = map layer_order ts"
  by (induction ts) auto

lemma layers_ok_map: "layers_ok ts \<longleftrightarrow> sorted_wrt (\<lambda>a b. b \<le> a) (map layer_order ts) \<and> distinct (map layer_id ts)"
  by (simp add: layers_ok_def sorted_wrt_map)

lemma upd_first_ok:
  assumes "layers_ok ts" "\<And>t. layer_id (f t) = layer_id t" "\<And>t. layer_order (f t) = layer_order t"
  shows "layers_ok (upd_first lid f ts)"
  using assms by (simp add: layers_ok_map)

lemma find_layer_id: "List.find (\<lambda>t. layer_id t = lid) ts = Some t \<Longrightarrow> t \<in> set ts \<and> layer_id t = lid"
  by (auto simp: find_Some_iff)

lemma layer_in_context: "led_layer_get_context d lid = Some t \<Longrightarrow> t \<in> set (layer_list d) \<and> layer_id t = lid"
  unfolding led_layer_get_context_def by (rule find_layer_id)

section \<open>What an update covers\<close>

text \<open>The LEDs covered by some layer of a list.\<close>

fun covered :: "led_layer list \<Rightarrow> led_region" where
  "covered [] = 0"
| "covered (t # ts) = region t OR covered ts"

lemma covered_append [simp]: "covered (ts @ us) = covered ts OR covered us"
  by (induction ts) (simp_all add: or.assoc)

lemma bit_covered: "bit (covered ts) n \<longleftrightarrow> (\<exists>t\<in>set ts. bit (region t) n)"
  by (induction ts) (auto simp: bit_or_iff)

lemmas region_defs = led_region_clip_def led_region_intersect_def led_region_merge_def led_region_valid_def

lemma region_alg:
  fixes a b c :: u32
  shows "(a AND NOT b) AND NOT c = a AND NOT (b OR c)" "a AND (b OR c) = (a AND b) OR (a AND c)"
    "(a AND NOT b) AND b = 0"
  by (rule bit_eqI; auto simp: bit_and_iff bit_or_iff bit_not_iff)+

lemma disjoint_bits:
  fixes a b :: u32
  assumes "a AND b = 0" "bit a n"
  shows "\<not> bit b n"
proof
  assume "bit b n"
  then have "bit (a AND b) n" using assms(2) by (simp add: bit_and_iff)
  then show False unfolding assms(1) by simp
qed

lemma clip_value:
  assumes "lid \<notin> layer_id ` set fs" "layer_id t = lid"
  shows "(case clip_by_front lid r (fs @ t # bs) of None \<Rightarrow> 0 | Some x \<Rightarrow> x) = r AND NOT (covered fs)"
  using assms
proof (induction fs arbitrary: r)
  case Nil
  then show ?case by simp
next
  case (Cons a fs)
  let ?r = "r AND NOT (region a)"
  have v: "?r AND NOT (covered fs) = r AND NOT (covered (a # fs))" by (simp add: region_alg(1))
  show ?case
  proof (cases "?r = 0")
    case True
    then have "r AND NOT (covered (a # fs)) = 0" unfolding v [symmetric] by simp
    then show ?thesis using Cons.prems True by (auto simp: region_defs Let_def)
  next
    case False
    then show ?thesis using Cons.prems Cons.IH [of ?r] unfolding v [symmetric]
      by (auto simp: region_defs Let_def)
  qed
qed

lemma find_split:
  assumes "lid \<notin> layer_id ` set fs" "layer_id t = lid"
  shows "List.find (\<lambda>t. layer_id t = lid) (fs @ t # bs) = Some t"
  using assms by (induction fs) auto

text \<open>The part of \<open>r\<close> that lies on the layer and is not hidden by the layers in front of it.\<close>

lemma need_update_effect:
  assumes "layer_list d = fs @ t # bs" "lid \<notin> layer_id ` set fs" "layer_id t = lid"
  shows "update_region (led_layer_need_update lid r d) = update_region d OR (r AND region t AND NOT (covered fs))"
    "layer_list (led_layer_need_update lid r d) = layer_list d"
proof -
  have c: "led_layer_get_context d lid = Some t"
    using find_split [OF assms(2,3)] assms(1) by (simp add: led_layer_get_context_def)
  note v = clip_value [OF assms(2,3), of "r AND region t" bs]
  show "update_region (led_layer_need_update lid r d) = update_region d OR (r AND region t AND NOT (covered fs))"
  proof (cases "r AND region t = 0")
    case True
    then show ?thesis using c by (simp add: led_layer_need_update_def region_defs and.assoc [symmetric])
  next
    case False
    then show ?thesis using c v
      by (cases "clip_by_front lid (r AND region t) (fs @ t # bs)")
        (simp_all add: led_layer_need_update_def region_defs assms(1) Let_def and.assoc)
  qed
  show "layer_list (led_layer_need_update lid r d) = layer_list d"
    using c by (simp add: led_layer_need_update_def Let_def split: option.split)
qed

lemma need_update_loop_effect:
  assumes "layer_list d = fs @ ts" "distinct (map layer_id (layer_list d))" "r AND covered fs = 0"
  shows "update_region (need_update_loop ts r d) = update_region d OR (r AND covered ts) \<and>
    layer_list (need_update_loop ts r d) = layer_list d"
  using assms
proof (induction ts arbitrary: fs r d)
  case Nil
  then show ?case by simp
next
  case (Cons t ts)
  let ?d = "led_layer_need_update (layer_id t) r d" and ?r = "r AND NOT (region t)"
  have front: "layer_id t \<notin> layer_id ` set fs" using Cons.prems(1,2) by auto
  have "r AND region t AND NOT (covered fs) = r AND region t"
    using disjoint_bits [OF Cons.prems(3)]
    by (auto intro!: bit_eqI simp: bit_and_iff bit_not_iff dest: bit_imp_le_length)
  then have d: "update_region ?d = update_region d OR (r AND region t)" "layer_list ?d = layer_list d"
    using need_update_effect [OF Cons.prems(1) front refl, of r] by simp_all
  have e: "(r AND region t) OR (?r AND covered ts) = r AND covered (t # ts)"
    by (rule bit_eqI) (auto simp: bit_and_iff bit_or_iff bit_not_iff)
  show ?case
  proof (cases "?r = 0")
    case True
    then have "r AND region t = r AND covered (t # ts)" using e by simp
    then show ?thesis using True d by (simp add: region_defs Let_def)
  next
    case False
    have "?r AND covered (fs @ [t]) = 0"
      using disjoint_bits [OF Cons.prems(3)]
      by (auto intro!: bit_eqI simp: bit_and_iff bit_or_iff bit_not_iff)
    then have "update_region (need_update_loop ts ?r ?d) = update_region ?d OR (?r AND covered ts) \<and>
        layer_list (need_update_loop ts ?r ?d) = layer_list ?d"
      using Cons.prems d by (intro Cons.IH [of _ "fs @ [t]"]) simp_all
    then show ?thesis using False d e by (simp add: region_defs Let_def or.assoc)
  qed
qed

lemma need_update_all_effect:
  assumes "distinct (map layer_id (layer_list d))"
  shows "update_region (led_layer_need_update_all r d) = update_region d OR (r AND covered (layer_list d))"
    "layer_list (led_layer_need_update_all r d) = layer_list d"
  using need_update_loop_effect [of d "[]" "layer_list d" r] assms by (simp_all add: led_layer_need_update_all_def)

text \<open>Operations of the list keep its order and the ids.\<close>

lemma set_region_ok:
  assumes "layers_ok (layer_list d)"
  shows "layers_ok (layer_list (fst (led_layer_set_region lid r d)))"
    "map layer_id (layer_list (fst (led_layer_set_region lid r d))) = map layer_id (layer_list d)"
proof -
  let ?d = "upd_layer lid (\<lambda>t. t\<lparr>region := r\<rparr>) d"
  have ok: "layers_ok (layer_list ?d)" using assms by (simp add: upd_layer_def upd_first_ok)
  then have "layer_list (led_layer_need_update_all x ?d) = layer_list ?d" for x
    by (intro need_update_all_effect) (simp add: layers_ok_def)
  then show "layers_ok (layer_list (fst (led_layer_set_region lid r d)))"
    "map layer_id (layer_list (fst (led_layer_set_region lid r d))) = map layer_id (layer_list d)"
    using ok assms by (simp_all add: led_layer_set_region_def upd_layer_def split: option.split)
qed

lemma add_list_split:
  assumes "sorted_wrt (\<lambda>a b. layer_order b \<le> layer_order a) ts"
  shows "\<exists>fs bs. led_layer_add_list x ts = fs @ x # bs \<and> ts = fs @ bs \<and>
    (\<forall>y\<in>set fs. layer_order x < layer_order y) \<and> (\<forall>y\<in>set bs. layer_order y \<le> layer_order x)"
  using assms
proof (induction ts)
  case Nil
  then show ?case by simp
next
  case (Cons t ts)
  show ?case
  proof (cases "layer_order t \<le> layer_order x")
    case True
    then show ?thesis using Cons.prems by (intro exI [of _ "[]"] exI [of _ "t # ts"]) (auto intro: order_trans)
  next
    case False
    obtain fs bs where s: "led_layer_add_list x ts = fs @ x # bs" "ts = fs @ bs"
        "\<forall>y\<in>set fs. layer_order x < layer_order y" "\<forall>y\<in>set bs. layer_order y \<le> layer_order x"
      using Cons by auto
    show ?thesis using s False by (intro exI [of _ "t # fs"] exI [of _ bs]) auto
  qed
qed

lemma set_order_effect:
  assumes "layers_ok (layer_list d)" "led_layer_get_context d lid = Some t"
  shows "\<exists>d' fs bs. led_layer_set_order lid order d = (d', True) \<and> layers_ok (layer_list d') \<and>
    layer_list d' = fs @ t\<lparr>layer_order := ucast order\<rparr> # bs \<and> fs @ bs = remove_first lid (layer_list d) \<and>
    (\<forall>x\<in>set fs. ucast order < layer_order x) \<and> (\<forall>x\<in>set bs. layer_order x \<le> ucast order)"
proof -
  let ?t = "t\<lparr>layer_order := ucast order\<rparr>" and ?ts = "remove_first lid (layer_list d)"
  let ?d = "d\<lparr>layer_list := led_layer_add_list ?t ?ts\<rparr>"
  have rest: "layers_ok ?ts" by (rule remove_first_ok [OF assms(1)])
  have "layer_id ?t \<notin> layer_id ` set ?ts"
    using assms(1) layer_in_context [OF assms(2)] by (simp add: layers_ok_def remove_first_ids)
  then have ok: "layers_ok (led_layer_add_list ?t ?ts)" by (rule add_list_ok [OF rest])
  obtain fs bs where s: "led_layer_add_list ?t ?ts = fs @ ?t # bs" "?ts = fs @ bs"
      "\<forall>y\<in>set fs. layer_order ?t < layer_order y" "\<forall>y\<in>set bs. layer_order y \<le> layer_order ?t"
    using add_list_split [of ?ts ?t] rest by (auto simp: layers_ok_def)
  have "layer_list (led_layer_need_update_all (region ?t) ?d) = layer_list ?d"
    using ok by (intro need_update_all_effect) (simp add: layers_ok_def)
  then have "layer_list (fst (led_layer_set_order lid order d)) = layer_list ?d" "snd (led_layer_set_order lid order d)"
    using assms(2) by (simp_all add: led_layer_set_order_def Let_def)
  then show ?thesis using ok s by (intro exI [of _ "fst (led_layer_set_order lid order d)"] exI [of _ fs] exI [of _ bs])
      (simp add: prod_eq_iff)
qed

lemma set_order_ok:
  assumes "layers_ok (layer_list d)"
  shows "layers_ok (layer_list (fst (led_layer_set_order lid order d)))"
    "set (map layer_id (layer_list (fst (led_layer_set_order lid order d)))) = set (map layer_id (layer_list d))"
proof -
  have "layers_ok (layer_list (fst (led_layer_set_order lid order d))) \<and>
      layer_id ` set (layer_list (fst (led_layer_set_order lid order d))) = layer_id ` set (layer_list d)"
  proof (cases "led_layer_get_context d lid")
    case None
    then show ?thesis using assms by (simp add: led_layer_set_order_def)
  next
    case (Some t)
    obtain d' fs bs where o: "led_layer_set_order lid order d = (d', True)" "layers_ok (layer_list d')"
        "layer_list d' = fs @ t\<lparr>layer_order := ucast order\<rparr> # bs" "fs @ bs = remove_first lid (layer_list d)"
      using set_order_effect [OF assms Some, of order] by blast
    have "layer_id ` (set fs \<union> set bs) = layer_id ` set (layer_list d) - {lid}"
      using o(4) remove_first_ids [of "layer_list d" lid] assms by (metis layers_ok_def set_append)
    then show ?thesis using o layer_in_context [OF Some] by (auto simp: image_Un)
  qed
  then show "layers_ok (layer_list (fst (led_layer_set_order lid order d)))"
    "set (map layer_id (layer_list (fst (led_layer_set_order lid order d)))) = set (map layer_id (layer_list d))"
    by simp_all
qed

text \<open>
  giving a layer an order moves it behind exactly the layers of higher order; the other layers
  keep their places, no layer is lost or duplicated, and the list stays sorted.
\<close>

theorem led_set_order_spec:
  assumes "layers_ok (layer_list d)" "led_layer_get_context d lid = Some t"
  shows "\<exists>d' fs bs. led_layer_set_order lid order d = (d', True) \<and> layers_ok (layer_list d') \<and>
    layer_list d' = fs @ t\<lparr>layer_order := ucast order\<rparr> # bs \<and> fs @ bs = remove_first lid (layer_list d) \<and>
    (\<forall>x\<in>set fs. ucast order < layer_order x) \<and> (\<forall>x\<in>set bs. layer_order x \<le> ucast order)"
  by (rule set_order_effect [OF assms])

definition ex_layer :: "u8 \<Rightarrow> u8 \<Rightarrow> led_region \<Rightarrow> led_layer" where
  "ex_layer lid order r = \<lparr>region = r, layer_order = order, layer_id = lid, led_model_id = 0, disp_leds = 0\<rparr>"

definition ex_display :: led_display_context where
  "ex_display = \<lparr>layer_list = [ex_layer 2 9 1, ex_layer 0 5 3, ex_layer 1 4 6], update_region = 0\<rparr>"

lemma ex_display_ok: "layers_ok (layer_list ex_display)"
  by (simp add: layers_ok_def ex_display_def ex_layer_def)

theorem led_set_order_spec_witness:
  "\<exists>d' fs bs. led_layer_set_order 1 7 ex_display = (d', True) \<and> layers_ok (layer_list d') \<and>
    layer_list d' = fs @ (ex_layer 1 4 6)\<lparr>layer_order := ucast (7 :: u32)\<rparr> # bs \<and>
    fs @ bs = remove_first 1 (layer_list ex_display) \<and>
    (\<forall>x\<in>set fs. ucast (7 :: u32) < layer_order x) \<and> (\<forall>x\<in>set bs. layer_order x \<le> ucast (7 :: u32))"
  by (rule led_set_order_spec [OF ex_display_ok])
    (simp add: led_layer_get_context_def ex_display_def ex_layer_def)

text \<open>
  changing the region of a layer marks for update exactly those LEDs of its old and new region
  that some layer covers afterwards, in addition to what was marked before.
\<close>

theorem led_set_region_marks:
  assumes "layers_ok (layer_list d)" "led_layer_get_context d lid = Some t"
  shows "\<exists>d'. led_layer_set_region lid r d = (d', True) \<and> layers_ok (layer_list d') \<and>
    (\<forall>n. bit (update_region d') n \<longleftrightarrow> bit (update_region d) n \<or>
       (bit (region t) n \<or> bit r n) \<and> (\<exists>x\<in>set (layer_list d'). bit (region x) n))"
proof -
  let ?d = "upd_layer lid (\<lambda>t. t\<lparr>region := r\<rparr>) d"
  let ?d' = "led_layer_need_update_all (led_region_merge (region t) r) ?d"
  have ok: "layers_ok (layer_list ?d)" using assms(1) by (simp add: upd_layer_def upd_first_ok)
  then have "distinct (map layer_id (layer_list ?d))" by (simp add: layers_ok_def)
  note e = need_update_all_effect [OF this]
  have u: "update_region ?d = update_region d" by (simp add: upd_layer_def)
  have "led_layer_set_region lid r d = (?d', True)" using assms(2) by (simp add: led_layer_set_region_def)
  moreover have "bit (update_region ?d') n \<longleftrightarrow> bit (update_region d) n \<or>
       (bit (region t) n \<or> bit r n) \<and> (\<exists>x\<in>set (layer_list ?d'). bit (region x) n)" for n
    unfolding e u by (simp add: bit_or_iff bit_and_iff bit_covered led_region_merge_def)
  ultimately show ?thesis using ok e(2) by auto
qed

theorem led_set_region_marks_witness:
  "\<exists>d'. led_layer_set_region 1 4 ex_display = (d', True) \<and> layers_ok (layer_list d') \<and>
    (\<forall>n. bit (update_region d') n \<longleftrightarrow> bit (update_region ex_display) n \<or>
       (bit (region (ex_layer 1 4 6)) n \<or> bit (4 :: u32) n) \<and> (\<exists>x\<in>set (layer_list d'). bit (region x) n))"
  by (rule led_set_region_marks [OF ex_display_ok])
    (simp add: led_layer_get_context_def ex_display_def ex_layer_def)

end
