(* ===== verification/Led_Ctrl.thy ===== *)
theory Led_Ctrl
  imports Prelude
begin

text \<open>
  The LED driver control of \<^verbatim>\<open>src/application/bt_earphone/src/libsrc/led_display/led_ctrl.c\<close>: a list of
  display controls, one per LED of a running display model, each with a timer that flashes its LED.

  A control is identified by the address it was allocated at. The calls into the LED manager are
  recorded in the field \<open>actions\<close>; a pending delayed work is the field \<open>timer\<close> of its control, in
  milliseconds. The end callback is a parameter acting on the whole state, which the display
  component extends. Allocation is a parameter as well: the next address, 0 when it fails.
\<close>

unbundle bit_operations_syntax

section \<open>Model\<close>

abbreviation LED_NULL :: u8 where "LED_NULL \<equiv> 0"
abbreviation MAX_LED_BITS :: nat where "MAX_LED_BITS \<equiv> 8"
abbreviation LED_GPIO_NONE :: u8 where "LED_GPIO_NONE \<equiv> 0xFF"
abbreviation LED_DISPLAY_MODEL_NONE :: u32 where "LED_DISPLAY_MODEL_NONE \<equiv> 0"
abbreviation LED_DISPLAY_MODEL_ALL :: u32 where "LED_DISPLAY_MODEL_ALL \<equiv> - 1"

record led_drive =
  LED_No :: u8
  GPIO_Pin :: u8
  Active_Level :: u8

record display_model =
  Display_Model :: u8
  Display_LEDs :: u8
  Disable_LEDs :: u8
  Use_PWM_Control :: u8
  Delay_Time_Ms :: u16
  ON_Time_Ms :: u16
  OFF_Time_Ms :: u16
  Flash_Count :: u8
  Loop_Count :: u8
  Loop_Wait_Time_Ms :: u16
  Breath_Time_Ms :: u16

record display_ctrl =
  c_addr :: u32
  disabled :: bool
  onoff_state :: bool
  flash_count :: u8
  loop_count :: u8
  disp_model :: display_model
  end_callback :: bool
  visiable_leds :: u32
  c_layer_id :: u32
  timer :: "u32 option"

datatype led_action =
    Set_display nat u8
  | Set_blink nat u32 u32 u8
  | Set_breath nat u32 u32 u32 u32

record led_driver =
  cfg_leds :: "led_drive list"
  disp_ctrl_list :: "display_ctrl list"
  actions :: "led_action list"

definition led_bit :: "nat \<Rightarrow> u32" where
  "led_bit i = push_bit i 1"

definition get_led_drive :: "'a led_driver_scheme \<Rightarrow> u32 \<Rightarrow> led_drive option" where
  "get_led_drive st led_no =
     List.find (\<lambda>led. LED_No led \<noteq> LED_NULL \<and> GPIO_Pin led \<noteq> LED_GPIO_NONE \<and> ucast (LED_No led) = led_no) (cfg_leds st)"

definition get_pwm_led_drive :: "'a led_driver_scheme \<Rightarrow> display_model \<Rightarrow> led_drive option" where
  "get_pwm_led_drive st m =
     (if ON_Time_Ms m = 0 \<and> Breath_Time_Ms m = 0 then None else get_led_drive st (ucast (Display_LEDs m)))"

definition get_num_leds :: "'a led_driver_scheme \<Rightarrow> u32 \<Rightarrow> nat" where
  "get_num_leds st leds =
     length (filter (\<lambda>i. leds AND led_bit i \<noteq> 0 \<and> get_led_drive st (led_bit i) \<noteq> None) [0..<MAX_LED_BITS])"

definition act :: "led_action list \<Rightarrow> 'a led_driver_scheme \<Rightarrow> 'a led_driver_scheme" where
  "act as st = st\<lparr>actions := actions st @ as\<rparr>"

definition not_level :: "u8 \<Rightarrow> u8" where
  "not_level x = (if x = 0 then 1 else 0)"

definition led_ctrl_set_state :: "u32 \<Rightarrow> bool \<Rightarrow> 'a led_driver_scheme \<Rightarrow> 'a led_driver_scheme" where
  "led_ctrl_set_state leds on st =
     act (concat (map (\<lambda>i. if leds AND led_bit i = 0 then []
            else case get_led_drive st (led_bit i) of
                   None \<Rightarrow> []
                 | Some led \<Rightarrow> [Set_display i (if on then Active_Level led else not_level (Active_Level led))])
          [0..<MAX_LED_BITS])) st"

definition led_ctrl_check_visiable :: "display_ctrl \<Rightarrow> bool" where
  "led_ctrl_check_visiable c \<longleftrightarrow> \<not> disabled c \<and> ucast (Display_LEDs (disp_model c)) AND visiable_leds c \<noteq> 0"

definition led_ctrl_set_state_ex :: "display_ctrl \<Rightarrow> bool \<Rightarrow> 'a led_driver_scheme \<Rightarrow> 'a led_driver_scheme" where
  "led_ctrl_set_state_ex c on st =
     (if led_ctrl_check_visiable c then led_ctrl_set_state (ucast (Display_LEDs (disp_model c))) on st else st)"

definition led_ctrl_start_pwm_display :: "display_ctrl \<Rightarrow> 'a led_driver_scheme \<Rightarrow> 'a led_driver_scheme" where
  "led_ctrl_start_pwm_display c st =
     (if \<not> led_ctrl_check_visiable c then st
      else let m = disp_model c;
               active = ucast (ON_Time_Ms m);
               inactive = ucast (OFF_Time_Ms m) + ucast (Loop_Wait_Time_Ms m)
           in case get_pwm_led_drive st m of
                None \<Rightarrow> st
              | Some led \<Rightarrow>
                  act (concat (map (\<lambda>i. if led_bit i \<noteq> ucast (LED_No led) then []
                         else if 0 < Breath_Time_Ms m
                         then [Set_breath i active inactive (ucast (Breath_Time_Ms m)) (ucast (Breath_Time_Ms m))]
                         else [Set_blink i (active + inactive) active (Active_Level led)]) [0..<MAX_LED_BITS])) st)"

definition led_ctrl_stop_pwm_display :: "display_ctrl \<Rightarrow> 'a led_driver_scheme \<Rightarrow> 'a led_driver_scheme" where
  "led_ctrl_stop_pwm_display c st =
     (if \<not> led_ctrl_check_visiable c then st
      else case get_pwm_led_drive st (disp_model c) of
             None \<Rightarrow> st
           | Some led \<Rightarrow>
               act (concat (map (\<lambda>i. if led_bit i \<noteq> ucast (LED_No led) then []
                      else [Set_blink i 0 0 (not_level (Active_Level led)), Set_display i (not_level (Active_Level led))])
                    [0..<MAX_LED_BITS])) st)"

definition led_model_check_limit_time :: "display_model \<Rightarrow> bool" where
  "led_model_check_limit_time m \<longleftrightarrow> Flash_Count m \<noteq> 0 \<and> Loop_Count m \<noteq> 0 \<and> Use_PWM_Control m = 0"

definition upd_ctrl :: "u32 \<Rightarrow> (display_ctrl \<Rightarrow> display_ctrl) \<Rightarrow> 'a led_driver_scheme \<Rightarrow> 'a led_driver_scheme" where
  "upd_ctrl a f st = st\<lparr>disp_ctrl_list := map (\<lambda>c. if c_addr c = a then f c else c) (disp_ctrl_list st)\<rparr>"

definition del_ctrl :: "u32 \<Rightarrow> 'a led_driver_scheme \<Rightarrow> 'a led_driver_scheme" where
  "del_ctrl a st = st\<lparr>disp_ctrl_list := filter (\<lambda>c. c_addr c \<noteq> a) (disp_ctrl_list st)\<rparr>"

text \<open>
  \<open>led_ctrl_stop_display\<close> without an end callback: the recursive calls of the function are all of
  this kind. The timer disappears with the control.
\<close>

definition led_ctrl_stop_quiet :: "display_ctrl \<Rightarrow> 'a led_driver_scheme \<Rightarrow> 'a led_driver_scheme" where
  "led_ctrl_stop_quiet c st =
     del_ctrl (c_addr c)
       (if Use_PWM_Control (disp_model c) \<noteq> 0 then led_ctrl_stop_pwm_display c st else led_ctrl_set_state_ex c False st)"

text \<open>The controls of a display model on a layer.\<close>

definition same_model :: "u32 \<Rightarrow> u32 \<Rightarrow> display_ctrl \<Rightarrow> bool" where
  "same_model model lid c \<longleftrightarrow> ucast (Display_Model (disp_model c)) = model \<and> c_layer_id c = lid"

definition led_ctrl_stop_display ::
    "(u32 \<Rightarrow> u32 \<Rightarrow> 'a led_driver_scheme \<Rightarrow> 'a led_driver_scheme) \<Rightarrow> display_ctrl \<Rightarrow> bool
       \<Rightarrow> 'a led_driver_scheme \<Rightarrow> 'a led_driver_scheme" where
  "led_ctrl_stop_display callback c has_callback st =
     (let st1 = led_ctrl_stop_quiet c st;
          model = ucast (Display_Model (disp_model c))
      in if has_callback \<and> led_model_check_limit_time (disp_model c)
         then callback model (c_layer_id c)
                (fold led_ctrl_stop_quiet (filter (same_model model (c_layer_id c)) (disp_ctrl_list st1)) st1)
         else st1)"

definition led_ctrl_timer_handler ::
    "(u32 \<Rightarrow> u32 \<Rightarrow> 'a led_driver_scheme \<Rightarrow> 'a led_driver_scheme) \<Rightarrow> u32 \<Rightarrow> 'a led_driver_scheme \<Rightarrow> 'a led_driver_scheme" where
  "led_ctrl_timer_handler callback a st0 =
     (case List.find (\<lambda>c. c_addr c = a) (disp_ctrl_list st0) of
        None \<Rightarrow> st0
      | Some c0 \<Rightarrow>
          let st = upd_ctrl a (\<lambda>c. c\<lparr>timer := None\<rparr>) st0;
              m = disp_model c0;
              arm = (\<lambda>on ms. upd_ctrl a (\<lambda>c. c\<lparr>onoff_state := on, timer := Some ms\<rparr>))
          in if \<not> onoff_state c0 then arm True (ucast (ON_Time_Ms m)) (led_ctrl_set_state_ex c0 True st)
             else let flash = flash_count c0 + 1
                  in if 0 < Flash_Count m \<and> Flash_Count m \<le> flash
                     then let loop = loop_count c0 + 1;
                              st1 = upd_ctrl a (\<lambda>c. c\<lparr>loop_count := loop, flash_count := 0\<rparr>) st;
                              c1 = c0\<lparr>loop_count := loop, flash_count := 0\<rparr>;
                              off_time_ms = (ucast (OFF_Time_Ms m) + ucast (Loop_Wait_Time_Ms m) :: u32)
                          in if 0 < Loop_Count m \<and> Loop_Count m \<le> loop
                             then led_ctrl_stop_display callback c1 (end_callback c1) st1
                             else if off_time_ms = 0 then st1
                             else arm False off_time_ms (led_ctrl_set_state_ex c1 False st1)
                     else let st1 = upd_ctrl a (\<lambda>c. c\<lparr>flash_count := flash\<rparr>) st
                          in if OFF_Time_Ms m = 0
                             then (if Flash_Count m = 0 then st1
                                   else upd_ctrl a (\<lambda>c. c\<lparr>timer := Some (ucast (ON_Time_Ms m))\<rparr>) st1)
                             else arm False (ucast (OFF_Time_Ms m)) (led_ctrl_set_state_ex c0 False st1))"

definition led_ctrl_start_display :: "display_ctrl \<Rightarrow> 'a led_driver_scheme \<Rightarrow> 'a led_driver_scheme" where
  "led_ctrl_start_display c st =
     (let m = disp_model c;
          arm = (\<lambda>ms. upd_ctrl (c_addr c) (\<lambda>c. c\<lparr>onoff_state := False, timer := Some ms\<rparr>))
      in if Use_PWM_Control m \<noteq> 0 then led_ctrl_start_pwm_display c st
         else if ON_Time_Ms m = 0 then led_ctrl_set_state_ex c False st
         else if 0 < (ucast (OFF_Time_Ms m) + ucast (Loop_Wait_Time_Ms m) :: u32)
         then let t0 = (if 0 < OFF_Time_Ms m then ucast (OFF_Time_Ms m) else ucast (Loop_Wait_Time_Ms m) :: u32);
                  t1 = (if 500 < t0 then 500 else t0)
              in arm (t1 + ucast (Delay_Time_Ms m)) (led_ctrl_set_state_ex c False st)
         else arm (ucast (Delay_Time_Ms m)) (led_ctrl_set_state_ex c False st))"

definition zero_model :: display_model where
  "zero_model = \<lparr>Display_Model = 0, Display_LEDs = 0, Disable_LEDs = 0, Use_PWM_Control = 0, Delay_Time_Ms = 0, ON_Time_Ms = 0,
     OFF_Time_Ms = 0, Flash_Count = 0, Loop_Count = 0, Loop_Wait_Time_Ms = 0, Breath_Time_Ms = 0\<rparr>"

definition add_ctrl :: "display_ctrl \<Rightarrow> 'a led_driver_scheme \<Rightarrow> 'a led_driver_scheme" where
  "add_ctrl c st = st\<lparr>disp_ctrl_list := c # disp_ctrl_list st\<rparr>"

text \<open>The control of the single LED \<open>i\<close>, the \<open>n\<close>-th of \<open>num\<close>, and the one of the LEDs to be closed.\<close>

definition led_ctrl_of :: "display_model \<Rightarrow> u32 \<Rightarrow> u32 \<Rightarrow> bool \<Rightarrow> nat \<Rightarrow> nat \<Rightarrow> nat \<Rightarrow> u32 \<Rightarrow> display_ctrl" where
  "led_ctrl_of m vis lid cb num n i a =
     \<lparr>c_addr = a, disabled = False, onoff_state = False, flash_count = 0, loop_count = 0,
      disp_model = m\<lparr>Display_LEDs := ucast (led_bit i),
        Delay_Time_Ms := (if 1 < num then of_nat n * Delay_Time_Ms m else Delay_Time_Ms m)\<rparr>,
      end_callback = (n + 1 = num \<and> cb), visiable_leds = vis, c_layer_id = lid, timer = None\<rparr>"

definition closed_ctrl_of :: "display_model \<Rightarrow> u32 \<Rightarrow> u32 \<Rightarrow> u32 \<Rightarrow> u32 \<Rightarrow> display_ctrl" where
  "closed_ctrl_of m vis lid dis a =
     \<lparr>c_addr = a, disabled = True, onoff_state = False, flash_count = 0, loop_count = 0,
      disp_model = zero_model\<lparr>Display_Model := Display_Model m, Display_LEDs := ucast dis\<rparr>,
      end_callback = False, visiable_leds = vis, c_layer_id = lid, timer = None\<rparr>"

text \<open>
  The first loop of \<open>led_ctrl_start_model\<close>, over the LED bits: it returns the state, the number of
  controls made, the LEDs still to be closed, and whether every allocation succeeded.
\<close>

fun start_leds ::
    "('a led_driver_scheme \<Rightarrow> u32) \<Rightarrow> display_model \<Rightarrow> u32 \<Rightarrow> u32 \<Rightarrow> bool \<Rightarrow> nat \<Rightarrow> nat list \<Rightarrow> nat \<Rightarrow> u32
       \<Rightarrow> 'a led_driver_scheme \<Rightarrow> 'a led_driver_scheme \<times> nat \<times> u32 \<times> bool" where
  "start_leds alloc m vis lid cb num [] n dis st = (st, n, dis, True)"
| "start_leds alloc m vis lid cb num (i # is) n dis st =
     (if ucast (Display_LEDs m) AND led_bit i = 0 then start_leds alloc m vis lid cb num is n dis st
      else let dis' = dis AND NOT (led_bit i)
           in if get_led_drive st (led_bit i) = None then start_leds alloc m vis lid cb num is n dis' st
              else if alloc st = 0 then (st, n, dis', False)
              else let c = led_ctrl_of m vis lid cb num n i (alloc st)
                   in start_leds alloc m vis lid cb num is (n + 1) dis' (led_ctrl_start_display c (add_ctrl c st)))"

text \<open>The second loop: the LEDs to be closed are switched off and share one disabled control.\<close>

fun close_leds ::
    "('a led_driver_scheme \<Rightarrow> u32) \<Rightarrow> display_model \<Rightarrow> u32 \<Rightarrow> u32 \<Rightarrow> u32 \<Rightarrow> nat list \<Rightarrow> bool
       \<Rightarrow> 'a led_driver_scheme \<Rightarrow> 'a led_driver_scheme \<times> bool" where
  "close_leds alloc m vis lid dis [] made st = (st, True)"
| "close_leds alloc m vis lid dis (i # is) made st =
     (if dis AND led_bit i = 0 \<or> get_led_drive st (led_bit i) = None then close_leds alloc m vis lid dis is made st
      else let st1 = (if led_bit i AND vis \<noteq> 0 then led_ctrl_set_state (led_bit i) False st else st)
           in if made then close_leds alloc m vis lid dis is made st1
              else if alloc st1 = 0 then (st1, False)
              else let c = closed_ctrl_of m vis lid dis (alloc st1)
                   in close_leds alloc m vis lid dis is True (add_ctrl c st1))"

definition led_ctrl_start_model ::
    "('a led_driver_scheme \<Rightarrow> u32) \<Rightarrow> display_model \<Rightarrow> u32 \<Rightarrow> u32 \<Rightarrow> bool \<Rightarrow> 'a led_driver_scheme
       \<Rightarrow> 'a led_driver_scheme \<times> bool" where
  "led_ctrl_start_model alloc m vis lid cb st =
     (if Display_Model m = 0 then (st, True)
      else let model = ucast (Display_Model m);
               running = filter (same_model model lid) (disp_ctrl_list st)
           in if running \<noteq> [] \<and> visiable_leds (hd running) = vis then (st, True)
              else let st1 = fold led_ctrl_stop_quiet running st;
                       num = get_num_leds st1 (ucast (Display_LEDs m));
                       (st2, n, dis, ok) = start_leds alloc m vis lid cb num [0..<MAX_LED_BITS] 0 (ucast (Disable_LEDs m)) st1
                   in if \<not> ok then (st2, False)
                      else close_leds alloc m vis lid dis [0..<MAX_LED_BITS] False st2)"

definition led_ctrl_stop_model :: "u32 \<Rightarrow> u32 \<Rightarrow> 'a led_driver_scheme \<Rightarrow> 'a led_driver_scheme" where
  "led_ctrl_stop_model model lid st =
     (if model = LED_DISPLAY_MODEL_NONE then st
      else fold led_ctrl_stop_quiet
             (filter (\<lambda>c. model = LED_DISPLAY_MODEL_ALL \<or> same_model model lid c) (disp_ctrl_list st)) st)"

definition led_ctrl_check_model :: "u32 \<Rightarrow> u32 \<Rightarrow> 'a led_driver_scheme \<Rightarrow> bool" where
  "led_ctrl_check_model model lid st =
     list_ex (\<lambda>c. \<not> disabled c \<and> same_model model lid c \<and> led_model_check_limit_time (disp_model c)) (disp_ctrl_list st)"

definition led_ctrl_init :: "led_drive list \<Rightarrow> 'a led_driver_scheme \<Rightarrow> 'a led_driver_scheme" where
  "led_ctrl_init cfg st = st\<lparr>cfg_leds := cfg, disp_ctrl_list := []\<rparr>"

section \<open>The list of controls\<close>

lemma act_simps [simp]:
  "disp_ctrl_list (act as st) = disp_ctrl_list st" "cfg_leds (act as st) = cfg_leds st"
  by (simp_all add: act_def)

lemma set_state_list [simp]:
  "disp_ctrl_list (led_ctrl_set_state leds on st) = disp_ctrl_list st" "cfg_leds (led_ctrl_set_state leds on st) = cfg_leds st"
  "disp_ctrl_list (led_ctrl_set_state_ex c on st) = disp_ctrl_list st" "cfg_leds (led_ctrl_set_state_ex c on st) = cfg_leds st"
  "disp_ctrl_list (led_ctrl_start_pwm_display c st) = disp_ctrl_list st" "cfg_leds (led_ctrl_start_pwm_display c st) = cfg_leds st"
  "disp_ctrl_list (led_ctrl_stop_pwm_display c st) = disp_ctrl_list st" "cfg_leds (led_ctrl_stop_pwm_display c st) = cfg_leds st"
  by (simp_all add: led_ctrl_set_state_def led_ctrl_set_state_ex_def led_ctrl_start_pwm_display_def
      led_ctrl_stop_pwm_display_def Let_def split: option.split)

lemma stop_quiet_list [simp]:
  "disp_ctrl_list (led_ctrl_stop_quiet c st) = filter (\<lambda>x. c_addr x \<noteq> c_addr c) (disp_ctrl_list st)"
  "cfg_leds (led_ctrl_stop_quiet c st) = cfg_leds st"
  by (simp_all add: led_ctrl_stop_quiet_def del_ctrl_def)

lemma fold_stop_list:
  "disp_ctrl_list (fold led_ctrl_stop_quiet cs st) = filter (\<lambda>x. c_addr x \<notin> c_addr ` set cs) (disp_ctrl_list st)"
  "cfg_leds (fold led_ctrl_stop_quiet cs st) = cfg_leds st"
  by (induction cs arbitrary: st) (simp_all add: conj_commute cong: filter_cong)

definition ctrl_ok :: "'a led_driver_scheme \<Rightarrow> bool" where
  "ctrl_ok st \<longleftrightarrow> distinct (map c_addr (disp_ctrl_list st))"

lemma addr_inj: "ctrl_ok st \<Longrightarrow> x \<in> set (disp_ctrl_list st) \<Longrightarrow> y \<in> set (disp_ctrl_list st) \<Longrightarrow> c_addr x = c_addr y \<Longrightarrow> x = y"
  by (auto simp: ctrl_ok_def distinct_map dest: inj_onD)

lemma stop_matching:
  assumes "ctrl_ok st"
  shows "disp_ctrl_list (fold led_ctrl_stop_quiet (filter P (disp_ctrl_list st)) st) = filter (\<lambda>c. \<not> P c) (disp_ctrl_list st)"
  unfolding fold_stop_list using addr_inj [OF assms] by (intro filter_cong) (auto simp: image_iff)

text \<open>
  stopping a display model removes exactly its controls on that layer and keeps all others
  in place; stopping all models empties the list.
\<close>

theorem led_stop_model_spec:
  assumes "ctrl_ok st" "model \<noteq> LED_DISPLAY_MODEL_NONE"
  shows "disp_ctrl_list (led_ctrl_stop_model model lid st) =
      (if model = LED_DISPLAY_MODEL_ALL then [] else filter (\<lambda>c. \<not> same_model model lid c) (disp_ctrl_list st)) \<and>
    (model \<noteq> LED_DISPLAY_MODEL_ALL \<longrightarrow> \<not> led_ctrl_check_model model lid (led_ctrl_stop_model model lid st))"
  using assms stop_matching [OF assms(1)]
  by (auto simp: led_ctrl_stop_model_def led_ctrl_check_model_def list_ex_iff)

definition ex_model :: display_model where
  "ex_model = \<lparr>Display_Model = 5, Display_LEDs = 1, Disable_LEDs = 0, Use_PWM_Control = 0, Delay_Time_Ms = 0, ON_Time_Ms = 100,
     OFF_Time_Ms = 200, Flash_Count = 2, Loop_Count = 3, Loop_Wait_Time_Ms = 0, Breath_Time_Ms = 0\<rparr>"

definition ex_ctrl :: "u32 \<Rightarrow> display_ctrl" where
  "ex_ctrl lid = \<lparr>c_addr = 64 + lid, disabled = False, onoff_state = False, flash_count = 0, loop_count = 0, disp_model = ex_model,
     end_callback = True, visiable_leds = 1, c_layer_id = lid, timer = Some 500\<rparr>"

definition ex_driver :: led_driver where
  "ex_driver = \<lparr>cfg_leds = [\<lparr>LED_No = 1, GPIO_Pin = 3, Active_Level = 1\<rparr>], disp_ctrl_list = [ex_ctrl 0, ex_ctrl 1], actions = []\<rparr>"

lemma ex_driver_ok: "ctrl_ok ex_driver"
  by (simp add: ctrl_ok_def ex_driver_def ex_ctrl_def)

theorem led_stop_model_spec_witness:
  "disp_ctrl_list (led_ctrl_stop_model 5 1 ex_driver) = [ex_ctrl 0] \<and>
   \<not> led_ctrl_check_model 5 1 (led_ctrl_stop_model 5 1 ex_driver)"
  using led_stop_model_spec [OF ex_driver_ok, of 5 1]
  by (simp add: ex_driver_def ex_ctrl_def same_model_def ex_model_def)

section \<open>The life of a flashing LED\<close>

definition ctrl_at :: "'a led_driver_scheme \<Rightarrow> u32 \<Rightarrow> display_ctrl option" where
  "ctrl_at st a = List.find (\<lambda>c. c_addr c = a) (disp_ctrl_list st)"

lemma find_upd: "(\<And>c. c_addr (f c) = c_addr c) \<Longrightarrow>
    List.find (\<lambda>c. c_addr c = a) (map (\<lambda>c. if c_addr c = a then f c else c) cs) = map_option f (List.find (\<lambda>c. c_addr c = a) cs)"
  by (induction cs) auto

lemma ctrl_at_upd [simp]: "(\<And>c. c_addr (f c) = c_addr c) \<Longrightarrow> ctrl_at (upd_ctrl a f st) a = map_option f (ctrl_at st a)"
  by (simp add: ctrl_at_def upd_ctrl_def find_upd)

lemma ctrl_at_set_state [simp]: "ctrl_at (led_ctrl_set_state_ex c on st) a = ctrl_at st a"
  by (simp add: ctrl_at_def)

lemma ctrl_at_removed: "\<forall>c\<in>set (disp_ctrl_list st). c_addr c \<noteq> a \<Longrightarrow> ctrl_at st a = None"
  by (auto simp: ctrl_at_def find_None_iff)

lemma stop_display_removes:
  assumes "\<And>m l st. disp_ctrl_list (cb m l st) = disp_ctrl_list st" "c_addr c = a"
  shows "ctrl_at (led_ctrl_stop_display cb c b st) a = None"
  using assms by (intro ctrl_at_removed) (auto simp: led_ctrl_stop_display_def Let_def fold_stop_list)

text \<open>One firing of the timer, by the phase the control is in.\<close>

lemma tick_on:
  assumes "ctrl_at st a = Some c" "\<not> onoff_state c"
  shows "ctrl_at (led_ctrl_timer_handler cb a st) a =
    Some (c\<lparr>onoff_state := True, timer := Some (ucast (ON_Time_Ms (disp_model c)))\<rparr>)"
  using assms by (simp add: led_ctrl_timer_handler_def ctrl_at_def [symmetric] Let_def)

lemma tick_flash:
  assumes "ctrl_at st a = Some c" "onoff_state c" "\<not> (0 < Flash_Count (disp_model c) \<and> Flash_Count (disp_model c) \<le> flash_count c + 1)"
    "OFF_Time_Ms (disp_model c) \<noteq> 0"
  shows "ctrl_at (led_ctrl_timer_handler cb a st) a =
    Some (c\<lparr>flash_count := flash_count c + 1, onoff_state := False, timer := Some (ucast (OFF_Time_Ms (disp_model c)))\<rparr>)"
  using assms by (auto simp: led_ctrl_timer_handler_def ctrl_at_def [symmetric] Let_def)

lemma tick_flash_lit:
  assumes "ctrl_at st a = Some c" "onoff_state c" "Flash_Count (disp_model c) \<noteq> 0" "\<not> Flash_Count (disp_model c) \<le> flash_count c + 1"
    "OFF_Time_Ms (disp_model c) = 0"
  shows "ctrl_at (led_ctrl_timer_handler cb a st) a =
    Some (c\<lparr>flash_count := flash_count c + 1, timer := Some (ucast (ON_Time_Ms (disp_model c)))\<rparr>)"
  using assms by (simp add: led_ctrl_timer_handler_def ctrl_at_def [symmetric] Let_def)

lemma tick_loop:
  assumes "ctrl_at st a = Some c" "onoff_state c" "Flash_Count (disp_model c) \<noteq> 0" "Flash_Count (disp_model c) \<le> flash_count c + 1"
    "\<not> (0 < Loop_Count (disp_model c) \<and> Loop_Count (disp_model c) \<le> loop_count c + 1)"
    "off = (ucast (OFF_Time_Ms (disp_model c)) + ucast (Loop_Wait_Time_Ms (disp_model c)) :: u32)"
  shows "ctrl_at (led_ctrl_timer_handler cb a st) a =
    (if off = 0 then Some (c\<lparr>loop_count := loop_count c + 1, flash_count := 0, timer := None\<rparr>)
     else Some (c\<lparr>loop_count := loop_count c + 1, flash_count := 0, onoff_state := False, timer := Some off\<rparr>))"
  using assms by (auto simp: led_ctrl_timer_handler_def ctrl_at_def [symmetric] Let_def word_neq_0_conv [symmetric])

lemma tick_end:
  assumes "\<And>m l st. disp_ctrl_list (cb m l st) = disp_ctrl_list st" "ctrl_at st a = Some c" "onoff_state c"
    "Flash_Count (disp_model c) \<noteq> 0" "Flash_Count (disp_model c) \<le> flash_count c + 1"
    "Loop_Count (disp_model c) \<noteq> 0" "Loop_Count (disp_model c) \<le> loop_count c + 1"
  shows "ctrl_at (led_ctrl_timer_handler cb a st) a = None"
proof -
  have "c_addr c = a" using assms(2) by (auto simp: ctrl_at_def find_Some_iff)
  then show ?thesis using assms(2-)
    by (simp add: led_ctrl_timer_handler_def ctrl_at_def [symmetric] Let_def word_neq_0_conv [symmetric]
        stop_display_removes [OF assms(1)])
qed

text \<open>
  \<open>flashing on j st\<close>: the control at \<open>a\<close> has finished \<open>j\<close> flashes, its LED is off or lit (\<open>on\<close>), and its
  timer is running.
\<close>

definition flashing :: "u32 \<Rightarrow> display_model \<Rightarrow> bool \<Rightarrow> nat \<Rightarrow> 'a led_driver_scheme \<Rightarrow> bool" where
  "flashing a m on j st \<longleftrightarrow> (\<exists>c. ctrl_at st a = Some c \<and> disp_model c = m \<and> onoff_state c = on \<and> timer c \<noteq> None \<and>
     unat (flash_count c) = j mod unat (Flash_Count m) \<and> unat (loop_count c) = j div unat (Flash_Count m))"

lemma unat_inc_u8: "unat (x :: u8) < 255 \<Longrightarrow> unat (x + 1) = unat x + 1"
  by (simp add: unat_word_ariths)

lemma unat_lt_u8: "unat (x :: u8) < 256"
  using unsigned_less [of x] by simp

lemma unat_ucast_u16: "unat (ucast (x :: u16) :: u32) = unat x"
  by transfer simp

lemma next_flash:
  assumes "0 < (F :: nat)"
  shows "j mod F + 1 < F \<Longrightarrow> Suc j mod F = j mod F + 1 \<and> Suc j div F = j div F"
    "\<not> j mod F + 1 < F \<Longrightarrow> Suc j mod F = 0 \<and> Suc j div F = j div F + 1"
proof -
  assume a: "j mod F + 1 < F"
  then have "Suc (j mod F) \<noteq> F" by simp
  then show "Suc j mod F = j mod F + 1 \<and> Suc j div F = j div F" by (simp add: mod_Suc div_Suc)
next
  assume "\<not> j mod F + 1 < F"
  then have "Suc (j mod F) = F" using mod_less_divisor [OF assms, of j] by linarith
  then show "Suc j mod F = 0 \<and> Suc j div F = j div F + 1" by (simp add: mod_Suc div_Suc)
qed

lemma flash_on: "flashing a m False j st \<Longrightarrow> flashing a m True j (led_ctrl_timer_handler cb a st)"
  by (auto simp: flashing_def tick_on)

lemma flash_off:
  assumes cb: "\<And>m l st. disp_ctrl_list (cb m l st) = disp_ctrl_list st"
    and f: "flashing a m True j st" and lim: "Flash_Count m \<noteq> 0" "Loop_Count m \<noteq> 0" "OFF_Time_Ms m \<noteq> 0"
    and j: "j < unat (Flash_Count m) * unat (Loop_Count m)"
  shows "if Suc j < unat (Flash_Count m) * unat (Loop_Count m) then flashing a m False (Suc j) (led_ctrl_timer_handler cb a st)
    else ctrl_at (led_ctrl_timer_handler cb a st) a = None"
proof -
  let ?F = "unat (Flash_Count m)" and ?L = "unat (Loop_Count m)"
  obtain c where c: "ctrl_at st a = Some c" "disp_model c = m" "onoff_state c"
      "unat (flash_count c) = j mod ?F" "unat (loop_count c) = j div ?F"
    using f by (auto simp: flashing_def)
  have F: "0 < ?F" "?F < 256" "0 < ?L" "?L < 256"
    using lim unat_lt_u8 by (simp_all add: unat_gt_0)
  have "j mod ?F < ?F" using F by simp
  then have "unat (flash_count c) < 255" using c F by linarith
  then have fl: "unat (flash_count c + 1) = j mod ?F + 1" using c by (simp add: unat_inc_u8)
  have "j div ?F < ?L" using j by (simp add: less_mult_imp_div_less mult.commute)
  then have "unat (loop_count c) < 255" using c F by linarith
  then have lp: "unat (loop_count c + 1) = j div ?F + 1" using c by (simp add: unat_inc_u8)
  have off: "(ucast (OFF_Time_Ms m) + ucast (Loop_Wait_Time_Ms m) :: u32) \<noteq> 0"
  proof -
    have "unat (OFF_Time_Ms m) < 65536" "unat (Loop_Wait_Time_Ms m) < 65536"
      using unsigned_less [of "OFF_Time_Ms m"] unsigned_less [of "Loop_Wait_Time_Ms m"] by simp_all
    then have "unat (ucast (OFF_Time_Ms m) + ucast (Loop_Wait_Time_Ms m) :: u32) = unat (OFF_Time_Ms m) + unat (Loop_Wait_Time_Ms m)"
      by (subst unat_add_u32) (simp_all add: unat_ucast_u16)
    moreover have "unat (OFF_Time_Ms m) \<noteq> 0" using lim(3) by (simp add: unat_eq_0)
    ultimately show ?thesis by (metis add_is_0 unat_0)
  qed
  show ?thesis
  proof (cases "j mod ?F + 1 < ?F")
    case True
    have n: "Suc j mod ?F = j mod ?F + 1" "Suc j div ?F = j div ?F" using next_flash(1) [OF F(1) True] by simp_all
    have "Suc j div ?F < ?L" using n \<open>j div ?F < ?L\<close> by simp
    then have lt: "Suc j < ?F * ?L" using F(1) by (simp add: div_less_iff_less_mult mult.commute)
    have "\<not> Flash_Count m \<le> flash_count c + 1" using True fl by (simp add: word_le_nat_alt)
    with tick_flash [OF c(1,3)] c(2) lim(3) have "ctrl_at (led_ctrl_timer_handler cb a st) a =
        Some (c\<lparr>flash_count := flash_count c + 1, onoff_state := False, timer := Some (ucast (OFF_Time_Ms m))\<rparr>)" by simp
    then show ?thesis using lt n fl c by (simp add: flashing_def)
  next
    case False
    have n: "Suc j mod ?F = 0" "Suc j div ?F = j div ?F + 1" using next_flash(2) [OF F(1) False] by simp_all
    have "Flash_Count m \<le> flash_count c + 1" using False fl by (simp add: word_le_nat_alt)
    note t = c(1,3) lim(1) [folded c(2)] this [folded c(2)]
    show ?thesis
    proof (cases "Suc j < ?F * ?L")
      case True
      then have "Suc j div ?F < ?L" by (simp add: less_mult_imp_div_less mult.commute)
      then have "\<not> Loop_Count m \<le> loop_count c + 1" using n lp by (simp add: word_le_nat_alt)
      with tick_loop [OF t _ refl] c(2) off have "ctrl_at (led_ctrl_timer_handler cb a st) a =
          Some (c\<lparr>loop_count := loop_count c + 1, flash_count := 0, onoff_state := False,
                 timer := Some (ucast (OFF_Time_Ms m) + ucast (Loop_Wait_Time_Ms m))\<rparr>)" by simp
      then show ?thesis using True n lp c by (simp add: flashing_def)
    next
      case False
      then have "Suc j = ?F * ?L" using j by simp
      then have "Suc j div ?F = ?L" using F by simp
      then have "Loop_Count m \<le> loop_count c + 1" using n lp by (simp add: word_le_nat_alt)
      with tick_end [OF cb t] c(2) lim(2) False show ?thesis by simp
    qed
  qed
qed

lemma flash_run:
  assumes cb: "\<And>m l st. disp_ctrl_list (cb m l st) = disp_ctrl_list st"
    and start: "flashing a m False 0 st" and lim: "Flash_Count m \<noteq> 0" "Loop_Count m \<noteq> 0" "OFF_Time_Ms m \<noteq> 0"
    and j: "j < unat (Flash_Count m) * unat (Loop_Count m)"
  shows "flashing a m False j ((led_ctrl_timer_handler cb a ^^ (2 * j)) st)"
  using j
proof (induction j)
  case 0
  then show ?case using start by simp
next
  case (Suc j)
  let ?st = "(led_ctrl_timer_handler cb a ^^ (2 * j)) st"
  have "flashing a m True j (led_ctrl_timer_handler cb a ?st)" using Suc by (intro flash_on) simp
  from flash_off [OF cb this lim] Suc.prems show ?case by simp
qed

text \<open>
  a display model with limited flash and loop counts and a positive off time lights its LED exactly
  \<open>Flash_Count * Loop_Count\<close> times: the timer stays armed and alternates off and on until then,
  and the last off edge removes the control (and so ends the display), whatever the end callback
  does outside the list of controls.
\<close>

theorem led_flash_total:
  assumes cb: "\<And>m l st. disp_ctrl_list (cb m l st) = disp_ctrl_list st"
    and start: "flashing a m False 0 st" and lim: "Flash_Count m \<noteq> 0" "Loop_Count m \<noteq> 0" "OFF_Time_Ms m \<noteq> 0"
  shows "(\<forall>j < unat (Flash_Count m) * unat (Loop_Count m).
      flashing a m False j ((led_ctrl_timer_handler cb a ^^ (2 * j)) st) \<and>
      flashing a m True j ((led_ctrl_timer_handler cb a ^^ (2 * j + 1)) st)) \<and>
    ctrl_at ((led_ctrl_timer_handler cb a ^^ (2 * (unat (Flash_Count m) * unat (Loop_Count m)))) st) a = None"
proof -
  let ?n = "unat (Flash_Count m) * unat (Loop_Count m)"
  note run = flash_run [OF cb start lim]
  have on: "flashing a m True j ((led_ctrl_timer_handler cb a ^^ (2 * j + 1)) st)" if "j < ?n" for j
    using flash_on [OF run [OF that], of cb] by simp
  have n: "0 < ?n" using lim by (simp add: unat_gt_0)
  then obtain k where k: "?n = Suc k" by (cases ?n) auto
  have "ctrl_at (led_ctrl_timer_handler cb a ((led_ctrl_timer_handler cb a ^^ (2 * k + 1)) st)) a = None"
    using flash_off [OF cb on [of k] lim] k by simp
  moreover have "(led_ctrl_timer_handler cb a ^^ (2 * ?n)) st =
      led_ctrl_timer_handler cb a ((led_ctrl_timer_handler cb a ^^ (2 * k + 1)) st)"
    unfolding k by simp
  ultimately show ?thesis using run on by simp
qed

lemma ex_flashing: "flashing 64 ex_model False 0 ex_driver"
  by (simp add: flashing_def ctrl_at_def ex_driver_def ex_ctrl_def)

theorem led_flash_total_witness:
  "flashing 64 ex_model False 5 ((led_ctrl_timer_handler (\<lambda>_ _ s. s) 64 ^^ 10) ex_driver) \<and>
    flashing 64 ex_model True 5 ((led_ctrl_timer_handler (\<lambda>_ _ s. s) 64 ^^ 11) ex_driver) \<and>
    ctrl_at ((led_ctrl_timer_handler (\<lambda>_ _ s. s) 64 ^^ 12) ex_driver) 64 = None"
proof -
  have n: "unat (Flash_Count ex_model) * unat (Loop_Count ex_model) = 6" "Flash_Count ex_model \<noteq> 0" "Loop_Count ex_model \<noteq> 0"
      "OFF_Time_Ms ex_model \<noteq> 0"
    by (simp_all add: ex_model_def)
  note run = led_flash_total [of "\<lambda>_ _ s. s", OF refl ex_flashing n(2,3,4), unfolded n(1)]
  show ?thesis using conjunct1 [OF run, rule_format, of 5] conjunct2 [OF run]
    by (simp only: less_numeral_simps) (simp del: funpow.simps)
qed

lemma lit_run:
  assumes c: "ctrl_at st a = Some c" "\<not> onoff_state c" "flash_count c = 0"
    and off: "OFF_Time_Ms (disp_model c) = 0" and i: "i < unat (Flash_Count (disp_model c))"
  shows "ctrl_at ((led_ctrl_timer_handler cb a ^^ Suc i) st) a =
    Some (c\<lparr>onoff_state := True, flash_count := of_nat i, timer := Some (ucast (ON_Time_Ms (disp_model c)))\<rparr>)"
  using i
proof (induction i)
  case 0
  show ?case using tick_on [OF c(1,2), of cb] c(3) by simp
next
  case (Suc i)
  let ?c = "c\<lparr>onoff_state := True, flash_count := of_nat i, timer := Some (ucast (ON_Time_Ms (disp_model c)))\<rparr>"
  let ?st = "(led_ctrl_timer_handler cb a ^^ Suc i) st"
  have at: "ctrl_at ?st a = Some ?c" using Suc by simp
  have "unat (Flash_Count (disp_model c)) < 256" by (rule unat_lt_u8)
  then have u: "unat (of_nat i :: u8) = i" "i < 255" using Suc.prems by (simp_all add: unat_of_nat)
  have "unat (of_nat i + 1 :: u8) = i + 1" using unat_inc_u8 [of "of_nat i"] u by simp
  then have le: "\<not> Flash_Count (disp_model ?c) \<le> flash_count ?c + 1"
    using Suc.prems by (simp add: word_le_nat_alt)
  have "Flash_Count (disp_model ?c) \<noteq> 0" using Suc.prems by auto
  from tick_flash_lit [OF at _ this le, of cb] off
  have "ctrl_at (led_ctrl_timer_handler cb a ?st) a =
      Some (c\<lparr>onoff_state := True, flash_count := of_nat (Suc i), timer := Some (ucast (ON_Time_Ms (disp_model c)))\<rparr>)"
    by (simp add: add.commute)
  then show ?case by simp
qed

text \<open>
  a display model with limited counts but neither an off time nor a wait between its loops never
  ends: after the first loop its timer is not armed again while the control stays in the list, so
  \<open>led_ctrl_check_model\<close> reports a limited display in progress for ever.
\<close>

theorem led_limited_never_ends:
  assumes c: "ctrl_at st a = Some c" "\<not> onoff_state c" "flash_count c = 0" "loop_count c = 0" "\<not> disabled c"
    and m: "led_model_check_limit_time (disp_model c)" "OFF_Time_Ms (disp_model c) = 0" "Loop_Wait_Time_Ms (disp_model c) = 0"
      "1 < Loop_Count (disp_model c)"
  shows "\<exists>c'. ctrl_at ((led_ctrl_timer_handler cb a ^^ Suc (unat (Flash_Count (disp_model c)))) st) a = Some c' \<and>
    timer c' = None \<and> onoff_state c' \<and>
    led_ctrl_check_model (ucast (Display_Model (disp_model c))) (c_layer_id c)
      ((led_ctrl_timer_handler cb a ^^ Suc (unat (Flash_Count (disp_model c)))) st)"
proof -
  let ?F = "unat (Flash_Count (disp_model c))"
  have F: "Flash_Count (disp_model c) \<noteq> 0" using m(1) by (simp add: led_model_check_limit_time_def)
  then obtain i where i: "?F = Suc i" by (metis not0_implies_Suc unat_eq_0)
  let ?c = "c\<lparr>onoff_state := True, flash_count := of_nat i, timer := Some (ucast (ON_Time_Ms (disp_model c)))\<rparr>"
  let ?st = "(led_ctrl_timer_handler cb a ^^ Suc i) st"
  have at: "ctrl_at ?st a = Some ?c" using i by (intro lit_run [OF c(1-3) m(2)]) simp
  have "i < 255" using unat_lt_u8 [of "Flash_Count (disp_model c)"] i by simp
  then have "unat (of_nat i + 1 :: u8) = ?F" using unat_inc_u8 [of "of_nat i"] i by (simp add: unat_of_nat)
  then have le: "Flash_Count (disp_model ?c) \<le> flash_count ?c + 1" by (simp add: word_le_nat_alt)
  have nl: "\<not> (0 < Loop_Count (disp_model ?c) \<and> Loop_Count (disp_model ?c) \<le> loop_count ?c + 1)"
    using m(4) c(4) by (simp add: not_le)
  let ?c' = "?c\<lparr>loop_count := loop_count ?c + 1, flash_count := 0, timer := None\<rparr>"
  have at': "ctrl_at ((led_ctrl_timer_handler cb a ^^ Suc ?F) st) a = Some ?c'"
    using tick_loop [OF at _ _ le nl refl, of cb] F m(2,3) i by simp
  then have "?c' \<in> set (disp_ctrl_list ((led_ctrl_timer_handler cb a ^^ Suc ?F) st))"
    unfolding ctrl_at_def find_Some_iff by (metis nth_mem)
  then have "led_ctrl_check_model (ucast (Display_Model (disp_model c))) (c_layer_id c)
      ((led_ctrl_timer_handler cb a ^^ Suc ?F) st)"
    unfolding led_ctrl_check_model_def list_ex_iff using c(5) m(1) by (intro bexI [of _ ?c']) (simp_all add: same_model_def)
  then show ?thesis using at' by (intro exI [of _ ?c']) simp
qed

definition stuck_ctrl :: display_ctrl where
  "stuck_ctrl = (ex_ctrl 0)\<lparr>disp_model := ex_model\<lparr>OFF_Time_Ms := 0\<rparr>\<rparr>"

definition ex_stuck :: led_driver where
  "ex_stuck = ex_driver\<lparr>disp_ctrl_list := [stuck_ctrl]\<rparr>"

lemma stuck_ctrl_fields:
  "ctrl_at ex_stuck 64 = Some stuck_ctrl" "\<not> onoff_state stuck_ctrl" "flash_count stuck_ctrl = 0" "loop_count stuck_ctrl = 0"
  "\<not> disabled stuck_ctrl" "led_model_check_limit_time (disp_model stuck_ctrl)" "OFF_Time_Ms (disp_model stuck_ctrl) = 0"
  "Loop_Wait_Time_Ms (disp_model stuck_ctrl) = 0" "1 < Loop_Count (disp_model stuck_ctrl)"
  "unat (Flash_Count (disp_model stuck_ctrl)) = 2" "Display_Model (disp_model stuck_ctrl) = 5" "c_layer_id stuck_ctrl = 0"
  by (simp_all add: ex_stuck_def ctrl_at_def stuck_ctrl_def ex_ctrl_def ex_model_def led_model_check_limit_time_def)

theorem led_limited_never_ends_witness:
  "\<exists>c'. ctrl_at ((led_ctrl_timer_handler (\<lambda>_ _ s. s) 64 ^^ Suc 2) ex_stuck) 64 = Some c' \<and> timer c' = None \<and> onoff_state c' \<and>
    led_ctrl_check_model (ucast (5 :: u8)) 0 ((led_ctrl_timer_handler (\<lambda>_ _ s. s) 64 ^^ Suc 2) ex_stuck)"
  using led_limited_never_ends [OF stuck_ctrl_fields(1-9), of "\<lambda>_ _ s. s"] unfolding stuck_ctrl_fields(10-12) .

section \<open>Starting a model\<close>

text \<open>An allocator that never returns the address of a control in use.\<close>

definition fresh_alloc :: "('a led_driver_scheme \<Rightarrow> u32) \<Rightarrow> bool" where
  "fresh_alloc alloc \<longleftrightarrow> (\<forall>st. alloc st \<noteq> 0 \<longrightarrow> alloc st \<notin> c_addr ` set (disp_ctrl_list st))"

lemma upd_ctrl_fresh:
  assumes "disp_ctrl_list st = c # cs" "c_addr c = a" "a \<notin> c_addr ` set cs"
  shows "disp_ctrl_list (upd_ctrl a f st) = f c # cs" "cfg_leds (upd_ctrl a f st) = cfg_leds st"
proof -
  have "map (\<lambda>c. if c_addr c = a then f c else c) cs = cs" using assms(3) by (intro map_idI) auto
  then show "disp_ctrl_list (upd_ctrl a f st) = f c # cs" using assms(1,2) by (simp add: upd_ctrl_def)
qed (simp add: upd_ctrl_def)

lemma start_display_list:
  assumes "disp_ctrl_list st = c # cs" "c_addr c \<notin> c_addr ` set cs"
  shows "\<exists>on t. disp_ctrl_list (led_ctrl_start_display c st) = c\<lparr>onoff_state := on, timer := t\<rparr> # cs"
    "cfg_leds (led_ctrl_start_display c st) = cfg_leds st"
proof -
  have keep: "c\<lparr>onoff_state := onoff_state c, timer := timer c\<rparr> = c" by simp
  show "cfg_leds (led_ctrl_start_display c st) = cfg_leds st"
    by (simp add: led_ctrl_start_display_def Let_def upd_ctrl_def)
  have u: "disp_ctrl_list (upd_ctrl (c_addr c) f (led_ctrl_set_state_ex c b st)) = f c # cs" for f b
    using assms by (intro upd_ctrl_fresh) simp_all
  show "\<exists>on t. disp_ctrl_list (led_ctrl_start_display c st) = c\<lparr>onoff_state := on, timer := t\<rparr> # cs"
  proof -
    have "disp_ctrl_list (led_ctrl_start_display c st) = c # cs \<or>
        (\<exists>ms. disp_ctrl_list (led_ctrl_start_display c st) = c\<lparr>onoff_state := False, timer := Some ms\<rparr> # cs)"
      using assms(1) by (auto simp: led_ctrl_start_display_def Let_def u)
    then show ?thesis using keep by metis
  qed
qed

definition drivable :: "'a led_driver_scheme \<Rightarrow> u32 \<Rightarrow> nat list \<Rightarrow> nat list" where
  "drivable st leds is = filter (\<lambda>i. leds AND led_bit i \<noteq> 0 \<and> get_led_drive st (led_bit i) \<noteq> None) is"

lemma drive_cong: "cfg_leds st' = cfg_leds st \<Longrightarrow> get_led_drive st' = get_led_drive st"
  by (simp add: get_led_drive_def fun_eq_iff)

text \<open>The controls the first loop puts in front of the list, the last one made first.\<close>

definition new_ctrls ::
    "display_model \<Rightarrow> u32 \<Rightarrow> u32 \<Rightarrow> bool \<Rightarrow> nat \<Rightarrow> nat \<Rightarrow> nat list \<Rightarrow> display_ctrl list \<Rightarrow> bool" where
  "new_ctrls m vis lid cb num n is new \<longleftrightarrow>
     map (\<lambda>c. Display_LEDs (disp_model c)) new = rev (map (\<lambda>i. ucast (led_bit i)) is) \<and>
     (\<forall>c\<in>set new. same_model (ucast (Display_Model m)) lid c \<and> visiable_leds c = vis \<and> \<not> disabled c) \<and>
     length (filter end_callback new) = (if cb \<and> n < num \<and> num \<le> n + length is then 1 else 0)"

lemma start_leds_list:
  assumes "fresh_alloc alloc" "start_leds alloc m vis lid cb num is n dis st = (st', n', dis', True)"
  shows "\<exists>new. disp_ctrl_list st' = new @ disp_ctrl_list st \<and> cfg_leds st' = cfg_leds st \<and>
    new_ctrls m vis lid cb num n (drivable st (ucast (Display_LEDs m)) is) new"
  using assms(2)
proof (induction "is" arbitrary: n dis st)
  case Nil
  then show ?case by (auto simp: drivable_def new_ctrls_def)
next
  case (Cons i "is")
  show ?case
  proof (cases "ucast (Display_LEDs m) AND led_bit i = 0 \<or> get_led_drive st (led_bit i) = None")
    case True
    then have "drivable st (ucast (Display_LEDs m)) (i # is) = drivable st (ucast (Display_LEDs m)) is"
      by (auto simp: drivable_def)
    with True Cons.prems Cons.IH show ?thesis by (auto simp: Let_def split: if_splits)
  next
    case False
    define c where "c = led_ctrl_of m vis lid cb num n i (alloc st)"
    let ?st = "led_ctrl_start_display c (add_ctrl c st)"
    have al: "alloc st \<noteq> 0" using Cons.prems False by (auto simp: Let_def split: if_splits)
    have rec: "start_leds alloc m vis lid cb num is (n + 1) (dis AND NOT (led_bit i)) ?st = (st', n', dis', True)"
      using Cons.prems False al by (auto simp: Let_def c_def)
    have "c_addr c \<notin> c_addr ` set (disp_ctrl_list st)" using assms(1) al by (simp add: fresh_alloc_def c_def led_ctrl_of_def)
    then obtain on t where l: "disp_ctrl_list ?st = c\<lparr>onoff_state := on, timer := t\<rparr> # disp_ctrl_list st" "cfg_leds ?st = cfg_leds st"
      using start_display_list [of "add_ctrl c st" c "disp_ctrl_list st"] by (auto simp: add_ctrl_def)
    obtain new where new: "disp_ctrl_list st' = new @ disp_ctrl_list ?st" "cfg_leds st' = cfg_leds ?st"
        "new_ctrls m vis lid cb num (n + 1) (drivable ?st (ucast (Display_LEDs m)) is) new"
      using Cons.IH [OF rec] by auto
    have dr: "drivable st (ucast (Display_LEDs m)) (i # is) = i # drivable st (ucast (Display_LEDs m)) is"
        "drivable ?st (ucast (Display_LEDs m)) is = drivable st (ucast (Display_LEDs m)) is"
      using False drive_cong [OF l(2)] by (simp_all add: drivable_def)
    have "new_ctrls m vis lid cb num n (i # drivable st (ucast (Display_LEDs m)) is) (new @ [c\<lparr>onoff_state := on, timer := t\<rparr>])"
      using new(3) unfolding dr(2) by (auto simp: new_ctrls_def c_def led_ctrl_of_def same_model_def)
    then show ?thesis using new l unfolding dr(1) by (intro exI [of _ "new @ [c\<lparr>onoff_state := on, timer := t\<rparr>]"]) simp
  qed
qed

lemma close_leds_list:
  assumes "close_leds alloc m vis lid dis is made st = (st', True)"
  shows "\<exists>new. disp_ctrl_list st' = new @ disp_ctrl_list st \<and>
    (\<forall>c\<in>set new. same_model (ucast (Display_Model m)) lid c \<and> visiable_leds c = vis \<and> disabled c \<and> \<not> end_callback c)"
  using assms
proof (induction "is" arbitrary: made st)
  case Nil
  then show ?case by auto
next
  case (Cons i "is")
  show ?case
  proof (cases "dis AND led_bit i = 0 \<or> get_led_drive st (led_bit i) = None \<or> made")
    case True
    then show ?thesis using Cons.prems Cons.IH by (fastforce simp: Let_def split: if_splits)
  next
    case False
    let ?st = "if led_bit i AND vis \<noteq> 0 then led_ctrl_set_state (led_bit i) False st else st"
    define c where "c = closed_ctrl_of m vis lid dis (alloc ?st)"
    have "close_leds alloc m vis lid dis is True (add_ctrl c ?st) = (st', True)"
      using Cons.prems False unfolding c_def by (simp add: Let_def split: if_splits)
    from Cons.IH [OF this] obtain new where "disp_ctrl_list st' = new @ disp_ctrl_list (add_ctrl c ?st)"
        "\<forall>c\<in>set new. same_model (ucast (Display_Model m)) lid c \<and> visiable_leds c = vis \<and> disabled c \<and> \<not> end_callback c"
      by auto
    then show ?thesis
      by (intro exI [of _ "new @ [c]"]) (auto simp: add_ctrl_def c_def closed_ctrl_of_def same_model_def)
  qed
qed

text \<open>The addresses of the controls stay distinct.\<close>

lemma upd_ctrl_addrs:
  assumes "\<And>c. c_addr (f c) = c_addr c"
  shows "map c_addr (disp_ctrl_list (upd_ctrl a f st)) = map c_addr (disp_ctrl_list st)"
  using assms by (simp add: upd_ctrl_def)

lemma start_display_addrs: "map c_addr (disp_ctrl_list (led_ctrl_start_display c st)) = map c_addr (disp_ctrl_list st)"
  by (simp add: led_ctrl_start_display_def Let_def upd_ctrl_addrs)

lemma ctrl_ok_cong: "map c_addr (disp_ctrl_list st') = map c_addr (disp_ctrl_list st) \<Longrightarrow> ctrl_ok st' = ctrl_ok st"
  by (simp add: ctrl_ok_def)

lemma add_ctrl_ok: "ctrl_ok st \<Longrightarrow> c_addr c \<notin> c_addr ` set (disp_ctrl_list st) \<Longrightarrow> ctrl_ok (add_ctrl c st)"
  by (simp add: ctrl_ok_def add_ctrl_def)

lemma fold_stop_ok: "ctrl_ok st \<Longrightarrow> ctrl_ok (fold led_ctrl_stop_quiet cs st)"
  by (simp add: ctrl_ok_def fold_stop_list distinct_map_filter)

lemma start_leds_ok:
  assumes "fresh_alloc alloc"
  shows "ctrl_ok st \<Longrightarrow> ctrl_ok (fst (start_leds alloc m vis lid cb num is n dis st))"
proof (induction "is" arbitrary: n dis st)
  case (Cons i "is")
  let ?c = "led_ctrl_of m vis lid cb num n i (alloc st)"
  have "ctrl_ok (led_ctrl_start_display ?c (add_ctrl ?c st))" if "alloc st \<noteq> 0"
    unfolding ctrl_ok_cong [OF start_display_addrs]
    using Cons.prems that assms by (intro add_ctrl_ok) (simp_all add: fresh_alloc_def led_ctrl_of_def)
  then show ?case using Cons.prems Cons.IH by (simp add: Let_def)
qed simp

lemma close_leds_ok:
  assumes "fresh_alloc alloc"
  shows "ctrl_ok st \<Longrightarrow> ctrl_ok (fst (close_leds alloc m vis lid dis is made st))"
proof (induction "is" arbitrary: made st)
  case (Cons i "is")
  have s: "ctrl_ok (led_ctrl_set_state leds b st)" for leds b using Cons.prems by (simp add: ctrl_ok_def)
  have c: "ctrl_ok (add_ctrl (closed_ctrl_of m vis lid dis (alloc s)) s)" if "ctrl_ok s" "alloc s \<noteq> 0" for s
    using that assms by (intro add_ctrl_ok) (simp_all add: fresh_alloc_def closed_ctrl_of_def)
  show ?case using Cons.prems Cons.IH s c by (simp add: Let_def)
qed simp

lemma start_model_ok:
  assumes "fresh_alloc alloc" "ctrl_ok st"
  shows "ctrl_ok (fst (led_ctrl_start_model alloc m vis lid cb st))"
proof -
  let ?run = "filter (same_model (ucast (Display_Model m)) lid) (disp_ctrl_list st)"
  let ?r = "start_leds alloc m vis lid cb (get_num_leds (fold led_ctrl_stop_quiet ?run st) (ucast (Display_LEDs m)))
      [0..<8] 0 (ucast (Disable_LEDs m)) (fold led_ctrl_stop_quiet ?run st)"
  have "ctrl_ok (fst ?r)" by (rule start_leds_ok [OF assms(1) fold_stop_ok [OF assms(2)]])
  then show ?thesis using assms(2) close_leds_ok [OF assms(1)]
    by (cases ?r) (auto simp: led_ctrl_start_model_def Let_def)
qed

lemma stop_display_ok:
  assumes "\<And>m l st. disp_ctrl_list (cb m l st) = disp_ctrl_list st" "ctrl_ok st"
  shows "ctrl_ok (led_ctrl_stop_display cb c b st)"
proof -
  have "ctrl_ok (led_ctrl_stop_quiet c st)" using fold_stop_ok [OF assms(2), of "[c]"] by simp
  moreover have "ctrl_ok (cb m l s) = ctrl_ok s" for m l s using assms(1) by (simp add: ctrl_ok_def)
  ultimately show ?thesis by (simp add: led_ctrl_stop_display_def Let_def fold_stop_ok)
qed

lemma timer_handler_ok:
  assumes "\<And>m l st. disp_ctrl_list (cb m l st) = disp_ctrl_list st" "ctrl_ok st"
  shows "ctrl_ok (led_ctrl_timer_handler cb a st)"
proof -
  have u: "ctrl_ok (upd_ctrl a f s) = ctrl_ok s" if "\<And>c. c_addr (f c) = c_addr c" for f s
    by (rule ctrl_ok_cong [OF upd_ctrl_addrs [OF that]])
  have s: "ctrl_ok (led_ctrl_set_state_ex c on s) = ctrl_ok s" for c on s by (simp add: ctrl_ok_def)
  show ?thesis using assms(2)
    by (simp add: led_ctrl_timer_handler_def Let_def u s stop_display_ok [OF assms(1)] split: option.split)
qed

text \<open>
  starting a display model on a layer replaces its controls there: unless it already runs with the
  same visible LEDs, the old controls of that model and layer go, all others stay in place, there
  is one enabled control for each LED of the model that has a driver, and the end callback is attached to exactly one
  of them, so it is called once.
\<close>

theorem led_start_model_spec:
  assumes al: "fresh_alloc alloc" and ok: "ctrl_ok st" and m: "Display_Model m \<noteq> 0"
    and new: "\<forall>c\<in>set (disp_ctrl_list st). same_model (ucast (Display_Model m)) lid c \<longrightarrow> visiable_leds c \<noteq> vis"
    and run: "led_ctrl_start_model alloc m vis lid cb st = (st', True)"
  shows "\<exists>new. disp_ctrl_list st' = new @ filter (\<lambda>c. \<not> same_model (ucast (Display_Model m)) lid c) (disp_ctrl_list st) \<and>
    (\<forall>c\<in>set new. same_model (ucast (Display_Model m)) lid c \<and> visiable_leds c = vis) \<and>
    map (\<lambda>c. Display_LEDs (disp_model c)) (filter (\<lambda>c. \<not> disabled c) new) =
      rev (map (\<lambda>i. ucast (led_bit i)) (drivable st (ucast (Display_LEDs m)) [0..<8])) \<and>
    length (filter end_callback new) = (if cb \<and> drivable st (ucast (Display_LEDs m)) [0..<8] \<noteq> [] then 1 else 0)"
proof -
  let ?same = "same_model (ucast (Display_Model m)) lid"
  let ?run = "filter ?same (disp_ctrl_list st)"
  let ?st1 = "fold led_ctrl_stop_quiet ?run st"
  let ?num = "get_num_leds ?st1 (ucast (Display_LEDs m))"
  have "\<not> (?run \<noteq> [] \<and> visiable_leds (hd ?run) = vis)"
    using new hd_in_set [of ?run] by auto
  then obtain st2 n dis where s: "start_leds alloc m vis lid cb ?num [0..<8] 0 (ucast (Disable_LEDs m)) ?st1 = (st2, n, dis, True)"
      "close_leds alloc m vis lid dis [0..<8] False st2 = (st', True)"
    using run m by (auto simp: led_ctrl_start_model_def Let_def split: prod.splits if_splits)
  have l1: "disp_ctrl_list ?st1 = filter (\<lambda>c. \<not> ?same c) (disp_ctrl_list st)" by (rule stop_matching [OF ok])
  have d: "drivable ?st1 = drivable st"
    using drive_cong [OF fold_stop_list(2) [of ?run st]] by (simp add: drivable_def fun_eq_iff)
  have num: "?num = length (drivable st (ucast (Display_LEDs m)) [0..<8])"
    using d by (simp add: get_num_leds_def drivable_def fun_eq_iff)
  obtain new1 where n1: "disp_ctrl_list st2 = new1 @ disp_ctrl_list ?st1"
      "new_ctrls m vis lid cb ?num 0 (drivable st (ucast (Display_LEDs m)) [0..<8]) new1"
    using start_leds_list [OF al s(1)] unfolding d by blast
  obtain new2 where n2: "disp_ctrl_list st' = new2 @ disp_ctrl_list st2"
      "\<forall>c\<in>set new2. ?same c \<and> visiable_leds c = vis \<and> disabled c \<and> \<not> end_callback c"
    using close_leds_list [OF s(2)] by blast
  have f2: "filter (\<lambda>c. \<not> disabled c) new2 = []" "filter end_callback new2 = []"
    using n2(2) by (auto simp: filter_empty_conv)
  have f1: "filter (\<lambda>c. \<not> disabled c) new1 = new1" using n1(2) by (auto simp: new_ctrls_def filter_id_conv)
  show ?thesis
    using n1 n2 f1 f2 num l1
    by (intro exI [of _ "new2 @ new1"]) (auto simp: new_ctrls_def)
qed

definition ex_alloc :: "led_driver \<Rightarrow> u32" where
  "ex_alloc st = (if 64 \<in> c_addr ` set (disp_ctrl_list st) then 0 else 64)"

lemma ex_alloc_fresh: "fresh_alloc ex_alloc"
  by (simp add: fresh_alloc_def ex_alloc_def)

lemma upt_8: "[0..<8] = [0, 1, 2, 3, 4, 5, 6, 7]"
  by (simp add: upt_rec)

lemma ex_start_runs: "snd (led_ctrl_start_model ex_alloc ex_model 1 2 True (ex_driver\<lparr>disp_ctrl_list := []\<rparr>))"
  unfolding upt_8 led_ctrl_start_model_def get_num_leds_def
  by code_simp

theorem led_start_model_spec_witness:
  "case led_ctrl_start_model ex_alloc ex_model 1 2 True (ex_driver\<lparr>disp_ctrl_list := []\<rparr>) of (st', r) \<Rightarrow> r \<and>
    (\<exists>new. disp_ctrl_list st' = new \<and> (\<forall>c\<in>set new. same_model 5 2 c \<and> visiable_leds c = 1) \<and>
      map (\<lambda>c. Display_LEDs (disp_model c)) (filter (\<lambda>c. \<not> disabled c) new) =
        rev (map (\<lambda>i. ucast (led_bit i)) (drivable (ex_driver\<lparr>disp_ctrl_list := []\<rparr>) (ucast (Display_LEDs ex_model)) [0..<8])))"
proof -
  obtain st' where run: "led_ctrl_start_model ex_alloc ex_model 1 2 True (ex_driver\<lparr>disp_ctrl_list := []\<rparr>) = (st', True)"
    using ex_start_runs by (metis prod.collapse)
  have "ucast (Display_Model ex_model) = (5 :: u32)" by (simp add: ex_model_def)
  then show ?thesis
    using led_start_model_spec [OF ex_alloc_fresh _ _ _ run] unfolding run
    by (simp add: ctrl_ok_def ex_model_def)
qed

end
