(* ===== verification/Led_Display.thy ===== *)
theory Led_Display
  imports Led_Layer Led_Ctrl "HOL-Library.Sublist"
begin

text \<open>
  The LED display of \<^verbatim>\<open>src/application/bt_earphone/src/libsrc/led_display/led_display.c\<close>: it gives the
  layers their display models, decides from the layers which LEDs each model may drive, and starts
  the models from back to front. It ties the layers and the driver control together; the end callback
  of a display model is \<open>led_model_end_callback\<close>.

  The stored configuration, the allocator and the device type check of the key map are parameters
  (record \<open>led_env\<close>). \<open>None\<close> is a use of the uninitialised number of layers after a failed allocation.
\<close>

unbundle bit_operations_syntax

section \<open>Model\<close>

record led_system = led_driver +
  led_display :: led_display_context
  s_led_model :: u8

record led_env =
  cfg_models :: "display_model list"
  cfg_drives :: "led_drive list"
  malloc_ok :: "led_system \<Rightarrow> bool"
  ctrl_alloc :: "led_system \<Rightarrow> u32"
  paint_ok :: "led_system \<Rightarrow> nat \<Rightarrow> bool"
  dev_type_ok :: "u32 \<Rightarrow> bool"

text \<open>The part of \<open>system_notify_ctrl_t\<close> the LED display uses.\<close>

record notify_ctrl =
  n_layer_id :: u8
  set_led_display :: bool
  end_led_display :: bool
  led_disp_only :: bool
  LED_Display :: u8
  LED_Override :: u8

record led_paint_info =
  p_region :: led_region
  p_layer_id :: u8
  p_led_model_id :: u8

definition led_notify_check_options :: "led_env \<Rightarrow> u8 \<Rightarrow> bool" where
  "led_notify_check_options E option = dev_type_ok E (ucast (drop_bit 2 option))"

definition led_model_get_config :: "led_env \<Rightarrow> led_system \<Rightarrow> u32 \<Rightarrow> display_model option" where
  "led_model_get_config E st model =
     (if model = 0 \<or> \<not> malloc_ok E st then None
      else List.find (\<lambda>m. ucast (Display_Model m) = model) (cfg_models E))"

definition led_model_get_disp_leds :: "led_env \<Rightarrow> led_system \<Rightarrow> u32 \<Rightarrow> u32" where
  "led_model_get_disp_leds E st model =
     (case led_model_get_config E st model of
        None \<Rightarrow> 0 | Some m \<Rightarrow> ucast (Display_LEDs m) OR ucast (Disable_LEDs m))"

definition upd_display :: "(led_display_context \<Rightarrow> led_display_context) \<Rightarrow> led_system \<Rightarrow> led_system" where
  "upd_display f st = st\<lparr>led_display := f (led_display st)\<rparr>"

definition led_model_end_callback :: "u32 \<Rightarrow> u32 \<Rightarrow> led_system \<Rightarrow> led_system" where
  "led_model_end_callback model lid st =
     upd_display (\<lambda>d.
       case led_layer_get_context d (ucast lid) of
         None \<Rightarrow> d
       | Some layer \<Rightarrow>
           let d1 = (if disp_leds layer \<noteq> 0
                     then fst (led_layer_set_region (layer_id layer) (led_region_clip (region layer) (ucast (disp_leds layer))) d)
                     else d)
           in upd_layer (ucast lid) (\<lambda>t. t\<lparr>led_model_id := 0, disp_leds := 0\<rparr>) d1) st"

definition led_layer_get_model :: "led_system \<Rightarrow> u8 \<Rightarrow> u8" where
  "led_layer_get_model st lid =
     (case led_layer_get_context (led_display st) lid of None \<Rightarrow> 0 | Some layer \<Rightarrow> led_model_id layer)"

definition led_layer_set_model :: "led_env \<Rightarrow> u8 \<Rightarrow> u32 \<Rightarrow> led_system \<Rightarrow> led_system \<times> bool" where
  "led_layer_set_model E lid model st =
     (case led_layer_get_context (led_display st) lid of
        None \<Rightarrow> (st, False)
      | Some layer \<Rightarrow>
          let st1 = (if led_model_id layer \<noteq> 0
                     then led_ctrl_stop_model (ucast (led_model_id layer)) (ucast (layer_id layer)) st else st);
              st2 = (if disp_leds layer \<noteq> 0
                     then upd_display (\<lambda>d. fst (led_layer_set_region (layer_id layer)
                            (led_region_clip (region layer) (ucast (disp_leds layer))) d)) st1
                     else st1);
              leds = (ucast (led_model_get_disp_leds E st2 model) :: u16);
              st3 = upd_display (upd_layer lid (\<lambda>t. t\<lparr>led_model_id := ucast model, disp_leds := leds\<rparr>)) st2
          in (if leds \<noteq> 0
              then upd_display (\<lambda>d. case led_layer_get_context d lid of
                     None \<Rightarrow> d
                   | Some l3 \<Rightarrow> fst (led_layer_set_region (layer_id l3) (led_region_merge (region l3) (ucast leds)) d)) st3
              else st3, True))"

text \<open>
  The loop of \<open>led_display_update\<close> over the layer ids, front first: the paint list has the layer in
  front at its end, so that painting goes from back to front. \<open>ok n\<close> is the success of the allocation
  of the \<open>n\<close>-th paint record; \<open>None\<close> is the early return when one fails.
\<close>

fun collect_paints ::
    "(nat \<Rightarrow> bool) \<Rightarrow> bool \<Rightarrow> led_display_context \<Rightarrow> u8 list \<Rightarrow> led_region \<Rightarrow> led_paint_info list \<Rightarrow> led_paint_info list option" where
  "collect_paints ok all_leds d [] upd ps = Some ps"
| "collect_paints ok all_leds d (lid # lids) upd ps =
     (case led_layer_get_context d lid of
        None \<Rightarrow> collect_paints ok all_leds d lids upd ps
      | Some layer \<Rightarrow>
          if \<not> led_region_valid (region layer) then collect_paints ok all_leds d lids upd ps
          else let r = led_region_intersect upd (region layer)
               in if \<not> led_region_valid r \<and> \<not> all_leds then collect_paints ok all_leds d lids upd ps
                  else if \<not> ok (length ps) then None
                  else let ps' = \<lparr>p_region = r, p_layer_id = lid, p_led_model_id = led_model_id layer\<rparr> # ps;
                           upd' = led_region_clip upd r
                       in if \<not> led_region_valid upd' \<and> \<not> all_leds then Some ps'
                          else collect_paints ok all_leds d lids upd' ps')"

definition paint_one :: "led_env \<Rightarrow> led_paint_info \<Rightarrow> led_system \<Rightarrow> led_system" where
  "paint_one E p st =
     (case led_model_get_config E st (ucast (p_led_model_id p)) of
        None \<Rightarrow> st
      | Some m \<Rightarrow> fst (led_ctrl_start_model (ctrl_alloc E) m (p_region p) (ucast (p_layer_id p)) True st))"

definition led_display_update :: "led_env \<Rightarrow> led_system \<Rightarrow> led_system option" where
  "led_display_update E st =
     (let upd = update_region (led_display st)
      in if \<not> led_region_valid upd then Some st
         else let st1 = upd_display (\<lambda>d. d\<lparr>update_region := LED_REGION_NONE\<rparr>) st
              in case led_layer_get_list (malloc_ok E st1) (led_display st1) of
                   None \<Rightarrow> None
                 | Some lids \<Rightarrow>
                     let all_leds = led_region_valid (led_region_intersect upd LED_REGION_ALL_LEDS);
                         upd1 = (if all_leds then led_region_merge upd LED_REGION_ALL_LEDS else upd)
                     in case collect_paints (paint_ok E st1) all_leds (led_display st1) lids upd1 [] of
                          None \<Rightarrow> Some st1
                        | Some ps \<Rightarrow> Some (fold (paint_one E) ps st1))"

definition led_notify_start_display :: "led_env \<Rightarrow> notify_ctrl \<Rightarrow> led_system \<Rightarrow> (led_system \<times> notify_ctrl) option" where
  "led_notify_start_display E n st =
     (let model = led_layer_get_model st (n_layer_id n)
      in if \<not> set_led_display n
         then let n1 = n\<lparr>set_led_display := True\<rparr>;
                  st1 = (if model \<noteq> LED_Display n then fst (led_layer_set_model E (n_layer_id n) (ucast (LED_Display n)) st) else st);
                  st2 = upd_display (\<lambda>d. fst (led_layer_set_order (n_layer_id n) (ucast (LED_Override n)) d)) st1
              in map_option (\<lambda>s. (s, if led_disp_only n1 then n1\<lparr>end_led_display := True\<rparr> else n1)) (led_display_update E st2)
         else if \<not> led_ctrl_check_model (ucast model) (ucast (n_layer_id n)) st
         then map_option (\<lambda>s. (s, n\<lparr>end_led_display := True\<rparr>)) (led_display_update E st)
         else Some (st, n))"

definition is_led_layer_notify :: "notify_ctrl \<Rightarrow> bool" where
  "is_led_layer_notify n \<longleftrightarrow> n_layer_id n = LED_LAYER_SYS_NOTIFY"

definition led_notify_stop_display :: "led_env \<Rightarrow> u8 \<Rightarrow> led_system \<Rightarrow> led_system option" where
  "led_notify_stop_display E lid st =
     (if led_layer_get_model st lid \<noteq> 0 then led_display_update E (fst (led_layer_set_model E lid 0 st)) else Some st)"

definition led_display_init :: "led_env \<Rightarrow> led_system \<Rightarrow> led_system" where
  "led_display_init E st =
     fold (\<lambda>i s. upd_display (\<lambda>d. fst (led_layer_create (malloc_ok E s) (of_nat i) d)) s) [0..<LED_LAYER_MAX]
       (led_ctrl_init (cfg_drives E) st)"

definition led_display_deinit :: "led_system \<Rightarrow> led_system" where
  "led_display_deinit st = fold (\<lambda>i. upd_display (\<lambda>d. fst (led_layer_delete (of_nat i) d))) [0..<LED_LAYER_MAX] st"

definition led_display_sleep :: "led_system \<Rightarrow> led_system" where
  "led_display_sleep st = st\<lparr>s_led_model := led_layer_get_model st LED_LAYER_CHARGER\<rparr>"

definition led_display_wakeup :: "led_env \<Rightarrow> led_system \<Rightarrow> led_system option" where
  "led_display_wakeup E st = led_display_update E (fst (led_layer_set_model E LED_LAYER_CHARGER (ucast (s_led_model st)) st))"

section \<open>Which layer drives an LED\<close>

text \<open>The specification: an LED belongs to the front-most layer whose region contains it.\<close>

fun owner :: "led_layer list \<Rightarrow> nat \<Rightarrow> u8 option" where
  "owner [] n = None"
| "owner (t # ts) n = (if bit (region t) n then Some (layer_id t) else owner ts n)"

definition painted :: "led_paint_info list \<Rightarrow> u8 \<Rightarrow> nat \<Rightarrow> bool" where
  "painted ps lid n \<longleftrightarrow> (\<exists>p\<in>set ps. p_layer_id p = lid \<and> bit (p_region p) n)"

lemma painted_Cons [simp]: "painted (p # ps) lid n \<longleftrightarrow> p_layer_id p = lid \<and> bit (p_region p) n \<or> painted ps lid n"
  by (auto simp: painted_def)

lemma region_zero: "r = (0 :: u32) \<Longrightarrow> \<not> bit r n"
  by simp

lemma get_context_member:
  assumes "distinct (map layer_id (layer_list d))" "t \<in> set (layer_list d)"
  shows "led_layer_get_context d (layer_id t) = Some t"
proof -
  obtain t' where t': "led_layer_get_context d (layer_id t) = Some t'"
    using assms(2) by (cases "led_layer_get_context d (layer_id t)") (auto simp: led_layer_get_context_def find_None_iff)
  then show ?thesis using layer_in_context [OF t'] assms by (auto simp: distinct_map dest: inj_onD)
qed

text \<open>One step of the loop, for a layer of the list.\<close>

lemma collect_paints_step:
  assumes "led_layer_get_context d lid = Some t" "collect_paints ok all_leds d (lid # lids) upd ps = Some qs"
  obtains "region t = 0 \<or> upd AND region t = 0" "collect_paints ok all_leds d lids upd ps = Some qs"
  | p where "p = \<lparr>p_region = upd AND region t, p_layer_id = lid, p_led_model_id = led_model_id t\<rparr>"
      "collect_paints ok all_leds d lids (upd AND NOT (upd AND region t)) (p # ps) = Some qs \<or>
       qs = p # ps \<and> upd AND NOT (upd AND region t) = 0"
  using assms by (auto simp: region_defs Let_def split: if_splits)

lemma collect_paints_owner:
  assumes "distinct (map layer_id (layer_list d))" "set ts \<subseteq> set (layer_list d)"
    "collect_paints ok all_leds d (map layer_id ts) upd ps = Some qs"
  shows "painted qs lid n \<longleftrightarrow> painted ps lid n \<or> bit upd n \<and> owner ts n = Some lid"
  using assms(2,3)
proof (induction ts arbitrary: upd ps)
  case Nil
  then show ?case by simp
next
  case (Cons t ts)
  let ?r = "upd AND region t"
  have c: "led_layer_get_context d (layer_id t) = Some t" using get_context_member [OF assms(1)] Cons.prems by simp
  have IH: "painted qs lid n \<longleftrightarrow> painted ps lid n \<or> bit u n \<and> owner ts n = Some lid"
    if "collect_paints ok all_leds d (map layer_id ts) u ps = Some qs" for u ps
    using Cons that by simp
  have z: "?r = 0 \<Longrightarrow> bit upd n \<Longrightarrow> \<not> bit (region t) n" by (rule disjoint_bits)
  have u: "bit (upd AND NOT ?r) n \<longleftrightarrow> bit upd n \<and> \<not> bit (region t) n"
    by (auto simp: bit_and_iff bit_or_iff bit_not_iff dest: bit_imp_le_length)
  show ?case using c Cons.prems(2) unfolding list.map
  proof (cases rule: collect_paints_step)
    case 1
    then have "\<not> (bit upd n \<and> bit (region t) n)" using z by auto
    then show ?thesis using IH [OF 1(2)] by auto
  next
    case (2 p)
    from 2(2) show ?thesis
    proof
      assume "collect_paints ok all_leds d (map layer_id ts) (upd AND NOT ?r) (p # ps) = Some qs"
      from IH [OF this] show ?thesis using u 2(1) by (auto simp: bit_and_iff)
    next
      assume "qs = p # ps \<and> upd AND NOT ?r = 0"
      then show ?thesis using u 2(1) by (auto simp: bit_and_iff)
    qed
  qed
qed

lemma collect_paints_subseq:
  "collect_paints ok all_leds d lids upd ps = Some qs \<Longrightarrow> \<exists>rs. qs = rs @ ps \<and> subseq (rev (map p_layer_id rs)) lids"
proof (induction lids arbitrary: upd ps)
  case Nil
  then show ?case by simp
next
  case (Cons lid lids)
  show ?case
  proof (cases "led_layer_get_context d lid")
    case None
    then show ?thesis using Cons.IH [of upd ps] Cons.prems by (auto intro: list_emb_Cons)
  next
    case (Some t)
    from this Cons.prems show ?thesis
    proof (cases rule: collect_paints_step)
      case 1
      then show ?thesis using Cons.IH [of upd ps] by (auto intro: list_emb_Cons)
    next
      case (2 p)
      from 2(2) obtain rs where "qs = rs @ p # ps" "subseq (rev (map p_layer_id rs)) lids"
        using Cons.IH [of _ "p # ps"] by fastforce
      then show ?thesis using 2(1) by (intro exI [of _ "rs @ [p]"]) simp
    qed
  qed
qed

text \<open>
  C30: an update of the display lets every LED that is to be redrawn be driven by the front-most layer
  whose region contains it and by no other: the regions given to the display models are
  disjoint, and the layers are painted from back to front, each at most once.
\<close>

theorem led_paint_owner:
  assumes "layers_ok (layer_list d)"
    "collect_paints ok all_leds d (map layer_id (layer_list d)) upd [] = Some ps"
  shows "(painted ps lid n \<longleftrightarrow> bit upd n \<and> owner (layer_list d) n = Some lid) \<and>
    subseq (rev (map p_layer_id ps)) (map layer_id (layer_list d))"
  using assms(1) collect_paints_owner [OF _ _ assms(2), of lid n] collect_paints_subseq [OF assms(2)]
  by (auto simp: layers_ok_def painted_def)

theorem led_paint_owner_witness:
  "\<exists>ps. collect_paints (\<lambda>_. True) True ex_display (map layer_id (layer_list ex_display)) 255 [] = Some ps \<and> ps \<noteq> [] \<and>
    (painted ps 0 1 \<longleftrightarrow> bit (255 :: u32) 1 \<and> owner (layer_list ex_display) 1 = Some 0) \<and>
    subseq (rev (map p_layer_id ps)) (map layer_id (layer_list ex_display))"
proof -
  let ?c = "collect_paints (\<lambda>_. True) True ex_display (map layer_id (layer_list ex_display)) 255 []"
  have "case ?c of None \<Rightarrow> False | Some ps \<Rightarrow> ps \<noteq> []" by code_simp
  then obtain ps where ps: "?c = Some ps" "ps \<noteq> []" by (cases ?c) auto
  then show ?thesis using led_paint_owner [OF ex_display_ok ps(1), of 0 1] by blast
qed

section \<open>The invariant of the display\<close>

text \<open>The driver control does not touch the layers.\<close>

lemma ctrl_keeps_display:
  fixes st :: "'a led_system_scheme"
  shows "led_display (act as st) = led_display st" "led_display (led_ctrl_set_state leds on st) = led_display st"
    "led_display (led_ctrl_set_state_ex c on st) = led_display st" "led_display (led_ctrl_start_pwm_display c st) = led_display st"
    "led_display (led_ctrl_stop_pwm_display c st) = led_display st" "led_display (upd_ctrl a f st) = led_display st"
    "led_display (led_ctrl_stop_quiet c st) = led_display st" "led_display (add_ctrl c st) = led_display st"
    "led_display (led_ctrl_start_display c st) = led_display st"
  by (simp_all add: act_def led_ctrl_set_state_def led_ctrl_set_state_ex_def led_ctrl_start_pwm_display_def Let_def
      led_ctrl_stop_pwm_display_def upd_ctrl_def led_ctrl_stop_quiet_def del_ctrl_def add_ctrl_def
      led_ctrl_start_display_def split: option.split)

lemma fold_stop_display: "led_display (fold led_ctrl_stop_quiet cs (st :: 'a led_system_scheme)) = led_display st"
  by (induction cs arbitrary: st) (simp_all add: ctrl_keeps_display)

lemma start_leds_display: "led_display (fst (start_leds alloc m vis lid cb num is n dis st)) = led_display st"
  by (induction "is" arbitrary: n dis st) (simp_all add: Let_def ctrl_keeps_display)

lemma close_leds_display: "led_display (fst (close_leds alloc m vis lid dis is made st)) = led_display st"
  by (induction "is" arbitrary: made st) (simp_all add: Let_def ctrl_keeps_display)

lemma start_model_display: "led_display (fst (led_ctrl_start_model alloc m vis lid cb st)) = led_display st"
proof -
  let ?st = "fold led_ctrl_stop_quiet (filter (same_model (ucast (Display_Model m)) lid) (disp_ctrl_list st)) st"
  let ?r = "start_leds alloc m vis lid cb (get_num_leds ?st (ucast (Display_LEDs m))) [0..<8] 0 (ucast (Disable_LEDs m)) ?st"
  have "led_display (fst ?r) = led_display st" by (simp add: start_leds_display fold_stop_display)
  then show ?thesis by (cases ?r) (auto simp: led_ctrl_start_model_def Let_def close_leds_display)
qed

lemma stop_model_display: "led_display (led_ctrl_stop_model model lid st) = led_display st"
  by (simp add: led_ctrl_stop_model_def fold_stop_display)

text \<open>
  The pair of display model and layer a control runs for. Starting a model adds at most its own pair,
  stopping one takes its pair away, and a tick of a timer adds none.
\<close>

definition ctrl_key :: "display_ctrl \<Rightarrow> u8 \<times> u32" where
  "ctrl_key c = (Display_Model (disp_model c), c_layer_id c)"

definition running :: "'a led_driver_scheme \<Rightarrow> (u8 \<times> u32) set" where
  "running st = ctrl_key ` set (disp_ctrl_list st)"

lemma upd_ctrl_running: "(\<And>c. ctrl_key (f c) = ctrl_key c) \<Longrightarrow> running (upd_ctrl a f st) = running st"
  by (auto simp: running_def upd_ctrl_def image_Un image_image)

lemma running_cong: "disp_ctrl_list st = disp_ctrl_list st' \<Longrightarrow> running st = running st'"
  by (simp add: running_def)

lemma running_set_state [simp]:
  "running (led_ctrl_set_state leds on st) = running st" "running (led_ctrl_set_state_ex c on st) = running st"
  "running (led_ctrl_start_pwm_display c st) = running st" "running (upd_display f sys) = running sys"
  by (simp_all add: running_def upd_display_def)

lemma running_add [simp]: "running (add_ctrl c st) = insert (ctrl_key c) (running st)"
  by (simp add: running_def add_ctrl_def)

lemma running_stop_quiet: "running (led_ctrl_stop_quiet c st) \<subseteq> running st"
  by (auto simp: running_def)

lemma running_fold_stop: "running (fold led_ctrl_stop_quiet cs st) \<subseteq> running st"
  by (auto simp: running_def fold_stop_list)

lemma running_stopped:
  assumes "\<And>c. c \<in> set (disp_ctrl_list st) \<Longrightarrow> same_model (ucast m) lid c \<Longrightarrow> P c"
  shows "running (fold led_ctrl_stop_quiet (filter P (disp_ctrl_list st)) st) \<subseteq> running st - {(m, lid)}"
  using assms by (auto simp: running_def fold_stop_list ctrl_key_def same_model_def image_iff)

lemma running_start_display [simp]: "running (led_ctrl_start_display c st) = running st"
  by (simp add: led_ctrl_start_display_def Let_def upd_ctrl_running ctrl_key_def)

lemma running_start_leds:
  "running (fst (start_leds alloc m vis lid cb num is n dis st)) \<subseteq> insert (Display_Model m, lid) (running st)"
proof (induction "is" arbitrary: n dis st)
  case (Cons i "is")
  let ?c = "led_ctrl_of m vis lid cb num n i (alloc st)"
  have "ctrl_key ?c = (Display_Model m, lid)" by (simp add: ctrl_key_def led_ctrl_of_def)
  then show ?case using Cons [of n _ st] Cons [of "n + 1" _ "led_ctrl_start_display ?c (add_ctrl ?c st)"]
    by (auto simp: Let_def)
qed auto

lemma running_close_leds:
  "running (fst (close_leds alloc m vis lid dis is made st)) \<subseteq> insert (Display_Model m, lid) (running st)"
proof (induction "is" arbitrary: made st)
  case (Cons i "is")
  let ?st = "if led_bit i AND vis \<noteq> 0 then led_ctrl_set_state (led_bit i) False st else st"
  let ?c = "closed_ctrl_of m vis lid dis (alloc ?st)"
  have k: "ctrl_key ?c = (Display_Model m, lid)" by (simp add: ctrl_key_def closed_ctrl_of_def)
  have s: "running ?st = running st" by simp
  show ?case
    using Cons [of made st] Cons [of made ?st] Cons [of True "add_ctrl ?c ?st"]
    unfolding running_add k s by (auto simp: Let_def)
qed auto

lemma running_start_model:
  "running (fst (led_ctrl_start_model alloc m vis lid cb st)) \<subseteq> insert (Display_Model m, lid) (running st)"
proof -
  let ?run = "filter (same_model (ucast (Display_Model m)) lid) (disp_ctrl_list st)"
  let ?st = "fold led_ctrl_stop_quiet ?run st"
  let ?r = "start_leds alloc m vis lid cb (get_num_leds ?st (ucast (Display_LEDs m))) [0..<8] 0 (ucast (Disable_LEDs m)) ?st"
  have 1: "running (fst ?r) \<subseteq> insert (Display_Model m, lid) (running st)"
    using running_start_leds running_fold_stop by fast
  have 2: "running (fst (close_leds alloc m vis lid dis is b s)) \<subseteq> insert (Display_Model m, lid) (running st)"
    if "running s \<subseteq> insert (Display_Model m, lid) (running st)" for dis "is" b s
    using running_close_leds that by fast
  obtain s n dis ok where r: "?r = (s, n, dis, ok)" by (cases ?r)
  then show ?thesis using 1 2 [of s dis "[0..<8]" False] unfolding led_ctrl_start_model_def Let_def r by auto
qed

lemma ucast_u8_zero: "ucast (m :: u8) = (0 :: u32) \<longleftrightarrow> m = 0"
proof -
  have "unat (ucast m :: u32) = unat m" by transfer simp
  then show ?thesis by (metis unat_eq_0)
qed

lemma running_stop_model:
  assumes "m \<noteq> 0"
  shows "running (led_ctrl_stop_model (ucast (m :: u8)) lid st) \<subseteq> running st - {(m, lid)}"
proof -
  have "ucast m \<noteq> (0 :: u32)" using assms by (simp add: ucast_u8_zero)
  then show ?thesis using running_stopped [of st m lid] by (simp add: led_ctrl_stop_model_def)
qed

lemma led_display_upd [simp]: "led_display (upd_display f st) = f (led_display st)"
  by (simp add: upd_display_def)

text \<open>
  The invariant of the layers: sorted, one for each id, and the region of a layer is the set of LEDs
  that its display model shows or switches off (\<open>model_leds\<close>, read off the stored configuration), empty
  when the layer has no model or the configuration does not know it.
\<close>

definition model_leds :: "display_model list \<Rightarrow> u8 \<Rightarrow> u16" where
  "model_leds ms model =
     (if model = 0 then 0
      else case List.find (\<lambda>m. Display_Model m = model) ms of
             None \<Rightarrow> 0 | Some m \<Rightarrow> ucast (Display_LEDs m OR Disable_LEDs m))"

definition tied :: "led_env \<Rightarrow> led_layer \<Rightarrow> bool" where
  "tied E t \<longleftrightarrow> region t = ucast (disp_leds t) \<and> disp_leds t = model_leds (cfg_models E) (led_model_id t)"

definition display_ok :: "led_env \<Rightarrow> led_display_context \<Rightarrow> bool" where
  "display_ok E d \<longleftrightarrow> layers_ok (layer_list d) \<and> set (map layer_id (layer_list d)) = {0, 1, 2, 3} \<and> list_all (tied E) (layer_list d)"

lemma upd_first_compose:
  "(\<And>t. layer_id (g t) = layer_id t) \<Longrightarrow> upd_first lid f (upd_first lid g ts) = upd_first lid (f \<circ> g) ts"
  by (induction ts) auto

lemma upd_first_cong:
  "(\<And>t. List.find (\<lambda>t. layer_id t = lid) ts = Some t \<Longrightarrow> f t = g t) \<Longrightarrow> upd_first lid f ts = upd_first lid g ts"
  by (induction ts) auto

lemma upd_first_same:
  "(\<And>t. List.find (\<lambda>t. layer_id t = lid) ts = Some t \<Longrightarrow> f t = t) \<Longrightarrow> upd_first lid f ts = ts"
  by (induction ts) auto

lemma upd_first_none: "List.find (\<lambda>t. layer_id t = lid) ts = None \<Longrightarrow> upd_first lid f ts = ts"
  by (rule upd_first_same) simp

lemma find_upd_first:
  assumes "\<And>t. layer_id (f t) = layer_id t"
  shows "List.find (\<lambda>t. layer_id t = lid) (upd_first lid f ts) = map_option f (List.find (\<lambda>t. layer_id t = lid) ts)"
  using assms by (induction ts) auto

lemma upd_first_all: "list_all P ts \<Longrightarrow> (\<And>t. P t \<Longrightarrow> P (f t)) \<Longrightarrow> list_all P (upd_first lid f ts)"
  by (induction ts) auto

lemma set_region_list:
  assumes "distinct (map layer_id (layer_list d))"
  shows "layer_list (fst (led_layer_set_region lid r d)) = upd_first lid (\<lambda>t. t\<lparr>region := r\<rparr>) (layer_list d)"
proof (cases "led_layer_get_context d lid")
  case None
  then show ?thesis by (simp add: led_layer_set_region_def led_layer_get_context_def upd_first_none)
next
  case (Some t)
  have "distinct (map layer_id (layer_list (upd_layer lid (\<lambda>t. t\<lparr>region := r\<rparr>) d)))" using assms by (simp add: upd_layer_def)
  then show ?thesis using Some need_update_all_effect(2) by (simp add: led_layer_set_region_def upd_layer_def)
qed

lemma clip_own_leds:
  assumes "distinct (map layer_id (layer_list d))" "led_layer_get_context d lid = Some t" "tied E t"
  shows "layer_list (if disp_leds t \<noteq> 0
      then fst (led_layer_set_region (layer_id t) (led_region_clip (region t) (ucast (disp_leds t))) d) else d) =
    upd_first lid (\<lambda>t. t\<lparr>region := 0\<rparr>) (layer_list d)"
proof -
  have f: "List.find (\<lambda>t. layer_id t = lid) (layer_list d) = Some t" using assms(2) by (simp add: led_layer_get_context_def)
  have t: "layer_id t = lid" using layer_in_context [OF assms(2)] by simp
  have "x AND NOT x = 0" for x :: u32 by (rule bit_eqI) (auto simp: bit_and_iff bit_not_iff)
  moreover have "upd_first lid (\<lambda>t. t\<lparr>region := 0\<rparr>) (layer_list d) = layer_list d" if "disp_leds t = 0"
    using assms(3) f that by (intro upd_first_same) (simp add: tied_def)
  ultimately show ?thesis using assms t by (simp add: set_region_list led_region_clip_def tied_def)
qed

definition assign :: "u8 \<Rightarrow> u16 \<Rightarrow> led_layer \<Rightarrow> led_layer" where
  "assign model leds t = t\<lparr>region := ucast leds, led_model_id := model, disp_leds := leds\<rparr>"

lemma end_callback_layers:
  assumes "display_ok E (led_display st)"
  shows "layer_list (led_display (led_model_end_callback model lid st)) =
    upd_first (ucast lid) (assign 0 0) (layer_list (led_display st))"
proof (cases "led_layer_get_context (led_display st) (ucast lid)")
  case None
  then show ?thesis
    by (simp add: led_model_end_callback_def upd_display_def led_layer_get_context_def upd_first_none)
next
  case (Some t)
  have "tied E t" "distinct (map layer_id (layer_list (led_display st)))"
    using assms layer_in_context [OF Some] by (auto simp: display_ok_def layers_ok_def list_all_iff)
  from clip_own_leds [OF this(2) Some this(1)] show ?thesis
    using Some by (simp add: led_model_end_callback_def upd_display_def upd_layer_def upd_first_compose comp_def assign_def [abs_def] Let_def)
qed
lemma ucast_u8_u32: "ucast (ucast (x :: u8) :: u32) = x" "(ucast x :: u32) = ucast y \<longleftrightarrow> x = (y :: u8)"
proof -
  show 1: "ucast (ucast (x :: u8) :: u32) = x" for x by transfer simp
  show "(ucast x :: u32) = ucast y \<longleftrightarrow> x = y" by (metis 1)
qed

lemma ucast_or_u8: "(ucast (ucast (a :: u8) OR ucast b :: u32) :: u16) = ucast (a OR b)"
  by (rule bit_word_eqI) (auto simp: bit_or_iff bit_ucast_iff)

lemma disp_leds_config:
  assumes "\<And>s. malloc_ok E s"
  shows "(ucast (led_model_get_disp_leds E st (ucast (model :: u8))) :: u16) = model_leds (cfg_models E) model"
  by (simp add: assms led_model_get_disp_leds_def led_model_get_config_def model_leds_def ucast_u8_zero ucast_u8_u32
      ucast_or_u8 split: option.split)

lemma set_model_layers:
  fixes model :: u8
  assumes "\<And>s. malloc_ok E s" "display_ok E (led_display st)"
  shows "layer_list (led_display (fst (led_layer_set_model E lid (ucast model) st))) =
    upd_first lid (assign model (model_leds (cfg_models E) model)) (layer_list (led_display st))"
proof (cases "led_layer_get_context (led_display st) lid")
  case None
  then show ?thesis
    by (simp add: led_layer_set_model_def led_layer_get_context_def upd_first_none)
next
  case (Some t)
  define st1 where "st1 = (if led_model_id t \<noteq> 0 then led_ctrl_stop_model (ucast (led_model_id t)) (ucast (layer_id t)) st else st)"
  define st2 where "st2 = (if disp_leds t \<noteq> 0 then upd_display (\<lambda>d. fst (led_layer_set_region (layer_id t)
      (led_region_clip (region t) (ucast (disp_leds t))) d)) st1 else st1)"
  define leds where "leds = (ucast (led_model_get_disp_leds E st2 (ucast model)) :: u16)"
  define d3 where "d3 = upd_layer lid (\<lambda>t. t\<lparr>led_model_id := model, disp_leds := leds\<rparr>) (led_display st2)"
  let ?t3 = "t\<lparr>region := 0, led_model_id := model, disp_leds := leds\<rparr>"
  have d1: "led_display st1 = led_display st" by (simp add: st1_def stop_model_display)
  have dist: "distinct (map layer_id (layer_list (led_display st)))" and tied: "tied E t" and tid: "layer_id t = lid"
    using assms(2) layer_in_context [OF Some] by (auto simp: display_ok_def layers_ok_def list_all_iff)
  have "layer_list (led_display st2) = upd_first lid (\<lambda>t. t\<lparr>region := 0\<rparr>) (layer_list (led_display st))"
    using clip_own_leds [OF dist Some tied] by (cases "disp_leds t = 0") (simp_all add: st2_def d1)
  then have l3: "layer_list d3 =
      upd_first lid (\<lambda>t. t\<lparr>region := 0, led_model_id := model, disp_leds := leds\<rparr>) (layer_list (led_display st))"
    by (simp add: d3_def upd_layer_def upd_first_compose comp_def)
  have dist3: "distinct (map layer_id (layer_list d3))" using dist by (simp add: l3)
  have f3: "led_layer_get_context d3 lid = Some ?t3"
    using Some by (simp add: led_layer_get_context_def l3 find_upd_first)
  have run: "led_display (fst (led_layer_set_model E lid (ucast model) st)) =
      (if leds \<noteq> 0 then fst (led_layer_set_region lid (ucast leds) d3) else d3)"
    using f3 tid unfolding led_layer_set_model_def Some option.case Let_def st1_def [symmetric] st2_def [symmetric]
      leds_def [symmetric] fst_conv if_distrib [of led_display] led_display_upd ucast_u8_u32 d3_def [symmetric]
    by (simp add: led_region_merge_def)
  have "layer_list (led_display (fst (led_layer_set_model E lid (ucast model) st))) =
      upd_first lid (assign model leds) (layer_list (led_display st))"
    unfolding run by (auto simp: set_region_list [OF dist3] l3 upd_first_compose assign_def intro!: upd_first_cong)
  then show ?thesis by (simp add: leds_def disp_leds_config [OF assms(1)])
qed

lemma assign_keeps [simp]: "layer_id (assign m leds t) = layer_id t" "layer_order (assign m leds t) = layer_order t"
    "led_model_id (assign m leds t) = m"
  by (simp_all add: assign_def)

lemma assign_ok:
  assumes "display_ok E d" "layer_list d' = upd_first lid (assign m (model_leds (cfg_models E) m)) (layer_list d)"
  shows "display_ok E d'"
  using assms upd_first_all [of "tied E" "layer_list d" "assign m (model_leds (cfg_models E) m)" lid]
  by (simp add: display_ok_def upd_first_ok tied_def assign_def del: set_map)

lemma set_order_display_ok:
  assumes "display_ok E d"
  shows "display_ok E (fst (led_layer_set_order lid order d))"
proof (cases "led_layer_get_context d lid")
  case None
  then show ?thesis using assms by (simp add: led_layer_set_order_def)
next
  case (Some t)
  have ok: "layers_ok (layer_list d)" using assms by (simp add: display_ok_def)
  obtain d' fs bs where s: "led_layer_set_order lid order d = (d', True)"
      "layer_list d' = fs @ t\<lparr>layer_order := ucast order\<rparr> # bs" "fs @ bs = remove_first lid (layer_list d)"
    using set_order_effect [OF ok Some, of order] by auto
  have "set fs \<union> set bs \<subseteq> set (layer_list d)" using set_remove_first [of lid "layer_list d"] s(3) [symmetric] by simp
  then have "list_all (tied E) (layer_list d')"
    using assms layer_in_context [OF Some] s(2) by (auto simp: display_ok_def list_all_iff tied_def)
  then show ?thesis using assms set_order_ok [OF ok, of lid order] s(1) by (simp add: display_ok_def)
qed
text \<open>The display models the layers hold; every running control belongs to one of them.\<close>

definition assigned :: "led_display_context \<Rightarrow> (u8 \<times> u32) set" where
  "assigned d = (\<lambda>t. (led_model_id t, ucast (layer_id t))) ` {t \<in> set (layer_list d). led_model_id t \<noteq> 0}"

definition system_inv :: "led_env \<Rightarrow> led_system \<Rightarrow> bool" where
  "system_inv E st \<longleftrightarrow> display_ok E (led_display st) \<and> ctrl_ok st \<and> running st \<subseteq> assigned (led_display st)"

lemma upd_first_other: "t \<in> set ts \<Longrightarrow> layer_id t \<noteq> lid \<Longrightarrow> t \<in> set (upd_first lid f ts)"
  by (induction ts) auto

lemma assign_running:
  assumes "layer_list d' = upd_first lid (assign m leds) (layer_list d)" "R \<subseteq> assigned d" "\<And>x. (x, ucast lid) \<notin> R"
  shows "R \<subseteq> assigned d'"
proof
  fix k
  assume k: "k \<in> R"
  then obtain t where t: "t \<in> set (layer_list d)" "led_model_id t \<noteq> 0" "k = (led_model_id t, ucast (layer_id t))"
    using assms(2) by (auto simp: assigned_def)
  then have "layer_id t \<noteq> lid" using assms(3) k by auto
  then show "k \<in> assigned d'" using t upd_first_other assms(1) by (auto simp: assigned_def)
qed

lemma assigned_model:
  assumes "display_ok E d" "(x, ucast lid) \<in> assigned d" "(y, ucast lid) \<in> assigned d"
  shows "x = y"
  using assms by (auto simp: assigned_def display_ok_def layers_ok_def ucast_u8_u32 distinct_map dest: inj_onD)

lemma set_model_inv:
  fixes model :: u8
  assumes "\<And>s. malloc_ok E s" "system_inv E st"
  shows "system_inv E (fst (led_layer_set_model E lid (ucast model) st))"
proof -
  let ?st' = "fst (led_layer_set_model E lid (ucast model) st)"
  have d: "display_ok E (led_display st)" and c: "ctrl_ok st" and r: "running st \<subseteq> assigned (led_display st)"
    using assms(2) by (simp_all add: system_inv_def)
  note l = set_model_layers [OF assms(1) d, of lid model]
  show ?thesis
  proof (cases "led_layer_get_context (led_display st) lid")
    case None
    then show ?thesis using assms(2) by (simp add: led_layer_set_model_def)
  next
    case (Some t)
    let ?st1 = "if led_model_id t \<noteq> 0 then led_ctrl_stop_model (ucast (led_model_id t)) (ucast (layer_id t)) st else st"
    have t: "t \<in> set (layer_list (led_display st))" "layer_id t = lid" using layer_in_context [OF Some] by simp_all
    have "disp_ctrl_list ?st' = disp_ctrl_list ?st1"
      by (simp add: led_layer_set_model_def Some Let_def upd_display_def)
    then have run: "running ?st' = running ?st1" and ok: "ctrl_ok ?st' = ctrl_ok ?st1"
      by (simp_all only: running_def ctrl_ok_def)
    have "running ?st1 \<subseteq> running st" using running_fold_stop by (simp add: led_ctrl_stop_model_def) fast
    moreover have "(x, ucast lid) \<notin> running ?st1" for x
    proof
      assume x: "(x, ucast lid) \<in> running ?st1"
      then have a: "(x, ucast lid) \<in> assigned (led_display st)" using calculation r by blast
      then have "x \<noteq> 0" by (auto simp: assigned_def)
      show False
      proof (cases "led_model_id t = 0")
        case True
        then show ?thesis using a d t by (auto simp: assigned_def display_ok_def layers_ok_def ucast_u8_u32 distinct_map dest: inj_onD)
      next
        case False
        then have "(led_model_id t, ucast lid) \<in> assigned (led_display st)" using t by (auto simp: assigned_def)
        then have "x = led_model_id t" using assigned_model [OF d a] by simp
        then show ?thesis using x False running_stop_model [OF False, of "ucast (layer_id t)" st] t(2) by auto
      qed
    qed
    ultimately have "running ?st' \<subseteq> assigned (led_display ?st')"
      using assign_running [OF l, of "running ?st1"] r run by simp
    moreover have "ctrl_ok ?st'" unfolding ok using c by (simp add: led_ctrl_stop_model_def fold_stop_ok)
    ultimately show ?thesis using assign_ok [OF d l] by (simp add: system_inv_def)
  qed
qed
lemma collect_paints_assigned:
  "collect_paints ok all_leds d lids upd ps = Some qs \<Longrightarrow> p \<in> set qs \<Longrightarrow>
   p \<in> set ps \<or> (\<exists>t\<in>set (layer_list d). p_layer_id p = layer_id t \<and> p_led_model_id p = led_model_id t)"
proof (induction lids arbitrary: upd ps)
  case (Cons lid lids)
  show ?case
  proof (cases "led_layer_get_context d lid")
    case None
    then show ?thesis using Cons by simp
  next
    case (Some t)
    have t: "t \<in> set (layer_list d)" "layer_id t = lid" using layer_in_context [OF Some] by simp_all
    from Some Cons.prems(1) show ?thesis
    proof (cases rule: collect_paints_step)
      case 1
      then show ?thesis using Cons.IH Cons.prems(2) by blast
    next
      case (2 q)
      then have "\<exists>t\<in>set (layer_list d). p_layer_id q = layer_id t \<and> p_led_model_id q = led_model_id t"
        using t by (intro bexI [of _ t]) simp_all
      then show ?thesis using 2(2) Cons.IH [of _ "q # ps"] Cons.prems(2) by (metis set_ConsD)
    qed
  qed
qed simp

lemma paint_inv:
  assumes "fresh_alloc (ctrl_alloc E)" "system_inv E st"
    "\<And>p. p \<in> set ps \<Longrightarrow> p_led_model_id p = 0 \<or> (p_led_model_id p, ucast (p_layer_id p)) \<in> assigned (led_display st)"
  shows "system_inv E (fold (paint_one E) ps st)"
  using assms(2,3)
proof (induction ps arbitrary: st)
  case (Cons p ps)
  have "system_inv E (paint_one E p st) \<and> led_display (paint_one E p st) = led_display st"
  proof (cases "led_model_get_config E st (ucast (p_led_model_id p))")
    case None
    then show ?thesis using Cons.prems(1) by (simp add: paint_one_def)
  next
    case (Some m)
    then have m: "Display_Model m = p_led_model_id p" "p_led_model_id p \<noteq> 0"
      by (auto simp: led_model_get_config_def find_Some_iff ucast_u8_u32 split: if_splits)
    then have "(Display_Model m, ucast (p_layer_id p)) \<in> assigned (led_display st)" using Cons.prems(2) [of p] by simp
    then show ?thesis
      using Cons.prems(1) running_start_model [of "ctrl_alloc E" m "p_region p" "ucast (p_layer_id p)" True st]
        start_model_ok [OF assms(1)]
      by (auto simp: paint_one_def Some system_inv_def start_model_display)
  qed
  then show ?case using Cons.IH [of "paint_one E p st"] Cons.prems(2) by simp
qed simp

lemma display_update_inv:
  assumes "fresh_alloc (ctrl_alloc E)" "system_inv E st" "led_display_update E st = Some st'"
  shows "system_inv E st'"
proof -
  define st1 where "st1 = upd_display (\<lambda>d. d\<lparr>update_region := LED_REGION_NONE\<rparr>) st"
  have i: "system_inv E st1"
    using assms(2) by (simp add: st1_def system_inv_def display_ok_def assigned_def ctrl_ok_def upd_display_def running_def)
  have "system_inv E (fold (paint_one E) ps st1)" if "collect_paints ok b (led_display st1) lids u [] = Some ps" for ok b lids u ps
    using collect_paints_assigned [OF that] by (intro paint_inv [OF assms(1) i]) (fastforce simp: assigned_def)
  then show ?thesis using assms(2,3) i
    by (auto simp: led_display_update_def Let_def st1_def [symmetric] split: option.splits if_splits)
qed
lemma end_callback_list: "disp_ctrl_list (led_model_end_callback m l st) = disp_ctrl_list st"
  by (simp add: led_model_end_callback_def upd_display_def)

lemma end_callback_inv:
  assumes "display_ok E (led_display st)" "ctrl_ok st" "running st \<subseteq> assigned (led_display st)"
    "\<And>x. (x, ucast (lid :: u8)) \<notin> running st"
  shows "system_inv E (led_model_end_callback m (ucast lid) st)"
proof -
  let ?st' = "led_model_end_callback m (ucast lid) st"
  have l: "layer_list (led_display ?st') = upd_first lid (assign 0 0) (layer_list (led_display st))"
    using end_callback_layers [OF assms(1), of m "ucast lid"] by (simp add: ucast_u8_u32)
  have "running ?st' = running st" "ctrl_ok ?st' = ctrl_ok st" by (simp_all add: running_def ctrl_ok_def end_callback_list)
  moreover have "model_leds (cfg_models E) 0 = 0" by (simp add: model_leds_def)
  ultimately show ?thesis using assign_running [OF l assms(3,4)] assign_ok [OF assms(1), of _ lid 0] l assms(2) by (simp add: system_inv_def)
qed

lemma stop_display_inv:
  assumes "system_inv E st" "ctrl_key c \<in> running st"
  shows "system_inv E (led_ctrl_stop_display led_model_end_callback c b st)"
proof -
  let ?m = "Display_Model (disp_model c)"
  let ?st1 = "led_ctrl_stop_quiet c st"
  let ?st2 = "fold led_ctrl_stop_quiet (filter (same_model (ucast ?m) (c_layer_id c)) (disp_ctrl_list ?st1)) ?st1"
  have d: "display_ok E (led_display st)" and k: "ctrl_ok st" and r: "running st \<subseteq> assigned (led_display st)"
    using assms(1) by (simp_all add: system_inv_def)
  have d2: "led_display ?st2 = led_display st" "led_display ?st1 = led_display st"
    by (simp_all add: fold_stop_display ctrl_keeps_display)
  have k1: "ctrl_ok ?st1" using fold_stop_ok [OF k, of "[c]"] by simp
  have r1: "running ?st1 \<subseteq> running st" by (rule running_stop_quiet)
  have r2: "running ?st2 \<subseteq> running ?st1 - {(?m, c_layer_id c)}" by (rule running_stopped) simp
  have a: "(?m, c_layer_id c) \<in> assigned (led_display st)" using assms(2) r by (auto simp: ctrl_key_def)
  then obtain t :: led_layer where t: "c_layer_id c = ucast (layer_id t)" by (auto simp: assigned_def)
  have "(x, ucast (layer_id t)) \<notin> running ?st2" for x
    using r1 r2 r assigned_model [OF d, of x "layer_id t" ?m] a unfolding t by blast
  then have "system_inv E (led_model_end_callback m (ucast (layer_id t)) ?st2)" for m
    using d r r1 r2 by (intro end_callback_inv) (auto simp only: d2 intro: fold_stop_ok [OF k1])
  moreover have "system_inv E ?st1" using d r r1 k1 by (auto simp: system_inv_def d2)
  ultimately show ?thesis by (simp add: led_ctrl_stop_display_def Let_def t)
qed

lemma timer_inv:
  assumes "system_inv E st"
  shows "system_inv E (led_ctrl_timer_handler led_model_end_callback a st)"
proof -
  have u: "system_inv E (upd_ctrl a f s)" if "\<And>c. ctrl_key (f c) = ctrl_key c" "\<And>c. c_addr (f c) = c_addr c" "system_inv E s" for f s
    using that ctrl_ok_cong [OF upd_ctrl_addrs, of f a s]
    by (simp add: system_inv_def upd_ctrl_running ctrl_keeps_display)
  have s: "system_inv E (led_ctrl_set_state_ex c on s) = system_inv E s" for c on s
    by (simp add: system_inv_def ctrl_keeps_display ctrl_ok_def)
  have k: "ctrl_key c0 \<in> running st" if "List.find (\<lambda>c. c_addr c = a) (disp_ctrl_list st) = Some c0" for c0
    using that by (auto simp: running_def find_Some_iff)
  have stop: "system_inv E (led_ctrl_stop_display led_model_end_callback (c0\<lparr>loop_count := l, flash_count := 0\<rparr>) b s)"
    if "List.find (\<lambda>c. c_addr c = a) (disp_ctrl_list st) = Some c0" "system_inv E s" "running s = running st" for c0 l b s
    using stop_display_inv [OF that(2), of "c0\<lparr>loop_count := l, flash_count := 0\<rparr>" b] k [OF that(1)] that(3)
    by (simp add: ctrl_key_def)
  show ?thesis using assms
    by (simp add: led_ctrl_timer_handler_def Let_def u s stop upd_ctrl_running ctrl_key_def split: option.split)
qed

lemma set_remove_found:
  "List.find (\<lambda>t. layer_id t = lid) ts = Some t \<Longrightarrow> set ts = insert t (set (remove_first lid ts))"
  by (induction ts) (auto split: if_splits)

lemma set_order_inv:
  assumes "system_inv E st"
  shows "system_inv E (upd_display (\<lambda>d. fst (led_layer_set_order lid order d)) st)"
proof -
  let ?d = "led_display st"
  have d: "display_ok E ?d" using assms by (simp add: system_inv_def)
  have "assigned ?d \<subseteq> assigned (fst (led_layer_set_order lid order ?d))"
  proof (cases "led_layer_get_context ?d lid")
    case None
    then show ?thesis by (simp add: led_layer_set_order_def)
  next
    case (Some t)
    obtain d' fs bs where s: "led_layer_set_order lid order ?d = (d', True)"
        "layer_list d' = fs @ t\<lparr>layer_order := ucast order\<rparr> # bs" "fs @ bs = remove_first lid (layer_list ?d)"
      using set_order_effect [OF _ Some, of order] d by (auto simp: display_ok_def)
    have "set (layer_list ?d) = insert t (set (remove_first lid (layer_list ?d)))"
      using set_remove_found Some by (simp add: led_layer_get_context_def)
    then have "set (layer_list ?d) = insert t (set fs \<union> set bs)" using s(3) [symmetric] by simp
    then show ?thesis using s 
      by (auto simp: assigned_def image_iff; intro exI [of _ "t\<lparr>layer_order := ucast order\<rparr>"]; simp)
  qed
  then show ?thesis using assms set_order_display_ok [OF d] by (auto simp: system_inv_def ctrl_ok_def upd_display_def running_def)
qed

section \<open>Runs of the display\<close>

text \<open>
  The entry points of the LED display, each run to its end on the system work queue: the start and the
  stop of the display of a notification, the timer of a control, and the standby hooks.
\<close>

inductive led_step :: "led_env \<Rightarrow> led_system \<Rightarrow> led_system \<Rightarrow> bool" for E where
  step_start: "led_notify_start_display E n st = Some (st', n') \<Longrightarrow> led_step E st st'"
| step_stop: "led_notify_stop_display E lid st = Some st' \<Longrightarrow> led_step E st st'"
| step_timer: "ctrl_at st a = Some c \<Longrightarrow> timer c \<noteq> None \<Longrightarrow> led_step E st (led_ctrl_timer_handler led_model_end_callback a st)"
| step_sleep: "led_step E st (led_display_sleep st)"
| step_wakeup: "led_display_wakeup E st = Some st' \<Longrightarrow> led_step E st st'"

inductive led_reach :: "led_env \<Rightarrow> led_system \<Rightarrow> led_system \<Rightarrow> bool" for E where
  reach_refl: "led_reach E st st"
| reach_step: "led_reach E st st' \<Longrightarrow> led_step E st' st'' \<Longrightarrow> led_reach E st st''"

lemma led_step_inv:
  assumes "fresh_alloc (ctrl_alloc E)" "\<And>s. malloc_ok E s" "led_step E st st'" "system_inv E st"
  shows "system_inv E st'"
  using assms(3,4)
proof cases
  case (step_start n n')
  have i: "system_inv E (upd_display (\<lambda>d. fst (led_layer_set_order (n_layer_id n) (ucast (LED_Override n)) d)) s)"
    if "s = st \<or> s = fst (led_layer_set_model E (n_layer_id n) (ucast (LED_Display n)) st)" for s
    using that assms(4) by (auto intro: set_order_inv set_model_inv [OF assms(2)])
  show ?thesis using step_start assms(4) display_update_inv [OF assms(1)] i
    by (auto simp: led_notify_start_display_def Let_def split: if_splits)
next
  case (step_stop lid)
  then show ?thesis
    using display_update_inv [OF assms(1)] assms(4) set_model_inv [OF assms(2,4), of lid 0]
    by (auto simp: led_notify_stop_display_def split: if_splits)
next
  case (step_timer a c)
  then show ?thesis using timer_inv assms(4) by simp
next
  case step_sleep
  then show ?thesis using assms(4) by (simp add: led_display_sleep_def system_inv_def ctrl_ok_def running_def)
next
  case step_wakeup
  then show ?thesis
    using display_update_inv [OF assms(1)] set_model_inv [OF assms(2,4), of LED_LAYER_CHARGER "s_led_model st"]
    by (auto simp: led_display_wakeup_def)
qed

lemma led_reach_inv:
  assumes "fresh_alloc (ctrl_alloc E)" "\<And>s. malloc_ok E s" "led_reach E st st'" "system_inv E st"
  shows "system_inv E st'"
  using assms(3,4) by induction (auto intro: led_step_inv [OF assms(1,2)])

lemma create_layers:
  assumes "\<And>s. malloc_ok E s" "layer_list (led_display st) = []"
  shows "system_inv E (led_display_init E st)"
proof -
  have "layer_list (led_display (led_display_init E st)) =
      map (\<lambda>i. \<lparr>region = 0, layer_order = 0, layer_id = i, led_model_id = 0, disp_leds = 0\<rparr>) [3, 2, 1, 0]"
    using assms by (simp add: led_display_init_def led_layer_create_def led_ctrl_init_def upt_rec)
  moreover have "disp_ctrl_list (led_display_init E st) = []"
    by (simp add: led_display_init_def led_ctrl_init_def upt_rec upd_display_def)
  ultimately show ?thesis by (auto simp: system_inv_def display_ok_def layers_ok_def tied_def ctrl_ok_def running_def model_leds_def)
qed

text \<open>
  C26: when the requests of memory for the layers and for reading the configuration succeed, in every
  state the LED display can reach from its initialisation, by notifications that start and stop, timers,
  standby and wakeup in any order, there is one layer for each of the four ids, sorted from high to low
  order; the region of a layer is the LEDs its display model shows or switches off, as the stored
  configuration lists them; the controls have distinct addresses; and every control that still drives
  LEDs runs for the display model its layer holds now: no display model goes on after its layer has been given another one or has ended.
\<close>

theorem led_system_invariant:
  assumes "fresh_alloc (ctrl_alloc E)" "\<And>s. malloc_ok E s" "layer_list (led_display st) = []"
    "led_reach E (led_display_init E st) st'"
  shows "layers_ok (layer_list (led_display st')) \<and>
    set (map layer_id (layer_list (led_display st'))) = {LED_LAYER_CHARGER, LED_LAYER_SYS_NOTIFY, LED_LAYER_BT, LED_LAYER_BT_MANAGER} \<and>
    (\<forall>t\<in>set (layer_list (led_display st')). 
       region t = ucast (disp_leds t) \<and> disp_leds t = model_leds (cfg_models E) (led_model_id t)) \<and>
    distinct (map c_addr (disp_ctrl_list st')) \<and>
    (\<forall>c\<in>set (disp_ctrl_list st'). \<exists>t\<in>set (layer_list (led_display st')).
       led_model_id t \<noteq> 0 \<and> Display_Model (disp_model c) = led_model_id t \<and> c_layer_id c = ucast (layer_id t))"
proof -
  have i: "system_inv E st'" by (rule led_reach_inv [OF assms(1,2,4) create_layers [OF assms(2,3)]])
  have "\<exists>t\<in>set (layer_list (led_display st')).
       led_model_id t \<noteq> 0 \<and> Display_Model (disp_model c) = led_model_id t \<and> c_layer_id c = ucast (layer_id t)"
    if "c \<in> set (disp_ctrl_list st')" for c
  proof -
    have "ctrl_key c \<in> assigned (led_display st')" using i that by (auto simp: system_inv_def running_def)
    then show ?thesis by (auto simp: assigned_def ctrl_key_def)
  qed
  then show ?thesis using i by (auto simp: system_inv_def display_ok_def ctrl_ok_def tied_def list_all_iff)
qed

definition ex_env :: led_env where
  "ex_env = \<lparr>cfg_models = [ex_model], cfg_drives = cfg_leds ex_driver, malloc_ok = (\<lambda>_. True),
     ctrl_alloc = (\<lambda>st. if disp_ctrl_list st = [] then 64 else 0), paint_ok = (\<lambda>_ _. True), dev_type_ok = (\<lambda>_. True)\<rparr>"

definition ex_system :: led_system where
  "ex_system = \<lparr>cfg_leds = [], disp_ctrl_list = [], actions = [],
     led_display = \<lparr>layer_list = [], update_region = 0\<rparr>, s_led_model = 0\<rparr>"

definition ex_notify :: notify_ctrl where
  "ex_notify = \<lparr>n_layer_id = LED_LAYER_BT, set_led_display = False, end_led_display = False, led_disp_only = False,
     LED_Display = 5, LED_Override = 1\<rparr>"

definition ex_started :: led_system where
  "ex_started = fst (the (led_notify_start_display ex_env ex_notify (led_display_init ex_env ex_system)))"

lemma ex_started_reached: "led_reach ex_env (led_display_init ex_env ex_system) ex_started"
proof -
  have "led_notify_start_display ex_env ex_notify (led_display_init ex_env ex_system) \<noteq> None" by code_simp
  then have "led_step ex_env (led_display_init ex_env ex_system) ex_started"
    by (cases "led_notify_start_display ex_env ex_notify (led_display_init ex_env ex_system)")
      (auto simp: ex_started_def intro: step_start)
  then show ?thesis by (rule reach_step [OF reach_refl])
qed

theorem led_system_invariant_witness:
  "\<exists>c t. disp_ctrl_list ex_started = [c] \<and> c_layer_id c = 2 \<and> t \<in> set (layer_list (led_display ex_started)) \<and>
     led_model_id t \<noteq> 0 \<and> Display_Model (disp_model c) = led_model_id t \<and> c_layer_id c = ucast (layer_id t)"
proof -
  have "fresh_alloc (ctrl_alloc ex_env)" "\<And>s. malloc_ok ex_env s" "layer_list (led_display ex_system) = []"
    by (simp_all add: fresh_alloc_def ex_env_def ex_system_def)
  note inv = led_system_invariant [OF this ex_started_reached]
  have "map c_layer_id (disp_ctrl_list ex_started) = [2]" by code_simp
  then obtain c where c: "disp_ctrl_list ex_started = [c]" "c_layer_id c = 2" by auto
  then show ?thesis using inv by (intro exI [of _ c]) auto
qed

end
