(* ===== verification/Buddy_Tree.thy ===== *)
theory Buddy_Tree
  imports Main
begin

text \<open>
  The complete binary tree of a buddy page, numbered like a heap array: the root is 0 and the children of
  node \<open>i\<close> are \<open>2 * i + 1\<close> and \<open>2 * i + 2\<close>. There are 128 leaves, the units of a page, so the nodes are 0 to 254.
  The theory relates the table of maxima that the allocator keeps to the set of nodes in use:
  the relation \<open>rep\<close>, and what marking and releasing a node along the path to the root does to it.
\<close>

section \<open>Nodes\<close>

definition left :: "nat \<Rightarrow> nat" where
  "left i = 2 * i + 1"

definition right :: "nat \<Rightarrow> nat" where
  "right i = 2 * i + 2"

definition parent :: "nat \<Rightarrow> nat" where
  "parent i = (i + 1) div 2 - 1"

text \<open>The level of a node: a node of level \<open>k\<close> covers \<open>2 ^ k\<close> units.\<close>

definition lv :: "nat \<Rightarrow> nat" where
  "lv i = (if i = 0 then 7 else if i \<le> 2 then 6 else if i \<le> 6 then 5 else if i \<le> 14 then 4 else if i \<le> 30 then 3
           else if i \<le> 62 then 2 else if i \<le> 126 then 1 else 0)"

text \<open>The first unit a node covers.\<close>

definition ad :: "nat \<Rightarrow> nat" where
  "ad i = (i + 1) * 2 ^ lv i - 128"

definition below :: "nat \<Rightarrow> nat \<Rightarrow> nat \<Rightarrow> bool" where
  "below k i j \<longleftrightarrow> (\<exists>d\<le>k. (j + 1) div 2 ^ d = i + 1)"

lemma parent_less: "i \<noteq> 0 \<Longrightarrow> parent i < i"
  by (simp add: parent_def)

lemma parent_child [simp]: "parent (left i) = i" "parent (right i) = i"
  by (simp_all add: parent_def left_def right_def)

lemma child_parent: "i \<noteq> 0 \<Longrightarrow> i = left (parent i) \<or> i = right (parent i)"
  unfolding parent_def left_def right_def by presburger

lemma child_eq [simp]: "left i = left j \<longleftrightarrow> i = j" "right i = right j \<longleftrightarrow> i = j" "left i \<noteq> right j" "right i \<noteq> left j"
  unfolding left_def right_def by presburger+

lemma child_bounds [simp]: "left i \<noteq> 0" "right i \<noteq> 0" "left i \<le> 254 \<longleftrightarrow> i \<le> 126" "right i \<le> 254 \<longleftrightarrow> i \<le> 126"
  unfolding left_def right_def by presburger+

lemma lv_parent: "i \<noteq> 0 \<Longrightarrow> i \<le> 254 \<Longrightarrow> lv (parent i) = Suc (lv i)"
  unfolding lv_def parent_def by auto

lemma lv_child: "i \<le> 126 \<Longrightarrow> lv i = Suc (lv (left i))" "i \<le> 126 \<Longrightarrow> lv i = Suc (lv (right i))"
  unfolding lv_def left_def right_def by auto

lemma lv_leaf: "i \<le> 254 \<Longrightarrow> lv i = 0 \<longleftrightarrow> 127 \<le> i"
  unfolding lv_def by auto

lemma lv_bounds: "i \<le> 254 \<Longrightarrow> 128 \<le> (i + 1) * 2 ^ lv i" "i \<le> 254 \<Longrightarrow> (i + 2) * 2 ^ lv i \<le> 256"
  unfolding lv_def by auto

lemma below_self [simp]: "below k i i"
  by (auto simp: below_def intro: exI [of _ 0])

lemma below_0: "below 0 i j \<longleftrightarrow> j = i"
  by (simp add: below_def)

lemma below_Suc: "below (Suc k) i j \<longleftrightarrow> j = i \<or> below k (left i) j \<or> below k (right i) j"
proof -
  have half: "(j + 1) div 2 ^ Suc d = i + 1 \<longleftrightarrow> (j + 1) div 2 ^ d = left i + 1 \<or> (j + 1) div 2 ^ d = right i + 1" for d
  proof -
    have "(j + 1) div 2 ^ Suc d = (j + 1) div 2 ^ d div 2" unfolding power_Suc2 by (rule div_mult2_eq)
    moreover have "q div 2 = i + 1 \<longleftrightarrow> q = left i + 1 \<or> q = right i + 1" for q
      unfolding left_def right_def by presburger
    ultimately show ?thesis by simp
  qed
  have "below (Suc k) i j \<longleftrightarrow> (j + 1) div 2 ^ 0 = i + 1 \<or> (\<exists>d\<le>k. (j + 1) div 2 ^ Suc d = i + 1)"
    unfolding below_def by (metis Suc_le_mono le0 not0_implies_Suc)
  then show ?thesis unfolding half below_def by auto
qed

text \<open>A node has only one ancestor on a level.\<close>

lemma below_unique:
  assumes "below k i j" "below k' i' j" "i < i'"
  shows "\<exists>d\<ge>1. (i' + 1) div 2 ^ d = i + 1"
proof -
  obtain d d' where d: "(j + 1) div 2 ^ d = i + 1" "(j + 1) div 2 ^ d' = i' + 1" using assms by (auto simp: below_def)
  have "d' < d"
  proof (rule ccontr)
    assume "\<not> d' < d"
    then have "(j + 1) div 2 ^ d' \<le> (j + 1) div 2 ^ d" by (intro div_le_mono2) (simp_all add: power_increasing)
    then show False using d assms(3) by simp
  qed
  then have "(i' + 1) div 2 ^ (d - d') = (j + 1) div (2 ^ d' * 2 ^ (d - d'))" by (simp only: d(2) [symmetric] div_mult2_eq)
  also have "\<dots> = (j + 1) div 2 ^ d" using \<open>d' < d\<close> by (simp flip: power_add)
  finally show ?thesis using d(1) \<open>d' < d\<close> by (intro exI [of _ "d - d'"]) auto
qed

lemma half_le: "1 \<le> d \<Longrightarrow> (x :: nat) div 2 ^ d \<le> x div 2"
  using power_increasing [of 1 d "2 :: nat"] by (intro div_le_mono2) simp_all

lemma below_disjoint: "\<not> (below k (left i) j \<and> below k' (right i) j)"
proof
  assume "below k (left i) j \<and> below k' (right i) j"
  then obtain d where "1 \<le> d" "(right i + 1) div 2 ^ d = left i + 1" using below_unique [of k "left i" j k' "right i"] by (auto simp: left_def right_def)
  then show False using half_le [of d "right i + 1"] by (simp add: left_def right_def)
qed

lemma below_ge: "below k i j \<Longrightarrow> i \<le> j"
  unfolding below_def by (metis Suc_eq_plus1 Suc_le_mono div_le_dividend)

lemma below_child_ne: "below k (left i) j \<Longrightarrow> j \<noteq> i" "below k (right i) j \<Longrightarrow> j \<noteq> i"
  using below_ge [of k "left i" i] below_ge [of k "right i" i] by (auto simp: left_def right_def)

text \<open>\<open>anc a j\<close>: \<open>a\<close> is \<open>j\<close> or an ancestor of \<open>j\<close>.\<close>

definition anc :: "nat \<Rightarrow> nat \<Rightarrow> bool" where
  "anc a j \<longleftrightarrow> (\<exists>d. (j + 1) div 2 ^ d = a + 1)"

lemma anc_refl [simp]: "anc a a"
  by (auto simp: anc_def intro: exI [of _ 0])

lemma anc_trans: "anc a b \<Longrightarrow> anc b c \<Longrightarrow> anc a c"
proof -
  assume "anc a b" "anc b c"
  then obtain d e where "(b + 1) div 2 ^ d = a + 1" "(c + 1) div 2 ^ e = b + 1" by (auto simp: anc_def)
  then have "(c + 1) div 2 ^ (e + d) = a + 1" by (simp add: power_add div_mult2_eq)
  then show ?thesis unfolding anc_def by blast
qed

lemma lv_anc: "(j + 1) div 2 ^ d = a + 1 \<Longrightarrow> j \<le> 254 \<Longrightarrow> lv a = lv j + d"
proof (induction d arbitrary: j)
  case (Suc d)
  have "(1 :: nat) div 2 ^ Suc d = 0" by (rule div_less, rule one_less_power) simp_all
  then have j: "j \<noteq> 0" using Suc.prems(1) by (cases "j = 0") simp_all
  have "(j + 1) div 2 = parent j + 1" using j by (simp add: parent_def)
  then have "(parent j + 1) div 2 ^ d = a + 1" using Suc.prems(1) by (simp add: div_mult2_eq)
  then show ?case using Suc.IH [of "parent j"] parent_less [OF j] Suc.prems(2) lv_parent [OF j] by simp
qed simp

lemma below_anc: "j \<le> 254 \<Longrightarrow> below (lv a) a j \<longleftrightarrow> anc a j"
  unfolding below_def anc_def by (metis lv_anc le_add2)

lemma anc_parent: "j \<noteq> 0 \<Longrightarrow> anc (parent j) j"
  unfolding anc_def parent_def by (intro exI [of _ 1]) auto

lemma anc_le: "anc a j \<Longrightarrow> a \<le> j"
  unfolding anc_def by (metis Suc_eq_plus1 Suc_le_mono div_le_dividend)

section \<open>The table of maxima and the nodes in use\<close>

text \<open>
  \<open>g i\<close> is the size of the largest free block below node \<open>i\<close>. A node in use has 0, and the nodes below it still have
  the values of free nodes. A node whose children are both entirely free is free itself.
\<close>

definition comb :: "nat \<Rightarrow> nat \<Rightarrow> nat \<Rightarrow> nat" where
  "comb k l r = (if l + r = 2 ^ k then 2 ^ k else max l r)"

fun rep :: "nat set \<Rightarrow> (nat \<Rightarrow> nat) \<Rightarrow> nat \<Rightarrow> nat \<Rightarrow> bool" where
  "rep U g 0 i \<longleftrightarrow> g i = (if i \<in> U then 0 else 1)"
| "rep U g (Suc k) i \<longleftrightarrow> rep U g k (left i) \<and> rep U g k (right i) \<and>
     (if i \<in> U then g i = 0 \<and> g (left i) = 2 ^ k \<and> g (right i) = 2 ^ k else g i = comb (Suc k) (g (left i)) (g (right i)))"

lemma rep_cong:
  "(\<And>j. below k i j \<Longrightarrow> g j = g' j \<and> (j \<in> U \<longleftrightarrow> j \<in> U')) \<Longrightarrow> rep U g k i = rep U' g' k i"
proof (induction k arbitrary: i)
  case 0
  then show ?case by (simp add: below_0)
next
  case (Suc k)
  have "rep U g k (left i) = rep U' g' k (left i)" "rep U g k (right i) = rep U' g' k (right i)"
    using Suc.prems by (auto intro!: Suc.IH simp: below_Suc)
  moreover have "g j = g' j \<and> (j \<in> U \<longleftrightarrow> j \<in> U')" if "j = i \<or> j = left i \<or> j = right i" for j
    using Suc.prems that by (auto simp: below_Suc)
  ultimately show ?case by simp
qed

lemma rep_le: "rep U g k i \<Longrightarrow> g i \<le> 2 ^ k"
proof (induction k arbitrary: i)
  case (Suc k)
  then have "g (left i) \<le> 2 ^ k" "g (right i) \<le> 2 ^ k" by simp_all
  then show ?case using Suc.prems by (auto simp: comb_def split: if_splits)
qed (simp split: if_splits)

lemma rep_full: "rep U g k i \<Longrightarrow> g i = 2 ^ k \<longleftrightarrow> (\<forall>j. below k i j \<longrightarrow> j \<notin> U)"
proof (induction k arbitrary: i)
  case 0
  then show ?case by (simp add: below_0)
next
  case (Suc k)
  have l: "g (left i) = 2 ^ k \<longleftrightarrow> (\<forall>j. below k (left i) j \<longrightarrow> j \<notin> U)" "g (left i) \<le> 2 ^ k"
    and r: "g (right i) = 2 ^ k \<longleftrightarrow> (\<forall>j. below k (right i) j \<longrightarrow> j \<notin> U)" "g (right i) \<le> 2 ^ k"
    using Suc.IH [of "left i"] Suc.IH [of "right i"] Suc.prems rep_le [of U g k "left i"] rep_le [of U g k "right i"] by simp_all
  have "g i = 2 ^ Suc k \<longleftrightarrow> i \<notin> U \<and> g (left i) = 2 ^ k \<and> g (right i) = 2 ^ k"
    using Suc.prems l(2) r(2) by (auto simp: comb_def split: if_splits)
  then show ?case using l(1) r(1) by (auto simp: below_Suc)
qed

lemma rep_used: "rep U g k i \<Longrightarrow> i \<in> U \<Longrightarrow> below k i j \<Longrightarrow> j \<noteq> i \<Longrightarrow> j \<notin> U"
proof (cases k)
  case (Suc k')
  assume r: "rep U g k i" "i \<in> U" "below k i j" "j \<noteq> i"
  have "g (left i) = 2 ^ k'" "rep U g k' (left i)" "g (right i) = 2 ^ k'" "rep U g k' (right i)" using r(1,2) Suc by simp_all
  then have "\<forall>j. below k' (left i) j \<longrightarrow> j \<notin> U" "\<forall>j. below k' (right i) j \<longrightarrow> j \<notin> U" using rep_full by blast+
  then show ?thesis using r(3,4) Suc by (auto simp: below_Suc)
qed (simp add: below_0)

text \<open>A subtree with a free block of \<open>2 ^ m\<close> units has one in one of its halves.\<close>

lemma comb_ge:
  assumes "comb (Suc k) l r \<ge> 2 ^ m" "m \<le> k" "l \<le> 2 ^ k" "r \<le> 2 ^ k" "r < 2 ^ m"
  shows "l \<ge> 2 ^ m"
proof (cases "l + r = 2 ^ Suc k")
  case True
  then have "r = 2 ^ k" using assms(3,4) by simp
  then show ?thesis using assms(2,5) power_increasing [OF assms(2), of "2 :: nat"] by simp
next
  case False
  then show ?thesis using assms(1,5) by (simp add: comb_def)
qed

section \<open>Changes along a path\<close>

text \<open>The rest of the tree around node \<open>i\<close>: no ancestor is in use, and the siblings of the path are represented.\<close>

function around :: "nat set \<Rightarrow> (nat \<Rightarrow> nat) \<Rightarrow> nat \<Rightarrow> bool" where
  "around U g i = (if i = 0 then True else parent i \<notin> U \<and>
     rep U g (lv i) (if i = left (parent i) then right (parent i) else left (parent i)) \<and> around U g (parent i))"
  by auto
termination by (relation "measure (\<lambda>(U, g, i). i)") (auto simp: parent_less)

declare around.simps [simp del]

lemma around_0 [simp]: "around U g 0"
  by (simp add: around.simps)

lemma not_below_parent:
  assumes "i \<noteq> 0" "i \<le> 254" "\<not> below (lv (parent i)) (parent i) j"
  shows "\<not> below (lv i) i j"
  using assms child_parent [OF assms(1)] by (auto simp: lv_parent below_Suc)

lemma around_cong:
  assumes "i \<le> 254" "\<And>j. \<not> below (lv i) i j \<Longrightarrow> g j = g' j \<and> (j \<in> U \<longleftrightarrow> j \<in> U')"
  shows "around U g i = around U' g' i"
  using assms
proof (induction i rule: less_induct)
  case (less i)
  show ?case
  proof (cases "i = 0")
    case False
    let ?p = "parent i"
    let ?s = "if i = left ?p then right ?p else left ?p"
    have p: "?p < i" "?p \<le> 254" using parent_less [OF False] less.prems(1) by simp_all
    have ii: "i = left ?p \<or> i = right ?p" by (rule child_parent [OF False])
    have "around U g ?p = around U' g' ?p"
      using less.IH [OF p] not_below_parent [OF False less.prems(1)] less.prems(2) by blast
    moreover have "rep U g (lv i) ?s = rep U' g' (lv i) ?s"
    proof (rule rep_cong)
      fix j
      assume "below (lv i) ?s j"
      then have "\<not> below (lv i) i j" using ii below_disjoint [of "lv i" ?p j "lv i"] by (auto split: if_splits)
      then show "g j = g' j \<and> (j \<in> U \<longleftrightarrow> j \<in> U')" by (rule less.prems(2))
    qed
    moreover have "\<not> below (lv i) i ?p" using below_ge p(1) by fastforce
    ultimately show ?thesis using less.prems(2) [of ?p] by (subst (1 2) around.simps) simp
  qed simp
qed

text \<open>From the root to a node below which and above which nothing is in use.\<close>

lemma rep_around:
  assumes "rep U g 7 0" "i \<le> 254" "\<And>a. anc a i \<Longrightarrow> a \<noteq> i \<Longrightarrow> a \<notin> U"
  shows "around U g i \<and> rep U g (lv i) i"
  using assms(2,3)
proof (induction i rule: less_induct)
  case (less i)
  show ?case
  proof (cases "i = 0")
    case True
    then show ?thesis using assms(1) by (simp add: lv_def)
  next
    case False
    let ?p = "parent i"
    have p: "?p < i" "?p \<le> 254" using parent_less [OF False] less.prems(1) by simp_all
    have ii: "i = left ?p \<or> i = right ?p" by (rule child_parent [OF False])
    have up: "a \<notin> U" if "anc a ?p" for a
      using less.prems(2) [of a] anc_trans [OF that anc_parent [OF False]] anc_le [OF that] p(1) by simp
    have "around U g ?p" "rep U g (lv ?p) ?p" using less.IH [OF p] up by auto
    moreover have "?p \<notin> U" using up [of ?p] by simp
    ultimately show ?thesis
      using ii unfolding around.simps [of U g i] lv_parent [OF False less.prems(1)] by (auto split: if_splits)
  qed
qed

text \<open>
  The two loops of the allocator that recompute the maxima on the way to the root. They agree when a node on the
  path is not entirely free.
\<close>

function upf :: "nat \<Rightarrow> (nat \<Rightarrow> nat) \<Rightarrow> nat \<Rightarrow> nat" where
  "upf i g = (if i = 0 then g
     else upf (parent i) (g(parent i := comb (lv (parent i)) (g (left (parent i))) (g (right (parent i))))))"
  by auto
termination by (relation "measure (\<lambda>(i, g). i)") (auto simp: parent_less)

function upa :: "nat \<Rightarrow> (nat \<Rightarrow> nat) \<Rightarrow> nat \<Rightarrow> nat" where
  "upa i g = (if i = 0 then g
     else upa (parent i) (g(parent i := max (g (left (parent i))) (g (right (parent i))))))"
  by auto
termination by (relation "measure (\<lambda>(i, g). i)") (auto simp: parent_less)

declare upf.simps [simp del] upa.simps [simp del]

lemma comb_not_full:
  assumes "l \<le> 2 ^ k" "r \<le> 2 ^ k" "l < 2 ^ k \<or> r < 2 ^ k"
  shows "comb (Suc k) l r = max l r \<and> comb (Suc k) l r < 2 ^ Suc k"
  using assms by (auto simp: comb_def)

lemma up_step:
  assumes "i \<noteq> 0" "i \<le> 254" "around U g i" "rep U g (lv i) i"
  shows "around U (g(parent i := comb (lv (parent i)) (g (left (parent i))) (g (right (parent i))))) (parent i)"
    "rep U (g(parent i := comb (lv (parent i)) (g (left (parent i))) (g (right (parent i))))) (lv (parent i)) (parent i)"
proof -
  let ?p = "parent i"
  let ?g = "g(?p := comb (lv ?p) (g (left ?p)) (g (right ?p)))"
  have lp: "lv ?p = Suc (lv i)" by (rule lv_parent [OF assms(1,2)])
  have ii: "i = left ?p \<or> i = right ?p" by (rule child_parent [OF assms(1)])
  have p: "?p \<le> 254" using parent_less [OF assms(1)] assms(2) by simp
  have a: "?p \<notin> U" "around U g ?p" "rep U g (lv i) (if i = left ?p then right ?p else left ?p)"
    using assms(1,3) by (simp_all add: around.simps [of U g i])
  have "around U ?g ?p = around U g ?p" by (rule around_cong [OF p]) auto
  then show "around U ?g ?p" using a(2) by simp
  have c: "rep U ?g (lv i) c = rep U g (lv i) c" if "c = left ?p \<or> c = right ?p" for c
    using that below_child_ne [of "lv i" ?p] by (intro rep_cong) auto
  have "rep U g (lv i) (left ?p)" "rep U g (lv i) (right ?p)" using ii a(3) assms(4) by (auto split: if_splits)
  moreover have "left ?p \<noteq> ?p" "right ?p \<noteq> ?p" unfolding left_def right_def by presburger+
  ultimately show "rep U ?g (lv ?p) ?p" using a(1) c unfolding lp by simp
qed

lemma upf_rep: "i \<le> 254 \<Longrightarrow> around U g i \<Longrightarrow> rep U g (lv i) i \<Longrightarrow> rep U (upf i g) 7 0"
proof (induction i g rule: upf.induct)
  case (1 i g)
  show ?case
  proof (cases "i = 0")
    case True
    then show ?thesis using "1.prems" by (simp add: upf.simps lv_def)
  next
    case False
    have p: "parent i \<le> 254" using parent_less [OF False] "1.prems"(1) by simp
    show ?thesis using "1.IH" [OF False p up_step [OF False "1.prems"]] False by (subst upf.simps) (simp del: fun_upd_apply)
  qed
qed

lemma upa_upf: "i \<le> 254 \<Longrightarrow> around U g i \<Longrightarrow> rep U g (lv i) i \<Longrightarrow> g i < 2 ^ lv i \<Longrightarrow> upa i g = upf i g"
proof (induction i g rule: upf.induct)
  case (1 i g)
  show ?case
  proof (cases "i = 0")
    case True
    then show ?thesis by (simp add: upf.simps upa.simps)
  next
    case False
    let ?p = "parent i"
    have p: "?p \<le> 254" using parent_less [OF False] "1.prems"(1) by simp
    have ii: "i = left ?p \<or> i = right ?p" by (rule child_parent [OF False])
    have lp: "lv ?p = Suc (lv i)" by (rule lv_parent [OF False "1.prems"(1)])
    have "rep U g (lv i) (left ?p)" "rep U g (lv i) (right ?p)"
      using ii "1.prems"(2,3) False by (auto simp: around.simps [of U g i] split: if_splits)
    then have "comb (lv ?p) (g (left ?p)) (g (right ?p)) = max (g (left ?p)) (g (right ?p)) \<and>
        comb (lv ?p) (g (left ?p)) (g (right ?p)) < 2 ^ lv ?p"
      unfolding lp using ii "1.prems"(4) rep_le by (intro comb_not_full) auto
    then have m: "comb (lv ?p) (g (left ?p)) (g (right ?p)) = max (g (left ?p)) (g (right ?p))"
      and lt: "(g(?p := comb (lv ?p) (g (left ?p)) (g (right ?p)))) ?p < 2 ^ lv ?p" by (blast, metis fun_upd_same)
    note IH = "1.IH" [OF False p up_step [OF False "1.prems"(1-3)] lt]
    show ?thesis using IH False by (subst upf.simps, subst upa.simps) (simp del: fun_upd_apply add: m)
  qed
qed

text \<open>Nodes comparable in the tree share units; a node is free when no node in use is comparable to it.\<close>

definition node_free :: "nat set \<Rightarrow> nat \<Rightarrow> bool" where
  "node_free U x \<longleftrightarrow> (\<forall>u\<in>U. \<not> anc u x \<and> \<not> anc x u)"

lemma rep_mark:
  assumes "rep U g 7 0" "x \<le> 254" "node_free U x" "U \<subseteq> {..254}"
  shows "rep (insert x U) (upa x (g(x := 0))) 7 0"
proof -
  let ?g = "g(x := 0)" and ?U = "insert x U"
  have ar: "around U g x \<and> rep U g (lv x) x"
    using assms by (intro rep_around) (auto simp: node_free_def)
  have none: "j \<notin> U" if "below (lv x) x j" for j
    using that assms(3,4) below_anc [of j x] by (auto simp: node_free_def)
  have full: "g x = 2 ^ lv x" using ar none rep_full by blast
  have "around ?U ?g x = around U g x" by (rule around_cong [OF assms(2)]) auto
  moreover have "rep ?U ?g (lv x) x"
  proof (cases "lv x")
    case 0
    then show ?thesis by simp
  next
    case (Suc k)
    have c: "rep ?U ?g k c = rep U g k c" if "c = left x \<or> c = right x" for c
      using that below_child_ne [of k x] by (intro rep_cong) auto
    have "rep U g k (left x)" "rep U g k (right x)" using ar Suc by simp_all
    moreover have "g (left x) = 2 ^ k" "g (right x) = 2 ^ k"
      using calculation none Suc by (auto simp: rep_full below_Suc)
    moreover have "left x \<noteq> x" "right x \<noteq> x" unfolding left_def right_def by presburger+
    ultimately show ?thesis using c unfolding Suc by simp
  qed
  ultimately show ?thesis using ar upf_rep [OF assms(2), of ?U ?g] upa_upf [OF assms(2), of ?U ?g] by simp
qed

lemma rep_release:
  assumes "rep U g 7 0" "x \<le> 254" "x \<in> U" "\<And>a. anc a x \<Longrightarrow> a \<noteq> x \<Longrightarrow> a \<notin> U"
  shows "rep (U - {x}) (upf x (g(x := 2 ^ lv x))) 7 0"
proof -
  let ?g = "g(x := 2 ^ lv x)" and ?U = "U - {x}"
  have ar: "around U g x \<and> rep U g (lv x) x" by (rule rep_around [OF assms(1,2,4)])
  have "around ?U ?g x = around U g x" by (rule around_cong [OF assms(2)]) auto
  moreover have "rep ?U ?g (lv x) x"
  proof (cases "lv x")
    case 0
    then show ?thesis by simp
  next
    case (Suc k)
    have "rep ?U ?g k c = rep U g k c" if "c = left x \<or> c = right x" for c
      using that below_child_ne [of k x] by (intro rep_cong) auto
    moreover have "left x \<noteq> x" "right x \<noteq> x" unfolding left_def right_def by presburger+
    ultimately show ?thesis using ar assms(3) unfolding Suc by (simp add: comb_def)
  qed
  ultimately show ?thesis using ar upf_rep [OF assms(2)] by simp
qed

section \<open>Units\<close>

definition units :: "nat \<Rightarrow> nat set" where
  "units i = {ad i ..< ad i + 2 ^ lv i}"

lemma div_eq_bounds:
  assumes "0 < (m :: nat)"
  shows "x div m = q \<longleftrightarrow> q * m \<le> x \<and> x < (q + 1) * m"
proof
  assume "x div m = q"
  then show "q * m \<le> x \<and> x < (q + 1) * m"
    using assms dividend_less_div_times [of m x] by (auto simp: algebra_simps)
qed (auto intro: div_nat_eqI simp: algebra_simps)

lemma unit_anc: "a \<le> 254 \<Longrightarrow> t < 128 \<Longrightarrow> t \<in> units a \<longleftrightarrow> anc a (t + 127)"
proof -
  assume a: "a \<le> 254" and t: "t < 128"
  have "anc a (t + 127) \<longleftrightarrow> (t + 128) div 2 ^ lv a = a + 1"
  proof
    assume "anc a (t + 127)"
    then obtain d where d: "(t + 127 + 1) div 2 ^ d = a + 1" by (auto simp: anc_def)
    have "lv (t + 127) = 0" using lv_leaf [of "t + 127"] t by simp
    then have "d = lv a" using lv_anc [OF d] t by simp
    then show "(t + 128) div 2 ^ lv a = a + 1" using d by (simp add: add.commute)
  next
    assume "(t + 128) div 2 ^ lv a = a + 1"
    then show "anc a (t + 127)" unfolding anc_def by (intro exI [of _ "lv a"]) (simp add: add.commute)
  qed
  also have "\<dots> \<longleftrightarrow> (a + 1) * 2 ^ lv a \<le> t + 128 \<and> t + 128 < (a + 2) * 2 ^ lv a"
    using div_eq_bounds [of "2 ^ lv a" "t + 128" "a + 1"] by simp
  also have "\<dots> \<longleftrightarrow> t \<in> units a" unfolding units_def ad_def using lv_bounds(1) [OF a] by (auto simp: algebra_simps)
  finally show ?thesis by simp
qed

lemma units_bound: "a \<le> 254 \<Longrightarrow> t \<in> units a \<Longrightarrow> t < 128"
  unfolding units_def ad_def using lv_bounds [of a] by (auto simp: algebra_simps)

lemma anc_linear: "anc a j \<Longrightarrow> anc b j \<Longrightarrow> anc a b \<or> anc b a"
proof -
  have *: "anc a b" if d: "(j + 1) div 2 ^ d = a + 1" "(j + 1) div 2 ^ e = b + 1" "e \<le> d" for a b d e
  proof -
    have "(b + 1) div 2 ^ (d - e) = (j + 1) div (2 ^ e * 2 ^ (d - e))" by (simp only: d(2) [symmetric] div_mult2_eq)
    also have "\<dots> = a + 1" using d(1,3) by (simp flip: power_add)
    finally show ?thesis unfolding anc_def by blast
  qed
  assume "anc a j" "anc b j"
  then obtain d e where "(j + 1) div 2 ^ d = a + 1" "(j + 1) div 2 ^ e = b + 1" by (auto simp: anc_def)
  then show ?thesis using * [of d a e b] * [of e b d a] by (cases "e \<le> d") auto
qed

lemma units_overlap: "a \<le> 254 \<Longrightarrow> b \<le> 254 \<Longrightarrow> t \<in> units a \<Longrightarrow> t \<in> units b \<Longrightarrow> anc a b \<or> anc b a"
  using anc_linear [of a "t + 127" b] unit_anc [of _ t] units_bound [of _ t] by blast

lemma anc_units: "anc a b \<Longrightarrow> b \<le> 254 \<Longrightarrow> units b \<subseteq> units a"
proof
  fix t
  assume a: "anc a b" "b \<le> 254" and t: "t \<in> units b"
  have "t < 128" by (rule units_bound [OF a(2) t])
  then have "anc b (t + 127)" using t unit_anc [OF a(2)] by simp
  then show "t \<in> units a" using unit_anc [of a t] anc_le [OF a(1)] a(2) anc_trans [OF a(1)] \<open>t < 128\<close> by simp
qed

lemma units_nonempty: "ad i \<in> units i"
  by (simp add: units_def)

lemma ad_child: "i \<le> 126 \<Longrightarrow> ad (left i) = ad i" "i \<le> 126 \<Longrightarrow> ad (right i) = ad i + 2 ^ lv (left i)"
  using lv_child [of i] lv_bounds(1) [of i] by (simp_all add: ad_def left_def right_def algebra_simps)

lemma anc_left: "anc i (left i)" "anc i (right i)"
  using anc_parent [of "left i"] anc_parent [of "right i"] by simp_all

lemma units_free: "U \<subseteq> {..254} \<Longrightarrow> x \<le> 254 \<Longrightarrow> node_free U x \<longleftrightarrow> (\<forall>u\<in>U. units u \<inter> units x = {})"
  using units_overlap [of _ x] anc_units [of _ x] anc_units [of x] units_nonempty unfolding node_free_def
  by (meson disjoint_iff subset_iff atMost_iff)

section \<open>Runs of units\<close>

text \<open>The nodes that make up the first \<open>n\<close> units of node \<open>i\<close> of level \<open>k\<close>, for \<open>n < 2 ^ k\<close>.\<close>

fun pieces :: "nat \<Rightarrow> nat \<Rightarrow> nat \<Rightarrow> nat list" where
  "pieces 0 i n = []"
| "pieces (Suc k) i n = (if 2 ^ k \<le> n then left i # pieces k (right i) (n - 2 ^ k) else pieces k (left i) n)"

lemma lv_pos: "i \<le> 254 \<Longrightarrow> lv i = Suc k \<Longrightarrow> i \<le> 126 \<and> lv (left i) = k \<and> lv (right i) = k"
proof -
  assume "i \<le> 254" "lv i = Suc k"
  then have "i \<le> 126" using lv_leaf [of i] by force
  then show ?thesis using lv_child [of i] \<open>lv i = Suc k\<close> by simp
qed

lemma pieces_anc: "i \<le> 254 \<Longrightarrow> lv i = k \<Longrightarrow> q \<in> set (pieces k i n) \<Longrightarrow> q \<le> 254 \<and> anc i q \<and> q \<noteq> i"
proof (induction k i n rule: pieces.induct)
  case (2 k i n)
  have i: "i \<le> 126" "lv (left i) = k" "lv (right i) = k" using lv_pos [OF "2.prems"(1,2)] by simp_all
  have "q = left i \<or> q \<le> 254 \<and> (anc (left i) q \<or> anc (right i) q)" using "2.IH" "2.prems"(3) i by (auto split: if_splits)
  moreover have "i < left i" "i < right i" by (simp_all add: left_def right_def)
  ultimately show ?case using i(1) anc_trans [OF anc_left(1), of i q] anc_trans [OF anc_left(2), of i q] anc_left anc_le [of _ q]
    by fastforce
qed simp

lemma pieces_units: "i \<le> 254 \<Longrightarrow> lv i = k \<Longrightarrow> n < 2 ^ k \<Longrightarrow> (\<Union>q\<in>set (pieces k i n). units q) = {ad i ..< ad i + n}"
proof (induction k i n rule: pieces.induct)
  case (2 k i n)
  have i: "i \<le> 126" "lv (left i) = k" "lv (right i) = k" using lv_pos [OF "2.prems"(1,2)] by simp_all
  note a = ad_child [OF i(1)]
  show ?case
  proof (cases "2 ^ k \<le> n")
    case True
    have "(\<Union>q\<in>set (pieces k (right i) (n - 2 ^ k)). units q) = {ad (right i) ..< ad (right i) + (n - 2 ^ k)}"
      using "2.IH"(1) [OF True] "2.prems"(3) i by simp
    then show ?thesis using True a i(2) by (auto simp: units_def)
  next
    case False
    then show ?thesis using "2.IH"(2) [OF False] i a by simp
  qed
qed simp

lemma pieces_0 [simp]: "pieces k i 0 = []"
  by (induction k arbitrary: i) simp_all

lemma node_free_sub: "node_free U i \<Longrightarrow> anc i q \<Longrightarrow> U \<subseteq> {..254} \<Longrightarrow> q \<le> 254 \<Longrightarrow> i \<le> 254 \<Longrightarrow> node_free U q"
  using anc_units [of i q] by (auto simp: units_free)

lemma rep_sub: "rep U g 7 0 \<Longrightarrow> i \<le> 254 \<Longrightarrow> rep U g (lv i) i"
proof (induction i rule: less_induct)
  case (less i)
  show ?case
  proof (cases "i = 0")
    case True
    then show ?thesis using less.prems(1) by (simp add: lv_def)
  next
    case False
    have "rep U g (lv (parent i)) (parent i)" using less.IH [OF parent_less [OF False]] less.prems parent_less [OF False] by simp
    then show ?thesis using child_parent [OF False] by (auto simp: lv_parent [OF False less.prems(2)])
  qed
qed

lemma rep_antichain: "rep U g 7 0 \<Longrightarrow> x \<in> U \<Longrightarrow> y \<in> U \<Longrightarrow> y \<le> 254 \<Longrightarrow> anc x y \<Longrightarrow> x = y"
  using rep_used [of U g "lv x" x y] rep_sub [of U g x] anc_le [of x y] below_anc [of y x] by fastforce

lemma rep_below_used:
  assumes "rep U g 7 0" "x \<in> U" "anc x j" "j \<noteq> x" "j \<le> 254" "U \<subseteq> {..254}"
  shows "g j = 2 ^ lv j"
proof -
  have "u \<notin> U" if "below (lv j) j u" for u
  proof
    assume u: "u \<in> U"
    then have "anc j u" using that assms(6) below_anc [of u j] by auto
    then have "x = u" using rep_antichain [OF assms(1,2) u] u assms(3,6) anc_trans by blast
    then show False using \<open>anc j u\<close> assms(3,4) anc_le [of j u] anc_le [of x j] by simp
  qed
  then show ?thesis using rep_full [OF rep_sub [OF assms(1,5)]] by blast
qed

lemma anc_child: "anc a (left i) \<longleftrightarrow> a = left i \<or> anc a i" "anc a (right i) \<longleftrightarrow> a = right i \<or> anc a i"
proof -
  have up: "anc a j \<Longrightarrow> a = j \<or> anc a i" if "j = left i \<or> j = right i" for j
  proof -
    assume "anc a j"
    then obtain d where d: "(j + 1) div 2 ^ d = a + 1" by (auto simp: anc_def)
    show ?thesis
    proof (cases d)
      case (Suc e)
      have "(j + 1) div 2 = i + 1" using that by (auto simp: left_def right_def)
      then have "(i + 1) div 2 ^ e = a + 1" using d Suc by (simp add: div_mult2_eq)
      then show ?thesis by (auto simp: anc_def)
    qed (use d in simp)
  qed
  show "anc a (left i) \<longleftrightarrow> a = left i \<or> anc a i" using up [of "left i"] anc_left(1) [of i] anc_trans [of a i] by auto
  show "anc a (right i) \<longleftrightarrow> a = right i \<or> anc a i" using up [of "right i"] anc_left(2) [of i] anc_trans [of a i] by auto
qed

lemma anc_up: "anc x j \<Longrightarrow> x \<noteq> j \<Longrightarrow> j \<noteq> 0 \<Longrightarrow> anc x (parent j)"
  using child_parent [of j] anc_child [of x "parent j"] by metis

lemma node_freeI:
  assumes "rep U g 7 0" "U \<subseteq> {..254}" "x \<le> 254" "g x = 2 ^ lv x" "\<And>a. anc a x \<Longrightarrow> a \<notin> U"
  shows "node_free U x"
proof -
  have "\<not> anc x u" if "u \<in> U" for u
    using rep_full [OF rep_sub [OF assms(1,3)]] assms(2,4) that below_anc [of u x] by auto
  then show ?thesis using assms(5) by (auto simp: node_free_def)
qed

end
