(* ===== verification/Rom_Buddy.thy ===== *)
theory Rom_Buddy
  imports Prelude Buddy_Tree "HOL-Library.Monad_Syntax"
begin

text \<open>
  The buddy allocator of one page, \<^verbatim>\<open>src/framework/base/memory/page_buddy/rom_buddy.c\<close>. A page of 2048 bytes has 128
  units of 16 bytes; the last eight hold the control block, a packed table of maxima and a bit set of the nodes where
  an allocation starts. An allocation of any number of units is made of nodes of decreasing size.

  Units and node indices are natural numbers (the code keeps them below 511), table entries are bytes. \<open>None\<close> is an
  access outside the table or a loop that does not end; the reports on the console are left out.
  An address is the byte offset in the page.
\<close>

unbundle bit_operations_syntax

section \<open>Model\<close>

abbreviation MAX_INDEX :: nat where "MAX_INDEX \<equiv> 128"
abbreviation UNIT_SIZE :: nat where "UNIT_SIZE \<equiv> 16"
abbreviation SELF_INDEX :: nat where "SELF_INDEX \<equiv> 120"
abbreviation BUDDY_SELF_SIZE :: nat where "BUDDY_SELF_SIZE \<equiv> 8"
abbreviation MAX_FREE_SIZE :: int where "MAX_FREE_SIZE \<equiv> 1920"

record buddy =
  b_page_no :: u8
  b_max :: "u8 list"
  b_type :: "u32 list"
  b_freed :: u8

definition model :: buddy where
  "model = \<lparr>b_page_no = 0,
     b_max = [0x40, 0x40, 0x20, 0x20, 0x20, 0x20, 0x10, 0x10, 0x10, 0x10, 0x10, 0x10, 0x10, 0x10, 0x08] @
       replicate 7 0x88 @ [0x08] @ replicate 16 0x44 @ replicate 16 0xaa @ replicate 16 0xff,
     b_type = replicate 8 0, b_freed = 0\<rparr>"

definition RIGHT_SIBLING_LEFT_LEAF :: "nat \<Rightarrow> nat" where
  "RIGHT_SIBLING_LEFT_LEAF index = index * 2 + 3"

definition IS_POWER_OF_2 :: "u32 \<Rightarrow> bool" where
  "IS_POWER_OF_2 x \<longleftrightarrow> x AND (x - 1) = 0"

definition fixsize :: "u32 \<Rightarrow> u32" where
  "fixsize s0 =
     (let s1 = s0 OR drop_bit 1 s0; s2 = s1 OR drop_bit 2 s1; s3 = s2 OR drop_bit 4 s2;
          s4 = s3 OR drop_bit 8 s3; s5 = s4 OR drop_bit 16 s4
      in s5 + 1)"

text \<open>The byte, the shift and the mask of the entry of a node.\<close>

definition getMaxInfo :: "nat \<Rightarrow> nat \<times> nat \<times> u8" where
  "getMaxInfo index =
     (if index \<le> 14 then (index, 0, 0xff)
      else if index \<le> 62 then let i = index - 15 in (i div 2 + 15, (i mod 2) * 4, 0x0f)
      else if index \<le> 126 then let i = index - 63 in (i div 4 + 39, (i mod 4) * 2, 0x03)
      else let i = index - 127 in (i div 8 + 55, i mod 8, 0x01))"

definition getMax :: "buddy \<Rightarrow> nat \<Rightarrow> u8 option" where
  "getMax self index =
     (let (i, shift, mask) = getMaxInfo index
      in if i \<le> MAX_INDEX
         then if i < length (b_max self) then Some (drop_bit shift (b_max self ! i) AND mask) else None
         else Some (- 1))"

definition setMax :: "buddy \<Rightarrow> nat \<Rightarrow> u8 \<Rightarrow> buddy option" where
  "setMax self index val =
     (let (i, shift, mask) = getMaxInfo index
      in if i \<le> MAX_INDEX
         then if i < length (b_max self)
              then Some (self\<lparr>b_max := (b_max self)[i := (b_max self ! i AND NOT (push_bit shift mask)) OR push_bit shift val]\<rparr>)
              else None
         else Some self)"

definition rom_new_buddy_no :: "u8 \<Rightarrow> buddy" where
  "rom_new_buddy_no page_no = model\<lparr>b_page_no := page_no, b_freed := of_nat SELF_INDEX\<rparr>"

function update_alloc_parent :: "buddy \<Rightarrow> nat \<Rightarrow> buddy option" where
  "update_alloc_parent self index =
     (if index = 0 then Some self
      else do {
        l \<leftarrow> getMax self (left (parent index));
        r \<leftarrow> getMax self (right (parent index));
        self1 \<leftarrow> setMax self (parent index) (max l r);
        update_alloc_parent self1 (parent index)
      })"
  by auto
termination by (relation "measure snd") (auto simp: parent_less)

definition setType :: "buddy \<Rightarrow> nat \<Rightarrow> buddy option" where
  "setType self index =
     (if index div 32 < length (b_type self)
      then Some (self\<lparr>b_type := (b_type self)[index div 32 := b_type self ! (index div 32) OR push_bit (index mod 32) 1]\<rparr>)
      else None)"

definition clearType :: "buddy \<Rightarrow> nat \<Rightarrow> buddy option" where
  "clearType self index =
     (if index div 32 < length (b_type self)
      then Some (self\<lparr>b_type := (b_type self)[index div 32 := b_type self ! (index div 32) AND NOT (push_bit (index mod 32) 1)]\<rparr>)
      else None)"

definition rom_buddy_getType :: "buddy \<Rightarrow> nat \<Rightarrow> bool option" where
  "rom_buddy_getType self index =
     (if index div 32 < length (b_type self)
      then Some (b_type self ! (index div 32) AND push_bit (index mod 32) 1 \<noteq> 0)
      else None)"

function get_contins_loop :: "buddy \<Rightarrow> nat \<Rightarrow> nat \<Rightarrow> nat \<Rightarrow> nat option" where
  "get_contins_loop self nsize index node_size =
     (if node_size = 0 then Some nsize
      else do {
        m \<leftarrow> getMax self index;
        if unat m = node_size
        then get_contins_loop self (nsize + node_size) (RIGHT_SIBLING_LEFT_LEAF index) (node_size div 2)
        else Some nsize
      })"
  by auto
termination by (relation "measure (\<lambda>(_, _, _, n). n)") auto

definition get_contins_size :: "buddy \<Rightarrow> nat \<Rightarrow> nat \<Rightarrow> nat option" where
  "get_contins_size self index node_size = get_contins_loop self 0 index node_size"

function update_free_parent :: "buddy \<Rightarrow> nat \<Rightarrow> nat \<Rightarrow> buddy option" where
  "update_free_parent self index node_size =
     (if index = 0 then Some self
      else do {
        left_max \<leftarrow> getMax self (left (parent index));
        right_max \<leftarrow> getMax self (right (parent index));
        self1 \<leftarrow> setMax self (parent index)
          (if unat left_max + unat right_max = node_size * 2 then of_nat (node_size * 2) else max left_max right_max);
        update_free_parent self1 (parent index) (node_size * 2)
      })"
  by auto
termination by (relation "measure (\<lambda>(_, i, _). i)") (auto simp: parent_less)

text \<open>The loop of \<open>get_nsize_and_nodes\<close>; the nodes found, with their sizes, are appended to \<open>acc\<close>.\<close>

function collect_nodes :: "buddy \<Rightarrow> nat \<Rightarrow> nat \<Rightarrow> (nat \<times> nat) list \<Rightarrow> (nat \<times> nat) list option" where
  "collect_nodes self index node_size acc =
     (if node_size = 0 then Some acc
      else do {
        m \<leftarrow> getMax self index;
        if m = 0 then do {
          ty \<leftarrow> rom_buddy_getType self index;
          if ty then Some acc
          else if MAX_INDEX < index then Some (acc @ [(index, node_size)])
          else do {
            l \<leftarrow> getMax self (left index);
            r \<leftarrow> getMax self (right index);
            if l \<noteq> 0 \<and> r \<noteq> 0
            then collect_nodes self (RIGHT_SIBLING_LEFT_LEAF index) (node_size div 2) (acc @ [(index, node_size)])
            else collect_nodes self (left index) (node_size div 2) acc
          }
        }
        else if unat m = node_size then Some acc
        else collect_nodes self (left index) (node_size div 2) acc
      })"
  by auto
termination by (relation "measure (\<lambda>(_, _, n, _). n)") auto

definition get_nsize_and_nodes :: "buddy \<Rightarrow> nat \<Rightarrow> nat \<Rightarrow> (nat \<times> (nat \<times> nat) list) option" where
  "get_nsize_and_nodes self index node_size =
     do {
       nodes \<leftarrow> collect_nodes self (RIGHT_SIBLING_LEFT_LEAF index) (node_size div 2) [(index, node_size)];
       Some (sum_list (map snd nodes), nodes)
     }"

definition rom_is_buddy_idled :: "buddy \<Rightarrow> bool" where
  "rom_is_buddy_idled self \<longleftrightarrow> b_freed self = of_nat SELF_INDEX"

text \<open>The search for a free node of \<open>nsize\<close> units, right child first; it never ends when \<open>nsize\<close> is not met.\<close>

function alloc_search :: "buddy \<Rightarrow> nat \<Rightarrow> nat \<Rightarrow> nat \<Rightarrow> nat option" where
  "alloc_search self nsize index node_size =
     (if node_size = nsize then Some index
      else if node_size = 0 then None
      else do {
        r \<leftarrow> getMax self (right index);
        alloc_search self nsize (if nsize \<le> unat r then right index else left index) (node_size div 2)
      })"
  by auto
termination by (relation "measure (\<lambda>(_, _, _, n). n)") auto

text \<open>The loop that marks \<open>nsize\<close> units at the start of a node with twice \<open>node_size\<close> units.\<close>

function alloc_mark :: "buddy \<Rightarrow> nat \<Rightarrow> nat \<Rightarrow> nat \<Rightarrow> buddy option" where
  "alloc_mark self nsize index node_size =
     (if node_size = 0 then Some self
      else if node_size \<le> nsize then do {
        self1 \<leftarrow> setMax self (left index) 0;
        self2 \<leftarrow> update_alloc_parent self1 (left index);
        alloc_mark self2 (nsize - node_size) (right index) (node_size div 2)
      }
      else alloc_mark self nsize (left index) (node_size div 2))"
  by auto
termination by (relation "measure (\<lambda>(_, _, _, n). n)") auto

text \<open>The node to allocate from, its size and its first unit; \<open>Some None\<close> is the return of a null pointer.\<close>

definition alloc_choose :: "buddy \<Rightarrow> nat \<Rightarrow> (nat \<times> nat \<times> nat) option option" where
  "alloc_choose self bsize =
     (if MAX_INDEX div 4 < bsize
      then do {
        c \<leftarrow> (if bsize \<le> MAX_INDEX div 2 - BUDDY_SELF_SIZE then get_contins_size self 5 (MAX_INDEX div 4) else Some 0);
        if bsize \<le> MAX_INDEX div 2 - BUDDY_SELF_SIZE \<and> bsize \<le> c
        then Some (Some (2, MAX_INDEX div 2, MAX_INDEX div 2))
        else do {
          c1 \<leftarrow> get_contins_size self 1 (MAX_INDEX div 2);
          Some (if c1 < bsize then None
                else if MAX_INDEX div 2 < bsize then Some (0, MAX_INDEX, 0) else Some (1, MAX_INDEX div 2, 0))
        }
      }
      else let nsize = (if \<not> IS_POWER_OF_2 (of_nat bsize) then unat (fixsize (of_nat bsize)) else bsize)
           in do {
             m \<leftarrow> getMax self 0;
             if unat m < nsize then Some None
             else do {
               index \<leftarrow> alloc_search self nsize 0 MAX_INDEX;
               Some (Some (index, nsize, (index + 1) * nsize - MAX_INDEX))
             }
           })"

definition rom_buddy_alloc :: "u8 \<Rightarrow> int \<Rightarrow> buddy \<Rightarrow> (buddy \<times> (nat \<times> int) option) option" where
  "rom_buddy_alloc buddy_no sz self =
     (if sz \<le> 0 \<or> MAX_FREE_SIZE < sz \<or> b_page_no self \<noteq> buddy_no then Some (self, None)
      else let bsize = (nat sz + UNIT_SIZE - 1) div UNIT_SIZE
           in do {
             choice \<leftarrow> alloc_choose self bsize;
             (case choice of
                None \<Rightarrow> Some (self, None)
              | Some (index, node_size, offset) \<Rightarrow> do {
                  self1 \<leftarrow> (if bsize < node_size
                    then do { s \<leftarrow> setType self (left index); alloc_mark s bsize index (node_size div 2) }
                    else do { s \<leftarrow> setType self index; s1 \<leftarrow> setMax s index 0; update_alloc_parent s1 index });
                  Some (self1\<lparr>b_freed := b_freed self1 - of_nat bsize\<rparr>, Some (offset * UNIT_SIZE, int (bsize * UNIT_SIZE)))
                })
           })"

text \<open>
  The walk of \<open>rom_buddy_free\<close> up to the node in use; without one the function never returns. When the node found
  is not the start of an allocation, or the address is not that of a unit, the code calls the \<open>halt\<close> callback,
  which returns (\<open>buddy_halt\<close> is empty), and goes on.
\<close>

function find_used :: "buddy \<Rightarrow> nat \<Rightarrow> nat \<Rightarrow> (nat \<times> nat) option" where
  "find_used self index node_size =
     do {
       m \<leftarrow> getMax self index;
       if m = 0 then Some (index, node_size)
       else if index = 0 then None
       else find_used self (parent index) (node_size * 2)
     }"
  by auto
termination by (relation "measure (\<lambda>(_, i, _). i)") (auto simp: parent_less)

fun release_nodes :: "(nat \<times> nat) list \<Rightarrow> buddy \<Rightarrow> buddy option" where
  "release_nodes [] self = Some self"
| "release_nodes ((i, n) # ns) self =
     do { s1 \<leftarrow> setMax self i (of_nat n); s2 \<leftarrow> update_free_parent s1 i n; release_nodes ns s2 }"

definition rom_buddy_free :: "u8 \<Rightarrow> nat \<Rightarrow> buddy \<Rightarrow> (buddy \<times> int) option" where
  "rom_buddy_free buddy_no addr self =
     (let offset = addr div UNIT_SIZE
      in if b_page_no self \<noteq> buddy_no \<or> SELF_INDEX \<le> offset then Some (self, - EINVAL)
         else do {
           (index, node_size) \<leftarrow> find_used self (offset + MAX_INDEX - 1) 1;
           _ \<leftarrow> rom_buddy_getType self index;
           (nsize, nodes) \<leftarrow> get_nsize_and_nodes self index node_size;
           s1 \<leftarrow> clearType self (fst (hd nodes));
           s2 \<leftarrow> release_nodes nodes s1;
           Some (s2\<lparr>b_freed := b_freed s2 + of_nat nsize\<rparr>, int (nsize * UNIT_SIZE))
         })"

declare update_alloc_parent.simps [simp del] get_contins_loop.simps [simp del] update_free_parent.simps [simp del]
  collect_nodes.simps [simp del] alloc_search.simps [simp del] alloc_mark.simps [simp del] find_used.simps [simp del]

section \<open>The packed table\<close>

lemma field_same:
  fixes x v :: u8
  assumes "sh + w \<le> 8" "v AND mask w = v"
  shows "drop_bit sh ((x AND NOT (push_bit sh (mask w))) OR push_bit sh v) AND mask w = v"
proof (rule bit_eqI)
  fix n
  assume n: "possible_bit TYPE(u8) n"
  have "bit v n \<longleftrightarrow> bit v n \<and> n < w" using assms(2) by (metis bit_and_iff bit_mask_iff)
  then show "bit (drop_bit sh ((x AND NOT (push_bit sh (mask w))) OR push_bit sh v) AND mask w) n = bit v n"
    using n assms(1) by (auto simp: bit_and_iff bit_or_iff bit_not_iff bit_drop_bit_eq bit_push_bit_iff bit_mask_iff)
qed

lemma field_other:
  fixes x v :: u8
  assumes "sh + w \<le> sh' \<or> sh' + w \<le> sh" "v AND mask w = v"
  shows "drop_bit sh' ((x AND NOT (push_bit sh (mask w))) OR push_bit sh v) AND mask w = drop_bit sh' x AND mask w"
proof (rule bit_eqI)
  fix n
  assume n: "possible_bit TYPE(u8) n"
  have v: "bit v m \<longleftrightarrow> bit v m \<and> m < w" for m using assms(2) by (metis bit_and_iff bit_mask_iff)
  show "bit (drop_bit sh' ((x AND NOT (push_bit sh (mask w))) OR push_bit sh v) AND mask w) n = bit (drop_bit sh' x AND mask w) n"
    using n assms(1) v [of "sh' + n - sh"] bit_imp_le_length [of x "sh' + n"]
    by (auto simp: bit_and_iff bit_or_iff bit_not_iff bit_drop_bit_eq bit_push_bit_iff bit_mask_iff)
qed

definition wd :: "nat \<Rightarrow> nat" where
  "wd i = (if i \<le> 14 then 8 else if i \<le> 62 then 4 else if i \<le> 126 then 2 else 1)"

lemma info_field:
  assumes "i \<le> 254"
  obtains j sh where "getMaxInfo i = (j, sh, mask (wd i))" "j < 71" "sh + wd i \<le> 8"
proof -
  have m: "mask 8 = (0xff :: u8)" "mask 4 = (0x0f :: u8)" "mask 2 = (0x03 :: u8)" "mask (Suc 0) = (0x01 :: u8)" by (simp_all add: mask_eq_exp_minus_1)
  show ?thesis
    using assms by (intro that [of "fst (getMaxInfo i)" "fst (snd (getMaxInfo i))"])
      (auto simp: getMaxInfo_def wd_def Let_def m)
qed


lemma info_range:
  assumes "getMaxInfo i = (j, sh, mk)" "i \<le> 254"
  shows "wd i = (if j \<le> 14 then 8 else if j \<le> 38 then 4 else if j \<le> 54 then 2 else 1)"
    "wd i = 8 \<Longrightarrow> i = j \<and> sh = 0" "wd i = 4 \<Longrightarrow> 4 * i = 8 * (j - 15) + sh + 60 \<and> 15 \<le> j"
    "wd i = 2 \<Longrightarrow> 2 * i = 8 * (j - 39) + sh + 126 \<and> 39 \<le> j"
    "wd i = 1 \<Longrightarrow> i = 8 * (j - 55) + sh + 127 \<and> 55 \<le> j"
proof -
  consider "i \<le> 14" | "15 \<le> i" "i \<le> 62" | "63 \<le> i" "i \<le> 126" | "127 \<le> i" by linarith
  then have "wd i = (if j \<le> 14 then 8 else if j \<le> 38 then 4 else if j \<le> 54 then 2 else 1) \<and>
    (wd i = 8 \<longrightarrow> i = j \<and> sh = 0) \<and> (wd i = 4 \<longrightarrow> 4 * i = 8 * (j - 15) + sh + 60 \<and> 15 \<le> j) \<and>
    (wd i = 2 \<longrightarrow> 2 * i = 8 * (j - 39) + sh + 126 \<and> 39 \<le> j) \<and> (wd i = 1 \<longrightarrow> i = 8 * (j - 55) + sh + 127 \<and> 55 \<le> j)"
  proof cases
    case 1
    then show ?thesis using assms by (auto simp: getMaxInfo_def wd_def)
  next
    case 2
    then have "j = (i - 15) div 2 + 15" "sh = ((i - 15) mod 2) * 4" using assms(1) by (auto simp: getMaxInfo_def Let_def)
    moreover have "wd i = 4" using 2 by (simp add: wd_def)
    moreover have "4 * i = 8 * ((i - 15) div 2) + (i - 15) mod 2 * 4 + 60" using 2 mult_div_mod_eq [of 2 "i - 15"] by linarith
    moreover have "(i - 15) div 2 \<le> 23" using 2 by simp
    ultimately show ?thesis using 2 by auto
  next
    case 3
    then have "j = (i - 63) div 4 + 39" "sh = ((i - 63) mod 4) * 2" using assms(1) by (auto simp: getMaxInfo_def Let_def)
    moreover have "wd i = 2" using 3 by (simp add: wd_def)
    moreover have "2 * i = 8 * ((i - 63) div 4) + (i - 63) mod 4 * 2 + 126" using 3 mult_div_mod_eq [of 4 "i - 63"] by linarith
    moreover have "(i - 63) div 4 \<le> 15" using 3 by simp
    ultimately show ?thesis using 3 by auto
  next
    case 4
    then have "j = (i - 127) div 8 + 55" "sh = (i - 127) mod 8" using assms(1) by (auto simp: getMaxInfo_def Let_def)
    moreover have "wd i = 1" using 4 by (simp add: wd_def)
    moreover have "i = 8 * ((i - 127) div 8) + (i - 127) mod 8 + 127" using 4 mult_div_mod_eq [of 8 "i - 127"] by linarith
    moreover have "(i - 127) div 8 \<le> 15" using 4 assms(2) by simp
    ultimately show ?thesis using 4 by auto
  qed
  then show "wd i = (if j \<le> 14 then 8 else if j \<le> 38 then 4 else if j \<le> 54 then 2 else 1)"
    "wd i = 8 \<Longrightarrow> i = j \<and> sh = 0" "wd i = 4 \<Longrightarrow> 4 * i = 8 * (j - 15) + sh + 60 \<and> 15 \<le> j"
    "wd i = 2 \<Longrightarrow> 2 * i = 8 * (j - 39) + sh + 126 \<and> 39 \<le> j"
    "wd i = 1 \<Longrightarrow> i = 8 * (j - 55) + sh + 127 \<and> 55 \<le> j" by blast+
qed

lemma fields_apart:
  assumes "getMaxInfo i = (j, sh, mk)" "getMaxInfo i' = (j, sh', mk')" "i \<noteq> i'" "i \<le> 254" "i' \<le> 254"
  shows "wd i = wd i' \<and> (sh + wd i \<le> sh' \<or> sh' + wd i \<le> sh)"
proof -
  note r = info_range [OF assms(1,4)] and r' = info_range [OF assms(2,5)]
  have w: "wd i = wd i'" using r(1) r'(1) by simp
  have "wd i = 8 \<or> wd i = 4 \<or> wd i = 2 \<or> wd i = 1" by (simp add: wd_def)
  then consider "wd i = 8" | "wd i = 4" | "wd i = 2" | "wd i = 1" by blast
  then show ?thesis
  proof cases
    case 1
    then show ?thesis using r(2) r'(2) w assms(3) by auto
  next
    case 2
    then show ?thesis using r(3) r'(3) w assms(3) by auto
  next
    case 3
    then show ?thesis using r(4) r'(4) w assms(3) by auto
  next
    case 4
    then show ?thesis using r(5) r'(5) w assms(3) by auto
  qed
qed


definition wf_buddy :: "buddy \<Rightarrow> bool" where
  "wf_buddy s \<longleftrightarrow> length (b_max s) = 71 \<and> length (b_type s) = 8"

definition mx :: "buddy \<Rightarrow> nat \<Rightarrow> nat" where
  "mx s i = (if i \<le> 254 then case getMaxInfo i of (j, sh, mk) \<Rightarrow> unat (drop_bit sh (b_max s ! j) AND mk) else 0)"

definition ty :: "buddy \<Rightarrow> nat set" where
  "ty s = {i. i \<le> 254 \<and> bit (b_type s ! (i div 32)) (i mod 32)}"

lemma getMax_mx:
  assumes "wf_buddy s" "i \<le> 254"
  shows "\<exists>m. getMax s i = Some m \<and> unat m = mx s i"
proof -
  obtain j sh where "getMaxInfo i = (j, sh, mask (wd i))" "j < 71" by (rule info_field [OF assms(2)])
  then show ?thesis using assms by (simp add: getMax_def mx_def wf_buddy_def)
qed

lemma fits_mask: "n < 2 ^ w \<Longrightarrow> w \<le> 8 \<Longrightarrow> (of_nat n :: u8) AND mask w = of_nat n"
proof -
  assume n: "n < 2 ^ w" "w \<le> 8"
  then have "n < 256" using power_increasing [of w 8 "2 :: nat"] by simp
  then have "unat (take_bit w (of_nat n :: u8)) = unat (of_nat n :: u8)" using n by (simp add: unsigned_take_bit_eq unat_of_nat take_bit_nat_eq_self)
  then have "take_bit w (of_nat n :: u8) = of_nat n" by (simp only: word_unat_eq_iff)
  then show ?thesis by (simp only: take_bit_eq_mask)
qed

lemma setMax_mx:
  assumes "wf_buddy s" "i \<le> 254" "n < 2 ^ wd i"
  shows "\<exists>s'. setMax s i (of_nat n) = Some s' \<and> wf_buddy s' \<and> mx s' = (mx s)(i := n) \<and> ty s' = ty s \<and>
    b_page_no s' = b_page_no s \<and> b_freed s' = b_freed s"
proof -
  obtain j sh where f: "getMaxInfo i = (j, sh, mask (wd i))" "j < 71" "sh + wd i \<le> 8" by (rule info_field [OF assms(2)])
  have w: "wd i \<le> 8" by (simp add: wd_def)
  then have n: "n < 256" using assms(3) power_increasing [of "wd i" 8 "2 :: nat"] by simp
  note v = fits_mask [OF assms(3) w]
  define s' where "s' = s\<lparr>b_max := (b_max s)[j := (b_max s ! j AND NOT (push_bit sh (mask (wd i)))) OR push_bit sh (of_nat n)]\<rparr>"
  have set: "setMax s i (of_nat n) = Some s'" using assms(1) f by (simp add: setMax_def s'_def wf_buddy_def)
  have "mx s' k = ((mx s)(i := n)) k" for k
  proof (cases "k \<le> 254 \<and> k \<noteq> i")
    case True
    then obtain j' sh' where f': "getMaxInfo k = (j', sh', mask (wd k))" "j' < 71" using info_field [of k] by metis
    show ?thesis
    proof (cases "j' = j")
      case j: True
      have a: "wd i = wd k" "sh + wd i \<le> sh' \<or> sh' + wd i \<le> sh"
        using fields_apart [OF f(1) f'(1) [unfolded j]] True assms(2) by auto
      show ?thesis using True f f' j assms(1) field_other [OF a(2) v, of "b_max s ! j", unfolded a(1)] a(1)
        by (simp add: mx_def s'_def wf_buddy_def del: drop_bit_and drop_bit_or)
    next
      case False
      then show ?thesis using True f' by (simp add: mx_def s'_def)
    qed
  next
    case False
    have "drop_bit sh (b_max s' ! j) AND mask (wd i) = of_nat n"
      using field_same [OF f(3) v, of "b_max s ! j"] f(2) assms(1) by (simp add: s'_def wf_buddy_def del: drop_bit_and drop_bit_or)
    then have "mx s' i = n" using f assms(2) n by (simp add: mx_def unat_of_nat)
    then show ?thesis using False by (auto simp: mx_def)
  qed
  then show ?thesis using assms(1) set by (auto simp: s'_def wf_buddy_def ty_def)
qed

lemma lv_wd: "i \<le> 254 \<Longrightarrow> lv i < wd i"
  by (simp add: lv_def wd_def)

lemma setType_ty:
  assumes "wf_buddy s" "i \<le> 254"
  shows "\<exists>s'. setType s i = Some s' \<and> wf_buddy s' \<and> mx s' = mx s \<and> ty s' = insert i (ty s) \<and>
    b_page_no s' = b_page_no s \<and> b_freed s' = b_freed s"
    "\<exists>s'. clearType s i = Some s' \<and> wf_buddy s' \<and> mx s' = mx s \<and> ty s' = ty s - {i} \<and>
    b_page_no s' = b_page_no s \<and> b_freed s' = b_freed s"
    "rom_buddy_getType s i = Some (i \<in> ty s)"
proof -
  have i: "i div 32 < 8" "i mod 32 < 32" using assms(2) by simp_all
  have eq: "k = i" if "k div 32 = i div 32" "k mod 32 = i mod 32" for k using that by (metis div_mult_mod_eq)
  have b: "bit (2 ^ m :: u32) n \<longleftrightarrow> n = m" if "m < 32" "n < 32" for m n
    using that by (auto simp: bit_exp_iff)
  have nth: "(b_type s)[i div 32 := x] ! (k div 32) = (if k div 32 = i div 32 then x else b_type s ! (k div 32))" for x k
    using assms(1) i by (simp add: wf_buddy_def)
  show "\<exists>s'. setType s i = Some s' \<and> wf_buddy s' \<and> mx s' = mx s \<and> ty s' = insert i (ty s) \<and>
      b_page_no s' = b_page_no s \<and> b_freed s' = b_freed s"
    using assms i eq by (auto simp: setType_def wf_buddy_def mx_def [abs_def] ty_def nth bit_or_iff b)
  show "\<exists>s'. clearType s i = Some s' \<and> wf_buddy s' \<and> mx s' = mx s \<and> ty s' = ty s - {i} \<and>
      b_page_no s' = b_page_no s \<and> b_freed s' = b_freed s"
    using assms i eq by (auto simp: clearType_def wf_buddy_def mx_def [abs_def] ty_def nth bit_and_iff bit_not_iff b)
  show "rom_buddy_getType s i = Some (i \<in> ty s)"
    using assms i by (simp add: rom_buddy_getType_def wf_buddy_def ty_def bit_iff_and_push_bit_not_eq_0)
qed

section \<open>Rounding up to a power of two\<close>

text \<open>The reference: the least power of two that is at least \<open>n\<close>.\<close>

fun ceil_pow2 :: "nat \<Rightarrow> nat" where
  "ceil_pow2 n = (if n \<le> 1 then 1 else 2 * ceil_pow2 ((n + 1) div 2))"

declare ceil_pow2.simps [simp del]

lemma ceil_pow2_range: "2 ^ k < n \<Longrightarrow> n \<le> 2 ^ Suc k \<Longrightarrow> ceil_pow2 n = 2 ^ Suc k"
proof (induction k arbitrary: n)
  case 0
  then have "n = 2" by simp
  then show ?case by (simp add: ceil_pow2.simps)
next
  case (Suc k)
  have "(1 :: nat) \<le> 2 ^ k" by simp
  then have "2 ^ k < (n + 1) div 2" "(n + 1) div 2 \<le> 2 ^ Suc k" "\<not> n \<le> 1" using Suc.prems by auto
  then show ?case using Suc.IH [of "(n + 1) div 2"] by (subst ceil_pow2.simps) simp
qed

text \<open>Smearing: after shifts by 1, 2, 4, 8 and 16, a bit is set when a bit at most 31 places above it was.\<close>

lemma smear_bit: "bit (x OR drop_bit d x) n \<longleftrightarrow> bit x n \<or> bit x (n + d)" for x :: u32
  by (simp add: bit_or_iff bit_drop_bit_eq add.commute)

lemma smear_step:
  fixes x y :: u32
  assumes "\<And>n. bit y n \<longleftrightarrow> (\<exists>m<d. bit x (n + m))"
  shows "bit (y OR drop_bit d y) n \<longleftrightarrow> (\<exists>m<d + d. bit x (n + m))"
proof -
  have "(\<exists>m<d + d. bit x (n + m)) \<longleftrightarrow> (\<exists>m<d. bit x (n + m)) \<or> (\<exists>m<d. bit x (n + d + m))"
  proof
    assume "\<exists>m<d + d. bit x (n + m)"
    then obtain m where m: "m < d + d" "bit x (n + m)" by blast
    then show "(\<exists>m<d. bit x (n + m)) \<or> (\<exists>m<d. bit x (n + d + m))"
      by (cases "m < d") (auto intro: exI [of _ "m - d"])
  next
    assume "(\<exists>m<d. bit x (n + m)) \<or> (\<exists>m<d. bit x (n + d + m))"
    then show "\<exists>m<d + d. bit x (n + m)" by (metis add.assoc add_strict_left_mono trans_less_add1)
  qed
  then show ?thesis by (simp add: smear_bit assms)
qed

lemma bit_top:
  assumes "2 ^ k \<le> unat x" "unat x < 2 ^ Suc k"
  shows "bit (x :: u32) k"
proof -
  have "unat x div 2 ^ k = 1" using assms by (intro div_nat_eqI) simp_all
  then have "bit (unat x) k" by (simp add: bit_iff_odd)
  then show ?thesis by (simp add: bit_unsigned_iff)
qed

lemma bit_above: "unat x < 2 ^ k \<Longrightarrow> k \<le> n \<Longrightarrow> \<not> bit (x :: u32) n"
proof
  assume x: "unat x < 2 ^ k" "k \<le> n" "bit x n"
  then have "bit (unat x) n" using bit_imp_le_length [of x n] by (simp add: bit_unsigned_iff)
  moreover have "unat x div 2 ^ n = 0" using x(1) power_increasing [OF x(2), of "2 :: nat"] by (intro div_less) linarith
  ultimately show False by (simp add: bit_iff_odd)
qed

lemma fixsize_mask:
  assumes "2 ^ k \<le> unat x" "unat x < 2 ^ Suc k"
  shows "fixsize x = mask (Suc k) + 1"
proof -
  define s1 where "s1 = x OR drop_bit 1 x"
  define s2 where "s2 = s1 OR drop_bit 2 s1"
  define s3 where "s3 = s2 OR drop_bit 4 s2"
  define s4 where "s4 = s3 OR drop_bit 8 s3"
  define s5 where "s5 = s4 OR drop_bit 16 s4"
  have b: "bit s1 n \<longleftrightarrow> (\<exists>m<2. bit x (n + m))" for n
    using smear_step [of x 1 x n] by (simp add: s1_def numeral_2_eq_2)
  have b: "bit s2 n \<longleftrightarrow> (\<exists>m<4. bit x (n + m))" for n using smear_step [OF b, of n] by (simp add: s2_def)
  have b: "bit s3 n \<longleftrightarrow> (\<exists>m<8. bit x (n + m))" for n using smear_step [OF b, of n] by (simp add: s3_def)
  have b: "bit s4 n \<longleftrightarrow> (\<exists>m<16. bit x (n + m))" for n using smear_step [OF b, of n] by (simp add: s4_def)
  have b: "bit s5 n \<longleftrightarrow> (\<exists>m<32. bit x (n + m))" for n using smear_step [OF b, of n] by (simp add: s5_def)
  note top = bit_top [OF assms] and up = bit_above [OF assms(2)]
  have k: "k < 32" using top bit_imp_le_length [of x k] by simp
  have "s5 = mask (Suc k)"
  proof (rule bit_eqI)
    fix n
    show "bit s5 n = bit (mask (Suc k) :: u32) n"
    proof (cases "n \<le> k")
      case True
      then have "\<exists>m<32. bit x (n + m)" using k top by (intro exI [of _ "k - n"]) simp
      then show ?thesis using True k by (simp add: b bit_mask_iff)
    next
      case False
      then show ?thesis using up by (auto simp: b bit_mask_iff)
    qed
  qed
  then show ?thesis unfolding fixsize_def Let_def s1_def [symmetric] s2_def [symmetric] s3_def [symmetric] s4_def [symmetric]
      s5_def [symmetric] by simp
qed


lemma power_test:
  assumes "2 ^ k \<le> unat x" "unat x < 2 ^ Suc k"
  shows "IS_POWER_OF_2 x \<longleftrightarrow> unat x = 2 ^ k"
proof -
  have "x \<noteq> 0" using assms(1) by (intro notI) simp
  then have p: "unat (x - 1) = unat x - 1" using unat_sub [of 1 x] by (simp add: word_le_nat_alt unat_gt_0 Suc_le_eq)
  show ?thesis
  proof (cases "unat x = 2 ^ k")
    case True
    have "x AND (x - 1) = 0"
    proof (rule bit_eqI)
      fix n
      have "of_nat (unat x) = (of_nat (2 ^ k) :: u32)" using True by simp
      then have "x = 2 ^ k" by simp
      then have "bit x n \<Longrightarrow> n = k" by (simp add: bit_exp_iff)
      then show "bit (x AND (x - 1)) n = bit (0 :: u32) n" using bit_above [of "x - 1" k k] p True by (auto simp: bit_and_iff)
    qed
    then show ?thesis using True by (simp add: IS_POWER_OF_2_def)
  next
    case False
    then have "bit (x - 1) k" using assms p by (intro bit_top) simp_all
    then have "bit (x AND (x - 1)) k" using bit_top [OF assms] by (simp add: bit_and_iff)
    then have "x AND (x - 1) \<noteq> 0" by (intro notI) simp
    then show ?thesis using False by (simp add: IS_POWER_OF_2_def)
  qed
qed

section \<open>Properties\<close>

text \<open>
  The rounding of a request is the least power of two not below it: for every number from 1 to \<open>2 ^ 31\<close>, the test
  for a power of two by \<open>x & (x - 1)\<close> followed by the smearing of bits agrees with the
  reference definition by halving.
\<close>

theorem fixsize_rounds_up:
  assumes "0 < unat x" "unat x \<le> 2 ^ 31"
  shows "unat (if \<not> IS_POWER_OF_2 x then fixsize x else x) = ceil_pow2 (unat x)"
proof -
  obtain k where k: "2 ^ k \<le> unat x" "unat x < 2 ^ Suc k" using ex_power_ivl1 [of 2 "unat x"] assms(1) by auto
  have "k < Suc 31" using k(1) assms(2) power_less_imp_less_exp [of "2 :: nat" k "Suc 31"] by (simp add: le_less_trans)
  show ?thesis
  proof (cases "unat x = 2 ^ k")
    case True
    have "ceil_pow2 (2 ^ k) = 2 ^ k" using ceil_pow2_range [of _ "2 ^ k"] by (cases k) (auto simp: ceil_pow2.simps [of "Suc 0"])
    then show ?thesis using True power_test [OF k] by simp
  next
    case False
    have lt: "Suc k \<le> 31"
    proof (rule ccontr)
      assume "\<not> Suc k \<le> 31"
      then have "k = 31" using \<open>k < Suc 31\<close> by simp
      then show False using False k(1) assms(2) by simp
    qed
    have "fixsize x = 2 ^ Suc k" unfolding fixsize_mask [OF k] by (simp add: mask_eq_exp_minus_1)
    moreover have "(2 :: nat) ^ Suc k \<le> 2 ^ 31" by (rule power_increasing [OF lt]) simp
    then have "unat (of_nat (2 ^ Suc k) :: u32) = 2 ^ Suc k" by (intro unat_of_nat_u32) simp
    moreover have "ceil_pow2 (unat x) = 2 ^ Suc k" using k False by (intro ceil_pow2_range) simp_all
    ultimately show ?thesis using False power_test [OF k] by simp
  qed
qed

theorem fixsize_rounds_up_witness:
  "unat (if \<not> IS_POWER_OF_2 100 then fixsize 100 else 100) = ceil_pow2 100 \<and> ceil_pow2 100 = 128"
  using fixsize_rounds_up [of 100] by (simp add: ceil_pow2.simps)


text \<open>
  C31: The packed table behaves like an array of 255 numbers: storing a value that fits its field and reading it back
  gives the value, every other entry and every type bit keeps its value, and no access leaves the table.
\<close>

theorem packed_table_roundtrip:
  assumes "wf_buddy s" "i \<le> 254" "n < 2 ^ wd i"
  shows "\<exists>s'. setMax s i (of_nat n) = Some s' \<and> wf_buddy s' \<and> getMax s' i = Some (of_nat n) \<and>
    (\<forall>j\<le>254. j \<noteq> i \<longrightarrow> getMax s' j = getMax s j) \<and> (\<forall>j\<le>254. rom_buddy_getType s' j = rom_buddy_getType s j)"
proof -
  obtain s' where s': "setMax s i (of_nat n) = Some s'" "wf_buddy s'" "mx s' = (mx s)(i := n)" "ty s' = ty s"
    using setMax_mx [OF assms] by blast
  have get: "getMax t j = Some (of_nat (mx t j))" if "wf_buddy t" "j \<le> 254" for t j
  proof -
    from getMax_mx [OF that] obtain m where m: "getMax t j = Some m" "mx t j = unat m" by auto
    show ?thesis unfolding m by simp
  qed
  have "getMax s' j = getMax s j" if "j \<le> 254" "j \<noteq> i" for j using get [OF s'(2) that(1)] get [OF assms(1) that(1)] s'(3) that by simp
  moreover have "getMax s' i = Some (of_nat n)" using get [OF s'(2) assms(2)] s'(3) by simp
  moreover have "rom_buddy_getType s' j = rom_buddy_getType s j" if "j \<le> 254" for j
    using setType_ty(3) [OF s'(2) that] setType_ty(3) [OF assms(1) that] s'(4) by simp
  ultimately show ?thesis using s' by blast
qed

theorem packed_table_roundtrip_witness:
  "\<exists>s'. setMax (rom_new_buddy_no 3) 61 (of_nat 4) = Some s' \<and> wf_buddy s' \<and> getMax s' 61 = Some (of_nat 4) \<and>
    getMax s' 62 = getMax (rom_new_buddy_no 3) 62"
proof -
  have "\<exists>s'. setMax (rom_new_buddy_no 3) 61 (of_nat 4) = Some s' \<and> wf_buddy s' \<and> getMax s' 61 = Some (of_nat 4) \<and>
      (\<forall>j\<le>254. j \<noteq> 61 \<longrightarrow> getMax s' j = getMax (rom_new_buddy_no 3) j) \<and>
      (\<forall>j\<le>254. rom_buddy_getType s' j = rom_buddy_getType (rom_new_buddy_no 3) j)"
    by (rule packed_table_roundtrip) (simp_all add: wf_buddy_def rom_new_buddy_no_def model_def wd_def)
  then show ?thesis by force
qed

end
