(* ===== verification/Buddy_Page.thy ===== *)
theory Buddy_Page
  imports Rom_Buddy
begin

text \<open>
  What the buddy allocator of a page does: the page is a set of allocations, runs of units that do not overlap and do
  not reach the control block. The table and the type bits are determined by the allocations; allocating adds
  a run and freeing takes one away.
\<close>

unbundle bit_operations_syntax

section \<open>The loops on the packed table\<close>

text \<open>The control block holds the table \<open>g\<close> and the start nodes \<open>T\<close>.\<close>

definition holds :: "buddy \<Rightarrow> (nat \<Rightarrow> nat) \<Rightarrow> nat set \<Rightarrow> u8 \<Rightarrow> u8 \<Rightarrow> bool" where
  "holds s g T pg fr \<longleftrightarrow> wf_buddy s \<and> mx s = g \<and> ty s = T \<and> b_page_no s = pg \<and> b_freed s = fr"

definition bounded :: "(nat \<Rightarrow> nat) \<Rightarrow> bool" where
  "bounded g \<longleftrightarrow> (\<forall>i. g i \<le> 2 ^ lv i)"

lemma holds_getMax:
  assumes "holds s g T pg fr" "i \<le> 254"
  obtains m where "getMax s i = Some m" "unat m = g i" "m = 0 \<longleftrightarrow> g i = 0" "m = of_nat (g i)"
proof -
  obtain m where m: "getMax s i = Some m" "unat m = g i" using getMax_mx [of s i] assms by (auto simp: holds_def)
  have "m = of_nat (g i)" unfolding m(2) [symmetric] by simp
  then show ?thesis using that m by (metis unat_eq_0)
qed

lemma lv_le: "lv i \<le> 7"
  by (simp add: lv_def)

lemma bounded_lt: "bounded g \<Longrightarrow> g i < 256"
proof -
  assume "bounded g"
  then have "g i \<le> 2 ^ lv i" by (simp add: bounded_def)
  also have "\<dots> \<le> 2 ^ 7" by (rule power_increasing) (simp_all add: lv_le)
  finally show ?thesis by simp
qed

lemma holds_setMax:
  assumes "holds s g T pg fr" "i \<le> 254" "n \<le> 2 ^ lv i"
  obtains s' where "setMax s i (of_nat n) = Some s'" "holds s' (g(i := n)) T pg fr"
proof -
  have "(2 :: nat) ^ lv i < 2 ^ wd i" using lv_wd [OF assms(2)] by (intro power_strict_increasing) simp_all
  then have "n < 2 ^ wd i" using assms(3) by linarith
  then show ?thesis using setMax_mx [of s i n] assms(1,2) that by (auto simp: holds_def)
qed

lemma holds_types:
  assumes "holds s g T pg fr" "i \<le> 254"
  shows "\<exists>s'. setType s i = Some s' \<and> holds s' g (insert i T) pg fr"
    "\<exists>s'. clearType s i = Some s' \<and> holds s' g (T - {i}) pg fr" "rom_buddy_getType s i = Some (i \<in> T)"
  using setType_ty [of s i] assms by (auto simp: holds_def)

lemma max_of_nat: "l < 256 \<Longrightarrow> r < 256 \<Longrightarrow> max (of_nat l :: u8) (of_nat r) = of_nat (max l r)"
  by (auto simp: max_def word_le_nat_alt unat_of_nat)

lemma bounded_upd: "bounded g \<Longrightarrow> n \<le> 2 ^ lv i \<Longrightarrow> bounded (g(i := n))"
  by (simp add: bounded_def)

lemma bounded_child: "bounded g \<Longrightarrow> i \<le> 126 \<Longrightarrow> g (left i) \<le> 2 ^ (lv i - 1) \<and> g (right i) \<le> 2 ^ (lv i - 1) \<and> lv i = Suc (lv i - 1)"
  using lv_child [of i] by (metis bounded_def diff_Suc_1)

lemma parent_le: "i \<noteq> 0 \<Longrightarrow> i \<le> 254 \<Longrightarrow> parent i \<le> 126"
  by (simp add: parent_def)

lemma half_le_full: "(x :: nat) \<le> 2 ^ (k - 1) \<Longrightarrow> x \<le> 2 ^ k"
  by (erule order_trans, rule power_increasing) simp_all

lemma update_alloc_upa:
  "holds s g T pg fr \<Longrightarrow> bounded g \<Longrightarrow> i \<le> 254 \<Longrightarrow> \<exists>s'. update_alloc_parent s i = Some s' \<and> holds s' (upa i g) T pg fr \<and> bounded (upa i g)"
proof (induction i g arbitrary: s rule: upa.induct)
  case (1 i g)
  show ?case
  proof (cases "i = 0")
    case True
    then show ?thesis using "1.prems" by (simp add: upa.simps update_alloc_parent.simps)
  next
    case False
    let ?p = "parent i"
    have p: "?p \<le> 126" "?p \<le> 254" using parent_le [OF False "1.prems"(3)] by simp_all
    note lr = bounded_child [OF "1.prems"(2) p(1)] and lt = bounded_lt [OF "1.prems"(2)]
    obtain l where l: "getMax s (left ?p) = Some l" "l = of_nat (g (left ?p))"
      using holds_getMax [OF "1.prems"(1), of "left ?p"] p(1) by auto
    obtain r where r: "getMax s (right ?p) = Some r" "r = of_nat (g (right ?p))"
      using holds_getMax [OF "1.prems"(1), of "right ?p"] p(1) by auto
    let ?m = "max (g (left ?p)) (g (right ?p))"
    have m: "?m \<le> 2 ^ lv ?p" using lr by (auto intro: half_le_full)
    obtain s1 where s1: "setMax s ?p (of_nat ?m) = Some s1" "holds s1 (g(?p := ?m)) T pg fr"
      by (rule holds_setMax [OF "1.prems"(1) p(2) m])
    obtain s2 where "update_alloc_parent s1 ?p = Some s2" "holds s2 (upa ?p (g(?p := ?m))) T pg fr" "bounded (upa ?p (g(?p := ?m)))"
      using "1.IH" [OF False s1(2) bounded_upd [OF "1.prems"(2) m] p(2)] by blast
    moreover have "upa i g = upa ?p (g(?p := ?m))" using False by (subst upa.simps) simp
    moreover have "update_alloc_parent s i = update_alloc_parent s1 ?p"
      using False l r s1(1) lt by (subst update_alloc_parent.simps) (simp add: max_of_nat)
    ultimately show ?thesis by metis
  qed
qed

lemma update_free_upf:
  "holds s g T pg fr \<Longrightarrow> bounded g \<Longrightarrow> i \<le> 254 \<Longrightarrow>
   \<exists>s'. update_free_parent s i (2 ^ lv i) = Some s' \<and> holds s' (upf i g) T pg fr \<and> bounded (upf i g)"
proof (induction i g arbitrary: s rule: upf.induct)
  case (1 i g)
  show ?case
  proof (cases "i = 0")
    case True
    then show ?thesis using "1.prems" by (simp add: upf.simps update_free_parent.simps)
  next
    case False
    let ?p = "parent i"
    have p: "?p \<le> 126" "?p \<le> 254" using parent_le [OF False "1.prems"(3)] by simp_all
    have n: "2 ^ lv ?p = 2 ^ lv i * (2 :: nat)" by (simp add: lv_parent [OF False "1.prems"(3)])
    note lr = bounded_child [OF "1.prems"(2) p(1)] and lt = bounded_lt [OF "1.prems"(2)]
    obtain l where l: "getMax s (left ?p) = Some l" "l = of_nat (g (left ?p))" "unat l = g (left ?p)"
      using holds_getMax [OF "1.prems"(1), of "left ?p"] p(1) by auto
    obtain r where r: "getMax s (right ?p) = Some r" "r = of_nat (g (right ?p))" "unat r = g (right ?p)"
      using holds_getMax [OF "1.prems"(1), of "right ?p"] p(1) by auto
    let ?m = "comb (lv ?p) (g (left ?p)) (g (right ?p))"
    have m: "?m \<le> 2 ^ lv ?p" using lr by (auto simp: comb_def intro: half_le_full)
    obtain s1 where s1: "setMax s ?p (of_nat ?m) = Some s1" "holds s1 (g(?p := ?m)) T pg fr"
      by (rule holds_setMax [OF "1.prems"(1) p(2) m])
    obtain s2 where "update_free_parent s1 ?p (2 ^ lv ?p) = Some s2" "holds s2 (upf ?p (g(?p := ?m))) T pg fr"
        "bounded (upf ?p (g(?p := ?m)))"
      using "1.IH" [OF False s1(2) bounded_upd [OF "1.prems"(2) m] p(2)] by blast
    moreover have "upf i g = upf ?p (g(?p := ?m))" using False by (subst upf.simps) simp
    moreover have "(if unat l + unat r = 2 ^ lv i * 2 then of_nat (2 ^ lv i * 2) else max l r) = of_nat ?m"
      unfolding comb_def n l(3) r(3) using lt by (simp add: l(2) r(2) max_of_nat)
    then have "update_free_parent s i (2 ^ lv i) = update_free_parent s1 ?p (2 ^ lv ?p)"
      using False l(1) r(1) s1(1) n by (subst update_free_parent.simps) simp
    ultimately show ?thesis by metis
  qed
qed
lemma alloc_search_free:
  assumes "holds s g T pg fr" "rep U g 7 0" "U \<subseteq> {..254}"
  shows "i \<le> 254 \<Longrightarrow> lv i = k \<Longrightarrow> m \<le> k \<Longrightarrow> 2 ^ m \<le> g i \<Longrightarrow> (\<And>a. anc a i \<Longrightarrow> a \<notin> U) \<Longrightarrow>
    \<exists>x. alloc_search s (2 ^ m) i (2 ^ k) = Some x \<and> x \<le> 254 \<and> lv x = m \<and> node_free U x"
proof (induction k arbitrary: i)
  case 0
  have "g i = 2 ^ lv i" using 0 rep_le [OF rep_sub [OF assms(2)], of i] by simp
  then show ?case using 0 node_freeI [OF assms(2,3), of i] by (simp add: alloc_search.simps)
next
  case (Suc k)
  show ?case
  proof (cases "m = Suc k")
    case True
    have "g i = 2 ^ lv i" using Suc.prems True rep_le [OF rep_sub [OF assms(2)], of i] by simp
    then show ?thesis using Suc.prems True node_freeI [OF assms(2,3), of i] by (simp add: alloc_search.simps)
  next
    case False
    then have mk: "m \<le> k" using Suc.prems(3) by simp
    then have ne: "(2 :: nat) ^ Suc k \<noteq> 2 ^ m" using power_inject_exp [of "2 :: nat" "Suc k" m] by auto
    have i: "i \<le> 126" "lv (left i) = k" "lv (right i) = k" using lv_pos [OF Suc.prems(1,2)] by simp_all
    obtain r where r: "getMax s (right i) = Some r" "unat r = g (right i)"
      using holds_getMax [OF assms(1), of "right i"] i(1) by auto
    let ?c = "if 2 ^ m \<le> g (right i) then right i else left i"
    have step: "alloc_search s (2 ^ m) i (2 ^ Suc k) = alloc_search s (2 ^ m) ?c (2 ^ k)"
      using ne r by (subst alloc_search.simps) simp
    have rp: "rep U g (Suc k) i" using rep_sub [OF assms(2) Suc.prems(1)] Suc.prems(2) by simp
    have "i \<notin> U" using Suc.prems(5) by simp
    then have "g i = comb (Suc k) (g (left i)) (g (right i))" "g (left i) \<le> 2 ^ k" "g (right i) \<le> 2 ^ k"
      using rp rep_le by auto
    then have ge: "2 ^ m \<le> g ?c" using Suc.prems(4) comb_ge [of m k "g (left i)" "g (right i)"] mk by auto
    have "g c \<noteq> 0 \<Longrightarrow> c \<notin> U" if "c \<le> 254" for c
      using rep_sub [OF assms(2) that] by (cases "lv c") (auto split: if_splits)
    moreover have "?c \<le> 254" using i(1) by simp
    moreover have "g ?c \<noteq> 0" using ge by (intro notI) simp
    ultimately have "?c \<notin> U" by blast
    then have "\<And>a. anc a ?c \<Longrightarrow> a \<notin> U" using anc_child Suc.prems(5) by (auto split: if_splits)
    from Suc.IH [OF _ _ mk ge this] show ?thesis using i unfolding step by (simp split: if_splits)
  qed
qed

fun contins :: "(nat \<Rightarrow> nat) \<Rightarrow> nat \<Rightarrow> nat \<Rightarrow> nat" where
  "contins g 0 p = 0"
| "contins g (Suc k) p = (if g (left p) = 2 ^ k then 2 ^ k + contins g k (right p) else 0)"

lemma rsll: "RIGHT_SIBLING_LEFT_LEAF (left p) = left (right p)"
  by (simp add: RIGHT_SIBLING_LEFT_LEAF_def left_def right_def)

lemma pow_half: "(2 :: nat) ^ Suc k div 2 = 2 ^ k"
  by simp

lemma get_contins:
  assumes "holds s g T pg fr"
  shows "p \<le> 254 \<Longrightarrow> lv p = k \<Longrightarrow> get_contins_loop s n (left p) (2 ^ k div 2) = Some (n + contins g k p)"
proof (induction k arbitrary: p n)
  case 0
  then show ?case by (simp add: get_contins_loop.simps)
next
  case (Suc k)
  have p: "p \<le> 126" "lv (right p) = k" using lv_pos [OF Suc.prems] by simp_all
  obtain m where m: "getMax s (left p) = Some m" "unat m = g (left p)"
    using holds_getMax [OF assms, of "left p"] p(1) by auto
  show ?case unfolding pow_half using m Suc.IH [of "right p" "n + 2 ^ k"] p
    by (subst get_contins_loop.simps) (simp add: rsll)
qed

lemma anc_self_block: "anc p 30 \<Longrightarrow> p = 0 \<or> p = 2 \<or> p = 6 \<or> p = 14 \<or> p = 30"
proof -
  have r: "30 = right 14" "14 = right 6" "6 = right 2" "2 = right 0" by (simp_all add: right_def)
  assume "anc p 30"
  then show ?thesis using anc_le [of p 0] by (simp only: r anc_child) auto
qed

lemma self_block_anc: "anc 2 30" "anc (Suc (Suc 0)) 30" "anc 6 30" "anc 14 30"
  unfolding anc_def
  by (rule exI [of _ 3], simp) (rule exI [of _ 3], simp, rule exI [of _ 2], simp, rule exI [of _ 1], simp)

lemma contins_free:
  assumes "rep U g 7 0" "U \<subseteq> {..254}" "30 \<in> U"
  shows "anc p 30 \<Longrightarrow> lv p = k \<Longrightarrow> n \<le> contins g k p \<Longrightarrow> n < 2 ^ k \<Longrightarrow> ad p + n \<le> 120 \<Longrightarrow> q \<in> set (pieces k p n) \<Longrightarrow> node_free U q"
proof (induction k arbitrary: p n)
  case (Suc k)
  have p254: "p \<le> 254" using anc_self_block [OF Suc.prems(1)] by auto
  have p: "p \<le> 126" "lv (left p) = k" "lv (right p) = k" using lv_pos [OF p254 Suc.prems(2)] by simp_all
  have n0: "n \<noteq> 0" using Suc.prems(6) by (cases n) auto
  then have full: "g (left p) = 2 ^ k" and nc: "n \<le> 2 ^ k + contins g k (right p)" using Suc.prems(3) by (auto split: if_splits)
  have p30: "p \<noteq> 30" using Suc.prems(5) n0 by (auto simp: ad_def lv_def)
  have up: "a \<notin> U" if "anc a p" for a
    using rep_antichain [OF assms(1) _ assms(3), of a] anc_trans [OF that Suc.prems(1)] that anc_le [OF that] p30 Suc.prems(1)
      anc_le [OF Suc.prems(1)] by auto
  have lf: "node_free U (left p)"
  proof (rule node_freeI [OF assms(1,2)])
    fix a
    assume "anc a (left p)"
    moreover have "left p \<notin> U" using rep_full [OF rep_sub [OF assms(1)], of "left p"] full p by auto
    ultimately show "a \<notin> U" using up anc_child by auto
  qed (use p full in simp_all)
  show ?case
  proof (cases "2 ^ k \<le> n")
    case True
    have "anc (right p) 30" using anc_self_block [OF Suc.prems(1)] p30 self_block_anc by (auto simp: right_def)
    moreover have "ad (right p) + (n - 2 ^ k) \<le> 120" using Suc.prems(5) True ad_child(2) [OF p(1)] p(2) by simp
    ultimately show ?thesis using Suc.IH [of "right p" "n - 2 ^ k"] Suc.prems(4,6) p True nc lf by auto
  next
    case False
    then have "q \<in> set (pieces k (left p) n)" using Suc.prems(6) by simp
    from pieces_anc [OF _ p(2) this] show ?thesis using node_free_sub [OF lf _ assms(2)] p(1) by simp
  qed
qed simp
lemma mark_node:
  assumes "holds s g T pg fr" "bounded g" "rep U g 7 0" "U \<subseteq> {..254}" "x \<le> 254" "node_free U x"
  obtains s1 s2 g' where "setMax s x 0 = Some s1" "update_alloc_parent s1 x = Some s2" "holds s2 g' T pg fr" "bounded g'"
    "rep (insert x U) g' 7 0"
proof -
  obtain s1 where s1: "setMax s x 0 = Some s1" "holds s1 (g(x := 0)) T pg fr"
    using holds_setMax [OF assms(1,5), of 0] by auto
  obtain s2 where s2: "update_alloc_parent s1 x = Some s2" "holds s2 (upa x (g(x := 0))) T pg fr" "bounded (upa x (g(x := 0)))"
    using update_alloc_upa [OF s1(2) bounded_upd [OF assms(2)] assms(5)] by auto
  show ?thesis using that [OF s1(1) s2] rep_mark [OF assms(3,5,6,4)] by simp
qed

lemma free_insert:
  assumes "node_free U q" "U \<subseteq> {..254}" "q \<le> 254" "x \<le> 254" "units x \<inter> units q = {}"
  shows "node_free (insert x U) q"
  using assms by (simp add: units_free)

lemma alloc_mark_pieces:
  "holds s g T pg fr \<Longrightarrow> bounded g \<Longrightarrow> rep U g 7 0 \<Longrightarrow> U \<subseteq> {..254} \<Longrightarrow> i \<le> 254 \<Longrightarrow> lv i = k \<Longrightarrow> n < 2 ^ k \<Longrightarrow>
   (\<And>q. q \<in> set (pieces k i n) \<Longrightarrow> node_free U q) \<Longrightarrow>
   \<exists>s' g'. alloc_mark s n i (2 ^ k div 2) = Some s' \<and> holds s' g' T pg fr \<and> bounded g' \<and> rep (U \<union> set (pieces k i n)) g' 7 0"
proof (induction k arbitrary: i n s g U)
  case 0
  then show ?case by (auto simp: alloc_mark.simps)
next
  case (Suc k)
  have i: "i \<le> 126" "lv (left i) = k" "lv (right i) = k" using lv_pos [OF Suc.prems(5,6)] by simp_all
  show ?case
  proof (cases "2 ^ k \<le> n")
    case True
    have lt: "n - 2 ^ k < 2 ^ k" using Suc.prems(7) True by simp
    have l: "left i \<le> 254" "right i \<le> 254" "node_free U (left i)" using i(1) Suc.prems(8) [of "left i"] True by simp_all
    obtain s1 s2 g2 where m: "setMax s (left i) 0 = Some s1" "update_alloc_parent s1 (left i) = Some s2"
        "holds s2 g2 T pg fr" "bounded g2" "rep (insert (left i) U) g2 7 0"
      by (rule mark_node [OF Suc.prems(1-4) l(1,3)])
    have "node_free (insert (left i) U) q" if q: "q \<in> set (pieces k (right i) (n - 2 ^ k))" for q
    proof (rule free_insert [OF _ Suc.prems(4)])
      have a: "q \<le> 254" "anc (right i) q" using pieces_anc [OF l(2) i(3) q] by simp_all
      then have "units q \<subseteq> units (right i)" using anc_units by blast
      moreover have "units (left i) \<inter> units (right i) = {}" using ad_child [OF i(1)] i by (auto simp: units_def)
      ultimately show "units (left i) \<inter> units q = {}" by blast
      show "q \<le> 254" by (rule a)
    qed (use Suc.prems(8) q True l in auto)
    then obtain s' g' where "alloc_mark s2 (n - 2 ^ k) (right i) (2 ^ k div 2) = Some s'" "holds s' g' T pg fr" "bounded g'"
        "rep (insert (left i) U \<union> set (pieces k (right i) (n - 2 ^ k))) g' 7 0"
      using Suc.IH [OF m(3-5) _ l(2) i(3), of "n - 2 ^ k"] Suc.prems(4) l(1) lt by auto
    then show ?thesis unfolding pow_half using True m(1,2) by (subst alloc_mark.simps) auto
  next
    case False
    then show ?thesis unfolding pow_half using Suc.IH [OF Suc.prems(1-4) _ i(2), of n] Suc.prems(8) i(1)
      by (subst alloc_mark.simps) simp
  qed
qed

lemma find_used_node:
  assumes "holds s g T pg fr" "rep U g 7 0" "U \<subseteq> {..254}" "x \<in> U"
  shows "j \<le> 254 \<Longrightarrow> anc x j \<Longrightarrow> find_used s j (2 ^ lv j) = Some (x, 2 ^ lv x)"
proof (induction j rule: less_induct)
  case (less j)
  obtain m where m: "getMax s j = Some m" "m = 0 \<longleftrightarrow> g j = 0" using holds_getMax [OF assms(1) less.prems(1)] by metis
  show ?case
  proof (cases "j = x")
    case True
    have "g x = 0" using rep_sub [OF assms(2) less.prems(1)] True assms(4) by (cases "lv x") auto
    then show ?thesis using True m by (simp add: find_used.simps)
  next
    case False
    have "g j \<noteq> 0" using rep_below_used [OF assms(2,4) less.prems(2) False less.prems(1) assms(3)] by simp
    moreover have j0: "j \<noteq> 0" using anc_le [OF less.prems(2)] False by auto
    moreover have "find_used s (parent j) (2 ^ lv j * 2) = Some (x, 2 ^ lv x)"
      using less.IH [OF parent_less [OF j0]] less.prems(1) parent_less [OF j0] anc_up [OF less.prems(2) _ j0] False
        lv_parent [OF j0 less.prems(1)] by (simp add: mult.commute)
    ultimately show ?thesis using m by (simp add: find_used.simps [of s j])
  qed
qed

definition sized :: "nat list \<Rightarrow> (nat \<times> nat) list" where
  "sized qs = map (\<lambda>q. (q, 2 ^ lv q)) qs"

lemma release_rep:
  "holds s g T pg fr \<Longrightarrow> bounded g \<Longrightarrow> rep U g 7 0 \<Longrightarrow> U \<subseteq> {..254} \<Longrightarrow> set qs \<subseteq> U \<Longrightarrow> distinct qs \<Longrightarrow>
   \<exists>s' g'. release_nodes (sized qs) s = Some s' \<and> holds s' g' T pg fr \<and> bounded g' \<and> rep (U - set qs) g' 7 0"
proof (induction qs arbitrary: s g U)
  case Nil
  then show ?case by (auto simp: sized_def)
next
  case (Cons q qs)
  have q: "q \<le> 254" "q \<in> U" using Cons.prems(4,5) by auto
  obtain s1 where s1: "setMax s q (of_nat (2 ^ lv q)) = Some s1" "holds s1 (g(q := 2 ^ lv q)) T pg fr"
    by (rule holds_setMax [OF Cons.prems(1) q(1) order_refl])
  obtain s2 where s2: "update_free_parent s1 q (2 ^ lv q) = Some s2" "holds s2 (upf q (g(q := 2 ^ lv q))) T pg fr"
      "bounded (upf q (g(q := 2 ^ lv q)))"
    using update_free_upf [OF s1(2) bounded_upd [OF Cons.prems(2) order_refl] q(1)] by auto
  have r: "rep (U - {q}) (upf q (g(q := 2 ^ lv q))) 7 0"
    using rep_antichain [OF Cons.prems(3) _ q(2) q(1)] by (intro rep_release [OF Cons.prems(3) q]) auto
  obtain s' g' where "release_nodes (sized qs) s2 = Some s'" "holds s' g' T pg fr" "bounded g'" "rep (U - {q} - set qs) g' 7 0"
    using Cons.IH [OF s2(2,3) r] Cons.prems(4-6) by auto
  then show ?case using s1(1) s2(1) by (auto simp: sized_def Diff_insert2 [symmetric])
qed
text \<open>
  The nodes of the rest of an allocation are found again: \<open>r\<close> units at the start of node \<open>p\<close> belong to it, and no
  other allocation continues right behind them.
\<close>

lemma pieces_nonempty: "i \<le> 254 \<Longrightarrow> lv i = k \<Longrightarrow> r < 2 ^ k \<Longrightarrow> 0 < r \<Longrightarrow> \<exists>q. q \<in> set (pieces k i r)"
  using pieces_units [of i k r] by (cases "pieces k i r") auto

lemma collect_step:
  assumes h: "holds s g T pg fr" and rep: "rep U g 7 0" "T \<subseteq> U" and p: "p \<le> 126" "0 < ad p"
  shows "left p \<in> U - T \<Longrightarrow> collect_nodes s (left p) (2 ^ lv (left p)) acc =
      (if lv (left p) = 0 then Some (acc @ [(left p, 1)])
       else collect_nodes s (left (right p)) (2 ^ lv (left p) div 2) (acc @ [(left p, 2 ^ lv (left p))]))"
    "left p \<in> T \<Longrightarrow> collect_nodes s (left p) (2 ^ lv (left p)) acc = Some acc"
    "g (left p) = 2 ^ lv (left p) \<Longrightarrow> collect_nodes s (left p) (2 ^ lv (left p)) acc = Some acc"
    "left p \<notin> U \<Longrightarrow> g (left p) \<noteq> 2 ^ lv (left p) \<Longrightarrow>
      collect_nodes s (left p) (2 ^ lv (left p)) acc = collect_nodes s (left (left p)) (2 ^ lv (left p) div 2) acc"
proof -
  let ?c = "left p"
  have c: "?c \<le> 254" using p(1) by simp
  have rc: "rep U g (lv ?c) ?c" by (rule rep_sub [OF rep(1) c])
  obtain m where m: "getMax s ?c = Some m" "unat m = g ?c" "m = 0 \<longleftrightarrow> g ?c = 0" using holds_getMax [OF h c] by metis
  have leaf: "128 < ?c \<longleftrightarrow> lv ?c = 0"
    using lv_leaf [OF c] p ad_child(1) [OF p(1)] by (auto simp: ad_def lv_def left_def split: if_splits)
  have ty: "rom_buddy_getType s ?c = Some (?c \<in> T)" by (rule holds_types(3) [OF h c])
  have u0: "?c \<in> U \<Longrightarrow> g ?c = 0" using rc by (cases "lv ?c") auto
  have ch: "left ?c \<le> 254" "right ?c \<le> 254" if "lv ?c \<noteq> 0" using lv_leaf [OF c] that by auto
  obtain l r where lr: "lv ?c \<noteq> 0 \<Longrightarrow> getMax s (left ?c) = Some l \<and> getMax s (right ?c) = Some r \<and>
      (l = 0 \<longleftrightarrow> g (left ?c) = 0) \<and> (r = 0 \<longleftrightarrow> g (right ?c) = 0)"
  proof (cases "lv ?c = 0")
    case True
    then show ?thesis using that by simp
  next
    case False
    obtain l where "getMax s (left ?c) = Some l" "l = 0 \<longleftrightarrow> g (left ?c) = 0" using holds_getMax [OF h ch(1) [OF False]] by blast
    moreover obtain r where "getMax s (right ?c) = Some r" "r = 0 \<longleftrightarrow> g (right ?c) = 0" using holds_getMax [OF h ch(2) [OF False]] by blast
    ultimately show ?thesis using that [of l r] by simp
  qed
  note cs = collect_nodes.simps [of s ?c "2 ^ lv ?c" acc]
  show "collect_nodes s ?c (2 ^ lv ?c) acc =
      (if lv ?c = 0 then Some (acc @ [(?c, 1)]) else collect_nodes s (left (right p)) (2 ^ lv ?c div 2) (acc @ [(?c, 2 ^ lv ?c)]))"
    if "?c \<in> U - T"
  proof (cases "lv ?c = 0")
    case True
    then show ?thesis unfolding cs using that u0 m ty leaf by simp
  next
    case False
    then have "g (left ?c) \<noteq> 0" "g (right ?c) \<noteq> 0" using rc that by (cases "lv ?c"; auto)+
    then show ?thesis using False that u0 m ty leaf lr by (simp add: cs rsll)
  qed
  show "collect_nodes s ?c (2 ^ lv ?c) acc = Some acc" if "?c \<in> T" using that rep(2) u0 m ty by (auto simp: cs)
  show "collect_nodes s ?c (2 ^ lv ?c) acc = Some acc" if "g ?c = 2 ^ lv ?c" using that m by (auto simp: cs)
  show "collect_nodes s ?c (2 ^ lv ?c) acc = collect_nodes s (left ?c) (2 ^ lv ?c div 2) acc"
    if nu: "?c \<notin> U" "g ?c \<noteq> 2 ^ lv ?c"
  proof -
    have k: "lv ?c \<noteq> 0" using rc nu by (cases "lv ?c") auto
    moreover have "g (left ?c) = 0" if "g ?c = 0" using rc nu that k by (cases "lv ?c") (auto simp: comb_def split: if_splits)
    moreover have "?c \<notin> T" using nu rep(2) by auto
    ultimately show ?thesis using m nu ty leaf lr by (auto simp: cs)
  qed
qed

lemma collect_pieces:
  assumes h: "holds s g T pg fr" and rep: "rep U g 7 0" "U \<subseteq> {..254}" "T \<subseteq> U"
  shows "p \<le> 254 \<Longrightarrow> lv p = k \<Longrightarrow> r < 2 ^ k \<Longrightarrow> 0 < ad p \<Longrightarrow> set (pieces k p r) \<subseteq> U - T \<Longrightarrow>
    (\<And>u. u \<in> U \<Longrightarrow> ad u = ad p + r \<Longrightarrow> u \<in> T \<or> u = 30) \<Longrightarrow>
    collect_nodes s (left p) (2 ^ k div 2) acc = Some (acc @ sized (pieces k p r))"
proof (induction k arbitrary: p r acc)
  case 0
  then show ?case by (simp add: collect_nodes.simps sized_def)
next
  case (Suc k)
  let ?c = "left p"
  have p: "p \<le> 126" "lv ?c = k" "lv (right p) = k" using lv_pos [OF Suc.prems(1,2)] by simp_all
  have c: "?c \<le> 254" "right p \<le> 254" "ad ?c = ad p" "ad (right p) = ad p + 2 ^ k" using p ad_child [OF p(1)] by simp_all
  note step = collect_step [OF h rep(1,3) p(1) Suc.prems(4), unfolded p(2)]
  show ?case unfolding pow_half
  proof (cases "2 ^ k \<le> r")
    case True
    have cU: "?c \<in> U - T" using Suc.prems(5) True by auto
    have "collect_nodes s (left (right p)) (2 ^ k div 2) (acc @ [(?c, 2 ^ k)]) =
        Some ((acc @ [(?c, 2 ^ k)]) @ sized (pieces k (right p) (r - 2 ^ k)))"
      using Suc.prems(3,5,6) True c(4) by (intro Suc.IH [OF c(2) p(3)]) auto
    then show "collect_nodes s ?c (2 ^ k) acc = Some (acc @ sized (pieces (Suc k) p r))"
      using step(1) [OF cU] True p(2) by (cases k) (simp_all add: sized_def)
  next
    case False
    have sub: "set (pieces k ?c r) \<subseteq> U - T" using Suc.prems(5) False by simp
    have pos: "\<exists>q\<in>U. anc ?c q \<and> q \<noteq> ?c" if "0 < r"
      using pieces_nonempty [OF c(1) p(2) _ that] pieces_anc [OF c(1) p(2)] sub False by (meson DiffD1 not_le subsetD)
    consider "?c \<in> U" | "?c \<notin> U" "g ?c = 2 ^ k" | "?c \<notin> U" "g ?c \<noteq> 2 ^ k" by blast
    then show "collect_nodes s ?c (2 ^ k) acc = Some (acc @ sized (pieces (Suc k) p r))"
    proof cases
      case 1
      then have r: "r = 0" using pos rep_antichain [OF rep(1) 1] rep(2) by (metis atMost_iff neq0_conv subsetD)
      then have "?c \<in> T" using Suc.prems(6) [OF 1] c(3) by (auto simp: left_def) presburger
      then show ?thesis using step(2) r False by (simp add: sized_def)
    next
      case 2
      then have "\<not> (\<exists>q\<in>U. anc ?c q)" using rep_full [OF rep_sub [OF rep(1) c(1)]] below_anc [of _ ?c] rep(2) p(2) by auto
      then have "r = 0" using pos by blast
      then show ?thesis using step(3) [OF 2(2)] False by (simp add: sized_def)
    next
      case 3
      then show ?thesis using step(4) [OF 3] Suc.IH [OF c(1) p(2)] False Suc.prems(4,6) sub c(3) by simp
    qed
  qed
qed

section \<open>Allocations of a page\<close>

definition clog :: "nat \<Rightarrow> nat" where
  "clog n = (if n \<le> 1 then 0 else if n \<le> 2 then 1 else if n \<le> 4 then 2 else if n \<le> 8 then 3 else if n \<le> 16 then 4
     else if n \<le> 32 then 5 else if n \<le> 64 then 6 else 7)"

text \<open>The nodes of the run of \<open>n\<close> units from unit \<open>a\<close>: the node of the next power of two, or its pieces.\<close>

definition base :: "nat \<Rightarrow> nat \<Rightarrow> nat" where
  "base a n = (a + 128) div 2 ^ clog n - 1"

definition run_nodes :: "nat \<Rightarrow> nat \<Rightarrow> nat list" where
  "run_nodes a n = (if n = 2 ^ clog n then [base a n] else pieces (clog n) (base a n) n)"

definition run_ok :: "nat \<Rightarrow> nat \<Rightarrow> bool" where
  "run_ok a n \<longleftrightarrow> 0 < n \<and> a + n \<le> 120 \<and> 2 ^ clog n dvd a"

lemma clog_bounds: "0 < n \<Longrightarrow> n \<le> 128 \<Longrightarrow> n \<le> 2 ^ clog n" "0 < n \<Longrightarrow> 2 ^ clog n < 2 * n" "clog n \<le> 7"
  by (auto simp: clog_def)

lemma node_at:
  assumes "2 ^ k dvd a" "a < 128" "k \<le> 7"
  shows "(a + 128) div 2 ^ k - 1 \<le> 254 \<and> lv ((a + 128) div 2 ^ k - 1) = k \<and> ad ((a + 128) div 2 ^ k - 1) = a"
proof -
  let ?x = "(a + 128) div 2 ^ k"
  have "2 ^ k dvd (128 :: nat)" using assms(3) le_imp_power_dvd [of k 7 "2 :: nat"] by simp
  then have "2 ^ k dvd a + 128" using assms(1) by simp
  then have x: "?x * 2 ^ k = a + 128" by simp
  have "k = 0 \<or> k = 1 \<or> k = 2 \<or> k = 3 \<or> k = 4 \<or> k = 5 \<or> k = 6 \<or> k = 7" using assms(3) by linarith
  then have l: "?x - 1 \<le> 254 \<and> lv (?x - 1) = k" "1 \<le> ?x" using assms(2) x by (auto simp: lv_def)
  then show ?thesis using x by (simp add: ad_def)
qed

lemma base_facts:
  assumes "run_ok a n"
  shows "base a n \<le> 254" "lv (base a n) = clog n" "ad (base a n) = a"
  using node_at [of "clog n" a] assms clog_bounds(3) by (auto simp: run_ok_def base_def)

lemma base_ad: "i \<le> 254 \<Longrightarrow> lv i = clog n \<Longrightarrow> base (ad i) n = i"
  using lv_bounds(1) [of i] by (simp add: base_def ad_def)

lemma run_units: "run_ok a n \<Longrightarrow> (\<Union>q\<in>set (run_nodes a n). units q) = {a ..< a + n}"
  using base_facts [of a n] pieces_units [of "base a n" "clog n" n] clog_bounds [of n]
  by (auto simp: run_nodes_def run_ok_def units_def)

lemma run_le: "run_ok a n \<Longrightarrow> q \<in> set (run_nodes a n) \<Longrightarrow> q \<le> 254"
  using base_facts [of a n] pieces_anc [of "base a n" "clog n" q n] by (auto simp: run_nodes_def split: if_splits)

text \<open>The first node of a run and the others.\<close>

lemma run_split:
  assumes "run_ok a n"
  obtains x rest where "run_nodes a n = x # rest" "x \<le> 254" "ad x = a" "2 ^ lv x \<le> n"
    "rest = pieces (lv x) (x + 1) (n - 2 ^ lv x)" "n - 2 ^ lv x < 2 ^ lv x"
proof (cases "n = 2 ^ clog n")
  case True
  then show ?thesis using that [of "base a n" "[]"] base_facts [OF assms] assms by (simp add: run_nodes_def run_ok_def)
next
  case False
  have n: "n < 2 ^ clog n" "2 ^ clog n < 2 * n" using False assms clog_bounds [of n] by (auto simp: run_ok_def)
  then obtain k where k: "clog n = Suc k" by (cases "clog n") auto
  note b = base_facts [OF assms]
  have c: "base a n \<le> 126" "lv (left (base a n)) = k" using lv_pos [OF b(1), of k] b(2) k by simp_all
  have "left (base a n) + 1 = right (base a n)" by (simp add: left_def right_def)
  moreover have "run_nodes a n = left (base a n) # pieces k (right (base a n)) (n - 2 ^ k)" "2 ^ k \<le> n" "n - 2 ^ k < 2 ^ k"
    using False n k by (auto simp: run_nodes_def)
  ultimately show ?thesis using that [of "left (base a n)"] c ad_child(1) [OF c(1)] b(3) by simp
qed

lemma pieces_sizes: "i \<le> 254 \<Longrightarrow> lv i = k \<Longrightarrow> n < 2 ^ k \<Longrightarrow> sum_list (map snd (sized (pieces k i n))) = n"
proof (induction k i n rule: pieces.induct)
  case (2 k i n)
  have i: "i \<le> 126" "lv (left i) = k" "lv (right i) = k" using lv_pos [OF "2.prems"(1,2)] by simp_all
  show ?case
  proof (cases "2 ^ k \<le> n")
    case True
    then show ?thesis using "2.IH"(1) [OF True] "2.prems"(3) i by (simp add: sized_def)
  next
    case False
    then show ?thesis using "2.IH"(2) [OF False] i by simp
  qed
qed (simp add: sized_def)

lemma next_node:
  assumes "x \<le> 254" "ad x + 2 ^ lv x < 128"
  shows "x + 1 \<le> 254 \<and> lv (x + 1) = lv x \<and> ad (x + 1) = ad x + 2 ^ lv x"
  using assms lv_bounds [of x] by (auto simp: ad_def lv_def split: if_splits)

lemma pieces_distinct: "i \<le> 254 \<Longrightarrow> lv i = k \<Longrightarrow> distinct (pieces k i n)"
proof (induction k i n rule: pieces.induct)
  case (2 k i n)
  have i: "i \<le> 126" "lv (left i) = k" "lv (right i) = k" using lv_pos [OF "2.prems"] by simp_all
  have "left i \<notin> set (pieces k (right i) (n - 2 ^ k))"
    using pieces_anc [of "right i" k "left i" "n - 2 ^ k"] i anc_le [of "right i" "left i"] by (auto simp: left_def right_def)
  then show ?case using "2.IH" i by simp
qed simp

lemma run_distinct: "run_ok a n \<Longrightarrow> distinct (run_nodes a n)"
  using base_facts [of a n] by (auto simp: run_nodes_def pieces_distinct)

lemma run_sizes: "run_ok a n \<Longrightarrow> sum_list (map snd (sized (run_nodes a n))) = n"
  using base_facts [of a n] pieces_sizes [of "base a n" "clog n" n] clog_bounds [of n]
  by (auto simp: run_nodes_def run_ok_def sized_def)
text \<open>
  The state of a page: \<open>A\<close> maps the first unit of an allocation to its number of units. Node 30 is the control block.
\<close>

definition page_ok :: "(nat \<rightharpoonup> nat) \<Rightarrow> bool" where
  "page_ok A \<longleftrightarrow> (\<forall>a n. A a = Some n \<longrightarrow> run_ok a n) \<and>
     (\<forall>a n b m. A a = Some n \<longrightarrow> A b = Some m \<longrightarrow> a < b \<longrightarrow> a + n \<le> b)"

definition used :: "(nat \<rightharpoonup> nat) \<Rightarrow> nat set" where
  "used A = insert 30 (\<Union>a\<in>dom A. set (run_nodes a (the (A a))))"

definition starts :: "(nat \<rightharpoonup> nat) \<Rightarrow> nat set" where
  "starts A = (\<lambda>a. hd (run_nodes a (the (A a)))) ` dom A"

definition total :: "(nat \<rightharpoonup> nat) \<Rightarrow> nat" where
  "total A = (\<Sum>a\<in>dom A. the (A a))"

definition page :: "buddy \<Rightarrow> (nat \<rightharpoonup> nat) \<Rightarrow> u8 \<Rightarrow> bool" where
  "page s A pg \<longleftrightarrow> page_ok A \<and> (\<exists>g. holds s g (starts A) pg (of_nat SELF_INDEX - of_nat (total A)) \<and> bounded g \<and> rep (used A) g 7 0)"

lemma page_runs: "page_ok A \<Longrightarrow> A a = Some n \<Longrightarrow> run_ok a n"
  by (simp add: page_ok_def)

lemma dom_finite: "page_ok A \<Longrightarrow> finite (dom A)"
proof -
  assume "page_ok A"
  then have "a < 120" if "A a = Some n" for a n using that by (fastforce simp: page_ok_def run_ok_def)
  then have "dom A \<subseteq> {..<120}" by auto
  then show ?thesis by (rule finite_subset) simp
qed

lemma used_le: "page_ok A \<Longrightarrow> used A \<subseteq> {..254}"
  using run_le by (auto simp: used_def dest!: page_runs)

lemma units_self: "units 30 = {120..<128}"
  by (simp add: units_def ad_def lv_def)

lemma used_units: "page_ok A \<Longrightarrow> (\<Union>u\<in>used A. units u) = {120..<128} \<union> (\<Union>a\<in>dom A. {a ..< a + the (A a)})"
proof -
  assume "page_ok A"
  then have "(\<Union>q\<in>set (run_nodes a (the (A a))). units q) = {a ..< a + the (A a)}" if "a \<in> dom A" for a
    using that run_units page_runs by (metis domD option.sel)
  then show ?thesis unfolding used_def units_self [symmetric] by auto
qed

lemma starts_used: "page_ok A \<Longrightarrow> starts A \<subseteq> used A"
proof
  fix x
  assume ok: "page_ok A" and "x \<in> starts A"
  then obtain a n where a: "A a = Some n" "x = hd (run_nodes a n)" by (auto simp: starts_def)
  obtain y rest where "run_nodes a n = y # rest" using run_split [OF page_runs [OF ok a(1)]] by metis
  then show "x \<in> used A" using a by (auto simp: used_def intro!: bexI [of _ a])
qed

text \<open>Two runs with a common unit are the same run.\<close>

lemma same_run:
  assumes "page_ok A" "A a = Some n" "A b = Some m" "t \<in> {a ..< a + n}" "t \<in> {b ..< b + m}"
  shows "a = b"
proof (rule ccontr)
  assume "a \<noteq> b"
  then consider "a < b" | "b < a" by linarith
  then show False using assms unfolding page_ok_def by cases fastforce+
qed

lemma run_member: "run_ok a n \<Longrightarrow> q \<in> set (run_nodes a n) \<Longrightarrow> units q \<subseteq> {a ..< a + n} \<and> ad q \<in> {a ..< a + n}"
  using run_units [of a n] units_nonempty [of q] by blast

lemma same_run_node:
  assumes "page_ok A" "A a = Some n" "A b = Some m" "q \<in> set (run_nodes a n)" "q \<in> set (run_nodes b m)"
  shows "a = b"
  using same_run [OF assms(1-3), of "ad q"] run_member [OF page_runs [OF assms(1,2)] assms(4)]
    run_member [OF page_runs [OF assms(1,3)] assms(5)] by blast

lemma used_remove:
  assumes "page_ok A" "A a = Some n"
  shows "used A - set (run_nodes a n) = used (A(a := None))"
proof -
  have "30 \<notin> set (run_nodes a n)"
    using run_member [OF page_runs [OF assms]] page_runs [OF assms] units_self units_nonempty [of 30] by (fastforce simp: run_ok_def)
  moreover have "q \<notin> set (run_nodes a n)" if "A b = Some m" "b \<noteq> a" "q \<in> set (run_nodes b m)" for b m q
    using same_run_node [OF assms(1) that(1) assms(2) that(3)] that(2) by blast
  ultimately show ?thesis using assms(2) by (fastforce simp: used_def)
qed

lemma starts_remove:
  assumes "page_ok A" "A a = Some n" "run_nodes a n = x # rest"
  shows "starts A - {x} = starts (A(a := None))"
proof -
  have "hd (run_nodes b m) \<noteq> x" if b: "A b = Some m" "b \<noteq> a" for b m
  proof
    assume "hd (run_nodes b m) = x"
    moreover obtain y ys where "run_nodes b m = y # ys" using run_split [OF page_runs [OF assms(1) b(1)]] by metis
    ultimately have "x \<in> set (run_nodes b m)" by simp
    then show False using same_run_node [OF assms(1) b(1) assms(2), of x] assms(3) b(2) by simp
  qed
  then show ?thesis using assms(2,3) by (force simp: starts_def)
qed

lemma total_remove: "page_ok A \<Longrightarrow> A a = Some n \<Longrightarrow> total A = n + total (A(a := None))"
  using sum.remove [OF dom_finite, of A a "\<lambda>a. the (A a)"] by (auto simp: total_def dom_def intro!: sum.cong)

lemma page_ok_remove: "page_ok A \<Longrightarrow> page_ok (A(a := None))"
  by (auto simp: page_ok_def)
section \<open>Allocating\<close>

lemma rep_used_zero: "rep U g k i \<Longrightarrow> i \<in> U \<Longrightarrow> g i = 0"
  by (cases k) auto

lemma nsize_clog:
  assumes "0 < n" "n \<le> 32"
  shows "(if \<not> IS_POWER_OF_2 (of_nat n) then unat (fixsize (of_nat n)) else n) = 2 ^ clog n"
proof -
  have "list_all (\<lambda>n. (if \<not> IS_POWER_OF_2 (of_nat n) then unat (fixsize (of_nat n)) else n) = 2 ^ clog n) [1..<33]"
    by code_simp
  then show ?thesis using assms by (simp add: list_all_iff)
qed

definition chosen :: "nat set \<Rightarrow> nat \<Rightarrow> nat \<Rightarrow> bool" where
  "chosen U n i \<longleftrightarrow> i \<le> 254 \<and> lv i = clog n \<and> ad i + n \<le> 120 \<and>
     (\<forall>q\<in>set (if n = 2 ^ clog n then [i] else pieces (clog n) i n). node_free U q)"

lemma chosen_node:
  assumes "node_free U i" "U \<subseteq> {..254}" "30 \<in> U" "i \<le> 254" "lv i = clog n" "0 < n" "n \<le> 128"
  shows "chosen U n i"
proof -
  have "units i \<inter> {120..<128} = {}" using assms(1-4) units_self by (auto simp: units_free)
  moreover have "ad i + 2 ^ lv i \<le> 128" using lv_bounds(2) [OF assms(4)] lv_bounds(1) [OF assms(4)] by (simp add: ad_def algebra_simps)
  ultimately have "ad i + 2 ^ lv i \<le> 120" by (fastforce simp: units_def)
  moreover have "node_free U q" if "q \<in> set (pieces (clog n) i n)" for q
    using pieces_anc [OF assms(4,5) that] node_free_sub [OF assms(1) _ assms(2) _ assms(4)] by blast
  ultimately show ?thesis using assms clog_bounds(1) [OF assms(6,7)] by (auto simp: chosen_def)
qed

lemma choose_spec:
  assumes "page_ok A" "holds s g T pg fr" "bounded g" "rep (used A) g 7 0" "0 < n" "n \<le> 120"
  shows "\<exists>c. alloc_choose s n = Some c \<and> (case c of None \<Rightarrow> True
    | Some (i, ns, off) \<Rightarrow> chosen (used A) n i \<and> ns = 2 ^ clog n \<and> off = ad i)"
proof (cases "n \<le> 32")
  case True
  obtain m where m: "getMax s 0 = Some m" "unat m = g 0" using holds_getMax [OF assms(2), of 0] by auto
  have ch: "alloc_choose s n = (if g 0 < 2 ^ clog n then Some None
      else do { i \<leftarrow> alloc_search s (2 ^ clog n) 0 128; Some (Some (i, 2 ^ clog n, (i + 1) * 2 ^ clog n - 128)) })"
    unfolding alloc_choose_def Let_def nsize_clog [OF assms(5) True] using True m by simp
  show ?thesis
  proof (cases "g 0 < 2 ^ clog n")
    case False
    have "g 0 \<noteq> 0" using False by (intro notI) simp
    then have "0 \<notin> used A" using rep_used_zero [OF assms(4)] by auto
    then have "a \<notin> used A" if "anc a 0" for a using anc_le [OF that] by simp
    then obtain x where x: "alloc_search s (2 ^ clog n) 0 (2 ^ 7) = Some x" "x \<le> 254" "lv x = clog n" "node_free (used A) x"
      using alloc_search_free [OF assms(2,4) used_le [OF assms(1)], of 0 7 "clog n"] False clog_bounds(3) [of n]
      by (auto simp: lv_def not_less)
    moreover have "chosen (used A) n x"
      using x assms by (intro chosen_node used_le) (auto simp: used_def)
    ultimately show ?thesis using ch False by (auto simp: ad_def)
  qed (use ch in simp)
next
  case False
  have n: "clog n = (if n \<le> 64 then 6 else 7)" using False assms(6) by (simp add: clog_def)
  have g5: "get_contins_size s 5 32 = Some (contins g 6 2)" and g1: "get_contins_size s 1 64 = Some (contins g 7 0)"
    using get_contins [OF assms(2), of 2 6 0] get_contins [OF assms(2), of 0 7 0] by (simp_all add: get_contins_size_def lv_def left_def)
  note free = contins_free [OF assms(4) used_le [OF assms(1)]]
  have U: "30 \<in> used A" by (simp add: used_def)
  consider "n \<le> 56" "n \<le> contins g 6 2" | "\<not> (n \<le> 56 \<and> n \<le> contins g 6 2)" "contins g 7 0 < n"
    | "\<not> (n \<le> 56 \<and> n \<le> contins g 6 2)" "n \<le> contins g 7 0" "64 < n"
    | "\<not> (n \<le> 56 \<and> n \<le> contins g 6 2)" "n \<le> contins g 7 0" "n \<le> 64" by linarith
  then show ?thesis
  proof cases
    case 1
    have "chosen (used A) n 2"
      using 1 False n free [OF U self_block_anc(1), of 6 n] by (auto simp: chosen_def lv_def ad_def)
    then show ?thesis using 1 False g5 n by (simp add: alloc_choose_def ad_def lv_def)
  next
    case 2
    then show ?thesis using False g5 g1 by (auto simp: alloc_choose_def)
  next
    case 3
    have "anc 0 30" unfolding anc_def by (intro exI [of _ 4]) simp
    then have "chosen (used A) n 0" using 3 n assms(6) free [OF U, of 0 7 n] by (auto simp: chosen_def lv_def ad_def)
    then show ?thesis using 3 False g5 g1 n by (auto simp: alloc_choose_def ad_def lv_def)
  next
    case 4
    have g: "g (left 0) = 2 ^ 6" using 4(2) False contins.simps(2) [of g 6 0] by (auto split: if_splits)
    have "node_free (used A) 1"
    proof (rule node_freeI [OF assms(4) used_le [OF assms(1)]])
      have "anc 0 30" unfolding anc_def by (intro exI [of _ 4]) simp
      then have "0 \<notin> used A" using rep_antichain [OF assms(4) _ U, of 0] by auto
      moreover have "1 \<notin> used A"
        using rep_full [OF rep_sub [OF assms(4), of 1]] g by (auto simp: left_def lv_def)
      moreover fix a
      assume "anc a 1"
      then have "a \<le> 1" by (rule anc_le)
      then have "a = 0 \<or> a = 1" by linarith
      ultimately show "a \<notin> used A" by auto
    qed (use g in \<open>simp_all add: left_def lv_def\<close>)
    then have "chosen (used A) n 1" using 4 n assms by (intro chosen_node used_le) (auto simp: used_def lv_def)
    then show ?thesis using 4 False g5 g1 n by (auto simp: alloc_choose_def ad_def lv_def)
  qed
qed

end
