(* ===== verification/Heap_Spec.thy ===== *)
theory Heap_Spec
  imports Main
begin

text \<open>
  The contract of an allocator of blocks, as its clients rely on it. The abstract state maps the first cell of a live
  block to its length. The buddy allocator of a page (cells are units of 16 bytes), the page pool (cells
  are pages) and the heap built on both (cells are bytes) are interpreted in it; what follows for any sequence
  of calls is proved here once.
\<close>

type_synonym blocks = "nat \<rightharpoonup> nat"

definition apart :: "blocks \<Rightarrow> bool" where
  "apart A \<longleftrightarrow> (\<forall>a n b m. A a = Some n \<longrightarrow> A b = Some m \<longrightarrow> a \<noteq> b \<longrightarrow> {a ..< a + n} \<inter> {b ..< b + m} = {})"

definition fresh_block :: "blocks \<Rightarrow> nat \<Rightarrow> nat \<Rightarrow> bool" where
  "fresh_block A a n \<longleftrightarrow> (\<forall>b m. A b = Some m \<longrightarrow> {a ..< a + n} \<inter> {b ..< b + m} = {})"

text \<open>The cells of the live blocks.\<close>

definition cells :: "blocks \<Rightarrow> nat set" where
  "cells A = {t. \<exists>a n. A a = Some n \<and> t \<in> {a ..< a + n}}"

lemma cells_empty [simp]: "cells Map.empty = {}"
  by (simp add: cells_def)

lemma fresh_cells: "fresh_block A a n \<longleftrightarrow> {a ..< a + n} \<inter> cells A = {}"
  unfolding fresh_block_def cells_def by blast

lemma cells_add: "A a = None \<Longrightarrow> cells (A(a \<mapsto> n)) = {a ..< a + n} \<union> cells A"
  unfolding cells_def by (auto split: if_splits)

lemma cells_remove:
  assumes "apart A" "A a = Some n"
  shows "cells (A(a := None)) = cells A - {a ..< a + n}"
proof -
  have out: "t \<notin> {a ..< a + n}" if "A b = Some m" "t \<in> {b ..< b + m}" "b \<noteq> a" for b m t
    using assms that unfolding apart_def by blast
  show ?thesis
  proof (intro set_eqI iffI)
    fix t
    assume "t \<in> cells A - {a ..< a + n}"
    then obtain b m where b: "A b = Some m" "t \<in> {b ..< b + m}" "t \<notin> {a ..< a + n}" by (auto simp: cells_def)
    then have "b \<noteq> a" using assms(2) by auto
    then show "t \<in> cells (A(a := None))" using b unfolding cells_def by auto
  qed (use out in \<open>auto simp: cells_def split: if_splits\<close>)
qed

lemma cells_block: "A a = Some n \<Longrightarrow> {a ..< a + n} \<subseteq> cells A"
  unfolding cells_def by blast

lemma cells_start: "A a = Some n \<Longrightarrow> 0 < n \<Longrightarrow> a \<in> cells A"
  using cells_block [of A a n] by auto

lemma apart_empty [simp]: "apart Map.empty"
  by (simp add: apart_def)

lemma apart_add: "apart A \<Longrightarrow> fresh_block A a n \<Longrightarrow> apart (A(a \<mapsto> n))"
  unfolding apart_def fresh_block_def fun_upd_apply by (metis Int_commute option.inject)

lemma apart_remove: "apart A \<Longrightarrow> apart (A(a := None))"
  unfolding apart_def fun_upd_apply by (metis option.distinct(1))

datatype heap_op = Alloc nat | Free nat

text \<open>
  A run of calls of a fair client, which frees only blocks it holds. \<open>tk\<close> is the allocation (the new state and the
  block, if any), \<open>gv\<close> the release of a block; \<open>None\<close> is a call that does not return or leaves its memory.
\<close>

fun heap_run :: "('s \<Rightarrow> nat \<Rightarrow> ('s \<times> nat option) option) \<Rightarrow> ('s \<Rightarrow> nat \<Rightarrow> nat \<Rightarrow> 's option) \<Rightarrow> (nat \<Rightarrow> nat) \<Rightarrow>
    's \<Rightarrow> blocks \<Rightarrow> heap_op list \<Rightarrow> ('s \<times> blocks) option" where
  "heap_run tk gv len s A [] = Some (s, A)"
| "heap_run tk gv len s A (Alloc n # ops) =
     (case tk s n of None \<Rightarrow> None
      | Some (s', None) \<Rightarrow> heap_run tk gv len s' A ops
      | Some (s', Some a) \<Rightarrow> heap_run tk gv len s' (A(a \<mapsto> len n)) ops)"
| "heap_run tk gv len s A (Free a # ops) =
     (case A a of None \<Rightarrow> heap_run tk gv len s A ops
      | Some n \<Rightarrow> (case gv s a n of None \<Rightarrow> None | Some s' \<Rightarrow> heap_run tk gv len s' (A(a := None)) ops))"

text \<open>
  The same where a refused request stops the system: the run ends before the first refused request, with the calls that
  were not made.
\<close>

fun heap_run_fatal :: "('s \<Rightarrow> nat \<Rightarrow> ('s \<times> nat option) option) \<Rightarrow> ('s \<Rightarrow> nat \<Rightarrow> nat \<Rightarrow> 's option) \<Rightarrow> (nat \<Rightarrow> nat) \<Rightarrow>
    's \<Rightarrow> blocks \<Rightarrow> heap_op list \<Rightarrow> ('s \<times> blocks \<times> heap_op list) option" where
  "heap_run_fatal tk gv len s A [] = Some (s, A, [])"
| "heap_run_fatal tk gv len s A (Alloc n # ops) =
     (case tk s n of None \<Rightarrow> None
      | Some (s', None) \<Rightarrow> Some (s, A, Alloc n # ops)
      | Some (s', Some a) \<Rightarrow> heap_run_fatal tk gv len s' (A(a \<mapsto> len n)) ops)"
| "heap_run_fatal tk gv len s A (Free a # ops) =
     (case A a of None \<Rightarrow> heap_run_fatal tk gv len s A ops
      | Some n \<Rightarrow> (case gv s a n of None \<Rightarrow> None | Some s' \<Rightarrow> heap_run_fatal tk gv len s' (A(a := None)) ops))"

fun op_fits :: "(nat \<Rightarrow> bool) \<Rightarrow> heap_op \<Rightarrow> bool" where
  "op_fits ok (Alloc n) = ok n"
| "op_fits ok (Free a) = True"

locale block_allocator =
  fixes live :: "'s \<Rightarrow> blocks \<Rightarrow> bool"
    and take_block :: "'s \<Rightarrow> nat \<Rightarrow> ('s \<times> nat option) option"
    and give_block :: "'s \<Rightarrow> nat \<Rightarrow> nat \<Rightarrow> 's option"
    and len :: "nat \<Rightarrow> nat"
    and ok :: "nat \<Rightarrow> bool"
    and extent :: nat
  assumes live_blocks: "live s A \<Longrightarrow> A a = Some n \<Longrightarrow> 0 < n \<and> a + n \<le> extent"
    and live_apart: "live s A \<Longrightarrow> apart A"
    and len_pos: "ok n \<Longrightarrow> 0 < len n"
    and take_law: "live s A \<Longrightarrow> ok n \<Longrightarrow> \<exists>s' r. take_block s n = Some (s', r) \<and>
        (case r of None \<Rightarrow> live s' A | Some a \<Rightarrow> fresh_block A a (len n) \<and> live s' (A(a \<mapsto> len n)))"
    and give_law: "live s A \<Longrightarrow> A a = Some n \<Longrightarrow> \<exists>s'. give_block s a n = Some s' \<and> live s' (A(a := None))"
begin

lemma fresh_new: "live s A \<Longrightarrow> ok n \<Longrightarrow> fresh_block A a (len n) \<Longrightarrow> A a = None"
proof (rule ccontr)
  assume l: "live s A" "ok n" "fresh_block A a (len n)" and "A a \<noteq> None"
  then obtain m where m: "A a = Some m" by auto
  then have "a \<in> {a ..< a + len n} \<inter> {a ..< a + m}" using live_blocks [OF l(1)] len_pos [OF l(2)] by simp
  then show False using l(3) m unfolding fresh_block_def by blast
qed

text \<open>A block that was just taken can be given back, and then the same blocks are live as before.\<close>

lemma take_give:
  assumes "live s A" "ok n" "take_block s n = Some (s', Some a)"
  shows "\<exists>s''. give_block s' a (len n) = Some s'' \<and> live s'' A"
proof -
  have t: "fresh_block A a (len n)" "live s' (A(a \<mapsto> len n))" using take_law [OF assms(1,2)] assms(3) by auto
  have "(A(a \<mapsto> len n))(a := None) = A" using fresh_new [OF assms(1,2) t(1)] by auto
  then show ?thesis using give_law [OF t(2), of a "len n"] by simp
qed

text \<open>Every sequence of calls returns, and the blocks it leaves are inside the area and do not overlap.\<close>

lemma run_safe:
  assumes "live s A" "\<forall>c\<in>set ops. op_fits ok c"
  shows "\<exists>s' A'. heap_run take_block give_block len s A ops = Some (s', A') \<and> live s' A' \<and> apart A' \<and>
    (\<forall>a n. A' a = Some n \<longrightarrow> a + n \<le> extent)"
  using assms
proof (induction ops arbitrary: s A)
  case Nil
  then show ?case using live_apart live_blocks by auto
next
  case (Cons c ops)
  show ?case
  proof (cases c)
    case (Alloc n)
    then obtain s' r where "take_block s n = Some (s', r)"
        "case r of None \<Rightarrow> live s' A | Some a \<Rightarrow> fresh_block A a (len n) \<and> live s' (A(a \<mapsto> len n))"
      using take_law [OF Cons.prems(1), of n] Cons.prems(2) by (metis list.set_intros(1) op_fits.simps(1))
    then show ?thesis using Alloc Cons.IH [of s'] Cons.prems(2) by (cases r) auto
  next
    case (Free a)
    show ?thesis
    proof (cases "A a")
      case None
      then show ?thesis using Free Cons.IH [OF Cons.prems(1)] Cons.prems(2) by auto
    next
      case (Some n)
      then obtain s' where "give_block s a n = Some s'" "live s' (A(a := None))" using give_law [OF Cons.prems(1)] by blast
      then show ?thesis using Free Some Cons.IH [of s'] Cons.prems(2) by auto
    qed
  qed
qed

text \<open>If a refused request is fatal, the run ends with the last call or before a request that is refused.\<close>

lemma run_fatal_safe:
  assumes "live s A" "\<forall>c\<in>set ops. op_fits ok c"
  shows "\<exists>s' A' rest. heap_run_fatal take_block give_block len s A ops = Some (s', A', rest) \<and> live s' A' \<and>
    (rest = [] \<or> (\<exists>n ops' s''. rest = Alloc n # ops' \<and> ok n \<and> take_block s' n = Some (s'', None)))"
  using assms
proof (induction ops arbitrary: s A)
  case (Cons c ops)
  show ?case
  proof (cases c)
    case (Alloc n)
    have ok: "ok n" using Cons.prems(2) Alloc by simp
    obtain s' r where t: "take_block s n = Some (s', r)"
        "case r of None \<Rightarrow> live s' A | Some a \<Rightarrow> fresh_block A a (len n) \<and> live s' (A(a \<mapsto> len n))"
      using take_law [OF Cons.prems(1) ok] by blast
    show ?thesis
    proof (cases r)
      case None
      then show ?thesis using Alloc t(1) ok Cons.prems(1) by auto
    next
      case (Some a)
      then show ?thesis using Alloc t Cons.IH [of s'] Cons.prems(2) by auto
    qed
  next
    case (Free a)
    show ?thesis
    proof (cases "A a")
      case None
      then show ?thesis using Free Cons.IH [OF Cons.prems(1)] Cons.prems(2) by simp
    next
      case (Some n)
      then obtain s' where "give_block s a n = Some s'" "live s' (A(a := None))" using give_law [OF Cons.prems(1)] by blast
      then show ?thesis using Free Some Cons.IH [of s'] Cons.prems(2) by auto
    qed
  qed
qed simp

end

end
