(* ===== verification/Buddy_Alloc.thy ===== *)
theory Buddy_Alloc
  imports Buddy_Page Heap_Spec
begin

text \<open>
  Allocating and freeing in a page: the two entry points of \<^verbatim>\<open>rom_buddy.c\<close> on the abstract state of a page, and the
  contract of an allocator for them.
\<close>

unbundle bit_operations_syntax

section \<open>Allocating a run\<close>

lemma chosen_run:
  assumes "page_ok A" "0 < n" "n \<le> 120" "chosen (used A) n i"
  shows "run_ok (ad i) n" "run_nodes (ad i) n = (if n = 2 ^ clog n then [i] else pieces (clog n) i n)"
    "\<And>b m. A b = Some m \<Longrightarrow> {ad i ..< ad i + n} \<inter> {b ..< b + m} = {}"
    "page_ok (A(ad i \<mapsto> n))" "used (A(ad i \<mapsto> n)) = used A \<union> set (run_nodes (ad i) n)"
    "starts (A(ad i \<mapsto> n)) = insert (hd (run_nodes (ad i) n)) (starts A)" "A (ad i) = None"
    "total (A(ad i \<mapsto> n)) = total A + n"
proof -
  have i: "i \<le> 254" "lv i = clog n" "ad i + n \<le> 120" using assms(4) by (simp_all add: chosen_def)
  have b: "base (ad i) n = i" by (rule base_ad [OF i(1,2)])
  have "2 ^ clog n dvd (128 :: nat)" using le_imp_power_dvd [OF clog_bounds(3), of "2 :: nat" n] by simp
  then have "2 ^ clog n dvd ad i" unfolding ad_def i(2) by (intro dvd_diff_nat) simp_all
  then show ok: "run_ok (ad i) n" using assms(2) i(3) by (simp add: run_ok_def)
  show rn: "run_nodes (ad i) n = (if n = 2 ^ clog n then [i] else pieces (clog n) i n)" by (simp add: run_nodes_def b)
  have free: "node_free (used A) q" "q \<le> 254" if "q \<in> set (run_nodes (ad i) n)" for q
    using assms(4) that run_le [OF ok that] by (auto simp: chosen_def rn split: if_splits)
  have "units q \<inter> units u = {}" if "q \<in> set (run_nodes (ad i) n)" "u \<in> used A" for q u
    using free [OF that(1)] that(2) units_free [OF used_le [OF assms(1)]] by fastforce
  then have "(\<Union>q\<in>set (run_nodes (ad i) n). units q) \<inter> (\<Union>u\<in>used A. units u) = {}" by blast
  then have dis: "{ad i ..< ad i + n} \<inter> (\<Union>a\<in>dom A. {a ..< a + the (A a)}) = {}"
    unfolding run_units [OF ok] used_units [OF assms(1)] by blast
  then show d: "{ad i ..< ad i + n} \<inter> {b ..< b + m} = {}" if "A b = Some m" for b m using that by fastforce
  show none: "A (ad i) = None"
  proof (rule ccontr)
    assume "A (ad i) \<noteq> None"
    then obtain m where m: "A (ad i) = Some m" by auto
    then have "ad i \<in> {ad i ..< ad i + n} \<inter> {ad i ..< ad i + m}" using assms(2) page_runs [OF assms(1) m] by (simp add: run_ok_def)
    then show False using d [OF m] by blast
  qed
  have ord: "b + m \<le> ad i" if "A b = Some m" "b < ad i" for b m
    using d [OF that(1)] that(2) assms(2) by (intro leI) (auto dest!: equalityD1 simp: subset_iff)
  have ord': "ad i + n \<le> b" if "A b = Some m" "ad i < b" for b m
    using d [OF that(1)] that(2) page_runs [OF assms(1) that(1)] by (intro leI) (auto dest!: equalityD1 simp: subset_iff run_ok_def)
  show "page_ok (A(ad i \<mapsto> n))" using assms(1) ok ord ord' by (auto simp: page_ok_def)
  have ni: "ad i \<notin> dom A" using none by auto
  then have old: "the ((A(ad i \<mapsto> n)) a) = the (A a)" if "a \<in> dom A" for a using that by auto
  have dm: "dom (A(ad i \<mapsto> n)) = insert (ad i) (dom A)" by simp
  show "used (A(ad i \<mapsto> n)) = used A \<union> set (run_nodes (ad i) n)"
    unfolding used_def dm by (simp add: old insert_commute Un_commute cong: SUP_cong_simp del: fun_upd_apply) auto
  show "starts (A(ad i \<mapsto> n)) = insert (hd (run_nodes (ad i) n)) (starts A)"
    unfolding starts_def dm image_insert using old by (auto simp: image_iff)
  have "ad i \<notin> dom A" using ni .
  then have "(\<Sum>a\<in>insert (ad i) (dom A). the ((A(ad i \<mapsto> n)) a)) = n + (\<Sum>a\<in>dom A. the ((A(ad i \<mapsto> n)) a))"
    using dom_finite [OF assms(1)] by simp
  also have "(\<Sum>a\<in>dom A. the ((A(ad i \<mapsto> n)) a)) = (\<Sum>a\<in>dom A. the (A a))" using \<open>ad i \<notin> dom A\<close> by (intro sum.cong) auto
  finally show "total (A(ad i \<mapsto> n)) = total A + n" by (simp add: total_def)
qed

lemma mark_run:
  assumes "page_ok A" "holds s g (starts A) pg fr" "bounded g" "rep (used A) g 7 0" "0 < n" "n \<le> 120" "chosen (used A) n i"
  shows "\<exists>s' g'. (if n < 2 ^ clog n then do { s1 \<leftarrow> setType s (left i); alloc_mark s1 n i (2 ^ clog n div 2) }
      else do { s1 \<leftarrow> setType s i; s2 \<leftarrow> setMax s1 i 0; update_alloc_parent s2 i }) = Some s' \<and>
    holds s' g' (starts (A(ad i \<mapsto> n))) pg fr \<and> bounded g' \<and> rep (used (A(ad i \<mapsto> n))) g' 7 0"
proof -
  note run = chosen_run [OF assms(1,5,6,7)]
  have i: "i \<le> 254" "lv i = clog n" using assms(7) by (simp_all add: chosen_def)
  have free: "node_free (used A) q" if "q \<in> set (run_nodes (ad i) n)" for q
    using assms(7) that run(2) by (auto simp: chosen_def split: if_splits)
  show ?thesis
  proof (cases "n < 2 ^ clog n")
    case True
    obtain k where k: "clog n = Suc k" using True assms(5) by (cases "clog n") auto
    have l: "left i \<le> 254" using lv_pos [OF i(1)] i(2) k by simp
    have nk: "2 ^ k \<le> n" using clog_bounds(2) [OF assms(5)] k by simp
    obtain s1 where s1: "setType s (left i) = Some s1" "holds s1 g (insert (left i) (starts A)) pg fr"
      using holds_types(1) [OF assms(2) l] by auto
    have rn: "run_nodes (ad i) n = pieces (clog n) i n" "hd (run_nodes (ad i) n) = left i" using run(2) True k nk by simp_all
    have "\<exists>s' g'. alloc_mark s1 n i (2 ^ clog n div 2) = Some s' \<and> holds s' g' (insert (left i) (starts A)) pg fr \<and>
        bounded g' \<and> rep (used A \<union> set (pieces (clog n) i n)) g' 7 0"
      using free rn(1) by (intro alloc_mark_pieces [OF s1(2) assms(3,4) used_le [OF assms(1)] i True]) simp
    then show ?thesis using True s1(1) run(5,6) rn by auto
  next
    case False
    then have n: "n = 2 ^ clog n" using clog_bounds(1) [OF assms(5)] assms(6) by simp
    then have rn: "run_nodes (ad i) n = [i]" using run(2) by simp
    obtain s1 where s1: "setType s i = Some s1" "holds s1 g (insert i (starts A)) pg fr"
      using holds_types(1) [OF assms(2) i(1)] by auto
    obtain s2 s3 g' where "setMax s1 i 0 = Some s2" "update_alloc_parent s2 i = Some s3" "holds s3 g' (insert i (starts A)) pg fr"
        "bounded g'" "rep (insert i (used A)) g' 7 0"
      using mark_node [OF s1(2) assms(3,4) used_le [OF assms(1)] i(1)] free rn by auto
    then show ?thesis using False s1(1) run(5,6) rn by auto
  qed
qed

lemma holds_freed: "holds s g T pg fr \<Longrightarrow> holds (s\<lparr>b_freed := fr'\<rparr>) g T pg fr'"
  by (auto simp: holds_def wf_buddy_def mx_def ty_def)

definition in_units :: "nat \<Rightarrow> nat" where
  "in_units n = (n + UNIT_SIZE - 1) div UNIT_SIZE"

lemma buddy_alloc_page:
  assumes "page s A pg"
  shows "\<exists>s' res. rom_buddy_alloc pg sz s = Some (s', res) \<and> (case res of None \<Rightarrow> s' = s
    | Some (addr, real) \<Rightarrow> 0 < sz \<and> sz \<le> 1920 \<and> real = int (in_units (nat sz) * 16) \<and>
        (\<exists>a. addr = a * 16 \<and> run_ok a (in_units (nat sz)) \<and> fresh_block A a (in_units (nat sz)) \<and>
          page s' (A(a \<mapsto> in_units (nat sz))) pg))"
proof -
  obtain g where ok: "page_ok A" and g: "holds s g (starts A) pg (of_nat 120 - of_nat (total A))" "bounded g" "rep (used A) g 7 0"
    using assms(1) by (auto simp: page_def)
  have pg: "b_page_no s = pg" using g(1) by (simp add: holds_def)
  show ?thesis
  proof (cases "sz \<le> 0 \<or> 1920 < sz")
    case True
    then show ?thesis by (auto simp: rom_buddy_alloc_def)
  next
    case False
    define n where "n = in_units (nat sz)"
    have n: "0 < n" "n \<le> 120" using False by (auto simp: n_def in_units_def)
    have bs: "(nat sz + 16 - 1) div 16 = n" by (simp add: n_def in_units_def)
    obtain c where c: "alloc_choose s n = Some c" "case c of None \<Rightarrow> True
        | Some (i, ns, off) \<Rightarrow> chosen (used A) n i \<and> ns = 2 ^ clog n \<and> off = ad i"
      using choose_spec [OF ok g n] by blast
    show ?thesis
    proof (cases c)
      case None
      then show ?thesis using False c(1) pg unfolding rom_buddy_alloc_def Let_def bs by auto
    next
      case (Some t)
      then obtain i where i: "c = Some (i, 2 ^ clog n, ad i)" "chosen (used A) n i" using c(2) by (cases t) auto
      note run = chosen_run [OF ok n i(2)]
      obtain s1 g1 where m: "(if n < 2 ^ clog n then do { s1 \<leftarrow> setType s (left i); alloc_mark s1 n i (2 ^ clog n div 2) }
          else do { s1 \<leftarrow> setType s i; s2 \<leftarrow> setMax s1 i 0; update_alloc_parent s2 i }) = Some s1"
          "holds s1 g1 (starts (A(ad i \<mapsto> n))) pg (of_nat 120 - of_nat (total A))" "bounded g1" "rep (used (A(ad i \<mapsto> n))) g1 7 0"
        using mark_run [OF ok g n i(2)] by blast
      let ?s = "s1\<lparr>b_freed := b_freed s1 - of_nat n\<rparr>"
      have "rom_buddy_alloc pg sz s = Some (?s, Some (ad i * 16, int (n * 16)))"
        unfolding rom_buddy_alloc_def Let_def bs using False pg c(1) i(1) m(1) by simp
      moreover have "page ?s (A(ad i \<mapsto> n)) pg"
      proof -
        have "b_freed s1 - of_nat n = of_nat 120 - of_nat (total (A(ad i \<mapsto> n)))" using m(2) run(8) by (simp add: holds_def)
        then show ?thesis using holds_freed [OF m(2)] m(3,4) run(4) unfolding page_def by metis
      qed
      ultimately show ?thesis using run(1,3) False n_def by (auto simp: fresh_block_def)
    qed
  qed
qed

section \<open>Freeing\<close>

lemma starts_inter:
  assumes "page_ok A" "A a = Some n" "run_nodes a n = x # rest"
  shows "set rest \<inter> starts A = {}"
proof -
  have "q \<noteq> hd (run_nodes b m)" if b: "A b = Some m" and q: "q \<in> set rest" for b m q
  proof
    assume e: "q = hd (run_nodes b m)"
    obtain y ys where y: "run_nodes b m = y # ys" using run_split [OF page_runs [OF assms(1) b]] by metis
    then have "a = b" using same_run_node [OF assms(1,2) b, of q] assms(3) q e by simp
    then show False using run_distinct [OF page_runs [OF assms(1,2)]] assms(2,3) b q e y by simp
  qed
  then show ?thesis by (fastforce simp: starts_def)
qed

lemma pieces_apart:
  "i \<le> 254 \<Longrightarrow> lv i = k \<Longrightarrow> q \<in> set (pieces k i n) \<Longrightarrow> q' \<in> set (pieces k i n) \<Longrightarrow> q \<noteq> q' \<Longrightarrow> units q \<inter> units q' = {}"
proof (induction k i n rule: pieces.induct)
  case (2 k i n)
  have i: "i \<le> 126" "lv (left i) = k" "lv (right i) = k" using lv_pos [OF "2.prems"(1,2)] by simp_all
  have d: "units (left i) \<inter> units (right i) = {}" using ad_child [OF i(1)] i by (auto simp: units_def)
  have r: "units x \<subseteq> units (right i)" if "x \<in> set (pieces k (right i) (n - 2 ^ k))" for x
    using pieces_anc [OF _ i(3) that] i(1) anc_units by auto
  show ?case
  proof (cases "2 ^ k \<le> n")
    case True
    then show ?thesis using "2.IH"(1) [OF True] "2.prems" i d r [of q] r [of q'] by auto
  next
    case False
    then show ?thesis using "2.IH"(2) [OF False] "2.prems" i by simp
  qed
qed simp

lemma run_apart: "run_ok a n \<Longrightarrow> q \<in> set (run_nodes a n) \<Longrightarrow> q' \<in> set (run_nodes a n) \<Longrightarrow> q \<noteq> q' \<Longrightarrow> units q \<inter> units q' = {}"
  using base_facts [of a n] pieces_apart [of "base a n" "clog n" q n q'] by (auto simp: run_nodes_def split: if_splits)

lemma behind_run:
  assumes "page_ok A" "A a = Some n" "u \<in> used A" "ad u = a + n"
  shows "u \<in> starts A \<or> u = 30"
proof (rule ccontr)
  assume c: "\<not> (u \<in> starts A \<or> u = 30)"
  then obtain b m where b: "A b = Some m" "u \<in> set (run_nodes b m)" using assms(3) by (auto simp: used_def)
  obtain y ys where y: "run_nodes b m = y # ys" "ad y = b" using run_split [OF page_runs [OF assms(1) b(1)]] by metis
  note rb = page_runs [OF assms(1) b(1)]
  have "y \<in> starts A" using b(1) y(1) by (force simp: starts_def)
  then have uy: "u \<noteq> y" "u \<in> set ys" using c b(2) y(1) by auto
  have m: "b \<le> a + n" "a + n < b + m" using run_member [OF rb b(2)] assms(4) by auto
  have "a + n \<noteq> b"
  proof
    assume "a + n = b"
    then have "ad u \<in> units u \<inter> units y" using y(2) assms(4) units_nonempty [of u] units_nonempty [of y] by simp
    then show False using run_apart [OF rb, of u y] b(2) y(1) uy(1) by auto
  qed
  then have "a + n - 1 \<in> {b ..< b + m}" "a + n - 1 \<in> {a ..< a + n}" "0 < n"
    using m page_runs [OF assms(1,2)] by (auto simp: run_ok_def)
  then have "a = b" using same_run [OF assms(1,2) b(1)] by blast
  then show False using m b(1) assms(2) by simp
qed

lemma buddy_free_page:
  assumes "page s A pg" "A a = Some n"
  shows "\<exists>s'. rom_buddy_free pg (a * 16) s = Some (s', int (n * 16)) \<and> page s' (A(a := None)) pg"
proof -
  obtain g where ok: "page_ok A" and g: "holds s g (starts A) pg (of_nat 120 - of_nat (total A))" "bounded g" "rep (used A) g 7 0"
    using assms(1) by (auto simp: page_def)
  note run = page_runs [OF ok assms(2)]
  have pg: "b_page_no s = pg" using g(1) by (simp add: holds_def)
  have a: "a < 120" using run by (auto simp: run_ok_def)
  obtain x rest where x: "run_nodes a n = x # rest" "x \<le> 254" "ad x = a" "2 ^ lv x \<le> n"
      "rest = pieces (lv x) (x + 1) (n - 2 ^ lv x)" "n - 2 ^ lv x < 2 ^ lv x"
    using run_split [OF run] by metis
  have U: "set (run_nodes a n) \<subseteq> used A" using assms(2) by (auto simp: used_def)
  have "anc x (a + 127)" using unit_anc [of x a] x(2,3) a units_nonempty [of x] by simp
  moreover have "lv (a + 127) = 0" using lv_leaf [of "a + 127"] a by simp
  ultimately have f: "find_used s (a + 127) 1 = Some (x, 2 ^ lv x)"
    using find_used_node [OF g(1,3) used_le [OF ok], of x "a + 127"] U x(1) a by simp
  have c: "collect_nodes s (left (x + 1)) (2 ^ lv x div 2) [(x, 2 ^ lv x)] = Some (sized (run_nodes a n))"
  proof -
    have "ad x + 2 ^ lv x < 128" using x(3,4) run by (simp add: run_ok_def)
    note nx = next_node [OF x(2) this]
    have "collect_nodes s (left (x + 1)) (2 ^ lv x div 2) [(x, 2 ^ lv x)] = Some ([(x, 2 ^ lv x)] @ sized (pieces (lv x) (x + 1) (n - 2 ^ lv x)))"
    proof (rule collect_pieces [OF g(1,3) used_le [OF ok] starts_used [OF ok]])
      show "set (pieces (lv x) (x + 1) (n - 2 ^ lv x)) \<subseteq> used A - starts A"
        using starts_inter [OF ok assms(2) x(1)] U x(1,5) by auto
      show "u \<in> starts A \<or> u = 30" if "u \<in> used A" "ad u = ad (x + 1) + (n - 2 ^ lv x)" for u
        using behind_run [OF ok assms(2) that(1)] that(2) nx x(3,4) by simp
    qed (use nx x in simp_all)
    then show ?thesis using x(1,5) by (simp add: sized_def)
  qed
  have "RIGHT_SIBLING_LEFT_LEAF x = left (x + 1)" by (simp add: RIGHT_SIBLING_LEFT_LEAF_def left_def)
  then have gn: "get_nsize_and_nodes s x (2 ^ lv x) = Some (n, sized (run_nodes a n))"
    using c run_sizes [OF run] by (simp add: get_nsize_and_nodes_def)
  have t: "rom_buddy_getType s x = Some (x \<in> starts A)" by (rule holds_types(3) [OF g(1) x(2)])
  obtain s1 where s1: "clearType s x = Some s1" "holds s1 g (starts A - {x}) pg (of_nat 120 - of_nat (total A))"
    using holds_types(2) [OF g(1) x(2)] by blast
  obtain s2 g2 where s2: "release_nodes (sized (run_nodes a n)) s1 = Some s2"
      "holds s2 g2 (starts A - {x}) pg (of_nat 120 - of_nat (total A))" "bounded g2" "rep (used A - set (run_nodes a n)) g2 7 0"
    using release_rep [OF s1(2) g(2,3) used_le [OF ok] U run_distinct [OF run]] by blast
  have hd: "fst (hd (sized (run_nodes a n))) = x" by (simp add: x(1) sized_def)
  let ?s = "s2\<lparr>b_freed := b_freed s2 + of_nat n\<rparr>"
  have f': "find_used s (127 + a) 1 = Some (x, 2 ^ lv x)" using f by (simp only: add.commute)
  have "rom_buddy_free pg (a * 16) s = Some (?s, int (n * 16))"
    unfolding rom_buddy_free_def Let_def using pg a f' t gn s1(1) s2(1) hd by simp
  moreover have "page ?s (A(a := None)) pg"
  proof -
    have "b_freed s2 + of_nat n = of_nat 120 - of_nat (total (A(a := None)))"
      using s2(2) total_remove [OF ok assms(2)] by (simp add: holds_def)
    then show ?thesis
      using holds_freed [OF s2(2)] s2(3,4) page_ok_remove [OF ok] used_remove [OF ok assms(2)] starts_remove [OF ok assms(2) x(1)]
      unfolding page_def by metis
  qed
  ultimately show ?thesis by blast
qed

section \<open>The fresh page\<close>

lemma rep_model: "rep {30} (mx model) 7 0"
  by code_simp

lemma rep_bounded: "rep U g 7 0 \<Longrightarrow> (\<And>i. 254 < i \<Longrightarrow> g i = 0) \<Longrightarrow> bounded g"
  unfolding bounded_def using rep_le [OF rep_sub] by (metis le0 not_le)

lemma page_fresh: "page (rom_new_buddy_no pg) Map.empty pg"
proof -
  have u: "used Map.empty = {30}" "starts Map.empty = {}" "total Map.empty = 0" by (simp_all add: used_def starts_def total_def)
  have "ty (rom_new_buddy_no pg) = {}" by (auto simp: ty_def rom_new_buddy_no_def model_def)
  moreover have "mx (rom_new_buddy_no pg) = mx model" by (rule ext) (simp add: mx_def rom_new_buddy_no_def split: prod.splits)
  moreover have "bounded (mx model)" by (rule rep_bounded [OF rep_model]) (simp add: mx_def)
  moreover have "wf_buddy (rom_new_buddy_no pg)" by (simp add: wf_buddy_def rom_new_buddy_no_def model_def)
  ultimately show ?thesis using rep_model by (auto simp: page_def page_ok_def u holds_def rom_new_buddy_no_def)
qed

section \<open>The idle page\<close>

lemma total_card: "page_ok A \<Longrightarrow> total A = card (\<Union>a\<in>dom A. {a ..< a + the (A a)})"
proof -
  assume ok: "page_ok A"
  have "(\<Sum>a\<in>dom A. card {a ..< a + the (A a)}) = card (\<Union>a\<in>dom A. {a ..< a + the (A a)})"
    using same_run [OF ok] by (intro card_UN_disjoint [symmetric] dom_finite ok) fastforce+
  then show ?thesis by (simp add: total_def)
qed

lemma total_le: "page_ok A \<Longrightarrow> total A \<le> 120"
proof -
  assume ok: "page_ok A"
  have "(\<Union>a\<in>dom A. {a ..< a + the (A a)}) \<subseteq> {..<120}" using page_runs [OF ok] by (fastforce simp: run_ok_def)
  then have "card (\<Union>a\<in>dom A. {a ..< a + the (A a)}) \<le> card {..<120 :: nat}" by (intro card_mono) simp_all
  then show ?thesis by (simp add: total_card [OF ok])
qed

lemma total_zero: "page_ok A \<Longrightarrow> total A = 0 \<longleftrightarrow> A = Map.empty"
proof -
  assume ok: "page_ok A"
  have "the (A a) \<noteq> 0" if "a \<in> dom A" for a using that page_runs [OF ok] by (auto simp: run_ok_def)
  then have "total A = 0 \<longleftrightarrow> dom A = {}" using dom_finite [OF ok] unfolding total_def by (subst sum_eq_0_iff) blast+
  then show ?thesis by simp
qed

lemma page_idle: "page s A pg \<Longrightarrow> rom_is_buddy_idled s \<longleftrightarrow> A = Map.empty"
proof -
  assume p: "page s A pg"
  then have ok: "page_ok A" and f: "b_freed s = of_nat 120 - of_nat (total A)" by (auto simp: page_def holds_def)
  have "rom_is_buddy_idled s \<longleftrightarrow> of_nat (total A) = (0 :: u8)" unfolding rom_is_buddy_idled_def f by simp
  also have "\<dots> \<longleftrightarrow> total A = 0"
    using total_le [OF ok] by (auto simp: word_of_nat_eq_0_iff dest!: dvd_imp_le)
  finally show ?thesis by (simp add: total_zero [OF ok])
qed

section \<open>When an allocation fails\<close>

lemma free_root: "rep U g 7 0 \<Longrightarrow> i \<le> 254 \<Longrightarrow> (\<And>a. anc a i \<Longrightarrow> a \<notin> U) \<Longrightarrow> g i \<le> g 0"
proof (induction i rule: less_induct)
  case (less i)
  show ?case
  proof (cases "i = 0")
    case False
    let ?p = "parent i"
    have p: "?p < i" "?p \<le> 254" using parent_less [OF False] less.prems(2) by simp_all
    have up: "a \<notin> U" if "anc a ?p" for a using less.prems(3) anc_trans [OF that anc_parent [OF False]] by blast
    have r: "rep U g (lv ?p) ?p" by (rule rep_sub [OF less.prems(1) p(2)])
    have "?p \<notin> U" using up by simp
    then have "g ?p = comb (Suc (lv i)) (g (left ?p)) (g (right ?p))" "g (left ?p) \<le> 2 ^ lv i" "g (right ?p) \<le> 2 ^ lv i"
      using r rep_le unfolding lv_parent [OF False less.prems(2)] by auto
    then have "g i \<le> g ?p" using child_parent [OF False] by (auto simp: comb_def)
    then show ?thesis using less.IH [OF p(1) less.prems(1) p(2) up] by linarith
  qed simp
qed

text \<open>A request of at most 32 units fails only when no block of its size, rounded up to a power of two, is free.\<close>

lemma choose_none:
  assumes "page_ok A" "holds s g T pg fr" "rep (used A) g 7 0" "0 < n" "n \<le> 32" "alloc_choose s n = Some None"
    "2 ^ clog n dvd a" "a + 2 ^ clog n \<le> 120"
  shows "\<not> fresh_block A a (2 ^ clog n)"
proof
  assume fr: "fresh_block A a (2 ^ clog n)"
  let ?i = "(a + 128) div 2 ^ clog n - 1"
  have "a < 128" using assms(8) by simp
  note i = node_at [OF assms(7) this clog_bounds(3)]
  obtain m where m: "getMax s 0 = Some m" "unat m = g 0" using holds_getMax [OF assms(2), of 0] by auto
  have lt: "g 0 < 2 ^ clog n"
  proof (rule ccontr)
    assume "\<not> g 0 < 2 ^ clog n"
    then have "alloc_choose s n = do { i \<leftarrow> alloc_search s (2 ^ clog n) 0 128; Some (Some (i, 2 ^ clog n, (i + 1) * 2 ^ clog n - 128)) }"
      unfolding alloc_choose_def Let_def nsize_clog [OF assms(4,5)] using assms(5) m by simp
    then show False using assms(6) by (cases "alloc_search s (2 ^ clog n) 0 128") auto
  qed
  have u: "units ?i = {a ..< a + 2 ^ clog n}" using i by (simp add: units_def)
  have "units ?i \<inter> (\<Union>u\<in>used A. units u) = {}"
    using fr assms(8) unfolding u used_units [OF assms(1)] fresh_block_def by fastforce
  then have nf: "node_free (used A) ?i" using i by (subst units_free [OF used_le [OF assms(1)]]) auto
  then have "g ?i = 2 ^ lv ?i"
    using rep_full [OF rep_sub [OF assms(3)], of ?i] below_anc [of _ ?i] used_le [OF assms(1)] i unfolding node_free_def by fastforce
  moreover have "g ?i \<le> g 0" using nf i by (intro free_root [OF assms(3)]) (auto simp: node_free_def)
  ultimately show False using lt i by simp
qed


text \<open>On a fresh page every request up to the size of a page without its control block succeeds.\<close>

lemma fresh_choose: "0 < n \<Longrightarrow> n \<le> 120 \<Longrightarrow> alloc_choose (rom_new_buddy_no pg) n \<noteq> Some None"
proof -
  have "list_all (\<lambda>n. alloc_choose (rom_new_buddy_no pg) n \<noteq> Some None) [1..<121]" by code_simp
  moreover assume "0 < n" "n \<le> 120"
  ultimately show ?thesis by (simp add: list_all_iff)
qed

section \<open>Freeing what is not allocated\<close>

lemma find_used_none:
  assumes "holds s g T pg fr"
  shows "j \<le> 254 \<Longrightarrow> (\<And>a. anc a j \<Longrightarrow> g a \<noteq> 0) \<Longrightarrow> find_used s j k = None"
proof (induction j arbitrary: k rule: less_induct)
  case (less j)
  obtain m where m: "getMax s j = Some m" "m = 0 \<longleftrightarrow> g j = 0" using holds_getMax [OF assms less.prems(1)] by metis
  show ?case
  proof (cases "j = 0")
    case True
    then show ?thesis using m less.prems(2) [of j] by (simp add: find_used.simps)
  next
    case False
    have "find_used s (parent j) (k * 2) = None"
      using less.prems parent_less [OF False] anc_trans [OF _ anc_parent [OF False]] by (intro less.IH) auto
    then show ?thesis using m less.prems(2) [of j] False by (simp add: find_used.simps [of s j])
  qed
qed

lemma unit_free_path:
  assumes "rep U g 7 0" "U \<subseteq> {..254}" "j \<le> 254" "\<And>a. anc a j \<Longrightarrow> a \<notin> U" "g j \<noteq> 0" "anc a j"
  shows "g a \<noteq> 0"
  using assms(3-6)
proof (induction j rule: less_induct)
  case (less j)
  show ?case
  proof (cases "a = j")
    case False
    have j: "j \<noteq> 0" using False anc_le [OF less.prems(4)] by auto
    let ?p = "parent j"
    have p: "?p < j" "?p \<le> 254" using parent_less [OF j] less.prems(1) by simp_all
    have up: "b \<notin> U" if "anc b ?p" for b using less.prems(2) anc_trans [OF that anc_parent [OF j]] by blast
    have "?p \<notin> U" using up by simp
    then have "g ?p = comb (Suc (lv j)) (g (left ?p)) (g (right ?p))"
      using rep_sub [OF assms(1) p(2)] unfolding lv_parent [OF j less.prems(1)] by simp
    then have "g ?p \<noteq> 0" using child_parent [OF j] less.prems(3) by (auto simp: comb_def)
    then show ?thesis using less.IH [OF p up] anc_up [OF less.prems(4) False j] by simp
  qed (use less.prems in simp)
qed

lemma buddy_free_unallocated:
  assumes "page s A pg" "a < 120" "fresh_block A a 1"
  shows "rom_buddy_free pg (a * 16) s = None"
proof -
  obtain g where ok: "page_ok A" and g: "holds s g (starts A) pg (of_nat 120 - of_nat (total A))" "bounded g" "rep (used A) g 7 0"
    using assms(1) by (auto simp: page_def)
  have "units (a + 127) = {a}" using assms(2) by (auto simp: units_def ad_def lv_def)
  then have "units (a + 127) \<inter> (\<Union>u\<in>used A. units u) = {}"
    using assms(2,3) unfolding used_units [OF ok] fresh_block_def by fastforce
  then have nf: "node_free (used A) (a + 127)" using assms(2) by (subst units_free [OF used_le [OF ok]]) auto
  then have na: "\<And>b. anc b (a + 127) \<Longrightarrow> b \<notin> used A" by (auto simp: node_free_def)
  have "lv (a + 127) = 0" using assms(2) by (simp add: lv_def)
  then have "g (a + 127) = 1" using rep_sub [OF g(3), of "a + 127"] na [of "a + 127"] assms(2) by simp
  then have "\<And>b. anc b (a + 127) \<Longrightarrow> g b \<noteq> 0"
    using unit_free_path [OF g(3) used_le [OF ok], of "a + 127"] na assms(2) by simp
  then have "find_used s (a + 127) 1 = None" using assms(2) by (intro find_used_none [OF g(1)]) simp_all
  then have "find_used s (127 + a) 1 = None" by (simp only: add.commute)
  then show ?thesis using g(1) assms(2) by (simp add: rom_buddy_free_def holds_def)
qed

section \<open>The contract\<close>

text \<open>The entry points in units: a request in bytes, a block by its first unit.\<close>

definition page_take :: "u8 \<Rightarrow> buddy \<Rightarrow> nat \<Rightarrow> (buddy \<times> nat option) option" where
  "page_take pg s n = map_option (\<lambda>(s', r). (s', map_option (\<lambda>(addr, real). addr div UNIT_SIZE) r)) (rom_buddy_alloc pg (int n) s)"

definition page_give :: "u8 \<Rightarrow> buddy \<Rightarrow> nat \<Rightarrow> nat \<Rightarrow> buddy option" where
  "page_give pg s a n = map_option fst (rom_buddy_free pg (a * UNIT_SIZE) s)"

lemma page_ok_apart: "page_ok A \<Longrightarrow> apart A"
  using same_run unfolding apart_def by (meson disjoint_iff)

interpretation bp: block_allocator "\<lambda>s A. page s A pg" "page_take pg" "page_give pg" in_units "\<lambda>n. 0 < n" 120 for pg
proof unfold_locales
  fix s A a n
  assume p: "page s A pg"
  then show "apart A" by (auto simp: page_def intro: page_ok_apart)
  show "\<exists>s'. page_give pg s a n = Some s' \<and> page s' (A(a := None)) pg" if "A a = Some n"
    using buddy_free_page [OF p that] by (auto simp: page_give_def)
  show "\<exists>s' r. page_take pg s n = Some (s', r) \<and>
      (case r of None \<Rightarrow> page s' A pg | Some a \<Rightarrow> fresh_block A a (in_units n) \<and> page s' (A(a \<mapsto> in_units n)) pg)" if "0 < n"
  proof -
    obtain s' r where r: "rom_buddy_alloc pg (int n) s = Some (s', r)" "case r of None \<Rightarrow> s' = s
        | Some (addr, real) \<Rightarrow> 0 < int n \<and> int n \<le> 1920 \<and> real = int (in_units (nat (int n)) * 16) \<and>
          (\<exists>a. addr = a * 16 \<and> run_ok a (in_units (nat (int n))) \<and> fresh_block A a (in_units (nat (int n))) \<and>
            page s' (A(a \<mapsto> in_units (nat (int n)))) pg)"
      using buddy_alloc_page [OF p, of "int n"] by blast
    then show ?thesis using p by (cases r) (auto simp: page_take_def)
  qed
next
  show "0 < n \<and> a + n \<le> 120" if "page s A pg" "A a = Some n" for s A a n
    using that by (auto simp: page_def run_ok_def dest!: page_runs)
qed (simp add: in_units_def)

lemma buddy_alloc_none:
  assumes "page s A pg" "rom_buddy_alloc pg sz s = Some (s', None)" "0 < sz" "sz \<le> 512"
    "2 ^ clog (in_units (nat sz)) dvd a" "a + 2 ^ clog (in_units (nat sz)) \<le> 120"
  shows "\<not> fresh_block A a (2 ^ clog (in_units (nat sz)))"
proof -
  let ?n = "in_units (nat sz)"
  obtain g where ok: "page_ok A" and g: "holds s g (starts A) pg (of_nat 120 - of_nat (total A))" "bounded g" "rep (used A) g 7 0"
    using assms(1) by (auto simp: page_def)
  have n: "0 < ?n" "?n \<le> 32" "?n \<le> 120" using assms(3,4) by (auto simp: in_units_def)
  obtain c where c: "alloc_choose s ?n = Some c" using choose_spec [OF ok g n(1,3)] by blast
  have "c = None"
  proof (cases c)
    case (Some t)
    then show ?thesis
      using assms(2-4) c g(1) unfolding rom_buddy_alloc_def Let_def in_units_def [symmetric]
      by (cases t) (auto simp: holds_def Option.bind_eq_Some_conv)
  qed
  then show ?thesis using choose_none [OF ok g(1,3) n(1,2) _ assms(5,6)] c by simp
qed

lemma fresh_alloc:
  assumes "0 < sz" "sz \<le> 1920"
  shows "\<exists>s addr real. rom_buddy_alloc pg sz (rom_new_buddy_no pg) = Some (s, Some (addr, real))"
proof -
  let ?n = "in_units (nat sz)"
  have n: "0 < ?n" "?n \<le> 120" using assms by (auto simp: in_units_def)
  have p: "b_page_no (rom_new_buddy_no pg) = pg" by (simp add: rom_new_buddy_no_def)
  obtain s r where r: "rom_buddy_alloc pg sz (rom_new_buddy_no pg) = Some (s, r)"
    using buddy_alloc_page [OF page_fresh, of pg sz] by blast
  have "r \<noteq> None"
    using fresh_choose [OF n, of pg] r assms p unfolding rom_buddy_alloc_def Let_def in_units_def [symmetric]
    by (auto simp: Option.bind_eq_Some_conv split: option.splits)
  then show ?thesis using r by auto
qed

lemma witness_page: "\<exists>s a. page s [a \<mapsto> 7] 3"
proof -
  obtain s addr real where "rom_buddy_alloc 3 100 (rom_new_buddy_no 3) = Some (s, Some (addr, real))"
    using fresh_alloc [of 100 3] by auto
  then show ?thesis using buddy_alloc_page [OF page_fresh, of 3 100] by (auto simp: in_units_def)
qed

section \<open>Properties\<close>

text \<open>
  C13: An allocation of \<open>sz\<close> bytes in a page always returns. When it returns a block, the request was between 1 and
  1920 bytes, the block is a run of the units needed that begins on a unit, overlaps no block of the page and does
  not reach the control block, the size reported is that of the units, and the state of the page is the old one with
  this block. When it returns no block, the page is unchanged, and for a request of at most 512
  bytes no aligned block of its size, rounded up to a power of two, was free.
\<close>

theorem buddy_alloc_correct:
  assumes "page s A pg"
  shows "\<exists>s' r. rom_buddy_alloc pg sz s = Some (s', r) \<and>
    (case r of
       None \<Rightarrow> s' = s \<and> (0 < sz \<and> sz \<le> 512 \<longrightarrow>
         (let k = clog (in_units (nat sz)) in \<forall>a. 2 ^ k dvd a \<and> a + 2 ^ k \<le> 120 \<longrightarrow> \<not> fresh_block A a (2 ^ k)))
     | Some (addr, real) \<Rightarrow> 0 < sz \<and> sz \<le> 1920 \<and> real = int (in_units (nat sz) * 16) \<and>
         (\<exists>a. addr = a * 16 \<and> a + in_units (nat sz) \<le> 120 \<and> fresh_block A a (in_units (nat sz)) \<and>
           page s' (A(a \<mapsto> in_units (nat sz))) pg))"
proof -
  obtain s' r where r: "rom_buddy_alloc pg sz s = Some (s', r)" "case r of None \<Rightarrow> s' = s
    | Some (addr, real) \<Rightarrow> 0 < sz \<and> sz \<le> 1920 \<and> real = int (in_units (nat sz) * 16) \<and>
        (\<exists>a. addr = a * 16 \<and> run_ok a (in_units (nat sz)) \<and> fresh_block A a (in_units (nat sz)) \<and>
          page s' (A(a \<mapsto> in_units (nat sz))) pg)"
    using buddy_alloc_page [OF assms, of sz] by blast
  show ?thesis
  proof (cases r)
    case (Some t)
    then show ?thesis using r by (auto simp: run_ok_def)
  next
    case None
    have "\<not> fresh_block A a (2 ^ clog (in_units (nat sz)))"
      if sz: "0 < sz" "sz \<le> 512" and a: "2 ^ clog (in_units (nat sz)) dvd a" "a + 2 ^ clog (in_units (nat sz)) \<le> 120" for a
      using buddy_alloc_none [OF assms _ sz a] r None by simp
    then show ?thesis using None r by (auto simp: Let_def)
  qed
qed


theorem buddy_alloc_correct_witness:
  "\<exists>s' r. rom_buddy_alloc 3 100 (rom_new_buddy_no 3) = Some (s', r) \<and>
    (case r of
       None \<Rightarrow> s' = rom_new_buddy_no 3 \<and> (0 < (100 :: int) \<and> (100 :: int) \<le> 512 \<longrightarrow>
         (let k = clog (in_units (nat 100)) in \<forall>a. 2 ^ k dvd a \<and> a + 2 ^ k \<le> 120 \<longrightarrow> \<not> fresh_block Map.empty a (2 ^ k)))
     | Some (addr, real) \<Rightarrow> 0 < (100 :: int) \<and> (100 :: int) \<le> 1920 \<and> real = int (in_units (nat 100) * 16) \<and>
         (\<exists>a. addr = a * 16 \<and> a + in_units (nat 100) \<le> 120 \<and> fresh_block Map.empty a (in_units (nat 100)) \<and>
           page s' (Map.empty(a \<mapsto> in_units (nat 100))) 3))"
  by (rule buddy_alloc_correct [OF page_fresh])

text \<open>
  C14: Freeing a live block of a page by its address returns the size of the block in bytes and leaves the other
  blocks of the page as they were; the page then counts as idle exactly when no block is left.
\<close>

theorem buddy_free_correct:
  assumes "page s A pg" "A a = Some n"
  shows "\<exists>s'. rom_buddy_free pg (a * 16) s = Some (s', int (n * 16)) \<and> page s' (A(a := None)) pg \<and>
    (rom_is_buddy_idled s' \<longleftrightarrow> A(a := None) = Map.empty)"
  using buddy_free_page [OF assms] page_idle by blast

theorem buddy_free_correct_witness:
  "\<exists>s a s'. page s [a \<mapsto> 7] 3 \<and> rom_buddy_free 3 (a * 16) s = Some (s', 112) \<and> rom_is_buddy_idled s'"
proof -
  obtain s a where s: "page s [a \<mapsto> 7] 3" using witness_page by blast
  then obtain s' where "rom_buddy_free 3 (a * 16) s = Some (s', int (7 * 16)) \<and> page s' ([a \<mapsto> 7](a := None)) 3 \<and>
      (rom_is_buddy_idled s' \<longleftrightarrow> [a \<mapsto> 7](a := None) = Map.empty)"
    using buddy_free_correct [of s "[a \<mapsto> 7]" 3 a 7] by auto
  then show ?thesis using s by auto
qed

text \<open>
  A block that was just allocated can be freed by the address that was returned; the free reports the same size
  as the allocation, and the live blocks of the page are the same as before.
\<close>

theorem buddy_alloc_free_roundtrip:
  assumes "page s A pg" "rom_buddy_alloc pg sz s = Some (s1, Some (addr, real))"
  shows "\<exists>s2. rom_buddy_free pg addr s1 = Some (s2, real) \<and> page s2 A pg"
proof -
  obtain a where a: "real = int (in_units (nat sz) * 16)" "addr = a * 16" "run_ok a (in_units (nat sz))"
      "fresh_block A a (in_units (nat sz))" "page s1 (A(a \<mapsto> in_units (nat sz))) pg"
    using buddy_alloc_page [OF assms(1), of sz] assms(2) by auto
  have "A a = None" using bp.fresh_new [OF assms(1) _ a(4)] buddy_alloc_page [OF assms(1), of sz] assms(2) by auto
  then have "(A(a \<mapsto> in_units (nat sz)))(a := None) = A" by auto
  then show ?thesis using buddy_free_page [OF a(5), of a] a(1,2) by auto
qed

theorem buddy_alloc_free_roundtrip_witness:
  "\<exists>s1 addr real s2. rom_buddy_alloc 3 100 (rom_new_buddy_no 3) = Some (s1, Some (addr, real)) \<and>
     rom_buddy_free 3 addr s1 = Some (s2, real) \<and> page s2 Map.empty 3"
proof -
  obtain s1 addr real where a: "rom_buddy_alloc 3 100 (rom_new_buddy_no 3) = Some (s1, Some (addr, real))"
    using fresh_alloc [of 100 3] by auto
  show ?thesis using buddy_alloc_free_roundtrip [OF page_fresh a] a by blast
qed

text \<open>
  From a fresh page, every sequence of allocations of positive sizes and of frees of live blocks
  returns; no two live blocks ever overlap and none reaches the control block in the last 128 bytes.
\<close>

theorem buddy_sequence_safe:
  "\<forall>c\<in>set ops. op_fits (\<lambda>n. 0 < n) c \<Longrightarrow>
   \<exists>s A. heap_run (page_take pg) (page_give pg) in_units (rom_new_buddy_no pg) Map.empty ops = Some (s, A) \<and>
     page s A pg \<and> apart A \<and> (\<forall>a n. A a = Some n \<longrightarrow> a + n \<le> 120)"
  by (rule bp.run_safe [OF page_fresh])

theorem buddy_sequence_safe_witness:
  "\<exists>s A. heap_run (page_take 3) (page_give 3) in_units (rom_new_buddy_no 3) Map.empty [Alloc 100, Alloc 1000, Free 64, Alloc 30] = Some (s, A) \<and>
     page s A 3 \<and> apart A \<and> (\<forall>a n. A a = Some n \<longrightarrow> a + n \<le> 120)"
  by (rule buddy_sequence_safe) simp

text \<open>
  C36: A fresh page serves every request of 1 to 1920 bytes; \<open>mem_buddy_malloc\<close> relies on it, it does not test
  the result of the first allocation in a new page.
\<close>

theorem buddy_fresh_serves:
  assumes "0 < sz" "sz \<le> 1920"
  shows "\<exists>s addr real. rom_buddy_alloc pg sz (rom_new_buddy_no pg) = Some (s, Some (addr, real)) \<and> sz \<le> real \<and> int addr + real \<le> 1920"
proof -
  obtain s addr real where a: "rom_buddy_alloc pg sz (rom_new_buddy_no pg) = Some (s, Some (addr, real))"
    using fresh_alloc [OF assms] by blast
  obtain x where x: "real = int (in_units (nat sz) * 16)" "addr = x * 16" "run_ok x (in_units (nat sz))"
    using buddy_alloc_page [OF page_fresh, of pg sz] a by auto
  have "sz \<le> int (in_units (nat sz) * 16)" using assms by (simp add: in_units_def)
  moreover have "int addr + real \<le> 1920" using x unfolding run_ok_def by auto
  ultimately show ?thesis using a x(1) by blast
qed

theorem buddy_fresh_serves_witness:
  "\<exists>s addr real. rom_buddy_alloc 0 1900 (rom_new_buddy_no 0) = Some (s, Some (addr, real)) \<and> 1900 \<le> real \<and> int addr + real \<le> 1920"
  by (rule buddy_fresh_serves) simp_all

text \<open>
  Freeing an address in a unit that belongs to no live block, as in a second free of the same block, never
  returns: the walk to the root finds no node in use and the code spins.
\<close>

theorem buddy_double_free_spins:
  assumes "page s A pg" "a < 120" "fresh_block A a 1"
  shows "rom_buddy_free pg (a * 16) s = None"
  by (rule buddy_free_unallocated [OF assms])

theorem buddy_double_free_spins_witness: "rom_buddy_free 3 (5 * 16) (rom_new_buddy_no 3) = None"
  by (rule buddy_double_free_spins [OF page_fresh]) (simp_all add: fresh_block_def)

end
