(* ===== verification/Page_Pool.thy ===== *)
theory Page_Pool
  imports Prelude Heap_Spec "HOL-Library.Monad_Syntax"
begin

text \<open>
  The pool of pages, \<^verbatim>\<open>src/framework/base/memory/page_buddy/\<close>\<^verbatim>\<open>page.c\<close>, \<^verbatim>\<open>rom_page.c\<close> and \<^verbatim>\<open>page_init.c\<close>. The free
  pages are linked in a ring by 8-bit indices; index \<open>0xFF\<close> is the head and \<open>0x7F\<close> in the links marks a page in use.
  The ring is only used to tell free pages from used ones; an allocation scans the array of pages, from the front for
  one page and from the end for several.

  An address is its distance from the start of the pool, \<open>POOL0_ADDR\<close>. There is one zone, number 0;
  \<open>None\<close> is an access outside the array of pages or the call of the null callback.
\<close>

unbundle bit_operations_syntax

section \<open>Model\<close>

record list_index =
  next_index :: u8
  prev_index :: u8

record pool_page =
  lru :: list_index
  ibank_no :: u16

record pagepool =
  freelist :: list_index
  pagepool0 :: "pool_page list"
  freepage_num :: u8

abbreviation FREE_INDEX_FREE_FLAG :: u8 where "FREE_INDEX_FREE_FLAG \<equiv> 0xFF"
abbreviation FREE_INDEX_USED_FLAG :: u8 where "FREE_INDEX_USED_FLAG \<equiv> 0x7F"
abbreviation PAGE_SIZE :: nat where "PAGE_SIZE \<equiv> 2048"

definition SIZE2PAGE :: "u32 \<Rightarrow> u32" where
  "SIZE2PAGE sz = drop_bit 11 (sz + 2048 - 1)"

text \<open>The number of pages of the pool, \<open>POOL0_NUM\<close>, is the length of the array.\<close>

definition pagepool_size :: "pagepool \<Rightarrow> nat" where
  "pagepool_size st = length (pagepool0 st)"

definition NODE :: "pagepool \<Rightarrow> u8 \<Rightarrow> list_index option" where
  "NODE st index =
     (if index = FREE_INDEX_FREE_FLAG then Some (freelist st)
      else if index AND 0x80 = 0 \<and> unat (index AND 0x7f) < length (pagepool0 st)
           then Some (lru (pagepool0 st ! unat (index AND 0x7f))) else None)"

definition set_NODE :: "pagepool \<Rightarrow> u8 \<Rightarrow> (list_index \<Rightarrow> list_index) \<Rightarrow> pagepool option" where
  "set_NODE st index f =
     (if index = FREE_INDEX_FREE_FLAG then Some (st\<lparr>freelist := f (freelist st)\<rparr>)
      else if index AND 0x80 = 0 \<and> unat (index AND 0x7f) < length (pagepool0 st)
           then Some (st\<lparr>pagepool0 := (pagepool0 st)[unat (index AND 0x7f) :=
                  (pagepool0 st ! unat (index AND 0x7f))\<lparr>lru := f (lru (pagepool0 st ! unat (index AND 0x7f)))\<rparr>]\<rparr>)
           else None)"

definition pagepool_convert_index_to_addr :: "u8 \<Rightarrow> u32" where
  "pagepool_convert_index_to_addr index = of_nat (unat index * PAGE_SIZE)"

definition pagepool_convert_addr_to_pageindex :: "u32 \<Rightarrow> u8" where
  "pagepool_convert_addr_to_pageindex addr = of_nat (unat addr div PAGE_SIZE)"

definition freelist_add_raw :: "pagepool \<Rightarrow> u8 \<Rightarrow> u8 \<Rightarrow> u8 \<Rightarrow> pagepool option" where
  "freelist_add_raw st new prev nxt =
     do {
       st1 \<leftarrow> set_NODE st nxt (\<lambda>l. l\<lparr>prev_index := new\<rparr>);
       st2 \<leftarrow> set_NODE st1 new (\<lambda>l. l\<lparr>next_index := nxt\<rparr>);
       st3 \<leftarrow> set_NODE st2 new (\<lambda>l. l\<lparr>prev_index := prev\<rparr>);
       set_NODE st3 prev (\<lambda>l. l\<lparr>next_index := new\<rparr>)
     }"

definition freelist_del_raw :: "pagepool \<Rightarrow> u8 \<Rightarrow> u8 \<Rightarrow> pagepool option" where
  "freelist_del_raw st prev nxt =
     do {
       st1 \<leftarrow> set_NODE st nxt (\<lambda>l. l\<lparr>prev_index := prev\<rparr>);
       set_NODE st1 prev (\<lambda>l. l\<lparr>next_index := nxt\<rparr>)
     }"

definition pagepool_freelist_add :: "pagepool \<Rightarrow> u8 \<Rightarrow> pagepool option" where
  "pagepool_freelist_add st new = freelist_add_raw st new FREE_INDEX_FREE_FLAG (next_index (freelist st))"

definition pagepool_freelist_del :: "pagepool \<Rightarrow> u8 \<Rightarrow> pagepool option" where
  "pagepool_freelist_del st index =
     do {
       l \<leftarrow> NODE st index;
       st1 \<leftarrow> freelist_del_raw st (prev_index l) (next_index l);
       st2 \<leftarrow> set_NODE st1 index (\<lambda>l. l\<lparr>prev_index := FREE_INDEX_USED_FLAG\<rparr>);
       set_NODE st2 index (\<lambda>l. l\<lparr>next_index := FREE_INDEX_USED_FLAG\<rparr>)
     }"

definition pagepool_is_page_in_freelist :: "list_index \<Rightarrow> bool" where
  "pagepool_is_page_in_freelist l \<longleftrightarrow> prev_index l \<noteq> FREE_INDEX_USED_FLAG"

definition in_freelist :: "pagepool \<Rightarrow> nat \<Rightarrow> bool" where
  "in_freelist st i \<longleftrightarrow> pagepool_is_page_in_freelist (lru (pagepool0 st ! i))"

fun del_pages :: "pagepool \<Rightarrow> nat \<Rightarrow> nat \<Rightarrow> pagepool option" where
  "del_pages st i 0 = Some st"
| "del_pages st i (Suc n) = do { st1 \<leftarrow> pagepool_freelist_del st (of_nat i); del_pages st1 (i + 1) n }"

text \<open>
  The two scans of \<open>rom_pagepool_alloc_pages\<close>: \<open>n\<close> pages from page \<open>i\<close> on, and the pages below \<open>i\<close> with \<open>c\<close> free
  pages counted. The result is the first page of the allocation, if any.
\<close>

fun first_free :: "pagepool \<Rightarrow> nat \<Rightarrow> nat \<Rightarrow> nat option" where
  "first_free st i 0 = None"
| "first_free st i (Suc n) = (if in_freelist st i then Some i else first_free st (i + 1) n)"

fun last_run :: "pagepool \<Rightarrow> nat \<Rightarrow> nat \<Rightarrow> nat \<Rightarrow> nat option" where
  "last_run st page_num 0 c = None"
| "last_run st page_num (Suc i) c =
     (if in_freelist st i then if c + 1 = page_num then Some i else last_run st page_num i (c + 1)
      else last_run st page_num i 0)"

definition rom_pagepool_alloc_pages :: "nat \<Rightarrow> pagepool \<Rightarrow> (pagepool \<times> u32 option) option" where
  "rom_pagepool_alloc_pages page_num st =
     (if page_num = 0 \<or> unat (freepage_num st) < page_num then Some (st, None)
      else if page_num = 1
      then (case first_free st 0 (pagepool_size st) of
              None \<Rightarrow> Some (st, None)
            | Some i \<Rightarrow>
                let recache = ((of_nat i :: u8) \<noteq> next_index (freelist st))
                in do {
                  st1 \<leftarrow> pagepool_freelist_del st (of_nat i);
                  let st2 = st1\<lparr>freepage_num := freepage_num st1 - of_nat page_num\<rparr>
                  in if recache \<and> ibank_no (pagepool0 st2 ! i) \<noteq> - 1 then None
                     else Some (st2, Some (pagepool_convert_index_to_addr (of_nat i)))
                })
      else (case last_run st page_num (pagepool_size st) 0 of
              None \<Rightarrow> Some (st, None)
            | Some i \<Rightarrow> do {
                st1 \<leftarrow> del_pages st i page_num;
                Some (st1\<lparr>freepage_num := freepage_num st1 - of_nat page_num\<rparr>, Some (pagepool_convert_index_to_addr (of_nat i)))
              }))"

text \<open>Whether all of \<open>n\<close> pages from page \<open>i\<close> are in use.\<close>

fun all_used :: "pagepool \<Rightarrow> nat \<Rightarrow> nat \<Rightarrow> bool option" where
  "all_used st i 0 = Some True"
| "all_used st i (Suc n) =
     do { l \<leftarrow> NODE st (of_nat i); if pagepool_is_page_in_freelist l then Some False else all_used st (i + 1) n }"

definition set_ibank :: "pagepool \<Rightarrow> nat \<Rightarrow> pagepool" where
  "set_ibank st i = st\<lparr>pagepool0 := (pagepool0 st)[i := (pagepool0 st ! i)\<lparr>ibank_no := - 1\<rparr>]\<rparr>"

fun add_pages :: "pagepool \<Rightarrow> nat \<Rightarrow> nat \<Rightarrow> pagepool option" where
  "add_pages st i 0 = Some st"
| "add_pages st i (Suc n) = do { st1 \<leftarrow> pagepool_freelist_add st (of_nat i); add_pages (set_ibank st1 i) (i + 1) n }"

definition rom_pagepool_free_pages :: "u32 \<Rightarrow> nat \<Rightarrow> pagepool \<Rightarrow> (pagepool \<times> int) option" where
  "rom_pagepool_free_pages addr page_num st =
     (let i = unat (pagepool_convert_addr_to_pageindex addr)
      in if pagepool_size st \<le> i then Some (st, - EFAULT)
         else do {
           u \<leftarrow> all_used st i page_num;
           if \<not> u then Some (st, - EINVAL)
           else do {
             st1 \<leftarrow> add_pages st i page_num;
             Some (st1\<lparr>freepage_num := freepage_num st1 + of_nat page_num\<rparr>, 0)
           }
         })"

definition pmalloc :: "u32 \<Rightarrow> pagepool \<Rightarrow> (pagepool \<times> u32 option) option" where
  "pmalloc sz st = rom_pagepool_alloc_pages (unat (SIZE2PAGE sz)) st"

definition pfree :: "u32 \<Rightarrow> nat \<Rightarrow> pagepool \<Rightarrow> (pagepool \<times> int) option" where
  "pfree addr page_num st = rom_pagepool_free_pages addr page_num st"

text \<open>The static data at start up, with \<open>num\<close> pages, and the loop of \<open>pagepool_init\<close>.\<close>

definition pagepool_static :: "nat \<Rightarrow> pagepool" where
  "pagepool_static num =
     \<lparr>freelist = \<lparr>next_index = FREE_INDEX_FREE_FLAG, prev_index = FREE_INDEX_FREE_FLAG\<rparr>,
      pagepool0 = replicate num \<lparr>lru = \<lparr>next_index = 0, prev_index = 0\<rparr>, ibank_no = 0\<rparr>, freepage_num = 0\<rparr>"

fun init_pages :: "pagepool \<Rightarrow> nat \<Rightarrow> nat \<Rightarrow> pagepool option" where
  "init_pages st i 0 = Some st"
| "init_pages st i (Suc n) = do { st1 \<leftarrow> pagepool_freelist_add (set_ibank st i) (of_nat i); init_pages st1 (i + 1) n }"

definition pagepool_init :: "pagepool \<Rightarrow> pagepool option" where
  "pagepool_init st = init_pages (st\<lparr>freepage_num := of_nat (pagepool_size st)\<rparr>) 0 (pagepool_size st)"

section \<open>The ring of free pages\<close>

text \<open>A chain of nodes by the two link functions.\<close>

fun linked :: "(u8 \<Rightarrow> u8) \<Rightarrow> (u8 \<Rightarrow> u8) \<Rightarrow> u8 list \<Rightarrow> bool" where
  "linked nx pv (a # b # xs) \<longleftrightarrow> nx a = b \<and> pv b = a \<and> linked nx pv (b # xs)"
| "linked nx pv _ = True"

lemma linked_cong: "(\<And>a. a \<in> set (butlast xs) \<Longrightarrow> nx a = nx' a) \<Longrightarrow> (\<And>b. b \<in> set (tl xs) \<Longrightarrow> pv b = pv' b) \<Longrightarrow>
    linked nx pv xs = linked nx' pv' xs"
  by (induction nx pv xs rule: linked.induct) auto

lemma linked_join: "L \<noteq> [] \<Longrightarrow> R \<noteq> [] \<Longrightarrow> linked nx pv (L @ R) \<longleftrightarrow> linked nx pv L \<and> linked nx pv R \<and> nx (last L) = hd R \<and> pv (hd R) = last L"
by (induction nx pv L rule: linked.induct) (auto simp: neq_Nil_conv)

definition ring :: "(u8 \<Rightarrow> u8) \<Rightarrow> (u8 \<Rightarrow> u8) \<Rightarrow> u8 list \<Rightarrow> bool" where
  "ring nx pv xs \<longleftrightarrow> distinct (FREE_INDEX_FREE_FLAG # xs) \<and> linked nx pv (FREE_INDEX_FREE_FLAG # xs @ [FREE_INDEX_FREE_FLAG])"

lemma ring_add:
  assumes "ring nx pv xs" "x \<notin> set xs" "x \<noteq> FREE_INDEX_FREE_FLAG"
  shows "ring (nx(x := nx FREE_INDEX_FREE_FLAG, FREE_INDEX_FREE_FLAG := x)) (pv(nx FREE_INDEX_FREE_FLAG := x, x := FREE_INDEX_FREE_FLAG)) (x # xs)"
proof -
  let ?H = "FREE_INDEX_FREE_FLAG"
  obtain n zs where r: "xs @ [?H] = n # zs" by (cases "xs @ [?H]") auto
  have l: "nx ?H = n" "pv n = ?H" "linked nx pv (n # zs)" "distinct (?H # xs)" using assms(1) r by (auto simp: ring_def)
  have z: "butlast (n # zs) = xs" "set zs \<subseteq> insert ?H (set xs)" "n \<notin> set zs" "n \<noteq> x" "x \<notin> set zs"
  proof -
    show "butlast (n # zs) = xs" by (simp only: r [symmetric] butlast_snoc)
    have "insert n (set zs) = insert ?H (set xs)" using arg_cong [OF r, of set] by simp
    then show "set zs \<subseteq> insert ?H (set xs)" "n \<noteq> x" "x \<notin> set zs" using assms(2,3) by auto
    have "distinct (xs @ [?H])" using l(4) by simp
    then show "n \<notin> set zs" unfolding r by simp
  qed
  have "linked (nx(x := n, ?H := x)) (pv(n := x, x := ?H)) (n # zs) = linked nx pv (n # zs)"
    using l(4) z assms(2) by (intro linked_cong) auto
  then show ?thesis using l r z assms(2,3) by (auto simp: ring_def)
qed

lemma ring_del:
  assumes "ring nx pv (ys @ x # zs)"
  shows "ring (nx(pv x := nx x)) (pv(nx x := pv x)) (ys @ zs)"
proof -
  let ?H = "FREE_INDEX_FREE_FLAG"
  let ?L = "?H # ys" and ?R = "zs @ [?H]"
  have d: "distinct (?H # ys @ x # zs)" and lk: "linked nx pv (?L @ x # ?R)" using assms by (simp_all add: ring_def)
  have l: "linked nx pv ?L" "nx x = hd ?R" "pv x = last ?L" "linked nx pv ?R"
    using lk linked_join [of ?L "x # ?R" nx pv] linked_join [of "[x]" ?R nx pv] by simp_all
  have "linked (nx(pv x := nx x)) (pv(nx x := pv x)) ?L = linked nx pv ?L"
  proof (rule linked_cong)
    have "distinct (butlast ?L @ [last ?L])" using d by (subst append_butlast_last_id) simp_all
    then have "last ?L \<notin> set (butlast ?L)" by simp
    then show "(nx(pv x := nx x)) a = nx a" if "a \<in> set (butlast ?L)" for a using that l(3) by auto
    show "(pv(nx x := pv x)) b = pv b" if "b \<in> set (tl ?L)" for b using that l(2) d by (cases zs) auto
  qed
  moreover have "linked (nx(pv x := nx x)) (pv(nx x := pv x)) ?R = linked nx pv ?R"
  proof (rule linked_cong)
    have "last ?L \<notin> set zs" using d by (cases ys rule: rev_cases) auto
    then show "(nx(pv x := nx x)) a = nx a" if "a \<in> set (butlast ?R)" for a using that l(3) by auto
    show "(pv(nx x := pv x)) b = pv b" if "b \<in> set (tl ?R)" for b using that l(2) d by (cases zs) auto
  qed
  ultimately have "linked (nx(pv x := nx x)) (pv(nx x := pv x)) (?L @ ?R)" using l linked_join [of ?L ?R] by simp
  then show ?thesis using d by (simp add: ring_def)
qed

lemma ring_ends:
  assumes "ring nx pv xs" "x \<in> insert FREE_INDEX_FREE_FLAG (set xs)"
  shows "nx x \<in> insert FREE_INDEX_FREE_FLAG (set xs)" "pv x \<in> insert FREE_INDEX_FREE_FLAG (set xs)"
proof -
  let ?H = "FREE_INDEX_FREE_FLAG"
  have lk: "linked nx pv (?H # xs @ [?H])" using assms(1) by (simp add: ring_def)
  obtain ys zs where l: "?H # xs = ys @ x # zs" using assms(2) by (metis list.set(2) split_list)
  have "set (?H # xs) = set (ys @ x # zs)" by (simp only: l)
  then have s: "insert ?H (set xs) = insert x (set ys \<union> set zs)" by simp
  have e: "?H # xs @ [?H] = ys @ x # zs @ [?H]" using arg_cong [OF l, of "\<lambda>l. l @ [?H]"] by simp
  have "nx x = hd (zs @ [?H])" using lk linked_join [of "ys @ [x]" "zs @ [?H]" nx pv] unfolding e by simp
  then show "nx x \<in> insert ?H (set xs)" using s by (cases zs) auto
  have "x \<in> set (xs @ [?H])" using assms(2) by auto
  then obtain ys' zs' where l: "xs @ [?H] = ys' @ x # zs'" by (metis split_list)
  have "set (xs @ [?H]) = set (ys' @ x # zs')" by (simp only: l)
  then have s: "set ys' \<subseteq> insert ?H (set xs)" by auto
  have e: "?H # xs @ [?H] = (?H # ys') @ x # zs'" using l by simp
  have "pv x = last (?H # ys')" using lk linked_join [of "?H # ys'" "x # zs'" nx pv] unfolding e by simp
  then show "pv x \<in> insert ?H (set xs)" using s by (cases ys' rule: rev_cases) auto
qed

section \<open>Links as functions\<close>

definition nodes :: "pagepool \<Rightarrow> u8 \<Rightarrow> list_index" where
  "nodes st i = (case NODE st i of Some l \<Rightarrow> l | None \<Rightarrow> \<lparr>next_index = 0, prev_index = 0\<rparr>)"

abbreviation nx :: "pagepool \<Rightarrow> u8 \<Rightarrow> u8" where "nx st i \<equiv> next_index (nodes st i)"
abbreviation pv :: "pagepool \<Rightarrow> u8 \<Rightarrow> u8" where "pv st i \<equiv> prev_index (nodes st i)"

definition ok_index :: "pagepool \<Rightarrow> u8 \<Rightarrow> bool" where
  "ok_index st i \<longleftrightarrow> i = FREE_INDEX_FREE_FLAG \<or> unat i < length (pagepool0 st) \<and> length (pagepool0 st) \<le> 127"

definition frame :: "pagepool \<Rightarrow> pagepool \<Rightarrow> bool" where
  "frame st st' \<longleftrightarrow> map ibank_no (pagepool0 st') = map ibank_no (pagepool0 st) \<and> freepage_num st' = freepage_num st"

lemma frame_refl [simp]: "frame st st"
  by (simp add: frame_def)

lemma frame_trans: "frame st st' \<Longrightarrow> frame st' st'' \<Longrightarrow> frame st st''"
  by (simp add: frame_def)

lemma frame_len: "frame st st' \<Longrightarrow> length (pagepool0 st') = length (pagepool0 st)"
  unfolding frame_def by (metis length_map)

lemma frame_ok: "frame st st' \<Longrightarrow> ok_index st' i = ok_index st i"
  by (simp add: ok_index_def frame_len)

lemma low_index: "unat (i :: u8) < 128 \<Longrightarrow> i AND 0x80 = 0 \<and> i AND 0x7f = i"
proof -
  have "list_all (\<lambda>n. (of_nat n :: u8) AND 0x80 = 0 \<and> (of_nat n :: u8) AND 0x7f = of_nat n) [0..<128]" by code_simp
  moreover assume "unat i < 128"
  moreover have "(of_nat (unat i) :: u8) = i" by simp
  ultimately show ?thesis unfolding list_all_iff by (metis atLeastLessThan_iff le0 set_upt)
qed

lemma high_bit: "(i :: u8) AND 0x80 = 0 \<Longrightarrow> i AND 0x7f = i"
proof -
  have "list_all (\<lambda>n. (of_nat n :: u8) AND 0x80 = 0 \<longrightarrow> (of_nat n :: u8) AND 0x7f = of_nat n) [0..<256]" by code_simp
  moreover have "unat i < 256" using unsigned_less [of i] by simp
  moreover have "(of_nat (unat i) :: u8) = i" by simp
  moreover assume "i AND 0x80 = 0"
  ultimately show ?thesis unfolding list_all_iff by (metis atLeastLessThan_iff le0 set_upt)
qed

lemma low_flag: "unat (i :: u8) < 128 \<Longrightarrow> i \<noteq> FREE_INDEX_FREE_FLAG"
  by auto

lemma set_NODE_ok:
  assumes "ok_index st i"
  obtains st' where "set_NODE st i f = Some st'" "nodes st' = (nodes st)(i := f (nodes st i))" "frame st st'"
proof (cases "i = FREE_INDEX_FREE_FLAG")
  case True
  then show ?thesis by (intro that [of "st\<lparr>freelist := f (freelist st)\<rparr>"]) (auto simp: set_NODE_def nodes_def NODE_def frame_def)
next
  case False
  have i: "unat i < length (pagepool0 st)" "length (pagepool0 st) \<le> 127" using assms False by (simp_all add: ok_index_def)
  have l: "i AND 0x80 = 0" "i AND 0x7f = i" using low_index [of i] i by simp_all
  define st' where "st' = st\<lparr>pagepool0 := (pagepool0 st)[unat i := (pagepool0 st ! unat i)\<lparr>lru := f (lru (pagepool0 st ! unat i))\<rparr>]\<rparr>"
  have "NODE st' j = (if j = i then Some (f (nodes st i)) else NODE st j)" for j
  proof (cases "j = FREE_INDEX_FREE_FLAG \<or> j AND 0x80 \<noteq> 0 \<or> \<not> unat (j AND 0x7f) < length (pagepool0 st)")
    case True
    then show ?thesis using False l i by (auto simp: NODE_def st'_def)
  next
    case n: False
    have jj: "j AND 0x7f = j" if "j AND 0x80 = 0" for j :: u8 using that by (rule high_bit)
    show ?thesis using n jj False l i word_unat_eq_iff [of i j] by (auto simp: NODE_def st'_def nodes_def nth_list_update)
  qed
  then have "nodes st' = (nodes st)(i := f (nodes st i))" by (auto simp: nodes_def fun_eq_iff)
  moreover have "frame st st'" using i list_update_id [of "map ibank_no (pagepool0 st)" "unat i"] by (simp add: frame_def st'_def map_update)
  moreover have "set_NODE st i f = Some st'" using False l i by (simp add: set_NODE_def st'_def)
  ultimately show ?thesis using that by blast
qed


lemma freelist_add_ring:
  assumes "ring (nx st) (pv st) xs" "ok_index st x" "x \<noteq> FREE_INDEX_FREE_FLAG" "x \<notin> set xs" "\<forall>y\<in>set xs. ok_index st y"
  obtains st' where "pagepool_freelist_add st x = Some st'" "ring (nx st') (pv st') (x # xs)" "frame st st'"
    "\<And>y. y \<notin> set (x # xs) \<Longrightarrow> y \<noteq> FREE_INDEX_FREE_FLAG \<Longrightarrow> nodes st' y = nodes st y"
proof -
  let ?H = "FREE_INDEX_FREE_FLAG"
  define n where "n = nx st ?H"
  have nh: "next_index (freelist st) = n" by (simp add: n_def nodes_def NODE_def)
  have n: "n \<in> insert ?H (set xs)" unfolding n_def by (rule ring_ends [OF assms(1)]) simp
  have ok: "ok_index st n" "ok_index st ?H" using n assms(5) by (auto simp: ok_index_def)
  have nx: "n \<noteq> x" using n assms(3,4) by auto
  obtain s1 where s1: "set_NODE st n (\<lambda>l. l\<lparr>prev_index := x\<rparr>) = Some s1" "nodes s1 = (nodes st)(n := (nodes st n)\<lparr>prev_index := x\<rparr>)" "frame st s1"
    by (rule set_NODE_ok [OF ok(1)])
  obtain s2 where s2: "set_NODE s1 x (\<lambda>l. l\<lparr>next_index := n\<rparr>) = Some s2" "nodes s2 = (nodes s1)(x := (nodes s1 x)\<lparr>next_index := n\<rparr>)" "frame s1 s2"
    using set_NODE_ok [of s1 x] assms(2) frame_ok [OF s1(3)] by metis
  have f2: "frame st s2" by (rule frame_trans [OF s1(3) s2(3)])
  obtain s3 where s3: "set_NODE s2 x (\<lambda>l. l\<lparr>prev_index := ?H\<rparr>) = Some s3" "nodes s3 = (nodes s2)(x := (nodes s2 x)\<lparr>prev_index := ?H\<rparr>)" "frame s2 s3"
    using set_NODE_ok [of s2 x] assms(2) frame_ok [OF f2] by metis
  have f3: "frame st s3" by (rule frame_trans [OF f2 s3(3)])
  obtain s4 where s4: "set_NODE s3 ?H (\<lambda>l. l\<lparr>next_index := x\<rparr>) = Some s4" "nodes s4 = (nodes s3)(?H := (nodes s3 ?H)\<lparr>next_index := x\<rparr>)" "frame s3 s4"
    using set_NODE_ok [of s3 ?H] ok(2) frame_ok [OF f3] by metis
  note N = s4(2) [unfolded s3(2) s2(2) s1(2)]
  have "nx s4 = (nx st)(x := nx st ?H, ?H := x)" "pv s4 = (pv st)(nx st ?H := x, x := ?H)"
    unfolding N n_def [symmetric] using assms(3) nx by (auto simp: fun_eq_iff)
  moreover have "nodes s4 y = nodes st y" if "y \<notin> set (x # xs)" "y \<noteq> ?H" for y
    unfolding N using that n by auto
  ultimately show ?thesis
    using that [of s4] s1(1) s2(1) s3(1) s4(1) frame_trans [OF f3 s4(3)] ring_add [OF assms(1,4,3)]
    by (simp add: pagepool_freelist_add_def freelist_add_raw_def nh)
qed

lemma freelist_del_ring:
  assumes "ring (nx st) (pv st) (ys @ x # zs)" "\<forall>y\<in>set (ys @ x # zs). ok_index st y"
  obtains st' where "pagepool_freelist_del st x = Some st'" "ring (nx st') (pv st') (ys @ zs)" "frame st st'"
    "pv st' x = FREE_INDEX_USED_FLAG" "\<And>y. y \<notin> set (ys @ x # zs) \<Longrightarrow> y \<noteq> FREE_INDEX_FREE_FLAG \<Longrightarrow> nodes st' y = nodes st y"
proof -
  let ?H = "FREE_INDEX_FREE_FLAG"
  define p n where "p = pv st x" and "n = nx st x"
  have pn: "p \<in> insert ?H (set (ys @ x # zs))" "n \<in> insert ?H (set (ys @ x # zs))"
    unfolding p_def n_def using ring_ends [OF assms(1), of x] by simp_all
  have ok: "ok_index st p" "ok_index st n" "ok_index st x" using pn assms(2) by (auto simp: ok_index_def)
  have x: "x \<notin> set ys" "x \<notin> set zs" "x \<noteq> ?H" using assms(1) by (auto simp: ring_def)
  have node: "NODE st x = Some (nodes st x)" using ok(3) x(3) low_index [of x] by (auto simp: nodes_def NODE_def ok_index_def)
  obtain s1 where s1: "set_NODE st n (\<lambda>l. l\<lparr>prev_index := p\<rparr>) = Some s1" "nodes s1 = (nodes st)(n := (nodes st n)\<lparr>prev_index := p\<rparr>)" "frame st s1"
    by (rule set_NODE_ok [OF ok(2)])
  obtain s2 where s2: "set_NODE s1 p (\<lambda>l. l\<lparr>next_index := n\<rparr>) = Some s2" "nodes s2 = (nodes s1)(p := (nodes s1 p)\<lparr>next_index := n\<rparr>)" "frame s1 s2"
    using set_NODE_ok [of s1 p] ok(1) frame_ok [OF s1(3)] by metis
  have f2: "frame st s2" by (rule frame_trans [OF s1(3) s2(3)])
  obtain s3 where s3: "set_NODE s2 x (\<lambda>l. l\<lparr>prev_index := FREE_INDEX_USED_FLAG\<rparr>) = Some s3"
      "nodes s3 = (nodes s2)(x := (nodes s2 x)\<lparr>prev_index := FREE_INDEX_USED_FLAG\<rparr>)" "frame s2 s3"
    using set_NODE_ok [of s2 x] ok(3) frame_ok [OF f2] by metis
  have f3: "frame st s3" by (rule frame_trans [OF f2 s3(3)])
  obtain s4 where s4: "set_NODE s3 x (\<lambda>l. l\<lparr>next_index := FREE_INDEX_USED_FLAG\<rparr>) = Some s4"
      "nodes s4 = (nodes s3)(x := (nodes s3 x)\<lparr>next_index := FREE_INDEX_USED_FLAG\<rparr>)" "frame s3 s4"
    using set_NODE_ok [of s3 x] ok(3) frame_ok [OF f3] by metis
  note N = s4(2) [unfolded s3(2) s2(2) s1(2)]
  have "ring ((nx st)(p := n)) ((pv st)(n := p)) (ys @ zs)" using ring_del [OF assms(1)] by (simp add: p_def n_def)
  moreover have "nx s4 y = ((nx st)(p := n)) y" "pv s4 y = ((pv st)(n := p)) y" if "y \<noteq> x" for y
    unfolding N using that by auto
  moreover have "a \<noteq> x" if "a \<in> set (?H # (ys @ zs) @ [?H])" for a using that x by auto
  ultimately have "ring (nx s4) (pv s4) (ys @ zs)"
    using linked_cong [of "?H # (ys @ zs) @ [?H]" "nx s4" "(nx st)(p := n)" "pv s4" "(pv st)(n := p)"]
    unfolding ring_def by (metis in_set_butlastD list.set_sel(2) list.discI)
  moreover have "nodes s4 y = nodes st y" if "y \<notin> set (ys @ x # zs)" "y \<noteq> ?H" for y
    unfolding N using that pn by auto
  moreover have "pv s4 x = FREE_INDEX_USED_FLAG" unfolding N by simp
  ultimately show ?thesis
    using that [of s4] s1(1) s2(1) s3(1) s4(1) frame_trans [OF f3 s4(3)] node
    by (simp add: pagepool_freelist_del_def freelist_del_raw_def p_def n_def)
qed


section \<open>The state of the pool\<close>

text \<open>
  \<open>F\<close> is the set of free pages: the ring holds exactly these, the other pages carry the mark of a used page, and the
  counter is their number. The pool has at most 127 pages, so that no index is a flag.
\<close>

definition pool_inv :: "pagepool \<Rightarrow> nat \<Rightarrow> nat set \<Rightarrow> bool" where
  "pool_inv st N F \<longleftrightarrow> length (pagepool0 st) = N \<and> N \<le> 127 \<and> F \<subseteq> {..<N} \<and>
     (\<exists>xs. ring (nx st) (pv st) xs \<and> set xs = of_nat ` F) \<and>
     (\<forall>i<N. i \<notin> F \<longrightarrow> pv st (of_nat i) = FREE_INDEX_USED_FLAG) \<and>
     unat (freepage_num st) = card F \<and> (\<forall>i<N. ibank_no (pagepool0 st ! i) = - 1)"

lemma unat_index: "i < 256 \<Longrightarrow> unat (of_nat i :: u8) = i"
  by (simp add: unat_of_nat)

lemma index_eq: "i < 256 \<Longrightarrow> j < 256 \<Longrightarrow> (of_nat i :: u8) = of_nat j \<longleftrightarrow> i = j"
  using unat_index [of i] unat_index [of j] by metis

lemma index_flag: "i < 127 \<Longrightarrow> (of_nat i :: u8) \<noteq> FREE_INDEX_FREE_FLAG \<and> (of_nat i :: u8) \<noteq> FREE_INDEX_USED_FLAG"
  using unat_index [of i] by auto

lemma ok_page: "length (pagepool0 st) \<le> 127 \<Longrightarrow> i < length (pagepool0 st) \<Longrightarrow> ok_index st (of_nat i)"
  using unat_index [of i] by (simp add: ok_index_def)

lemma node_page:
  assumes "length (pagepool0 st) \<le> 127" "i < length (pagepool0 st)"
  shows "NODE st (of_nat i) = Some (nodes st (of_nat i))" "nodes st (of_nat i) = lru (pagepool0 st ! i)"
proof -
  have u: "unat (of_nat i :: u8) = i" using unat_index [of i] assms by simp
  then have "(of_nat i :: u8) AND 0x80 = 0 \<and> (of_nat i :: u8) AND 0x7f = of_nat i" using assms by (intro low_index) simp
  then show "NODE st (of_nat i) = Some (nodes st (of_nat i))" "nodes st (of_nat i) = lru (pagepool0 st ! i)"
    using u assms index_flag [of i] by (auto simp: NODE_def nodes_def)
qed

lemma in_freelist_iff:
  assumes "pool_inv st N F" "i < N"
  shows "in_freelist st i \<longleftrightarrow> i \<in> F"
proof -
  obtain xs where xs: "ring (nx st) (pv st) xs" "set xs = of_nat ` F" and inv: "length (pagepool0 st) = N" "N \<le> 127" "F \<subseteq> {..<N}"
      "\<forall>i<N. i \<notin> F \<longrightarrow> pv st (of_nat i) = FREE_INDEX_USED_FLAG"
    using assms(1) by (auto simp: pool_inv_def)
  have "pv st (of_nat i) \<noteq> FREE_INDEX_USED_FLAG" if "i \<in> F"
  proof -
    have "pv st (of_nat i) \<in> insert FREE_INDEX_FREE_FLAG (set xs)" using that xs(2) by (intro ring_ends(2) [OF xs(1)]) auto
    then show ?thesis using xs(2) inv index_flag by (auto simp: subset_iff)
  qed
  then show ?thesis
    using inv assms(2) node_page(2) [of st i] by (auto simp: in_freelist_def pagepool_is_page_in_freelist_def)
qed

lemma frame_ibank: "frame st st' \<Longrightarrow> i < length (pagepool0 st) \<Longrightarrow> ibank_no (pagepool0 st' ! i) = ibank_no (pagepool0 st ! i)"
  unfolding frame_def by (metis length_map nth_map)

text \<open>The invariant without the counter, which is changed last.\<close>

definition pool_part :: "pagepool \<Rightarrow> nat \<Rightarrow> nat set \<Rightarrow> bool" where
  "pool_part st N F \<longleftrightarrow> length (pagepool0 st) = N \<and> N \<le> 127 \<and> F \<subseteq> {..<N} \<and>
     (\<exists>xs. ring (nx st) (pv st) xs \<and> set xs = of_nat ` F) \<and>
     (\<forall>i<N. i \<notin> F \<longrightarrow> pv st (of_nat i) = FREE_INDEX_USED_FLAG) \<and> (\<forall>i<N. ibank_no (pagepool0 st ! i) = - 1)"

lemma pool_inv_part: "pool_inv st N F \<longleftrightarrow> pool_part st N F \<and> unat (freepage_num st) = card F"
  by (auto simp: pool_inv_def pool_part_def)

lemma NODE_num [simp]: "NODE (st\<lparr>freepage_num := c\<rparr>) i = NODE st i"
  by (simp add: NODE_def)

lemma nodes_num [simp]: "nodes (st\<lparr>freepage_num := c\<rparr>) = nodes st"
  by (rule ext) (simp add: nodes_def)

lemma pool_part_num [simp]: "pool_part (st\<lparr>freepage_num := c\<rparr>) N F = pool_part st N F"
  by (simp add: pool_part_def)

lemma del_page:
  assumes "pool_part st N F" "i \<in> F"
  obtains st' where "pagepool_freelist_del st (of_nat i) = Some st'" "pool_part st' N (F - {i})" "freepage_num st' = freepage_num st"
proof -
  obtain xs where xs: "ring (nx st) (pv st) xs" "set xs = of_nat ` F" and inv: "length (pagepool0 st) = N" "N \<le> 127" "F \<subseteq> {..<N}"
      "\<forall>i<N. i \<notin> F \<longrightarrow> pv st (of_nat i) = FREE_INDEX_USED_FLAG" "\<forall>i<N. ibank_no (pagepool0 st ! i) = - 1"
    using assms(1) by (auto simp: pool_part_def)
  obtain ys zs where s: "xs = ys @ of_nat i # zs" using xs(2) assms(2) by (metis imageI split_list)
  have "\<forall>y\<in>set xs. ok_index st y" using xs(2) inv ok_page [of st] by (auto simp: subset_iff)
  then obtain st' where st': "pagepool_freelist_del st (of_nat i) = Some st'" "ring (nx st') (pv st') (ys @ zs)" "frame st st'"
      "pv st' (of_nat i) = FREE_INDEX_USED_FLAG" "\<And>y. y \<notin> set xs \<Longrightarrow> y \<noteq> FREE_INDEX_FREE_FLAG \<Longrightarrow> nodes st' y = nodes st y"
    using freelist_del_ring [of st ys "of_nat i" zs] xs(1) unfolding s by metis
  have inj: "of_nat j = (of_nat k :: u8) \<longleftrightarrow> j = k" if "j < N" "k < N" for j k using that inv(2) by (intro index_eq) simp_all
  have "set (ys @ zs) = set xs - {of_nat i}" using xs(1) s by (auto simp: ring_def)
  also have "\<dots> = of_nat ` (F - {i})" using xs(2) inj inv(3) assms(2) by (fastforce simp: subset_iff)
  finally have "set (ys @ zs) = of_nat ` (F - {i})" .
  moreover have "pv st' (of_nat j) = FREE_INDEX_USED_FLAG" if "j < N" "j \<notin> F - {i}" for j
  proof (cases "j = i")
    case False
    then have "of_nat j \<notin> set xs" using that xs(2) inj inv(3) by (auto simp: subset_iff)
    then show ?thesis using st'(5) [of "of_nat j"] index_flag [of j] inv that False by auto
  qed (use st' in simp)
  moreover have "\<forall>i<N. ibank_no (pagepool0 st' ! i) = - 1" using frame_ibank [OF st'(3)] inv by simp
  ultimately have "pool_part st' N (F - {i})"
    using st'(2) frame_len [OF st'(3)] inv unfolding pool_part_def by blast
  then show ?thesis using that st'(1,3) by (simp add: frame_def)
qed

lemma add_page:
  assumes "pool_part st N F" "i < N" "i \<notin> F"
  obtains st' where "pagepool_freelist_add st (of_nat i) = Some st'" "pool_part st' N (insert i F)" "freepage_num st' = freepage_num st"
proof -
  obtain xs where xs: "ring (nx st) (pv st) xs" "set xs = of_nat ` F" and inv: "length (pagepool0 st) = N" "N \<le> 127" "F \<subseteq> {..<N}"
      "\<forall>i<N. i \<notin> F \<longrightarrow> pv st (of_nat i) = FREE_INDEX_USED_FLAG" "\<forall>i<N. ibank_no (pagepool0 st ! i) = - 1"
    using assms(1) by (auto simp: pool_part_def)
  have inj: "of_nat j = (of_nat k :: u8) \<longleftrightarrow> j = k" if "j < N" "k < N" for j k using that inv(2) by (intro index_eq) simp_all
  have ni: "of_nat i \<notin> set xs" using xs(2) inj inv(3) assms(2,3) by (auto simp: subset_iff)
  have "\<forall>y\<in>set xs. ok_index st y" using xs(2) inv ok_page [of st] by (auto simp: subset_iff)
  then obtain st' where st': "pagepool_freelist_add st (of_nat i) = Some st'" "ring (nx st') (pv st') (of_nat i # xs)" "frame st st'"
      "\<And>y. y \<notin> set (of_nat i # xs) \<Longrightarrow> y \<noteq> FREE_INDEX_FREE_FLAG \<Longrightarrow> nodes st' y = nodes st y"
    using freelist_add_ring [OF xs(1) ok_page [of st i] _ ni] inv assms(2) index_flag [of i] by auto
  have "pv st' (of_nat j) = FREE_INDEX_USED_FLAG" if "j < N" "j \<notin> insert i F" for j
  proof -
    have "of_nat j \<notin> set (of_nat i # xs)" using that xs(2) inj inv(3) assms(2) by (auto simp: subset_iff)
    then show ?thesis using st'(4) [of "of_nat j"] index_flag [of j] inv that by auto
  qed
  moreover have "\<forall>i<N. ibank_no (pagepool0 st' ! i) = - 1" using frame_ibank [OF st'(3)] inv by simp
  moreover have "set (of_nat i # xs) = of_nat ` insert i F" using xs(2) by simp
  ultimately have "pool_part st' N (insert i F)"
    using st'(2) frame_len [OF st'(3)] inv assms(2) unfolding pool_part_def by blast
  then show ?thesis using that st'(1,3) by (simp add: frame_def)
qed

section \<open>The scans\<close>

lemma first_free_spec:
  "pool_inv st N F \<Longrightarrow> i + n = N \<Longrightarrow> case first_free st i n of None \<Rightarrow> F \<inter> {i..<N} = {} | Some k \<Rightarrow> k \<in> F"
proof (induction st i n rule: first_free.induct)
  case (2 st i n)
  have f: "in_freelist st i \<longleftrightarrow> i \<in> F" using in_freelist_iff [OF "2.prems"(1), of i] "2.prems"(2) by simp
  show ?case
  proof (cases "i \<in> F")
    case False
    moreover have "{i..<N} = insert i {i + 1..<N}" using "2.prems"(2) by auto
    ultimately show ?thesis using "2.IH" f "2.prems" by (auto split: option.splits)
  qed (use f in simp)
qed simp

lemma last_run_spec:
  "pool_inv st N F \<Longrightarrow> i \<le> N \<Longrightarrow> {i..<i + c} \<subseteq> F \<Longrightarrow> c < n \<Longrightarrow>
   case last_run st n i c of None \<Rightarrow> (\<forall>j. j + n \<le> i + c \<longrightarrow> \<not> {j..<j + n} \<subseteq> F) | Some k \<Rightarrow> {k..<k + n} \<subseteq> F"
proof (induction st n i c rule: last_run.induct)
  case (2 st n i c)
  have f: "in_freelist st i \<longleftrightarrow> i \<in> F" using in_freelist_iff [OF "2.prems"(1), of i] "2.prems"(2) by simp
  show ?case
  proof (cases "i \<in> F")
    case True
    have s: "{i..<i + (c + 1)} = insert i {Suc i..<Suc i + c}" by auto
    have "{i..<i + (c + 1)} \<subseteq> F" unfolding s using True "2.prems"(3) by simp
    then show ?thesis using "2.IH"(1) f True "2.prems" by (cases "c + 1 = n") (auto split: option.splits)
  next
    case False
    have "\<not> {j..<j + n} \<subseteq> F" if "j + n \<le> Suc i + c" "\<not> j + n \<le> i" for j
    proof -
      have "i \<in> {j..<j + n}" using that "2.prems"(4) by auto
      then show ?thesis using False by blast
    qed
    then show ?thesis using "2.IH"(2) f False "2.prems" by (fastforce split: option.splits)
  qed
qed auto

lemma del_pages_part:
  "pool_part st N F \<Longrightarrow> {i..<i + n} \<subseteq> F \<Longrightarrow>
   \<exists>st'. del_pages st i n = Some st' \<and> pool_part st' N (F - {i..<i + n}) \<and> freepage_num st' = freepage_num st"
proof (induction st i n arbitrary: F rule: del_pages.induct)
  case (2 st i n)
  have s: "{i..<i + Suc n} = insert i {i + 1..<i + 1 + n}" by auto
  obtain st1 where st1: "pagepool_freelist_del st (of_nat i) = Some st1" "pool_part st1 N (F - {i})" "freepage_num st1 = freepage_num st"
    using del_page [OF "2.prems"(1), of i] "2.prems"(2) unfolding s by auto
  have "{i + 1..<i + 1 + n} \<subseteq> F - {i}" using "2.prems"(2) s by auto
  moreover have "F - {i} - {i + 1..<i + 1 + n} = F - {i..<i + Suc n}" unfolding s by auto
  ultimately show ?case using "2.IH" [OF st1(1,2)] st1 by auto
qed simp

section \<open>Allocating and freeing pages\<close>

lemma sub_num: "n \<le> unat c \<Longrightarrow> unat (c - of_nat n) = unat (c :: u8) - n"
proof -
  assume n: "n \<le> unat c"
  have "unat c < 256" using unsigned_less [of c] by simp
  then have "unat (of_nat n :: u8) = n" using n by (intro unat_index) simp
  then show ?thesis using n by (subst unat_sub) (simp_all add: word_le_nat_alt)
qed

lemma alloc_pages_inv:
  assumes "pool_inv st N F"
  shows "\<exists>st' r. rom_pagepool_alloc_pages n st = Some (st', r) \<and>
    (case r of None \<Rightarrow> st' = st \<and> (0 < n \<longrightarrow> (\<forall>i. \<not> {i..<i + n} \<subseteq> F))
     | Some addr \<Rightarrow> 0 < n \<and> (\<exists>i. addr = of_nat (i * 2048) \<and> {i..<i + n} \<subseteq> F \<and> pool_inv st' N (F - {i..<i + n})))"
proof -
  have part: "pool_part st N F" and num: "unat (freepage_num st) = card F" using assms by (simp_all add: pool_inv_part)
  have F: "F \<subseteq> {..<N}" "N \<le> 127" "pagepool_size st = N" using part by (auto simp: pool_part_def pagepool_size_def)
  have fin: "finite F" using F(1) finite_subset by blast
  have few: "card F < n \<Longrightarrow> \<not> {i..<i + n} \<subseteq> F" for i using card_mono [OF fin, of "{i..<i + n}"] by auto
  have addr: "pagepool_convert_index_to_addr (of_nat i) = of_nat (i * 2048)" if "i < N" for i
    using that F(2) unat_index [of i] by (simp add: pagepool_convert_index_to_addr_def)
  have result: "pool_inv (st1\<lparr>freepage_num := freepage_num st1 - of_nat n\<rparr>) N (F - {i..<i + n})"
    if "pool_part st1 N (F - {i..<i + n})" "freepage_num st1 = freepage_num st" "{i..<i + n} \<subseteq> F" for i st1
  proof -
    have "card (F - {i..<i + n}) = card F - n" using that(3) by (subst card_Diff_subset) simp_all
    moreover have "n \<le> card F" using card_mono [OF fin that(3)] by simp
    ultimately show ?thesis using that(1,2) num sub_num [of n "freepage_num st"] by (simp add: pool_inv_part)
  qed
  consider "n = 0 \<or> card F < n" | "n = 1" "n \<le> card F" | "1 < n" "n \<le> card F" by linarith
  then show ?thesis
  proof cases
    case 1
    then show ?thesis using num few by (auto simp: rom_pagepool_alloc_pages_def)
  next
    case 2
    note ff = first_free_spec [OF assms, of 0 N]
    obtain k where k: "first_free st 0 N = Some k" "k \<in> F"
    proof (cases "first_free st 0 N")
      case None
      then have "F = {}" using ff F(1) by (simp add: lessThan_atLeast0 inf.absorb1)
      then show ?thesis using 2 by simp
    qed (use ff that in auto)
    obtain st1 where st1: "pagepool_freelist_del st (of_nat k) = Some st1" "pool_part st1 N (F - {k})" "freepage_num st1 = freepage_num st"
      by (rule del_page [OF part k(2)])
    have kN: "k < N" using k(2) F(1) by auto
    have ib: "ibank_no (pagepool0 st1 ! k) = - 1" using st1(2) kN by (simp add: pool_part_def)
    have one: "{k..<k + n} = {k}" using 2 by auto
    have "pool_inv (st1\<lparr>freepage_num := freepage_num st1 - of_nat n\<rparr>) N (F - {k..<k + n})"
      using st1 k(2) unfolding one by (intro result [of _ k, unfolded one]) auto
    moreover have "rom_pagepool_alloc_pages n st = Some (st1\<lparr>freepage_num := freepage_num st1 - of_nat n\<rparr>, Some (of_nat (k * 2048)))"
      using 2 num k(1) st1(1) F(3) ib addr [OF kN] by (simp add: rom_pagepool_alloc_pages_def Let_def)
    ultimately show ?thesis using 2 k(2) one by auto
  next
    case 3
    note lr = last_run_spec [OF assms, of N 0 n]
    show ?thesis
    proof (cases "last_run st n N 0")
      case None
      have "\<not> {i..<i + n} \<subseteq> F" for i
      proof (cases "i + n \<le> N")
        case False
        then have "N \<in> {i..<i + n} \<or> N < i" by auto
        then show ?thesis using F(1) 3 by fastforce
      qed (use None lr 3 in auto)
      then show ?thesis using None 3 num F(3) by (auto simp: rom_pagepool_alloc_pages_def)
    next
      case (Some k)
      then have run: "{k..<k + n} \<subseteq> F" using lr 3 by simp
      moreover have "k \<in> {k..<k + n}" using 3 by simp
      ultimately have kN: "k < N" using F(1) by blast
      obtain st1 where st1: "del_pages st k n = Some st1" "pool_part st1 N (F - {k..<k + n})" "freepage_num st1 = freepage_num st"
        using del_pages_part [OF part run] by blast
      show ?thesis using Some 3 num F(3) st1 run addr [OF kN] result [OF st1(2,3) run]
        by (auto simp: rom_pagepool_alloc_pages_def)
    qed
  qed
qed


lemma all_used_spec:
  "pool_inv st N F \<Longrightarrow> i + n \<le> N \<Longrightarrow> all_used st i n = Some ({i..<i + n} \<inter> F = {})"
proof (induction st i n rule: all_used.induct)
  case (2 st i n)
  have len: "length (pagepool0 st) = N" "N \<le> 127" "i < N" using "2.prems" by (auto simp: pool_inv_def)
  have f: "in_freelist st i \<longleftrightarrow> i \<in> F" using in_freelist_iff [OF "2.prems"(1) len(3)] .
  note nd = node_page [of st i, unfolded len(1), OF len(2,3)]
  have s: "{i..<i + Suc n} = insert i {i + 1..<i + 1 + n}" by auto
  show ?case unfolding s using "2.IH" "2.prems" f nd by (auto simp: in_freelist_def)
qed simp

lemma set_ibank_id:
  assumes "pool_part st N F" "i < N"
  shows "set_ibank st i = st"
proof -
  have i: "i < length (pagepool0 st)" "ibank_no (pagepool0 st ! i) = - 1" using assms by (simp_all add: pool_part_def)
  then have "(pagepool0 st ! i)\<lparr>ibank_no := - 1\<rparr> = pagepool0 st ! i" by (metis pool_page.surjective pool_page.update_convs(2) pool_page.select_convs(2))
  then show ?thesis by (simp add: set_ibank_def)
qed

lemma add_pages_part:
  "pool_part st N F \<Longrightarrow> i + n \<le> N \<Longrightarrow> {i..<i + n} \<inter> F = {} \<Longrightarrow>
   \<exists>st'. add_pages st i n = Some st' \<and> pool_part st' N (F \<union> {i..<i + n}) \<and> freepage_num st' = freepage_num st"
proof (induction st i n arbitrary: F rule: add_pages.induct)
  case (2 st i n)
  have s: "{i..<i + Suc n} = insert i {i + 1..<i + 1 + n}" by auto
  have i: "i < N" "i \<notin> F" using "2.prems"(2,3) s by auto
  obtain st1 where st1: "pagepool_freelist_add st (of_nat i) = Some st1" "pool_part st1 N (insert i F)" "freepage_num st1 = freepage_num st"
    by (rule add_page [OF "2.prems"(1) i])
  have "{i + 1..<i + 1 + n} \<inter> insert i F = {}" using "2.prems"(3) s by auto
  moreover have "insert i F \<union> {i + 1..<i + 1 + n} = F \<union> {i..<i + Suc n}" unfolding s by auto
  ultimately show ?case using "2.IH" [OF st1(1), unfolded set_ibank_id [OF st1(2) i(1)], OF st1(2)] "2.prems"(2) st1
      set_ibank_id [OF st1(2) i(1)] by auto
qed simp

lemma free_pages_inv:
  assumes "pool_inv st N F" "i + n \<le> N" "i < N"
  shows "{i..<i + n} \<inter> F = {} \<Longrightarrow> \<exists>st'. rom_pagepool_free_pages (of_nat (i * 2048)) n st = Some (st', 0) \<and> pool_inv st' N (F \<union> {i..<i + n})"
    "{i..<i + n} \<inter> F \<noteq> {} \<Longrightarrow> rom_pagepool_free_pages (of_nat (i * 2048)) n st = Some (st, - EINVAL)"
proof -
  have part: "pool_part st N F" and num: "unat (freepage_num st) = card F" using assms by (simp_all add: pool_inv_part)
  have F: "F \<subseteq> {..<N}" "N \<le> 127" "pagepool_size st = N" using part by (auto simp: pool_part_def pagepool_size_def)
  have fin: "finite F" using F(1) finite_subset by blast
  have "unat (of_nat (i * 2048) :: u32) = i * 2048" using assms(3) F(2) by (intro unat_of_nat_u32) simp
  then have ix: "unat (pagepool_convert_addr_to_pageindex (of_nat (i * 2048))) = i"
    unfolding pagepool_convert_addr_to_pageindex_def using assms(3) F(2) unat_index [of i] by simp
  note u = all_used_spec [OF assms(1,2)]
  show "rom_pagepool_free_pages (of_nat (i * 2048)) n st = Some (st, - EINVAL)" if "{i..<i + n} \<inter> F \<noteq> {}"
    using that u assms(3) F(3) by (simp add: rom_pagepool_free_pages_def ix Let_def del: of_nat_mult)
  assume d: "{i..<i + n} \<inter> F = {}"
  obtain st' where st': "add_pages st i n = Some st'" "pool_part st' N (F \<union> {i..<i + n})" "freepage_num st' = freepage_num st"
    using add_pages_part [OF part assms(2) d] by blast
  have c: "card (F \<union> {i..<i + n}) = card F + n" using d fin by (subst card_Un_disjoint) auto
  have "card (F \<union> {i..<i + n}) \<le> N" using st'(2) card_mono [of "{..<N}" "F \<union> {i..<i + n}"] by (simp add: pool_part_def)
  then have "unat (freepage_num st + of_nat n) = card F + n"
    using num c F(2) by (simp add: unat_word_ariths unat_of_nat)
  then show "\<exists>st'. rom_pagepool_free_pages (of_nat (i * 2048)) n st = Some (st', 0) \<and> pool_inv st' N (F \<union> {i..<i + n})"
    using u d assms(3) F(3) st' c by (simp add: rom_pagepool_free_pages_def ix Let_def pool_inv_part del: of_nat_mult)
qed

section \<open>Start up\<close>

lemma set_ibank_frame:
  assumes "i < length (pagepool0 st)"
  shows "nodes (set_ibank st i) = nodes st" "length (pagepool0 (set_ibank st i)) = length (pagepool0 st)"
    "freepage_num (set_ibank st i) = freepage_num st"
    "j < length (pagepool0 st) \<Longrightarrow> ibank_no (pagepool0 (set_ibank st i) ! j) = (if j = i then - 1 else ibank_no (pagepool0 st ! j))"
proof -
  have "NODE (set_ibank st i) j = NODE st j" for j using assms by (auto simp: NODE_def set_ibank_def nth_list_update)
  then show "nodes (set_ibank st i) = nodes st" by (intro ext) (simp add: nodes_def)
qed (use assms in \<open>simp_all add: set_ibank_def\<close>)

lemma init_pages_ring:
  "length (pagepool0 st) = N \<Longrightarrow> N \<le> 127 \<Longrightarrow> i + n = N \<Longrightarrow> ring (nx st) (pv st) xs \<Longrightarrow> set xs = of_nat ` {..<i} \<Longrightarrow>
   (\<forall>j<i. ibank_no (pagepool0 st ! j) = - 1) \<Longrightarrow>
   \<exists>st'. init_pages st i n = Some st' \<and> pool_part st' N {..<N} \<and> freepage_num st' = freepage_num st"
proof (induction st i n arbitrary: xs rule: init_pages.induct)
  case (1 st i)
  then show ?case by (auto simp: pool_part_def)
next
  case (2 st i n)
  let ?s = "set_ibank st i"
  have i: "i < length (pagepool0 st)" "i < N" using "2.prems" by simp_all
  note fr = set_ibank_frame [OF i(1)]
  have "of_nat i \<noteq> (of_nat j :: u8)" if "j < i" for j using index_eq [of i j] that i(2) "2.prems"(2) by simp
  then have ni: "of_nat i \<notin> set xs" using "2.prems"(5) by auto
  have "\<forall>y\<in>set xs. ok_index ?s y" using "2.prems" fr(2) ok_page [of ?s] by auto
  moreover have "ring (nx ?s) (pv ?s) xs" "ok_index ?s (of_nat i)" "of_nat i \<noteq> FREE_INDEX_FREE_FLAG"
    using "2.prems"(1,2,4) fr(1,2) ok_page [of ?s i] index_flag [of i] i by simp_all
  ultimately obtain s1 where s1: "pagepool_freelist_add ?s (of_nat i) = Some s1" "ring (nx s1) (pv s1) (of_nat i # xs)" "frame ?s s1"
    using freelist_add_ring [OF _ _ _ ni, of ?s] by metis
  have "set (of_nat i # xs) = of_nat ` {..<i + 1}" using "2.prems"(5) by (auto simp: lessThan_Suc)
  moreover have "\<forall>j<i + 1. ibank_no (pagepool0 s1 ! j) = - 1"
    using frame_ibank [OF s1(3)] fr(2,4) "2.prems"(1,3,6) by auto
  ultimately have "\<exists>st'. init_pages s1 (i + 1) n = Some st' \<and> pool_part st' N {..<N} \<and> freepage_num st' = freepage_num s1"
    using "2.IH" [OF s1(1) _ "2.prems"(2) _ s1(2)] frame_len [OF s1(3)] fr(2) "2.prems"(1,3) by simp
  then show ?case using s1 fr(3) by (auto simp: frame_def)
qed

lemma pool_start:
  assumes "N \<le> 127"
  obtains st where "pagepool_init (pagepool_static N) = Some st" "pool_inv st N {..<N}"
proof -
  let ?s = "(pagepool_static N)\<lparr>freepage_num := of_nat N\<rparr>"
  have "ring (nx ?s) (pv ?s) []" by (simp add: ring_def nodes_def NODE_def pagepool_static_def)
  then have "\<exists>st'. init_pages ?s 0 N = Some st' \<and> pool_part st' N {..<N} \<and> freepage_num st' = freepage_num ?s"
    using assms by (intro init_pages_ring) (simp_all add: pagepool_static_def)
  then show ?thesis using that unat_index [of N] assms
    by (auto simp: pagepool_init_def pagepool_size_def pool_inv_part) (auto simp: pagepool_static_def)
qed

section \<open>The contract\<close>

definition pool_live :: "nat \<Rightarrow> pagepool \<Rightarrow> blocks \<Rightarrow> bool" where
  "pool_live N st A \<longleftrightarrow> apart A \<and> (\<forall>a n. A a = Some n \<longrightarrow> 0 < n \<and> a + n \<le> N) \<and> pool_inv st N ({..<N} - cells A)"

definition pool_take :: "pagepool \<Rightarrow> nat \<Rightarrow> (pagepool \<times> nat option) option" where
  "pool_take st n = map_option (\<lambda>(st', r). (st', map_option (\<lambda>addr. unat (pagepool_convert_addr_to_pageindex addr)) r))
     (rom_pagepool_alloc_pages n st)"

definition pool_give :: "pagepool \<Rightarrow> nat \<Rightarrow> nat \<Rightarrow> pagepool option" where
  "pool_give st a n = (case pfree (pagepool_convert_index_to_addr (of_nat a)) n st of
     Some (st', r) \<Rightarrow> if r = 0 then Some st' else None | None \<Rightarrow> None)"

lemma index_addr: "i < 127 \<Longrightarrow> unat (pagepool_convert_addr_to_pageindex (of_nat (i * 2048))) = i"
  "i < 127 \<Longrightarrow> pagepool_convert_index_to_addr (of_nat i) = of_nat (i * 2048)"
proof -
  assume i: "i < 127"
  have "unat (of_nat (i * 2048) :: u32) = i * 2048" using i by (intro unat_of_nat_u32) simp
  then show "unat (pagepool_convert_addr_to_pageindex (of_nat (i * 2048))) = i"
    unfolding pagepool_convert_addr_to_pageindex_def using i unat_index [of i] by simp
  show "pagepool_convert_index_to_addr (of_nat i) = of_nat (i * 2048)"
    using i unat_index [of i] by (simp add: pagepool_convert_index_to_addr_def)
qed

lemma pool_take_live:
  assumes "pool_live N st A" "0 < n"
  shows "\<exists>st' r. pool_take st n = Some (st', r) \<and>
    (case r of None \<Rightarrow> pool_live N st' A | Some a \<Rightarrow> fresh_block A a n \<and> pool_live N st' (A(a \<mapsto> n)))"
proof -
  let ?F = "{..<N} - cells A"
  have l: "apart A" "\<forall>a n. A a = Some n \<longrightarrow> 0 < n \<and> a + n \<le> N" "pool_inv st N ?F" using assms(1) by (simp_all add: pool_live_def)
  then have N: "N \<le> 127" by (simp add: pool_inv_def)
  obtain st' r where r: "rom_pagepool_alloc_pages n st = Some (st', r)"
      "case r of None \<Rightarrow> st' = st \<and> (0 < n \<longrightarrow> (\<forall>i. \<not> {i..<i + n} \<subseteq> ?F))
       | Some addr \<Rightarrow> 0 < n \<and> (\<exists>i. addr = of_nat (i * 2048) \<and> {i..<i + n} \<subseteq> ?F \<and> pool_inv st' N (?F - {i..<i + n}))"
    using alloc_pages_inv [OF l(3), of n] by blast
  show ?thesis
  proof (cases r)
    case None
    then show ?thesis using r assms(1) by (auto simp: pool_take_def)
  next
    case (Some addr)
    then obtain i where i: "addr = of_nat (i * 2048)" "{i..<i + n} \<subseteq> ?F" "pool_inv st' N (?F - {i..<i + n})" using r(2) by auto
    have "i + n - 1 \<in> {i..<i + n}" "i \<in> {i..<i + n}" using assms(2) by auto
    then have "i + n - 1 \<in> ?F" "i \<in> ?F" using i(2) by blast+
    then have b: "i + n \<le> N" "i < 127" "i \<notin> cells A" using assms(2) N by auto
    have fr: "fresh_block A i n" using i(2) by (auto simp: fresh_cells)
    have none: "A i = None" using b(3) cells_start [of A i] l(2) by (cases "A i") auto
    have "?F - {i..<i + n} = {..<N} - cells (A(i \<mapsto> n))" using cells_add [of A i n] none by auto
    then have "pool_live N st' (A(i \<mapsto> n))" using l i(3) apart_add [OF l(1) fr] b(1) assms(2) by (simp add: pool_live_def)
    then show ?thesis using r(1) Some i(1) b(2) index_addr(1) [of i] fr by (simp add: pool_take_def)
  qed
qed

lemma pool_give_live:
  assumes "pool_live N st A" "A a = Some n"
  shows "\<exists>st'. pool_give st a n = Some st' \<and> pool_live N st' (A(a := None))"
proof -
  let ?F = "{..<N} - cells A"
  have l: "apart A" "\<forall>a n. A a = Some n \<longrightarrow> 0 < n \<and> a + n \<le> N" "pool_inv st N ?F" using assms(1) by (simp_all add: pool_live_def)
  have b: "0 < n" "a + n \<le> N" "N \<le> 127" using l assms(2) by (auto simp: pool_inv_def)
  have "{a..<a + n} \<inter> ?F = {}" using cells_block [of A a n] assms(2) by blast
  then obtain st' where st': "rom_pagepool_free_pages (of_nat (a * 2048)) n st = Some (st', 0)" "pool_inv st' N (?F \<union> {a..<a + n})"
    using free_pages_inv(1) [OF l(3) b(2)] b by auto
  have "?F \<union> {a..<a + n} = {..<N} - cells (A(a := None))" unfolding cells_remove [of A a n, OF l(1) assms(2)] using b(2) by auto
  then have "pool_live N st' (A(a := None))" using l st'(2) apart_remove [OF l(1)] by (simp add: pool_live_def)
  then show ?thesis using st'(1) index_addr(2) [of a] b by (simp add: pool_give_def pfree_def del: of_nat_mult)
qed

interpretation pp: block_allocator "pool_live N" pool_take pool_give "\<lambda>n. n" "\<lambda>n. 0 < n" N for N
proof unfold_locales
  show "0 < n \<and> a + n \<le> N" if "pool_live N s A" "A a = Some n" for s A a n using that unfolding pool_live_def by blast
  show "apart A" if "pool_live N s A" for s A using that by (simp add: pool_live_def)
qed (simp_all add: pool_take_live pool_give_live)

section \<open>Properties\<close>

text \<open>
  C29: An allocation of \<open>n\<close> pages always returns. When it returns an address, it is that of \<open>n\<close> consecutive pages that were
  free and now are not, and the ring of free pages, the marks and the counter are right again. It returns no
  address only for \<open>n = 0\<close> or when no \<open>n\<close> consecutive pages are free, and then changes nothing.
\<close>

theorem pool_alloc_correct:
  assumes "pool_inv st N F"
  shows "\<exists>st' r. rom_pagepool_alloc_pages n st = Some (st', r) \<and>
    (case r of None \<Rightarrow> st' = st \<and> (0 < n \<longrightarrow> (\<forall>i. \<not> {i..<i + n} \<subseteq> F))
     | Some addr \<Rightarrow> 0 < n \<and> (\<exists>i. addr = of_nat (i * 2048) \<and> {i..<i + n} \<subseteq> F \<and> pool_inv st' N (F - {i..<i + n})))"
  by (rule alloc_pages_inv [OF assms])

theorem pool_alloc_correct_witness:
  "\<exists>st st' i. pagepool_init (pagepool_static 8) = Some st \<and> rom_pagepool_alloc_pages 3 st = Some (st', Some (of_nat (i * 2048))) \<and>
     pool_inv st' 8 ({..<8} - {i..<i + 3})"
proof -
  obtain st where st: "pagepool_init (pagepool_static 8) = Some st" "pool_inv st 8 {..<8}" using pool_start [of 8] by auto
  obtain st' r where r: "rom_pagepool_alloc_pages 3 st = Some (st', r)"
      "case r of None \<Rightarrow> st' = st \<and> (0 < (3 :: nat) \<longrightarrow> (\<forall>i. \<not> {i..<i + 3} \<subseteq> {..<8 :: nat}))
       | Some addr \<Rightarrow> 0 < (3 :: nat) \<and> (\<exists>i. addr = of_nat (i * 2048) \<and> {i..<i + 3} \<subseteq> {..<8} \<and> pool_inv st' 8 ({..<8} - {i..<i + 3}))"
    using pool_alloc_correct [OF st(2), of 3] by blast
  have "{0..<0 + 3} \<subseteq> {..<8 :: nat}" by auto
  then have "\<exists>i. {i..<i + 3} \<subseteq> {..<8 :: nat}" by blast
  then have "r \<noteq> None" using r(2) by (cases r) simp_all
  then show ?thesis using st(1) r by auto
qed

text \<open>
  Freeing pages of which at least one is free already, as in a second free, is refused with \<open>-EINVAL\<close> and
  changes nothing; an address outside the pool is refused with \<open>-EFAULT\<close>.
\<close>

theorem pool_bad_free_refused:
  assumes "pool_inv st N F"
  shows "(\<forall>i n. i < N \<and> i + n \<le> N \<and> {i..<i + n} \<inter> F \<noteq> {} \<longrightarrow> pfree (of_nat (i * 2048)) n st = Some (st, - EINVAL)) \<and>
    (\<forall>addr n. N \<le> unat (pagepool_convert_addr_to_pageindex addr) \<longrightarrow> pfree addr n st = Some (st, - EFAULT))"
proof (intro conjI allI impI)
  fix i n
  assume "i < N \<and> i + n \<le> N \<and> {i..<i + n} \<inter> F \<noteq> {}"
  then show "pfree (of_nat (i * 2048)) n st = Some (st, - EINVAL)"
    using free_pages_inv(2) [OF assms, of i n] by (simp add: pfree_def)
next
  fix addr n
  assume "N \<le> unat (pagepool_convert_addr_to_pageindex addr)"
  moreover have "pagepool_size st = N" using assms by (simp add: pool_inv_def pagepool_size_def)
  ultimately show "pfree addr n st = Some (st, - EFAULT)" by (simp add: pfree_def rom_pagepool_free_pages_def)
qed

theorem pool_bad_free_refused_witness:
  "\<exists>st. pagepool_init (pagepool_static 8) = Some st \<and> pfree (of_nat (3 * 2048)) 2 st = Some (st, - EINVAL) \<and>
     pfree (of_nat (100 * 2048)) 1 st = Some (st, - EFAULT)"
proof -
  obtain st where st: "pagepool_init (pagepool_static 8) = Some st" "pool_inv st 8 {..<8}" using pool_start [of 8] by auto
  have "3 \<in> {3..<3 + 2} \<inter> {..<8 :: nat}" by simp
  then have "{3..<3 + 2} \<inter> {..<8 :: nat} \<noteq> {}" by blast
  moreover have "unat (pagepool_convert_addr_to_pageindex (of_nat (100 * 2048))) = 100" by (rule index_addr) simp
  ultimately have "pfree (of_nat (3 * 2048)) 2 st = Some (st, - EINVAL)" "pfree (of_nat (100 * 2048)) 1 st = Some (st, - EFAULT)"
    using conjunct1 [OF pool_bad_free_refused [OF st(2)], THEN spec, THEN spec, of 3 2]
      conjunct2 [OF pool_bad_free_refused [OF st(2)], THEN spec, THEN spec, of "of_nat (100 * 2048)" 1] by simp_all
  then show ?thesis using st(1) by blast
qed

text \<open>
  For every pool of at most 127 pages, after start up every sequence of allocations of pages and of frees of
  allocated ranges returns; allocated ranges never overlap and stay inside the pool, and the ring of free pages stays intact.
\<close>

theorem pool_sequence_safe:
  assumes "N \<le> 127" "\<forall>c\<in>set ops. op_fits (\<lambda>n. 0 < n) c"
  shows "\<exists>st0 st A. pagepool_init (pagepool_static N) = Some st0 \<and>
    heap_run pool_take pool_give (\<lambda>n. n) st0 Map.empty ops = Some (st, A) \<and> pool_live N st A \<and> apart A \<and>
    (\<forall>a n. A a = Some n \<longrightarrow> a + n \<le> N)"
proof -
  obtain st0 where st0: "pagepool_init (pagepool_static N) = Some st0" "pool_inv st0 N {..<N}" by (rule pool_start [OF assms(1)])
  have "pool_live N st0 Map.empty" using st0(2) by (simp add: pool_live_def)
  then show ?thesis using pp.run_safe [OF _ assms(2)] st0(1) by blast
qed

theorem pool_sequence_safe_witness:
  "\<exists>st0 st A. pagepool_init (pagepool_static 8) = Some st0 \<and>
    heap_run pool_take pool_give (\<lambda>n. n) st0 Map.empty [Alloc 3, Alloc 1, Free 5, Alloc 4] = Some (st, A) \<and> pool_live 8 st A \<and> apart A \<and>
    (\<forall>a n. A a = Some n \<longrightarrow> a + n \<le> 8)"
  by (rule pool_sequence_safe) simp_all

end
