(* ===== verification/Mem_Buddy.thy ===== *)
theory Mem_Buddy
  imports Buddy_Alloc Page_Pool
begin

text \<open>
  The heap of the system: \<^verbatim>\<open>src/framework/base/memory/page_buddy/malloc.c\<close> and \<^verbatim>\<open>free.c\<close>, and \<^verbatim>\<open>mem_page.c\<close> and
  \<^verbatim>\<open>mem_manager.c\<close> above them. Requests of up to 1920 bytes are served by buddy pages, larger ones by whole pages of the
  pool. The pages the heap owns are listed in 28 bytes: a buddy page by its number, a range of pages by its first page
  with bit 7 set, followed by the number of pages with bits 7 and 6 set when there are several; \<open>0xFF\<close> ends the list.

  A pointer is its distance from the start of the pool, a null pointer is \<open>None\<close> of type \<open>u32 option\<close>. The control
  block of a buddy page, which the code keeps in the last 128 bytes of the page, is a record of its own as long as the
  page is a buddy page, and becomes bytes of the pool when the page is given back; \<open>heap_byte\<close> is the byte of the memory
  of the code at a distance, with the control blocks where the code has them. The priority of the running thread
  and the caller are arguments. \<open>None\<close> as the result of an operation is undefined behaviour (a write past the
  28 bytes, a use of a null pointer) or a loop that does not end. Requests that cannot be served end in
  \<open>malloc_err_print\<close>, which calls \<open>k_panic\<close>, and the system stops there: \<open>Malloc_Panic\<close> is this end, with the number that is
  printed and the heap it leaves, and no call follows it. The reports of \<open>free_panic\<close> are
  left out: it only prints, and the code goes on.
\<close>

unbundle bit_operations_syntax

section \<open>Model\<close>

abbreviation BUDDYS_SIZE :: nat where "BUDDYS_SIZE \<equiv> 28"

record buddy_debug_info =
  d_size :: u16
  d_size_mask :: u16
  d_info :: u32 \<comment> \<open>26 bits caller, 6 bits priority\<close>

record mem_info =
  alloc_size :: u32
  original_size :: u32
  buddys :: "u8 list"

record heap =
  pool :: pagepool
  ctrl :: "u8 \<Rightarrow> buddy"
  bytes :: mem
  sys_meminfo :: mem_info

datatype malloc_result = Malloc_Ptr u32 | Malloc_Null | Malloc_Panic nat \<comment> \<open>the system has stopped\<close>

text \<open>The bytes of a control block, and where the memory of the code has them.\<close>

definition buddy_byte :: "buddy \<Rightarrow> nat \<Rightarrow> u8" where
  "buddy_byte s i =
     (if i = 0 then b_page_no s
      else if i < 72 then b_max s ! (i - 1)
      else if i < 104 then ucast (drop_bit (8 * ((i - 72) mod 4)) (b_type s ! ((i - 72) div 4)))
      else if i = 104 then b_freed s else 0)"

definition buddy_page :: "heap \<Rightarrow> nat \<Rightarrow> bool" where
  "buddy_page h p \<longleftrightarrow> p < 128 \<and> of_nat p \<in> set (takeWhile (\<lambda>b. b \<noteq> - 1) (buddys (sys_meminfo h)))"

definition in_control :: "heap \<Rightarrow> nat \<Rightarrow> bool" where
  "in_control h t \<longleftrightarrow> buddy_page h (t div PAGE_SIZE) \<and> PAGE_SIZE - 128 \<le> t mod PAGE_SIZE"

definition heap_byte :: "heap \<Rightarrow> nat \<Rightarrow> u8" where
  "heap_byte h t =
     (if in_control h t then buddy_byte (ctrl h (of_nat (t div PAGE_SIZE))) (t mod PAGE_SIZE - (PAGE_SIZE - 128)) else bytes h (of_nat t))"

text \<open>A page that is given back keeps the bytes of its control block.\<close>

definition leave_control :: "u8 \<Rightarrow> buddy \<Rightarrow> heap \<Rightarrow> heap" where
  "leave_control buddy_no s h =
     h\<lparr>bytes := mem_write (bytes h) (pagepool_convert_index_to_addr buddy_no + of_nat (PAGE_SIZE - 128)) (map (buddy_byte s) [0..<128])\<rparr>"

definition get_buddy_max :: int where
  "get_buddy_max = MAX_FREE_SIZE"

definition PTR_DEFLATE :: "u32 \<Rightarrow> u32" where
  "PTR_DEFLATE ptr = (if ptr \<noteq> 0 then ptr AND 0x03ffffff else 0)"

text \<open>The eight bytes of the debug record, little endian, and back.\<close>

definition debug_bytes :: "buddy_debug_info \<Rightarrow> u8 list" where
  "debug_bytes d = [ucast (d_size d), ucast (drop_bit 8 (d_size d)), ucast (d_size_mask d), ucast (drop_bit 8 (d_size_mask d)),
     ucast (d_info d), ucast (drop_bit 8 (d_info d)), ucast (drop_bit 16 (d_info d)), ucast (drop_bit 24 (d_info d))]"

definition u16_of :: "u8 \<Rightarrow> u8 \<Rightarrow> u16" where
  "u16_of lo hi = ucast lo OR push_bit 8 (ucast hi)"

definition debug_of :: "mem \<Rightarrow> u32 \<Rightarrow> buddy_debug_info" where
  "debug_of m a = \<lparr>d_size = u16_of (m a) (m (a + 1)), d_size_mask = u16_of (m (a + 2)) (m (a + 3)),
     d_info = ucast (m (a + 4)) OR push_bit 8 (ucast (m (a + 5))) OR push_bit 16 (ucast (m (a + 6))) OR push_bit 24 (ucast (m (a + 7)))\<rparr>"

definition set_buddy :: "heap \<Rightarrow> nat \<Rightarrow> u8 \<Rightarrow> heap option" where
  "set_buddy h i b = (if i < length (buddys (sys_meminfo h))
     then Some (h\<lparr>sys_meminfo := (sys_meminfo h)\<lparr>buddys := (buddys (sys_meminfo h))[i := b]\<rparr>\<rparr>) else None)"

definition ctrl_of :: "heap \<Rightarrow> u8 \<Rightarrow> buddy option" where
  "ctrl_of h b = (if unat b < pagepool_size (pool h) then Some (ctrl h b) else None)"

definition buddy_alloc :: "heap \<Rightarrow> u8 \<Rightarrow> int \<Rightarrow> (heap \<times> (u32 \<times> int) option) option" where
  "buddy_alloc h buddy_no sz =
     do {
       s \<leftarrow> ctrl_of h buddy_no;
       (s1, r) \<leftarrow> rom_buddy_alloc buddy_no sz s;
       Some (h\<lparr>ctrl := (ctrl h)(buddy_no := s1)\<rparr>,
         map_option (\<lambda>(addr, real). (pagepool_convert_index_to_addr buddy_no + of_nat addr, real)) r)
     }"

definition buddy_free :: "heap \<Rightarrow> u8 \<Rightarrow> u32 \<Rightarrow> (heap \<times> int) option" where
  "buddy_free h buddy_no ptr =
     do {
       s \<leftarrow> ctrl_of h buddy_no;
       (s1, r) \<leftarrow> rom_buddy_free buddy_no (unat (ptr - pagepool_convert_index_to_addr buddy_no)) s;
       Some (h\<lparr>ctrl := (ctrl h)(buddy_no := s1)\<rparr>, r)
     }"

text \<open>The loop over the buddy pages of the heap.\<close>

fun try_buddys :: "heap \<Rightarrow> int \<Rightarrow> u8 list \<Rightarrow> (heap \<times> (u32 \<times> int) option) option" where
  "try_buddys h sz [] = Some (h, None)"
| "try_buddys h sz (b # bs) =
     (if b = - 1 then Some (h, None)
      else if b AND 0x80 \<noteq> 0 then try_buddys h sz bs
      else do {
        (h1, r) \<leftarrow> buddy_alloc h b sz;
        case r of Some p \<Rightarrow> Some (h1, Some p) | None \<Rightarrow> try_buddys h1 sz bs
      })"

definition unused_index :: "u8 list \<Rightarrow> nat" where
  "unused_index bs = length (takeWhile (\<lambda>b. b \<noteq> - 1) bs)"

text \<open>The part behind the label \<open>success\<close>.\<close>

definition malloc_success :: "int \<Rightarrow> int \<Rightarrow> u32 \<Rightarrow> u32 \<Rightarrow> (u32 \<times> int) \<Rightarrow> heap \<Rightarrow> heap \<times> malloc_result" where
  "malloc_success sz need_size caller prio p h =
     (let (addr, real) = p;
          sz4 = ((sz + 3) div 4) * 4;
          d = \<lparr>d_size = word_of_int sz4, d_size_mask = NOT (word_of_int sz4 + 0x1234),
               d_info = (PTR_DEFLATE caller AND 0x03ffffff) OR push_bit 26 prio\<rparr>;
          m1 = mem_write (bytes h) (addr + word_of_int real - 8) (debug_bytes d);
          m2 = mem_write m1 addr (replicate (nat need_size) 0);
          mi = sys_meminfo h
      in (h\<lparr>bytes := m2, sys_meminfo := mi\<lparr>alloc_size := alloc_size mi + word_of_int real,
            original_size := original_size mi + word_of_int sz4\<rparr>\<rparr>, Malloc_Ptr addr))"

definition malloc_pages :: "int \<Rightarrow> int \<Rightarrow> u32 \<Rightarrow> u32 \<Rightarrow> heap \<Rightarrow> (heap \<times> malloc_result) option" where
  "malloc_pages sz need_size caller prio h =
     (let page_num = unat (SIZE2PAGE (word_of_int sz))
      in if buddys (sys_meminfo h) ! (BUDDYS_SIZE - 2) \<noteq> - 1 then Some (h, Malloc_Panic 1)
         else do {
           (pool1, r) \<leftarrow> pmalloc (word_of_int sz) (pool h);
           let h1 = h\<lparr>pool := pool1\<rparr>
           in case r of
                None \<Rightarrow> Some (h1, Malloc_Panic 2)
              | Some pg \<Rightarrow>
                  if buddys (sys_meminfo h1) ! (BUDDYS_SIZE - 2) \<noteq> - 1
                  then do { (pool2, _) \<leftarrow> pfree pg page_num pool1; Some (h1\<lparr>pool := pool2\<rparr>, Malloc_Panic 3) }
                  else do {
                    let i = unused_index (buddys (sys_meminfo h1));
                    h2 \<leftarrow> set_buddy h1 i (pagepool_convert_addr_to_pageindex pg OR 0x80);
                    h3 \<leftarrow> (if 1 < page_num then set_buddy h2 (i + 1) (of_nat page_num OR 0xc0) else Some h2);
                    Some (malloc_success sz need_size caller prio (pg, int (page_num * PAGE_SIZE)) h3)
                  }
         })"

definition malloc_new_buddy :: "int \<Rightarrow> int \<Rightarrow> u32 \<Rightarrow> u32 \<Rightarrow> heap \<Rightarrow> (heap \<times> malloc_result) option" where
  "malloc_new_buddy sz need_size caller prio h =
     (if buddys (sys_meminfo h) ! (BUDDYS_SIZE - 1) \<noteq> - 1 then Some (h, Malloc_Panic 4)
      else do {
        (pool1, r) \<leftarrow> pmalloc (of_nat PAGE_SIZE) (pool h);
        let h1 = h\<lparr>pool := pool1\<rparr>
        in case r of
             None \<Rightarrow> Some (h1, Malloc_Panic 5)
           | Some pg \<Rightarrow> do {
               let new_buddy = pagepool_convert_addr_to_pageindex pg;
               let h2 = h1\<lparr>ctrl := (ctrl h1)(new_buddy := rom_new_buddy_no new_buddy)\<rparr>;
               (h3, addr) \<leftarrow> buddy_alloc h2 new_buddy sz;
               if buddys (sys_meminfo h3) ! (BUDDYS_SIZE - 1) \<noteq> - 1
               then do { (pool2, _) \<leftarrow> pfree pg 1 (pool h3); Some (h3\<lparr>pool := pool2\<rparr>, Malloc_Panic 6) }
               else do {
                 h4 \<leftarrow> set_buddy h3 (unused_index (buddys (sys_meminfo h3))) new_buddy;
                 p \<leftarrow> addr;
                 Some (malloc_success sz need_size caller prio p h4)
               }
             }
      })"

definition mem_buddy_malloc :: "int \<Rightarrow> int \<Rightarrow> u32 \<Rightarrow> u32 \<Rightarrow> heap \<Rightarrow> (heap \<times> malloc_result) option" where
  "mem_buddy_malloc sz need_size caller prio h =
     (if sz = 0 then Some (h, Malloc_Null)
      else if get_buddy_max < sz then malloc_pages sz need_size caller prio h
      else do {
        (h1, r) \<leftarrow> try_buddys h sz (buddys (sys_meminfo h));
        case r of Some p \<Rightarrow> Some (malloc_success sz need_size caller prio p h1)
        | None \<Rightarrow> malloc_new_buddy sz need_size caller prio h1
      })"

text \<open>The two loops of \<open>del_buddy\<close>.\<close>

function del_shift :: "u8 list \<Rightarrow> nat \<Rightarrow> nat \<Rightarrow> u8 list \<times> nat" where
  "del_shift bs index nr =
     (if index < BUDDYS_SIZE - nr then del_shift (bs[index := bs ! (index + nr)]) (index + 1) nr else (bs, index))"
  by auto
termination by (relation "measure (\<lambda>(_, i, _). BUDDYS_SIZE - i)") auto

declare del_shift.simps [simp del]

fun del_fill :: "u8 list \<Rightarrow> nat \<Rightarrow> nat \<Rightarrow> u8 list option" where
  "del_fill bs index 0 = Some bs"
| "del_fill bs index (Suc nr) = (if index + nr < length bs then del_fill (bs[index + nr := - 1]) index nr else None)"

definition del_buddy :: "heap \<Rightarrow> nat \<Rightarrow> nat \<Rightarrow> heap option" where
  "del_buddy h index nr =
     do {
       bs \<leftarrow> (let (bs, i) = del_shift (buddys (sys_meminfo h)) index nr in del_fill bs i nr);
       Some (h\<lparr>sys_meminfo := (sys_meminfo h)\<lparr>buddys := bs\<rparr>\<rparr>)
     }"

text \<open>The entry of a page in the list: its index and the number of pages, 0 for a buddy page, -1 when there is none.\<close>

function scan_buddys :: "u8 list \<Rightarrow> u8 \<Rightarrow> nat \<Rightarrow> nat \<times> int" where
  "scan_buddys [] buddy_no i = (i, - 1)"
| "scan_buddys (b # bs) buddy_no i =
     (if b = - 1 then (i, - 1)
      else if b AND 0x80 = 0 then if b = buddy_no then (i, 0) else scan_buddys bs buddy_no (i + 1)
      else if b AND 0x7f = buddy_no
      then (i, if bs \<noteq> [] \<and> hd bs \<noteq> - 1 \<and> hd bs AND 0xc0 = 0xc0 then int (unat (hd bs AND 0x3f)) else 1)
      else if bs \<noteq> [] \<and> hd bs \<noteq> - 1 \<and> hd bs AND 0xc0 = 0xc0 then scan_buddys (tl bs) buddy_no (i + 2)
      else scan_buddys bs buddy_no (i + 1))"
  by pat_completeness auto
termination by (relation "measure (\<lambda>(bs, _, _). length bs)") (auto simp: less_Suc_eq_le)

definition entry_index :: "u8 list \<Rightarrow> u8 \<Rightarrow> nat" where
  "entry_index bs b = length (takeWhile (\<lambda>c. c \<noteq> b) bs)"

definition check_mem_debug :: "buddy_debug_info \<Rightarrow> u32 \<Rightarrow> heap \<Rightarrow> heap" where
  "check_mem_debug d sz h =
     (let s = (if d_size_mask d \<noteq> NOT (d_size d + 0x1234) then ucast sz else d_size d); mi = sys_meminfo h
      in h\<lparr>sys_meminfo := mi\<lparr>original_size := original_size mi - ucast s\<rparr>\<rparr>)"

text \<open>The accounting of a freed block.\<close>

definition free_account :: "u32 \<Rightarrow> int \<Rightarrow> heap \<Rightarrow> heap" where
  "free_account ptr sz h =
     (let mi = sys_meminfo h; h1 = h\<lparr>sys_meminfo := mi\<lparr>alloc_size := alloc_size mi - word_of_int sz\<rparr>\<rparr>
      in check_mem_debug (debug_of (bytes h) (ptr + word_of_int sz - 8)) (word_of_int sz) h1)"

definition mem_buddy_free :: "u32 \<Rightarrow> heap \<Rightarrow> heap option" where
  "mem_buddy_free ptr h =
     (let buddy_no = pagepool_convert_addr_to_pageindex ptr;
          page_num = snd (scan_buddys (buddys (sys_meminfo h)) buddy_no 0)
      in do {
        (h1, num) \<leftarrow>
          (if page_num = 0 then do {
             (h1, sz) \<leftarrow> buddy_free h buddy_no ptr;
             s \<leftarrow> ctrl_of h1 buddy_no;
             h2 \<leftarrow> (if rom_is_buddy_idled s
               then del_buddy (leave_control buddy_no s h1) (entry_index (buddys (sys_meminfo h1)) buddy_no) 1 else Some h1);
             Some (free_account ptr sz h2, if rom_is_buddy_idled s then 1 else 0)
           }
           else do {
             h1 \<leftarrow> del_buddy h (entry_index (buddys (sys_meminfo h)) (buddy_no OR 0x80)) (if 1 < page_num then 2 else 1);
             Some (free_account ptr (int PAGE_SIZE * page_num) h1, page_num)
           });
        if 0 < num then do {
          (pool1, _) \<leftarrow> pfree (pagepool_convert_index_to_addr buddy_no) (nat num) (pool h1);
          Some (h1\<lparr>pool := pool1\<rparr>)
        }
        else Some h1
      })"

subsection \<open>\<open>mem_page.c\<close> and \<open>mem_manager.c\<close>\<close>

definition mem_page_malloc :: "u32 \<Rightarrow> u32 \<Rightarrow> u32 \<Rightarrow> heap \<Rightarrow> (heap \<times> malloc_result) option" where
  "mem_page_malloc num_bytes caller prio h = mem_buddy_malloc (sint num_bytes) (sint num_bytes) caller prio h"

definition mem_page_free :: "u32 \<Rightarrow> heap \<Rightarrow> heap option" where
  "mem_page_free ptr h = mem_buddy_free ptr h"

definition mem_page_init :: "heap \<Rightarrow> heap option" where
  "mem_page_init h =
     do {
       p \<leftarrow> pagepool_init (pool h);
       Some (h\<lparr>pool := p, sys_meminfo := \<lparr>alloc_size = 0, original_size = 0, buddys = replicate BUDDYS_SIZE (- 1)\<rparr>\<rparr>)
     }"

definition app_mem_malloc :: "u32 \<Rightarrow> u32 \<Rightarrow> u32 \<Rightarrow> heap \<Rightarrow> (heap \<times> malloc_result) option" where
  "app_mem_malloc num_bytes caller prio h = mem_page_malloc num_bytes caller prio h"

definition app_mem_malloc_ext :: "u32 \<Rightarrow> u32 \<Rightarrow> u32 \<Rightarrow> heap \<Rightarrow> (heap \<times> malloc_result) option" where
  "app_mem_malloc_ext num_bytes malloc_tag prio h = mem_page_malloc num_bytes malloc_tag prio h"

definition app_mem_free :: "u32 option \<Rightarrow> heap \<Rightarrow> heap option" where
  "app_mem_free ptr h = (case ptr of None \<Rightarrow> Some h | Some p \<Rightarrow> mem_page_free p h)"

definition mem_malloc_debug :: "u32 \<Rightarrow> u32 \<Rightarrow> u32 \<Rightarrow> heap \<Rightarrow> (heap \<times> malloc_result) option" where
  "mem_malloc_debug num_bytes caller prio h = mem_page_malloc num_bytes caller prio h"

definition mem_malloc :: "u32 \<Rightarrow> u32 \<Rightarrow> u32 \<Rightarrow> heap \<Rightarrow> (heap \<times> malloc_result) option" where
  "mem_malloc num_bytes caller prio h = mem_malloc_debug num_bytes caller prio h"

definition mem_free :: "u32 option \<Rightarrow> heap \<Rightarrow> heap option" where
  "mem_free ptr h = (case ptr of None \<Rightarrow> Some h | Some p \<Rightarrow> mem_page_free p h)"

definition mem_manager_init :: "heap \<Rightarrow> (heap \<times> int) option" where
  "mem_manager_init h = do { h1 \<leftarrow> mem_page_init h; Some (h1, 0) }"

end
