(* ===== verification/Mem_Entries.thy ===== *)
theory Mem_Entries
  imports Mem_Buddy
begin

text \<open>
  The list of the pages of the heap as a list of entries: the bytes of an entry, the search of an entry by its page
  and the removal of one.
\<close>

unbundle bit_operations_syntax

section \<open>The list of pages\<close>

text \<open>An entry of the list: a buddy page, or a range of pages.\<close>

datatype entry = In_Buddy nat | In_Pages nat nat

fun enc :: "entry \<Rightarrow> u8 list" where
  "enc (In_Buddy p) = [of_nat p]"
| "enc (In_Pages p n) = (of_nat p OR 0x80) # (if 1 < n then [of_nat n OR 0xc0] else [])"

fun page_list :: "entry \<Rightarrow> nat list" where
  "page_list (In_Buddy p) = [p]"
| "page_list (In_Pages p n) = [p..<p + n]"

fun first_page :: "entry \<Rightarrow> nat" where
  "first_page (In_Buddy p) = p"
| "first_page (In_Pages p n) = p"

definition encode :: "entry list \<Rightarrow> u8 list" where
  "encode es = concat (map enc es)"

definition owned :: "entry list \<Rightarrow> nat list" where
  "owned es = concat (map page_list es)"

definition entries_ok :: "nat \<Rightarrow> entry list \<Rightarrow> bool" where
  "entries_ok N es \<longleftrightarrow> N \<le> 26 \<and> distinct (owned es) \<and> set (owned es) \<subseteq> {..<N} \<and> (\<forall>p n. In_Pages p n \<in> set es \<longrightarrow> 0 < n)"

lemma encode_simps [simp]: "encode [] = []" "encode (e # es) = enc e @ encode es" "encode (xs @ ys) = encode xs @ encode ys"
  by (simp_all add: encode_def)

lemma owned_simps [simp]: "owned [] = []" "owned (e # es) = page_list e @ owned es" "owned (xs @ ys) = owned xs @ owned ys"
  by (simp_all add: owned_def)

lemma byte_facts:
  assumes "p < 63"
  shows "(of_nat p :: u8) \<noteq> - 1" "(of_nat p :: u8) AND 0x80 = 0" "(of_nat p OR 0x80 :: u8) \<noteq> - 1" "(of_nat p OR 0x80 :: u8) AND 0x80 \<noteq> 0"
    "(of_nat p OR 0x80 :: u8) AND 0x7f = of_nat p" "(of_nat p OR 0x80 :: u8) AND 0xc0 \<noteq> 0xc0" "(of_nat p :: u8) AND 0xc0 \<noteq> 0xc0"
    "(of_nat p OR 0xc0 :: u8) \<noteq> - 1" "(of_nat p OR 0xc0 :: u8) AND 0x80 \<noteq> 0" "(of_nat p OR 0xc0 :: u8) AND 0xc0 = 0xc0"
    "unat ((of_nat p OR 0xc0 :: u8) AND 0x3f) = p"
proof -
  have "list_all (\<lambda>p. (of_nat p :: u8) \<noteq> - 1 \<and> (of_nat p :: u8) AND 0x80 = 0 \<and> (of_nat p OR 0x80 :: u8) \<noteq> - 1 \<and>
      (of_nat p OR 0x80 :: u8) AND 0x80 \<noteq> 0 \<and> (of_nat p OR 0x80 :: u8) AND 0x7f = of_nat p \<and>
      (of_nat p OR 0x80 :: u8) AND 0xc0 \<noteq> 0xc0 \<and> (of_nat p :: u8) AND 0xc0 \<noteq> 0xc0 \<and> (of_nat p OR 0xc0 :: u8) \<noteq> - 1 \<and>
      (of_nat p OR 0xc0 :: u8) AND 0x80 \<noteq> 0 \<and> (of_nat p OR 0xc0 :: u8) AND 0xc0 = 0xc0 \<and>
      unat ((of_nat p OR 0xc0 :: u8) AND 0x3f) = p) [0..<63]" by code_simp
  moreover have "p \<in> set [0..<63]" using assms by simp
  ultimately show "(of_nat p :: u8) \<noteq> - 1" "(of_nat p :: u8) AND 0x80 = 0" "(of_nat p OR 0x80 :: u8) \<noteq> - 1" "(of_nat p OR 0x80 :: u8) AND 0x80 \<noteq> 0"
    "(of_nat p OR 0x80 :: u8) AND 0x7f = of_nat p" "(of_nat p OR 0x80 :: u8) AND 0xc0 \<noteq> 0xc0" "(of_nat p :: u8) AND 0xc0 \<noteq> 0xc0"
    "(of_nat p OR 0xc0 :: u8) \<noteq> - 1" "(of_nat p OR 0xc0 :: u8) AND 0x80 \<noteq> 0" "(of_nat p OR 0xc0 :: u8) AND 0xc0 = 0xc0"
    "unat ((of_nat p OR 0xc0 :: u8) AND 0x3f) = p" unfolding list_all_iff by blast+
qed

text \<open>What the bytes of one entry need: small page numbers.\<close>

definition small :: "entry \<Rightarrow> bool" where
  "small e \<longleftrightarrow> (case e of In_Buddy p \<Rightarrow> p < 63 | In_Pages p n \<Rightarrow> p < 63 \<and> n < 63 \<and> 0 < n)"

lemma page_list_len: "length (enc e) \<le> length (page_list e) \<or> (\<exists>p. e = In_Pages p 0)"
  by (cases e rule: enc.cases) auto

lemma entries_small: "entries_ok N es \<Longrightarrow> e \<in> set es \<Longrightarrow> small e \<and> set (page_list e) \<subseteq> {..<N}"
proof -
  assume ok: "entries_ok N es" and e: "e \<in> set es"
  then have s: "set (page_list e) \<subseteq> {..<N}" "N \<le> 26" by (auto simp: entries_ok_def owned_def)
  show ?thesis
  proof (cases e rule: page_list.cases)
    case (2 p n)
    then have "0 < n" using ok e by (auto simp: entries_ok_def)
    then have "p + n - 1 \<in> set (page_list e)" using 2 by simp
    then have "p + n - 1 < N" using s(1) by blast
    then have "p < 63" "n < 63" using \<open>0 < n\<close> s(2) by linarith+
    then show ?thesis using s 2 \<open>0 < n\<close> by (simp add: small_def)
  qed (use s in \<open>auto simp: small_def\<close>)
qed

lemma encode_length: "entries_ok N es \<Longrightarrow> length (encode es) \<le> N"
proof -
  assume ok: "entries_ok N es"
  have "length (encode xs) \<le> length (owned xs)" if "\<forall>e\<in>set xs. small e" for xs
    using that
  proof (induction xs)
    case (Cons e xs)
    then show ?case using page_list_len [of e] by (auto simp: small_def)
  qed simp
  then have "length (encode es) \<le> length (owned es)" using entries_small [OF ok] by blast
  also have "\<dots> = card (set (owned es))" using ok by (simp add: entries_ok_def distinct_card)
  also have "\<dots> \<le> card {..<N}" using ok by (intro card_mono) (auto simp: entries_ok_def)
  finally show ?thesis by simp
qed

lemma small_no_end: "small e \<Longrightarrow> - 1 \<notin> set (enc e)"
  by (cases e rule: enc.cases) (auto simp: small_def byte_facts(1,3,8) byte_facts(1,3,8) [symmetric])

lemma unused_encode:
  assumes "\<forall>e\<in>set es. small e" "0 < k"
  shows "unused_index (encode es @ replicate k (- 1)) = length (encode es)"
proof -
  have "\<forall>b\<in>set (encode es). b \<noteq> - 1" using assms(1) small_no_end by (auto simp: encode_def)
  then show ?thesis using assms(2) by (cases k) (simp_all add: unused_index_def takeWhile_append2)
qed

definition kind :: "entry \<Rightarrow> int" where
  "kind e = (case e of In_Buddy p \<Rightarrow> 0 | In_Pages p n \<Rightarrow> int n)"

lemma head_byte: "small e \<Longrightarrow> hd (enc e @ zs) AND 0xc0 \<noteq> 0xc0"
  using byte_facts(6,7) by (cases e rule: enc.cases) (auto simp: small_def)

lemma next_not_count: "\<forall>e\<in>set es. small e \<Longrightarrow> zs = encode es @ replicate k (- 1) \<Longrightarrow> \<not> (zs \<noteq> [] \<and> hd zs \<noteq> - 1 \<and> hd zs AND 0xc0 = 0xc0)"
  using head_byte by (cases es; cases k) auto

lemma scan_found:
  assumes "\<forall>e\<in>set (xs @ e # ys). small e" "\<forall>x\<in>set xs. first_page x \<noteq> first_page e"
  shows "snd (scan_buddys (encode (xs @ e # ys) @ replicate k (- 1)) (of_nat (first_page e)) i) = kind e"
  using assms
proof (induction xs arbitrary: i)
  case Nil
  let ?zs = "encode ys @ replicate k (- 1)"
  have n: "\<not> (?zs \<noteq> [] \<and> hd ?zs \<noteq> - 1 \<and> hd ?zs AND 0xc0 = 0xc0)" using Nil by (intro next_not_count [OF _ refl]) auto
  show ?case
  proof (cases e)
    case (In_Buddy p)
    then show ?thesis using Nil byte_facts [of p] by (simp add: small_def kind_def)
  next
    case (In_Pages p m)
    then have s: "p < 63" "m < 63" "0 < m" using Nil by (auto simp: small_def)
    show ?thesis
    proof (cases "1 < m")
      case True
      then show ?thesis using In_Pages byte_facts [OF s(1)] byte_facts [OF s(2)] by (simp add: kind_def)
    next
      case False
      then have "m = 1" using s(3) by simp
      then show ?thesis using In_Pages byte_facts [OF s(1)] n by (auto simp: kind_def)
    qed
  qed
next
  case (Cons x xs)
  let ?zs = "encode (xs @ e # ys) @ replicate k (- 1)"
  have n: "\<not> (?zs \<noteq> [] \<and> hd ?zs \<noteq> - 1 \<and> hd ?zs AND 0xc0 = 0xc0)" using Cons.prems by (intro next_not_count [OF _ refl]) auto
  have IH: "snd (scan_buddys ?zs (of_nat (first_page e)) j) = kind e" for j using Cons by simp
  have "first_page e < 63" using Cons.prems(1) by (cases e) (auto simp: small_def)
  then have ne: "(of_nat q :: u8) \<noteq> of_nat (first_page e)" if "q < 63" "q \<noteq> first_page e" for q
    using that index_eq [of q "first_page e"] by simp
  show ?case
  proof (cases x)
    case (In_Buddy q)
    then have "q < 63" "q \<noteq> first_page e" using Cons.prems by (auto simp: small_def)
    then show ?thesis using In_Buddy byte_facts [of q] ne [of q] IH by simp
  next
    case (In_Pages q m)
    then have s: "q < 63" "m < 63" "0 < m" "q \<noteq> first_page e" using Cons.prems by (auto simp: small_def)
    show ?thesis
    proof (cases "1 < m")
      case True
      then show ?thesis using In_Pages byte_facts [OF s(1)] byte_facts [OF s(2)] ne [OF s(1,4)] IH by simp
    next
      case False
      then have "scan_buddys (enc x @ ?zs) (of_nat (first_page e)) i = scan_buddys ?zs (of_nat (first_page e)) (i + 1)"
        using In_Pages byte_facts [OF s(1)] ne [OF s(1,4)] n unfolding enc.simps by (simp only: if_False append_Cons append_Nil scan_buddys.simps) auto
      then show ?thesis using IH by simp
    qed
  qed
qed

lemma entry_absent:
  assumes "\<forall>x\<in>set xs. small x" "\<forall>x\<in>set xs. first_page x \<noteq> first_page e" "small e"
  shows "\<forall>b\<in>set (encode xs). b \<noteq> hd (enc e)"
proof -
  have ne: "(of_nat q :: u8) \<noteq> of_nat p" if "q < 63" "p < 63" "q \<noteq> p" for p q using that index_eq [of q p] by simp
  have low: "(of_nat q OR 0x80 :: u8) \<noteq> of_nat p" "(of_nat q OR 0xc0 :: u8) \<noteq> of_nat p" if "q < 63" "p < 63" for p q
    using byte_facts(2) [OF that(2)] byte_facts(4,9) [OF that(1)] by metis+
  have high: "(of_nat q OR 0xc0 :: u8) \<noteq> of_nat p OR 0x80" if "q < 63" "p < 63" for p q
    using byte_facts(6) [OF that(2)] byte_facts(10) [OF that(1)] by metis
  have mid: "(of_nat q OR 0x80 :: u8) \<noteq> of_nat p OR 0x80" if "q < 63" "p < 63" "q \<noteq> p" for p q
    using byte_facts(5) [OF that(1)] byte_facts(5) [OF that(2)] ne [OF that] by metis
  have "hd (enc e) \<notin> set (enc x)" if "x \<in> set xs" for x
  proof -
    have x: "small x" "first_page x \<noteq> first_page e" using that assms by blast+
    show ?thesis
      using x assms(3) ne low high mid low [symmetric] high [symmetric]
      by (cases e; cases x) (auto simp: small_def dest!: sym [of "of_nat _ :: u8"] sym [of "_ OR _ :: u8"])
  qed
  then show ?thesis by (auto simp: encode_def)
qed

lemma entry_encode:
  assumes "\<forall>x\<in>set xs. small x" "\<forall>x\<in>set xs. first_page x \<noteq> first_page e" "small e"
  shows "entry_index (encode xs @ hd (enc e) # zs) (hd (enc e)) = length (encode xs)"
  using entry_absent [OF assms] by (simp add: entry_index_def takeWhile_append2)

lemma del_shift_list:
  "length bs = 28 \<Longrightarrow> 0 < nr \<Longrightarrow> i + nr \<le> 28 \<Longrightarrow>
   del_shift bs i nr = (take i bs @ drop (i + nr) bs @ drop (28 - nr) bs, 28 - nr)"
proof (induction bs i nr rule: del_shift.induct)
  case (1 bs i nr)
  show ?case
  proof (cases "i < 28 - nr")
    case False
    then have "i = 28 - nr" using "1.prems" by simp
    then show ?thesis using "1.prems" by (subst del_shift.simps) simp
  next
    case True
    let ?b = "bs[i := bs ! (i + nr)]"
    have "del_shift ?b (i + 1) nr = (take (i + 1) ?b @ drop (i + 1 + nr) ?b @ drop (28 - nr) ?b, 28 - nr)"
      using "1.IH" [OF True] "1.prems" True by simp
    moreover have "take (i + 1) ?b = take i bs @ [bs ! (i + nr)]" using "1.prems" True by (simp add: take_Suc_conv_app_nth)
    moreover have "drop (i + 1 + nr) ?b = drop (i + 1 + nr) bs" "drop (28 - nr) ?b = drop (28 - nr) bs" using True by simp_all
    moreover have "drop (i + nr) bs = bs ! (i + nr) # drop (i + 1 + nr) bs" using "1.prems" True by (simp add: Cons_nth_drop_Suc)
    ultimately show ?thesis using True by (subst del_shift.simps) simp
  qed
qed

lemma del_fill_list: "length bs = i + nr \<Longrightarrow> del_fill (bs @ zs) i nr = Some (take i bs @ replicate nr (- 1) @ zs)"
proof (induction nr arbitrary: bs zs)
  case (Suc nr)
  obtain ys y where b: "bs = ys @ [y]" using Suc.prems by (cases bs rule: rev_cases) auto
  then have l: "length ys = i + nr" using Suc.prems by simp
  then have "del_fill (bs @ zs) i (Suc nr) = del_fill (ys @ (- 1) # zs) i nr" using b by (simp add: list_update_append)
  then show ?case using Suc.IH [OF l] b l by (simp add: replicate_app_Cons_same)
qed simp

lemma del_buddy_list:
  assumes "buddys (sys_meminfo h) = us @ vs @ ws" "length (us @ vs @ ws) = 28" "vs \<noteq> []"
  shows "del_buddy h (length us) (length vs) =
    Some (h\<lparr>sys_meminfo := (sys_meminfo h)\<lparr>buddys := us @ ws @ replicate (length vs) (- 1)\<rparr>\<rparr>)"
proof -
  let ?bs = "us @ vs @ ws" and ?n = "length vs"
  have "del_shift ?bs (length us) ?n = (us @ ws @ drop (28 - ?n) ?bs, 28 - ?n)"
    using del_shift_list [of ?bs ?n "length us"] assms(2,3) by simp
  moreover have "del_fill (us @ ws @ drop (28 - ?n) ?bs) (28 - ?n) ?n = Some (us @ ws @ replicate ?n (- 1))"
    using del_fill_list [of "us @ ws @ drop (28 - ?n) ?bs" "28 - ?n" ?n "[]"] assms(2) by simp
  ultimately show ?thesis using assms(1) by (simp add: del_buddy_def)
qed

end
