(* ===== verification/Mem_Heap.thy ===== *)
theory Mem_Heap
  imports Mem_Entries
begin

text \<open>
  The state of the heap: the entries, the buddy pages and the page pool together represent a map of live blocks, in
  bytes. Serving a request adds a block, freeing takes one away.
\<close>

unbundle bit_operations_syntax

section \<open>The state of the heap\<close>

text \<open>
  \<open>es\<close> are the entries of the list and \<open>B p\<close> the live blocks of buddy page \<open>p\<close>, in units. The pages of no entry are
  free in the pool.
\<close>

definition heap_rep :: "nat \<Rightarrow> heap \<Rightarrow> entry list \<Rightarrow> (nat \<Rightarrow> blocks) \<Rightarrow> bool" where
  "heap_rep N h es B \<longleftrightarrow> entries_ok N es \<and>
     buddys (sys_meminfo h) = encode es @ replicate (BUDDYS_SIZE - length (encode es)) (- 1) \<and>
     pool_inv (pool h) N ({..<N} - set (owned es)) \<and>
     (\<forall>p. In_Buddy p \<in> set es \<longrightarrow> page (ctrl h (of_nat p)) (B p) (of_nat p))"

text \<open>The live blocks of the heap, in bytes.\<close>

definition hblock :: "entry list \<Rightarrow> (nat \<Rightarrow> blocks) \<Rightarrow> nat \<Rightarrow> nat \<Rightarrow> bool" where
  "hblock es B x l \<longleftrightarrow> (\<exists>p a n. In_Buddy p \<in> set es \<and> B p a = Some n \<and> x = p * 2048 + a * 16 \<and> l = n * 16) \<or>
     (\<exists>p n. In_Pages p n \<in> set es \<and> x = p * 2048 \<and> l = n * 2048)"

definition heap_total :: "blocks \<Rightarrow> nat" where
  "heap_total A = (\<Sum>a\<in>dom A. the (A a))"

definition heap_live :: "nat \<Rightarrow> heap \<Rightarrow> blocks \<Rightarrow> bool" where
  "heap_live N h A \<longleftrightarrow> (\<exists>es B. heap_rep N h es B \<and> (\<forall>p. In_Buddy p \<in> set es \<longrightarrow> B p \<noteq> Map.empty) \<and>
     (\<forall>x l. A x = Some l \<longleftrightarrow> hblock es B x l)) \<and> alloc_size (sys_meminfo h) = of_nat (heap_total A)"

lemma page_blocks: "page s A pg \<Longrightarrow> A a = Some n \<Longrightarrow> 0 < n \<and> a + n \<le> 120"
  using bp.live_blocks by blast

lemma rep_block:
  assumes "heap_rep N h es B" "In_Buddy p \<in> set es" "B p a = Some n"
  shows "0 < n" "a + n \<le> 120"
  using page_blocks [of "ctrl h (of_nat p)" "B p" "of_nat p" a n] assms by (auto simp: heap_rep_def)

text \<open>The page numbers of a buddy page or range and the entries determine each other.\<close>

lemma entry_pages:
  assumes "entries_ok N es" "e \<in> set es" "e' \<in> set es" "q \<in> set (page_list e)" "q \<in> set (page_list e')"
  shows "e = e'"
proof (rule ccontr)
  assume ne: "e \<noteq> e'"
  have d: "distinct (owned es)" using assms(1) by (simp add: entries_ok_def)
  obtain xs ys where xs: "es = xs @ e # ys" using assms(2) by (metis split_list)
  then have "e' \<in> set xs \<or> e' \<in> set ys" using assms(3) ne by auto
  then have "q \<in> set (owned xs) \<or> q \<in> set (owned ys)" using assms(5) by (auto simp: owned_def)
  then show False using d xs assms(4) by auto
qed

text \<open>A block lies in the pages of its entry.\<close>

lemma block_inside:
  assumes "heap_rep N h es B" "hblock es B x l"
  obtains e where "e \<in> set es" "0 < l" "\<forall>t\<in>{x..<x + l}. t div 2048 \<in> set (page_list e)"
    "e = In_Buddy (x div 2048) \<or> e = In_Pages (x div 2048) (l div 2048) \<and> x = x div 2048 * 2048 \<and> l = l div 2048 * 2048" "x + l \<le> N * 2048"
proof -
  have ok: "entries_ok N es" using assms(1) by (simp add: heap_rep_def)
  consider (b) p a n where "In_Buddy p \<in> set es" "B p a = Some n" "x = p * 2048 + a * 16" "l = n * 16"
    | (r) p n where "In_Pages p n \<in> set es" "x = p * 2048" "l = n * 2048"
    using assms(2) by (auto simp: hblock_def)
  then show ?thesis
  proof cases
    case b
    note n = rep_block [OF assms(1) b(1), of a n, OF b(2)]
    have d: "t div 2048 = p" if "t \<in> {x..<x + l}" for t using that n b(3,4) by auto
    have "p < N" using entries_small [OF ok b(1)] by simp
    then have "x + l \<le> N * 2048" using n b(3,4) by linarith
    then show ?thesis using that [OF b(1)] d n b(3,4) by auto
  next
    case r
    have n: "0 < n" "set [p..<p + n] \<subseteq> {..<N}" using entries_small [OF ok r(1)] by (auto simp: small_def)
    then have "p + n - 1 \<in> {..<N}" using n(1) by (intro subsetD [OF n(2)]) simp
    then have "p + n \<le> N" using n(1) by simp
    then have "(p + n) * 2048 \<le> N * 2048" by (intro mult_le_mono1)
    moreover have "t div 2048 \<in> set [p..<p + n]" if "t \<in> {x..<x + l}" for t
      using that r(2,3) by (auto simp: less_mult_imp_div_less algebra_simps)
    ultimately show ?thesis using that [OF r(1)] n(1) r(2,3) by (auto simp: algebra_simps)
  qed
qed

lemma hblock_apart:
  assumes "heap_rep N h es B" "hblock es B x l" "hblock es B y m" "x \<noteq> y"
  shows "{x..<x + l} \<inter> {y..<y + m} = {}"
proof (rule ccontr)
  assume "{x..<x + l} \<inter> {y..<y + m} \<noteq> {}"
  then obtain t where t: "t \<in> {x..<x + l}" "t \<in> {y..<y + m}" by blast
  have ok: "entries_ok N es" using assms(1) by (simp add: heap_rep_def)
  obtain e where "e \<in> set es" and in_e: "\<forall>t\<in>{x..<x + l}. t div 2048 \<in> set (page_list e)"
      and "e = In_Buddy (x div 2048) \<or> e = In_Pages (x div 2048) (l div 2048) \<and> x = x div 2048 * 2048 \<and> l = l div 2048 * 2048"
    by (rule block_inside [OF assms(1,2)])
  then have e: "e \<in> set es" "t div 2048 \<in> set (page_list e)"
      "e = In_Buddy (x div 2048) \<or> e = In_Pages (x div 2048) (l div 2048) \<and> x = x div 2048 * 2048 \<and> l = l div 2048 * 2048"
    using t(1) by blast+
  obtain e' where "e' \<in> set es" and in_e2: "\<forall>t\<in>{y..<y + m}. t div 2048 \<in> set (page_list e')"
      and "e' = In_Buddy (y div 2048) \<or> e' = In_Pages (y div 2048) (m div 2048) \<and> y = y div 2048 * 2048 \<and> m = m div 2048 * 2048"
    by (rule block_inside [OF assms(1,3)])
  then have e': "e' \<in> set es" "t div 2048 \<in> set (page_list e')"
      "e' = In_Buddy (y div 2048) \<or> e' = In_Pages (y div 2048) (m div 2048) \<and> y = y div 2048 * 2048 \<and> m = m div 2048 * 2048"
    using t(2) by blast+
  have ee: "e = e'" using entry_pages [OF ok e(1) e'(1) e(2) e'(2)] .
  consider "e = In_Buddy (x div 2048)" "y div 2048 = x div 2048" | "x = y" using e(3) e'(3) ee by (metis entry.distinct(1) entry.inject)
  then show False
  proof cases
    case 1
    let ?p = "x div 2048"
    have no: "\<not> (\<exists>p n. In_Pages p n \<in> set es \<and> (x = p * 2048 \<or> y = p * 2048))"
    proof
      assume "\<exists>p n. In_Pages p n \<in> set es \<and> (x = p * 2048 \<or> y = p * 2048)"
      then obtain n where r: "In_Pages ?p n \<in> set es" using 1(2) by auto
      then have "?p \<in> set (page_list (In_Pages ?p n))" using ok by (auto simp: entries_ok_def)
      then show False using entry_pages [OF ok r e(1)] 1(1) by auto
    qed
    obtain a n where a: "B ?p a = Some n" "x = ?p * 2048 + a * 16" "l = n * 16"
    proof -
      obtain p a n where p: "In_Buddy p \<in> set es" "B p a = Some n" "x = p * 2048 + a * 16" "l = n * 16"
        using assms(2) no by (auto simp: hblock_def)
      then have "a < 120" using rep_block [OF assms(1) p(1), of a] by fastforce
      then have "p = ?p" using p(3) by simp
      then show ?thesis using that p by simp
    qed
    obtain b k where b: "B ?p b = Some k" "y = ?p * 2048 + b * 16" "m = k * 16"
    proof -
      obtain p b k where p: "In_Buddy p \<in> set es" "B p b = Some k" "y = p * 2048 + b * 16" "m = k * 16"
        using assms(3) no by (auto simp: hblock_def)
      then have "b < 120" using rep_block [OF assms(1) p(1), of b] by fastforce
      then have "p = ?p" using p(3) 1(2) by simp
      then show ?thesis using that p by simp
    qed
    have "apart (B ?p)" using assms(1) e(1) 1(1) bp.live_apart by (auto simp: heap_rep_def)
    moreover have "a \<noteq> b" using a b assms(4) by auto
    ultimately have dj: "{a..<a + n} \<inter> {b..<b + k} = {}" using a(1) b(1) unfolding apart_def by blast
    let ?u = "(t - ?p * 2048) div 16"
    have "?u \<in> {a..<a + n}" "?u \<in> {b..<b + k}" using t a b by auto
    then show False using dj by blast
  qed (use assms(4) in simp)
qed

lemma live_apart: "heap_live N h A \<Longrightarrow> apart A"
  unfolding heap_live_def apart_def using hblock_apart by metis

lemma live_bounds: "heap_live N h A \<Longrightarrow> A x = Some l \<Longrightarrow> 0 < l \<and> x + l \<le> N * 2048"
  unfolding heap_live_def using block_inside by metis

section \<open>Allocating\<close>

lemma total_add: "finite (dom A) \<Longrightarrow> A x = None \<Longrightarrow> heap_total (A(x \<mapsto> l)) = heap_total A + l"
proof -
  assume f: "finite (dom A)" "A x = None"
  have "(\<Sum>a\<in>dom A. the ((A(x \<mapsto> l)) a)) = (\<Sum>a\<in>dom A. the (A a))" using f(2) by (intro sum.cong) auto
  then show ?thesis using f by (simp add: heap_total_def domIff)
qed

lemma total_minus: "finite (dom A) \<Longrightarrow> A x = Some l \<Longrightarrow> heap_total A = heap_total (A(x := None)) + l"
  using total_add [of "A(x := None)" x l] by (simp add: fun_upd_idem)

lemma live_finite: "heap_live N h A \<Longrightarrow> finite (dom A)"
proof -
  assume l: "heap_live N h A"
  have "dom A \<subseteq> {..<N * 2048}" using live_bounds [OF l] by fastforce
  then show ?thesis by (rule finite_subset) simp
qed

lemma success_fields:
  "sys_meminfo (fst (malloc_success sz need c pr (addr, real) h)) = (sys_meminfo h)\<lparr>alloc_size := alloc_size (sys_meminfo h) + word_of_int real,
     original_size := original_size (sys_meminfo h) + word_of_int ((sz + 3) div 4 * 4)\<rparr>"
  "pool (fst (malloc_success sz need c pr (addr, real) h)) = pool h" "ctrl (fst (malloc_success sz need c pr (addr, real) h)) = ctrl h"
  "snd (malloc_success sz need c pr (addr, real) h) = Malloc_Ptr addr"
  by (simp_all add: malloc_success_def Let_def)

lemma success_live:
  assumes "heap_rep N h es B" "\<forall>p. In_Buddy p \<in> set es \<longrightarrow> B p \<noteq> Map.empty"
    "\<And>y m. hblock es B y m \<longleftrightarrow> A y = Some m \<or> y = x \<and> m = l" "A x = None" "finite (dom A)"
    "alloc_size (sys_meminfo h) = of_nat (heap_total A)"
  shows "heap_live N (fst (malloc_success sz need c pr (addr, int l) h)) (A(x \<mapsto> l))" "fresh_block A x l"
proof -
  let ?h = "fst (malloc_success sz need c pr (addr, int l) h)"
  have "heap_rep N ?h es B" using assms(1) by (simp add: heap_rep_def success_fields)
  moreover have "(A(x \<mapsto> l)) y = Some m \<longleftrightarrow> hblock es B y m" for y m unfolding assms(3) using assms(4) by auto
  ultimately show "heap_live N ?h (A(x \<mapsto> l))"
    unfolding heap_live_def using assms(2,6) total_add [OF assms(5,4), of l] by (auto simp: success_fields)
  have "{x..<x + l} \<inter> {y..<y + m} = {}" if "A y = Some m" for y m
    using that assms(3,4) by (intro hblock_apart [OF assms(1)]) auto
  then show "fresh_block A x l" by (simp add: fresh_block_def)
qed

lemma no_block:
  assumes "heap_rep N h es B" "x div 2048 \<notin> set (owned es)"
  shows "\<not> hblock es B x l"
proof
  assume b: "hblock es B x l"
  obtain e where e: "e \<in> set es" "0 < l" "\<forall>t\<in>{x..<x + l}. t div 2048 \<in> set (page_list e)" by (rule block_inside [OF assms(1) b])
  then have "x div 2048 \<in> set (page_list e)" by simp
  then show False using e(1) assms(2) by (auto simp: owned_def)
qed

text \<open>The blocks after each of the three ways to serve a request.\<close>

lemma block_unique:
  assumes "entries_ok N es" "In_Buddy p \<in> set es" "In_Buddy q \<in> set es" "p * 2048 + a * 16 = q * 2048 + b * 16" "a < 120" "b < 120"
  shows "p = q \<and> a = b"
proof -
  have "(p * 2048 + a * 16) div 2048 = p" "(q * 2048 + b * 16) div 2048 = q" using assms(5,6) by auto
  then show ?thesis using assms(4) by simp
qed

lemma pages_not_buddy: "entries_ok N es \<Longrightarrow> In_Buddy p \<in> set es \<Longrightarrow> In_Pages p n \<notin> set es"
  using entry_pages [of N es "In_Buddy p" "In_Pages p n" p] by (auto simp: entries_ok_def)

lemma hblock_upd:
  assumes "entries_ok N es" "In_Buddy p \<in> set es" "B p a = None" "a < 120"
    "\<And>q b m. In_Buddy q \<in> set es \<Longrightarrow> B q b = Some m \<Longrightarrow> b < 120"
  shows "hblock es (B(p := (B p)(a \<mapsto> n))) y m \<longleftrightarrow> hblock es B y m \<or> y = p * 2048 + a * 16 \<and> m = n * 16" "\<not> hblock es B (p * 2048 + a * 16) m"
proof -
  show "\<not> hblock es B (p * 2048 + a * 16) m"
  proof
    assume "hblock es B (p * 2048 + a * 16) m"
    then consider q b k where "In_Buddy q \<in> set es" "B q b = Some k" "p * 2048 + a * 16 = q * 2048 + b * 16"
      | q k where "In_Pages q k \<in> set es" "p * 2048 + a * 16 = q * 2048" by (auto simp: hblock_def)
    then show False
    proof cases
      case 1
      then show False using block_unique [OF assms(1,2) 1(1,3) assms(4) assms(5) [OF 1(1,2)]] assms(3) by simp
    next
      case 2
      have "(p * 2048 + a * 16) div 2048 = p" using assms(4) by simp
      then have "q = p" using 2(2) by simp
      then show False using pages_not_buddy [OF assms(1,2)] 2(1) by blast
    qed
  qed
  have "(\<exists>q b k. In_Buddy q \<in> set es \<and> (B(p := (B p)(a \<mapsto> n))) q b = Some k \<and> y = q * 2048 + b * 16 \<and> m = k * 16) \<longleftrightarrow>
      (\<exists>q b k. In_Buddy q \<in> set es \<and> B q b = Some k \<and> y = q * 2048 + b * 16 \<and> m = k * 16) \<or> y = p * 2048 + a * 16 \<and> m = n * 16"
    (is "?L \<longleftrightarrow> ?R")
  proof
    assume ?L
    then show ?R by (auto split: if_splits)
  next
    assume ?R
    then show ?L
    proof
      assume "\<exists>q b k. In_Buddy q \<in> set es \<and> B q b = Some k \<and> y = q * 2048 + b * 16 \<and> m = k * 16"
      then obtain q b k where q: "In_Buddy q \<in> set es" "B q b = Some k" "y = q * 2048 + b * 16" "m = k * 16" by blast
      then have "(B(p := (B p)(a \<mapsto> n))) q b = Some k" using assms(3) by auto
      then show ?L using q by blast
    next
      assume "y = p * 2048 + a * 16 \<and> m = n * 16"
      moreover have "(B(p := (B p)(a \<mapsto> n))) p a = Some n" by simp
      ultimately show ?L using assms(2) by blast
    qed
  qed
  then show "hblock es (B(p := (B p)(a \<mapsto> n))) y m \<longleftrightarrow> hblock es B y m \<or> y = p * 2048 + a * 16 \<and> m = n * 16"
    unfolding hblock_def by blast
qed

lemma hblock_snoc_buddy:
  "In_Buddy p \<notin> set es \<Longrightarrow> hblock (es @ [In_Buddy p]) (B(p := [a \<mapsto> n])) y m \<longleftrightarrow> hblock es B y m \<or> y = p * 2048 + a * 16 \<and> m = n * 16"
proof -
  assume p: "In_Buddy p \<notin> set es"
  have *: "(In_Buddy q \<in> set (es @ [In_Buddy p]) \<and> (B(p := [a \<mapsto> n])) q b = Some k) \<longleftrightarrow>
      (In_Buddy q \<in> set es \<and> B q b = Some k) \<or> q = p \<and> b = a \<and> k = n" for q b k using p by auto
  have "In_Pages q k \<in> set (es @ [In_Buddy p]) \<longleftrightarrow> In_Pages q k \<in> set es" for q k by simp
  then show ?thesis unfolding hblock_def conj_assoc [symmetric] * by blast
qed

lemma hblock_snoc_pages: "hblock (es @ [In_Pages p n]) B y m \<longleftrightarrow> hblock es B y m \<or> y = p * 2048 \<and> m = n * 2048"
  unfolding hblock_def by auto

lemma buddy_alloc_spec:
  assumes "pagepool_size (pool h) = N" "p < N" "N \<le> 26" "page (ctrl h (of_nat p)) A (of_nat p)"
  shows "\<exists>h' r. buddy_alloc h (of_nat p) sz = Some (h', r) \<and> (case r of None \<Rightarrow> h' = h
    | Some (addr, real) \<Rightarrow> real = int (in_units (nat sz) * 16) \<and>
        (\<exists>a s'. addr = of_nat (p * 2048 + a * 16) \<and> run_ok a (in_units (nat sz)) \<and> fresh_block A a (in_units (nat sz)) \<and>
          h' = h\<lparr>ctrl := (ctrl h)(of_nat p := s')\<rparr> \<and> page s' (A(a \<mapsto> in_units (nat sz))) (of_nat p)))"
proof -
  have c: "ctrl_of h (of_nat p) = Some (ctrl h (of_nat p))" using assms(1-3) unat_index [of p] by (simp add: ctrl_of_def)
  have ad: "pagepool_convert_index_to_addr (of_nat p) + of_nat (a * 16) = of_nat (p * 2048 + a * 16)" for a
    using index_addr(2) [of p] assms(2,3) by simp
  obtain s' r where r: "rom_buddy_alloc (of_nat p) sz (ctrl h (of_nat p)) = Some (s', r)" "case r of None \<Rightarrow> s' = ctrl h (of_nat p)
    | Some (addr, real) \<Rightarrow> 0 < sz \<and> sz \<le> 1920 \<and> real = int (in_units (nat sz) * 16) \<and>
        (\<exists>a. addr = a * 16 \<and> run_ok a (in_units (nat sz)) \<and> fresh_block A a (in_units (nat sz)) \<and>
          page s' (A(a \<mapsto> in_units (nat sz))) (of_nat p))"
    using buddy_alloc_page [OF assms(4), of sz] by blast
  show ?thesis
  proof (cases r)
    case None
    then show ?thesis using r c by (simp add: buddy_alloc_def)
  next
    case (Some t)
    obtain addr real where t: "t = (addr, real)" by (cases t)
    then obtain a where a: "real = int (in_units (nat sz) * 16)" "addr = a * 16" "run_ok a (in_units (nat sz))"
        "fresh_block A a (in_units (nat sz))" "page s' (A(a \<mapsto> in_units (nat sz))) (of_nat p)"
      using r(2) Some by auto
    have "buddy_alloc h (of_nat p) sz = Some (h\<lparr>ctrl := (ctrl h)(of_nat p := s')\<rparr>, Some (of_nat (p * 2048 + a * 16), real))"
      using c r(1) Some t a(2) ad [of a] by (simp add: buddy_alloc_def)
    then show ?thesis using a by auto
  qed
qed

lemma try_buddys_spec:
  assumes "pagepool_size (pool h) = N" "N \<le> 26" "\<And>e. e \<in> set es \<Longrightarrow> small e"
    "\<And>p. In_Buddy p \<in> set es \<Longrightarrow> p < N \<and> page (ctrl h (of_nat p)) (B p) (of_nat p)"
  shows "\<exists>h' r. try_buddys h sz (encode es @ replicate k (- 1)) = Some (h', r) \<and> (case r of None \<Rightarrow> h' = h
    | Some (addr, real) \<Rightarrow> real = int (in_units (nat sz) * 16) \<and>
        (\<exists>p a s'. In_Buddy p \<in> set es \<and> addr = of_nat (p * 2048 + a * 16) \<and> run_ok a (in_units (nat sz)) \<and> fresh_block (B p) a (in_units (nat sz)) \<and>
          h' = h\<lparr>ctrl := (ctrl h)(of_nat p := s')\<rparr> \<and> page s' ((B p)(a \<mapsto> in_units (nat sz))) (of_nat p)))"
  using assms(3,4)
proof (induction es)
  case Nil
  then show ?case by (cases k) simp_all
next
  case (Cons e es)
  note IH = Cons.IH [OF Cons.prems(1,2)]
  show ?case
  proof (cases e)
    case (In_Pages p n)
    then have s: "p < 63" "n < 63" using Cons.prems(1) [of e] by (auto simp: small_def)
    have "try_buddys h sz (enc e @ zs) = try_buddys h sz zs" for zs
      using In_Pages byte_facts [OF s(1)] byte_facts [OF s(2)] by simp
    then show ?thesis using IH by (fastforce split: option.splits)
  next
    case (In_Buddy p)
    then have s: "p < 63" "p < N" "page (ctrl h (of_nat p)) (B p) (of_nat p)" using Cons.prems(1) [of e] Cons.prems(2) [of p] by (auto simp: small_def)
    obtain h' r where r: "buddy_alloc h (of_nat p) sz = Some (h', r)" "case r of None \<Rightarrow> h' = h
      | Some (addr, real) \<Rightarrow> real = int (in_units (nat sz) * 16) \<and>
        (\<exists>a s'. addr = of_nat (p * 2048 + a * 16) \<and> run_ok a (in_units (nat sz)) \<and> fresh_block (B p) a (in_units (nat sz)) \<and>
          h' = h\<lparr>ctrl := (ctrl h)(of_nat p := s')\<rparr> \<and> page s' ((B p)(a \<mapsto> in_units (nat sz))) (of_nat p))"
      using buddy_alloc_spec [OF assms(1) s(2) assms(2) s(3)] by blast
    show ?thesis
    proof (cases r)
      case None
      then have "try_buddys h sz (enc e @ zs) = try_buddys h sz zs" for zs using In_Buddy byte_facts [OF s(1)] r by simp
      then show ?thesis using IH by (fastforce split: option.splits)
    next
      case (Some t)
      obtain addr real where t: "t = (addr, real)" by (cases t)
      then obtain a s' where a: "real = int (in_units (nat sz) * 16)" "addr = of_nat (p * 2048 + a * 16)" "run_ok a (in_units (nat sz))"
          "fresh_block (B p) a (in_units (nat sz))" "h' = h\<lparr>ctrl := (ctrl h)(of_nat p := s')\<rparr>" "page s' ((B p)(a \<mapsto> in_units (nat sz))) (of_nat p)"
        using r(2) Some by auto
      have ex: "\<exists>p a s'. In_Buddy p \<in> set (e # es) \<and> addr = of_nat (p * 2048 + a * 16) \<and> run_ok a (in_units (nat sz)) \<and> fresh_block (B p) a (in_units (nat sz)) \<and>
          h' = h\<lparr>ctrl := (ctrl h)(of_nat p := s')\<rparr> \<and> page s' ((B p)(a \<mapsto> in_units (nat sz))) (of_nat p)"
        by (intro exI [of _ p] exI [of _ a] exI [of _ s'] conjI) (use a In_Buddy in simp_all)
      have "try_buddys h sz (encode (e # es) @ replicate k (- 1)) = Some (h', Some (addr, real))"
        using In_Buddy byte_facts [OF s(1)] r(1) Some t by simp
      then show ?thesis using a(1) ex by (intro exI [of _ h'] exI [of _ "Some (addr, real)"] conjI) (simp_all only: option.case prod.case)
    qed
  qed
qed

lemma size_to_page:
  assumes "0 \<le> sz" "sz < 2 ^ 31"
  shows "unat (SIZE2PAGE (word_of_int sz)) = (nat sz + 2047) div 2048"
proof -
  have "word_of_int sz = (of_nat (nat sz) :: u32)" using assms(1) by (simp only: of_nat_nat)
  then have e: "word_of_int sz + 2048 - 1 = (of_nat (nat sz + 2047) :: u32)" by simp
  have "unat (of_nat (nat sz + 2047) :: u32) = nat sz + 2047" using assms by (intro unat_of_nat_u32) simp
  then have "unat (of_nat (nat sz + 2047) div 2 ^ 11 :: u32) = (nat sz + 2047) div unat (2 ^ 11 :: u32)" by (simp only: unat_div)
  then show ?thesis unfolding SIZE2PAGE_def e drop_bit_eq_div by simp
qed

text \<open>A new entry behind the others.\<close>

lemma rep_size:
  assumes "heap_rep N h es B"
  shows "length (encode es) \<le> 26" "buddys (sys_meminfo h) ! 26 = - 1" "buddys (sys_meminfo h) ! 27 = - 1"
    "unused_index (buddys (sys_meminfo h)) = length (encode es)" "length (buddys (sys_meminfo h)) = 28"
    "pagepool_size (pool h) = N" "N \<le> 26" "\<And>e. e \<in> set es \<Longrightarrow> small e"
proof -
  have ok: "entries_ok N es" and b: "buddys (sys_meminfo h) = encode es @ replicate (28 - length (encode es)) (- 1)"
    and pi: "pool_inv (pool h) N ({..<N} - set (owned es))" using assms by (simp_all add: heap_rep_def)
  show N: "N \<le> 26" using ok by (simp add: entries_ok_def)
  show l: "length (encode es) \<le> 26" using encode_length [OF ok] N by simp
  show "buddys (sys_meminfo h) ! 26 = - 1" "buddys (sys_meminfo h) ! 27 = - 1" using l unfolding b by (simp_all add: nth_append)
  show sm: "small e" if "e \<in> set es" for e using entries_small [OF ok that] by simp
  show "unused_index (buddys (sys_meminfo h)) = length (encode es)" unfolding b using sm l by (intro unused_encode) simp_all
  show "length (buddys (sys_meminfo h)) = 28" unfolding b using l by simp
  show "pagepool_size (pool h) = N" using pi by (simp add: pool_inv_def pagepool_size_def)
qed

lemma replicate_update: "0 < k \<Longrightarrow> (us @ replicate k z)[length us := b] = us @ b # replicate (k - 1) z"
  by (cases k) (simp_all add: list_update_append)

lemma snoc_ok:
  assumes "entries_ok N es" "page_list e \<noteq> []" "set (page_list e) \<subseteq> {..<N} - set (owned es)"
  shows "entries_ok N (es @ [e])"
  using assms by (cases e) (auto simp: entries_ok_def)

definition block_size :: "nat \<Rightarrow> nat" where
  "block_size n = (if n \<le> 1920 then in_units n * 16 else (n + 2047) div 2048 * 2048)"

definition pages_needed :: "nat \<Rightarrow> nat" where
  "pages_needed n = (if n \<le> 1920 then 1 else (n + 2047) div 2048)"

definition free_page :: "blocks \<Rightarrow> nat \<Rightarrow> bool" where
  "free_page A q \<longleftrightarrow> {q * 2048..<q * 2048 + 2048} \<inter> cells A = {}"

lemma owned_free:
  assumes "heap_rep N h es B" "\<forall>p. In_Buddy p \<in> set es \<longrightarrow> B p \<noteq> Map.empty" "\<And>x l. A x = Some l \<longleftrightarrow> hblock es B x l"
  shows "free_page A q \<longleftrightarrow> q \<notin> set (owned es)"
proof
  assume f: "free_page A q"
  show "q \<notin> set (owned es)"
  proof
    assume "q \<in> set (owned es)"
    then obtain e where e: "e \<in> set es" "q \<in> set (page_list e)" by (auto simp: owned_def)
    have "\<exists>t\<in>cells A. t div 2048 = q"
    proof (cases e)
      case (In_Buddy p)
      then obtain a n where a: "B q a = Some n" using e assms(2) by (auto simp: fun_eq_iff)
      then have n: "0 < n" "a + n \<le> 120" using rep_block [OF assms(1), of q a n] e In_Buddy by simp_all
      have "A (q * 2048 + a * 16) = Some (n * 16)" unfolding assms(3) hblock_def using a e In_Buddy by auto
      then have "q * 2048 + a * 16 \<in> cells A" using cells_start [of A "q * 2048 + a * 16" "n * 16"] n(1) by simp
      moreover have "(q * 2048 + a * 16) div 2048 = q" using n by simp
      ultimately show ?thesis by blast
    next
      case (In_Pages p n)
      have "A (p * 2048) = Some (n * 2048)" unfolding assms(3) hblock_def using e(1) In_Pages by blast
      then have "{p * 2048..<p * 2048 + n * 2048} \<subseteq> cells A" by (rule cells_block)
      moreover have "q * 2048 \<in> {p * 2048..<p * 2048 + n * 2048}" using e(2) In_Pages by auto
      ultimately show ?thesis by (intro bexI [of _ "q * 2048"]) auto
    qed
    then obtain t where t: "t \<in> cells A" "t div 2048 = q" by blast
    then have "t \<in> {q * 2048..<q * 2048 + 2048}" by auto
    then show False using f t(1) by (auto simp: free_page_def)
  qed
next
  assume q: "q \<notin> set (owned es)"
  have "t div 2048 \<in> set (owned es)" if "t \<in> cells A" for t
  proof -
    from that obtain x l where x: "A x = Some l" "t \<in> {x..<x + l}" by (auto simp: cells_def)
    obtain e where "e \<in> set es" "\<forall>t\<in>{x..<x + l}. t div 2048 \<in> set (page_list e)"
      using block_inside [OF assms(1), of x l] x(1) assms(3) by metis
    then show ?thesis using x(2) by (auto simp: owned_def)
  qed
  moreover have "t div 2048 = q" if "t \<in> {q * 2048..<q * 2048 + 2048}" for t using that by auto
  ultimately show "free_page A q" using q unfolding free_page_def by blast
qed

text \<open>What a request of \<open>sz\<close> bytes may do.\<close>

definition malloc_post :: "nat \<Rightarrow> heap \<Rightarrow> blocks \<Rightarrow> int \<Rightarrow> int \<Rightarrow> u32 \<Rightarrow> u32 \<Rightarrow> (heap \<times> malloc_result) option \<Rightarrow> bool" where
  "malloc_post N h A sz need c pr res \<longleftrightarrow>
     (\<exists>h1 x. res = Some (malloc_success sz need c pr (of_nat x, int (block_size (nat sz))) h1) \<and> bytes h1 = bytes h \<and>
        fresh_block A x (block_size (nat sz)) \<and> original_size (sys_meminfo h1) = original_size (sys_meminfo h) \<and>
        heap_live N (fst (malloc_success sz need c pr (of_nat x, int (block_size (nat sz))) h1)) (A(x \<mapsto> block_size (nat sz)))) \<or>
     (\<exists>k. res = Some (h, Malloc_Panic k) \<and> k = (if sz \<le> 1920 then 5 else 2) \<and>
        (\<forall>q. q + pages_needed (nat sz) \<le> N \<longrightarrow> (\<exists>i\<in>{q..<q + pages_needed (nat sz)}. \<not> free_page A i)))"

lemma set_buddy_next:
  assumes "heap_rep N h es B" "buddys (sys_meminfo h') = buddys (sys_meminfo h) "
  shows "set_buddy h' (length (encode es)) b = Some (h'\<lparr>sys_meminfo := (sys_meminfo h')\<lparr>buddys :=
    encode es @ b # replicate (27 - length (encode es)) (- 1)\<rparr>\<rparr>)"
proof -
  note s = rep_size [OF assms(1)]
  have "buddys (sys_meminfo h') = encode es @ replicate (28 - length (encode es)) (- 1)" using assms by (simp add: heap_rep_def)
  then have "(buddys (sys_meminfo h'))[length (encode es) := b] = encode es @ b # replicate (27 - length (encode es)) (- 1)"
    using replicate_update [of "28 - length (encode es)" "encode es" "- 1" b] s(1) by simp
  then show ?thesis using s(1,5) assms(2) by (simp add: set_buddy_def)
qed

lemma malloc_pages_post:
  assumes "heap_live N h A" "1920 < sz" "sz < 2 ^ 31"
  shows "malloc_post N h A sz need c pr (malloc_pages sz need c pr h)"
proof -
  obtain es B where rep: "heap_rep N h es B" and ne: "\<forall>p. In_Buddy p \<in> set es \<longrightarrow> B p \<noteq> Map.empty"
    and A: "\<And>x l. A x = Some l \<longleftrightarrow> hblock es B x l" and al: "alloc_size (sys_meminfo h) = of_nat (heap_total A)"
    using assms(1) by (auto simp: heap_live_def)
  note s = rep_size [OF rep]
  let ?F = "{..<N} - set (owned es)"
  have ok: "entries_ok N es" and pi: "pool_inv (pool h) N ?F" using rep by (simp_all add: heap_rep_def)
  define n where "n = (nat sz + 2047) div 2048"
  have pn: "unat (SIZE2PAGE (word_of_int sz)) = n" unfolding n_def using assms(2,3) by (intro size_to_page) simp_all
  have "\<not> nat sz \<le> 1920" using assms(2) by linarith
  then have n: "0 < n" "pages_needed (nat sz) = n" "block_size (nat sz) = n * 2048" by (simp_all add: n_def pages_needed_def block_size_def)
  obtain st' r where r: "rom_pagepool_alloc_pages n (pool h) = Some (st', r)"
      "case r of None \<Rightarrow> st' = pool h \<and> (0 < n \<longrightarrow> (\<forall>i. \<not> {i..<i + n} \<subseteq> ?F))
       | Some addr \<Rightarrow> 0 < n \<and> (\<exists>i. addr = of_nat (i * 2048) \<and> {i..<i + n} \<subseteq> ?F \<and> pool_inv st' N (?F - {i..<i + n}))"
    using alloc_pages_inv [OF pi, of n] by blast
  show ?thesis
  proof (cases r)
    case None
    have "\<exists>i\<in>{q..<q + n}. \<not> free_page A i" if "q + n \<le> N" for q
    proof -
      have "\<not> {q..<q + n} \<subseteq> ?F" using r(2) None n(1) by simp
      then obtain i where "i \<in> {q..<q + n}" "i \<notin> ?F" by blast
      then show ?thesis using that owned_free [OF rep ne A, of i] by auto
    qed
    moreover have "malloc_pages sz need c pr h = Some (h, Malloc_Panic 2)"
      using None r s(2) by (simp add: malloc_pages_def pmalloc_def pn Let_def)
    ultimately show ?thesis unfolding malloc_post_def n(2) using assms(2) by simp
  next
    case (Some addr)
    then obtain i where i: "addr = of_nat (i * 2048)" "{i..<i + n} \<subseteq> ?F" "pool_inv st' N (?F - {i..<i + n})" using r(2) by auto
    have "i \<in> {i..<i + n}" using n(1) by simp
    then have iF: "i \<in> ?F" using i(2) by blast
    then have i26: "i < 127" using s(7) by auto
    have ix: "pagepool_convert_addr_to_pageindex addr = of_nat i"
      using index_addr(1) [OF i26] i(1) unat_index [of i] i26 by (intro word_unat_eq_iff [THEN iffD2]) simp
    let ?es = "es @ [In_Pages i n]"
    have ok': "entries_ok N ?es" using i(2) n(1) by (intro snoc_ok [OF ok]) auto
    let ?h1 = "h\<lparr>pool := st'\<rparr>"
    define h3 where "h3 = ?h1\<lparr>sys_meminfo := (sys_meminfo h)\<lparr>buddys := encode ?es @ replicate (28 - length (encode ?es)) (- 1)\<rparr>\<rparr>"
    obtain h2 where h2: "set_buddy ?h1 (length (encode es)) (of_nat i OR 0x80) = Some h2"
        "(if 1 < n then set_buddy h2 (length (encode es) + 1) (of_nat n OR 0xc0) else Some h2) = Some h3"
    proof -
      let ?h2 = "?h1\<lparr>sys_meminfo := (sys_meminfo ?h1)\<lparr>buddys := encode es @ (of_nat i OR 0x80) # replicate (27 - length (encode es)) (- 1)\<rparr>\<rparr>"
      have a: "set_buddy ?h1 (length (encode es)) (of_nat i OR 0x80) = Some ?h2" using set_buddy_next [OF rep, of ?h1] by simp
      have "(if 1 < n then set_buddy ?h2 (length (encode es) + 1) (of_nat n OR 0xc0) else Some ?h2) = Some h3"
      proof (cases "1 < n")
        case True
        have "(encode es @ (of_nat i OR 0x80) # replicate (27 - length (encode es)) (- 1))[length (encode es) + 1 := of_nat n OR 0xc0] =
            encode ?es @ replicate (28 - length (encode ?es)) (- 1)"
          using replicate_update [of "27 - length (encode es)" "encode es @ [of_nat i OR 0x80]" "- 1" "of_nat n OR 0xc0"] s(1) True by simp
        then show ?thesis using True s(1) by (simp add: set_buddy_def h3_def)
      next
        case False
        then show ?thesis by (simp add: h3_def)
      qed
      then show ?thesis using that a by blast
    qed
    have rep': "heap_rep N h3 ?es B"
    proof -
      have "?F - {i..<i + n} = {..<N} - set (owned ?es)" by auto
      then show ?thesis using rep ok' i(3) by (auto simp: heap_rep_def h3_def)
    qed
    have none: "A (i * 2048) = None" using A no_block [OF rep, of "i * 2048"] iF by (cases "A (i * 2048)") auto
    have new: "hblock ?es B y m \<longleftrightarrow> A y = Some m \<or> y = i * 2048 \<and> m = n * 2048" for y m unfolding hblock_snoc_pages A ..
    have ne': "\<forall>p. In_Buddy p \<in> set ?es \<longrightarrow> B p \<noteq> Map.empty" using ne by simp
    have al': "alloc_size (sys_meminfo h3) = of_nat (heap_total A)" using al by (simp add: h3_def)
    note live = success_live(1) [OF rep' ne' new none live_finite [OF assms(1)] al', of sz need c pr addr]
      success_live(2) [OF rep' ne' new none live_finite [OF assms(1)] al']
    have "malloc_pages sz need c pr h = Some (malloc_success sz need c pr (addr, int (n * 2048)) h3)"
      unfolding malloc_pages_def pmalloc_def pn Let_def using r(1) Some s(2,4) h2 ix by (simp split: if_splits)
    moreover have "bytes h3 = bytes h" "original_size (sys_meminfo h3) = original_size (sys_meminfo h)" by (simp_all add: h3_def)
    ultimately show ?thesis unfolding malloc_post_def n(3) using live unfolding i(1) by blast
  qed
qed

lemma malloc_new_post:
  assumes "heap_live N h A" "0 < sz" "sz \<le> 1920"
  shows "malloc_post N h A sz need c pr (malloc_new_buddy sz need c pr h)"
proof -
  obtain es B where rep: "heap_rep N h es B" and ne: "\<forall>p. In_Buddy p \<in> set es \<longrightarrow> B p \<noteq> Map.empty"
    and A: "\<And>x l. A x = Some l \<longleftrightarrow> hblock es B x l" and al: "alloc_size (sys_meminfo h) = of_nat (heap_total A)"
    using assms(1) by (auto simp: heap_live_def)
  note s = rep_size [OF rep]
  let ?F = "{..<N} - set (owned es)" and ?n = "in_units (nat sz)"
  have ok: "entries_ok N es" and pi: "pool_inv (pool h) N ?F" using rep by (simp_all add: heap_rep_def)
  have "nat sz \<le> 1920" using assms(3) by linarith
  then have n: "pages_needed (nat sz) = 1" "block_size (nat sz) = ?n * 16" by (simp_all add: pages_needed_def block_size_def)
  have pn: "pmalloc (of_nat 2048) (pool h) = rom_pagepool_alloc_pages 1 (pool h)"
    using size_to_page [of 2048] by (simp add: pmalloc_def)
  obtain st' r where r: "rom_pagepool_alloc_pages 1 (pool h) = Some (st', r)"
      "case r of None \<Rightarrow> st' = pool h \<and> (0 < (1 :: nat) \<longrightarrow> (\<forall>i. \<not> {i..<i + 1} \<subseteq> ?F))
       | Some addr \<Rightarrow> 0 < (1 :: nat) \<and> (\<exists>i. addr = of_nat (i * 2048) \<and> {i..<i + 1} \<subseteq> ?F \<and> pool_inv st' N (?F - {i..<i + 1}))"
    using alloc_pages_inv [OF pi, of 1] by blast
  show ?thesis
  proof (cases r)
    case None
    have "\<not> free_page A q" if "q < N" for q using r(2) None that owned_free [OF rep ne A, of q] by auto
    moreover have "malloc_new_buddy sz need c pr h = Some (h, Malloc_Panic 5)"
      using None r s(3) pn by (simp add: malloc_new_buddy_def Let_def)
    ultimately show ?thesis unfolding malloc_post_def n(1) using assms(3) by simp
  next
    case (Some addr)
    then obtain i where i: "addr = of_nat (i * 2048)" "{i} \<subseteq> ?F" "pool_inv st' N (?F - {i})" using r(2) by auto
    have i26: "i < 127" "i < N" using i(2) s(7) by auto
    have ix: "pagepool_convert_addr_to_pageindex addr = of_nat i"
      using index_addr(1) [OF i26(1)] i(1) unat_index [of i] i26 by (intro word_unat_eq_iff [THEN iffD2]) simp
    let ?h2 = "h\<lparr>pool := st', ctrl := (ctrl h)(of_nat i := rom_new_buddy_no (of_nat i))\<rparr>"
    have sz': "pagepool_size (pool ?h2) = N" using i(3) by (simp add: pool_inv_def pagepool_size_def)
    have pg: "page (ctrl ?h2 (of_nat i)) Map.empty (of_nat i)" by (simp add: page_fresh)
    obtain h3 t where t: "buddy_alloc ?h2 (of_nat i) sz = Some (h3, t)" "case t of None \<Rightarrow> h3 = ?h2
      | Some (addr, real) \<Rightarrow> real = int (?n * 16) \<and>
        (\<exists>a s'. addr = of_nat (i * 2048 + a * 16) \<and> run_ok a ?n \<and> fresh_block Map.empty a ?n \<and>
          h3 = ?h2\<lparr>ctrl := (ctrl ?h2)(of_nat i := s')\<rparr> \<and> page s' (Map.empty(a \<mapsto> ?n)) (of_nat i))"
      using buddy_alloc_spec [OF sz' i26(2) s(7) pg, of sz] by blast
    have "t \<noteq> None" using fresh_alloc [OF assms(2,3), of "of_nat i"] t(1) i26 unat_index [of i] sz'
      by (auto simp: buddy_alloc_def ctrl_of_def)
    then obtain a s' where a: "t = Some (of_nat (i * 2048 + a * 16), int (?n * 16))" "run_ok a ?n"
        "h3 = ?h2\<lparr>ctrl := (ctrl ?h2)(of_nat i := s')\<rparr>" "page s' [a \<mapsto> ?n] (of_nat i)"
      using t(2) by (cases t) auto
    let ?es = "es @ [In_Buddy i]" and ?B = "B(i := [a \<mapsto> ?n])"
    have ok': "entries_ok N ?es" using i(2) by (intro snoc_ok [OF ok]) auto
    define h4 where "h4 = h3\<lparr>sys_meminfo := (sys_meminfo h)\<lparr>buddys := encode ?es @ replicate (28 - length (encode ?es)) (- 1)\<rparr>\<rparr>"
    have h4: "set_buddy h3 (length (encode es)) (of_nat i) = Some h4"
      using set_buddy_next [OF rep, of h3] a(3) s(1) by (simp add: h4_def)
    have other: "p \<noteq> i" "(of_nat p :: u8) \<noteq> of_nat i" if "In_Buddy p \<in> set es" for p
    proof -
      have p: "p \<in> set (owned es)" "p < N" using that entries_small [OF ok that] by (force simp: owned_def)+
      then show "p \<noteq> i" using i(2) by auto
      then show "(of_nat p :: u8) \<noteq> of_nat i" using index_eq [of p i] p(2) i26 s(7) by simp
    qed
    have rep': "heap_rep N h4 ?es ?B"
    proof -
      have "?F - {i} = {..<N} - set (owned ?es)" by auto
      moreover have "page (ctrl h4 (of_nat p)) (?B p) (of_nat p)" if "In_Buddy p \<in> set ?es" for p
        using that rep other [of p] a(3,4) by (auto simp: heap_rep_def h4_def)
      ultimately show ?thesis using ok' i(3) a(3) by (simp add: heap_rep_def h4_def)
    qed
    have a120: "a < 120" using a(2) by (auto simp: run_ok_def)
    then have "(i * 2048 + a * 16) div 2048 = i" by simp
    then have none: "A (i * 2048 + a * 16) = None" using A no_block [OF rep, of "i * 2048 + a * 16"] i(2) by (cases "A (i * 2048 + a * 16)") auto
    have "In_Buddy i \<notin> set es" using other by blast
    then have new: "hblock ?es ?B y m \<longleftrightarrow> A y = Some m \<or> y = i * 2048 + a * 16 \<and> m = ?n * 16" for y m using A hblock_snoc_buddy by simp
    have ne': "\<forall>p. In_Buddy p \<in> set ?es \<longrightarrow> ?B p \<noteq> Map.empty" using ne by auto
    have al': "alloc_size (sys_meminfo h4) = of_nat (heap_total A)" using al by (simp add: h4_def)
    note live = success_live(1) [OF rep' ne' new none live_finite [OF assms(1)] al', of sz need c pr "of_nat (i * 2048 + a * 16)"]
      success_live(2) [OF rep' ne' new none live_finite [OF assms(1)] al']
    have "malloc_new_buddy sz need c pr h = Some (malloc_success sz need c pr (of_nat (i * 2048 + a * 16), int (?n * 16)) h4)"
      unfolding malloc_new_buddy_def pn Let_def using r(1) Some s(3,4) h4 ix t(1) a(1,3) by simp
    moreover have "bytes h4 = bytes h" "original_size (sys_meminfo h4) = original_size (sys_meminfo h)" using a(3) by (simp_all add: h4_def)
    ultimately show ?thesis unfolding malloc_post_def n(2) using live by blast
  qed
qed

lemma malloc_page_post:
  assumes "heap_live N h A" "0 < sz" "sz \<le> 1920" "try_buddys h sz (buddys (sys_meminfo h)) = Some (h1, Some p)"
  shows "malloc_post N h A sz need c pr (Some (malloc_success sz need c pr p h1))"
proof -
  obtain es B where rep: "heap_rep N h es B" and ne: "\<forall>p. In_Buddy p \<in> set es \<longrightarrow> B p \<noteq> Map.empty"
    and A: "\<And>x l. A x = Some l \<longleftrightarrow> hblock es B x l" and al: "alloc_size (sys_meminfo h) = of_nat (heap_total A)"
    using assms(1) by (auto simp: heap_live_def)
  note s = rep_size [OF rep]
  let ?n = "in_units (nat sz)"
  have ok: "entries_ok N es" and b: "buddys (sys_meminfo h) = encode es @ replicate (28 - length (encode es)) (- 1)"
    using rep by (simp_all add: heap_rep_def)
  have "nat sz \<le> 1920" using assms(3) by linarith
  then have n: "block_size (nat sz) = ?n * 16" by (simp add: block_size_def)
  have pages: "q < N \<and> page (ctrl h (of_nat q)) (B q) (of_nat q)" if "In_Buddy q \<in> set es" for q
    using rep that entries_small [OF ok that] by (simp add: heap_rep_def)
  obtain q a s' where q: "p = (of_nat (q * 2048 + a * 16), int (?n * 16))" "In_Buddy q \<in> set es" "run_ok a ?n" "fresh_block (B q) a ?n"
      "h1 = h\<lparr>ctrl := (ctrl h)(of_nat q := s')\<rparr>" "page s' ((B q)(a \<mapsto> ?n)) (of_nat q)"
    using try_buddys_spec [OF s(6,7,8) pages, of es sz "28 - length (encode es)"] assms(4) unfolding b by (cases p) auto
  let ?B = "B(q := (B q)(a \<mapsto> ?n))"
  have bn: "B q a = None" using bp.fresh_new [OF conjunct2 [OF pages [OF q(2)]], of "nat sz" a] assms(2) q(4) by simp
  have other: "(of_nat r :: u8) \<noteq> of_nat q" if "In_Buddy r \<in> set es" "r \<noteq> q" for r
    using index_eq [of r q] pages [OF that(1)] pages [OF q(2)] s(7) that(2) by simp
  have rep': "heap_rep N h1 es ?B"
    using rep q(5,6) other by (auto simp: heap_rep_def)
  have a120: "a < 120" using q(3) by (auto simp: run_ok_def)
  have lt: "d < 120" if "In_Buddy r \<in> set es" "B r d = Some m" for r d m using rep_block [OF rep that] by simp
  note up = hblock_upd [of N es q B a, OF ok q(2) bn a120 lt]
  have new: "hblock es ?B y m \<longleftrightarrow> A y = Some m \<or> y = q * 2048 + a * 16 \<and> m = ?n * 16" for y m using A up(1) by simp
  have none: "A (q * 2048 + a * 16) = None" using A up(2) by (cases "A (q * 2048 + a * 16)") auto
  have ne': "\<forall>p. In_Buddy p \<in> set es \<longrightarrow> ?B p \<noteq> Map.empty" using ne by auto
  have al': "alloc_size (sys_meminfo h1) = of_nat (heap_total A)" using al q(5) by simp
  note live = success_live(1) [OF rep' ne' new none live_finite [OF assms(1)] al', of sz need c pr "of_nat (q * 2048 + a * 16)"]
    success_live(2) [OF rep' ne' new none live_finite [OF assms(1)] al']
  moreover have "bytes h1 = bytes h" "original_size (sys_meminfo h1) = original_size (sys_meminfo h)" using q(5) by simp_all
  ultimately show ?thesis unfolding malloc_post_def n(1) q(1) by blast
qed

lemma malloc_buddy_post:
  assumes "heap_live N h A" "0 < sz" "sz < 2 ^ 31"
  shows "malloc_post N h A sz need c pr (mem_buddy_malloc sz need c pr h)"
proof (cases "1920 < sz")
  case True
  then show ?thesis using malloc_pages_post [OF assms(1) True assms(3), of need c pr] by (simp add: mem_buddy_malloc_def get_buddy_max_def)
next
  case False
  obtain es B where rep: "heap_rep N h es B" using assms(1) by (auto simp: heap_live_def)
  note s = rep_size [OF rep]
  have b: "buddys (sys_meminfo h) = encode es @ replicate (28 - length (encode es)) (- 1)" and ok: "entries_ok N es"
    using rep by (simp_all add: heap_rep_def)
  have pages: "q < N \<and> page (ctrl h (of_nat q)) (B q) (of_nat q)" if "In_Buddy q \<in> set es" for q
    using rep that entries_small [OF ok that] by (simp add: heap_rep_def)
  obtain h1 r where r: "try_buddys h sz (buddys (sys_meminfo h)) = Some (h1, r)" "r = None \<Longrightarrow> h1 = h"
    using try_buddys_spec [OF s(6,7,8) pages, of es sz "28 - length (encode es)"] unfolding b by (auto split: option.splits)
  show ?thesis
  proof (cases r)
    case None
    then show ?thesis using malloc_new_post [OF assms(1,2), of need c pr] r False assms(2)
      by (simp add: mem_buddy_malloc_def get_buddy_max_def)
  next
    case (Some p)
    then show ?thesis using malloc_page_post [OF assms(1,2), of h1 p need c pr] r(1) False assms(2)
      by (simp add: mem_buddy_malloc_def get_buddy_max_def)
  qed
qed

section \<open>Control blocks in the memory\<close>

text \<open>A write of bytes leaves the other bytes of the pool.\<close>

lemma offset_u32: "x < 65536 \<Longrightarrow> t < 65536 \<Longrightarrow> unat (of_nat t - of_nat x :: u32) = (if x \<le> t then t - x else 4294967296 + t - x)"
proof -
  assume xt: "x < 65536" "t < 65536"
  then have u: "unat (of_nat x :: u32) = x" "unat (of_nat t :: u32) = t" by (auto intro: unat_of_nat_u32)
  show ?thesis
  proof (cases "x \<le> t")
    case True
    then show ?thesis using u by (simp add: unat_sub_u32)
  next
    case False
    have "of_nat (4294967296 + t - x) = (of_nat (4294967296 + t) :: u32) - of_nat x" using xt by (intro of_nat_diff) simp
    also have "\<dots> = of_nat t - of_nat x" by simp
    finally have "of_nat t - of_nat x = (of_nat (4294967296 + t - x) :: u32)" by simp
    moreover have "unat (of_nat (4294967296 + t - x) :: u32) = 4294967296 + t - x" using xt False by (intro unat_of_nat_u32) simp
    ultimately show ?thesis using False by simp
  qed
qed

lemma write_outside:
  assumes "x < 65536" "t < 65536" "length bs \<le> 65536" "t \<notin> {x..<x + length bs}"
  shows "mem_write m (of_nat x) bs (of_nat t) = m (of_nat t)"
  using offset_u32 [OF assms(1,2)] assms by (auto simp: mem_write_def)

lemma index_low:
  assumes "p < 128"
  shows "(of_nat p :: u8) AND 0x80 = 0" "of_nat p = (of_nat q :: u8) \<Longrightarrow> q < 128 \<Longrightarrow> p = q"
proof -
  have u: "unat (of_nat p :: u8) = p" if "p < 128" for p using that by (simp add: unsigned_of_nat take_bit_eq_mod)
  have "\<not> bit (unat (of_nat p :: u8)) 7" unfolding u [OF assms] using assms by (simp add: bit_iff_odd)
  then have "\<not> bit (of_nat p :: u8) 7" by (simp add: bit_unsigned_iff)
  then show "(of_nat p :: u8) AND 0x80 = 0" using and_exp_eq_0_iff_not_bit [of "of_nat p :: u8" 7] by simp
  show "p = q" if "of_nat p = (of_nat q :: u8)" "q < 128" using that u [OF assms] u [OF that(2)] by metis
qed

lemma buddy_page_rep:
  assumes "heap_rep N h es B"
  shows "buddy_page h p \<longleftrightarrow> In_Buddy p \<in> set es"
proof -
  note s = rep_size [OF assms]
  have b: "buddys (sys_meminfo h) = encode es @ replicate (28 - length (encode es)) (- 1)" using assms by (simp add: heap_rep_def)
  have "\<forall>c\<in>set (encode es). c \<noteq> - 1" using s(8) small_no_end by (auto simp: encode_def)
  then have tw: "set (takeWhile (\<lambda>c. c \<noteq> - 1) (buddys (sys_meminfo h))) = set (encode es)"
    unfolding b by (simp add: takeWhile_append2 takeWhile_replicate)
  show ?thesis
  proof
    assume bp: "buddy_page h p"
    then obtain e where e: "e \<in> set es" "of_nat p \<in> set (enc e)" and p: "p < 128" by (auto simp: buddy_page_def tw encode_def)
    show "In_Buddy p \<in> set es"
    proof (cases e)
      case (In_Buddy q)
      then have "q < 128" "of_nat p = (of_nat q :: u8)" using s(8) [OF e(1)] e(2) by (auto simp: small_def)
      then show ?thesis using index_low(2) [OF p] e(1) In_Buddy by simp
    next
      case (In_Pages q n)
      then have "q < 63" "n < 63" using s(8) [OF e(1)] by (auto simp: small_def)
      then have "\<forall>c\<in>set (enc e). c AND 0x80 \<noteq> 0" unfolding In_Pages using byte_facts(4) [of q] byte_facts(9) [of n] by auto
      then show ?thesis using e(2) index_low(1) [OF p] by blast
    qed
  next
    assume e: "In_Buddy p \<in> set es"
    then have "of_nat p \<in> set (encode es)" "p < 128" using s(8) [OF e] by (auto simp: encode_def small_def intro!: bexI [of _ "In_Buddy p"])
    then show "buddy_page h p" by (simp add: buddy_page_def tw)
  qed
qed

text \<open>No live block reaches a control block.\<close>

lemma live_not_control:
  assumes "heap_live N h A" "A x = Some l" "t \<in> {x..<x + l}"
  shows "\<not> in_control h t"
proof -
  obtain es B where rep: "heap_rep N h es B" and "\<And>x l. A x = Some l \<longleftrightarrow> hblock es B x l"
    using assms(1) by (auto simp: heap_live_def)
  then have "hblock es B x l" using assms(2) by simp
  then consider (b) p a n where "In_Buddy p \<in> set es" "B p a = Some n" "x = p * 2048 + a * 16" "l = n * 16"
    | (r) p n where "In_Pages p n \<in> set es" "x = p * 2048" "l = n * 2048"
    by (auto simp: hblock_def)
  then show ?thesis
  proof cases
    case b
    note n = rep_block [OF rep b(1), of a n, OF b(2)]
    obtain d where d: "t = p * 2048 + d" "d < 1920" using assms(3) b(3,4) n by (intro that [of "t - p * 2048"]) auto
    then have "t mod 2048 = d" by simp
    then show ?thesis using d(2) by (simp add: in_control_def)
  next
    case r
    have "t div 2048 \<in> set (page_list (In_Pages p n))" using assms(3) r(2,3) by (auto simp: less_mult_imp_div_less algebra_simps)
    moreover have "entries_ok N es" using rep by (simp add: heap_rep_def)
    ultimately have "In_Buddy (t div 2048) \<notin> set es" using entry_pages [of N es "In_Pages p n" "In_Buddy (t div 2048)" "t div 2048"] r(1) by auto
    then show ?thesis using buddy_page_rep [OF rep] by (simp add: in_control_def)
  qed
qed

lemma leave_fields:
  "pool (leave_control b s h) = pool h" "ctrl (leave_control b s h) = ctrl h" "sys_meminfo (leave_control b s h) = sys_meminfo h"
  by (simp_all add: leave_control_def)

lemma leave_outside:
  assumes "p < 26" "t < 65536" "\<not> (t div 2048 = p \<and> 1920 \<le> t mod 2048)"
  shows "bytes (leave_control (of_nat p) s h) (of_nat t) = bytes h (of_nat t)"
proof -
  have a: "pagepool_convert_index_to_addr (of_nat p) + of_nat (2048 - 128) = (of_nat (p * 2048 + 1920) :: u32)"
    using index_addr(2) [of p] assms(1) by simp
  have "t \<notin> {p * 2048 + 1920..<p * 2048 + 1920 + 128}"
  proof
    assume "t \<in> {p * 2048 + 1920..<p * 2048 + 1920 + 128}"
    then obtain d where "t = p * 2048 + d" "1920 \<le> d" "d < 2048" by (intro that [of "t - p * 2048"]) auto
    then have "t div 2048 = p" "t mod 2048 = d" by simp_all
    then show False using assms(3) \<open>1920 \<le> d\<close> by simp
  qed
  then show ?thesis unfolding leave_control_def a using assms(1,2) by (simp add: write_outside del: of_nat_add of_nat_mult)
qed

section \<open>Freeing\<close>

lemma account_fields:
  "pool (free_account ptr sz h) = pool h" "ctrl (free_account ptr sz h) = ctrl h" "bytes (free_account ptr sz h) = bytes h"
  "buddys (sys_meminfo (free_account ptr sz h)) = buddys (sys_meminfo h)"
  "alloc_size (sys_meminfo (free_account ptr sz h)) = alloc_size (sys_meminfo h) - word_of_int sz"
  by (simp_all add: free_account_def check_mem_debug_def Let_def)

lemma remove_live:
  assumes "heap_rep N h es B" "\<forall>p. In_Buddy p \<in> set es \<longrightarrow> B p \<noteq> Map.empty" "\<And>y m. hblock es B y m \<longleftrightarrow> A y = Some m \<and> y \<noteq> x"
    "A x = Some l" "finite (dom A)" "alloc_size (sys_meminfo h) = of_nat (heap_total A) - word_of_int (int l)"
  shows "heap_live N h (A(x := None))"
proof -
  have "(A(x := None)) y = Some m \<longleftrightarrow> hblock es B y m" for y m unfolding assms(3) by auto
  moreover have "of_nat (heap_total A) - word_of_int (int l) = (of_nat (heap_total (A(x := None))) :: u32)"
    using total_minus [OF assms(5,4)] by simp
  ultimately show ?thesis unfolding heap_live_def using assms(1,2,6) by auto
qed

lemma first_pages:
  assumes "entries_ok N (xs @ e # ys)" "x \<in> set xs \<union> set ys"
  shows "first_page x \<noteq> first_page e" "set (page_list x) \<inter> set (page_list e) = {}"
proof -
  have mem: "first_page z \<in> set (page_list z)" if "z \<in> set (xs @ e # ys)" for z
    using entries_small [OF assms(1) that] by (cases z) (auto simp: small_def)
  have "set (page_list x) \<subseteq> set (owned xs) \<union> set (owned ys)" using assms(2) by (auto simp: owned_def)
  then show "set (page_list x) \<inter> set (page_list e) = {}" using assms(1) by (auto simp: entries_ok_def)
  then show "first_page x \<noteq> first_page e" using mem [of x] mem [of e] assms(2) by auto
qed

lemma drop_ok: "entries_ok N (xs @ e # ys) \<Longrightarrow> entries_ok N (xs @ ys)"
  by (auto simp: entries_ok_def)

text \<open>Taking one entry out of the list.\<close>

lemma del_entry:
  assumes "heap_rep N h (xs @ e # ys) B" "buddys (sys_meminfo h') = buddys (sys_meminfo h)"
  shows "del_buddy h' (entry_index (buddys (sys_meminfo h')) (hd (enc e))) (length (enc e)) =
    Some (h'\<lparr>sys_meminfo := (sys_meminfo h')\<lparr>buddys := encode (xs @ ys) @ replicate (28 - length (encode (xs @ ys))) (- 1)\<rparr>\<rparr>)"
proof -
  note s = rep_size [OF assms(1)]
  have ok: "entries_ok N (xs @ e # ys)" using assms(1) by (simp add: heap_rep_def)
  let ?k = "28 - length (encode (xs @ e # ys))"
  have b: "buddys (sys_meminfo h') = encode xs @ enc e @ encode ys @ replicate ?k (- 1)"
    using assms by (simp add: heap_rep_def)
  obtain c cs where c: "enc e = c # cs" by (cases e) auto
  have "entry_index (encode xs @ hd (enc e) # (cs @ encode ys @ replicate ?k (- 1))) (hd (enc e)) = length (encode xs)"
    using s(8) first_pages(1) [OF ok] by (intro entry_encode) auto
  then have i: "entry_index (buddys (sys_meminfo h')) (hd (enc e)) = length (encode xs)" unfolding b using c by simp
  have "length (encode xs @ enc e @ encode ys @ replicate ?k (- 1)) = 28" using s(1) by simp
  then have "del_buddy h' (length (encode xs)) (length (enc e)) = Some (h'\<lparr>sys_meminfo := (sys_meminfo h')\<lparr>buddys :=
      encode xs @ (encode ys @ replicate ?k (- 1)) @ replicate (length (enc e)) (- 1)\<rparr>\<rparr>)"
    using c by (intro del_buddy_list [OF b]) simp_all
  moreover have "?k + length (enc e) = 28 - length (encode (xs @ ys))" using s(1) by simp
  then have "replicate ?k (- 1 :: u8) @ replicate (length (enc e)) (- 1) = replicate (28 - length (encode (xs @ ys))) (- 1)"
    by (simp only: replicate_add [symmetric])
  ultimately show ?thesis unfolding i by (simp only: append_assoc encode_simps)
qed

lemma addr_page:
  assumes "p < 127" "d < 2048"
  shows "pagepool_convert_addr_to_pageindex (of_nat (p * 2048 + d)) = of_nat p"
    "unat (of_nat (p * 2048 + d) - pagepool_convert_index_to_addr (of_nat p)) = d"
proof -
  have u: "unat (of_nat (p * 2048 + d) :: u32) = p * 2048 + d" using assms by (intro unat_of_nat_u32) simp
  then show "pagepool_convert_addr_to_pageindex (of_nat (p * 2048 + d)) = of_nat p"
    unfolding pagepool_convert_addr_to_pageindex_def u using assms(2) by simp
  have "(of_nat (p * 2048 + d) :: u32) - pagepool_convert_index_to_addr (of_nat p) = of_nat d"
    unfolding index_addr(2) [OF assms(1)] by simp
  then show "unat (of_nat (p * 2048 + d) - pagepool_convert_index_to_addr (of_nat p)) = d"
    using assms(2) unat_of_nat_u32 [of d] by simp
qed

lemma free_pages_owned:
  assumes "heap_rep N h (xs @ e # ys) B" "page_list e = [p..<p + n]" "0 < n"
  obtains st' where "pfree (pagepool_convert_index_to_addr (of_nat p)) n (pool h) = Some (st', 0)" "pool_inv st' N ({..<N} - set (owned (xs @ ys)))"
proof -
  have ok: "entries_ok N (xs @ e # ys)" and pi: "pool_inv (pool h) N ({..<N} - set (owned (xs @ e # ys)))" using assms(1) by (simp_all add: heap_rep_def)
  let ?F = "{..<N} - set (owned (xs @ e # ys))"
  have sub: "{p..<p + n} \<subseteq> {..<N}" using entries_small [OF ok, of e] assms(2) by simp
  have "p + n - 1 \<in> {p..<p + n}" using assms(3) by simp
  then have "p + n - 1 < N" using sub by blast
  then have pN: "p + n \<le> N" "p < N" using assms(3) by linarith+
  have "{p..<p + n} \<inter> ?F = {}" using assms(2) by auto
  then obtain st' where st': "rom_pagepool_free_pages (of_nat (p * 2048)) n (pool h) = Some (st', 0)" "pool_inv st' N (?F \<union> {p..<p + n})"
    using free_pages_inv(1) [OF pi pN] by blast
  have "set (owned (xs @ ys)) \<inter> {p..<p + n} = {}" using ok assms(2) by (auto simp: entries_ok_def)
  then have "?F \<union> {p..<p + n} = {..<N} - set (owned (xs @ ys))" using assms(2) sub by auto
  moreover have "N \<le> 127" using pi by (simp add: pool_inv_def)
  ultimately show ?thesis using that st' index_addr(2) [of p] pN by (simp add: pfree_def del: of_nat_mult)
qed


lemma free_pages_live:
  assumes "heap_live N h A" "heap_rep N h es B" "\<forall>p. In_Buddy p \<in> set es \<longrightarrow> B p \<noteq> Map.empty" "\<And>x l. A x = Some l \<longleftrightarrow> hblock es B x l"
    "In_Pages p n \<in> set es"
  shows "\<exists>h'. mem_buddy_free (of_nat (p * 2048)) h = Some h' \<and> heap_live N h' (A(p * 2048 := None)) \<and>
    (\<forall>t<65536. \<not> in_control h t \<longrightarrow> bytes h' (of_nat t) = bytes h (of_nat t))"
proof -
  obtain xs ys where es: "es = xs @ In_Pages p n # ys" using assms(5) by (metis split_list)
  note rep = assms(2) [unfolded es] and s = rep_size [OF assms(2)]
  have ok: "entries_ok N (xs @ In_Pages p n # ys)" using rep by (simp add: heap_rep_def)
  have n: "0 < n" "p < 127" using entries_small [OF ok, of "In_Pages p n"] by (auto simp: small_def)
  have ix: "pagepool_convert_addr_to_pageindex (of_nat (p * 2048)) = of_nat p" using addr_page(1) [OF n(2), of 0] by simp
  have "snd (scan_buddys (encode (xs @ In_Pages p n # ys) @ replicate (28 - length (encode (xs @ In_Pages p n # ys))) (- 1))
      (of_nat (first_page (In_Pages p n))) 0) = kind (In_Pages p n)"
    using s(8) es first_pages(1) [OF ok] by (intro scan_found) auto
  then have sc: "snd (scan_buddys (buddys (sys_meminfo h)) (of_nat p) 0) = int n" using rep by (simp add: heap_rep_def kind_def)
  let ?b = "encode (xs @ ys) @ replicate (28 - length (encode (xs @ ys))) (- 1)"
  let ?h1 = "h\<lparr>sys_meminfo := (sys_meminfo h)\<lparr>buddys := ?b\<rparr>\<rparr>"
  have "hd (enc (In_Pages p n)) = of_nat p OR 0x80" "length (enc (In_Pages p n)) = (if 1 < int n then 2 else 1)" by simp_all
  then have d: "del_buddy h (entry_index (buddys (sys_meminfo h)) (of_nat p OR 0x80)) (if 1 < int n then 2 else 1) = Some ?h1"
    using del_entry [OF rep, of h] by (simp only: refl)
  let ?h2 = "free_account (of_nat (p * 2048)) (2048 * int n) ?h1"
  obtain st' where st': "pfree (pagepool_convert_index_to_addr (of_nat p)) n (pool h) = Some (st', 0)" "pool_inv st' N ({..<N} - set (owned (xs @ ys)))"
    using free_pages_owned [OF rep _ n(1), of p] by auto
  have run: "mem_buddy_free (of_nat (p * 2048)) h = Some (?h2\<lparr>pool := st'\<rparr>)"
    unfolding mem_buddy_free_def Let_def ix sc using d st'(1) n(1) by (simp add: account_fields)
  have rep': "heap_rep N (?h2\<lparr>pool := st'\<rparr>) (xs @ ys) B"
    using rep st'(2) drop_ok [OF ok] by (simp add: heap_rep_def account_fields)
  have ne': "\<forall>p. In_Buddy p \<in> set (xs @ ys) \<longrightarrow> B p \<noteq> Map.empty" using assms(3) es by auto
  have own: "hblock es B y m \<longleftrightarrow> hblock (xs @ ys) B y m \<or> y = p * 2048 \<and> m = n * 2048" for y m
    unfolding es hblock_def by auto
  have "p \<in> set (page_list (In_Pages p n))" using n(1) by simp
  then have "p \<notin> set (page_list e)" if "e \<in> set xs \<union> set ys" for e using first_pages(2) [OF ok that] by blast
  then have "\<not> hblock (xs @ ys) B (p * 2048) m" for m
    by (intro no_block [OF rep']) (auto simp: owned_def)
  then have new: "hblock (xs @ ys) B y m \<longleftrightarrow> A y = Some m \<and> y \<noteq> p * 2048" for y m using own assms(4) by auto
  have Ax: "A (p * 2048) = Some (n * 2048)" using own assms(4) by auto
  have "alloc_size (sys_meminfo (?h2\<lparr>pool := st'\<rparr>)) = of_nat (heap_total A) - word_of_int (int (n * 2048))"
    using assms(1) by (simp add: heap_live_def account_fields mult.commute)
  from remove_live [OF rep' ne' new Ax live_finite [OF assms(1)] this] show ?thesis using run by (simp add: account_fields)
qed

lemma free_buddy_live:
  assumes "heap_live N h A" "heap_rep N h es B" "\<forall>p. In_Buddy p \<in> set es \<longrightarrow> B p \<noteq> Map.empty" "\<And>x l. A x = Some l \<longleftrightarrow> hblock es B x l"
    "In_Buddy p \<in> set es" "B p a = Some n"
  shows "\<exists>h'. mem_buddy_free (of_nat (p * 2048 + a * 16)) h = Some h' \<and> heap_live N h' (A(p * 2048 + a * 16 := None)) \<and>
    (\<forall>t<65536. \<not> in_control h t \<longrightarrow> bytes h' (of_nat t) = bytes h (of_nat t))"
proof -
  let ?x = "p * 2048 + a * 16"
  obtain xs ys where es: "es = xs @ In_Buddy p # ys" using assms(5) by (metis split_list)
  note rep = assms(2) [unfolded es] and s = rep_size [OF assms(2)]
  have ok: "entries_ok N (xs @ In_Buddy p # ys)" using rep by (simp add: heap_rep_def)
  have n: "p < N" "p < 127" "a < 120" using entries_small [OF ok, of "In_Buddy p"] rep_block [OF assms(2,5), of a n] assms(6) s(7) by auto
  have ix: "pagepool_convert_addr_to_pageindex (of_nat ?x) = of_nat p" "unat (of_nat ?x - pagepool_convert_index_to_addr (of_nat p)) = a * 16"
    using addr_page [OF n(2), of "a * 16"] n(3) by simp_all
  have "snd (scan_buddys (encode (xs @ In_Buddy p # ys) @ replicate (28 - length (encode (xs @ In_Buddy p # ys))) (- 1))
      (of_nat (first_page (In_Buddy p))) 0) = kind (In_Buddy p)"
    using s(8) es first_pages(1) [OF ok] by (intro scan_found) auto
  then have sc: "snd (scan_buddys (buddys (sys_meminfo h)) (of_nat p) 0) = 0" using rep by (simp add: heap_rep_def kind_def)
  have pg: "page (ctrl h (of_nat p)) (B p) (of_nat p)" using assms(2,5) by (simp add: heap_rep_def)
  obtain s' where s': "rom_buddy_free (of_nat p) (a * 16) (ctrl h (of_nat p)) = Some (s', int (n * 16))" "page s' ((B p)(a := None)) (of_nat p)"
    using buddy_free_page [OF pg, of a n] assms(6) by blast
  have idle: "rom_is_buddy_idled s' \<longleftrightarrow> (B p)(a := None) = Map.empty" by (rule page_idle [OF s'(2)])
  let ?h1 = "h\<lparr>ctrl := (ctrl h)(of_nat p := s')\<rparr>"
  have c: "ctrl_of h' (of_nat p) = Some (ctrl h' (of_nat p))" if "pool h' = pool h" for h'
    using that s(6) n unat_index [of p] by (simp add: ctrl_of_def)
  have bf: "buddy_free h (of_nat p) (of_nat ?x) = Some (?h1, int (n * 16))"
    unfolding buddy_free_def ix(2) using c [of h] s'(1) by simp
  have other: "(of_nat r :: u8) \<noteq> of_nat p" if "In_Buddy r \<in> set es" "r \<noteq> p" for r
    using index_eq [of r p] entries_small [OF ok, of "In_Buddy r"] that es n s(7) by simp
  have bl: "hblock es B y m \<longleftrightarrow> hblock es (B(p := (B p)(a := None))) y m \<or> y = ?x \<and> m = n * 16"
    "\<not> hblock es (B(p := (B p)(a := None))) ?x m" for y m
  proof -
    let ?B = "B(p := (B p)(a := None))"
    have bn: "?B p a = None" by simp
    have lt: "d < 120" if "In_Buddy r \<in> set es" "?B r d = Some k" for r d k
      using that rep_block [OF assms(2), of r d k] by (auto split: if_splits)
    have eq: "?B(p := (?B p)(a \<mapsto> n)) = B" using assms(6) by (auto simp: fun_eq_iff)
    have ok2: "entries_ok N es" using ok es by simp
    have "hblock es (?B(p := (?B p)(a \<mapsto> n))) y m \<longleftrightarrow> hblock es ?B y m \<or> y = ?x \<and> m = n * 16"
      by (rule hblock_upd(1) [of N es p ?B a, OF ok2 assms(5) bn n(3)]) (erule (1) lt)
    then show "hblock es B y m \<longleftrightarrow> hblock es ?B y m \<or> y = ?x \<and> m = n * 16" unfolding eq .
    show "\<not> hblock es ?B ?x m" by (rule hblock_upd(2) [of N es p ?B a, OF ok2 assms(5) bn n(3)]) (erule (1) lt)
  qed
  have Ax: "A ?x = Some (n * 16)" using bl(1) assms(4) by blast
  have al: "alloc_size (sys_meminfo h) - word_of_int (int (n * 16)) = of_nat (heap_total A) - word_of_int (int (n * 16))"
    using assms(1) by (simp add: heap_live_def)
  show ?thesis
  proof (cases "rom_is_buddy_idled s'")
    case False
    let ?h2 = "free_account (of_nat ?x) (int (n * 16)) ?h1" and ?B = "B(p := (B p)(a := None))"
    have run: "mem_buddy_free (of_nat ?x) h = Some ?h2"
      unfolding mem_buddy_free_def Let_def ix(1) sc using bf c [of ?h1] False by simp
    have rep': "heap_rep N ?h2 es ?B" using assms(2) s'(2) other by (auto simp: heap_rep_def account_fields)
    have ne': "\<forall>q. In_Buddy q \<in> set es \<longrightarrow> ?B q \<noteq> Map.empty" using assms(3) False idle by auto
    have new: "hblock es ?B y m \<longleftrightarrow> A y = Some m \<and> y \<noteq> ?x" for y m using bl assms(4) by blast
    from remove_live [OF rep' ne' new Ax live_finite [OF assms(1)]] show ?thesis using run al by (simp add: account_fields)
  next
    case True
    let ?b = "encode (xs @ ys) @ replicate (28 - length (encode (xs @ ys))) (- 1)"
    let ?l = "leave_control (of_nat p) s' ?h1"
    let ?h2 = "?l\<lparr>sys_meminfo := (sys_meminfo h)\<lparr>buddys := ?b\<rparr>\<rparr>"
    have d: "del_buddy ?l (entry_index (buddys (sys_meminfo h)) (of_nat p)) 1 = Some ?h2"
      using del_entry [OF rep, of ?l] by (simp add: leave_fields)
    let ?h3 = "free_account (of_nat ?x) (int (n * 16)) ?h2"
    obtain st' where st': "pfree (pagepool_convert_index_to_addr (of_nat p)) 1 (pool h) = Some (st', 0)" "pool_inv st' N ({..<N} - set (owned (xs @ ys)))"
      using free_pages_owned [OF rep, of p 1] by auto
    have run: "mem_buddy_free (of_nat ?x) h = Some (?h3\<lparr>pool := st'\<rparr>)"
      unfolding mem_buddy_free_def Let_def ix(1) sc using bf c [of ?h1] True d st'(1) by (simp add: account_fields leave_fields)
    have np: "In_Buddy p \<notin> set (xs @ ys)" using first_pages(1) [OF ok, of "In_Buddy p"] by auto
    have rep': "heap_rep N (?h3\<lparr>pool := st'\<rparr>) (xs @ ys) B"
      using rep st'(2) drop_ok [OF ok] other es np by (auto simp: heap_rep_def account_fields leave_fields)
    have ne': "\<forall>q. In_Buddy q \<in> set (xs @ ys) \<longrightarrow> B q \<noteq> Map.empty" using assms(3) es by auto
    have "hblock (xs @ ys) B y m \<longleftrightarrow> hblock es (B(p := (B p)(a := None))) y m" for y m
      using np idle True unfolding es hblock_def by (auto split: if_splits)
    then have new: "hblock (xs @ ys) B y m \<longleftrightarrow> A y = Some m \<and> y \<noteq> ?x" for y m using bl assms(4) by blast
    have bp: "buddy_page h p" using buddy_page_rep [OF assms(2)] assms(5) by simp
    have "bytes (?h3\<lparr>pool := st'\<rparr>) (of_nat t) = bytes h (of_nat t)" if "t < 65536" "\<not> in_control h t" for t
      using leave_outside [of p t s' ?h1] that bp n(1) s(7) by (auto simp: account_fields in_control_def)
    then show ?thesis using remove_live [OF rep' ne' new Ax live_finite [OF assms(1)]] run al by (simp add: account_fields leave_fields)
  qed
qed

lemma free_live:
  assumes "heap_live N h A" "A x = Some l"
  shows "\<exists>h'. mem_buddy_free (of_nat x) h = Some h' \<and> heap_live N h' (A(x := None)) \<and>
    (\<forall>t<65536. \<not> in_control h t \<longrightarrow> bytes h' (of_nat t) = bytes h (of_nat t))"
proof -
  obtain es B where r: "heap_rep N h es B" "\<forall>p. In_Buddy p \<in> set es \<longrightarrow> B p \<noteq> Map.empty" "\<And>x l. A x = Some l \<longleftrightarrow> hblock es B x l"
    using assms(1) by (auto simp: heap_live_def)
  then have "hblock es B x l" using assms(2) by simp
  then show ?thesis unfolding hblock_def using free_buddy_live [OF assms(1) r] free_pages_live [OF assms(1) r] by blast
qed

end
