(* ===== verification/Mem_Manager.thy ===== *)
theory Mem_Manager
  imports Mem_Heap
begin

text \<open>
  The heap as its clients see it: start up, the contract of an allocator for \<open>mem_malloc\<close> and \<open>mem_free\<close>, the bytes of a
  new block, and the properties of the heap.
\<close>

unbundle bit_operations_syntax

section \<open>Start up and the contract\<close>

lemma heap_start:
  assumes "N \<le> 26" "pool h = pagepool_static N"
  shows "\<exists>h1. mem_manager_init h = Some (h1, 0) \<and> heap_live N h1 Map.empty"
proof -
  have "N \<le> 127" using assms(1) by simp
  then obtain st where st: "pagepool_init (pagepool_static N) = Some st" "pool_inv st N {..<N}" by (rule pool_start)
  let ?h = "h\<lparr>pool := st, sys_meminfo := \<lparr>alloc_size = 0, original_size = 0, buddys = replicate 28 (- 1)\<rparr>\<rparr>"
  have "heap_rep N ?h [] B" for B using st(2) assms(1) by (simp add: heap_rep_def entries_ok_def)
  moreover have "\<not> hblock [] B x l" for B x l by (simp add: hblock_def)
  ultimately have "heap_live N ?h Map.empty" unfolding heap_live_def by (auto simp: heap_total_def intro!: exI [of _ "[]"])
  then show ?thesis using st(1) assms(2) by (simp add: mem_manager_init_def mem_page_init_def)
qed

lemma block_size_bounds: "0 < n \<Longrightarrow> n \<le> block_size n \<and> 16 \<le> block_size n"
  by (auto simp: block_size_def in_units_def)

lemma sint_request: "unat num < 2 ^ 31 \<Longrightarrow> sint num = int (unat num)" for num :: u32
  using sint_small_u32 [of num] by simp

text \<open>The bytes after a successful request: zero in the requested part, unchanged outside the block.\<close>

lemma success_bytes:
  assumes "x + real \<le> 26 * 2048" "nat need \<le> real" "16 \<le> real"
  shows "i < nat need \<Longrightarrow> bytes (fst (malloc_success sz need c pr (of_nat x, int real) h)) (of_nat x + of_nat i) = 0"
    "t < 26 * 2048 \<Longrightarrow> t \<notin> {x..<x + real} \<Longrightarrow> bytes (fst (malloc_success sz need c pr (of_nat x, int real) h)) (of_nat t) = bytes h (of_nat t)"
proof -
  have a: "of_nat x + word_of_int (int real) - 8 = (of_nat (x + real - 8) :: u32)" using assms(3) by (simp add: of_nat_diff)
  obtain m1 d where m: "bytes (fst (malloc_success sz need c pr (of_nat x, int real) h)) = mem_write m1 (of_nat x) (replicate (nat need) 0)"
      "m1 = mem_write (bytes h) (of_nat (x + real - 8)) (debug_bytes d)"
    unfolding malloc_success_def Let_def prod.case a [symmetric] by simp
  show "bytes (fst (malloc_success sz need c pr (of_nat x, int real) h)) (of_nat x + of_nat i) = 0" if "i < nat need"
    using that assms unat_of_nat_u32 [of i] unfolding m(1) by (simp add: mem_write_def)
  have d: "length (debug_bytes d) = 8" by (simp add: debug_bytes_def)
  show "bytes (fst (malloc_success sz need c pr (of_nat x, int real) h)) (of_nat t) = bytes h (of_nat t)"
    if "t < 26 * 2048" "t \<notin> {x..<x + real}"
  proof -
    have "mem_write m1 (of_nat x) (replicate (nat need) 0) (of_nat t) = m1 (of_nat t)" using that assms by (intro write_outside) auto
    moreover have "m1 (of_nat t) = bytes h (of_nat t)" unfolding m(2) using that assms d by (intro write_outside) auto
    ultimately show ?thesis unfolding m(1) by simp
  qed
qed



lemma malloc_post_page:
  assumes "heap_live N h A" "0 < unat num" "unat num < 2 ^ 31"
  shows "malloc_post N h A (int (unat num)) (int (unat num)) c pr (mem_malloc num c pr h)"
proof -
  have "0 < int (unat num)" using assms(2) by linarith
  moreover have "int (unat num) < int (2 ^ 31)" using assms(3) by (simp only: of_nat_less_iff)
  then have "int (unat num) < 2 ^ 31" by (simp only: of_nat_power of_nat_numeral)
  ultimately show ?thesis
    unfolding mem_malloc_def mem_malloc_debug_def mem_page_malloc_def sint_request [OF assms(3)] by (rule malloc_buddy_post [OF assms(1)])
qed

lemma live_pages: "heap_live N h A \<Longrightarrow> N \<le> 26"
  by (auto simp: heap_live_def heap_rep_def entries_ok_def)




section \<open>Freeing what the heap does not own\<close>

lemma scan_none:
  assumes "\<forall>e\<in>set es. small e" "\<forall>e\<in>set es. first_page e \<noteq> q" "q < 63"
  shows "snd (scan_buddys (encode es @ replicate k (- 1)) (of_nat q) i) = - 1"
  using assms(1,2)
proof (induction es arbitrary: i)
  case Nil
  then show ?case by (cases k) simp_all
next
  case (Cons e es)
  let ?zs = "encode es @ replicate k (- 1)"
  have n: "\<not> (?zs \<noteq> [] \<and> hd ?zs \<noteq> - 1 \<and> hd ?zs AND 0xc0 = 0xc0)" using Cons.prems by (intro next_not_count [OF _ refl]) auto
  have IH: "snd (scan_buddys ?zs (of_nat q) j) = - 1" for j using Cons by simp
  have ne: "(of_nat p :: u8) \<noteq> of_nat q" if "p < 63" "p \<noteq> q" for p using that assms(3) index_eq [of p q] by simp
  show ?case
  proof (cases e)
    case (In_Buddy p)
    then have "p < 63" "p \<noteq> q" using Cons.prems by (auto simp: small_def)
    then show ?thesis using In_Buddy byte_facts [of p] ne [of p] IH by simp
  next
    case (In_Pages p m)
    then have s: "p < 63" "m < 63" "0 < m" "p \<noteq> q" using Cons.prems by (auto simp: small_def)
    show ?thesis
    proof (cases "1 < m")
      case True
      then show ?thesis using In_Pages byte_facts [OF s(1)] byte_facts [OF s(2)] ne [OF s(1,4)] IH by simp
    next
      case False
      then have "scan_buddys (enc e @ ?zs) (of_nat q) i = scan_buddys ?zs (of_nat q) (i + 1)"
        using In_Pages byte_facts [OF s(1)] ne [OF s(1,4)] n
        unfolding enc.simps by (simp only: if_False append_Cons append_Nil scan_buddys.simps) auto
      then show ?thesis using IH by simp
    qed
  qed
qed

lemma foreign_free:
  assumes "heap_live N h A" "x < N * 2048" "free_page A (x div 2048)"
  shows "mem_buddy_free (of_nat x) h = None"
proof -
  obtain es B where rep: "heap_rep N h es B" and ne: "\<forall>p. In_Buddy p \<in> set es \<longrightarrow> B p \<noteq> Map.empty"
    and A: "\<And>x l. A x = Some l \<longleftrightarrow> hblock es B x l" using assms(1) by (auto simp: heap_live_def)
  note s = rep_size [OF rep]
  let ?q = "x div 2048"
  have ok: "entries_ok N es" and b: "buddys (sys_meminfo h) = encode es @ replicate (28 - length (encode es)) (- 1)"
    using rep by (simp_all add: heap_rep_def)
  have q: "?q < N" "?q < 63" "?q \<notin> set (owned es)" using assms(2,3) owned_free [OF rep ne A, of ?q] s(7) by auto
  have first: "first_page e \<noteq> ?q" if "e \<in> set es" for e
  proof -
    have "first_page e \<in> set (page_list e)" using s(8) [OF that] by (cases e) (auto simp: small_def)
    then show ?thesis using q(3) that by (auto simp: owned_def)
  qed
  have "of_nat (?q * 2048 + x mod 2048) = (of_nat x :: u32)" by simp
  then have ix: "pagepool_convert_addr_to_pageindex (of_nat x) = of_nat ?q" using addr_page(1) [of ?q "x mod 2048"] q(2) by simp
  have sc: "snd (scan_buddys (buddys (sys_meminfo h)) (of_nat ?q) 0) = - 1" unfolding b using s(8) first q(2) by (intro scan_none) auto
  have "\<forall>c\<in>set (encode es). c \<noteq> hd (enc (In_Pages ?q 1))" using s(8) first q(2) by (intro entry_absent) (auto simp: small_def)
  then have "\<forall>c\<in>set (encode es). c \<noteq> of_nat ?q OR 0x80" by simp
  moreover have "of_nat ?q OR 0x80 \<noteq> (- 1 :: u8)" by (rule byte_facts(3) [OF q(2)])
  ultimately have tw: "takeWhile (\<lambda>c. c \<noteq> of_nat ?q OR 0x80) (buddys (sys_meminfo h)) = buddys (sys_meminfo h)"
    unfolding b takeWhile_eq_all_conv by auto
  have "entry_index (buddys (sys_meminfo h)) (of_nat ?q OR 0x80) = 28" unfolding entry_index_def tw by (rule s(5))
  then have "del_buddy h (entry_index (buddys (sys_meminfo h)) (of_nat ?q OR 0x80)) 1 = None"
    using s(5) by (simp add: del_buddy_def del_shift.simps)
  then show ?thesis unfolding mem_buddy_free_def Let_def ix sc by simp
qed

lemma negative_request:
  assumes "heap_live N h A" "sz < 0" "q < N" "free_page A q"
  shows "mem_buddy_malloc sz need c pr h = None"
proof -
  obtain es B where rep: "heap_rep N h es B" and ne: "\<forall>p. In_Buddy p \<in> set es \<longrightarrow> B p \<noteq> Map.empty"
    and A: "\<And>x l. A x = Some l \<longleftrightarrow> hblock es B x l" using assms(1) by (auto simp: heap_live_def)
  note s = rep_size [OF rep]
  let ?F = "{..<N} - set (owned es)"
  have ok: "entries_ok N es" and b: "buddys (sys_meminfo h) = encode es @ replicate (28 - length (encode es)) (- 1)"
    and pi: "pool_inv (pool h) N ?F" using rep by (simp_all add: heap_rep_def)
  have pages: "p < N \<and> page (ctrl h (of_nat p)) (B p) (of_nat p)" if "In_Buddy p \<in> set es" for p
    using rep that entries_small [OF ok that] by (simp add: heap_rep_def)
  have z: "\<not> run_ok a (in_units (nat sz))" for a using assms(2) by (simp add: in_units_def run_ok_def)
  obtain h1 t1 where t1: "try_buddys h sz (buddys (sys_meminfo h)) = Some (h1, t1)" "t1 = None \<Longrightarrow> h1 = h" "\<And>p. t1 \<noteq> Some p"
    using try_buddys_spec [OF s(6,7,8) pages, of es sz "28 - length (encode es)"] z unfolding b by (auto split: option.splits)
  then have t: "try_buddys h sz (buddys (sys_meminfo h)) = Some (h, None)" by (cases t1) auto
  have qF: "q \<in> ?F" using assms(3,4) owned_free [OF rep ne A, of q] by simp
  obtain st' r where r: "rom_pagepool_alloc_pages 1 (pool h) = Some (st', r)"
      "case r of None \<Rightarrow> st' = pool h \<and> (0 < (1 :: nat) \<longrightarrow> (\<forall>i. \<not> {i..<i + 1} \<subseteq> ?F))
       | Some addr \<Rightarrow> 0 < (1 :: nat) \<and> (\<exists>i. addr = of_nat (i * 2048) \<and> {i..<i + 1} \<subseteq> ?F \<and> pool_inv st' N (?F - {i..<i + 1}))"
    using alloc_pages_inv [OF pi, of 1] by blast
  have "\<exists>i. {i..<i + 1} \<subseteq> ?F" using qF by (intro exI [of _ q]) auto
  then obtain addr i where i: "r = Some addr" "addr = of_nat (i * 2048)" "i \<in> ?F" "pool_inv st' N (?F - {i})" using r(2) by (cases r) auto
  have i127: "i < 127" using i(3) s(7) by auto
  have ix: "pagepool_convert_addr_to_pageindex addr = of_nat i"
    using index_addr(1) [OF i127] i(2) unat_index [of i] i127 by (intro word_unat_eq_iff [THEN iffD2]) simp
  have pn: "pmalloc (of_nat 2048) (pool h) = rom_pagepool_alloc_pages 1 (pool h)" using size_to_page [of 2048] by (simp add: pmalloc_def)
  have "pagepool_size st' = N" using i(4) by (simp add: pool_inv_def pagepool_size_def)
  then have al: "buddy_alloc (h\<lparr>pool := st', ctrl := f\<rparr>) (of_nat i) sz = Some (h\<lparr>pool := st', ctrl := f\<rparr>, None)" for f
    using i(3) i127 unat_index [of i] assms(2) by (simp add: buddy_alloc_def ctrl_of_def rom_buddy_alloc_def)
  have "malloc_new_buddy sz need c pr h = None"
    unfolding malloc_new_buddy_def pn Let_def using r(1) i(1) s(3) ix al by (simp add: bind_eq_None_conv)
  then show ?thesis using assms(2) t by (simp add: mem_buddy_malloc_def get_buddy_max_def)
qed

section \<open>Properties\<close>

definition ex_heap :: heap where
  "ex_heap = \<lparr>pool = pagepool_static 8, ctrl = \<lambda>_. model, bytes = \<lambda>_. 7,
     sys_meminfo = \<lparr>alloc_size = 0, original_size = 0, buddys = []\<rparr>\<rparr>"

lemma ex_heap_live: "\<exists>h. mem_manager_init ex_heap = Some (h, 0) \<and> heap_live 8 h Map.empty"
  by (rule heap_start) (simp_all add: ex_heap_def)

lemma ex_block: "\<exists>h x. heap_live 8 h [x \<mapsto> block_size 5000]"
proof -
  obtain h where h: "heap_live 8 h Map.empty" using ex_heap_live by blast
  have u: "unat (5000 :: u32) = 5000" "pages_needed 5000 = 3" by (simp_all add: pages_needed_def)
  have "malloc_post 8 h Map.empty (int 5000) (int 5000) 0 0 (mem_malloc 5000 0 0 h)"
    using malloc_post_page [OF h, of 5000 0 0] by simp
  moreover have "\<not> (\<forall>q. q + 3 \<le> 8 \<longrightarrow> (\<exists>i\<in>{q..<q + 3}. \<not> free_page Map.empty i))"
    by (auto simp: free_page_def intro!: exI [of _ 0])
  ultimately show ?thesis unfolding malloc_post_def nat_int u(2) by blast
qed

lemma huge_negative: "2 ^ 31 \<le> unat num \<Longrightarrow> sint num < 0" for num :: u32
proof -
  assume n: "2 ^ 31 \<le> unat num"
  have "unat num < 2 ^ Suc 31" using unat_lt_u32 [of num] by simp
  then have "bit num 31" by (rule bit_top [OF n])
  then show ?thesis by (simp add: sint_uint signed_take_bit_negative_iff bit_uint_iff)
qed

text \<open>
  C4: While the heap has the blocks \<open>A\<close> live, a request of \<open>n\<close> bytes, for \<open>n\<close> from 1 to \<open>2 ^ 31 - 1\<close>, has one of two ends. Either the caller gets a block of at least
  \<open>n\<close> bytes inside the pool that overlaps no live block and no control block, its first \<open>n\<close> bytes are zero, no byte of the pool outside
  it and outside the control blocks of the buddy pages has changed, and the heap has exactly one more live block; or the system stops in
  \<open>k_panic\<close>, and then there are not enough consecutive pages without a live block (one for a request of at most 1920 bytes).
\<close>

theorem heap_malloc_correct:
  assumes "heap_live N h A" "0 < unat num" "unat num < 2 ^ 31"
  shows "\<exists>h' r. mem_malloc num caller prio h = Some (h', r) \<and>
    (case r of
       Malloc_Ptr ptr \<Rightarrow> \<exists>x. let l = block_size (unat num) in ptr = of_nat x \<and> unat num \<le> l \<and> x + l \<le> N * 2048 \<and> fresh_block A x l \<and>
         heap_live N h' (A(x \<mapsto> l)) \<and> (\<forall>i<l. \<not> in_control h' (x + i)) \<and> (\<forall>i<unat num. heap_byte h' (x + i) = 0) \<and>
         (\<forall>t<N * 2048. t \<notin> {x..<x + l} \<longrightarrow> \<not> in_control h t \<longrightarrow> \<not> in_control h' t \<longrightarrow> heap_byte h' t = heap_byte h t)
     | Malloc_Null \<Rightarrow> False
     | Malloc_Panic k \<Rightarrow> (\<forall>q. q + pages_needed (unat num) \<le> N \<longrightarrow> (\<exists>i\<in>{q..<q + pages_needed (unat num)}. \<not> free_page A i)))"
proof -
  let ?n = "unat num"
  let ?l = "block_size ?n"
  have "malloc_post N h A (int ?n) (int ?n) caller prio (mem_malloc num caller prio h)" by (rule malloc_post_page [OF assms])
  then consider (ok) h1 x where "mem_malloc num caller prio h = Some (malloc_success (int ?n) (int ?n) caller prio (of_nat x, int ?l) h1)"
      "bytes h1 = bytes h" "fresh_block A x ?l"
      "heap_live N (fst (malloc_success (int ?n) (int ?n) caller prio (of_nat x, int ?l) h1)) (A(x \<mapsto> ?l))"
    | (no) k where "mem_malloc num caller prio h = Some (h, Malloc_Panic k)"
      "\<forall>q. q + pages_needed ?n \<le> N \<longrightarrow> (\<exists>i\<in>{q..<q + pages_needed ?n}. \<not> free_page A i)"
    unfolding malloc_post_def nat_int by blast
  then show ?thesis
  proof cases
    case ok
    obtain h' r where r: "malloc_success (int ?n) (int ?n) caller prio (of_nat x, int ?l) h1 = (h', r)" by fastforce
    then have r2: "r = Malloc_Ptr (of_nat x)" using success_fields(4) [of "int ?n" "int ?n" caller prio "of_nat x" "int ?l" h1] by simp
    have b: "?n \<le> ?l" "16 \<le> ?l" using block_size_bounds [OF assms(2)] by simp_all
    have x: "x + ?l \<le> N * 2048" "N \<le> 26" using live_bounds [OF ok(4), of x] live_pages [OF assms(1)] by simp_all
    then have x26: "x + ?l \<le> 26 * 2048" by linarith
    have nn: "nat (int ?n) = ?n" by simp
    note sb = success_bytes [OF x26, of "int ?n" _ "int ?n" caller prio h1, unfolded nn r fst_conv, OF b]
    have live: "heap_live N h' (A(x \<mapsto> ?l))" using ok(4) r by simp
    have out: "\<forall>i<?l. \<not> in_control h' (x + i)" using live_not_control [OF live, of x ?l] by simp
    moreover have "\<forall>i<?n. heap_byte h' (x + i) = 0" using sb(1) out b(1) by (simp add: heap_byte_def)
    moreover have "\<forall>t<N * 2048. t \<notin> {x..<x + ?l} \<longrightarrow> \<not> in_control h t \<longrightarrow> \<not> in_control h' t \<longrightarrow> heap_byte h' t = heap_byte h t"
      using sb(2) ok(2) x(2) by (auto simp: heap_byte_def simp del: atLeastLessThan_iff)
    ultimately show ?thesis using ok(1,3) live r r2 b(1) x(1) by (auto simp: Let_def)
  next
    case no
    then show ?thesis by simp
  qed
qed

theorem heap_malloc_correct_witness:
  "\<exists>h h' r. mem_manager_init ex_heap = Some (h, 0) \<and> mem_malloc 100 0 0 h = Some (h', r) \<and>
    (case r of
       Malloc_Ptr ptr \<Rightarrow> \<exists>x. ptr = of_nat x \<and> heap_live 8 h' [x \<mapsto> 112] \<and> (\<forall>i<100. heap_byte h' (x + i) = 0)
     | Malloc_Null \<Rightarrow> False
     | Malloc_Panic k \<Rightarrow> False)"
proof -
  obtain h where h: "mem_manager_init ex_heap = Some (h, 0)" "heap_live 8 h Map.empty" using ex_heap_live by blast
  have u: "unat (100 :: u32) = 100" "block_size 100 = 112" "pages_needed 100 = 1" by (simp_all add: block_size_def in_units_def pages_needed_def)
  have f: "free_page Map.empty 0" by (simp add: free_page_def)
  obtain h' r where m: "mem_malloc 100 0 0 h = Some (h', r)" and r: "case r of
       Malloc_Ptr ptr \<Rightarrow> \<exists>x. let l = block_size (unat (100 :: u32)) in ptr = of_nat x \<and> unat (100 :: u32) \<le> l \<and> x + l \<le> 8 * 2048 \<and>
         fresh_block Map.empty x l \<and> heap_live 8 h' (Map.empty(x \<mapsto> l)) \<and> (\<forall>i<l. \<not> in_control h' (x + i)) \<and>
         (\<forall>i<unat (100 :: u32). heap_byte h' (x + i) = 0) \<and>
         (\<forall>t<8 * 2048. t \<notin> {x..<x + l} \<longrightarrow> \<not> in_control h t \<longrightarrow> \<not> in_control h' t \<longrightarrow> heap_byte h' t = heap_byte h t)
     | Malloc_Null \<Rightarrow> False
     | Malloc_Panic k \<Rightarrow> (\<forall>q. q + pages_needed (unat (100 :: u32)) \<le> 8 \<longrightarrow>
         (\<exists>i\<in>{q..<q + pages_needed (unat (100 :: u32))}. \<not> free_page Map.empty i))"
    using heap_malloc_correct [OF h(2), of 100 0 0] by auto
  have "case r of Malloc_Ptr ptr \<Rightarrow> \<exists>x. ptr = of_nat x \<and> heap_live 8 h' [x \<mapsto> 112] \<and> (\<forall>i<100. heap_byte h' (x + i) = 0)
     | Malloc_Null \<Rightarrow> False | Malloc_Panic k \<Rightarrow> False"
    using r f unfolding u Let_def by (cases r) (auto dest: spec [of _ "0 :: nat"])
  then show ?thesis using h(1) m by blast
qed

text \<open>
  C5: Freeing a live block by the pointer the allocation returned succeeds, removes exactly this block and changes no
  byte of the pool outside the control blocks of the buddy pages before and after it, and no byte of a block that stays live; freeing
  a null pointer does nothing.
\<close>

theorem heap_free_correct:
  assumes "heap_live N h A" "A x = Some l"
  shows "(\<exists>h'. mem_free (Some (of_nat x)) h = Some h' \<and> heap_live N h' (A(x := None)) \<and>
      (\<forall>t<N * 2048. \<not> in_control h t \<longrightarrow> \<not> in_control h' t \<longrightarrow> heap_byte h' t = heap_byte h t) \<and>
      (\<forall>t\<in>cells (A(x := None)). heap_byte h' t = heap_byte h t)) \<and>
    mem_free None h = Some h"
proof -
  obtain h' where h': "mem_buddy_free (of_nat x) h = Some h'" "heap_live N h' (A(x := None))"
      "\<forall>t<65536. \<not> in_control h t \<longrightarrow> bytes h' (of_nat t) = bytes h (of_nat t)" using free_live [OF assms] by blast
  have N: "N * 2048 \<le> 65536" using live_pages [OF assms(1)] by simp
  then have frame: "heap_byte h' t = heap_byte h t" if "t < N * 2048" "\<not> in_control h t" "\<not> in_control h' t" for t
    using h'(3) that by (simp add: heap_byte_def)
  have "heap_byte h' t = heap_byte h t" if t: "t \<in> cells (A(x := None))" for t
  proof -
    obtain a n where a: "(A(x := None)) a = Some n" "t \<in> {a..<a + n}" using t unfolding cells_def by blast
    then have "A a = Some n" by (auto split: if_splits)
    then show ?thesis
      using frame [of t] live_not_control [OF h'(2) a] live_not_control [OF assms(1) _ a(2)] live_bounds [OF h'(2) a(1)] a(2) by auto
  qed
  then show ?thesis using h'(1,2) frame by (auto simp: mem_free_def mem_page_free_def)
qed

theorem heap_free_correct_witness:
  "\<exists>h x h'. heap_live 8 h [x \<mapsto> block_size 5000] \<and> mem_free (Some (of_nat x)) h = Some h' \<and> heap_live 8 h' Map.empty"
proof -
  obtain h x where h: "heap_live 8 h [x \<mapsto> block_size 5000]" using ex_block by blast
  moreover have "[x \<mapsto> block_size 5000](x := None) = Map.empty" by auto
  ultimately show ?thesis using heap_free_correct [OF h, of x] by auto
qed



text \<open>
  Freeing an address in a page that the heap does not own, as in a second free of the last block of a page or of
  a range of pages, writes past the end of the list of pages: the error is only printed, and \<open>del_buddy\<close> is called
  with the index 28.
\<close>

theorem heap_foreign_free_overruns:
  assumes "heap_live N h A" "x < N * 2048" "free_page A (x div 2048)"
  shows "mem_free (Some (of_nat x)) h = None"
  using foreign_free [OF assms] by (simp add: mem_free_def mem_page_free_def)

theorem heap_foreign_free_overruns_witness:
  "\<exists>h. mem_manager_init ex_heap = Some (h, 0) \<and> mem_free (Some (of_nat 4096)) h = None"
proof -
  obtain h where h: "mem_manager_init ex_heap = Some (h, 0)" "heap_live 8 h Map.empty" using ex_heap_live by blast
  have "mem_free (Some (of_nat 4096)) h = None" by (rule heap_foreign_free_overruns [OF h(2)]) (simp_all add: free_page_def)
  then show ?thesis using h(1) by blast
qed

text \<open>
  A request of \<open>2 ^ 31\<close> bytes or more, while a page is free, uses a null pointer instead of being refused: the
  size is read as a negative number, a new buddy page is taken, its refusal is not tested and the debug record is
  written relative to the null pointer.
\<close>

theorem heap_huge_request_crashes:
  assumes "heap_live N h A" "2 ^ 31 \<le> unat num" "q < N" "free_page A q"
  shows "mem_malloc num caller prio h = None"
proof -
  have "sint num < 0" by (rule huge_negative [OF assms(2)])
  then show ?thesis using negative_request [OF assms(1) _ assms(3,4)] by (simp add: mem_malloc_def mem_malloc_debug_def mem_page_malloc_def)
qed

theorem heap_huge_request_crashes_witness:
  "\<exists>h. mem_manager_init ex_heap = Some (h, 0) \<and> mem_malloc 0x80000000 0 0 h = None"
proof -
  obtain h where h: "mem_manager_init ex_heap = Some (h, 0)" "heap_live 8 h Map.empty" using ex_heap_live by blast
  have "mem_malloc 0x80000000 0 0 h = None" by (rule heap_huge_request_crashes [OF h(2), of _ 0]) (simp_all add: free_page_def)
  then show ?thesis using h(1) by blast
qed

end
