(* ===== verification/Nvram_Storage.thy ===== *)
theory Nvram_Storage
  imports Prelude "HOL-Library.Monad_Syntax"
begin

text \<open>
  The flash under the configuration store: \<^verbatim>\<open>src/zephyr/drivers/nvram/nvram_storage.c\<close> and the region accesses of
  \<^verbatim>\<open>nvram_config.c\<close>. The contents of the flash are a function from addresses to bytes. The flash driver is a record
  of functions: what it reads (\<open>None\<close> for an error), and the contents and the result after a program or
  erase. \<open>nor_flash\<close> states what a NOR flash does: a program clears bits, an erase of whole sectors sets them.

  Offsets and sizes are natural numbers: the fields of the code are 32-bit integers, and all sums stay far below their
  range for flash chips of a few megabytes. The buffer \<open>nvram_buf\<close> is a local value of each function. When
  the code ignores the error of a read and goes on with what the buffer held before, the model has no
  result (\<open>None\<close>).
\<close>

unbundle bit_operations_syntax

abbreviation EIO :: int where "EIO \<equiv> 5"
abbreviation ENOENT :: int where "ENOENT \<equiv> 2"
abbreviation ENODEV :: int where "ENODEV \<equiv> 19"

section \<open>Storage\<close>

type_synonym flash = "nat \<Rightarrow> u8"

record flash_driver =
  flash_read :: "flash \<Rightarrow> nat \<Rightarrow> nat \<Rightarrow> u8 list option"
  flash_write :: "flash \<Rightarrow> nat \<Rightarrow> u8 list \<Rightarrow> flash \<times> int"
  flash_erase :: "flash \<Rightarrow> nat \<Rightarrow> nat \<Rightarrow> flash \<times> int"

abbreviation WRITE_SEGMENT :: nat where "WRITE_SEGMENT \<equiv> 32"
abbreviation READ_SEGMENT :: nat where "READ_SEGMENT \<equiv> 256"

function nvram_storage_write :: "flash_driver \<Rightarrow> nat \<Rightarrow> u8 list \<Rightarrow> flash \<Rightarrow> flash \<times> int" where
  "nvram_storage_write dev addr buf f =
     (if buf = [] then (f, 0)
      else let wlen = min (length buf) WRITE_SEGMENT; (f1, err) = flash_write dev f addr (take wlen buf)
           in if err < 0 then (f1, - EIO) else nvram_storage_write dev (addr + wlen) (drop wlen buf) f1)"
  by auto
termination by (relation "measure (\<lambda>(_, _, buf, _). length buf)") auto

function nvram_storage_read :: "flash_driver \<Rightarrow> nat \<Rightarrow> nat \<Rightarrow> flash \<Rightarrow> int + u8 list" where
  "nvram_storage_read dev addr sz f =
     (if sz = 0 then Inr []
      else let rlen = min sz READ_SEGMENT
           in case flash_read dev f addr rlen of
                None \<Rightarrow> Inl (- EIO)
              | Some bs \<Rightarrow> map_sum id (append bs) (nvram_storage_read dev (addr + rlen) (sz - rlen) f))"
  by auto
termination by (relation "measure (\<lambda>(_, _, sz, _). sz)") auto

definition nvram_storage_erase :: "flash_driver \<Rightarrow> nat \<Rightarrow> nat \<Rightarrow> flash \<Rightarrow> flash \<times> int" where
  "nvram_storage_erase dev addr sz f = flash_erase dev f addr sz"

declare nvram_storage_write.simps [simp del] nvram_storage_read.simps [simp del]

section \<open>Regions\<close>

record region_info =
  storage :: "flash_driver option"
  base_addr :: nat
  total_size :: nat
  seg_size :: nat
  seg_offset :: nat
  seg_write_offset :: nat
  seg_seq_id :: u8
  seg_item_map :: "u32 list option"

abbreviation NVRAM_BUFFER_SIZE :: nat where "NVRAM_BUFFER_SIZE \<equiv> 128"
abbreviation NVRAM_ERASE_ALIGN_SIZE :: nat where "NVRAM_ERASE_ALIGN_SIZE \<equiv> 0x1000"

definition ROUND_UP :: "nat \<Rightarrow> nat \<Rightarrow> nat" where
  "ROUND_UP x align = (x + align - 1) div align * align"

definition region_read :: "region_info \<Rightarrow> nat \<Rightarrow> nat \<Rightarrow> flash \<Rightarrow> int + u8 list" where
  "region_read region offset len f =
     (case storage region of
        None \<Rightarrow> Inl (- EINVAL)
      | Some dev \<Rightarrow> if total_size region < offset + len then Inl (- EINVAL)
                    else nvram_storage_read dev (base_addr region + offset) len f)"

text \<open>A read whose error is not looked at.\<close>

definition region_fetch :: "region_info \<Rightarrow> nat \<Rightarrow> nat \<Rightarrow> flash \<Rightarrow> u8 list option" where
  "region_fetch region offset len f = (case region_read region offset len f of Inl _ \<Rightarrow> None | Inr bs \<Rightarrow> Some bs)"

definition region_write :: "region_info \<Rightarrow> nat \<Rightarrow> u8 list \<Rightarrow> flash \<Rightarrow> flash \<times> int" where
  "region_write region offset buf f =
     (case storage region of
        None \<Rightarrow> (f, - EINVAL)
      | Some dev \<Rightarrow> if total_size region < offset + length buf then (f, - EINVAL)
                    else nvram_storage_write dev (base_addr region + offset) buf f)"

function region_copy :: "region_info \<Rightarrow> nat \<Rightarrow> nat \<Rightarrow> nat \<Rightarrow> flash \<Rightarrow> flash \<times> int" where
  "region_copy region src_offset dest_offset len f =
     (if len = 0 then (f, 0)
      else let write_size = min len NVRAM_BUFFER_SIZE
           in case region_read region src_offset write_size f of
                Inl err \<Rightarrow> (f, err)
              | Inr buf \<Rightarrow> region_copy region (src_offset + write_size) (dest_offset + write_size) (len - write_size)
                            (fst (region_write region dest_offset buf f)))"
  by auto
termination by (relation "measure (\<lambda>(_, _, _, len, _). len)") auto

function region_is_empy :: "region_info \<Rightarrow> nat \<Rightarrow> nat \<Rightarrow> flash \<Rightarrow> bool option" where
  "region_is_empy region offset sz f =
     (if sz = 0 then Some True
      else let read_size = min sz NVRAM_BUFFER_SIZE
           in case storage region of
                None \<Rightarrow> None
              | Some dev \<Rightarrow>
                  (case nvram_storage_read dev (base_addr region + offset) read_size f of
                     Inl _ \<Rightarrow> None
                   | Inr buf \<Rightarrow> if list_all (\<lambda>b. b = 0xff) (take (read_size div 4 * 4) buf)
                                then region_is_empy region (offset + read_size) (sz - read_size) f
                                else Some False))"
  by auto
termination by (relation "measure (\<lambda>(_, _, sz, _). sz)") auto

function erase_loop :: "region_info \<Rightarrow> flash_driver \<Rightarrow> nat \<Rightarrow> nat \<Rightarrow> flash \<Rightarrow> flash option" where
  "erase_loop region dev offset sz f =
     (if sz = 0 then Some f
      else case region_is_empy region offset NVRAM_ERASE_ALIGN_SIZE f of
             None \<Rightarrow> None
           | Some e \<Rightarrow> erase_loop region dev (offset + NVRAM_ERASE_ALIGN_SIZE) (sz - NVRAM_ERASE_ALIGN_SIZE)
               (if e then f else fst (nvram_storage_erase dev (base_addr region + offset) NVRAM_ERASE_ALIGN_SIZE f)))"
  by auto
termination by (relation "measure (\<lambda>(_, _, _, sz, _). sz)") auto

declare region_copy.simps [simp del] region_is_empy.simps [simp del] erase_loop.simps [simp del]

definition region_erase :: "region_info \<Rightarrow> nat \<Rightarrow> nat \<Rightarrow> flash \<Rightarrow> (flash \<times> int) option" where
  "region_erase region offset sz f =
     (case storage region of
        None \<Rightarrow> Some (f, - EINVAL)
      | Some dev \<Rightarrow>
          if total_size region < offset + sz \<or> offset mod NVRAM_ERASE_ALIGN_SIZE \<noteq> 0 \<or> sz mod NVRAM_ERASE_ALIGN_SIZE \<noteq> 0
          then Some (f, - EINVAL)
          else map_option (\<lambda>f1. (f1, 0)) (erase_loop region dev offset sz f))"

definition region_clear :: "region_info \<Rightarrow> nat \<Rightarrow> flash \<Rightarrow> (flash \<times> int) option" where
  "region_clear region clear_size f =
     (let clear_size = ROUND_UP clear_size (seg_size region);
          clear_size = (if total_size region - seg_size region < clear_size then total_size region - seg_size region else clear_size);
          offset = seg_offset region + seg_size region
      in if total_size region < offset + clear_size
         then do {
           let erase_size = total_size region - offset;
           (f1, _) \<leftarrow> region_erase region offset erase_size f;
           (f2, _) \<leftarrow> region_erase region 0 (clear_size - erase_size) f1;
           Some (f2, 0)
         }
         else do { (f1, _) \<leftarrow> region_erase region offset clear_size f; Some (f1, 0) })"

section \<open>What a NOR flash does\<close>

definition flash_prog :: "flash \<Rightarrow> nat \<Rightarrow> u8 list \<Rightarrow> flash" where
  "flash_prog f a bs = (\<lambda>x. if a \<le> x \<and> x < a + length bs then f x AND bs ! (x - a) else f x)"

definition flash_fill :: "flash \<Rightarrow> nat \<Rightarrow> nat \<Rightarrow> flash" where
  "flash_fill f a n = (\<lambda>x. if a \<le> x \<and> x < a + n then 0xff else f x)"

definition nor_flash :: "flash_driver \<Rightarrow> nat \<Rightarrow> bool" where
  "nor_flash dev sz \<longleftrightarrow>
     (\<forall>f a n. a + n \<le> sz \<longrightarrow> flash_read dev f a n = Some (map f [a..<a + n])) \<and>
     (\<forall>f a bs. a + length bs \<le> sz \<longrightarrow> flash_write dev f a bs = (flash_prog f a bs, 0)) \<and>
     (\<forall>f a n. a + n \<le> sz \<and> NVRAM_ERASE_ALIGN_SIZE dvd a \<and> NVRAM_ERASE_ALIGN_SIZE dvd n \<longrightarrow> flash_erase dev f a n = (flash_fill f a n, 0))"


section \<open>Bytes at an address\<close>

definition bytes_at :: "flash \<Rightarrow> nat \<Rightarrow> u8 list \<Rightarrow> bool" where
  "bytes_at f a bs \<longleftrightarrow> map f [a..<a + length bs] = bs"

lemma bytes_at_Nil [simp]: "bytes_at f a []"
  by (simp add: bytes_at_def)

lemma bytes_at_nth: "bytes_at f a bs \<longleftrightarrow> (\<forall>i<length bs. f (a + i) = bs ! i)"
proof -
  have "map f [a..<a + length bs] = bs \<longleftrightarrow> (\<forall>i<length bs. map f [a..<a + length bs] ! i = bs ! i)"
    by (simp only: list_eq_iff_nth_eq length_map length_upt) simp
  also have "\<dots> \<longleftrightarrow> (\<forall>i<length bs. f (a + i) = bs ! i)" by simp
  finally show ?thesis by (simp only: bytes_at_def)
qed

lemma bytes_at_append: "bytes_at f a (xs @ ys) \<longleftrightarrow> bytes_at f a xs \<and> bytes_at f (a + length xs) ys"
proof -
  have "[a..<a + (length xs + length ys)] = [a..<a + length xs] @ [a + length xs..<a + length xs + length ys]"
    using upt_add_eq_append [of a "a + length xs" "length ys"] by (simp add: add.assoc)
  then show ?thesis by (auto simp: bytes_at_def)
qed

lemma bytes_at_unique: "bytes_at f a xs \<Longrightarrow> bytes_at f a ys \<Longrightarrow> length xs = length ys \<Longrightarrow> xs = ys"
  by (metis bytes_at_def)

lemma bytes_at_map: "bytes_at f a bs \<Longrightarrow> length bs = n \<Longrightarrow> map f [a..<a + n] = bs"
  by (auto simp: bytes_at_def)

lemma map_bytes_at: "bytes_at f a (map f [a..<a + n])"
  by (simp add: bytes_at_def)

lemma bytes_at_cong: "bytes_at f a bs \<Longrightarrow> (\<And>x. a \<le> x \<Longrightarrow> x < a + length bs \<Longrightarrow> g x = f x) \<Longrightarrow> bytes_at g a bs"
  by (simp add: bytes_at_nth)

lemma bytes_at_prog_other: "bytes_at f a bs \<Longrightarrow> a + length bs \<le> b \<or> b + length cs \<le> a \<Longrightarrow> bytes_at (flash_prog f b cs) a bs"
  by (erule bytes_at_cong) (auto simp: flash_prog_def)

lemma bytes_at_fill_other: "bytes_at f a bs \<Longrightarrow> a + length bs \<le> b \<or> b + n \<le> a \<Longrightarrow> bytes_at (flash_fill f b n) a bs"
  by (erule bytes_at_cong) (auto simp: flash_fill_def)

lemma and_ones_u8 [simp]: "0xff AND b = b" for b :: u8
proof -
  have "(0xff :: u8) = - 1" by simp
  then show ?thesis by (metis and.left_neutral)
qed

lemma bytes_at_prog_blank: "bytes_at f a (replicate (length bs) 0xff) \<Longrightarrow> bytes_at (flash_prog f a bs) a bs"
  by (simp add: bytes_at_nth flash_prog_def)

lemma bytes_at_fill: "bytes_at (flash_fill f a n) a (replicate n 0xff)"
  by (simp add: bytes_at_nth flash_fill_def)

lemma flash_prog_Nil [simp]: "flash_prog f a [] = f"
  by (auto simp: flash_prog_def fun_eq_iff)

lemma flash_prog_append: "flash_prog (flash_prog f a xs) (a + length xs) ys = flash_prog f a (xs @ ys)"
  by (auto simp: flash_prog_def nth_append fun_eq_iff)

lemma flash_prog_prog: "flash_prog f a bs x = (if a \<le> x \<and> x < a + length bs then f x AND bs ! (x - a) else f x)"
  by (simp add: flash_prog_def)

lemma flash_fill_0 [simp]: "flash_fill f a 0 = f"
  by (auto simp: flash_fill_def fun_eq_iff)

lemma flash_fill_append: "flash_fill (flash_fill f a m) (a + m) n = flash_fill f a (m + n)"
  by (auto simp: flash_fill_def fun_eq_iff)

lemma flash_fill_blank: "bytes_at f a (replicate n 0xff) \<Longrightarrow> flash_fill f a n = f"
proof
  fix x assume "bytes_at f a (replicate n 0xff)"
  then have "a \<le> x \<Longrightarrow> x < a + n \<Longrightarrow> f x = 0xff" by (simp add: bytes_at_nth) (metis le_add_diff_inverse nat_add_left_cancel_less)
  then show "flash_fill f a n x = f x" by (simp add: flash_fill_def)
qed

section \<open>The layers on a NOR flash\<close>

lemma nor_read: "nor_flash dev n \<Longrightarrow> a + k \<le> n \<Longrightarrow> flash_read dev f a k = Some (map f [a..<a + k])"
  by (simp add: nor_flash_def)

lemma nor_write: "nor_flash dev n \<Longrightarrow> a + length bs \<le> n \<Longrightarrow> flash_write dev f a bs = (flash_prog f a bs, 0)"
  by (simp add: nor_flash_def)

lemma nor_erase: "nor_flash dev n \<Longrightarrow> a + k \<le> n \<Longrightarrow> 4096 dvd a \<Longrightarrow> 4096 dvd k \<Longrightarrow> flash_erase dev f a k = (flash_fill f a k, 0)"
  by (simp add: nor_flash_def)

lemma storage_write:
  assumes "nor_flash dev n" "addr + length buf \<le> n"
  shows "nvram_storage_write dev addr buf f = (flash_prog f addr buf, 0)"
  using assms
proof (induction dev addr buf f rule: nvram_storage_write.induct)
  case (1 dev addr buf f)
  show ?case
  proof (cases "buf = []")
    case False
    let ?w = "min (length buf) WRITE_SEGMENT"
    have l: "length (take ?w buf) = ?w" by simp
    have w: "flash_write dev f addr (take ?w buf) = (flash_prog f addr (take ?w buf), 0)"
      by (rule nor_write [OF "1.prems"(1)]) (use "1.prems"(2) l in linarith)
    have "nvram_storage_write dev (addr + ?w) (drop ?w buf) (flash_prog f addr (take ?w buf)) =
        (flash_prog (flash_prog f addr (take ?w buf)) (addr + ?w) (drop ?w buf), 0)"
      by (rule "1.IH" [OF False refl w [symmetric] refl _ "1.prems"(1)]) (use "1.prems"(2) in auto)
    also have "\<dots> = (flash_prog f addr buf, 0)"
      using flash_prog_append [of f addr "take ?w buf" "drop ?w buf"] l by (metis append_take_drop_id)
    finally show ?thesis using False w by (simp add: nvram_storage_write.simps [of dev addr buf] Let_def)
  qed (simp add: nvram_storage_write.simps)
qed

lemma upt_split: "k \<le> n \<Longrightarrow> [a..<a + n] = [a..<a + k] @ [a + k..<a + k + (n - k)]" for a k n :: nat
  using upt_add_eq_append [of a "a + k" "n - k"] by simp

lemma storage_read:
  assumes "nor_flash dev n" "addr + k \<le> n"
  shows "nvram_storage_read dev addr k f = Inr (map f [addr..<addr + k])"
  using assms
proof (induction dev addr k f rule: nvram_storage_read.induct)
  case (1 dev addr k f)
  show ?case
  proof (cases "k = 0")
    case False
    let ?w = "min k READ_SEGMENT"
    have r: "flash_read dev f addr ?w = Some (map f [addr..<addr + ?w])"
      by (rule nor_read [OF "1.prems"(1)]) (use "1.prems"(2) in linarith)
    have "nvram_storage_read dev (addr + ?w) (k - ?w) f = Inr (map f [addr + ?w..<addr + ?w + (k - ?w)])"
      by (rule "1.IH" [OF False refl r "1.prems"(1)]) (use "1.prems"(2) in linarith)
    then show ?thesis using False r upt_split [of ?w k addr] by (simp add: nvram_storage_read.simps [of dev addr k] Let_def)
  qed (simp add: nvram_storage_read.simps)
qed

definition region_ok :: "region_info \<Rightarrow> bool" where
  "region_ok region \<longleftrightarrow> (\<exists>dev n. storage region = Some dev \<and> nor_flash dev n \<and> base_addr region + total_size region \<le> n) \<and>
     4096 dvd base_addr region \<and> 4096 dvd total_size region"

lemma region_okE:
  assumes "region_ok region"
  obtains dev n where "storage region = Some dev" "nor_flash dev n" "base_addr region + total_size region \<le> n"
    "4096 dvd base_addr region" "4096 dvd total_size region"
  using assms unfolding region_ok_def by blast

lemma read_ok:
  assumes "region_ok region" "offset + len \<le> total_size region"
  shows "region_read region offset len f = Inr (map f [base_addr region + offset..<base_addr region + offset + len])"
proof -
  obtain dev n where d: "storage region = Some dev" "nor_flash dev n" "base_addr region + total_size region \<le> n"
    using assms(1) by (rule region_okE)
  have "nvram_storage_read dev (base_addr region + offset) len f = Inr (map f [base_addr region + offset..<base_addr region + offset + len])"
    by (rule storage_read [OF d(2)]) (use assms(2) d(3) in linarith)
  then show ?thesis using assms(2) d(1) by (simp add: region_read_def)
qed

lemma fetch_ok:
  assumes "region_ok region" "offset + len \<le> total_size region"
  shows "region_fetch region offset len f = Some (map f [base_addr region + offset..<base_addr region + offset + len])"
  using read_ok [OF assms] by (simp add: region_fetch_def)

lemma fetch_bytes:
  assumes "region_ok region" "bytes_at f (base_addr region + offset) bs" "length bs = len" "offset + len \<le> total_size region"
  shows "region_fetch region offset len f = Some bs"
  using fetch_ok [OF assms(1,4)] bytes_at_map [OF assms(2,3)] by simp

lemma write_ok:
  assumes "region_ok region" "offset + length buf \<le> total_size region"
  shows "region_write region offset buf f = (flash_prog f (base_addr region + offset) buf, 0)"
proof -
  obtain dev n where d: "storage region = Some dev" "nor_flash dev n" "base_addr region + total_size region \<le> n"
    using assms(1) by (rule region_okE)
  have "nvram_storage_write dev (base_addr region + offset) buf f = (flash_prog f (base_addr region + offset) buf, 0)"
    by (rule storage_write [OF d(2)]) (use assms(2) d(3) in linarith)
  then show ?thesis using assms(2) d(1) by (simp add: region_write_def)
qed

lemma copy_ok:
  assumes "region_ok region" "src + len \<le> total_size region" "dst + len \<le> total_size region" "src + len \<le> dst \<or> dst + len \<le> src"
    "bytes_at f (base_addr region + src) bs" "length bs = len"
  shows "region_copy region src dst len f = (flash_prog f (base_addr region + dst) bs, 0)"
  using assms
proof (induction region src dst len f arbitrary: bs rule: region_copy.induct)
  case (1 region src dst len f)
  show ?case
  proof (cases "len = 0")
    case False
    let ?w = "min len NVRAM_BUFFER_SIZE"
    let ?f = "flash_prog f (base_addr region + dst) (take ?w bs)"
    have b: "bytes_at f (base_addr region + src) (take ?w bs)" "bytes_at f (base_addr region + src + ?w) (drop ?w bs)"
      using "1.prems"(5,6) bytes_at_append [of f "base_addr region + src" "take ?w bs" "drop ?w bs"] by simp_all
    have l: "length (take ?w bs) = ?w" "length (drop ?w bs) = len - ?w" using "1.prems"(6) by simp_all
    have r: "region_read region src ?w f = Inr (take ?w bs)"
      using read_ok [OF "1.prems"(1), of src ?w f] "1.prems"(2) bytes_at_map [OF b(1) l(1)] by simp
    have w: "fst (region_write region dst (take ?w bs) f) = ?f"
      using write_ok [OF "1.prems"(1), of dst "take ?w bs" f] "1.prems"(3) l(1) by simp
    have "bytes_at ?f (base_addr region + (src + ?w)) (drop ?w bs)"
      using bytes_at_prog_other [OF b(2), of "base_addr region + dst" "take ?w bs"] "1.prems"(4) l by (simp add: add.assoc) linarith
    then have "region_copy region (src + ?w) (dst + ?w) (len - ?w) ?f = (flash_prog ?f (base_addr region + (dst + ?w)) (drop ?w bs), 0)"
      using "1.IH" [OF False refl r "1.prems"(1), of "drop ?w bs"] "1.prems"(2-4) l(2) w by auto
    also have "flash_prog ?f (base_addr region + (dst + ?w)) (drop ?w bs) = flash_prog f (base_addr region + dst) bs"
      using flash_prog_append [of f "base_addr region + dst" "take ?w bs" "drop ?w bs"] l(1) by (metis add.assoc append_take_drop_id)
    finally show ?thesis using False r w by (simp add: region_copy.simps [of region src dst len] Let_def)
  qed (use "1.prems"(6) in \<open>simp add: region_copy.simps\<close>)
qed

lemma blank_iff: "bytes_at f a (replicate n b) \<longleftrightarrow> list_all (\<lambda>c. c = b) (map f [a..<a + n])"
  by (auto simp: bytes_at_nth list_all_length)

lemma is_empy_ok:
  assumes "region_ok region" "offset + k \<le> total_size region" "4 dvd k"
  shows "region_is_empy region offset k f = Some (bytes_at f (base_addr region + offset) (replicate k 0xff))"
  using assms
proof (induction region offset k f rule: region_is_empy.induct)
  case (1 region offset k f)
  obtain dev n where d: "storage region = Some dev" "nor_flash dev n" "base_addr region + total_size region \<le> n"
    using "1.prems"(1) by (rule region_okE)
  show ?case
  proof (cases "k = 0")
    case False
    let ?w = "min k NVRAM_BUFFER_SIZE"
    let ?bs = "map f [base_addr region + offset..<base_addr region + offset + ?w]"
    have r: "nvram_storage_read dev (base_addr region + offset) ?w f = Inr ?bs"
      by (rule storage_read [OF d(2)]) (use "1.prems"(2) d(3) in linarith)
    have w4: "4 dvd ?w" using "1.prems"(3) by (auto simp: min_def)
    then have w: "?w div 4 * 4 = ?w" by simp
    have t: "take (?w div 4 * 4) ?bs = ?bs" unfolding w by simp
    have "replicate k 0xff = replicate ?w 0xff @ replicate (k - ?w) (0xff :: u8)" by (simp add: replicate_add [symmetric])
    then have s: "bytes_at f (base_addr region + offset) (replicate k 0xff) \<longleftrightarrow> list_all (\<lambda>b. b = 0xff) ?bs \<and>
        bytes_at f (base_addr region + (offset + ?w)) (replicate (k - ?w) 0xff)"
      by (simp only: bytes_at_append blank_iff length_replicate add.assoc)
    have "list_all (\<lambda>b. b = 0xff) ?bs \<Longrightarrow> region_is_empy region (offset + ?w) (k - ?w) f =
        Some (bytes_at f (base_addr region + (offset + ?w)) (replicate (k - ?w) 0xff))"
      by (rule "1.IH" [OF False refl d(1) r _ "1.prems"(1)]) (use t "1.prems"(2,3) w4 in \<open>auto simp: dvd_diff_nat\<close>)
    then show ?thesis unfolding region_is_empy.simps [of region offset k f] using False d(1) r s t by (simp add: Let_def)
  qed (simp add: region_is_empy.simps)
qed

lemma erase_loop_ok:
  assumes "region_ok region" "storage region = Some dev" "offset + k \<le> total_size region" "4096 dvd offset" "4096 dvd k"
  shows "erase_loop region dev offset k f = Some (flash_fill f (base_addr region + offset) k)"
  using assms
proof (induction region dev offset k f rule: erase_loop.induct)
  case (1 region dev offset k f)
  obtain dev' n where d: "storage region = Some dev'" "nor_flash dev' n" "base_addr region + total_size region \<le> n" "4096 dvd base_addr region"
    using "1.prems"(1) by (rule region_okE)
  then have dev: "nor_flash dev n" using "1.prems"(2) by simp
  show ?case
  proof (cases "k = 0")
    case False
    then have k: "4096 \<le> k" using "1.prems"(5) by (simp add: dvd_imp_le)
    let ?a = "base_addr region + offset"
    let ?e = "bytes_at f ?a (replicate 4096 0xff)"
    have e: "region_is_empy region offset 4096 f = Some ?e" by (rule is_empy_ok [OF "1.prems"(1)]) (use k "1.prems"(3) in simp_all)
    have "nvram_storage_erase dev ?a 4096 f = (flash_fill f ?a 4096, 0)"
      unfolding nvram_storage_erase_def by (rule nor_erase [OF dev]) (use k d "1.prems"(3,4) in auto)
    then have f: "(if ?e then f else fst (nvram_storage_erase dev ?a 4096 f)) = flash_fill f ?a 4096"
      using flash_fill_blank [of f ?a 4096] by simp
    have "erase_loop region dev (offset + 4096) (k - 4096) (flash_fill f ?a 4096) =
        Some (flash_fill (flash_fill f ?a 4096) (base_addr region + (offset + 4096)) (k - 4096))"
      using "1.IH" [OF False e "1.prems"(1,2)] "1.prems"(3-5) k unfolding f by (simp add: dvd_diff_nat)
    also have "flash_fill (flash_fill f ?a 4096) (base_addr region + (offset + 4096)) (k - 4096) = flash_fill f ?a k"
      using flash_fill_append [of f ?a 4096 "k - 4096"] k by (simp add: add.assoc)
    finally show ?thesis unfolding erase_loop.simps [of region dev offset k f] using False e f by simp
  qed (simp add: erase_loop.simps)
qed

lemma erase_ok:
  assumes "region_ok region" "offset + k \<le> total_size region" "4096 dvd offset" "4096 dvd k"
  shows "region_erase region offset k f = Some (flash_fill f (base_addr region + offset) k, 0)"
proof -
  obtain dev where d: "storage region = Some dev" using assms(1) by (auto elim: region_okE)
  show ?thesis using erase_loop_ok [OF assms(1) d assms(2-4)] d assms(2-4) by (simp add: region_erase_def dvd_eq_mod_eq_0)
qed

end
