(* ===== verification/Nvram_Bitmap.thy ===== *)
theory Nvram_Bitmap
  imports Prelude "HOL-Library.Monad_Syntax"
begin

text \<open>
  The bitmap of the items of a segment, \<^verbatim>\<open>CONFIG_NVRAM_FAST_SEARCH\<close> in \<^verbatim>\<open>src/zephyr/drivers/nvram/nvram_config.c\<close>:
  one bit for every 16 bytes of the segment, in words of 32 bits, and the search for the next set bit. \<open>None\<close> is an
  access outside the array of words. The search agrees with the first set bit of the list of all bits.
\<close>

unbundle bit_operations_syntax

section \<open>Model\<close>

abbreviation NVRAM_ITEM_ALIGN_SIZE :: nat where "NVRAM_ITEM_ALIGN_SIZE \<equiv> 0x10"
abbreviation NVRAM_SEG_ITEM_START_OFFSET :: nat where "NVRAM_SEG_ITEM_START_OFFSET \<equiv> 0x10"

text \<open>\<open>__builtin_ffs\<close>: one more than the index of the lowest set bit, 0 for the word 0.\<close>

definition find_lsb_set :: "u32 \<Rightarrow> nat" where
  "find_lsb_set w = (if w = 0 then 0 else Suc (length (takeWhile (\<lambda>i. \<not> bit w i) [0..<32])))"

text \<open>The part behind the label \<open>found_first\<close>, and the loop over whole words before it.\<close>

definition find_tail :: "u32 \<Rightarrow> nat \<Rightarrow> nat \<Rightarrow> nat" where
  "find_tail tmp result sz =
     (let tmp = tmp AND drop_bit (32 - sz) (NOT 0) in if tmp = 0 then result + sz else result + (find_lsb_set tmp - 1))"

fun find_words :: "u32 list \<Rightarrow> nat \<Rightarrow> nat \<Rightarrow> nat option" where
  "find_words [] result sz = (if sz = 0 then Some result else None)"
| "find_words (w # ws) result sz =
     (if 32 \<le> sz then if w \<noteq> 0 then Some (result + (find_lsb_set w - 1)) else find_words ws (result + 32) (sz - 32)
      else if sz = 0 then Some result
      else Some (find_tail w result sz))"

definition find_first_bit :: "u32 list \<Rightarrow> nat \<Rightarrow> nat option" where
  "find_first_bit addr sz = find_words addr 0 sz"

definition find_next_bit :: "u32 list \<Rightarrow> nat \<Rightarrow> nat \<Rightarrow> nat option" where
  "find_next_bit addr sz offset =
     (let p = drop (offset div 32) addr; result = offset - offset mod 32
      in if sz \<le> offset then Some sz
         else let sz = sz - result; offset = offset mod 32
              in if offset \<noteq> 0
                 then (case p of
                         [] \<Rightarrow> None
                       | w # p \<Rightarrow>
                           let tmp = w AND push_bit offset (NOT 0)
                           in if sz < 32 then Some (find_tail tmp result sz)
                              else if tmp \<noteq> 0 then Some (result + (find_lsb_set tmp - 1))
                              else find_words p (result + 32) (sz - 32))
                 else find_words p result sz)"

definition item_bitmap_first_offset :: "u32 list option \<Rightarrow> nat \<Rightarrow> nat option" where
  "item_bitmap_first_offset seg_item_map seg_sz =
     (case seg_item_map of
        None \<Rightarrow> Some NVRAM_SEG_ITEM_START_OFFSET
      | Some m \<Rightarrow> do { b \<leftarrow> find_first_bit m (seg_sz div NVRAM_ITEM_ALIGN_SIZE); Some (b * NVRAM_ITEM_ALIGN_SIZE) })"

definition item_bitmap_next_offset :: "u32 list option \<Rightarrow> nat \<Rightarrow> nat \<Rightarrow> nat option" where
  "item_bitmap_next_offset seg_item_map seg_sz offset =
     (case seg_item_map of
        None \<Rightarrow> Some offset
      | Some m \<Rightarrow> do {
          b \<leftarrow> find_next_bit m (seg_sz div NVRAM_ITEM_ALIGN_SIZE) (offset div NVRAM_ITEM_ALIGN_SIZE);
          Some (b * NVRAM_ITEM_ALIGN_SIZE)
        })"

definition item_bitmap_update :: "u32 list option \<Rightarrow> nat \<Rightarrow> bool \<Rightarrow> u32 list option option" where
  "item_bitmap_update seg_item_map offset is_set =
     (case seg_item_map of
        None \<Rightarrow> Some None
      | Some m \<Rightarrow>
          let n = offset div NVRAM_ITEM_ALIGN_SIZE; w = n div 32; b = n mod 32
          in if length m \<le> w then None
             else Some (Some (m[w := if is_set then m ! w OR push_bit b 1 else m ! w AND NOT (push_bit b 1)])))"

definition item_bitmap_clear_all :: "u32 list option \<Rightarrow> u32 list option" where
  "item_bitmap_clear_all seg_item_map = map_option (map (\<lambda>_. 0)) seg_item_map"

section \<open>Reference: the list of bits\<close>

definition bitset :: "u32 list \<Rightarrow> nat \<Rightarrow> bool" where
  "bitset ws j \<longleftrightarrow> bit (ws ! (j div 32)) (j mod 32)"

definition first_set :: "(nat \<Rightarrow> bool) \<Rightarrow> nat \<Rightarrow> nat \<Rightarrow> nat" where
  "first_set P i n = (case filter P [i..<n] of [] \<Rightarrow> n | j # _ \<Rightarrow> j)"

lemma upt_cut: "i \<le> j \<Longrightarrow> j \<le> n \<Longrightarrow> [i..<n] = [i..<j] @ [j..<n]" for i j n :: nat
  using upt_add_eq_append [of i j "n - j"] by simp

lemma first_set_skip: "i \<le> j \<Longrightarrow> j \<le> n \<Longrightarrow> (\<And>k. i \<le> k \<Longrightarrow> k < j \<Longrightarrow> \<not> P k) \<Longrightarrow> first_set P i n = first_set P j n"
proof -
  assume a: "i \<le> j" "j \<le> n" "\<And>k. i \<le> k \<Longrightarrow> k < j \<Longrightarrow> \<not> P k"
  have "filter P [i..<j] = []" using a(3) by (simp add: filter_empty_conv)
  then show ?thesis by (simp add: first_set_def upt_cut [OF a(1,2)])
qed

lemma first_set_eqI:
  assumes "i \<le> j" "j \<le> n" "\<And>k. i \<le> k \<Longrightarrow> k < j \<Longrightarrow> \<not> P k" "j < n \<Longrightarrow> P j"
  shows "first_set P i n = j"
  using first_set_skip [of i j n P] assms by (cases "j < n") (auto simp: first_set_def upt_conv_Cons)

lemma first_set_props:
  assumes "i \<le> n"
  shows "i \<le> first_set P i n" "first_set P i n \<le> n" "first_set P i n < n \<Longrightarrow> P (first_set P i n)"
    "i \<le> k \<Longrightarrow> k < first_set P i n \<Longrightarrow> \<not> P k"
proof -
  have a: "i \<le> first_set P i n \<and> first_set P i n \<le> n \<and> (first_set P i n < n \<longrightarrow> P (first_set P i n)) \<and>
      (\<forall>k. i \<le> k \<longrightarrow> k < first_set P i n \<longrightarrow> \<not> P k)"
    using assms
  proof (induction "n - i" arbitrary: i)
    case 0
    then show ?case by (simp add: first_set_def)
  next
    case (Suc d)
    then have i: "i < n" "[i..<n] = i # [Suc i..<n]" by (simp_all add: upt_conv_Cons)
    show ?case
    proof (cases "P i")
      case True
      then have "first_set P i n = i" using i(2) by (simp add: first_set_def)
      then show ?thesis using True i(1) by simp
    next
      case False
      then have "first_set P i n = first_set P (Suc i) n" using i(2) by (simp add: first_set_def)
      moreover have "Suc i \<le> n" "d = n - Suc i" using Suc.hyps(2) i(1) by simp_all
      ultimately show ?thesis using Suc.hyps(1) [of "Suc i"] False by (metis Suc_leD Suc_leI le_neq_implies_less)
    qed
  qed
  then show "i \<le> first_set P i n" "first_set P i n \<le> n" "first_set P i n < n \<Longrightarrow> P (first_set P i n)"
    "i \<le> k \<Longrightarrow> k < first_set P i n \<Longrightarrow> \<not> P k" by blast+
qed

lemma lsb_props:
  assumes "(w :: u32) \<noteq> 0"
  shows "find_lsb_set w - 1 < 32" "bit w (find_lsb_set w - 1)" "k < find_lsb_set w - 1 \<Longrightarrow> \<not> bit w k"
proof -
  let ?t = "takeWhile (\<lambda>i. \<not> bit w i) [0..<32]"
  have e: "find_lsb_set w - 1 = length ?t" using assms by (simp add: find_lsb_set_def)
  obtain j where j: "bit w j" using assms by (metis bit_eq_iff bit_0_eq bot_apply bot_bool_def)
  then have "j < 32" using bit_imp_le_length [OF j] by simp
  then have "\<exists>x\<in>set [0..<32]. bit w x" using j by auto
  then have l: "length ?t < length [0 :: nat..<32]" by (metis takeWhile_eq_all_conv length_takeWhile_le nat_less_le takeWhile_eq_take take_all_iff)
  then show "find_lsb_set w - 1 < 32" using e by simp
  show "bit w (find_lsb_set w - 1)" using nth_length_takeWhile [OF l] l unfolding e by simp
  assume "k < find_lsb_set w - 1"
  then have k: "k < length ?t" using e by simp
  then have "?t ! k \<in> set ?t" by (rule nth_mem)
  then have "\<not> bit w (?t ! k)" by (auto dest: set_takeWhileD)
  moreover have "?t ! k = [0..<32] ! k" using k by (rule takeWhile_nth)
  ultimately show "\<not> bit w k" using k l by simp
qed

lemma find_lsb_first: "w \<noteq> 0 \<Longrightarrow> first_set (bit w) 0 32 = find_lsb_set w - 1"
  using lsb_props [of w] by (intro first_set_eqI) simp_all

lemma bit_low_mask: "0 < sz \<Longrightarrow> sz < 32 \<Longrightarrow> bit (w AND drop_bit (32 - sz) (NOT 0) :: u32) i \<longleftrightarrow> bit w i \<and> i < sz"
  by (auto simp: bit_and_iff bit_drop_bit_eq bit_not_iff bit_mask_iff dest: bit_imp_le_length)

lemma find_tail_first:
  assumes "0 < sz" "sz < 32"
  shows "find_tail w result sz = result + first_set (bit w) 0 sz"
proof -
  let ?t = "w AND drop_bit (32 - sz) (NOT 0)"
  have b: "bit ?t i \<longleftrightarrow> bit w i \<and> i < sz" for i using assms by (rule bit_low_mask)
  show ?thesis
  proof (cases "?t = 0")
    case True
    then have "\<not> bit w i" if "i < sz" for i using b [of i] that by simp
    then have "first_set (bit w) 0 sz = sz" by (intro first_set_eqI) simp_all
    then show ?thesis using True by (simp add: find_tail_def)
  next
    case False
    note l = lsb_props [OF False]
    have "first_set (bit w) 0 sz = find_lsb_set ?t - 1"
      using l(2) l(3) b by (intro first_set_eqI) (auto dest: less_trans)
    then show ?thesis using False by (simp add: find_tail_def)
  qed
qed

lemma bitset_Cons: "bitset (w # ws) k = (if k < 32 then bit w k else bitset ws (k - 32))"
proof (cases "k < 32")
  case False
  then obtain j where "k = 32 + j" by (metis le_add_diff_inverse not_less)
  then show ?thesis by (simp add: bitset_def div_add_self1)
qed (simp add: bitset_def)

lemma first_set_shift: "m \<le> i \<Longrightarrow> i \<le> n \<Longrightarrow> first_set P i n = m + first_set (\<lambda>k. P (m + k)) (i - m) (n - m)"
proof -
  assume a: "m \<le> i" "i \<le> n"
  let ?Q = "\<lambda>k. P (m + k)"
  let ?j = "first_set ?Q (i - m) (n - m)"
  have r: "i - m \<le> n - m" using a by simp
  note p = first_set_props [OF r, where P = ?Q]
  show ?thesis
  proof (rule first_set_eqI)
    show "i \<le> m + ?j" "m + ?j \<le> n" using p(1,2) a by linarith+
    show "\<not> P k" if "i \<le> k" "k < m + ?j" for k
    proof -
      have "\<not> ?Q (k - m)" by (rule p(4)) (use that a in linarith)+
      then show ?thesis using that(1) a(1) by simp
    qed
    show "m + ?j < n \<Longrightarrow> P (m + ?j)" by (rule p(3)) simp
  qed
qed

lemma find_words_first: "sz \<le> 32 * length ws \<Longrightarrow> find_words ws result sz = Some (result + first_set (bitset ws) 0 sz)"
proof (induction ws arbitrary: result sz)
  case Nil
  then show ?case by (simp add: first_set_def)
next
  case (Cons w ws)
  have low: "first_set (bitset (w # ws)) 0 n = first_set (bit w) 0 n" if "n \<le> 32" for n
    unfolding first_set_def using that by (metis (no_types, lifting) atLeastLessThan_iff bitset_Cons filter_cong order_less_le_trans set_upt)
  show ?case
  proof (cases "32 \<le> sz")
    case True
    show ?thesis
    proof (cases "w = 0")
      case False
      have l: "find_lsb_set w - 1 < 32" "bit w (find_lsb_set w - 1)" "\<And>k. k < find_lsb_set w - 1 \<Longrightarrow> \<not> bit w k"
        using lsb_props [OF False] by blast+
      have "first_set (bitset (w # ws)) 0 sz = find_lsb_set w - 1"
        using l True by (intro first_set_eqI) (auto simp: bitset_Cons)
      then show ?thesis using True False by simp
    next
      case z: True
      have "first_set (bitset (w # ws)) 0 sz = first_set (bitset (w # ws)) 32 sz"
        using True z by (intro first_set_skip) (auto simp: bitset_Cons)
      also have "\<dots> = 32 + first_set (\<lambda>k. bitset (w # ws) (32 + k)) (32 - 32) (sz - 32)" by (rule first_set_shift) (use True in simp_all)
      also have "(\<lambda>k. bitset (w # ws) (32 + k)) = bitset ws" by (simp add: bitset_Cons fun_eq_iff)
      finally show ?thesis using True z Cons.IH [of "sz - 32" "result + 32"] Cons.prems by (simp add: algebra_simps)
    qed
  next
    case False
    then show ?thesis using find_tail_first [of sz w result] low [of sz] by (cases "sz = 0") (simp_all add: first_set_def)
  qed
qed

lemma find_first_bit_ok: "sz \<le> 32 * length ws \<Longrightarrow> find_first_bit ws sz = Some (first_set (bitset ws) 0 sz)"
  by (simp add: find_first_bit_def find_words_first)

lemma bitset_drop: "32 * m + k < 32 * length ws \<Longrightarrow> bitset (drop m ws) k = bitset ws (32 * m + k)"
proof -
  assume "32 * m + k < 32 * length ws"
  then have "m + k div 32 < length ws" by linarith
  then show ?thesis by (simp add: bitset_def)
qed

lemma bit_high_mask: "bit (w AND push_bit b (NOT 0) :: u32) i \<longleftrightarrow> bit w i \<and> b \<le> i"
  by (auto simp: bit_and_iff bit_push_bit_iff bit_not_iff bit_mask_iff dest: bit_imp_le_length)

lemma first_set_cong: "(\<And>k. i \<le> k \<Longrightarrow> k < n \<Longrightarrow> P k = Q k) \<Longrightarrow> first_set P i n = first_set Q i n"
  unfolding first_set_def by (metis (no_types, lifting) atLeastLessThan_iff filter_cong set_upt)

text \<open>Within the first word, the search from \<open>b\<close> is the search from 0 in the masked word.\<close>

lemma first_set_mask:
  assumes "b \<le> n"
  shows "first_set (bit (w AND push_bit b (NOT 0) :: u32)) 0 n = first_set (bit w) b n"
proof -
  have "first_set (bit (w AND push_bit b (NOT 0))) 0 n = first_set (bit (w AND push_bit b (NOT 0))) b n"
    using assms by (intro first_set_skip) (simp_all only: bit_high_mask, simp_all)
  also have "\<dots> = first_set (bit w) b n" by (rule first_set_cong) (simp only: bit_high_mask, simp)
  finally show ?thesis .
qed

lemma find_next_bit_ok:
  assumes "sz \<le> 32 * length ws"
  shows "find_next_bit ws sz i = Some (if sz \<le> i then sz else first_set (bitset ws) i sz)"
proof (cases "sz \<le> i")
  case False
  define b where "b = i mod 32"
  define r where "r = i - b"
  let ?p = "drop (i div 32) ws"
  have r: "r = 32 * (i div 32)" "r + b = i" by (simp_all add: r_def b_def minus_mod_eq_mult_div)
  have b32: "b < 32" by (simp add: b_def)
  have "i div 32 < length ws" using False assms by linarith
  then obtain w p where p: "?p = w # p" by (metis Cons_nth_drop_Suc)
  have lp: "sz - r \<le> 32 * length ?p" using assms r(1) by simp
  have e: "first_set (bitset ws) i sz = r + first_set (bitset ?p) b (sz - r)"
  proof -
    have "first_set (bitset ws) i sz = r + first_set (\<lambda>k. bitset ws (r + k)) (i - r) (sz - r)"
      by (rule first_set_shift) (use False r(2) in simp_all)
    moreover have "first_set (\<lambda>k. bitset ws (r + k)) (i - r) (sz - r) = first_set (bitset ?p) (i - r) (sz - r)"
      using assms unfolding r(1) by (intro first_set_cong) (simp add: bitset_drop)
    moreover have "i - r = b" using r(2) by linarith
    ultimately show ?thesis by simp
  qed
  define t where "t = w AND push_bit b (NOT 0)"
  have tb: "bit t k \<longleftrightarrow> bit w k \<and> b \<le> k" for k unfolding t_def by (rule bit_high_mask)
  have d: "find_next_bit ws sz i = (if b \<noteq> 0 then
      if sz - r < 32 then Some (find_tail t r (sz - r))
      else if t \<noteq> 0 then Some (r + (find_lsb_set t - 1)) else find_words p (r + 32) (sz - r - 32)
      else find_words ?p r (sz - r))"
    using False p by (simp only: find_next_bit_def Let_def b_def r_def t_def list.case if_False)
  have bs: "b < sz - r" using False r(2) by linarith
  consider (aligned) "b = 0" | (short) "b \<noteq> 0" "sz - r < 32" | (zero) "b \<noteq> 0" "\<not> sz - r < 32" "t = 0"
    | (found) "b \<noteq> 0" "\<not> sz - r < 32" "t \<noteq> 0" by blast
  then have "find_next_bit ws sz i = Some (r + first_set (bitset ?p) b (sz - r))"
  proof cases
    case aligned
    then show ?thesis using d find_words_first [OF lp, of r] by simp
  next
    case short
    have "first_set (bit t) 0 (sz - r) = first_set (bit w) b (sz - r)" unfolding t_def by (rule first_set_mask) (use bs in simp)
    also have "\<dots> = first_set (bitset (w # p)) b (sz - r)" by (rule first_set_cong) (use short(2) in \<open>simp add: bitset_Cons\<close>)
    finally show ?thesis using d short p find_tail_first [of "sz - r" t r] bs by simp
  next
    case zero
    have z: "\<not> bit w k" if "b \<le> k" for k using zero(3) tb [of k] that by simp
    have "first_set (bitset (w # p)) b (sz - r) = first_set (bitset (w # p)) 32 (sz - r)"
      using zero(2) b32 z by (intro first_set_skip) (auto simp: bitset_Cons)
    also have "\<dots> = 32 + first_set (\<lambda>k. bitset (w # p) (32 + k)) (32 - 32) (sz - r - 32)" by (rule first_set_shift) (use zero(2) in simp_all)
    also have "(\<lambda>k. bitset (w # p) (32 + k)) = bitset p" by (simp add: bitset_Cons fun_eq_iff)
    finally show ?thesis using d zero p lp find_words_first [of "sz - r - 32" p "r + 32"] by simp
  next
    case found
    note ls = lsb_props [OF found(3)]
    have "first_set (bitset (w # p)) b (sz - r) = find_lsb_set t - 1"
      using ls(1,2) ls(3) found(2) tb by (intro first_set_eqI) (auto simp: bitset_Cons)
    then show ?thesis using d found p by simp
  qed
  then show ?thesis using False e by simp
qed (simp add: find_next_bit_def)

section \<open>The bitmap as a set of offsets\<close>

definition map_rep :: "u32 list option \<Rightarrow> nat set \<Rightarrow> bool" where
  "map_rep m S \<longleftrightarrow> (case m of None \<Rightarrow> True | Some ws \<Rightarrow> length ws = 8 \<and> (\<forall>j<256. bitset ws j \<longleftrightarrow> 16 * j \<in> S))"

lemma map_rep_None [simp]: "map_rep None S"
  by (simp add: map_rep_def)

lemma map_rep_Some: "map_rep (Some ws) S \<longleftrightarrow> length ws = 8 \<and> (\<forall>j<256. bitset ws j \<longleftrightarrow> 16 * j \<in> S)"
  by (simp add: map_rep_def)

lemma bitset_update:
  assumes "k div 32 < length ws" "j div 32 < length ws"
  shows "bitset (ws[k div 32 := ws ! (k div 32) OR push_bit (k mod 32) 1]) j \<longleftrightarrow> j = k \<or> bitset ws j"
    "bitset (ws[k div 32 := ws ! (k div 32) AND NOT (push_bit (k mod 32) 1)]) j \<longleftrightarrow> j \<noteq> k \<and> bitset ws j"
proof -
  have e: "j = k \<longleftrightarrow> j div 32 = k div 32 \<and> j mod 32 = k mod 32" by (metis div_mult_mod_eq)
  have b: "bit (push_bit (k mod 32) (1 :: u32)) (j mod 32) \<longleftrightarrow> j mod 32 = k mod 32"
    by (auto simp: bit_exp_iff)
  show "bitset (ws[k div 32 := ws ! (k div 32) OR push_bit (k mod 32) 1]) j \<longleftrightarrow> j = k \<or> bitset ws j"
    using assms b e by (cases "j div 32 = k div 32") (auto simp: bitset_def bit_or_iff)
  show "bitset (ws[k div 32 := ws ! (k div 32) AND NOT (push_bit (k mod 32) 1)]) j \<longleftrightarrow> j \<noteq> k \<and> bitset ws j"
    using assms b e by (cases "j div 32 = k div 32") (auto simp: bitset_def bit_and_iff bit_not_iff)
qed

lemma map_rep_update:
  assumes "map_rep m S" "16 dvd x" "x < 4096"
  shows "\<exists>m'. item_bitmap_update m x True = Some m' \<and> map_rep m' (insert x S)"
    "\<exists>m'. item_bitmap_update m x False = Some m' \<and> map_rep m' (S - {x})"
proof -
  obtain k where k: "x = 16 * k" "k < 256" "x div 16 = k" using assms(2,3) by auto
  show "\<exists>m'. item_bitmap_update m x True = Some m' \<and> map_rep m' (insert x S)"
  proof (cases m)
    case (Some ws)
    then have w: "length ws = 8" "\<And>j. j < 256 \<Longrightarrow> bitset ws j \<longleftrightarrow> 16 * j \<in> S" using assms(1) by (simp_all add: map_rep_Some)
    have l: "k div 32 < length ws" "\<And>j. j < 256 \<Longrightarrow> j div 32 < length ws" using w(1) k(2) by simp_all
    show ?thesis using Some w l bitset_update(1) [OF l(1)] k by (auto simp: item_bitmap_update_def Let_def map_rep_Some)
  qed (simp add: item_bitmap_update_def)
  show "\<exists>m'. item_bitmap_update m x False = Some m' \<and> map_rep m' (S - {x})"
  proof (cases m)
    case (Some ws)
    then have w: "length ws = 8" "\<And>j. j < 256 \<Longrightarrow> bitset ws j \<longleftrightarrow> 16 * j \<in> S" using assms(1) by (simp_all add: map_rep_Some)
    have l: "k div 32 < length ws" "\<And>j. j < 256 \<Longrightarrow> j div 32 < length ws" using w(1) k(2) by simp_all
    show ?thesis using Some w l bitset_update(2) [OF l(1)] k by (auto simp: item_bitmap_update_def Let_def map_rep_Some)
  qed (simp add: item_bitmap_update_def)
qed

lemma map_rep_clear: "map_rep m S \<Longrightarrow> map_rep (item_bitmap_clear_all m) {}"
  by (cases m) (auto simp: item_bitmap_clear_all_def map_rep_Some bitset_def)

lemma next_offset_Some:
  assumes "map_rep (Some ws) S" "k \<le> 256"
  shows "item_bitmap_next_offset (Some ws) 4096 (16 * k) = Some (16 * first_set (\<lambda>j. 16 * j \<in> S) k 256)"
proof -
  have w: "length ws = 8" "\<And>j. j < 256 \<Longrightarrow> bitset ws j \<longleftrightarrow> 16 * j \<in> S" using assms(1) by (simp_all add: map_rep_Some)
  have "find_next_bit ws 256 k = Some (if 256 \<le> k then 256 else first_set (bitset ws) k 256)" by (rule find_next_bit_ok) (simp add: w(1))
  also have "(if 256 \<le> k then 256 else first_set (bitset ws) k 256) = first_set (\<lambda>j. 16 * j \<in> S) k 256"
  proof (cases "256 \<le> k")
    case False
    have "first_set (bitset ws) k 256 = first_set (\<lambda>j. 16 * j \<in> S) k 256" by (rule first_set_cong) (simp add: w(2))
    then show ?thesis using False by simp
  qed (use assms(2) in \<open>simp add: first_set_def\<close>)
  finally show ?thesis by (simp add: item_bitmap_next_offset_def mult.commute)
qed

text \<open>The facts the item loops use: an item of the set is found, other items are skipped, at the end nothing is left.\<close>

lemma next_offset_hit:
  assumes "map_rep m S" "16 dvd x" "x < 4096" "x \<in> S"
  shows "item_bitmap_next_offset m 4096 x = Some x"
proof (cases m)
  case (Some ws)
  obtain k where k: "x = 16 * k" "k < 256" using assms(2,3) by auto
  have "first_set (\<lambda>j. 16 * j \<in> S) k 256 = k" using k assms(4) by (intro first_set_eqI) auto
  then show ?thesis using Some k next_offset_Some [of ws S k] assms(1) by simp
qed (simp add: item_bitmap_next_offset_def)

lemma next_offset_skip:
  assumes "map_rep (Some ws) S" "16 dvd x" "16 dvd y" "x \<le> y" "y \<le> 4096" "S \<inter> {x..<y} = {}"
  shows "item_bitmap_next_offset (Some ws) 4096 x = item_bitmap_next_offset (Some ws) 4096 y"
proof -
  obtain k where k1: "x = 16 * k" using assms(2) by (rule dvdE)
  obtain l where k2: "y = 16 * l" using assms(3) by (rule dvdE)
  have k: "x = 16 * k" "y = 16 * l" "k \<le> l" "l \<le> 256" using k1 k2 assms(4,5) by simp_all
  have "first_set (\<lambda>j. 16 * j \<in> S) k 256 = first_set (\<lambda>j. 16 * j \<in> S) l 256"
    by (rule first_set_skip) (use k assms(6) in auto)
  then show ?thesis using k next_offset_Some [OF assms(1)] by simp
qed

lemma next_offset_end:
  assumes "map_rep m S"
  shows "item_bitmap_next_offset m 4096 4096 = Some 4096"
proof (cases m)
  case (Some ws)
  then show ?thesis using next_offset_Some [of ws S 256] assms by (simp add: first_set_def)
qed (simp add: item_bitmap_next_offset_def)

lemma first_offset_next:
  assumes "map_rep m S" "S \<inter> {0..<16} = {}"
  shows "item_bitmap_first_offset m 4096 = item_bitmap_next_offset m 4096 16"
proof (cases m)
  case (Some ws)
  then have w: "length ws = 8" using assms(1) by (simp add: map_rep_Some)
  have "find_first_bit ws 256 = Some (first_set (bitset ws) 0 256)" by (rule find_first_bit_ok) (simp add: w)
  moreover have "find_next_bit ws 256 0 = Some (first_set (bitset ws) 0 256)" using find_next_bit_ok [of 256 ws 0] w by simp
  ultimately have "item_bitmap_first_offset m 4096 = item_bitmap_next_offset m 4096 0"
    using Some by (simp add: item_bitmap_first_offset_def item_bitmap_next_offset_def)
  also have "\<dots> = item_bitmap_next_offset m 4096 16" using Some assms next_offset_skip [of ws S 0 16] by simp
  finally show ?thesis .
qed (simp add: item_bitmap_first_offset_def item_bitmap_next_offset_def)

section \<open>Property\<close>

text \<open>
  C32: The searches by words, which mask the first and the last word and skip words that are 0, return the first set bit
  of the bitmap from the start or from the given bit on, and the number of bits when there is none, for every number of
  bits the array has.
\<close>

theorem bit_search_correct:
  assumes "sz \<le> 32 * length ws"
  shows "find_first_bit ws sz = Some (first_set (bitset ws) 0 sz) \<and>
    find_next_bit ws sz i = Some (if sz \<le> i then sz else first_set (bitset ws) i sz)"
  using find_first_bit_ok [OF assms] find_next_bit_ok [OF assms] by simp

theorem bit_search_correct_witness:
  "find_first_bit [0, 0x100] 50 = Some 40 \<and> find_next_bit [0, 0x100] 50 41 = Some 50"
  using bit_search_correct [of 50 "[0, 0x100]" 41] by (simp add: first_set_def bitset_def upt_rec bit_iff_odd)

end
