(* ===== verification/Nvram_Config.thy ===== *)
theory Nvram_Config
  imports Nvram_Storage Nvram_Bitmap
begin

text \<open>
  The configuration store of \<^verbatim>\<open>src/zephyr/drivers/nvram/nvram_config.c\<close>: named items in a log. A region of the flash is
  divided into segments; one segment is current. A set appends an item to the log and marks the item with the old
  value obsolete by clearing bits of its state byte; when the segment is full, the valid items are copied to the next
  segment. At start up the current segment is found by its header and its items are scanned.

  A name is the list of its bytes without the closing zero; the code never gets a null pointer for a name. The data of a
  set is a list of at most 512 bytes, an empty list removes the item. \<open>None\<close> is undefined behaviour: a read whose
  error is ignored (see \<open>Nvram_Storage\<close>), an overflow of the 128 bytes of \<open>nvram_buf\<close>, an access outside the
  bitmap, or a loop that does not end. \<open>memcmp\<close> of a stored name longer than the name looked for differs at the closing
  zero, before the end of either.
\<close>

unbundle bit_operations_syntax

section \<open>Items and headers\<close>

datatype item_status = ITEM_STATUS_EMPTY | ITEM_STATUS_VALID | ITEM_STATUS_OBSOLETE | ITEM_STATUS_INVALID

record region_seg_header =
  h_magic :: u32
  h_state :: u8
  h_crc :: u8
  h_version :: u8
  h_reserved :: u8
  h_seq_id :: u8
  h_head_size :: u8
  h_seg_size :: u16
  h_reserved2 :: "u8 list"

record nvram_item =
  i_magic :: u8
  i_state :: u8
  i_crc :: u8
  i_hash :: u8
  i_reserved :: u8
  i_name_size :: u8
  i_data_size :: u16

abbreviation NVRAM_REGION_SEG_MAGIC :: u32 where "NVRAM_REGION_SEG_MAGIC \<equiv> 0x5253564E"
abbreviation NVRAM_REGION_ITEM_MAGIC :: u8 where "NVRAM_REGION_ITEM_MAGIC \<equiv> 0x49"
abbreviation STATE_VALID :: u8 where "STATE_VALID \<equiv> 0xff"
abbreviation STATE_OBSOLETE :: u8 where "STATE_OBSOLETE \<equiv> 0x5a"
abbreviation NVRAM_REGION_SEG_VERSION :: u8 where "NVRAM_REGION_SEG_VERSION \<equiv> 1"
abbreviation NVRAM_MAX_NAME_SIZE :: nat where "NVRAM_MAX_NAME_SIZE \<equiv> 112"
abbreviation NVRAM_MAX_DATA_SIZE :: nat where "NVRAM_MAX_DATA_SIZE \<equiv> 512"
abbreviation ITEM_SIZE :: nat where "ITEM_SIZE \<equiv> 8" \<comment> \<open>\<open>sizeof(struct nvram_item)\<close>\<close>
abbreviation HEADER_SIZE :: nat where "HEADER_SIZE \<equiv> 16" \<comment> \<open>\<open>sizeof(struct region_seg_header)\<close>\<close>

text \<open>The packed little endian layout of the structures.\<close>

definition le16 :: "u16 \<Rightarrow> u8 list" where
  "le16 w = [ucast w, ucast (drop_bit 8 w)]"

definition of_le16 :: "u8 \<Rightarrow> u8 \<Rightarrow> u16" where
  "of_le16 lo hi = ucast lo OR push_bit 8 (ucast hi)"

definition le32 :: "u32 \<Rightarrow> u8 list" where
  "le32 w = [ucast w, ucast (drop_bit 8 w), ucast (drop_bit 16 w), ucast (drop_bit 24 w)]"

definition of_le32 :: "u8 \<Rightarrow> u8 \<Rightarrow> u8 \<Rightarrow> u8 \<Rightarrow> u32" where
  "of_le32 a b c d = ucast a OR push_bit 8 (ucast b) OR push_bit 16 (ucast c) OR push_bit 24 (ucast d)"

definition item_bytes :: "nvram_item \<Rightarrow> u8 list" where
  "item_bytes i = [i_magic i, i_state i, i_crc i, i_hash i, i_reserved i, i_name_size i] @ le16 (i_data_size i)"

definition item_of :: "u8 list \<Rightarrow> nvram_item" where
  "item_of b = \<lparr>i_magic = b ! 0, i_state = b ! 1, i_crc = b ! 2, i_hash = b ! 3, i_reserved = b ! 4, i_name_size = b ! 5,
     i_data_size = of_le16 (b ! 6) (b ! 7)\<rparr>"

definition header_bytes :: "region_seg_header \<Rightarrow> u8 list" where
  "header_bytes h = le32 (h_magic h) @ [h_state h, h_crc h, h_version h, h_reserved h, h_seq_id h, h_head_size h] @
     le16 (h_seg_size h) @ h_reserved2 h"

definition header_of :: "u8 list \<Rightarrow> region_seg_header" where
  "header_of b = \<lparr>h_magic = of_le32 (b ! 0) (b ! 1) (b ! 2) (b ! 3), h_state = b ! 4, h_crc = b ! 5, h_version = b ! 6,
     h_reserved = b ! 7, h_seq_id = b ! 8, h_head_size = b ! 9, h_seg_size = of_le16 (b ! 10) (b ! 11),
     h_reserved2 = [b ! 12, b ! 13, b ! 14, b ! 15]\<rparr>"

subsection \<open>Hash and checksum\<close>

definition calc_hash :: "u8 list \<Rightarrow> u8" where
  "calc_hash key = fold (\<lambda>b h. h + b) key 0 XOR 0xa5"

definition crc8_table :: "u8 list" where
  "crc8_table = [
    0x00, 0x5E, 0xBC, 0xE2, 0x61, 0x3F, 0xDD, 0x83,
    0xC2, 0x9C, 0x7E, 0x20, 0xA3, 0xFD, 0x1F, 0x41,
    0x00, 0x9D, 0x23, 0xBE, 0x46, 0xDB, 0x65, 0xF8,
    0x8C, 0x11, 0xAF, 0x32, 0xCA, 0x57, 0xE9, 0x74]"

definition calc_crc8 :: "u8 list \<Rightarrow> u8 \<Rightarrow> u8" where
  "calc_crc8 addr initial_crc = fold (\<lambda>b crc. let c = b XOR crc
     in crc8_table ! unat (c AND 0x0f) XOR crc8_table ! (16 + unat (drop_bit 4 c AND 0x0f))) addr initial_crc"

section \<open>Operations on items\<close>

definition item_is_empty :: "nvram_item \<Rightarrow> bool" where
  "item_is_empty item \<longleftrightarrow> list_all (\<lambda>b. b = 0xff) (item_bytes item)"

definition item_calc_real_size :: "nat \<Rightarrow> nat \<Rightarrow> nat" where
  "item_calc_real_size name_sz data_sz = ITEM_SIZE + name_sz + data_sz"

definition item_calc_aligned_size :: "nat \<Rightarrow> nat \<Rightarrow> nat" where
  "item_calc_aligned_size name_sz data_sz = ROUND_UP (item_calc_real_size name_sz data_sz) NVRAM_ITEM_ALIGN_SIZE"

definition item_get_real_size :: "nvram_item \<Rightarrow> nat" where
  "item_get_real_size item = item_calc_real_size (unat (i_name_size item)) (unat (i_data_size item))"

definition item_get_aligned_size :: "nvram_item \<Rightarrow> nat" where
  "item_get_aligned_size item = item_calc_aligned_size (unat (i_name_size item)) (unat (i_data_size item))"

text \<open>A negative offset is a large unsigned one, which \<open>region_write\<close> refuses.\<close>

definition item_update_state :: "region_info \<Rightarrow> int \<Rightarrow> u8 \<Rightarrow> flash \<Rightarrow> flash" where
  "item_update_state region item_offset st f = (if item_offset + 1 < 0 then f else fst (region_write region (nat (item_offset + 1)) [st] f))"

function item_calc_data_crc :: "region_info \<Rightarrow> nat \<Rightarrow> nat \<Rightarrow> u8 \<Rightarrow> flash \<Rightarrow> u8 option" where
  "item_calc_data_crc region offset sz crc f =
     (if sz = 0 then Some crc
      else let read_size = min sz NVRAM_BUFFER_SIZE
           in case region_fetch region offset read_size f of
                None \<Rightarrow> None
              | Some buf \<Rightarrow> item_calc_data_crc region (offset + read_size) (sz - read_size) (calc_crc8 buf crc) f)"
  by auto
termination by (relation "measure (\<lambda>(_, _, sz, _). sz)") auto

declare item_calc_data_crc.simps [simp del]

definition item_check_validity :: "region_info \<Rightarrow> nat \<Rightarrow> nvram_item \<Rightarrow> bool \<Rightarrow> flash \<Rightarrow> (flash \<times> item_status) option" where
  "item_check_validity region item_offs item check_crc f =
     (if i_magic item \<noteq> NVRAM_REGION_ITEM_MAGIC
      then Some (f, if \<not> item_is_empty item then ITEM_STATUS_INVALID else ITEM_STATUS_EMPTY)
      else if i_state item \<noteq> STATE_VALID
      then Some (f, if i_state item \<noteq> STATE_OBSOLETE then ITEM_STATUS_INVALID else ITEM_STATUS_OBSOLETE)
      else do {
        let name_sz = unat (i_name_size item);
        let name_offset = item_offs + ITEM_SIZE;
        buf \<leftarrow> (if NVRAM_BUFFER_SIZE < name_sz then None else region_fetch region name_offset name_sz f);
        if i_hash item \<noteq> calc_hash buf then Some (f, ITEM_STATUS_INVALID)
        else if check_crc
        then do {
          crc \<leftarrow> item_calc_data_crc region (name_offset + name_sz) (unat (i_data_size item))
            (calc_crc8 buf (calc_crc8 (drop 3 (item_bytes item)) 0)) f;
          if i_crc item \<noteq> crc
          then Some (item_update_state region (int item_offs - int (seg_offset region)) STATE_OBSOLETE f, ITEM_STATUS_INVALID)
          else Some (f, ITEM_STATUS_VALID)
        }
        else Some (f, ITEM_STATUS_VALID)
      })"

text \<open>The search for a name: \<open>Some None\<close> is \<open>-ENOENT\<close>.\<close>

partial_function (option) find_loop :: "region_info \<Rightarrow> u8 list \<Rightarrow> flash \<Rightarrow> nat \<Rightarrow> (nat \<times> nvram_item) option option" where
  "find_loop region name f offs =
     (if offs < seg_size region
      then do {
        let item_offs = seg_offset region + offs;
        b \<leftarrow> region_fetch region item_offs ITEM_SIZE f;
        let item = item_of b;
        if i_magic item \<noteq> NVRAM_REGION_ITEM_MAGIC then Some None
        else do {
          found \<leftarrow>
            (if i_state item \<noteq> STATE_VALID \<or> i_hash item \<noteq> calc_hash (name @ [0]) then Some False
             else if NVRAM_BUFFER_SIZE < unat (i_name_size item) then None
             else do {
               buf \<leftarrow> region_fetch region (item_offs + ITEM_SIZE) (unat (i_name_size item)) f;
               Some (take (unat (i_name_size item)) (name @ [0]) = buf)
             });
          if found then Some (Some (item_offs, item))
          else do {
            next_offs \<leftarrow> item_bitmap_next_offset (seg_item_map region) (seg_size region) (offs + item_get_aligned_size item);
            find_loop region name f next_offs
          }
        }
      }
      else Some None)"

definition region_find_item :: "region_info \<Rightarrow> u8 list \<Rightarrow> flash \<Rightarrow> (nat \<times> nvram_item) option option" where
  "region_find_item region name f =
     do {
       offs \<leftarrow> item_bitmap_first_offset (seg_item_map region) (seg_size region);
       find_loop region name f offs
     }"

definition region_seg_update_state :: "region_info \<Rightarrow> nat \<Rightarrow> u8 \<Rightarrow> flash \<Rightarrow> flash" where
  "region_seg_update_state region offset st f = fst (region_write region (offset + 4) [st] f)"

function region_write_data :: "region_info \<Rightarrow> nat \<Rightarrow> u8 list \<Rightarrow> flash \<Rightarrow> flash" where
  "region_write_data region offset data f =
     (if data = [] then f
      else let wsize = min (length data) NVRAM_BUFFER_SIZE
           in region_write_data region (offset + wsize) (drop wsize data) (fst (region_write region offset (take wsize data) f)))"
  by auto
termination by (relation "measure (\<lambda>(_, _, data, _). length data)") auto

declare region_write_data.simps [simp del]

text \<open>The header of a new item.\<close>

definition new_item :: "u8 list \<Rightarrow> u8 list \<Rightarrow> nvram_item" where
  "new_item name data =
     (let i = \<lparr>i_magic = NVRAM_REGION_ITEM_MAGIC, i_state = STATE_VALID, i_crc = 0, i_hash = calc_hash (name @ [0]), i_reserved = 0,
                i_name_size = of_nat (length name + 1), i_data_size = of_nat (length data)\<rparr>
      in i\<lparr>i_crc := calc_crc8 data (calc_crc8 (name @ [0]) (calc_crc8 (drop 3 (item_bytes i)) 0))\<rparr>)"

definition region_write_item :: "region_info \<Rightarrow> nat \<Rightarrow> u8 list \<Rightarrow> u8 list \<Rightarrow> flash \<Rightarrow> flash \<times> int" where
  "region_write_item region offset name data f =
     (let item = new_item name data; item_data_offs = ITEM_SIZE + unat (i_name_size item)
      in if NVRAM_BUFFER_SIZE < item_data_offs then (f, - EINVAL)
         else let f1 = fst (region_write region offset (item_bytes item @ name @ [0]) f);
                  f2 = region_write_data region (offset + item_data_offs) data f1
              in (f2, int (item_data_offs + unat (i_data_size item))))"

section \<open>Operations on segments\<close>

partial_function (option) copy_items :: "region_info \<Rightarrow> nat \<Rightarrow> nat \<Rightarrow> nat \<Rightarrow> bool \<Rightarrow> nat \<Rightarrow> flash \<Rightarrow> (flash \<times> region_info) option" where
  "copy_items region new_seg_offset item_offs new_item_offs check_crc end_offs f =
     (if item_offs < end_offs
      then do {
        b \<leftarrow> region_fetch region item_offs ITEM_SIZE f;
        let item = item_of b;
        (f1, status) \<leftarrow> item_check_validity region item_offs item check_crc f;
        if status = ITEM_STATUS_INVALID \<or> status = ITEM_STATUS_EMPTY then Some (f1, region\<lparr>seg_write_offset := new_item_offs\<rparr>)
        else if status = ITEM_STATUS_VALID
        then do {
          let f2 = fst (region_copy region item_offs new_item_offs (item_get_real_size item) f1);
          m \<leftarrow> item_bitmap_update (seg_item_map region) (new_item_offs - new_seg_offset) True;
          copy_items (region\<lparr>seg_item_map := m\<rparr>) new_seg_offset (item_offs + item_get_aligned_size item)
            (new_item_offs + item_get_aligned_size item) check_crc end_offs f2
        }
        else copy_items region new_seg_offset (item_offs + item_get_aligned_size item) new_item_offs check_crc end_offs f1
      }
      else Some (f, region\<lparr>seg_write_offset := new_item_offs\<rparr>))"

definition region_copy_seg :: "region_info \<Rightarrow> nat \<Rightarrow> nat \<Rightarrow> nat \<Rightarrow> bool \<Rightarrow> flash \<Rightarrow> (flash \<times> region_info) option" where
  "region_copy_seg region new_seg_offset old_seg_offset copy_size check_crc f =
     copy_items (region\<lparr>seg_item_map := item_bitmap_clear_all (seg_item_map region)\<rparr>) new_seg_offset
       (old_seg_offset + NVRAM_SEG_ITEM_START_OFFSET) (new_seg_offset + NVRAM_SEG_ITEM_START_OFFSET) check_crc (old_seg_offset + copy_size) f"

text \<open>The header of a new segment.\<close>

definition new_header :: "nat \<Rightarrow> u8 \<Rightarrow> region_seg_header" where
  "new_header sz seq =
     (let h = \<lparr>h_magic = NVRAM_REGION_SEG_MAGIC, h_state = STATE_VALID, h_crc = 0, h_version = NVRAM_REGION_SEG_VERSION, h_reserved = 0,
                h_seq_id = seq, h_head_size = of_nat HEADER_SIZE, h_seg_size = of_nat sz, h_reserved2 = [0, 0, 0, 0]\<rparr>
      in h\<lparr>h_crc := calc_crc8 (drop 6 (header_bytes h)) 0\<rparr>)"

definition region_init_new_seg :: "region_info \<Rightarrow> nat \<Rightarrow> flash \<Rightarrow> (flash \<times> region_info) option" where
  "region_init_new_seg region offset f =
     do {
       let hdr = new_header (seg_size region) (seg_seq_id region + 1);
       (f1, _) \<leftarrow> region_erase region offset (seg_size region) f;
       Some (fst (region_write region offset (header_bytes hdr) f1),
         region\<lparr>seg_seq_id := h_seq_id hdr, seg_offset := offset, seg_write_offset := offset + NVRAM_SEG_ITEM_START_OFFSET,
           seg_item_map := item_bitmap_clear_all (seg_item_map region)\<rparr>)
     }"

definition region_purge_seg :: "region_info \<Rightarrow> bool \<Rightarrow> flash \<Rightarrow> (flash \<times> region_info) option" where
  "region_purge_seg region check_crc f =
     do {
       let new_seg_offset = seg_offset region + seg_size region;
       let new_seg_offset = (if total_size region \<le> new_seg_offset then 0 else new_seg_offset);
       e \<leftarrow> region_is_empy region new_seg_offset (seg_size region) f;
       f1 \<leftarrow> (if e then Some f else map_option fst (region_erase region new_seg_offset (seg_size region) f));
       let old_seg_offset = seg_offset region;
       let seg_copy_size = seg_write_offset region - seg_offset region;
       (f2, region1) \<leftarrow> region_init_new_seg region new_seg_offset f1;
       (f3, region2) \<leftarrow> region_copy_seg region1 new_seg_offset old_seg_offset seg_copy_size check_crc f2;
       Some (region_seg_update_state region2 old_seg_offset STATE_OBSOLETE f3, region2)
     }"

definition region_prepare_write_item :: "region_info \<Rightarrow> nat \<Rightarrow> flash \<Rightarrow> (flash \<times> region_info) option" where
  "region_prepare_write_item region item_size f =
     (if seg_offset region + seg_size region < seg_write_offset region + item_size then region_purge_seg region False f else Some (f, region))"

section \<open>Set and get\<close>

function same_data :: "region_info \<Rightarrow> nat \<Rightarrow> u8 list \<Rightarrow> flash \<Rightarrow> bool option" where
  "same_data region offset data f =
     (if data = [] then Some True
      else let read_size = min (length data) NVRAM_BUFFER_SIZE
           in case region_fetch region offset read_size f of
                None \<Rightarrow> None
              | Some buf \<Rightarrow> if buf \<noteq> take read_size data then Some False
                            else same_data region (offset + read_size) (drop read_size data) f)"
  by auto
termination by (relation "measure (\<lambda>(_, _, data, _). length data)") auto

declare same_data.simps [simp del]

definition region_is_same_config_data :: "region_info \<Rightarrow> u8 list \<Rightarrow> u8 list \<Rightarrow> flash \<Rightarrow> bool option" where
  "region_is_same_config_data region name data f =
     do {
       r \<leftarrow> region_find_item region name f;
       case r of
         None \<Rightarrow> Some False
       | Some (old_item_offs, item) \<Rightarrow>
           if 0 < old_item_offs \<and> length data = unat (i_data_size item)
           then same_data region (old_item_offs + ITEM_SIZE + unat (i_name_size item)) data f
           else Some False
     }"

definition region_obsolete_old :: "(nat \<times> nvram_item) option \<Rightarrow> region_info \<Rightarrow> flash \<Rightarrow> (flash \<times> region_info) option" where
  "region_obsolete_old old region f =
     (case old of
        None \<Rightarrow> Some (f, region)
      | Some (old_item_offs, _) \<Rightarrow>
          if 0 < old_item_offs
          then do {
            m \<leftarrow> item_bitmap_update (seg_item_map region) (old_item_offs - seg_offset region) False;
            Some (item_update_state region (int old_item_offs) STATE_OBSOLETE f, region\<lparr>seg_item_map := m\<rparr>)
          }
          else Some (f, region))"

definition region_set :: "region_info \<Rightarrow> u8 list \<Rightarrow> u8 list \<Rightarrow> flash \<Rightarrow> (flash \<times> region_info \<times> int) option" where
  "region_set region name data f =
     (if NVRAM_MAX_DATA_SIZE < length data then Some (f, region, - EINVAL)
      else if NVRAM_MAX_NAME_SIZE < length name + 1 then Some (f, region, - EINVAL)
      else if data \<noteq> []
      then do {
        same \<leftarrow> region_is_same_config_data region name data f;
        if same then Some (f, region, 0)
        else do {
          let new_item_size = item_calc_aligned_size (length name + 1) (length data);
          (f1, region1) \<leftarrow> region_prepare_write_item region new_item_size f;
          old \<leftarrow> region_find_item region1 name f1;
          let f2 = fst (region_write_item region1 (seg_write_offset region1) name data f1);
          m \<leftarrow> item_bitmap_update (seg_item_map region1) (seg_write_offset region1 - seg_offset region1) True;
          let region2 = region1\<lparr>seg_item_map := m, seg_write_offset := seg_write_offset region1 + new_item_size\<rparr>;
          (f3, region3) \<leftarrow> region_obsolete_old old region2 f2;
          Some (f3, region3, 0)
        }
      }
      else do {
        old \<leftarrow> region_find_item region name f;
        (f1, region1) \<leftarrow> region_obsolete_old old region f;
        Some (f1, region1, 0)
      })"

definition region_get :: "region_info \<Rightarrow> u8 list \<Rightarrow> nat \<Rightarrow> flash \<Rightarrow> (int + u8 list) option" where
  "region_get region name max_len f =
     (if max_len = 0 then Some (Inl (- EINVAL))
      else do {
        r \<leftarrow> region_find_item region name f;
        case r of
          None \<Rightarrow> Some (Inl (- ENOENT))
        | Some (item_offs, item) \<Rightarrow>
            map_option Inr (region_fetch region (item_offs + ITEM_SIZE + unat (i_name_size item))
              (if max_len < unat (i_data_size item) then max_len else unat (i_data_size item)) f)
      })"

section \<open>Start up\<close>

definition is_valid_region_seg_header :: "region_seg_header \<Rightarrow> bool" where
  "is_valid_region_seg_header hdr \<longleftrightarrow> h_magic hdr = NVRAM_REGION_SEG_MAGIC \<and> h_state hdr = STATE_VALID \<and>
     h_crc hdr = calc_crc8 (drop 6 (header_bytes hdr)) 0"

text \<open>The loop over the items: the offset where it stops, whether it met an invalid item, and the error of a read.\<close>

partial_function (option) scan_items :: "region_info \<Rightarrow> nat \<Rightarrow> flash \<Rightarrow> (flash \<times> region_info \<times> nat \<times> bool \<times> int) option" where
  "scan_items region offs f =
     (if offs < seg_size region
      then let item_offs = seg_offset region + offs
        in case region_read region item_offs ITEM_SIZE f of
          Inl err \<Rightarrow> Some (f, region, offs, False, err)
        | Inr b \<Rightarrow> do {
            let item = item_of b;
            (f1, status) \<leftarrow> item_check_validity region item_offs item True f;
            case status of
              ITEM_STATUS_VALID \<Rightarrow> do {
                m \<leftarrow> item_bitmap_update (seg_item_map region) offs True;
                scan_items (region\<lparr>seg_item_map := m\<rparr>) (offs + item_get_aligned_size item) f1
              }
            | ITEM_STATUS_EMPTY \<Rightarrow> Some (f1, region, offs, False, 0)
            | ITEM_STATUS_OBSOLETE \<Rightarrow> scan_items region (offs + item_get_aligned_size item) f1
            | ITEM_STATUS_INVALID \<Rightarrow> Some (f1, region, offs, True, 0)
          }
      else Some (f, region, offs, False, 0))"

definition region_seg_scan :: "region_info \<Rightarrow> flash \<Rightarrow> (flash \<times> region_info \<times> int) option" where
  "region_seg_scan region f =
     do {
       (f1, region1, offs, invalid, err) \<leftarrow>
         scan_items (region\<lparr>seg_item_map := item_bitmap_clear_all (seg_item_map region)\<rparr>) NVRAM_SEG_ITEM_START_OFFSET f;
       if err \<noteq> 0 then Some (f1, region1, err)
       else do {
         let region2 = region1\<lparr>seg_write_offset := seg_offset region1 + offs\<rparr>;
         clean \<leftarrow> (if seg_size region2 \<le> offs then Some False
                   else region_is_empy region2 (seg_offset region2 + offs) (seg_size region2 - offs) f1);
         (f2, region3) \<leftarrow> (if invalid \<or> \<not> clean then region_purge_seg region2 True f1 else Some (f1, region2));
         Some (f2, region3, 0)
       }
     }"

text \<open>The loop over the headers: the region, with the newest valid segment when one was found.\<close>

function scan_headers :: "region_info \<Rightarrow> nat \<Rightarrow> bool \<Rightarrow> flash \<Rightarrow> int + region_info \<times> bool" where
  "scan_headers region offs found f =
     (if offs < total_size region \<and> 0 < seg_size region
      then case region_read region offs HEADER_SIZE f of
             Inl err \<Rightarrow> Inl err
           | Inr b \<Rightarrow>
               let hdr = header_of b
               in if is_valid_region_seg_header hdr \<and> (\<not> found \<or> 0 < sint (h_seq_id hdr - seg_seq_id region))
                  then scan_headers (region\<lparr>seg_seq_id := h_seq_id hdr, seg_offset := offs\<rparr>) (offs + seg_size region) True f
                  else scan_headers region (offs + seg_size region) found f
      else Inr (region, found))"
  by auto
termination by (relation "measure (\<lambda>(r, offs, _, _). total_size r - offs)") auto

declare scan_headers.simps [simp del]

definition region_scan :: "region_info \<Rightarrow> flash \<Rightarrow> (flash \<times> region_info \<times> int) option" where
  "region_scan region f =
     (case scan_headers region 0 False f of
        Inl err \<Rightarrow> Some (f, region, err)
      | Inr (region1, found) \<Rightarrow>
          if found then do {
            (f1, region2, err) \<leftarrow> region_seg_scan region1 f;
            Some (f1, region2, if err \<noteq> 0 then - 1 else 0)
          }
          else do {
            (f1, region2) \<leftarrow> region_init_new_seg region1 0 f;
            Some (f1, region2, 0)
          })"

section \<open>The configuration interface\<close>

record nvram =
  n_flash :: flash
  user_nvram_region :: region_info
  factory_nvram_region :: region_info
  factory_rw_nvram_region :: region_info

definition nvram_config_set :: "u8 list \<Rightarrow> u8 list \<Rightarrow> nvram \<Rightarrow> (nvram \<times> int) option" where
  "nvram_config_set name data s =
     do {
       (f, r, ret) \<leftarrow> region_set (user_nvram_region s) name data (n_flash s);
       Some (s\<lparr>n_flash := f, user_nvram_region := r\<rparr>, ret)
     }"

definition nvram_config_set_factory :: "u8 list \<Rightarrow> u8 list \<Rightarrow> nvram \<Rightarrow> (nvram \<times> int) option" where
  "nvram_config_set_factory name data s =
     do {
       (f, r, ret) \<leftarrow> region_set (factory_rw_nvram_region s) name data (n_flash s);
       Some (s\<lparr>n_flash := f, factory_rw_nvram_region := r\<rparr>, ret)
     }"

definition nvram_config_get_factory :: "u8 list \<Rightarrow> nat \<Rightarrow> nvram \<Rightarrow> (int + u8 list) option" where
  "nvram_config_get_factory name max_len s =
     do {
       r \<leftarrow> region_get (factory_rw_nvram_region s) name max_len (n_flash s);
       case r of Inr d \<Rightarrow> Some (Inr d) | Inl _ \<Rightarrow> region_get (factory_nvram_region s) name max_len (n_flash s)
     }"

definition nvram_config_get :: "u8 list \<Rightarrow> nat \<Rightarrow> nvram \<Rightarrow> (int + u8 list) option" where
  "nvram_config_get name max_len s =
     do {
       r \<leftarrow> region_get (user_nvram_region s) name max_len (n_flash s);
       case r of
         Inr d \<Rightarrow> Some (Inr d)
       | Inl _ \<Rightarrow> do {
           r2 \<leftarrow> region_get (factory_rw_nvram_region s) name max_len (n_flash s);
           case r2 of
             Inr d \<Rightarrow> Some (Inr d)
           | Inl _ \<Rightarrow> region_get (factory_nvram_region s) name max_len (n_flash s)
         }
     }"

definition nvram_config_clear :: "nat \<Rightarrow> nvram \<Rightarrow> (nvram \<times> int) option" where
  "nvram_config_clear len s =
     do { (f, ret) \<leftarrow> region_clear (user_nvram_region s) len (n_flash s); Some (s\<lparr>n_flash := f\<rparr>, ret) }"

definition nvram_config_clear_all :: "nvram \<Rightarrow> (nvram \<times> int) option" where
  "nvram_config_clear_all s =
     do {
       (f, _) \<leftarrow> region_erase (user_nvram_region s) 0 (total_size (user_nvram_region s)) (n_flash s);
       (f1, r, _) \<leftarrow> region_scan (user_nvram_region s) f;
       Some (s\<lparr>n_flash := f1, user_nvram_region := r\<rparr>, 0)
     }"

text \<open>The partition of a region and the flash device are arguments.\<close>

definition set_part :: "(nat \<times> nat) option \<Rightarrow> region_info \<Rightarrow> region_info" where
  "set_part part region = (case part of None \<Rightarrow> region | Some (off, sz) \<Rightarrow> region\<lparr>base_addr := off, total_size := sz\<rparr>)"

definition nvram_config_init :: "(nat \<times> nat) option \<Rightarrow> (nat \<times> nat) option \<Rightarrow> (nat \<times> nat) option \<Rightarrow> flash_driver option \<Rightarrow> nvram \<Rightarrow> (nvram \<times> int) option" where
  "nvram_config_init fac usr rw dev s =
     (let s1 = s\<lparr>factory_nvram_region := set_part fac (factory_nvram_region s), user_nvram_region := set_part usr (user_nvram_region s),
                factory_rw_nvram_region := set_part rw (factory_rw_nvram_region s)\<rparr>
      in case dev of
           None \<Rightarrow> Some (s1, - ENODEV)
         | Some d \<Rightarrow> do {
             (f1, rw1, _) \<leftarrow> region_scan ((factory_rw_nvram_region s1)\<lparr>storage := Some d\<rparr>) (n_flash s1);
             (f2, fac1, _) \<leftarrow> region_scan ((factory_nvram_region s1)\<lparr>storage := Some d\<rparr>) f1;
             (f3, usr1, _) \<leftarrow> region_scan ((user_nvram_region s1)\<lparr>storage := Some d\<rparr>) f2;
             (f4, _) \<leftarrow> region_clear usr1 (total_size usr1 div 2) f3;
             Some (s1\<lparr>n_flash := f4, user_nvram_region := usr1, factory_nvram_region := fac1, factory_rw_nvram_region := rw1\<rparr>, 0)
           })"

text \<open>The regions before start up, after \<open>.data\<close> and \<open>.bss\<close> are set.\<close>

definition static_region :: "u32 list option \<Rightarrow> region_info" where
  "static_region m = \<lparr>storage = None, base_addr = 0, total_size = 0, seg_size = 0x1000, seg_offset = 0, seg_write_offset = 0,
     seg_seq_id = 0, seg_item_map = m\<rparr>"

definition nvram_static :: "flash \<Rightarrow> nvram" where
  "nvram_static f = \<lparr>n_flash = f, user_nvram_region = static_region (Some (replicate 8 0)),
     factory_nvram_region = static_region None, factory_rw_nvram_region = static_region None\<rparr>"

end
