(* ===== verification/Nvram_Log.thy ===== *)
theory Nvram_Log
  imports Nvram_Config
begin

text \<open>
  The log of a segment: entries with their name, data and state, their bytes in the flash, and how the loops of
  \<^verbatim>\<open>nvram_config.c\<close> read them. The representation of a segment is one equation on its 4096 bytes.
\<close>

unbundle bit_operations_syntax

section \<open>Layout\<close>

lemma of_le16_le16 [simp]: "of_le16 (ucast w) (ucast (drop_bit 8 w)) = w"
  unfolding of_le16_def by (rule bit_eqI) (auto simp: bit_or_iff bit_push_bit_iff bit_ucast_iff bit_drop_bit_eq dest: bit_imp_le_length)

lemma of_le32_le32 [simp]: "of_le32 (ucast w) (ucast (drop_bit 8 w)) (ucast (drop_bit 16 w)) (ucast (drop_bit 24 w)) = w"
proof (unfold of_le32_def, rule bit_eqI)
  fix n assume "possible_bit TYPE(32 word) n"
  then have n: "n < 32" by simp
  then consider "n < 8" | "8 \<le> n" "n < 16" | "16 \<le> n" "n < 24" | "24 \<le> n" by linarith
  then show "bit (ucast (ucast w :: u8) OR push_bit 8 (ucast (ucast (drop_bit 8 w) :: u8)) OR
      push_bit 16 (ucast (ucast (drop_bit 16 w) :: u8)) OR push_bit 24 (ucast (ucast (drop_bit 24 w) :: u8)) :: u32) n = bit w n"
    using n by cases (auto simp: bit_or_iff bit_push_bit_iff bit_ucast_iff bit_drop_bit_eq less_diff_conv2)
qed

lemma length_item_bytes [simp]: "length (item_bytes i) = 8"
  by (simp add: item_bytes_def le16_def)

lemma item_of_bytes [simp]: "item_of (item_bytes i) = i"
  by (simp add: item_of_def item_bytes_def le16_def)

lemma length_header_bytes: "length (h_reserved2 h) = 4 \<Longrightarrow> length (header_bytes h) = 16"
  by (simp add: header_bytes_def le16_def le32_def)

lemma header_of_bytes:
  assumes "length (h_reserved2 h) = 4"
  shows "header_of (header_bytes h) = h"
proof -
  obtain a b c d where "h_reserved2 h = [a, b, c, d]" using assms by (auto simp: length_Suc_conv numeral_eq_Suc)
  then show ?thesis by (simp add: header_of_def header_bytes_def le16_def le32_def)
qed

section \<open>Entries\<close>

datatype log_entry = Entry (e_live: bool) (e_name: "u8 list") (e_data: "u8 list")

definition entry_ok :: "log_entry \<Rightarrow> bool" where
  "entry_ok e \<longleftrightarrow> 0 \<notin> set (e_name e) \<and> length (e_name e) + 1 \<le> NVRAM_MAX_NAME_SIZE \<and> 0 < length (e_data e) \<and> length (e_data e) \<le> NVRAM_MAX_DATA_SIZE"

definition entry_item :: "log_entry \<Rightarrow> nvram_item" where
  "entry_item e = (new_item (e_name e) (e_data e))\<lparr>i_state := if e_live e then STATE_VALID else STATE_OBSOLETE\<rparr>"

definition entry_real :: "log_entry \<Rightarrow> u8 list" where
  "entry_real e = item_bytes (entry_item e) @ e_name e @ [0] @ e_data e"

definition entry_size :: "log_entry \<Rightarrow> nat" where
  "entry_size e = item_calc_aligned_size (length (e_name e) + 1) (length (e_data e))"

definition entry_bytes :: "log_entry \<Rightarrow> u8 list" where
  "entry_bytes e = entry_real e @ replicate (entry_size e - length (entry_real e)) 0xff"

lemma round_up_16: "x \<le> ROUND_UP x 16" "16 dvd ROUND_UP x 16" "ROUND_UP x 16 < x + 16"
proof -
  show "x \<le> ROUND_UP x 16" "ROUND_UP x 16 < x + 16" unfolding ROUND_UP_def by linarith+
  show "16 dvd ROUND_UP x 16" unfolding ROUND_UP_def by simp
qed

lemma entry_size_dvd [simp, intro]: "16 dvd entry_size e"
  by (simp add: entry_size_def item_calc_aligned_size_def round_up_16)

lemma entry_real_length: "length (entry_real e) = 9 + length (e_name e) + length (e_data e)"
  by (simp add: entry_real_def)

lemma entry_real_le: "length (entry_real e) \<le> entry_size e"
  using round_up_16(1) by (simp add: entry_size_def item_calc_aligned_size_def item_calc_real_size_def entry_real_length)

lemma entry_size_ge: "16 \<le> entry_size e"
proof -
  have "0 < entry_size e" using entry_real_le [of e] by (simp add: entry_real_length)
  then show ?thesis using entry_size_dvd by (rule dvd_imp_le [rotated])
qed

lemma length_entry_bytes [simp]: "length (entry_bytes e) = entry_size e"
  using entry_real_le [of e] by (simp add: entry_bytes_def)

lemma entry_fields:
  assumes "entry_ok e"
  shows "i_magic (entry_item e) = NVRAM_REGION_ITEM_MAGIC" "i_state (entry_item e) = (if e_live e then STATE_VALID else STATE_OBSOLETE)"
    "i_hash (entry_item e) = calc_hash (e_name e @ [0])" "unat (i_name_size (entry_item e)) = length (e_name e) + 1"
    "unat (i_data_size (entry_item e)) = length (e_data e)"
proof -
  have "length (e_name e) + 1 < 256" "length (e_data e) < 65536" using assms by (simp_all add: entry_ok_def)
  then show "unat (i_name_size (entry_item e)) = length (e_name e) + 1" "unat (i_data_size (entry_item e)) = length (e_data e)"
    by (simp_all add: entry_item_def new_item_def Let_def unat_of_nat del: of_nat_Suc of_nat_add)
qed (simp_all add: entry_item_def new_item_def Let_def)

lemma entry_aligned: "entry_ok e \<Longrightarrow> item_get_aligned_size (entry_item e) = entry_size e"
  by (simp add: item_get_aligned_size_def entry_fields entry_size_def)

lemma entry_real_size: "entry_ok e \<Longrightarrow> item_get_real_size (entry_item e) = length (entry_real e)"
  by (simp add: item_get_real_size_def entry_fields entry_real_length item_calc_real_size_def)

lemma entry_crc:
  "i_crc (entry_item e) = calc_crc8 (e_data e) (calc_crc8 (e_name e @ [0]) (calc_crc8 (drop 3 (item_bytes (entry_item e))) 0))"
  by (simp add: entry_item_def new_item_def Let_def item_bytes_def)

section \<open>The log\<close>

definition log_bytes :: "log_entry list \<Rightarrow> u8 list" where
  "log_bytes es = concat (map entry_bytes es)"

definition log_size :: "log_entry list \<Rightarrow> nat" where
  "log_size es = sum_list (map entry_size es)"

lemma log_simps [simp]:
  "log_bytes [] = []" "log_bytes (e # es) = entry_bytes e @ log_bytes es" "log_bytes (es @ es') = log_bytes es @ log_bytes es'"
  "log_size [] = 0" "log_size (e # es) = entry_size e + log_size es" "log_size (es @ es') = log_size es + log_size es'"
  by (simp_all add: log_bytes_def log_size_def)

lemma length_log_bytes [simp]: "length (log_bytes es) = log_size es"
  by (induction es) simp_all

lemma log_size_dvd [simp, intro]: "16 dvd log_size es"
  by (induction es) simp_all

text \<open>The offsets of the live entries of a log that starts at an offset; the first live entry with a name.\<close>

fun live_offs :: "nat \<Rightarrow> log_entry list \<Rightarrow> nat set" where
  "live_offs x [] = {}"
| "live_offs x (e # es) = (if e_live e then {x} else {}) \<union> live_offs (x + entry_size e) es"

fun find_entry :: "nat \<Rightarrow> u8 list \<Rightarrow> log_entry list \<Rightarrow> (nat \<times> log_entry) option" where
  "find_entry x name [] = None"
| "find_entry x name (e # es) = (if e_live e \<and> e_name e = name then Some (x, e) else find_entry (x + entry_size e) name es)"

lemma live_offs_range: "y \<in> live_offs x es \<Longrightarrow> x \<le> y \<and> y < x + log_size es"
proof (induction es arbitrary: x)
  case (Cons e es)
  then show ?case using entry_size_ge [of e] by (fastforce split: if_splits)
qed simp

lemma live_offs_dvd: "16 dvd x \<Longrightarrow> y \<in> live_offs x es \<Longrightarrow> 16 dvd y"
proof (induction es arbitrary: x)
  case (Cons e es)
  then have d: "16 dvd x + entry_size e" by simp
  show ?case using Cons.prems Cons.IH [OF d] by (auto split: if_splits)
qed simp

lemma live_offs_append: "live_offs x (es @ es') = live_offs x es \<union> live_offs (x + log_size es) es'"
  by (induction es arbitrary: x) (auto simp: add.assoc)

lemma name_take_eq:
  assumes "0 \<notin> set name" "0 \<notin> set name'"
  shows "take (length name' + 1) (name @ [0 :: u8]) = name' @ [0] \<longleftrightarrow> name = name'"
proof
  assume a: "take (length name' + 1) (name @ [0]) = name' @ [0]"
  then have "length (take (length name' + 1) (name @ [0 :: u8])) = length name' + 1" by simp
  then have l: "length name' \<le> length name" by simp
  have "(name @ [0]) ! length name' = 0" using a by (metis less_add_one nth_append_length nth_take)
  then have "length name' = length name" using l assms(1) by (metis le_neq_implies_less nth_append nth_mem)
  then show "name = name'" using a by simp
qed simp

section \<open>Reading an entry\<close>

lemma entry_parts:
  assumes "bytes_at f a (entry_bytes e)"
  shows "bytes_at f a (item_bytes (entry_item e))" "bytes_at f (a + 8) (e_name e @ [0])"
    "bytes_at f (a + 8 + (length (e_name e) + 1)) (e_data e)" "bytes_at f a (entry_real e)"
proof -
  have e: "entry_bytes e = item_bytes (entry_item e) @ (e_name e @ [0]) @ e_data e @ replicate (entry_size e - length (entry_real e)) 0xff"
    by (simp add: entry_bytes_def entry_real_def)
  have "bytes_at f a (item_bytes (entry_item e) @ (e_name e @ [0]) @ e_data e @ replicate (entry_size e - length (entry_real e)) 0xff)"
    using assms unfolding e by simp
  then show "bytes_at f a (item_bytes (entry_item e))" "bytes_at f (a + 8) (e_name e @ [0])"
      "bytes_at f (a + 8 + (length (e_name e) + 1)) (e_data e)"
    by (simp_all only: bytes_at_append length_item_bytes length_append list.size) (simp_all add: add.assoc)
  show "bytes_at f a (entry_real e)" using assms by (simp add: entry_bytes_def bytes_at_append)
qed

lemma entry_reads:
  assumes "region_ok r" "bytes_at f (base_addr r + x) (entry_bytes e)" "x + entry_size e \<le> total_size r"
  shows "region_fetch r x ITEM_SIZE f = Some (item_bytes (entry_item e))"
    "region_read r x ITEM_SIZE f = Inr (item_bytes (entry_item e))"
    "region_fetch r (x + ITEM_SIZE) (length (e_name e) + 1) f = Some (e_name e @ [0])"
    "n \<le> length (e_data e) \<Longrightarrow> region_fetch r (x + ITEM_SIZE + (length (e_name e) + 1)) n f = Some (take n (e_data e))"
proof -
  note p = entry_parts [OF assms(2)]
  have l: "9 + length (e_name e) + length (e_data e) \<le> entry_size e" using entry_real_le [of e] by (simp add: entry_real_length)
  show a: "region_fetch r x ITEM_SIZE f = Some (item_bytes (entry_item e))"
    by (rule fetch_bytes [OF assms(1) p(1)]) (use assms(3) l in simp_all)
  then show "region_read r x ITEM_SIZE f = Inr (item_bytes (entry_item e))" by (simp add: region_fetch_def split: sum.splits)
  show "region_fetch r (x + ITEM_SIZE) (length (e_name e) + 1) f = Some (e_name e @ [0])"
    by (rule fetch_bytes [OF assms(1)]) (use p(2) assms(3) l in \<open>simp_all add: add.assoc\<close>)
  assume n: "n \<le> length (e_data e)"
  have "bytes_at f (base_addr r + (x + ITEM_SIZE + (length (e_name e) + 1))) (take n (e_data e))"
    using p(3) bytes_at_append [of f _ "take n (e_data e)" "drop n (e_data e)"] by (simp add: ac_simps)
  then show "region_fetch r (x + ITEM_SIZE + (length (e_name e) + 1)) n f = Some (take n (e_data e))"
    by (rule fetch_bytes [OF assms(1)]) (use assms(3) l n in simp_all)
qed

lemma blank_item: "item_of (replicate 8 0xff) = \<lparr>i_magic = 0xff, i_state = 0xff, i_crc = 0xff, i_hash = 0xff, i_reserved = 0xff,
    i_name_size = 0xff, i_data_size = 0xffff\<rparr>"
  by (simp add: item_of_def of_le16_def)

lemma blank_read:
  assumes "region_ok r" "bytes_at f (base_addr r + x) (replicate k 0xff)" "8 \<le> k" "x + k \<le> total_size r"
  shows "region_fetch r x ITEM_SIZE f = Some (replicate 8 0xff)" "region_read r x ITEM_SIZE f = Inr (replicate 8 0xff)"
proof -
  have "replicate k 0xff = replicate 8 0xff @ replicate (k - 8) (0xff :: u8)" using assms(3) by (simp add: replicate_add [symmetric])
  then have "bytes_at f (base_addr r + x) (replicate 8 0xff)" using assms(2) by (simp only: bytes_at_append)
  then show a: "region_fetch r x ITEM_SIZE f = Some (replicate 8 0xff)"
    by (rule fetch_bytes [OF assms(1)]) (use assms(3,4) in simp_all)
  then show "region_read r x ITEM_SIZE f = Inr (replicate 8 0xff)" by (simp add: region_fetch_def split: sum.splits)
qed

section \<open>The search\<close>

lemma find_step:
  assumes "region_ok r" "seg_size r = 4096" "bytes_at f (base_addr r + (seg_offset r + x)) (entry_bytes e)"
    "seg_offset r + x + entry_size e \<le> total_size r" "x < 4096" "entry_ok e" "0 \<notin> set name"
  shows "find_loop r name f x =
    (if e_live e \<and> e_name e = name then Some (Some (seg_offset r + x, entry_item e))
     else do { n \<leftarrow> item_bitmap_next_offset (seg_item_map r) 4096 (x + entry_size e); find_loop r name f n })"
proof -
  note rd = entry_reads [OF assms(1,3,4)]
  note fl = entry_fields [OF assms(6)]
  have n: "length (e_name e) + 1 \<le> 128" "0 \<notin> set (e_name e)" using assms(6) by (simp_all add: entry_ok_def)
  note eq = name_take_eq [OF assms(7) n(2)]
  show ?thesis
  proof (cases "e_live e \<and> calc_hash (e_name e @ [0]) = calc_hash (name @ [0])")
    case True
    then show ?thesis using assms(2,5) rd(1,3) fl n eq
      by (subst find_loop.simps) (simp add: entry_aligned [OF assms(6)] del: take_append)
  next
    case False
    then have "\<not> (e_live e \<and> e_name e = name)" by auto
    then show ?thesis using False assms(2,5) rd(1) fl
      by (subst find_loop.simps) (simp add: entry_aligned [OF assms(6)])
  qed
qed

lemma find_log:
  assumes r: "region_ok r" "seg_size r = 4096" "seg_offset r + 4096 \<le> total_size r" "0 \<notin> set name"
    and "bytes_at f (base_addr r + (seg_offset r + x)) (log_bytes es @ replicate k 0xff)" "x + log_size es + k = 4096" "16 dvd x"
    "map_rep (seg_item_map r) S" "S \<inter> {x..<4096} = live_offs x es" "\<forall>e\<in>set es. entry_ok e"
  shows "do { n \<leftarrow> item_bitmap_next_offset (seg_item_map r) 4096 x; find_loop r name f n } =
    Some (map_option (\<lambda>(y, e). (seg_offset r + y, entry_item e)) (find_entry x name es))"
  using assms(5-)
proof (induction es arbitrary: x)
  case Nil
  have stop: "find_loop r name f 4096 = Some None" by (subst find_loop.simps) (simp add: r(2))
  show ?case
  proof (cases "seg_item_map r")
    case None
    show ?thesis
    proof (cases "x < 4096")
      case True
      have k: "x + k = 4096" using Nil.prems(2) by simp
      then have "16 dvd k" using Nil.prems(3) by presburger
      then have "8 \<le> k" using True k by (auto elim!: dvdE)
      then have "region_fetch r (seg_offset r + x) ITEM_SIZE f = Some (replicate 8 0xff)"
        using blank_read(1) [OF r(1), of f "seg_offset r + x" k] Nil.prems(1) k r(3) by simp
      then have "find_loop r name f x = Some None" using True r(2) by (subst find_loop.simps) (simp add: blank_item)
      then show ?thesis using None by (simp add: item_bitmap_next_offset_def)
    next
      case False
      then have "x = 4096" using Nil.prems(2) by simp
      then show ?thesis using None stop by (simp add: item_bitmap_next_offset_def)
    qed
  next
    case (Some ws)
    have "item_bitmap_next_offset (Some ws) 4096 x = item_bitmap_next_offset (Some ws) 4096 4096"
      using next_offset_skip [of ws S x 4096] Nil.prems Some by simp
    then show ?thesis using stop Some next_offset_end [OF Nil.prems(4)] by simp
  qed
next
  case (Cons e es)
  let ?y = "x + entry_size e"
  have y: "?y + log_size es + k = 4096" "16 dvd ?y" "?y \<le> 4096" "x < ?y" "x < 4096"
    using Cons.prems(2,3) entry_size_ge [of e] by auto
  have b: "bytes_at f (base_addr r + (seg_offset r + x)) (entry_bytes e)"
      "bytes_at f (base_addr r + (seg_offset r + ?y)) (log_bytes es @ replicate k 0xff)"
    using Cons.prems(1) by (simp_all add: bytes_at_append add.assoc)
  have ok: "entry_ok e" "\<forall>e\<in>set es. entry_ok e" using Cons.prems(6) by simp_all
  have later: "live_offs ?y es \<subseteq> {?y..<4096}" using live_offs_range y(1) by fastforce
  have "S \<inter> {?y..<4096} = (S \<inter> {x..<4096}) \<inter> {?y..<4096}" using y(4) by auto
  also have "\<dots> = live_offs ?y es" unfolding Cons.prems(5) using later y(4) by auto
  finally have S: "S \<inter> {?y..<4096} = live_offs ?y es" .
  note IH = Cons.IH [OF b(2) y(1,2) Cons.prems(4) S ok(2)]
  have step: "find_loop r name f x =
      (if e_live e \<and> e_name e = name then Some (Some (seg_offset r + x, entry_item e))
       else do { n \<leftarrow> item_bitmap_next_offset (seg_item_map r) 4096 ?y; find_loop r name f n })"
    by (rule find_step [OF r(1,2) b(1) _ y(5) ok(1) r(4)]) (use y(3) r(3) in linarith)
  show ?case
  proof (cases "e_live e \<or> seg_item_map r = None")
    case True
    have "item_bitmap_next_offset (seg_item_map r) 4096 x = Some x"
    proof (cases "seg_item_map r = None")
      case False
      then have "x \<in> S \<inter> {x..<4096}" unfolding Cons.prems(5) using True by auto
      then have "x \<in> S" by simp
      then show ?thesis by (rule next_offset_hit [OF Cons.prems(4,3) y(5)])
    qed (simp add: item_bitmap_next_offset_def)
    then have "do { n \<leftarrow> item_bitmap_next_offset (seg_item_map r) 4096 x; find_loop r name f n } = find_loop r name f x" by simp
    then show ?thesis unfolding step using IH by (cases "e_live e \<and> e_name e = name") (simp_all only: find_entry.simps if_True if_False, simp)
  next
    case False
    then obtain ws where ws: "seg_item_map r = Some ws" by blast
    have "S \<inter> {x..<?y} = (S \<inter> {x..<4096}) \<inter> {x..<?y}" using y(3) by auto
    also have "\<dots> = {}" unfolding Cons.prems(5) using False later by auto
    finally have "item_bitmap_next_offset (Some ws) 4096 x = item_bitmap_next_offset (Some ws) 4096 ?y"
      using next_offset_skip [of ws S x ?y] Cons.prems(3,4) y ws by simp
    then show ?thesis using False IH ws by simp
  qed
qed

section \<open>Checking an entry\<close>

lemma calc_crc8_append: "calc_crc8 (xs @ ys) c = calc_crc8 ys (calc_crc8 xs c)"
  by (simp add: calc_crc8_def)

lemma calc_crc8_Nil [simp]: "calc_crc8 [] c = c"
  by (simp add: calc_crc8_def)

lemma data_crc:
  assumes "region_ok r" "bytes_at f (base_addr r + x) bs" "x + length bs \<le> total_size r" "n = length bs"
  shows "item_calc_data_crc r x n c f = Some (calc_crc8 bs c)"
  using assms
proof (induction r x n c f arbitrary: bs rule: item_calc_data_crc.induct)
  case (1 r x n c f)
  show ?case
  proof (cases "n = 0")
    case False
    let ?w = "min n NVRAM_BUFFER_SIZE"
    have b: "bytes_at f (base_addr r + x) (take ?w bs)" "bytes_at f (base_addr r + (x + ?w)) (drop ?w bs)"
      using "1.prems"(2,4) bytes_at_append [of f "base_addr r + x" "take ?w bs" "drop ?w bs"] by (simp_all add: add.assoc)
    have r: "region_fetch r x ?w f = Some (take ?w bs)"
      by (rule fetch_bytes [OF "1.prems"(1) b(1)]) (use "1.prems"(3,4) in simp_all)
    have "item_calc_data_crc r (x + ?w) (n - ?w) (calc_crc8 (take ?w bs) c) f = Some (calc_crc8 (drop ?w bs) (calc_crc8 (take ?w bs) c))"
      by (rule "1.IH" [OF False refl r "1.prems"(1) b(2)]) (use "1.prems"(3,4) in simp_all)
    also have "calc_crc8 (drop ?w bs) (calc_crc8 (take ?w bs) c) = calc_crc8 bs c" by (simp add: calc_crc8_append [symmetric])
    finally show ?thesis unfolding item_calc_data_crc.simps [of r x n c f] using False r by (simp add: Let_def)
  qed (use "1.prems"(4) in \<open>simp add: item_calc_data_crc.simps\<close>)
qed

lemma check_entry:
  assumes "region_ok r" "bytes_at f (base_addr r + x) (entry_bytes e)" "x + entry_size e \<le> total_size r" "entry_ok e"
  shows "item_check_validity r x (entry_item e) chk f = Some (f, if e_live e then ITEM_STATUS_VALID else ITEM_STATUS_OBSOLETE)"
proof (cases "e_live e")
  case True
  note rd = entry_reads [OF assms(1-3)] and fl = entry_fields [OF assms(4)]
  have n: "length (e_name e) + 1 \<le> 128" using assms(4) by (simp add: entry_ok_def)
  have l: "9 + length (e_name e) + length (e_data e) \<le> entry_size e" using entry_real_le [of e] by (simp add: entry_real_length)
  have "item_calc_data_crc r (x + ITEM_SIZE + (length (e_name e) + 1)) (length (e_data e))
      (calc_crc8 (e_name e @ [0]) (calc_crc8 (drop 3 (item_bytes (entry_item e))) 0)) f = Some (i_crc (entry_item e))"
    unfolding entry_crc by (rule data_crc [OF assms(1)]) (use entry_parts(3) [OF assms(2)] assms(3) l in \<open>simp_all add: ac_simps\<close>)
  then show ?thesis using True rd(3) fl n by (simp add: item_check_validity_def)
next
  case False
  then show ?thesis using entry_fields [OF assms(4)] by (simp add: item_check_validity_def)
qed

section \<open>Writing an entry\<close>

lemma write_data:
  assumes "region_ok r" "x + length data \<le> total_size r"
  shows "region_write_data r x data f = flash_prog f (base_addr r + x) data"
  using assms
proof (induction r x data f rule: region_write_data.induct)
  case (1 r x data f)
  show ?case
  proof (cases "data = []")
    case False
    let ?w = "min (length data) NVRAM_BUFFER_SIZE"
    let ?f = "flash_prog f (base_addr r + x) (take ?w data)"
    have l: "length (take ?w data) = ?w" by simp
    have w: "fst (region_write r x (take ?w data) f) = ?f" using write_ok [OF "1.prems"(1), of x "take ?w data" f] "1.prems"(2) by simp
    have "region_write_data r (x + ?w) (drop ?w data) ?f = flash_prog ?f (base_addr r + (x + ?w)) (drop ?w data)"
      using "1.IH" [OF False refl "1.prems"(1)] "1.prems"(2) unfolding w by simp
    also have "\<dots> = flash_prog f (base_addr r + x) data"
      using flash_prog_append [of f "base_addr r + x" "take ?w data" "drop ?w data"] l by (metis add.assoc append_take_drop_id)
    finally show ?thesis unfolding region_write_data.simps [of r x data f] using False w by (simp add: Let_def)
  qed (simp add: region_write_data.simps)
qed

lemma new_entry_item: "entry_item (Entry True name data) = new_item name data"
  by (simp add: entry_item_def new_item_def Let_def)

lemma write_item:
  assumes "region_ok r" "entry_ok (Entry True name data)" "x + length (entry_real (Entry True name data)) \<le> total_size r"
  shows "region_write_item r x name data f =
    (flash_prog f (base_addr r + x) (entry_real (Entry True name data)), int (length (entry_real (Entry True name data))))"
proof -
  let ?e = "Entry True name data"
  let ?h = "item_bytes (new_item name data) @ name @ [0]"
  note fl = entry_fields [OF assms(2), unfolded new_entry_item]
  have n: "length name + 1 \<le> 112" using assms(2) by (simp add: entry_ok_def)
  have e: "entry_real ?e = ?h @ data" by (simp add: entry_real_def new_entry_item)
  have h: "length ?h = 8 + (length name + 1)" by simp
  have l: "length (entry_real ?e) = 8 + (length name + 1) + length data" by (simp add: entry_real_length)
  have w: "fst (region_write r x ?h f) = flash_prog f (base_addr r + x) ?h"
    using write_ok [OF assms(1), of x ?h f] assms(3) l h by simp
  have "region_write_data r (x + (8 + (length name + 1))) data (flash_prog f (base_addr r + x) ?h) =
      flash_prog (flash_prog f (base_addr r + x) ?h) (base_addr r + (x + (8 + (length name + 1)))) data"
    by (rule write_data [OF assms(1)]) (use assms(3) l in linarith)
  also have "\<dots> = flash_prog f (base_addr r + x) (entry_real ?e)"
    using flash_prog_append [of f "base_addr r + x" ?h data] unfolding e h by (simp only: add.assoc)
  finally show ?thesis using fl(4,5) w n l by (simp add: region_write_item_def Let_def ac_simps)
qed

lemma blank_entry:
  assumes "bytes_at f a (replicate (entry_size e) 0xff)"
  shows "bytes_at (flash_prog f a (entry_real e)) a (entry_bytes e)"
proof -
  let ?k = "entry_size e - length (entry_real e)"
  have "replicate (entry_size e) 0xff = replicate (length (entry_real e)) 0xff @ replicate ?k (0xff :: u8)"
    using entry_real_le [of e] by (simp add: replicate_add [symmetric])
  then have b: "bytes_at f a (replicate (length (entry_real e)) 0xff)" "bytes_at f (a + length (entry_real e)) (replicate ?k 0xff)"
    using assms by (simp_all add: bytes_at_append)
  show ?thesis unfolding entry_bytes_def bytes_at_append
    using bytes_at_prog_blank [OF b(1)] bytes_at_prog_other [OF b(2), of a "entry_real e"] by simp
qed

section \<open>Marking an entry obsolete\<close>

definition dead :: "log_entry \<Rightarrow> log_entry" where
  "dead e = Entry False (e_name e) (e_data e)"

lemma dead_simps [simp]: "e_live (dead e) = False" "e_name (dead e) = e_name e" "e_data (dead e) = e_data e" "entry_size (dead e) = entry_size e"
    "entry_ok (dead e) = entry_ok e"
  by (simp_all add: dead_def entry_size_def entry_ok_def)

lemma entry_bytes_state:
  "\<exists>m rest. entry_bytes e = m # (if e_live e then STATE_VALID else STATE_OBSOLETE) # rest \<and> entry_bytes (dead e) = m # STATE_OBSOLETE # rest"
  by (simp add: entry_bytes_def entry_real_def entry_item_def dead_def item_bytes_def new_item_def Let_def entry_size_def)

lemma mark_dead:
  assumes "bytes_at f a (entry_bytes e)" "e_live e"
  shows "bytes_at (flash_prog f (a + 1) [STATE_OBSOLETE]) a (entry_bytes (dead e))"
proof -
  obtain m rest where e: "entry_bytes e = [m] @ [STATE_VALID] @ rest" "entry_bytes (dead e) = [m] @ [STATE_OBSOLETE] @ rest"
    using entry_bytes_state [of e] assms(2) by auto
  have b: "bytes_at f a [m]" "bytes_at f (a + 1) [STATE_VALID]" "bytes_at f (a + 2) rest"
    using assms(1) unfolding e bytes_at_append by simp_all
  show ?thesis unfolding e bytes_at_append
    using bytes_at_prog_other [OF b(1), of "a + 1" "[STATE_OBSOLETE]"] bytes_at_prog_other [OF b(3), of "a + 1" "[STATE_OBSOLETE]"]
      bytes_at_prog_blank [of f "a + 1" "[STATE_OBSOLETE]"] b(2) by simp
qed

section \<open>The first live entry of a name\<close>

fun kill :: "u8 list \<Rightarrow> log_entry list \<Rightarrow> log_entry list" where
  "kill name [] = []"
| "kill name (e # es) = (if e_live e \<and> e_name e = name then dead e # es else e # kill name es)"

lemma find_entry_split:
  "find_entry x name es = Some (y, e) \<Longrightarrow> \<exists>pre post. es = pre @ e # post \<and> y = x + log_size pre \<and> e_live e \<and> e_name e = name \<and>
     kill name es = pre @ dead e # post"
proof (induction es arbitrary: x)
  case (Cons d es)
  show ?case
  proof (cases "e_live d \<and> e_name d = name")
    case True
    then show ?thesis using Cons.prems by (intro exI [of _ "[]"] exI [of _ es]) auto
  next
    case False
    then have "find_entry (x + entry_size d) name es = Some (y, e)" using Cons.prems by (auto split: if_splits)
    then obtain pre post where "es = pre @ e # post" "y = x + entry_size d + log_size pre" "e_live e" "e_name e = name"
        "kill name es = pre @ dead e # post"
      using Cons.IH by blast
    then show ?thesis using False by (intro exI [of _ "d # pre"] exI [of _ post]) auto
  qed
qed simp

lemma kill_none: "find_entry x name es = None \<Longrightarrow> kill name es = es"
  by (induction es arbitrary: x) (auto split: if_splits)

lemma kill_simps [simp]: "log_size (kill name es) = log_size es" "length (kill name es) = length es"
  by (induction es) simp_all

lemma kill_ok: "\<forall>e\<in>set es. entry_ok e \<Longrightarrow> \<forall>e\<in>set (kill name es). entry_ok e"
  by (induction es) auto

lemma live_offs_kill: "find_entry x name es = Some (y, e) \<Longrightarrow> live_offs x (kill name es) = live_offs x es - {y}"
proof (induction es arbitrary: x)
  case (Cons d es)
  have r: "z \<in> live_offs (x + entry_size d) es \<Longrightarrow> x < z" for z
    using live_offs_range [of z "x + entry_size d" es] entry_size_ge [of d] by simp
  show ?case
  proof (cases "e_live d \<and> e_name d = name")
    case True
    then show ?thesis using Cons.prems r by auto
  next
    case False
    then have f: "find_entry (x + entry_size d) name es = Some (y, e)" using Cons.prems by auto
    have "x < y" using find_entry_split [OF f] entry_size_ge [of d] by auto
    then show ?thesis using False Cons.IH [OF f] by auto
  qed
qed simp

text \<open>The contents of the store.\<close>

definition log_map :: "log_entry list \<Rightarrow> u8 list \<rightharpoonup> u8 list" where
  "log_map es = map_of (map (\<lambda>e. (e_name e, e_data e)) (filter e_live es))"

definition live_names :: "log_entry list \<Rightarrow> u8 list list" where
  "live_names es = map e_name (filter e_live es)"

lemma log_map_find: "log_map es name = map_option (e_data \<circ> snd) (find_entry x name es)"
  by (induction es arbitrary: x) (auto simp: log_map_def)

lemma log_map_filter [simp]: "log_map (filter e_live es) = log_map es" "live_names (filter e_live es) = live_names es"
  by (simp_all add: log_map_def live_names_def)

lemma log_map_dom: "dom (log_map es) = set (live_names es)"
  by (simp add: log_map_def live_names_def dom_map_of_conv_image_fst image_image)

lemma live_names_kill: "distinct (live_names es) \<Longrightarrow> live_names (kill name es) = filter (\<lambda>n. n \<noteq> name) (live_names es)"
proof (induction es)
  case (Cons e es)
  show ?case
  proof (cases "e_live e \<and> e_name e = name")
    case True
    then have "name \<notin> set (live_names es)" using Cons.prems by (auto simp: live_names_def)
    then have "filter (\<lambda>n. n \<noteq> name) (live_names es) = live_names es" by (simp add: filter_id_conv) blast
    then show ?thesis using True by (simp add: live_names_def)
  qed (use Cons in \<open>auto simp: live_names_def split: if_splits\<close>)
qed (simp add: live_names_def)

lemma log_map_kill: "distinct (live_names es) \<Longrightarrow> log_map (kill name es) = (log_map es)(name := None)"
proof (induction es)
  case (Cons e es)
  have d: "distinct (live_names es)" using Cons.prems by (auto simp: live_names_def split: if_splits)
  show ?case
  proof (cases "e_live e \<and> e_name e = name")
    case True
    then have "name \<notin> dom (log_map es)" using Cons.prems unfolding log_map_dom by (auto simp: live_names_def)
    then have "log_map es name = None" by blast
    then show ?thesis using True by (auto simp: log_map_def fun_eq_iff)
  qed (use Cons.IH [OF d] in \<open>auto simp: log_map_def fun_eq_iff\<close>)
qed (simp add: log_map_def)

lemma log_map_append: "log_map (es @ [Entry True name data]) = [name \<mapsto> data] ++ log_map es"
  by (simp add: log_map_def map_add_def)

lemma set_log_map:
  assumes "distinct (live_names es)"
  shows "log_map (kill name es @ [Entry True name data]) = (log_map es)(name \<mapsto> data)"
    "distinct (live_names (kill name es @ [Entry True name data]))"
proof -
  show "log_map (kill name es @ [Entry True name data]) = (log_map es)(name \<mapsto> data)"
    unfolding log_map_append log_map_kill [OF assms] by (auto simp: map_add_def fun_eq_iff split: option.splits)
  have "live_names (kill name es @ [Entry True name data]) = filter (\<lambda>n. n \<noteq> name) (live_names es) @ [name]"
    using live_names_kill [OF assms, of name] by (simp add: live_names_def)
  then show "distinct (live_names (kill name es @ [Entry True name data]))" using assms by simp
qed

section \<open>The loops over all items\<close>

lemma scan_log:
  assumes "region_ok r" "seg_size r = 4096" "seg_offset r + 4096 \<le> total_size r" "\<forall>e\<in>set es. entry_ok e"
    "bytes_at f (base_addr r + (seg_offset r + x)) (log_bytes es @ replicate k 0xff)" "x + log_size es + k = 4096" "16 dvd x"
    "map_rep (seg_item_map r) S"
  shows "\<exists>m. scan_items r x f = Some (f, r\<lparr>seg_item_map := m\<rparr>, x + log_size es, False, 0) \<and> map_rep m (S \<union> live_offs x es)"
  using assms
proof (induction es arbitrary: r x S)
  case Nil
  show ?case
  proof (cases "x < 4096")
    case True
    have k: "x + k = 4096" using Nil.prems(6) by simp
    then have "16 dvd k" using Nil.prems(7) by presburger
    then have "8 \<le> k" using True k by (auto elim!: dvdE)
    then have "region_read r (seg_offset r + x) ITEM_SIZE f = Inr (replicate 8 0xff)"
      using blank_read(2) [OF Nil.prems(1), of f "seg_offset r + x" k] Nil.prems(3,5) k by simp
    moreover have "item_is_empty (item_of (replicate 8 0xff))" by (simp add: item_is_empty_def blank_item item_bytes_def le16_def)
    ultimately have "scan_items r x f = Some (f, r, x, False, 0)" using True Nil.prems(2)
      by (subst scan_items.simps) (simp add: blank_item item_check_validity_def)
    then show ?thesis using Nil.prems(8) by (intro exI [of _ "seg_item_map r"]) simp
  next
    case False
    then have "scan_items r x f = Some (f, r, x, False, 0)" using Nil.prems(2) by (subst scan_items.simps) simp
    then show ?thesis using Nil.prems(8) by (intro exI [of _ "seg_item_map r"]) simp
  qed
next
  case (Cons e es)
  let ?y = "x + entry_size e"
  have y: "?y + log_size es + k = 4096" "16 dvd ?y" "x < 4096" "?y \<le> 4096" using Cons.prems(6,7) entry_size_ge [of e] by auto
  have b: "bytes_at f (base_addr r + (seg_offset r + x)) (entry_bytes e)"
      "bytes_at f (base_addr r + (seg_offset r + ?y)) (log_bytes es @ replicate k 0xff)"
    using Cons.prems(5) by (simp_all add: bytes_at_append add.assoc)
  have ok: "entry_ok e" "\<forall>e\<in>set es. entry_ok e" using Cons.prems(4) by simp_all
  have t: "seg_offset r + x + entry_size e \<le> total_size r" using y(4) Cons.prems(3) by linarith
  note rd = entry_reads(2) [OF Cons.prems(1) b(1) t] and ch = check_entry [OF Cons.prems(1) b(1) t ok(1), of True]
  show ?case
  proof (cases "e_live e")
    case True
    obtain m where m: "item_bitmap_update (seg_item_map r) x True = Some m" "map_rep m (insert x S)"
      using map_rep_update(1) [OF Cons.prems(8,7) y(3)] by blast
    have "scan_items r x f = scan_items (r\<lparr>seg_item_map := m\<rparr>) ?y f"
      using True Cons.prems(2) y(3) rd ch m(1) by (subst scan_items.simps) (simp add: entry_aligned [OF ok(1)])
    moreover have "region_ok (r\<lparr>seg_item_map := m\<rparr>)" using Cons.prems(1) by (simp add: region_ok_def)
    ultimately show ?thesis using Cons.IH [of "r\<lparr>seg_item_map := m\<rparr>" ?y "insert x S"] Cons.prems(2,3) ok(2) b(2) y m(2) True by (simp add: add.assoc)
  next
    case False
    have "scan_items r x f = scan_items r ?y f"
      using False Cons.prems(2) y(3) rd ch by (subst scan_items.simps) (simp add: entry_aligned [OF ok(1)])
    then show ?thesis using Cons.IH [OF Cons.prems(1-3) ok(2) b(2) y(1,2) Cons.prems(8)] False by (simp add: add.assoc)
  qed
qed

lemma copy_log:
  assumes "region_ok r" "\<forall>e\<in>set es. entry_ok e" "bytes_at f (base_addr r + x) (log_bytes es)" "x + log_size es \<le> total_size r"
    "bytes_at f (base_addr r + y) (replicate k 0xff)" "log_size (filter e_live es) \<le> k" "y + k \<le> total_size r"
    "x + log_size es \<le> y \<or> y + k \<le> x" "s \<le> y" "16 dvd y - s" "y - s + k \<le> 4096" "map_rep (seg_item_map r) S"
  shows "\<exists>g m. copy_items r s x y chk (x + log_size es) f = Some (g, r\<lparr>seg_item_map := m, seg_write_offset := y + log_size (filter e_live es)\<rparr>) \<and>
    bytes_at g (base_addr r + y) (log_bytes (filter e_live es) @ replicate (k - log_size (filter e_live es)) 0xff) \<and>
    (\<forall>z. z < base_addr r + y \<or> base_addr r + y + k \<le> z \<longrightarrow> g z = f z) \<and> map_rep m (S \<union> live_offs (y - s) (filter e_live es))"
  using assms
proof (induction es arbitrary: r f x y k S)
  case Nil
  have "copy_items r s x y chk (x + log_size []) f = Some (f, r\<lparr>seg_write_offset := y\<rparr>)" by (subst copy_items.simps) simp
  then show ?case using Nil.prems by (intro exI [of _ f] exI [of _ "seg_item_map r"]) simp
next
  case (Cons e es)
  let ?x = "x + entry_size e"
  have b: "bytes_at f (base_addr r + x) (entry_bytes e)" "bytes_at f (base_addr r + ?x) (log_bytes es)"
    using Cons.prems(3) by (simp_all add: bytes_at_append add.assoc)
  have ok: "entry_ok e" "\<forall>e\<in>set es. entry_ok e" using Cons.prems(2) by simp_all
  have t: "x + entry_size e \<le> total_size r" "?x + log_size es \<le> total_size r" using Cons.prems(4) by simp_all
  have x: "x < x + log_size (e # es)" using entry_size_ge [of e] by simp
  note rd = entry_reads(1) [OF Cons.prems(1) b(1) t(1)] and ch = check_entry [OF Cons.prems(1) b(1) t(1) ok(1), of chk]
  show ?case
  proof (cases "e_live e")
    case False
    have "copy_items r s x y chk (x + log_size (e # es)) f = copy_items r s ?x y chk (?x + log_size es) f"
      using False x rd ch by (subst copy_items.simps) (simp add: entry_aligned [OF ok(1)] add.assoc)
    then show ?thesis using Cons.IH [OF Cons.prems(1) ok(2) b(2) t(2) Cons.prems(5) _ Cons.prems(7) _ Cons.prems(9-12)]
        Cons.prems(6,8) False by auto
  next
    case True
    let ?y = "y + entry_size e" and ?k = "k - entry_size e"
    let ?f = "flash_prog f (base_addr r + y) (entry_real e)"
    have k: "entry_size e \<le> k" "log_size (filter e_live es) \<le> ?k" using Cons.prems(6) True by simp_all
    have rl: "length (entry_real e) \<le> entry_size e" by (rule entry_real_le)
    have ys: "y - s < 4096" using Cons.prems(11) k(1) entry_size_ge [of e] by linarith
    obtain m where m: "item_bitmap_update (seg_item_map r) (y - s) True = Some m" "map_rep m (insert (y - s) S)"
      using map_rep_update(1) [OF Cons.prems(12,10) ys] by blast
    have cp: "region_copy r x y (length (entry_real e)) f = (?f, 0)"
      by (rule copy_ok [OF Cons.prems(1)]) (use entry_parts(4) [OF b(1)] t k rl Cons.prems(7,8) in auto)
    have step: "copy_items r s x y chk (x + log_size (e # es)) f = copy_items (r\<lparr>seg_item_map := m\<rparr>) s ?x ?y chk (?x + log_size es) ?f"
      using True x rd ch cp m(1) by (subst copy_items.simps) (simp add: entry_aligned [OF ok(1)] entry_real_size [OF ok(1)] add.assoc)
    have "replicate k 0xff = replicate (entry_size e) 0xff @ replicate ?k (0xff :: u8)" using k(1) by (simp add: replicate_add [symmetric])
    then have bl: "bytes_at f (base_addr r + y) (replicate (entry_size e) 0xff)" "bytes_at f (base_addr r + ?y) (replicate ?k 0xff)"
      using Cons.prems(5) by (simp_all add: bytes_at_append add.assoc)
    have be: "bytes_at ?f (base_addr r + y) (entry_bytes e)" by (rule blank_entry [OF bl(1)])
    have rest: "bytes_at ?f (base_addr r + ?y) (replicate ?k 0xff)" "bytes_at ?f (base_addr r + ?x) (log_bytes es)"
      using bytes_at_prog_other [OF bl(2), of "base_addr r + y" "entry_real e"] bytes_at_prog_other [OF b(2), of "base_addr r + y" "entry_real e"]
        rl k(1) Cons.prems(8) by auto
    have d2: "?y - s = y - s + entry_size e" using Cons.prems(9) by simp
    have "16 dvd ?y - s" unfolding d2 by (rule dvd_add [OF Cons.prems(10)]) simp
    note d = this d2
    let ?r = "r\<lparr>seg_item_map := m\<rparr>"
    have rs: "base_addr ?r = base_addr r" "total_size ?r = total_size r" "seg_item_map ?r = m"
        "?r\<lparr>seg_item_map := m2, seg_write_offset := w\<rparr> = r\<lparr>seg_item_map := m2, seg_write_offset := w\<rparr>" for m2 w by simp_all
    have okr: "region_ok ?r" using Cons.prems(1) by (simp add: region_ok_def)
    have dj: "?x + log_size es \<le> ?y \<or> ?y + ?k \<le> ?x" using Cons.prems(8) k(1) by auto
    have sz: "?y + ?k \<le> total_size r" "s \<le> ?y" "?y - s + ?k \<le> 4096" using Cons.prems(7,9,11) k(1) by simp_all
    have "\<exists>g m'. copy_items ?r s ?x ?y chk (?x + log_size es) ?f = Some (g, ?r\<lparr>seg_item_map := m', seg_write_offset := ?y + log_size (filter e_live es)\<rparr>) \<and>
        bytes_at g (base_addr ?r + ?y) (log_bytes (filter e_live es) @ replicate (?k - log_size (filter e_live es)) 0xff) \<and>
        (\<forall>z. z < base_addr ?r + ?y \<or> base_addr ?r + ?y + ?k \<le> z \<longrightarrow> g z = ?f z) \<and> map_rep m' (insert (y - s) S \<union> live_offs (?y - s) (filter e_live es))"
      by (rule Cons.IH [OF okr ok(2) _ _ _ k(2) _ dj sz(2) d(1) sz(3)]) (simp_all only: rs rest t(2) sz(1) m(2))
    then obtain g m' where g: "copy_items ?r s ?x ?y chk (?x + log_size es) ?f =
          Some (g, r\<lparr>seg_item_map := m', seg_write_offset := ?y + log_size (filter e_live es)\<rparr>)"
        "bytes_at g (base_addr r + ?y) (log_bytes (filter e_live es) @ replicate (?k - log_size (filter e_live es)) 0xff)"
        "\<forall>z. z < base_addr r + ?y \<or> base_addr r + ?y + ?k \<le> z \<longrightarrow> g z = ?f z" "map_rep m' (insert (y - s) S \<union> live_offs (?y - s) (filter e_live es))"
      by (simp only: rs) blast
    have "bytes_at g (base_addr r + y) (entry_bytes e)" by (rule bytes_at_cong [OF be]) (use g(3) in auto)
    then have "bytes_at g (base_addr r + y) (log_bytes (filter e_live (e # es)) @ replicate (k - log_size (filter e_live (e # es))) 0xff)"
      using g(2) True by (simp add: bytes_at_append add.assoc)
    moreover have "\<forall>z. z < base_addr r + y \<or> base_addr r + y + k \<le> z \<longrightarrow> g z = f z"
      using g(3) rl k(1) by (auto simp: flash_prog_prog)
    ultimately show ?thesis using step g(1,4) True d(2) by (intro exI [of _ g] exI [of _ m']) (simp add: add.assoc)
  qed
qed

end
