(* ===== verification/Nvram_Region.thy ===== *)
theory Nvram_Region
  imports Nvram_Log
begin

text \<open>
  The representation of a store in a region: the current segment holds a log, every other segment has no valid header.
  Search, set, purge and start up are shown to act on the log.
\<close>

unbundle bit_operations_syntax

section \<open>Representation\<close>

definition header_valid :: "flash \<Rightarrow> nat \<Rightarrow> bool" where
  "header_valid f a \<longleftrightarrow> is_valid_region_seg_header (header_of (map f [a..<a + HEADER_SIZE]))"

definition seg_image :: "u8 \<Rightarrow> log_entry list \<Rightarrow> u8 list" where
  "seg_image seq es = header_bytes (new_header 4096 seq) @ log_bytes es @ replicate (4080 - log_size es) 0xff"

definition region_geom :: "region_info \<Rightarrow> bool" where
  "region_geom r \<longleftrightarrow> region_ok r \<and> seg_size r = 4096 \<and> 8192 \<le> total_size r"

definition region_rep :: "region_info \<Rightarrow> flash \<Rightarrow> log_entry list \<Rightarrow> bool" where
  "region_rep r f es \<longleftrightarrow> region_geom r \<and> 4096 dvd seg_offset r \<and> seg_offset r + 4096 \<le> total_size r \<and>
     (\<forall>e\<in>set es. entry_ok e) \<and> log_size es \<le> 4080 \<and> bytes_at f (base_addr r + seg_offset r) (seg_image (seg_seq_id r) es) \<and>
     seg_write_offset r = seg_offset r + 16 + log_size es \<and> map_rep (seg_item_map r) (live_offs 16 es) \<and>
     (\<forall>s. 4096 dvd s \<and> s + 4096 \<le> total_size r \<and> s \<noteq> seg_offset r \<longrightarrow> \<not> header_valid f (base_addr r + s))"

lemma new_header_bytes: "length (header_bytes (new_header n seq)) = 16" "header_of (header_bytes (new_header n seq)) = new_header n seq"
proof -
  have "length (h_reserved2 (new_header n seq)) = 4" by (simp add: new_header_def Let_def)
  then show "length (header_bytes (new_header n seq)) = 16" "header_of (header_bytes (new_header n seq)) = new_header n seq"
    by (simp_all add: length_header_bytes header_of_bytes)
qed

lemma new_header_fields: "h_seq_id (new_header n seq) = seq" "is_valid_region_seg_header (new_header n seq)"
  by (simp_all add: new_header_def Let_def is_valid_region_seg_header_def header_bytes_def le32_def)

lemma image_parts:
  assumes "bytes_at f a (seg_image seq es)"
  shows "bytes_at f a (header_bytes (new_header 4096 seq))" "bytes_at f (a + 16) (log_bytes es @ replicate (4080 - log_size es) 0xff)"
    "map f [a..<a + 16] = header_bytes (new_header 4096 seq)"
proof -
  show "bytes_at f a (header_bytes (new_header 4096 seq))" "bytes_at f (a + 16) (log_bytes es @ replicate (4080 - log_size es) 0xff)"
    using assms unfolding seg_image_def by (simp_all only: bytes_at_append new_header_bytes(1))
  then show "map f [a..<a + 16] = header_bytes (new_header 4096 seq)" by (intro bytes_at_map) (simp_all add: new_header_bytes(1))
qed

lemma image_length: "log_size es \<le> 4080 \<Longrightarrow> length (seg_image seq es) = 4096"
  by (simp add: seg_image_def new_header_bytes(1))

lemma repD:
  assumes "region_rep r f es"
  shows "region_ok r" "seg_size r = 4096" "8192 \<le> total_size r" "4096 dvd seg_offset r" "seg_offset r + 4096 \<le> total_size r"
    "\<forall>e\<in>set es. entry_ok e" "log_size es \<le> 4080" "bytes_at f (base_addr r + seg_offset r) (seg_image (seg_seq_id r) es)"
    "seg_write_offset r = seg_offset r + 16 + log_size es" "map_rep (seg_item_map r) (live_offs 16 es)" "region_geom r"
    "4096 dvd s \<Longrightarrow> s + 4096 \<le> total_size r \<Longrightarrow> s \<noteq> seg_offset r \<Longrightarrow> \<not> header_valid f (base_addr r + s)"
  using assms by (auto simp: region_rep_def region_geom_def)

lemma rep_log: "region_rep r f es \<Longrightarrow> bytes_at f (base_addr r + (seg_offset r + 16)) (log_bytes es @ replicate (4080 - log_size es) 0xff)"
  using image_parts(2) [OF repD(8)] by (simp add: add.assoc)

section \<open>Search and get\<close>

lemma rep_find:
  assumes "region_rep r f es" "0 \<notin> set name"
  shows "region_find_item r name f = Some (map_option (\<lambda>(y, e). (seg_offset r + y, entry_item e)) (find_entry 16 name es))"
proof -
  note d = repD [OF assms(1)]
  have S: "live_offs 16 es \<inter> {0..<16} = {}" "live_offs 16 es \<inter> {16..<4096} = live_offs 16 es"
    using live_offs_range [of _ 16 es] d(7) by fastforce+
  have "region_find_item r name f = do { n \<leftarrow> item_bitmap_next_offset (seg_item_map r) 4096 16; find_loop r name f n }"
    unfolding region_find_item_def d(2) first_offset_next [OF d(10) S(1)] ..
  also have "\<dots> = Some (map_option (\<lambda>(y, e). (seg_offset r + y, entry_item e)) (find_entry 16 name es))"
    by (rule find_log [OF d(1,2,5) assms(2) rep_log [OF assms(1)] _ _ d(10) S(2) d(6)]) (use d(7) in simp_all)
  finally show ?thesis .
qed

lemma find_entry_bytes:
  assumes "region_rep r f es" "find_entry 16 name es = Some (y, e)"
  shows "bytes_at f (base_addr r + (seg_offset r + y)) (entry_bytes e)" "entry_ok e" "seg_offset r + y + entry_size e \<le> total_size r"
    "16 \<le> y" "y + entry_size e \<le> 4096" "16 dvd y" "e_live e" "e_name e = name"
proof -
  note d = repD [OF assms(1)]
  obtain pre post where s: "es = pre @ e # post" "y = 16 + log_size pre" "e_live e" "e_name e = name"
    using find_entry_split [OF assms(2)] by blast
  show "bytes_at f (base_addr r + (seg_offset r + y)) (entry_bytes e)"
    using rep_log [OF assms(1)] unfolding s(1,2) by (simp add: bytes_at_append add.assoc)
  show "entry_ok e" using d(6) s(1) by simp
  show "16 \<le> y" "y + entry_size e \<le> 4096" "16 dvd y" "e_live e" "e_name e = name" using d(7) s by simp_all
  then show "seg_offset r + y + entry_size e \<le> total_size r" using d(5) by linarith
qed

lemma rep_get:
  assumes "region_rep r f es" "0 \<notin> set name" "0 < max_len"
  shows "region_get r name max_len f = Some (case log_map es name of None \<Rightarrow> Inl (- ENOENT) | Some v \<Rightarrow> Inr (take max_len v))"
proof (cases "find_entry 16 name es")
  case None
  then show ?thesis using rep_find [OF assms(1,2)] assms(3) log_map_find [of es name 16] by (simp add: region_get_def)
next
  case (Some p)
  obtain y e where p: "find_entry 16 name es = Some (y, e)" using Some by (cases p) simp
  note b = find_entry_bytes [OF assms(1) p]
  note fl = entry_fields [OF b(2)]
  let ?n = "if max_len < length (e_data e) then max_len else length (e_data e)"
  have "region_fetch r (seg_offset r + y + ITEM_SIZE + (length (e_name e) + 1)) ?n f = Some (take ?n (e_data e))"
    by (rule entry_reads(4) [OF repD(1) [OF assms(1)] b(1,3)]) simp
  moreover have "take ?n (e_data e) = take max_len (e_data e)" by simp
  ultimately show ?thesis using rep_find [OF assms(1,2)] assms(3) log_map_find [of es name 16] p fl(4,5)
    by (cases "max_len < length (e_data e)") (simp_all add: region_get_def)
qed

lemma same_data_ok:
  assumes "region_ok r" "bytes_at f (base_addr r + x) bs" "x + length bs \<le> total_size r" "length data = length bs"
  shows "same_data r x data f = Some (data = bs)"
  using assms
proof (induction r x data f arbitrary: bs rule: same_data.induct)
  case (1 r x data f)
  show ?case
  proof (cases "data = []")
    case False
    let ?w = "min (length data) NVRAM_BUFFER_SIZE"
    have b: "bytes_at f (base_addr r + x) (take ?w bs)" "bytes_at f (base_addr r + (x + ?w)) (drop ?w bs)"
      using "1.prems"(2,4) bytes_at_append [of f "base_addr r + x" "take ?w bs" "drop ?w bs"] by (simp_all add: add.assoc)
    have r: "region_fetch r x ?w f = Some (take ?w bs)"
      by (rule fetch_bytes [OF "1.prems"(1) b(1)]) (use "1.prems"(3,4) in simp_all)
    have IH: "take ?w bs = take ?w data \<Longrightarrow> same_data r (x + ?w) (drop ?w data) f = Some (drop ?w data = drop ?w bs)"
      by (rule "1.IH" [OF False refl r _ "1.prems"(1) b(2)]) (use "1.prems"(3,4) in simp_all)
    have e: "data = bs \<longleftrightarrow> take ?w bs = take ?w data \<and> drop ?w data = drop ?w bs" by (metis append_take_drop_id)
    show ?thesis unfolding same_data.simps [of r x data f] Let_def r option.case using False IH e by auto
  qed (use "1.prems"(4) in \<open>simp add: same_data.simps\<close>)
qed

lemma rep_same:
  assumes "region_rep r f es" "0 \<notin> set name"
  shows "region_is_same_config_data r name data f = Some (log_map es name = Some data)"
proof (cases "find_entry 16 name es")
  case None
  then show ?thesis using rep_find [OF assms] log_map_find [of es name 16] by (simp add: region_is_same_config_data_def)
next
  case (Some p)
  obtain y e where p: "find_entry 16 name es = Some (y, e)" using Some by (cases p) simp
  note b = find_entry_bytes [OF assms(1) p]
  note fl = entry_fields [OF b(2)]
  have l: "9 + length (e_name e) + length (e_data e) \<le> entry_size e" using entry_real_le [of e] by (simp add: entry_real_length)
  have m: "log_map es name = Some (e_data e)" using log_map_find [of es name 16] p by simp
  have "same_data r (seg_offset r + y + ITEM_SIZE + (length (e_name e) + 1)) data f = Some (data = e_data e)"
    if "length data = length (e_data e)"
    by (rule same_data_ok [OF repD(1) [OF assms(1)] _ _ that]) (use entry_parts(3) [OF b(1)] b(3) l in \<open>simp_all add: ac_simps\<close>)
  then show ?thesis using rep_find [OF assms] p fl(4,5) m b(4) by (auto simp: region_is_same_config_data_def)
qed

section \<open>Changes of the current segment\<close>

lemma splice:
  assumes "bytes_at f a (A @ X @ B)" "\<And>z. z < a + length A \<or> a + length A + length X \<le> z \<Longrightarrow> g z = f z"
    "bytes_at g (a + length A) X'" "length X' = length X"
  shows "bytes_at g a (A @ X' @ B)"
proof -
  have "bytes_at f a A" "bytes_at f (a + length A + length X) B" using assms(1) by (simp_all add: bytes_at_append)
  then have "bytes_at g a A" "bytes_at g (a + length A + length X) B" using assms(2) by (auto intro: bytes_at_cong)
  then show ?thesis using assms(3,4) by (simp add: bytes_at_append)
qed

lemma header_valid_cong: "(\<And>z. a \<le> z \<Longrightarrow> z < a + 16 \<Longrightarrow> g z = f z) \<Longrightarrow> header_valid g a = header_valid f a"
  unfolding header_valid_def by (metis (no_types, lifting) atLeastLessThan_iff map_cong set_upt)

lemma seg_apart: "4096 dvd s \<Longrightarrow> 4096 dvd t \<Longrightarrow> s \<noteq> t \<Longrightarrow> s + 4096 \<le> t \<or> t + 4096 \<le> s" for s t :: nat
  by (elim dvdE) auto

definition same_outside :: "region_info \<Rightarrow> flash \<Rightarrow> flash \<Rightarrow> bool" where
  "same_outside r f g \<longleftrightarrow> (\<forall>z. z < base_addr r \<or> base_addr r + total_size r \<le> z \<longrightarrow> g z = f z)"

lemma same_outside_refl [simp]: "same_outside r f f"
  by (simp add: same_outside_def)

lemma same_outside_trans: "same_outside r f g \<Longrightarrow> same_outside r g h \<Longrightarrow> same_outside r f h"
  by (simp add: same_outside_def)

lemma same_outside_prog: "x + length bs \<le> total_size r \<Longrightarrow> same_outside r f (flash_prog f (base_addr r + x) bs)"
  by (auto simp: same_outside_def flash_prog_prog)

lemma same_outside_fill: "x + n \<le> total_size r \<Longrightarrow> same_outside r f (flash_fill f (base_addr r + x) n)"
  by (auto simp: same_outside_def flash_fill_def)

lemma rep_change:
  assumes "region_rep r f es" "\<And>z. z < base_addr r + seg_offset r \<or> base_addr r + seg_offset r + 4096 \<le> z \<Longrightarrow> g z = f z"
    "bytes_at g (base_addr r + seg_offset r) (seg_image (seg_seq_id r) es')" "\<forall>e\<in>set es'. entry_ok e" "log_size es' \<le> 4080"
    "map_rep m (live_offs 16 es')" "w = seg_offset r + 16 + log_size es'"
  shows "region_rep (r\<lparr>seg_item_map := m, seg_write_offset := w\<rparr>) g es'"
proof -
  note d = repD [OF assms(1)]
  have "\<not> header_valid g (base_addr r + s)" if s: "4096 dvd s" "s + 4096 \<le> total_size r" "s \<noteq> seg_offset r" for s
  proof -
    have "header_valid g (base_addr r + s) = header_valid f (base_addr r + s)"
      by (rule header_valid_cong, rule assms(2)) (use seg_apart [OF s(1) d(4) s(3)] in linarith)
    then show ?thesis using d(12) [OF s] by simp
  qed
  then show ?thesis using d(1-5) assms(3-7) by (simp add: region_rep_def region_geom_def region_ok_def)
qed

lemma rep_kill:
  assumes "region_rep r f es" "find_entry 16 name es = Some (y, e)"
  shows "\<exists>g m. region_obsolete_old (Some (seg_offset r + y, i)) r f = Some (g, r\<lparr>seg_item_map := m\<rparr>) \<and>
    region_rep (r\<lparr>seg_item_map := m\<rparr>) g (kill name es) \<and> same_outside r f g"
proof -
  note d = repD [OF assms(1)] and b = find_entry_bytes [OF assms]
  obtain pre post where s: "es = pre @ e # post" "y = 16 + log_size pre" "kill name es = pre @ dead e # post"
    using find_entry_split [OF assms(2)] by blast
  let ?a = "base_addr r + seg_offset r"
  let ?g = "flash_prog f (?a + y + 1) [STATE_OBSOLETE]"
  let ?A = "header_bytes (new_header 4096 (seg_seq_id r)) @ log_bytes pre"
  let ?B = "log_bytes post @ replicate (4080 - log_size es) 0xff"
  have lA: "length ?A = y" using s(2) by (simp add: new_header_bytes(1))
  have im: "seg_image (seg_seq_id r) es = ?A @ entry_bytes e @ ?B" "seg_image (seg_seq_id r) (kill name es) = ?A @ entry_bytes (dead e) @ ?B"
    using s(1,3) by (simp_all add: seg_image_def)
  have "bytes_at ?g ?a (?A @ entry_bytes (dead e) @ ?B)"
  proof (rule splice)
    show "bytes_at f ?a (?A @ entry_bytes e @ ?B)" using d(8) unfolding im .
    show "bytes_at ?g (?a + length ?A) (entry_bytes (dead e))"
      unfolding lA using mark_dead [OF b(1,7)] by (simp add: add.assoc)
    show "?g z = f z" if "z < ?a + length ?A \<or> ?a + length ?A + length (entry_bytes e) \<le> z" for z
      using that entry_size_ge [of e] unfolding lA by (auto simp: flash_prog_prog)
  qed simp
  then have bg: "bytes_at ?g ?a (seg_image (seg_seq_id r) (kill name es))" unfolding im .
  have y: "y < 4096" "y \<le> 4080" using b(5) entry_size_ge [of e] by simp_all
  obtain m where m: "item_bitmap_update (seg_item_map r) y False = Some m" "map_rep m (live_offs 16 (kill name es))"
    using map_rep_update(2) [OF d(10) b(6) y(1)] unfolding live_offs_kill [OF assms(2)] by blast
  have "nat (int (seg_offset r + y) + 1) = seg_offset r + y + 1" by simp
  then have "item_update_state r (int (seg_offset r + y)) STATE_OBSOLETE f = ?g"
    using write_ok [OF d(1), of "seg_offset r + y + 1" "[STATE_OBSOLETE]" f] b(3) entry_size_ge [of e]
    by (simp add: item_update_state_def add.assoc)
  then have o: "region_obsolete_old (Some (seg_offset r + y, i)) r f = Some (?g, r\<lparr>seg_item_map := m\<rparr>)"
    using m(1) b(4) by (simp add: region_obsolete_old_def)
  have "region_rep (r\<lparr>seg_item_map := m, seg_write_offset := seg_write_offset r\<rparr>) ?g (kill name es)"
    by (rule rep_change [OF assms(1) _ bg _ _ m(2)]) (use kill_ok d(6,7,9) y(2) in \<open>auto simp: flash_prog_prog\<close>)
  moreover have "same_outside r f ?g" using same_outside_prog [of "seg_offset r + y + 1" "[STATE_OBSOLETE]" r f] d(5) y(2) by (simp add: add.assoc)
  ultimately show ?thesis using o by auto
qed

lemma rep_append:
  assumes "region_rep r f es" "entry_ok (Entry True name data)" "log_size es + entry_size (Entry True name data) \<le> 4080"
  shows "\<exists>m. item_bitmap_update (seg_item_map r) (seg_write_offset r - seg_offset r) True = Some m \<and>
    region_rep (r\<lparr>seg_item_map := m, seg_write_offset := seg_write_offset r + entry_size (Entry True name data)\<rparr>)
      (fst (region_write_item r (seg_write_offset r) name data f)) (es @ [Entry True name data]) \<and>
    same_outside r f (fst (region_write_item r (seg_write_offset r) name data f))"
proof -
  note d = repD [OF assms(1)]
  let ?e = "Entry True name data"
  let ?a = "base_addr r + seg_offset r" and ?w = "16 + log_size es"
  let ?g = "flash_prog f (?a + ?w) (entry_real ?e)"
  let ?A = "header_bytes (new_header 4096 (seg_seq_id r)) @ log_bytes es"
  let ?B = "replicate (4080 - (log_size es + entry_size ?e)) 0xff"
  have lA: "length ?A = ?w" by (simp add: new_header_bytes(1))
  have "replicate (4080 - log_size es) 0xff = replicate (entry_size ?e) 0xff @ (?B :: u8 list)"
    using assms(3) by (simp add: replicate_add [symmetric])
  then have im: "seg_image (seg_seq_id r) es = ?A @ replicate (entry_size ?e) 0xff @ ?B" "seg_image (seg_seq_id r) (es @ [?e]) = ?A @ entry_bytes ?e @ ?B"
    by (simp_all add: seg_image_def)
  have "bytes_at ?g ?a (?A @ entry_bytes ?e @ ?B)"
  proof (rule splice)
    show s: "bytes_at f ?a (?A @ replicate (entry_size ?e) 0xff @ ?B)" using d(8) unfolding im .
    have "bytes_at f (?a + ?w) (replicate (entry_size ?e) 0xff)" using s lA by (simp only: bytes_at_append append_assoc [symmetric])
    then show "bytes_at ?g (?a + length ?A) (entry_bytes ?e)" unfolding lA by (rule blank_entry)
    show "?g z = f z" if "z < ?a + length ?A \<or> ?a + length ?A + length (replicate (entry_size ?e) (0xff :: u8)) \<le> z" for z
      using that entry_real_le [of ?e] unfolding lA by (auto simp: flash_prog_prog)
  qed simp
  then have bg: "bytes_at ?g ?a (seg_image (seg_seq_id r) (es @ [?e]))" unfolding im .
  have w: "seg_write_offset r - seg_offset r = ?w" "?w < 4096" "16 dvd ?w" using d(9) assms(3) entry_size_ge [of ?e] by auto
  obtain m where m: "item_bitmap_update (seg_item_map r) ?w True = Some m" "map_rep m (insert ?w (live_offs 16 es))"
    using map_rep_update(1) [OF d(10) w(3,2)] by blast
  have mr: "map_rep m (live_offs 16 (es @ [?e]))" using m(2) by (simp add: live_offs_append)
  have "fst (region_write_item r (seg_write_offset r) name data f) = ?g"
    using write_item [OF d(1) assms(2), of "seg_write_offset r" f] d(5,9) assms(3) entry_real_le [of ?e] by (simp add: add.assoc)
  moreover have "region_rep (r\<lparr>seg_item_map := m, seg_write_offset := seg_write_offset r + entry_size ?e\<rparr>) ?g (es @ [?e])"
    by (rule rep_change [OF assms(1) _ bg _ _ mr]) (use assms(2,3) d(6,9) entry_real_le [of ?e] in \<open>auto simp: flash_prog_prog\<close>)
  moreover have "same_outside r f ?g" using same_outside_prog [of "seg_offset r + ?w" "entry_real ?e" r f] d(5) assms(3) entry_real_le [of ?e] by (simp add: add.assoc)
  ultimately show ?thesis using w(1) m(1) by auto
qed

section \<open>Purge\<close>

definition next_seg :: "region_info \<Rightarrow> nat" where
  "next_seg r = (if total_size r \<le> seg_offset r + 4096 then 0 else seg_offset r + 4096)"

lemma next_seg:
  assumes "region_rep r f es"
  shows "4096 dvd next_seg r" "next_seg r + 4096 \<le> total_size r" "next_seg r \<noteq> seg_offset r"
proof -
  note d = repD [OF assms]
  have t: "4096 dvd total_size r" using d(1) by (rule region_okE)
  show "4096 dvd next_seg r" using d(4) by (simp add: next_seg_def)
  show "next_seg r + 4096 \<le> total_size r" "next_seg r \<noteq> seg_offset r"
    using d(3,5) seg_apart [of "seg_offset r + 4096" "total_size r"] d(4) t by (auto simp: next_seg_def)
qed

lemma header_state: "f (a + 4) \<noteq> STATE_VALID \<Longrightarrow> \<not> header_valid f a"
  by (simp add: header_valid_def is_valid_region_seg_header_def header_of_def)

lemma image_state:
  assumes "bytes_at f a (seg_image seq es)"
  shows "f (a + 4) = STATE_VALID"
proof -
  have "map f [a..<a + 16] ! 4 = header_bytes (new_header 4096 seq) ! 4" using image_parts(3) [OF assms] by simp
  then show ?thesis by (simp add: header_bytes_def new_header_def Let_def le32_def)
qed

lemma init_seg:
  assumes "region_geom r" "4096 dvd s" "s + 4096 \<le> total_size r"
  shows "region_init_new_seg r s f = Some (flash_prog (flash_fill f (base_addr r + s) 4096) (base_addr r + s) (header_bytes (new_header 4096 (seg_seq_id r + 1))),
    r\<lparr>seg_seq_id := seg_seq_id r + 1, seg_offset := s, seg_write_offset := s + 16, seg_item_map := item_bitmap_clear_all (seg_item_map r)\<rparr>)"
proof -
  have g: "region_ok r" "seg_size r = 4096" using assms(1) by (simp_all add: region_geom_def)
  have "region_erase r s 4096 f = Some (flash_fill f (base_addr r + s) 4096, 0)" by (rule erase_ok [OF g(1) assms(3,2)]) simp
  moreover have "region_write r s (header_bytes (new_header 4096 (seg_seq_id r + 1))) (flash_fill f (base_addr r + s) 4096) =
      (flash_prog (flash_fill f (base_addr r + s) 4096) (base_addr r + s) (header_bytes (new_header 4096 (seg_seq_id r + 1))), 0)"
    by (rule write_ok [OF g(1)]) (use assms(3) in \<open>simp add: new_header_bytes(1)\<close>)
  ultimately show ?thesis using g(2) by (simp add: region_init_new_seg_def new_header_fields(1))
qed

lemma init_seg_image: "bytes_at (flash_prog (flash_fill f a 4096) a (header_bytes (new_header 4096 seq))) a (seg_image seq [])"
proof -
  have "replicate 4096 0xff = replicate 16 0xff @ replicate 4080 (0xff :: u8)" using replicate_add [of 16 4080 "0xff :: u8"] by simp
  then have b: "bytes_at (flash_fill f a 4096) a (replicate 16 0xff)" "bytes_at (flash_fill f a 4096) (a + 16) (replicate 4080 0xff)"
    using bytes_at_fill [of f a 4096] by (simp_all only: bytes_at_append length_replicate)
  show ?thesis
    using bytes_at_prog_blank [of "flash_fill f a 4096" a "header_bytes (new_header 4096 seq)"] b(1)
      bytes_at_prog_other [OF b(2), of a "header_bytes (new_header 4096 seq)"]
    by (simp add: seg_image_def bytes_at_append new_header_bytes(1))
qed

text \<open>The valid items after a purge, and the part of the region that stays.\<close>

lemma filter_live_size: "log_size (filter e_live es) \<le> log_size es"
  by (induction es) auto

text \<open>The flash and the region when the items are copied.\<close>

definition purge_flash :: "region_info \<Rightarrow> flash \<Rightarrow> flash" where
  "purge_flash r f = flash_prog (flash_fill f (base_addr r + next_seg r) 4096) (base_addr r + next_seg r) (header_bytes (new_header 4096 (seg_seq_id r + 1)))"

definition purge_region :: "region_info \<Rightarrow> region_info" where
  "purge_region r = r\<lparr>seg_seq_id := seg_seq_id r + 1, seg_offset := next_seg r, seg_write_offset := next_seg r + 16,
     seg_item_map := item_bitmap_clear_all (seg_item_map r)\<rparr>"

lemma purge_init:
  assumes "region_rep r f es"
  shows "\<exists>e. region_is_empy r (next_seg r) 4096 f = Some e \<and>
    (\<exists>f1. (if e then Some f else map_option fst (region_erase r (next_seg r) 4096 f)) = Some f1 \<and>
      region_init_new_seg r (next_seg r) f1 = Some (purge_flash r f, purge_region r))"
proof -
  note d = repD [OF assms] and n = next_seg [OF assms]
  let ?A = "base_addr r + next_seg r"
  have e: "region_is_empy r (next_seg r) 4096 f = Some (bytes_at f ?A (replicate 4096 0xff))"
    by (rule is_empy_ok [OF d(1) n(2)]) simp
  have er: "region_erase r (next_seg r) 4096 f = Some (flash_fill f ?A 4096, 0)" by (rule erase_ok [OF d(1) n(2,1)]) simp
  have ff: "flash_fill (flash_fill f ?A 4096) ?A 4096 = flash_fill f ?A 4096" by (auto simp: flash_fill_def fun_eq_iff)
  have i: "region_init_new_seg r (next_seg r) (flash_fill f ?A 4096) = Some (purge_flash r f, purge_region r)"
    using init_seg [OF d(11) n(1,2), of "flash_fill f ?A 4096"] unfolding ff purge_flash_def purge_region_def .
  show ?thesis using e er i flash_fill_blank [of f ?A 4096] by (cases "bytes_at f ?A (replicate 4096 0xff)") auto
qed

lemma purge_flash_props:
  assumes "region_rep r f es"
  shows "z < base_addr r + next_seg r \<or> base_addr r + next_seg r + 4096 \<le> z \<Longrightarrow> purge_flash r f z = f z"
    "bytes_at (purge_flash r f) (base_addr r + next_seg r) (seg_image (seg_seq_id r + 1) [])"
    "bytes_at (purge_flash r f) (base_addr r + seg_offset r) (seg_image (seg_seq_id r) es)"
proof -
  note d = repD [OF assms] and n = next_seg [OF assms]
  show out: "purge_flash r f z = f z" if "z < base_addr r + next_seg r \<or> base_addr r + next_seg r + 4096 \<le> z" for z
    using that by (auto simp: purge_flash_def flash_prog_prog flash_fill_def new_header_bytes(1))
  show "bytes_at (purge_flash r f) (base_addr r + next_seg r) (seg_image (seg_seq_id r + 1) [])"
    unfolding purge_flash_def by (rule init_seg_image)
  show "bytes_at (purge_flash r f) (base_addr r + seg_offset r) (seg_image (seg_seq_id r) es)"
    by (rule bytes_at_cong [OF d(8)], rule out) (use seg_apart [OF n(1) d(4) n(3)] image_length [OF d(7)] in auto)
qed

lemma purge_copy:
  assumes "region_rep r f es"
  shows "\<exists>g m. region_copy_seg (purge_region r) (next_seg r) (seg_offset r) (seg_write_offset r - seg_offset r) chk (purge_flash r f) =
      Some (g, (purge_region r)\<lparr>seg_item_map := m, seg_write_offset := next_seg r + 16 + log_size (filter e_live es)\<rparr>) \<and>
    bytes_at g (base_addr r + next_seg r) (seg_image (seg_seq_id r + 1) (filter e_live es)) \<and>
    (\<forall>z. z < base_addr r + next_seg r \<or> base_addr r + next_seg r + 4096 \<le> z \<longrightarrow> g z = f z) \<and> map_rep m (live_offs 16 (filter e_live es))"
proof -
  note d = repD [OF assms] and n = next_seg [OF assms] and p = purge_flash_props [OF assms]
  note ap = seg_apart [OF n(1) d(4) n(3)]
  let ?f = "purge_flash r f" and ?s = "next_seg r" and ?es = "filter e_live es"
  let ?r = "(purge_region r)\<lparr>seg_item_map := item_bitmap_clear_all (seg_item_map (purge_region r))\<rparr>"
  have rs: "base_addr ?r = base_addr r" "total_size ?r = total_size r" by (simp_all add: purge_region_def)
  have ok: "region_ok ?r" using d(1) by (simp add: region_ok_def purge_region_def)
  have mr: "map_rep (seg_item_map ?r) {}" using map_rep_clear [OF map_rep_clear [OF d(10)]] by (simp add: purge_region_def)
  have lg: "bytes_at ?f (base_addr ?r + (seg_offset r + 16)) (log_bytes es)"
    using image_parts(2) [OF p(3)] unfolding rs by (simp add: bytes_at_append add.assoc)
  have bl: "bytes_at ?f (base_addr ?r + (?s + 16)) (replicate 4080 0xff)" using image_parts(2) [OF p(2)] unfolding rs by (simp add: add.assoc)
  have sz: "log_size ?es \<le> 4080" using filter_live_size [of es] d(7) by linarith
  have "\<exists>g m. copy_items ?r ?s (seg_offset r + 16) (?s + 16) chk (seg_offset r + 16 + log_size es) ?f =
      Some (g, ?r\<lparr>seg_item_map := m, seg_write_offset := ?s + 16 + log_size ?es\<rparr>) \<and>
      bytes_at g (base_addr ?r + (?s + 16)) (log_bytes ?es @ replicate (4080 - log_size ?es) 0xff) \<and>
      (\<forall>z. z < base_addr ?r + (?s + 16) \<or> base_addr ?r + (?s + 16) + 4080 \<le> z \<longrightarrow> g z = ?f z) \<and> map_rep m ({} \<union> live_offs (?s + 16 - ?s) ?es)"
    by (rule copy_log [OF ok d(6) lg _ bl sz _ _ _ _ _ mr]) (use d(5,7) n(2) ap rs in auto)
  then obtain g m where g: "copy_items ?r ?s (seg_offset r + 16) (?s + 16) chk (seg_offset r + 16 + log_size es) ?f =
        Some (g, (purge_region r)\<lparr>seg_item_map := m, seg_write_offset := ?s + 16 + log_size ?es\<rparr>)"
      "bytes_at g (base_addr r + ?s + 16) (log_bytes ?es @ replicate (4080 - log_size ?es) 0xff)"
      "\<And>z. z < base_addr r + ?s + 16 \<or> base_addr r + ?s + 4096 \<le> z \<Longrightarrow> g z = ?f z" "map_rep m (live_offs 16 ?es)"
    unfolding rs by (auto simp: add.assoc)
  have "bytes_at g (base_addr r + ?s) (header_bytes (new_header 4096 (seg_seq_id r + 1)))"
    by (rule bytes_at_cong [OF image_parts(1) [OF p(2)]], rule g(3)) (simp add: new_header_bytes(1))
  then have "bytes_at g (base_addr r + ?s) (seg_image (seg_seq_id r + 1) ?es)" using g(2) by (simp add: seg_image_def bytes_at_append new_header_bytes(1))
  moreover have "g z = f z" if "z < base_addr r + ?s \<or> base_addr r + ?s + 4096 \<le> z" for z
    using that g(3) [of z] p(1) [of z] by auto
  ultimately show ?thesis using g(1,4) d(9) by (auto simp: region_copy_seg_def add.assoc)
qed

lemma rep_purge:
  assumes "region_rep r f es"
  shows "\<exists>g r'. region_purge_seg r chk f = Some (g, r') \<and> region_rep r' g (filter e_live es) \<and> same_outside r f g \<and>
    base_addr r' = base_addr r \<and> total_size r' = total_size r"
proof -
  note d = repD [OF assms] and n = next_seg [OF assms]
  let ?A = "base_addr r + next_seg r" and ?B = "base_addr r + seg_offset r" and ?es = "filter e_live es"
  obtain g m where g: "region_copy_seg (purge_region r) (next_seg r) (seg_offset r) (seg_write_offset r - seg_offset r) chk (purge_flash r f) =
        Some (g, (purge_region r)\<lparr>seg_item_map := m, seg_write_offset := next_seg r + 16 + log_size ?es\<rparr>)"
      "bytes_at g ?A (seg_image (seg_seq_id r + 1) ?es)" "\<And>z. z < ?A \<or> ?A + 4096 \<le> z \<Longrightarrow> g z = f z" "map_rep m (live_offs 16 ?es)"
    using purge_copy [OF assms] by blast
  let ?r = "(purge_region r)\<lparr>seg_item_map := m, seg_write_offset := next_seg r + 16 + log_size ?es\<rparr>"
  let ?g = "flash_prog g (?B + 4) [STATE_OBSOLETE]"
  have AB: "?A + 4096 \<le> ?B \<or> ?B + 4096 \<le> ?A" using seg_apart [OF n(1) d(4) n(3)] by auto
  have ok: "region_ok ?r" using d(1) by (simp add: region_ok_def purge_region_def)
  have wr: "region_seg_update_state ?r (seg_offset r) STATE_OBSOLETE g = ?g"
    using write_ok [OF ok, of "seg_offset r + 4" "[STATE_OBSOLETE]" g] d(5) by (simp add: region_seg_update_state_def purge_region_def add.assoc)
  obtain e f1 where i: "region_is_empy r (next_seg r) 4096 f = Some e"
      "(if e then Some f else map_option fst (region_erase r (next_seg r) 4096 f)) = Some f1"
      "region_init_new_seg r (next_seg r) f1 = Some (purge_flash r f, purge_region r)"
    using purge_init [OF assms] by blast
  have run: "region_purge_seg r chk f = Some (?g, ?r)"
    unfolding region_purge_seg_def Let_def d(2) next_seg_def [symmetric] using i g(1) wr by (cases e) auto
  have out: "?g z = f z" if "z < ?A \<or> ?A + 4096 \<le> z" "z \<noteq> ?B + 4" for z using that g(3) [of z] by (auto simp: flash_prog_prog)
  have sz: "log_size ?es \<le> 4080" using filter_live_size [of es] d(7) by linarith
  have new: "bytes_at ?g ?A (seg_image (seg_seq_id r + 1) ?es)"
    by (rule bytes_at_prog_other [OF g(2)]) (use AB image_length [OF sz] in auto)
  have "\<not> header_valid ?g (base_addr r + t)" if t: "4096 dvd t" "t + 4096 \<le> total_size r" "t \<noteq> next_seg r" for t
  proof (cases "t = seg_offset r")
    case True
    have "g (?B + 4) = STATE_VALID" using g(3) [of "?B + 4"] image_state [OF d(8)] AB by auto
    then show ?thesis using True header_state [of ?g ?B] by (simp add: flash_prog_prog)
  next
    case False
    have "header_valid ?g (base_addr r + t) = header_valid f (base_addr r + t)"
      by (rule header_valid_cong, rule out) (use seg_apart [OF t(1) n(1) t(3)] seg_apart [OF t(1) d(4) False] in auto)
    then show ?thesis using d(12) [OF t(1,2) False] by simp
  qed
  then have "region_rep ?r ?g ?es" using d(1-3,6) n sz new g(4) by (simp add: region_rep_def region_geom_def region_ok_def purge_region_def)
  moreover have "same_outside r f ?g" unfolding same_outside_def using out n(2) d(5) by auto
  ultimately show ?thesis using run by (auto simp: purge_region_def)
qed

section \<open>Set\<close>

lemma find_entry_append:
  "find_entry x name es = Some p \<Longrightarrow> find_entry x name (es @ es') = Some p"
  "find_entry x name es = Some p \<Longrightarrow> kill name (es @ es') = kill name es @ es'"
  by (induction es arbitrary: x) (auto split: if_splits)

lemma rep_write:
  assumes "region_rep r f es" "entry_ok (Entry True name data)" "log_size es + entry_size (Entry True name data) \<le> 4080"
    "find_entry 16 name es = old"
  shows "\<exists>m g r'. item_bitmap_update (seg_item_map r) (seg_write_offset r - seg_offset r) True = Some m \<and>
    region_obsolete_old (map_option (\<lambda>(y, e). (seg_offset r + y, entry_item e)) old)
      (r\<lparr>seg_item_map := m, seg_write_offset := seg_write_offset r + entry_size (Entry True name data)\<rparr>)
      (fst (region_write_item r (seg_write_offset r) name data f)) = Some (g, r') \<and>
    region_rep r' g (kill name es @ [Entry True name data]) \<and> same_outside r f g \<and> base_addr r' = base_addr r \<and> total_size r' = total_size r"
proof -
  let ?e = "Entry True name data"
  let ?f = "fst (region_write_item r (seg_write_offset r) name data f)"
  obtain m where m: "item_bitmap_update (seg_item_map r) (seg_write_offset r - seg_offset r) True = Some m"
      "region_rep (r\<lparr>seg_item_map := m, seg_write_offset := seg_write_offset r + entry_size ?e\<rparr>) ?f (es @ [?e])" "same_outside r f ?f"
    using rep_append [OF assms(1-3)] by blast
  let ?r = "r\<lparr>seg_item_map := m, seg_write_offset := seg_write_offset r + entry_size ?e\<rparr>"
  show ?thesis
  proof (cases old)
    case None
    then show ?thesis using m kill_none [of 16 name es] assms(4) by (auto simp: region_obsolete_old_def)
  next
    case (Some p)
    obtain y e where p: "p = (y, e)" by fastforce
    have fe: "find_entry 16 name (es @ [?e]) = Some (y, e)" "kill name (es @ [?e]) = kill name es @ [?e]"
      using find_entry_append assms(4) Some p by simp_all
    obtain g m' where g: "region_obsolete_old (Some (seg_offset ?r + y, entry_item e)) ?r ?f = Some (g, ?r\<lparr>seg_item_map := m'\<rparr>)"
        "region_rep (?r\<lparr>seg_item_map := m'\<rparr>) g (kill name es @ [?e])" "same_outside ?r ?f g"
      using rep_kill [OF m(2) fe(1), of "entry_item e"] unfolding fe(2) by blast
    have "same_outside r f g" using m(3) g(3) by (simp add: same_outside_def)
    then show ?thesis using m(1) g(1,2) Some p by auto
  qed
qed

lemma rep_set:
  assumes "region_rep r f es" "entry_ok (Entry True name data)" "log_map es name \<noteq> Some data"
    "log_size (filter e_live es) + entry_size (Entry True name data) \<le> 4080"
  shows "\<exists>g r' es'. region_set r name data f = Some (g, r', 0) \<and> region_rep r' g (kill name es' @ [Entry True name data]) \<and>
    (es' = es \<or> es' = filter e_live es) \<and> same_outside r f g \<and> base_addr r' = base_addr r \<and> total_size r' = total_size r"
proof -
  let ?e = "Entry True name data"
  have n: "0 \<notin> set name" "length name + 1 \<le> 112" "data \<noteq> []" "length data \<le> 512" using assms(2) by (auto simp: entry_ok_def)
  have sz: "item_calc_aligned_size (length name + 1) (length data) = entry_size ?e" by (simp add: entry_size_def)
  note d = repD [OF assms(1)]
  have "\<exists>f1 r1 es'. region_prepare_write_item r (entry_size ?e) f = Some (f1, r1) \<and> region_rep r1 f1 es' \<and> (es' = es \<or> es' = filter e_live es) \<and>
      log_size es' + entry_size ?e \<le> 4080 \<and> same_outside r f f1 \<and> base_addr r1 = base_addr r \<and> total_size r1 = total_size r"
  proof (cases "log_size es + entry_size ?e \<le> 4080")
    case True
    then have "region_prepare_write_item r (entry_size ?e) f = Some (f, r)" using d(2,9) by (simp add: region_prepare_write_item_def)
    then show ?thesis using assms(1) True by auto
  next
    case False
    then have "region_prepare_write_item r (entry_size ?e) f = region_purge_seg r False f" using d(2,9) by (simp add: region_prepare_write_item_def)
    then show ?thesis using rep_purge [OF assms(1), of False] assms(4) by auto
  qed
  then obtain f1 r1 es' where p: "region_prepare_write_item r (entry_size ?e) f = Some (f1, r1)" "region_rep r1 f1 es'"
      "es' = es \<or> es' = filter e_live es" "log_size es' + entry_size ?e \<le> 4080" "same_outside r f f1" "base_addr r1 = base_addr r"
      "total_size r1 = total_size r" by blast
  obtain m g r' where w: "item_bitmap_update (seg_item_map r1) (seg_write_offset r1 - seg_offset r1) True = Some m"
      "region_obsolete_old (map_option (\<lambda>(y, e). (seg_offset r1 + y, entry_item e)) (find_entry 16 name es'))
        (r1\<lparr>seg_item_map := m, seg_write_offset := seg_write_offset r1 + entry_size ?e\<rparr>)
        (fst (region_write_item r1 (seg_write_offset r1) name data f1)) = Some (g, r')"
      "region_rep r' g (kill name es' @ [?e])" "same_outside r1 f1 g" "base_addr r' = base_addr r1" "total_size r' = total_size r1"
    using rep_write [OF p(2) assms(2) p(4) refl] by blast
  have "region_set r name data f = Some (g, r', 0)"
    using n rep_same [OF assms(1) n(1), of data] assms(3) p(1) rep_find [OF p(2) n(1)] w(1,2) unfolding region_set_def sz by simp
  moreover have "same_outside r f g" using p(5-7) w(4) by (simp add: same_outside_def)
  ultimately show ?thesis using w(3,5,6) p(3,6,7) by auto
qed

lemma rep_delete:
  assumes "region_rep r f es" "0 \<notin> set name" "length name + 1 \<le> 112"
  shows "\<exists>g r'. region_set r name [] f = Some (g, r', 0) \<and> region_rep r' g (kill name es) \<and> same_outside r f g \<and>
    base_addr r' = base_addr r \<and> total_size r' = total_size r"
proof (cases "find_entry 16 name es")
  case None
  then show ?thesis using assms rep_find [OF assms(1,2)] kill_none [OF None] by (auto simp: region_set_def region_obsolete_old_def)
next
  case (Some p)
  obtain y e where p: "p = (y, e)" by fastforce
  obtain g m where g: "region_obsolete_old (Some (seg_offset r + y, entry_item e)) r f = Some (g, r\<lparr>seg_item_map := m\<rparr>)"
      "region_rep (r\<lparr>seg_item_map := m\<rparr>) g (kill name es)" "same_outside r f g"
    using rep_kill [OF assms(1), of name y e "entry_item e"] Some p by blast
  then show ?thesis using assms(2,3) rep_find [OF assms(1,2)] Some p by (auto simp: region_set_def)
qed

section \<open>Start up\<close>

lemma scan_headers_none:
  assumes "region_ok r" "seg_size r = 4096" "4096 dvd x" "x \<le> total_size r"
    "\<And>s. 4096 dvd s \<Longrightarrow> x \<le> s \<Longrightarrow> s + 4096 \<le> total_size r \<Longrightarrow> \<not> header_valid f (base_addr r + s)"
  shows "scan_headers r x b f = Inr (r, b)"
  using assms
proof (induction "total_size r - x" arbitrary: x rule: less_induct)
  case less
  show ?case
  proof (cases "x < total_size r")
    case True
    have t: "4096 dvd total_size r" using less.prems(1) by (rule region_okE)
    have x: "x + 4096 \<le> total_size r" using seg_apart [of x "total_size r"] True less.prems(3) t by auto
    have rd: "region_read r x HEADER_SIZE f = Inr (map f [base_addr r + x..<base_addr r + x + 16])"
      by (rule read_ok [OF less.prems(1)]) (use x in simp)
    have "\<not> is_valid_region_seg_header (header_of (map f [base_addr r + x..<base_addr r + x + 16]))"
      using less.prems(5) [of x] less.prems(3) x by (simp add: header_valid_def)
    then have "scan_headers r x b f = scan_headers r (x + 4096) b f"
      using True less.prems(2) rd by (subst scan_headers.simps) simp
    also have "\<dots> = Inr (r, b)" by (rule less.hyps) (use True x less.prems in auto)
    finally show ?thesis .
  next
    case False
    then show ?thesis by (subst scan_headers.simps) simp
  qed
qed

lemma scan_headers_found:
  assumes "region_ok r" "seg_size r = 4096" "4096 dvd x" "x \<le> so" "4096 dvd so" "so + 4096 \<le> total_size r"
    "bytes_at f (base_addr r + so) (seg_image seq es)"
    "\<And>s. 4096 dvd s \<Longrightarrow> s + 4096 \<le> total_size r \<Longrightarrow> s \<noteq> so \<Longrightarrow> \<not> header_valid f (base_addr r + s)"
  shows "scan_headers r x False f = Inr (r\<lparr>seg_seq_id := seq, seg_offset := so\<rparr>, True)"
  using assms(3,4)
proof (induction "so - x" arbitrary: x rule: less_induct)
  case less
  have x: "x + 4096 \<le> total_size r" "x < total_size r" using less.prems(2) assms(6) by auto
  have rd: "region_read r x HEADER_SIZE f = Inr (map f [base_addr r + x..<base_addr r + x + 16])"
    by (rule read_ok [OF assms(1)]) (use x in simp)
  show ?case
  proof (cases "x = so")
    case True
    let ?r = "r\<lparr>seg_seq_id := seq, seg_offset := so\<rparr>"
    have "map f [base_addr r + x..<base_addr r + x + 16] = header_bytes (new_header 4096 seq)" using image_parts(3) [OF assms(7)] True by simp
    then have "scan_headers r x False f = scan_headers ?r (so + 4096) True f"
      using x(2) assms(2) rd True by (subst scan_headers.simps) (simp add: new_header_bytes(2) new_header_fields)
    also have "\<dots> = Inr (?r, True)"
      by (rule scan_headers_none) (use assms(1,2,5,6) assms(8) in \<open>auto simp: region_ok_def\<close>)
    finally show ?thesis .
  next
    case False
    have "\<not> is_valid_region_seg_header (header_of (map f [base_addr r + x..<base_addr r + x + 16]))"
      using assms(8) [of x] less.prems(1) x False by (simp add: header_valid_def)
    then have "scan_headers r x False f = scan_headers r (x + 4096) False f"
      using x(2) assms(2) rd by (subst scan_headers.simps) simp
    also have "\<dots> = Inr (r\<lparr>seg_seq_id := seq, seg_offset := so\<rparr>, True)"
      by (rule less.hyps) (use False less.prems seg_apart [OF less.prems(1) assms(5) False] in auto)
    finally show ?thesis .
  qed
qed

text \<open>A start up with the same partition finds the same contents.\<close>

lemma rep_scan:
  assumes "region_rep r f es" "region_geom r0" "base_addr r0 = base_addr r" "total_size r0 = total_size r" "map_rep (seg_item_map r0) S"
  shows "\<exists>g r' es'. region_scan r0 f = Some (g, r', 0) \<and> region_rep r' g es' \<and> (es' = es \<or> es' = filter e_live es) \<and> same_outside r f g \<and>
    base_addr r' = base_addr r \<and> total_size r' = total_size r"
proof -
  note d = repD [OF assms(1)]
  have o: "region_ok r0" "seg_size r0 = 4096" using assms(2) by (simp_all add: region_geom_def)
  let ?r1 = "r0\<lparr>seg_seq_id := seg_seq_id r, seg_offset := seg_offset r\<rparr>"
  let ?r2 = "?r1\<lparr>seg_item_map := item_bitmap_clear_all (seg_item_map ?r1)\<rparr>"
  have h: "scan_headers r0 0 False f = Inr (?r1, True)"
    by (rule scan_headers_found [OF o]) (use d(4,5,8,12) assms(3,4) in auto)
  have k: "16 + log_size es + (4080 - log_size es) = 4096" using d(7) by simp
  have "\<exists>m. scan_items ?r2 16 f = Some (f, ?r2\<lparr>seg_item_map := m\<rparr>, 16 + log_size es, False, 0) \<and> map_rep m ({} \<union> live_offs 16 es)"
    by (rule scan_log [OF _ _ _ d(6) _ k])
      (use o d(5) assms(3,4) rep_log [OF assms(1)] map_rep_clear [OF assms(5)] in \<open>simp_all add: region_ok_def\<close>)
  then obtain m where m: "scan_items ?r2 16 f = Some (f, ?r2\<lparr>seg_item_map := m\<rparr>, 16 + log_size es, False, 0)" "map_rep m (live_offs 16 es)" by auto
  let ?r3 = "?r2\<lparr>seg_item_map := m, seg_write_offset := seg_offset r + (16 + log_size es)\<rparr>"
  have rep: "region_rep ?r3 f es"
    using d(4-8,12) assms(2,3,4) m(2) by (simp add: region_rep_def region_geom_def region_ok_def)
  show ?thesis
  proof (cases "log_size es = 4080")
    case True
    obtain g r' where p: "region_purge_seg ?r3 True f = Some (g, r')" "region_rep r' g (filter e_live es)" "same_outside ?r3 f g"
        "base_addr r' = base_addr ?r3" "total_size r' = total_size ?r3"
      using rep_purge [OF rep, of True] by blast
    then have "region_scan r0 f = Some (g, r', 0)" using h m(1) o(2) True by (simp add: region_scan_def region_seg_scan_def)
    then show ?thesis using p assms(3,4) by (auto simp: same_outside_def)
  next
    case False
    have "bytes_at f (base_addr r0 + (seg_offset r + (16 + log_size es))) (replicate (4080 - log_size es) 0xff)"
      using rep_log [OF assms(1)] assms(3) by (simp add: bytes_at_append add.assoc)
    moreover have "region_is_empy ?r3 (seg_offset r + (16 + log_size es)) (4080 - log_size es) f =
        Some (bytes_at f (base_addr ?r3 + (seg_offset r + (16 + log_size es))) (replicate (4080 - log_size es) 0xff))"
    proof (rule is_empy_ok)
      show "region_ok ?r3" using o(1) by (simp add: region_ok_def)
      show "seg_offset r + (16 + log_size es) + (4080 - log_size es) \<le> total_size ?r3" using d(5,7) assms(4) by simp
      have "16 dvd 4080 - log_size es" by (simp add: dvd_diff_nat)
      then show "4 dvd 4080 - log_size es" by (rule dvd_trans [rotated]) simp
    qed
    ultimately have "region_scan r0 f = Some (f, ?r3, 0)" using h m(1) o(2) False d(7) by (simp add: region_scan_def region_seg_scan_def)
    then show ?thesis using rep assms(3,4) by auto
  qed
qed

lemma rep_first:
  assumes "region_geom r0" "\<And>s. 4096 dvd s \<Longrightarrow> s + 4096 \<le> total_size r0 \<Longrightarrow> \<not> header_valid f (base_addr r0 + s)" "map_rep (seg_item_map r0) S"
  shows "\<exists>g r'. region_scan r0 f = Some (g, r', 0) \<and> region_rep r' g [] \<and> same_outside r0 f g \<and>
    base_addr r' = base_addr r0 \<and> total_size r' = total_size r0 \<and> storage r' = storage r0"
proof -
  have o: "region_ok r0" "seg_size r0 = 4096" "8192 \<le> total_size r0" using assms(1) by (simp_all add: region_geom_def)
  let ?A = "base_addr r0"
  let ?h = "header_bytes (new_header 4096 (seg_seq_id r0 + 1))"
  let ?g = "flash_prog (flash_fill f ?A 4096) ?A ?h"
  let ?r = "r0\<lparr>seg_seq_id := seg_seq_id r0 + 1, seg_offset := 0, seg_write_offset := 16, seg_item_map := item_bitmap_clear_all (seg_item_map r0)\<rparr>"
  have "scan_headers r0 0 False f = Inr (r0, False)" by (rule scan_headers_none [OF o(1,2)]) (use assms(2) in auto)
  moreover have "region_init_new_seg r0 0 f = Some (?g, ?r)" using init_seg [OF assms(1), of 0 f] o(3) by simp
  ultimately have "region_scan r0 f = Some (?g, ?r, 0)" by (simp add: region_scan_def)
  moreover have ch: "z < ?A \<or> ?A + 4096 \<le> z \<Longrightarrow> ?g z = f z" for z by (auto simp: flash_prog_prog flash_fill_def new_header_bytes(1))
  moreover have "\<not> header_valid ?g (?A + s)" if s: "4096 dvd s" "s + 4096 \<le> total_size r0" "s \<noteq> 0" for s
  proof -
    have "header_valid ?g (?A + s) = header_valid f (?A + s)"
      by (rule header_valid_cong, rule ch) (use seg_apart [of s 0] s in auto)
    then show ?thesis using assms(2) [OF s(1,2)] by simp
  qed
  moreover have "bytes_at ?g ?A (seg_image (seg_seq_id r0 + 1) [])" by (rule init_seg_image)
  ultimately show ?thesis using o map_rep_clear [OF assms(3)]
    by (auto simp: region_rep_def region_geom_def region_ok_def same_outside_def)
qed

section \<open>Clear\<close>

lemma blank_header: "bytes_at f a (replicate 16 0xff) \<Longrightarrow> \<not> header_valid f a"
proof -
  assume "bytes_at f a (replicate 16 0xff)"
  then have "map f [a..<a + 16] = replicate 16 0xff" by (rule bytes_at_map) simp
  then show ?thesis by (simp add: header_valid_def is_valid_region_seg_header_def header_of_def of_le32_def)
qed

lemma header_valid_fill:
  assumes "4096 dvd x" "4096 dvd n" "4096 dvd s" "header_valid (flash_fill f (a + x) n) (a + s)"
  shows "header_valid f (a + s)"
proof (cases "x \<le> s \<and> s < x + n")
  case True
  have "s + 4096 \<le> x + n" using seg_apart [of s "x + n"] assms(1-3) True by auto
  then have "bytes_at (flash_fill f (a + x) n) (a + s) (replicate 16 0xff)" using True by (simp add: bytes_at_nth flash_fill_def)
  then show ?thesis using assms(4) blank_header by blast
next
  case False
  have "s + 4096 \<le> x \<or> x + n \<le> s" using seg_apart [of s x] assms(1,3) False by auto
  then show ?thesis using assms(4) header_valid_cong [of "a + s" "flash_fill f (a + x) n" f] by (auto simp: flash_fill_def)
qed

lemma rep_fill:
  assumes "region_rep r f es" "4096 dvd x" "4096 dvd n" "x + n \<le> total_size r" "x + n \<le> seg_offset r \<or> seg_offset r + 4096 \<le> x"
  shows "region_rep r (flash_fill f (base_addr r + x) n) es" "region_erase r x n f = Some (flash_fill f (base_addr r + x) n, 0)"
    "same_outside r f (flash_fill f (base_addr r + x) n)"
proof -
  note d = repD [OF assms(1)]
  have "bytes_at (flash_fill f (base_addr r + x) n) (base_addr r + seg_offset r) (seg_image (seg_seq_id r) es)"
    by (rule bytes_at_fill_other [OF d(8)]) (use assms(5) image_length [OF d(7)] in auto)
  moreover have "\<not> header_valid (flash_fill f (base_addr r + x) n) (base_addr r + s)"
    if "4096 dvd s" "s + 4096 \<le> total_size r" "s \<noteq> seg_offset r" for s
    using d(12) [OF that] header_valid_fill [OF assms(2,3) that(1)] by blast
  ultimately show "region_rep r (flash_fill f (base_addr r + x) n) es"
    using d(1-7,9-10) by (simp add: region_rep_def region_geom_def)
  show "region_erase r x n f = Some (flash_fill f (base_addr r + x) n, 0)" by (rule erase_ok [OF d(1) assms(4,2,3)])
  show "same_outside r f (flash_fill f (base_addr r + x) n)" by (rule same_outside_fill [OF assms(4)])
qed

lemma round_up_dvd: "a dvd ROUND_UP x a"
  by (simp add: ROUND_UP_def)

lemma rep_clear:
  assumes "region_rep r f es"
  shows "\<exists>g. region_clear r n f = Some (g, 0) \<and> region_rep r g es \<and> same_outside r f g"
proof -
  note d = repD [OF assms]
  have t: "4096 dvd total_size r" using d(1) by (rule region_okE)
  define c where "c = (if total_size r - 4096 < ROUND_UP n 4096 then total_size r - 4096 else ROUND_UP n 4096)"
  have c: "c \<le> total_size r - 4096" "4096 dvd c" using t round_up_dvd [of 4096 n] by (auto simp: c_def)
  let ?x = "seg_offset r + 4096"
  have x: "4096 dvd ?x" using d(4) by simp
  have u: "region_clear r n f = (if total_size r < ?x + c
      then do { (f1, _) \<leftarrow> region_erase r ?x (total_size r - ?x) f; (f2, _) \<leftarrow> region_erase r 0 (c - (total_size r - ?x)) f1; Some (f2, 0) }
      else do { (f1, _) \<leftarrow> region_erase r ?x c f; Some (f1, 0) })"
    unfolding region_clear_def Let_def d(2) c_def ..
  show ?thesis
  proof (cases "total_size r < ?x + c")
    case True
    let ?k = "total_size r - ?x"
    let ?f = "flash_fill f (base_addr r + ?x) ?k"
    have k: "4096 dvd ?k" "?x + ?k \<le> total_size r" using t x d(5) by (simp_all add: dvd_diff_nat)
    note a = rep_fill [OF assms x k(1,2) disjI2 [OF order_refl]]
    have r: "4096 dvd c - ?k" by (rule dvd_diff_nat [OF c(2) k(1)])
    have r2: "0 + (c - ?k) \<le> total_size r" "0 + (c - ?k) \<le> seg_offset r" using c(1) d(5) by simp_all
    note b = rep_fill [OF a(1) dvd_0_right r r2(1) disjI1 [OF r2(2)]]
    have "region_clear r n f = Some (flash_fill ?f (base_addr r + 0) (c - ?k), 0)"
      unfolding u a(2) b(2) using True b(2) by simp
    then show ?thesis using b(1) same_outside_trans [OF a(3) b(3)] by blast
  next
    case False
    then have "?x + c \<le> total_size r" by simp
    note a = rep_fill [OF assms x c(2) this disjI2 [OF order_refl]]
    have "region_clear r n f = Some (flash_fill f (base_addr r + ?x) c, 0)"
      unfolding u a(2) using False by simp
    then show ?thesis using a(1,3) by blast
  qed
qed

end
