(* ===== verification/Kv_Spec.thy ===== *)
theory Kv_Spec
  imports Main
begin

text \<open>
  The contract of a store of named values: what is stored under a name can be read back, other names keep their
  values, and a restart of the system changes nothing. The locale gives the refinement of any sequence of
  operations by a map. It is interpreted on a region of the configuration store and on the
  properties over it.
\<close>

datatype ('k, 'v) kv_op = Put 'k 'v | Del 'k | Restart

fun kv_step :: "('k \<rightharpoonup> 'v) \<Rightarrow> ('k, 'v) kv_op \<Rightarrow> 'k \<rightharpoonup> 'v" where
  "kv_step M (Put k v) = M(k \<mapsto> v)"
| "kv_step M (Del k) = M(k := None)"
| "kv_step M Restart = M"

text \<open>Every value of the sequence is accepted at the time it is stored.\<close>

fun kv_fits :: "(('k \<rightharpoonup> 'v) \<Rightarrow> 'k \<Rightarrow> 'v \<Rightarrow> bool) \<Rightarrow> ('k \<Rightarrow> bool) \<Rightarrow> ('k \<rightharpoonup> 'v) \<Rightarrow> ('k, 'v) kv_op list \<Rightarrow> bool" where
  "kv_fits fits good M [] = True"
| "kv_fits fits good M (c # cs) =
     ((case c of Put k v \<Rightarrow> fits M k v | Del k \<Rightarrow> good k | Restart \<Rightarrow> True) \<and> kv_fits fits good (kv_step M c) cs)"

fun kv_run :: "('k \<Rightarrow> 'v \<Rightarrow> 's \<Rightarrow> 's option) \<Rightarrow> ('k \<Rightarrow> 's \<Rightarrow> 's option) \<Rightarrow> ('s \<Rightarrow> 's option) \<Rightarrow> ('k, 'v) kv_op list \<Rightarrow> 's \<Rightarrow> 's option" where
  "kv_run put del restart [] s = Some s"
| "kv_run put del restart (c # cs) s =
     (case (case c of Put k v \<Rightarrow> put k v s | Del k \<Rightarrow> del k s | Restart \<Rightarrow> restart s) of
        None \<Rightarrow> None
      | Some s' \<Rightarrow> kv_run put del restart cs s')"

locale kv_store =
  fixes holds :: "'s \<Rightarrow> ('k \<rightharpoonup> 'v) \<Rightarrow> bool"
    and put :: "'k \<Rightarrow> 'v \<Rightarrow> 's \<Rightarrow> 's option"
    and del :: "'k \<Rightarrow> 's \<Rightarrow> 's option"
    and restart :: "'s \<Rightarrow> 's option"
    and look :: "'k \<Rightarrow> 's \<Rightarrow> 'v option option"
    and fits :: "('k \<rightharpoonup> 'v) \<Rightarrow> 'k \<Rightarrow> 'v \<Rightarrow> bool"
    and good :: "'k \<Rightarrow> bool"
  assumes put_ok: "holds s M \<Longrightarrow> fits M k v \<Longrightarrow> \<exists>s'. put k v s = Some s' \<and> holds s' (M(k \<mapsto> v))"
    and del_ok: "holds s M \<Longrightarrow> good k \<Longrightarrow> \<exists>s'. del k s = Some s' \<and> holds s' (M(k := None))"
    and restart_ok: "holds s M \<Longrightarrow> \<exists>s'. restart s = Some s' \<and> holds s' M"
    and look_ok: "holds s M \<Longrightarrow> good k \<Longrightarrow> look k s = Some (M k)"
begin

lemma step_ok:
  assumes "holds s M" "case c of Put k v \<Rightarrow> fits M k v | Del k \<Rightarrow> good k | Restart \<Rightarrow> True"
  shows "\<exists>s'. (case c of Put k v \<Rightarrow> put k v s | Del k \<Rightarrow> del k s | Restart \<Rightarrow> restart s) = Some s' \<and> holds s' (kv_step M c)"
  using assms put_ok del_ok restart_ok by (cases c) simp_all

lemma run_refines:
  assumes "holds s M" "kv_fits fits good M cs"
  shows "\<exists>s'. kv_run put del restart cs s = Some s' \<and> holds s' (foldl kv_step M cs)"
  using assms
proof (induction cs arbitrary: s M)
  case (Cons c cs)
  obtain s' where "(case c of Put k v \<Rightarrow> put k v s | Del k \<Rightarrow> del k s | Restart \<Rightarrow> restart s) = Some s'" "holds s' (kv_step M c)"
    using step_ok [OF Cons.prems(1), of c] Cons.prems(2) by auto
  then show ?case using Cons.IH [of s' "kv_step M c"] Cons.prems(2) by simp
qed simp

lemma run_reads:
  assumes "holds s M" "kv_fits fits good M cs"
  shows "\<exists>s'. kv_run put del restart cs s = Some s' \<and> (\<forall>k. good k \<longrightarrow> look k s' = Some (foldl kv_step M cs k))"
  using run_refines [OF assms] look_ok by blast

end

end
