(* ===== verification/Nvram_Store.thy ===== *)
theory Nvram_Store
  imports Nvram_Region Kv_Spec
begin

text \<open>
  The configuration store as a map from names to data: sets, gets, removals and start ups of a region refine the map,
  and the configuration interface reads the user region before the factory regions.
\<close>

unbundle bit_operations_syntax

section \<open>A region as a map\<close>

definition item_space :: "u8 list \<Rightarrow> u8 list \<Rightarrow> nat" where
  "item_space name data = item_calc_aligned_size (length name + 1) (length data)"

definition store_size :: "(u8 list \<rightharpoonup> u8 list) \<Rightarrow> nat" where
  "store_size M = (\<Sum>n\<in>dom M. item_space n (the (M n)))"

definition store_rep :: "region_info \<Rightarrow> flash \<Rightarrow> (u8 list \<rightharpoonup> u8 list) \<Rightarrow> bool" where
  "store_rep r f M \<longleftrightarrow> (\<exists>es. region_rep r f es \<and> distinct (live_names es) \<and> M = log_map es)"

definition good_name :: "u8 list \<Rightarrow> bool" where
  "good_name name \<longleftrightarrow> 0 \<notin> set name \<and> length name + 1 \<le> NVRAM_MAX_NAME_SIZE"

definition good_data :: "u8 list \<Rightarrow> bool" where
  "good_data data \<longleftrightarrow> 0 < length data \<and> length data \<le> NVRAM_MAX_DATA_SIZE"

text \<open>The new item fits beside all items, the old value of the same name included.\<close>

definition store_fits :: "(u8 list \<rightharpoonup> u8 list) \<Rightarrow> u8 list \<Rightarrow> u8 list \<Rightarrow> bool" where
  "store_fits M name data \<longleftrightarrow> good_name name \<and> good_data data \<and> store_size M + item_space name data \<le> 4080"

lemma good_entry: "entry_ok (Entry True name data) \<longleftrightarrow> good_name name \<and> good_data data"
  by (auto simp: entry_ok_def good_name_def good_data_def)

lemma entry_space: "entry_size e = item_space (e_name e) (e_data e)"
  by (simp add: entry_size_def item_space_def)

lemma live_size:
  assumes "distinct (live_names es)"
  shows "log_size (filter e_live es) = store_size (log_map es)"
proof -
  have "log_size (filter e_live es) = (\<Sum>e\<leftarrow>filter e_live es. entry_size e)" by (simp add: log_size_def)
  also have "\<dots> = sum_list (map (\<lambda>n. item_space n (the (log_map es n))) (live_names es))"
  proof -
    have "log_map es (e_name e) = Some (e_data e)" if "e \<in> set (filter e_live es)" for e
      unfolding log_map_def by (rule map_of_is_SomeI) (use assms that in \<open>auto simp: live_names_def o_def\<close>)
    then have "map entry_size (filter e_live es) = map (\<lambda>e. item_space (e_name e) (the (log_map es (e_name e)))) (filter e_live es)"
      by (intro map_cong refl) (simp add: entry_space)
    then show ?thesis by (simp only: live_names_def map_map o_def)
  qed
  also have "\<dots> = store_size (log_map es)" unfolding store_size_def log_map_dom by (rule sum_list_distinct_conv_sum_set [OF assms])
  finally show ?thesis .
qed

lemma store_get:
  assumes "store_rep r f M" "0 \<notin> set name" "0 < max_len"
  shows "region_get r name max_len f = Some (case M name of None \<Rightarrow> Inl (- ENOENT) | Some v \<Rightarrow> Inr (take max_len v))"
  using assms rep_get by (auto simp: store_rep_def)

lemma store_set:
  assumes "store_rep r f M" "store_fits M name data"
  shows "\<exists>g r'. region_set r name data f = Some (g, r', 0) \<and> store_rep r' g (M(name \<mapsto> data)) \<and> same_outside r f g \<and>
    base_addr r' = base_addr r \<and> total_size r' = total_size r"
proof -
  obtain es where es: "region_rep r f es" "distinct (live_names es)" "M = log_map es" using assms(1) by (auto simp: store_rep_def)
  have ok: "entry_ok (Entry True name data)" "good_name name" "good_data data" using assms(2) good_entry by (auto simp: store_fits_def)
  show ?thesis
  proof (cases "M name = Some data")
    case True
    then have "region_set r name data f = Some (f, r, 0)"
      using ok(2,3) rep_same [OF es(1), of name data] es(3) by (auto simp: region_set_def good_name_def good_data_def)
    moreover have "M(name \<mapsto> data) = M" using True by (rule map_upd_triv)
    ultimately show ?thesis using assms(1) by auto
  next
    case False
    have "log_size (filter e_live es) + entry_size (Entry True name data) \<le> 4080"
      using assms(2) live_size [OF es(2)] es(3) by (simp add: store_fits_def entry_space)
    then obtain g r' es' where s: "region_set r name data f = Some (g, r', 0)" "region_rep r' g (kill name es' @ [Entry True name data])"
        "es' = es \<or> es' = filter e_live es" "same_outside r f g" "base_addr r' = base_addr r" "total_size r' = total_size r"
      using rep_set [OF es(1) ok(1)] False es(3) by blast
    have "distinct (live_names es')" "log_map es' = M" using s(3) es(2,3) by auto
    then have "distinct (live_names (kill name es' @ [Entry True name data]))" "M(name \<mapsto> data) = log_map (kill name es' @ [Entry True name data])"
      using set_log_map [of es' name data] by simp_all
    then have "store_rep r' g (M(name \<mapsto> data))" using s(2) unfolding store_rep_def by blast
    then show ?thesis using s(1,4-6) by blast
  qed
qed

lemma store_delete:
  assumes "store_rep r f M" "good_name name"
  shows "\<exists>g r'. region_set r name [] f = Some (g, r', 0) \<and> store_rep r' g (M(name := None)) \<and> same_outside r f g \<and>
    base_addr r' = base_addr r \<and> total_size r' = total_size r"
proof -
  obtain es where es: "region_rep r f es" "distinct (live_names es)" "M = log_map es" using assms(1) by (auto simp: store_rep_def)
  obtain g r' where s: "region_set r name [] f = Some (g, r', 0)" "region_rep r' g (kill name es)" "same_outside r f g"
      "base_addr r' = base_addr r" "total_size r' = total_size r"
    using rep_delete [OF es(1), of name] assms(2) unfolding good_name_def by blast
  have "store_rep r' g (M(name := None))"
    using s(2) log_map_kill [OF es(2), of name] live_names_kill [OF es(2), of name] es(2,3) by (auto simp: store_rep_def intro!: exI [of _ "kill name es"])
  then show ?thesis using s by blast
qed

text \<open>The region after a reset, with the partition and the device set again.\<close>

definition region_boot :: "region_info \<Rightarrow> region_info" where
  "region_boot r = (static_region (map_option (\<lambda>_. replicate 8 0) (seg_item_map r)))\<lparr>storage := storage r, base_addr := base_addr r, total_size := total_size r\<rparr>"

lemma boot_map: "map_rep (map_option (\<lambda>_. replicate 8 0) m) {}"
  by (cases m) (auto simp: map_rep_Some bitset_def)

lemma boot_geom: "region_geom r \<Longrightarrow> region_geom (region_boot r)"
  by (simp add: region_geom_def region_ok_def region_boot_def static_region_def)

lemma boot_fields [simp]: "base_addr (region_boot r) = base_addr r" "total_size (region_boot r) = total_size r"
    "seg_item_map (region_boot r) = map_option (\<lambda>_. replicate 8 0) (seg_item_map r)" "storage (region_boot r) = storage r"
  by (simp_all add: region_boot_def static_region_def)

lemma store_scan:
  assumes "store_rep r f M" "region_geom r0" "base_addr r0 = base_addr r" "total_size r0 = total_size r" "map_rep (seg_item_map r0) S"
  shows "\<exists>g r'. region_scan r0 f = Some (g, r', 0) \<and> store_rep r' g M \<and> same_outside r f g \<and> base_addr r' = base_addr r \<and> total_size r' = total_size r"
proof -
  obtain es where es: "region_rep r f es" "distinct (live_names es)" "M = log_map es" using assms(1) by (auto simp: store_rep_def)
  obtain g r' es' where s: "region_scan r0 f = Some (g, r', 0)" "region_rep r' g es'" "es' = es \<or> es' = filter e_live es" "same_outside r f g"
      "base_addr r' = base_addr r" "total_size r' = total_size r"
    using rep_scan [OF es(1) assms(2-5)] by blast
  have "distinct (live_names es')" "log_map es' = M" using s(3) es(2,3) by auto
  then show ?thesis using s by (auto simp: store_rep_def)
qed

section \<open>The region as a key-value store\<close>

definition region_put :: "u8 list \<Rightarrow> u8 list \<Rightarrow> region_info \<times> flash \<Rightarrow> (region_info \<times> flash) option" where
  "region_put name data s = (case region_set (fst s) name data (snd s) of Some (g, r, e) \<Rightarrow> if e = 0 then Some (r, g) else None | None \<Rightarrow> None)"

definition region_restart :: "region_info \<times> flash \<Rightarrow> (region_info \<times> flash) option" where
  "region_restart s = (case region_scan (region_boot (fst s)) (snd s) of Some (g, r, e) \<Rightarrow> if e = 0 then Some (r, g) else None | None \<Rightarrow> None)"

definition region_look :: "u8 list \<Rightarrow> region_info \<times> flash \<Rightarrow> u8 list option option" where
  "region_look name s = (case region_get (fst s) name NVRAM_MAX_DATA_SIZE (snd s) of
     None \<Rightarrow> None | Some (Inr v) \<Rightarrow> Some (Some v) | Some (Inl _) \<Rightarrow> Some None)"

definition store_holds :: "region_info \<times> flash \<Rightarrow> (u8 list \<rightharpoonup> u8 list) \<Rightarrow> bool" where
  "store_holds s M \<longleftrightarrow> store_rep (fst s) (snd s) M"

lemma store_data:
  assumes "store_rep r f M" "M name = Some v"
  shows "good_data v"
proof -
  obtain es where es: "region_rep r f es" "M = log_map es" using assms(1) by (auto simp: store_rep_def)
  obtain y e where e: "find_entry 16 name es = Some (y, e)" "v = e_data e"
    using assms(2) es(2) log_map_find [of es name 16] by auto
  then show ?thesis using find_entry_bytes(2) [OF es(1) e(1)] by (auto simp: entry_ok_def good_data_def)
qed

interpretation nv: kv_store store_holds region_put "\<lambda>name. region_put name []" region_restart region_look store_fits good_name
proof
  fix s M k v
  assume h: "store_holds s M"
  then have r: "store_rep (fst s) (snd s) M" "region_geom (fst s)" by (auto simp: store_holds_def store_rep_def dest: repD(11))
  show "\<exists>s'. region_put k v s = Some s' \<and> store_holds s' (M(k \<mapsto> v))" if "store_fits M k v"
    using store_set [OF r(1) that] by (auto simp: region_put_def store_holds_def)
  show "\<exists>s'. region_put k [] s = Some s' \<and> store_holds s' (M(k := None))" if "good_name k"
    using store_delete [OF r(1) that] by (auto simp: region_put_def store_holds_def)
  show "\<exists>s'. region_restart s = Some s' \<and> store_holds s' M"
    using store_scan [OF r(1) boot_geom [OF r(2)], of "{}"] boot_map [of "seg_item_map (fst s)"]
    by (auto simp: region_restart_def store_holds_def)
  show "region_look k s = Some (M k)" if "good_name k"
  proof (cases "M k")
    case (Some w)
    then have "take 512 w = w" using store_data [OF r(1) Some] by (simp add: good_data_def)
    then show ?thesis using store_get [OF r(1), of k 512] that Some by (simp add: region_look_def good_name_def)
  qed (use store_get [OF r(1), of k 512] that in \<open>simp add: region_look_def good_name_def\<close>)
qed

section \<open>The three regions\<close>

definition regions_apart :: "region_info \<Rightarrow> region_info \<Rightarrow> bool" where
  "regions_apart r q \<longleftrightarrow> base_addr r + total_size r \<le> base_addr q \<or> base_addr q + total_size q \<le> base_addr r"

text \<open>Contents of the user region, of the writable and of the read-only factory region.\<close>

definition nvram_holds :: "nvram \<Rightarrow> (u8 list \<rightharpoonup> u8 list) \<Rightarrow> (u8 list \<rightharpoonup> u8 list) \<Rightarrow> (u8 list \<rightharpoonup> u8 list) \<Rightarrow> bool" where
  "nvram_holds s U W F \<longleftrightarrow> store_rep (user_nvram_region s) (n_flash s) U \<and> store_rep (factory_rw_nvram_region s) (n_flash s) W \<and>
     store_rep (factory_nvram_region s) (n_flash s) F \<and> regions_apart (user_nvram_region s) (factory_rw_nvram_region s) \<and>
     regions_apart (user_nvram_region s) (factory_nvram_region s) \<and> regions_apart (factory_rw_nvram_region s) (factory_nvram_region s)"

definition nvram_find :: "(u8 list \<rightharpoonup> u8 list) \<Rightarrow> (u8 list \<rightharpoonup> u8 list) \<Rightarrow> (u8 list \<rightharpoonup> u8 list) \<Rightarrow> u8 list \<rightharpoonup> u8 list" where
  "nvram_find U W F = F ++ W ++ U"

text \<open>The partitions of the three regions, and a device that has room for them.\<close>

definition nvram_parts :: "nvram \<Rightarrow> (nat \<times> nat) \<times> (nat \<times> nat) \<times> (nat \<times> nat)" where
  "nvram_parts s = (let part = (\<lambda>r. (base_addr r, total_size r))
     in (part (factory_nvram_region s), part (user_nvram_region s), part (factory_rw_nvram_region s)))"

definition holds_parts :: "flash_driver \<Rightarrow> nvram \<Rightarrow> bool" where
  "holds_parts dev s \<longleftrightarrow> (\<exists>n. nor_flash dev n \<and>
     (\<forall>r\<in>{factory_nvram_region s, user_nvram_region s, factory_rw_nvram_region s}. base_addr r + total_size r \<le> n))"

lemma holds_parts_cong: "nvram_parts s' = nvram_parts s \<Longrightarrow> holds_parts dev s' = holds_parts dev s"
  by (auto simp: nvram_parts_def holds_parts_def)

lemma region_rep_other:
  assumes "region_rep q f es" "\<And>z. base_addr q \<le> z \<Longrightarrow> z < base_addr q + total_size q \<Longrightarrow> g z = f z"
  shows "region_rep q g es"
proof -
  note d = repD [OF assms(1)]
  have "bytes_at g (base_addr q + seg_offset q) (seg_image (seg_seq_id q) es)"
    by (rule bytes_at_cong [OF d(8)], rule assms(2)) (use d(5) image_length [OF d(7)] in auto)
  moreover have "\<not> header_valid g (base_addr q + s)" if "4096 dvd s" "s + 4096 \<le> total_size q" "s \<noteq> seg_offset q" for s
  proof -
    have "header_valid g (base_addr q + s) = header_valid f (base_addr q + s)"
      by (rule header_valid_cong, rule assms(2)) (use that(2) in auto)
    then show ?thesis using d(12) [OF that] by simp
  qed
  ultimately show ?thesis using d(1-7,9,10) by (simp add: region_rep_def region_geom_def)
qed

lemma store_rep_other:
  assumes "store_rep q f M" "same_outside r f g" "regions_apart r q"
  shows "store_rep q g M"
proof -
  obtain es where es: "region_rep q f es" "distinct (live_names es)" "M = log_map es" using assms(1) by (auto simp: store_rep_def)
  have "region_rep q g es" by (rule region_rep_other [OF es(1)]) (use assms(2,3) in \<open>auto simp: same_outside_def regions_apart_def\<close>)
  then show ?thesis using es(2,3) by (auto simp: store_rep_def)
qed

lemma regions_apart_sym: "regions_apart r q = regions_apart q r"
  by (auto simp: regions_apart_def)

lemma regions_apart_cong: "base_addr r' = base_addr r \<Longrightarrow> total_size r' = total_size r \<Longrightarrow> regions_apart r' q = regions_apart r q"
  by (simp add: regions_apart_def)

text \<open>A change of the user region, of the writable factory region.\<close>

lemma holds_user:
  assumes "nvram_holds s U W F" "store_rep r g U'" "same_outside (user_nvram_region s) (n_flash s) g"
    "base_addr r = base_addr (user_nvram_region s)" "total_size r = total_size (user_nvram_region s)"
  shows "nvram_holds (s\<lparr>n_flash := g, user_nvram_region := r\<rparr>) U' W F"
  using assms store_rep_other [OF _ assms(3)] regions_apart_cong [OF assms(4,5)] by (simp add: nvram_holds_def)

lemma holds_rw:
  assumes "nvram_holds s U W F" "store_rep r g W'" "same_outside (factory_rw_nvram_region s) (n_flash s) g"
    "base_addr r = base_addr (factory_rw_nvram_region s)" "total_size r = total_size (factory_rw_nvram_region s)"
  shows "nvram_holds (s\<lparr>n_flash := g, factory_rw_nvram_region := r\<rparr>) U W' F"
  using assms store_rep_other [OF _ assms(3)] regions_apart_cong [OF assms(4,5)]
  by (simp add: nvram_holds_def regions_apart_sym [of "user_nvram_region s"])

lemma config_set:
  assumes "nvram_holds s U W F" "store_fits U name data"
  shows "\<exists>s'. nvram_config_set name data s = Some (s', 0) \<and> nvram_holds s' (U(name \<mapsto> data)) W F \<and> nvram_parts s' = nvram_parts s"
proof -
  have "store_rep (user_nvram_region s) (n_flash s) U" using assms(1) by (simp add: nvram_holds_def)
  from store_set [OF this assms(2)] obtain g r where g: "region_set (user_nvram_region s) name data (n_flash s) = Some (g, r, 0)"
      "store_rep r g (U(name \<mapsto> data))" "same_outside (user_nvram_region s) (n_flash s) g"
      "base_addr r = base_addr (user_nvram_region s)" "total_size r = total_size (user_nvram_region s)" by blast
  then show ?thesis using holds_user [OF assms(1) g(2-5)] by (simp add: nvram_config_set_def nvram_parts_def)
qed

lemma config_delete:
  assumes "nvram_holds s U W F" "good_name name"
  shows "\<exists>s'. nvram_config_set name [] s = Some (s', 0) \<and> nvram_holds s' (U(name := None)) W F \<and> nvram_parts s' = nvram_parts s"
proof -
  have "store_rep (user_nvram_region s) (n_flash s) U" using assms(1) by (simp add: nvram_holds_def)
  from store_delete [OF this assms(2)] obtain g r where g: "region_set (user_nvram_region s) name [] (n_flash s) = Some (g, r, 0)"
      "store_rep r g (U(name := None))" "same_outside (user_nvram_region s) (n_flash s) g"
      "base_addr r = base_addr (user_nvram_region s)" "total_size r = total_size (user_nvram_region s)" by blast
  then show ?thesis using holds_user [OF assms(1) g(2-5)] by (simp add: nvram_config_set_def nvram_parts_def)
qed

lemma config_get:
  assumes "nvram_holds s U W F" "0 \<notin> set name" "0 < max_len"
  shows "nvram_config_get name max_len s = Some (case nvram_find U W F name of None \<Rightarrow> Inl (- ENOENT) | Some v \<Rightarrow> Inr (take max_len v))"
proof -
  have r: "store_rep (user_nvram_region s) (n_flash s) U" "store_rep (factory_rw_nvram_region s) (n_flash s) W"
      "store_rep (factory_nvram_region s) (n_flash s) F"
    using assms(1) by (simp_all add: nvram_holds_def)
  show ?thesis using store_get [OF r(1) assms(2,3)] store_get [OF r(2) assms(2,3)] store_get [OF r(3) assms(2,3)]
    by (simp add: nvram_config_get_def nvram_find_def map_add_def split: option.splits)
qed

section \<open>Start up\<close>

lemma static_geom:
  assumes "nor_flash dev n" "off + sz \<le> n" "4096 dvd off" "4096 dvd sz" "8192 \<le> sz"
  shows "region_geom ((set_part (Some (off, sz)) (static_region m))\<lparr>storage := Some dev\<rparr>)"
  using assms by (auto simp: region_geom_def region_ok_def set_part_def static_region_def)

lemma config_init:
  assumes "holds_parts dev s" "nvram_holds s U W F" "nvram_parts s = (fac, usr, rw)"
  shows "\<exists>s'. nvram_config_init (Some fac) (Some usr) (Some rw) (Some dev) (nvram_static (n_flash s)) = Some (s', 0) \<and>
    nvram_holds s' U W F \<and> nvram_parts s' = nvram_parts s"
proof -
  let ?b = "\<lambda>r m. (set_part (Some (base_addr r, total_size r)) (static_region m))\<lparr>storage := Some dev\<rparr>"
  have r: "store_rep (user_nvram_region s) (n_flash s) U" "store_rep (factory_rw_nvram_region s) (n_flash s) W"
      "store_rep (factory_nvram_region s) (n_flash s) F" and a: "regions_apart (user_nvram_region s) (factory_rw_nvram_region s)"
      "regions_apart (user_nvram_region s) (factory_nvram_region s)" "regions_apart (factory_rw_nvram_region s) (factory_nvram_region s)"
    using assms(2) by (simp_all add: nvram_holds_def)
  obtain n where n: "nor_flash dev n" "\<And>q. q \<in> {factory_nvram_region s, user_nvram_region s, factory_rw_nvram_region s} \<Longrightarrow> base_addr q + total_size q \<le> n"
    using assms(1) unfolding holds_parts_def by blast
  have geom: "region_geom (?b q m)" if "store_rep q f M" "q \<in> {factory_nvram_region s, user_nvram_region s, factory_rw_nvram_region s}" for q f M m
  proof -
    have "region_geom q" using that(1) repD(11) unfolding store_rep_def by blast
    then show ?thesis using static_geom [OF n(1) n(2) [OF that(2)]] by (auto simp: region_geom_def region_ok_def)
  qed
  have b: "base_addr (?b q m) = base_addr q" "total_size (?b q m) = total_size q" "seg_item_map (?b q m) = m" for q m
    by (simp_all add: set_part_def static_region_def)
  have m0: "map_rep (seg_item_map (?b q None)) {}" "map_rep (seg_item_map (?b q (Some (replicate 8 0)))) {}" for q
    using boot_map [of "Some []"] boot_map [of None] by (simp_all add: set_part_def static_region_def)
  obtain f1 rw where 1: "region_scan (?b (factory_rw_nvram_region s) None) (n_flash s) = Some (f1, rw, 0)" "store_rep rw f1 W"
      "same_outside (factory_rw_nvram_region s) (n_flash s) f1" "base_addr rw = base_addr (factory_rw_nvram_region s)" "total_size rw = total_size (factory_rw_nvram_region s)"
    using store_scan [OF r(2) geom [OF r(2)] b(1,2) m0(1)] by blast
  have r1: "store_rep (user_nvram_region s) f1 U" "store_rep (factory_nvram_region s) f1 F"
    using store_rep_other [OF r(1) 1(3)] store_rep_other [OF r(3) 1(3)] a regions_apart_sym by blast+
  obtain f2 fac where 2: "region_scan (?b (factory_nvram_region s) None) f1 = Some (f2, fac, 0)" "store_rep fac f2 F"
      "same_outside (factory_nvram_region s) f1 f2" "base_addr fac = base_addr (factory_nvram_region s)" "total_size fac = total_size (factory_nvram_region s)"
    using store_scan [OF r1(2) geom [OF r(3)] b(1,2) m0(1)] by blast
  have a2: "regions_apart (factory_nvram_region s) rw" "regions_apart (factory_nvram_region s) (user_nvram_region s)" "regions_apart (user_nvram_region s) rw"
      "regions_apart (user_nvram_region s) fac" "regions_apart rw fac"
    using a 1(4,5) 2(4,5) by (auto simp: regions_apart_def)
  have r2: "store_rep (user_nvram_region s) f2 U" "store_rep rw f2 W"
    using store_rep_other [OF r1(1) 2(3) a2(2)] store_rep_other [OF 1(2) 2(3) a2(1)] by blast+
  obtain f3 usr where 3: "region_scan (?b (user_nvram_region s) (Some (replicate 8 0))) f2 = Some (f3, usr, 0)" "store_rep usr f3 U"
      "same_outside (user_nvram_region s) f2 f3" "base_addr usr = base_addr (user_nvram_region s)" "total_size usr = total_size (user_nvram_region s)"
    using store_scan [OF r2(1) geom [OF r(1)] b(1,2) m0(2)] by blast
  obtain es where es: "region_rep usr f3 es" "distinct (live_names es)" "U = log_map es" using 3(2) by (auto simp: store_rep_def)
  obtain f4 where 4: "region_clear usr (total_size usr div 2) f3 = Some (f4, 0)" "region_rep usr f4 es" "same_outside usr f3 f4"
    using rep_clear [OF es(1)] by blast
  have o: "same_outside (user_nvram_region s) f2 f4" using 3(3-5) 4(3) by (simp add: same_outside_def)
  have "store_rep usr f4 U" "store_rep rw f4 W" "store_rep fac f4 F"
    using 4(2) es(2,3) store_rep_other [OF r2(2) o a2(3)] store_rep_other [OF 2(2) o a2(4)] by (auto simp: store_rep_def)
  moreover have "regions_apart usr rw" "regions_apart usr fac" using a2(3,4) regions_apart_cong [OF 3(4,5)] by simp_all
  ultimately show ?thesis using 1(1) 2(1) 3(1) 4(1) a2(5)
      assms(3) 1(4,5) 2(4,5) 3(4,5) by (auto simp: nvram_config_init_def nvram_static_def nvram_holds_def nvram_parts_def)
qed

section \<open>Clearing\<close>

lemma config_clear:
  assumes "nvram_holds s U W F"
  shows "\<exists>s'. nvram_config_clear n s = Some (s', 0) \<and> nvram_holds s' U W F"
proof -
  obtain es where es: "region_rep (user_nvram_region s) (n_flash s) es" "distinct (live_names es)" "U = log_map es"
    using assms by (auto simp: nvram_holds_def store_rep_def)
  obtain g where g: "region_clear (user_nvram_region s) n (n_flash s) = Some (g, 0)" "region_rep (user_nvram_region s) g es"
      "same_outside (user_nvram_region s) (n_flash s) g"
    using rep_clear [OF es(1)] by blast
  have u: "store_rep (user_nvram_region s) g U" using g(2) es(2,3) by (auto simp: store_rep_def)
  have "s\<lparr>n_flash := g, user_nvram_region := user_nvram_region s\<rparr> = s\<lparr>n_flash := g\<rparr>" by simp
  then show ?thesis using holds_user [OF assms u g(3) refl refl] g(1) by (simp add: nvram_config_clear_def)
qed

lemma config_clear_all:
  assumes "nvram_holds s U W F"
  shows "\<exists>s'. nvram_config_clear_all s = Some (s', 0) \<and> nvram_holds s' Map.empty W F"
proof -
  let ?r = "user_nvram_region s" and ?f = "n_flash s"
  obtain es where es: "region_rep ?r ?f es" using assms by (auto simp: nvram_holds_def store_rep_def)
  note d = repD [OF es]
  have t: "4096 dvd total_size ?r" using d(1) by (rule region_okE)
  let ?g = "flash_fill ?f (base_addr ?r + 0) (total_size ?r)"
  have e: "region_erase ?r 0 (total_size ?r) ?f = Some (?g, 0)" by (rule erase_ok [OF d(1) _ _ t]) simp_all
  have "\<not> header_valid ?g (base_addr ?r + x)" if "4096 dvd x" "x + 4096 \<le> total_size ?r" for x
    by (rule blank_header) (use that(2) in \<open>simp add: bytes_at_nth flash_fill_def\<close>)
  then obtain h r where h: "region_scan ?r ?g = Some (h, r, 0)" "region_rep r h []" "same_outside ?r ?g h" "base_addr r = base_addr ?r"
      "total_size r = total_size ?r"
    using rep_first [OF d(11) _ d(10)] by blast
  have "store_rep r h Map.empty" using h(2) by (auto simp: store_rep_def live_names_def log_map_def intro!: exI [of _ "[]"])
  moreover have "same_outside ?r ?f h" using same_outside_fill [of 0 "total_size ?r" ?r ?f] h(3) by (intro same_outside_trans [of ?r ?f ?g h]) simp_all
  ultimately show ?thesis using holds_user [OF assms _ _ h(4,5)] e h(1) by (simp add: nvram_config_clear_all_def)
qed

section \<open>Power loss and overflow\<close>

text \<open>The item of a set is written, the old item is not yet marked.\<close>

definition set_interrupted :: "region_info \<Rightarrow> u8 list \<Rightarrow> u8 list \<Rightarrow> flash \<Rightarrow> flash" where
  "set_interrupted r name data f = fst (region_write_item r (seg_write_offset r) name data f)"

lemma kill_append_dup:
  assumes "distinct (live_names es)" "name \<in> set (live_names es)"
  shows "log_map (kill name (es @ [Entry True name v])) = (log_map es)(name \<mapsto> v)" "log_map (es @ [Entry True name v]) name = log_map es name"
proof -
  have "name \<in> dom (log_map es)" using assms(2) by (simp add: log_map_dom)
  then obtain u where u: "log_map es name = Some u" by blast
  then obtain p where "find_entry 16 name es = Some p" using log_map_find [of es name 16] by auto
  then have "kill name (es @ [Entry True name v]) = kill name es @ [Entry True name v]" by (rule find_entry_append(2))
  then show "log_map (kill name (es @ [Entry True name v])) = (log_map es)(name \<mapsto> v)" using set_log_map(1) [OF assms(1)] by simp
  show "log_map (es @ [Entry True name v]) name = log_map es name" using u by (simp add: log_map_append map_add_def)
qed

lemma interrupted_scan:
  assumes "region_rep r f es" "entry_ok (Entry True name v)" "log_size es + entry_size (Entry True name v) \<le> 4080"
  shows "\<exists>g r' es'. region_scan (region_boot r) (set_interrupted r name v f) = Some (g, r', 0) \<and> region_rep r' g es' \<and>
    (es' = es @ [Entry True name v] \<or> es' = filter e_live (es @ [Entry True name v]))"
proof -
  let ?e = "Entry True name v"
  obtain m where m: "region_rep (r\<lparr>seg_item_map := m, seg_write_offset := seg_write_offset r + entry_size ?e\<rparr>) (set_interrupted r name v f) (es @ [?e])"
    using rep_append [OF assms] by (auto simp: set_interrupted_def)
  show ?thesis using rep_scan [OF m boot_geom [OF repD(11) [OF assms(1)]], of "{}"] boot_map [of "seg_item_map r"] by auto
qed

lemma stale_after_loss:
  assumes "region_rep r f es" "es = es0 @ [Entry True name v2] \<or> es = filter e_live (es0 @ [Entry True name v2])" "distinct (live_names es0)"
    "log_map es0 name = Some v1" "v3 \<noteq> v1" "entry_ok (Entry True name v3)"
    "log_size (filter e_live es) + entry_size (Entry True name v3) \<le> 4080"
  shows "\<exists>g r'. region_set r name v3 f = Some (g, r', 0) \<and> region_get r' name NVRAM_MAX_DATA_SIZE g = Some (Inr (take 512 v2))"
proof -
  have n: "0 \<notin> set name" using assms(6) by (simp add: entry_ok_def)
  have in0: "name \<in> set (live_names es0)" using assms(4) log_map_dom [of es0] by blast
  have "log_map es = log_map (es0 @ [Entry True name v2])" using assms(2) log_map_filter(1) by metis
  then have lm: "log_map es name = Some v1" using assms(4) kill_append_dup(2) [OF assms(3) in0, of v2] by simp
  obtain g r' es' where s: "region_set r name v3 f = Some (g, r', 0)" "region_rep r' g (kill name es' @ [Entry True name v3])"
      "es' = es \<or> es' = filter e_live es"
    using rep_set [OF assms(1,6) _ assms(7)] lm assms(5) by auto
  have "es' = es0 @ [Entry True name v2] \<or> es' = filter e_live es0 @ [Entry True name v2]" using s(3) assms(2) by auto
  then obtain es1 where e1: "es' = es1 @ [Entry True name v2]" "distinct (live_names es1)" "name \<in> set (live_names es1)"
    using assms(3) in0 log_map_filter(2) [of es0] by metis
  have "log_map (kill name es') name = Some v2" unfolding e1(1) using kill_append_dup(1) [OF e1(2,3), of v2] by simp
  then have "log_map (kill name es' @ [Entry True name v3]) name = Some v2" by (simp add: log_map_append map_add_def)
  then show ?thesis using s(1) rep_get [OF s(2) n, of 512] by auto
qed

lemma overflow_set:
  assumes "region_rep r f es" "entry_ok (Entry True name data)" "log_map es name \<noteq> Some data"
    "4080 < log_size (filter e_live es) + entry_size (Entry True name data)" "log_size (filter e_live es) < 4080" "log_map es name = None"
  shows "\<exists>g r'. region_set r name data f = Some (g, r', 0) \<and> seg_offset r' + seg_size r' < seg_write_offset r'"
proof -
  let ?e = "Entry True name data"
  have n: "0 \<notin> set name" "length name + 1 \<le> 112" "data \<noteq> []" "length data \<le> 512" using assms(2) by (auto simp: entry_ok_def)
  have sz: "item_calc_aligned_size (length name + 1) (length data) = entry_size ?e" by (simp add: entry_size_def)
  note d = repD [OF assms(1)]
  have "\<not> log_size es + entry_size ?e \<le> 4080" using assms(4) filter_live_size [of es] by linarith
  then have "region_prepare_write_item r (entry_size ?e) f = region_purge_seg r False f" using d(2,9) by (simp add: region_prepare_write_item_def)
  then obtain f1 r1 where p: "region_prepare_write_item r (entry_size ?e) f = Some (f1, r1)" "region_rep r1 f1 (filter e_live es)"
    using rep_purge [OF assms(1), of False] by auto
  note d1 = repD [OF p(2)]
  have "log_map (filter e_live es) name = None" using assms(6) by simp
  then have "find_entry 16 name (filter e_live es) = None" using log_map_find [of "filter e_live es" name 16] by simp
  then have fi: "region_find_item r1 name f1 = Some None" using rep_find [OF p(2) n(1)] by simp
  have w: "seg_write_offset r1 - seg_offset r1 = 16 + log_size (filter e_live es)" "16 + log_size (filter e_live es) < 4096"
    using d1(9) assms(5) by simp_all
  obtain m where m: "item_bitmap_update (seg_item_map r1) (16 + log_size (filter e_live es)) True = Some m"
    using map_rep_update(1) [OF d1(10) _ w(2)] by auto
  have "region_set r name data f = Some (fst (region_write_item r1 (seg_write_offset r1) name data f1),
      r1\<lparr>seg_item_map := m, seg_write_offset := seg_write_offset r1 + entry_size ?e\<rparr>, 0)"
    using n rep_same [OF assms(1) n(1), of data] assms(3) p(1) fi m w(1) unfolding region_set_def sz by (simp add: region_obsolete_old_def)
  then show ?thesis using d1(2,9) assms(4) by auto
qed

text \<open>Without a factory partition the header of an item cannot be read.\<close>

lemma absent_region_find:
  assumes "total_size r = 0" "seg_size r = 4096" "seg_item_map r = None"
  shows "region_find_item r name f = None"
proof -
  have "region_fetch r (seg_offset r + 16) 8 f = None" using assms(1) by (simp add: region_fetch_def region_read_def split: option.splits)
  then show ?thesis using assms(2,3) by (simp add: region_find_item_def item_bitmap_first_offset_def find_loop.simps)
qed

lemma absent_region_scan:
  assumes "total_size r = 0" "seg_size r = 4096" "seg_item_map r = None" "region_scan r f = Some (g, r', e)"
  shows "total_size r' = 0" "seg_size r' = 4096" "seg_item_map r' = None"
proof -
  have "scan_headers r 0 False f = Inr (r, False)" using assms(1) by (subst scan_headers.simps) simp
  moreover have "region_erase r 0 4096 f = Some (f, - EINVAL)" using assms(1) by (simp add: region_erase_def split: option.splits)
  ultimately show "total_size r' = 0" "seg_size r' = 4096" "seg_item_map r' = None"
    using assms by (auto simp: region_scan_def region_init_new_seg_def item_bitmap_clear_all_def Let_def)
qed

section \<open>Properties\<close>

text \<open>A NOR flash of 2 MB and the partitions of the board, with a third one for the read-only factory region.\<close>

definition nor_driver :: flash_driver where
  "nor_driver = \<lparr>flash_read = (\<lambda>f a n. Some (map f [a..<a + n])), flash_write = (\<lambda>f a bs. (flash_prog f a bs, 0)),
     flash_erase = (\<lambda>f a n. (flash_fill f a n, 0))\<rparr>"

definition ex_region :: "nat \<Rightarrow> nat \<Rightarrow> u32 list option \<Rightarrow> region_info" where
  "ex_region off sz m = (set_part (Some (off, sz)) (static_region m))\<lparr>storage := Some nor_driver\<rparr>"

lemma nor_driver: "nor_flash nor_driver n"
  by (simp add: nor_flash_def nor_driver_def)

lemma ex_region_geom: "4096 dvd off \<Longrightarrow> 4096 dvd sz \<Longrightarrow> 8192 \<le> sz \<Longrightarrow> region_geom (ex_region off sz m)"
  unfolding ex_region_def by (rule static_geom [OF nor_driver order_refl])

lemma ex_region_fields [simp]: "base_addr (ex_region off sz m) = off" "total_size (ex_region off sz m) = sz" "seg_item_map (ex_region off sz m) = m"
    "storage (ex_region off sz m) = Some nor_driver"
  by (simp_all add: ex_region_def set_part_def static_region_def)

lemma blank_not_valid: "\<not> header_valid (\<lambda>_. 0xff) a"
  by (rule blank_header) (simp add: bytes_at_nth)

lemma empty_store: "region_rep r f [] \<Longrightarrow> store_rep r f Map.empty"
  unfolding store_rep_def by (rule exI [of _ "[]"]) (simp add: live_names_def log_map_def)

lemma first_store:
  assumes "region_geom r" "map_rep (seg_item_map r) S" "\<And>z. base_addr r \<le> z \<Longrightarrow> z < base_addr r + total_size r \<Longrightarrow> f z = 0xff"
  shows "\<exists>g r'. region_scan r f = Some (g, r', 0) \<and> store_rep r' g Map.empty \<and> same_outside r f g \<and> base_addr r' = base_addr r \<and>
    total_size r' = total_size r \<and> storage r' = storage r"
proof -
  have "\<not> header_valid f (base_addr r + s)" if "4096 dvd s" "s + 4096 \<le> total_size r" for s
    by (rule blank_header) (use that(2) assms(3) in \<open>simp add: bytes_at_nth\<close>)
  then show ?thesis using rep_first [OF assms(1) _ assms(2)] empty_store by blast
qed

lemma ex_nvram: "\<exists>s. nvram_holds s Map.empty Map.empty Map.empty \<and> storage (user_nvram_region s) = Some nor_driver \<and>
    storage (factory_rw_nvram_region s) = Some nor_driver \<and> storage (factory_nvram_region s) = Some nor_driver"
proof -
  let ?u = "ex_region 0x1FB000 0x5000 (Some (replicate 8 0))" and ?w = "ex_region 0x1F8000 0x3000 None" and ?c = "ex_region 0x1F6000 0x2000 None"
  let ?f = "\<lambda>_ :: nat. 0xff :: u8"
  have g: "region_geom ?u" "region_geom ?w" "region_geom ?c" by (simp_all add: ex_region_geom)
  have m: "map_rep (seg_item_map ?u) {}" "map_rep (seg_item_map ?w) {}" "map_rep (seg_item_map ?c) {}" using boot_map [of "Some []"] by simp_all
  obtain f1 r1 where 1: "store_rep r1 f1 Map.empty" "same_outside ?u ?f f1" "base_addr r1 = base_addr ?u" "total_size r1 = total_size ?u" "storage r1 = storage ?u"
    using first_store [OF g(1) m(1), of ?f] by blast
  have w1: "f1 z = 0xff" if "base_addr ?w \<le> z" "z < base_addr ?w + total_size ?w" for z using 1(2) that by (simp add: same_outside_def)
  obtain f2 r2 where 2: "store_rep r2 f2 Map.empty" "same_outside ?w f1 f2" "base_addr r2 = base_addr ?w" "total_size r2 = total_size ?w" "storage r2 = storage ?w"
    using first_store [OF g(2) m(2), of f1] w1 by blast
  have w2: "f2 z = 0xff" if "base_addr ?c \<le> z" "z < base_addr ?c + total_size ?c" for z using 1(2) 2(2) that by (simp add: same_outside_def)
  obtain f3 r3 where 3: "store_rep r3 f3 Map.empty" "same_outside ?c f2 f3" "base_addr r3 = base_addr ?c" "total_size r3 = total_size ?c" "storage r3 = storage ?c"
    using first_store [OF g(3) m(3), of f2] w2 by blast
  have a: "regions_apart r1 r2" "regions_apart r1 r3" "regions_apart r2 r3" "regions_apart ?w r1" "regions_apart ?c r1" "regions_apart ?c r2"
    using 1(3,4) 2(3,4) 3(3,4) by (simp_all add: regions_apart_def)
  have "store_rep r1 f3 Map.empty" by (rule store_rep_other [OF store_rep_other [OF 1(1) 2(2) a(4)] 3(2) a(5)])
  moreover have "store_rep r2 f3 Map.empty" by (rule store_rep_other [OF 2(1) 3(2) a(6)])
  ultimately have "nvram_holds \<lparr>n_flash = f3, user_nvram_region = r1, factory_nvram_region = r3, factory_rw_nvram_region = r2\<rparr> Map.empty Map.empty Map.empty"
    using 3(1) a by (simp add: nvram_holds_def)
  then show ?thesis using 1(5) 2(5) 3(5) by force
qed

text \<open>
  C7: A set that fits stores the data under the name and changes no other name of the user region and nothing in the
  factory regions; a set of length 0 removes the name; data of more than 512 bytes and names of more than 111 bytes are
  refused and nothing changes.
\<close>

theorem nvram_set_correct:
  assumes "nvram_holds s U W F"
  shows "(store_fits U name data \<longrightarrow> (\<exists>s'. nvram_config_set name data s = Some (s', 0) \<and> nvram_holds s' (U(name \<mapsto> data)) W F)) \<and>
    (good_name name \<longrightarrow> (\<exists>s'. nvram_config_set name [] s = Some (s', 0) \<and> nvram_holds s' (U(name := None)) W F)) \<and>
    (512 < length data \<or> 111 < length name \<longrightarrow> nvram_config_set name data s = Some (s, - EINVAL))"
proof (intro conjI impI)
  show "\<exists>s'. nvram_config_set name data s = Some (s', 0) \<and> nvram_holds s' (U(name \<mapsto> data)) W F" if "store_fits U name data"
    using config_set [OF assms that] by blast
  show "\<exists>s'. nvram_config_set name [] s = Some (s', 0) \<and> nvram_holds s' (U(name := None)) W F" if "good_name name"
    using config_delete [OF assms that] by blast
  show "nvram_config_set name data s = Some (s, - EINVAL)" if "512 < length data \<or> 111 < length name"
    using that by (auto simp: nvram_config_set_def region_set_def)
qed

theorem nvram_set_correct_witness:
  "\<exists>s s'. nvram_config_set [1] [7, 8] s = Some (s', 0) \<and> nvram_holds s' [[1] \<mapsto> [7, 8]] Map.empty Map.empty"
proof -
  obtain s where s: "nvram_holds s Map.empty Map.empty Map.empty" using ex_nvram by blast
  have "store_fits Map.empty [1] [7, 8]"
    by (simp add: store_fits_def good_name_def good_data_def store_size_def item_space_def item_calc_aligned_size_def item_calc_real_size_def ROUND_UP_def)
  then show ?thesis using nvram_set_correct [OF s, of "[1]" "[7, 8]"] by blast
qed

text \<open>
  C16: A get returns the value of the user region, else of the writable factory region, else of the read-only one, cut to
  the length asked for, and \<open>-ENOENT\<close> when no region has the name; a length of 0 is refused.
\<close>

theorem nvram_get_priority:
  assumes "nvram_holds s U W F" "0 \<notin> set name"
  shows "nvram_config_get name max_len s = Some (if max_len = 0 then Inl (- EINVAL)
    else case U name of Some v \<Rightarrow> Inr (take max_len v)
    | None \<Rightarrow> (case W name of Some v \<Rightarrow> Inr (take max_len v)
      | None \<Rightarrow> (case F name of Some v \<Rightarrow> Inr (take max_len v) | None \<Rightarrow> Inl (- ENOENT))))"
proof (cases "max_len = 0")
  case True
  then show ?thesis by (simp add: nvram_config_get_def region_get_def)
next
  case False
  then show ?thesis using config_get [OF assms, of max_len] by (simp add: nvram_find_def map_add_def split: option.splits)
qed

theorem nvram_get_priority_witness: "\<exists>s. nvram_config_get [1] 16 s = Some (Inl (- ENOENT))"
proof -
  obtain s where s: "nvram_holds s Map.empty Map.empty Map.empty" using ex_nvram by blast
  show ?thesis using nvram_get_priority [OF s, of "[1]" 16] by auto
qed

text \<open>
  C9: Nothing is lost by a restart: the start up with the same partitions, on the flash as it was, finds the contents of
  all three regions again. The clearing of sectors at the end of the start up does not touch them.
\<close>

theorem nvram_restart_roundtrip:
  assumes "nor_flash dev n" "nvram_holds s U W F" "nvram_parts s = ((bf, tf), (bu, tu), (bw, tw))" "bf + tf \<le> n" "bu + tu \<le> n" "bw + tw \<le> n"
  shows "\<exists>s'. nvram_config_init (Some (bf, tf)) (Some (bu, tu)) (Some (bw, tw)) (Some dev) (nvram_static (n_flash s)) = Some (s', 0) \<and>
    nvram_holds s' U W F"
proof -
  have "holds_parts dev s" using assms(1,3-6) by (auto simp: holds_parts_def nvram_parts_def)
  then show ?thesis using config_init [OF _ assms(2,3)] by blast
qed

theorem nvram_restart_roundtrip_witness:
  "\<exists>fac usr rw f s'. nvram_config_init fac usr rw (Some nor_driver) (nvram_static f) = Some (s', 0) \<and> nvram_holds s' Map.empty Map.empty Map.empty"
proof -
  obtain s where s: "nvram_holds s Map.empty Map.empty Map.empty" using ex_nvram by blast
  obtain bf tf bu tu bw tw where p: "nvram_parts s = ((bf, tf), (bu, tu), (bw, tw))" by (metis surj_pair)
  show ?thesis using nvram_restart_roundtrip [OF nor_driver [of "bf + tf + bu + tu + bw + tw"] s p] by fastforce
qed

text \<open>
  C8: On a region that was never used, any sequence of sets, removals and restarts in which every value fits (the items held and the new
  one together fit a segment, and name and value keep to their sizes) is carried
  out, and afterwards every name reads as in the map the sequence describes.
\<close>

theorem nvram_sequence:
  assumes "region_geom r" "\<forall>z. base_addr r \<le> z \<and> z < base_addr r + total_size r \<longrightarrow> f z = 0xff" "kv_fits store_fits good_name Map.empty ops"
  shows "\<exists>s0 s'. region_restart (r, f) = Some s0 \<and> kv_run region_put (\<lambda>name. region_put name []) region_restart ops s0 = Some s' \<and>
    (\<forall>name. good_name name \<longrightarrow> region_look name s' = Some (foldl kv_step Map.empty ops name))"
proof -
  have "\<exists>g r'. region_scan (region_boot r) f = Some (g, r', 0) \<and> store_rep r' g Map.empty"
    using first_store [OF boot_geom [OF assms(1)], of "{}" f] boot_map [of "seg_item_map r"] assms(2) by auto
  then obtain s0 where s0: "region_restart (r, f) = Some s0" "store_holds s0 Map.empty" by (auto simp: region_restart_def store_holds_def)
  show ?thesis using s0 nv.run_reads [OF s0(2) assms(3)] by blast
qed

theorem nvram_sequence_witness:
  "\<exists>s0 s'. region_restart (ex_region 0x1FB000 0x5000 (Some (replicate 8 0)), \<lambda>_. 0xff) = Some s0 \<and>
    kv_run region_put (\<lambda>name. region_put name []) region_restart [Put [1] [7], Restart, Put [1] [8, 9], Del [2]] s0 = Some s' \<and>
    region_look [1] s' = Some (Some [8, 9])"
proof -
  let ?ops = "[Put [1] [7], Restart, Put [1] [8, 9], Del [2]] :: (u8 list, u8 list) kv_op list"
  have "kv_fits store_fits good_name Map.empty ?ops"
    by (simp add: store_fits_def good_name_def good_data_def store_size_def item_space_def item_calc_aligned_size_def item_calc_real_size_def ROUND_UP_def)
  then obtain s0 s' where "region_restart (ex_region 0x1FB000 0x5000 (Some (replicate 8 0)), \<lambda>_. 0xff) = Some s0"
      "kv_run region_put (\<lambda>name. region_put name []) region_restart ?ops s0 = Some s'"
      "\<forall>name. good_name name \<longrightarrow> region_look name s' = Some (foldl kv_step Map.empty ?ops name)"
    using nvram_sequence [of "ex_region 0x1FB000 0x5000 (Some (replicate 8 0))" "\<lambda>_. 0xff" ?ops] by (auto simp: ex_region_geom)
  then show ?thesis by (fastforce simp: good_name_def)
qed

text \<open>
  Clearing ahead of the current segment keeps every value of every region; clearing all empties the user region and
  leaves the factory regions as they are.
\<close>

theorem nvram_clear_correct:
  assumes "nvram_holds s U W F"
  shows "(\<exists>s'. nvram_config_clear n s = Some (s', 0) \<and> nvram_holds s' U W F) \<and>
    (\<exists>s'. nvram_config_clear_all s = Some (s', 0) \<and> nvram_holds s' Map.empty W F)"
  using config_clear [OF assms] config_clear_all [OF assms] by blast

theorem nvram_clear_correct_witness:
  "\<exists>s s'. nvram_config_clear_all s = Some (s', 0) \<and> nvram_holds s' Map.empty Map.empty Map.empty"
proof -
  obtain s where s: "nvram_holds s Map.empty Map.empty Map.empty" using ex_nvram by blast
  show ?thesis using nvram_clear_correct [OF s, of 0] by blast
qed

text \<open>
  C38: A set is not safe against power loss. When power fails after the new item was written and before the old one is
  marked obsolete, both are valid after the restart, and the old value is read. The next set of the same name
  reports success, but marks only the first of the two obsolete: afterwards the value of the interrupted set is
  read, not the one that was set last.
\<close>

theorem nvram_power_loss_stale:
  assumes "store_rep r f M" "M name = Some v1" "good_name name" "good_data v2" "good_data v3" "v3 \<noteq> v1"
    "seg_write_offset r + item_space name v2 \<le> seg_offset r + seg_size r"
    "store_size M + item_space name v2 + item_space name v3 \<le> 4080"
  shows "\<exists>g r' h r''. region_scan (region_boot r) (set_interrupted r name v2 f) = Some (g, r', 0) \<and>
    region_get r' name 512 g = Some (Inr v1) \<and> region_set r' name v3 g = Some (h, r'', 0) \<and> region_get r'' name 512 h = Some (Inr v2)"
proof -
  obtain es where es: "region_rep r f es" "distinct (live_names es)" "M = log_map es" using assms(1) by (auto simp: store_rep_def)
  note d = repD [OF es(1)]
  let ?e2 = "Entry True name v2" and ?e3 = "Entry True name v3"
  have ok: "entry_ok ?e2" "entry_ok ?e3" "0 \<notin> set name" using assms(3-5) good_entry by (auto simp: good_name_def)
  have sz: "log_size es + entry_size ?e2 \<le> 4080" using assms(7) d(2,9) by (simp add: entry_space)
  obtain g r' es' where s: "region_scan (region_boot r) (set_interrupted r name v2 f) = Some (g, r', 0)" "region_rep r' g es'"
      "es' = es @ [?e2] \<or> es' = filter e_live (es @ [?e2])"
    using interrupted_scan [OF es(1) ok(1) sz] by blast
  have in0: "name \<in> set (live_names es)" using assms(2) es(3) log_map_dom [of es] by blast
  have "log_map es' = log_map (es @ [?e2])" using s(3) log_map_filter(1) by metis
  then have "log_map es' name = Some v1" using assms(2) es(3) kill_append_dup(2) [OF es(2) in0, of v2] by simp
  moreover have t: "take 512 v1 = v1" "take 512 v2 = v2" using store_data [OF assms(1,2)] assms(4) by (simp_all add: good_data_def)
  ultimately have g1: "region_get r' name 512 g = Some (Inr v1)" using rep_get [OF s(2) ok(3), of 512] by simp
  have "log_size (filter e_live es') = store_size M + item_space name v2"
    using s(3) live_size [OF es(2)] es(3) by (auto simp: entry_space)
  then have "log_size (filter e_live es') + entry_size ?e3 \<le> 4080" using assms(8) by (simp add: entry_space)
  then obtain h r'' where "region_set r' name v3 g = Some (h, r'', 0)" "region_get r'' name NVRAM_MAX_DATA_SIZE h = Some (Inr (take 512 v2))"
    using stale_after_loss [OF s(2,3) es(2) _ assms(6) ok(2)] assms(2) es(3) by blast
  then show ?thesis using s(1) g1 t(2) by auto
qed

lemma ex_store: "\<exists>r f. store_rep r f [[1] \<mapsto> [7]] \<and> seg_write_offset r = seg_offset r + 32 \<and> seg_size r = 4096"
proof -
  let ?r = "ex_region 0x1FB000 0x5000 (Some (replicate 8 0))"
  have gm: "region_geom ?r" by (simp add: ex_region_geom)
  obtain g r where r: "region_rep r g []"
    using rep_first [OF gm, where f = "\<lambda>_. 0xff" and S = "{}"] blank_not_valid boot_map [of "Some []"] by auto
  have e: "entry_ok (Entry True [1] [7])" "entry_size (Entry True [1] [7]) = 16"
    by (simp_all add: entry_ok_def entry_size_def item_calc_aligned_size_def item_calc_real_size_def ROUND_UP_def)
  obtain m where m: "region_rep (r\<lparr>seg_item_map := m, seg_write_offset := seg_write_offset r + 16\<rparr>)
      (fst (region_write_item r (seg_write_offset r) [1] [7] g)) ([] @ [Entry True [1] [7]])"
    using rep_append [OF r e(1)] e(2) by auto
  then have "store_rep (r\<lparr>seg_item_map := m, seg_write_offset := seg_write_offset r + 16\<rparr>)
      (fst (region_write_item r (seg_write_offset r) [1] [7] g)) [[1] \<mapsto> [7]]"
    unfolding store_rep_def by (intro exI [of _ "[Entry True [1] [7]]"]) (simp add: live_names_def log_map_def)
  then show ?thesis using repD(2,9) [OF r] by fastforce
qed

theorem nvram_power_loss_stale_witness:
  "\<exists>r f g r' h r''. region_scan (region_boot r) (set_interrupted r [1] [8] f) = Some (g, r', 0) \<and> region_get r' [1] 512 g = Some (Inr [7]) \<and>
    region_set r' [1] [9] g = Some (h, r'', 0) \<and> region_get r'' [1] 512 h = Some (Inr [8])"
proof -
  obtain r f where r: "store_rep r f [[1] \<mapsto> [7]]" "seg_write_offset r = seg_offset r + 32" "seg_size r = 4096" using ex_store by blast
  have "item_space [1] [x] = 16" for x by (simp add: item_space_def item_calc_aligned_size_def item_calc_real_size_def ROUND_UP_def)
  moreover have "store_size [[1] \<mapsto> [7]] = 16" by (simp add: store_size_def item_space_def item_calc_aligned_size_def item_calc_real_size_def ROUND_UP_def)
  ultimately show ?thesis using nvram_power_loss_stale [OF r(1), of "[1]" "[7]" "[8]" "[9]"] r(2,3)
    by (simp add: good_name_def good_data_def) blast
qed

text \<open>
  C39: A set of a new name whose item does not fit even after the purge still reports success, and leaves the write position behind
  the end of the segment.
\<close>

theorem nvram_full_overruns:
  assumes "store_rep r f M" "M name = None" "good_name name" "good_data data" "4080 < store_size M + item_space name data" "store_size M < 4080"
  shows "\<exists>g r'. region_set r name data f = Some (g, r', 0) \<and> seg_offset r' + seg_size r' < seg_write_offset r'"
proof -
  obtain es where es: "region_rep r f es" "distinct (live_names es)" "M = log_map es" using assms(1) by (auto simp: store_rep_def)
  show ?thesis using overflow_set [OF es(1), of name data] assms(2-6) es(3) live_size [OF es(2)] good_entry by (simp add: entry_space)
qed

lemma store_size_upd: "finite (dom M) \<Longrightarrow> M name = None \<Longrightarrow> store_size (M(name \<mapsto> data)) = store_size M + item_space name data"
proof -
  assume a: "finite (dom M)" "M name = None"
  have "(\<Sum>n\<in>dom M. item_space n (the ((M(name \<mapsto> data)) n))) = (\<Sum>n\<in>dom M. item_space n (the (M n)))"
    by (rule sum.cong) (use a(2) in auto)
  then show ?thesis using a by (simp add: store_size_def domIff)
qed

text \<open>A region with several values of the largest size.\<close>

lemma ex_full: "k \<le> 7 \<Longrightarrow> \<exists>s M. store_holds s M \<and> finite (dom M) \<and> store_size M = k * 528 \<and> (\<forall>n. M n \<noteq> None \<longrightarrow> (\<exists>i<k. n = [of_nat (i + 1)]))"
proof (induction k)
  case 0
  obtain s where "nvram_holds s Map.empty Map.empty Map.empty" using ex_nvram by blast
  then have "store_holds (user_nvram_region s, n_flash s) Map.empty" by (simp add: nvram_holds_def store_holds_def)
  then show ?case by (intro exI) (auto simp: store_size_def)
next
  case (Suc k)
  then obtain s M where s: "store_holds s M" "finite (dom M)" "store_size M = k * 528" "\<And>n. M n \<noteq> None \<Longrightarrow> \<exists>i<k. n = [of_nat (i + 1)]" by auto
  let ?n = "[of_nat (k + 1)] :: u8 list" and ?d = "replicate 512 1 :: u8 list"
  have "i < 8 \<Longrightarrow> unat (of_nat (i + 1) :: u8) = i + 1" for i by (simp add: unat_of_nat del: of_nat_add of_nat_Suc)
  then have inj: "of_nat (i + 1) = (of_nat (j + 1) :: u8) \<Longrightarrow> i < 8 \<Longrightarrow> j < 8 \<Longrightarrow> i = j" for i j by (metis add_right_cancel)
  have new: "M ?n = None" using s(4) [of ?n] inj [of k] Suc.prems by force
  have sp: "item_space ?n ?d = 528" by (simp add: item_space_def item_calc_aligned_size_def item_calc_real_size_def ROUND_UP_def)
  have "(of_nat (k + 1) :: u8) \<noteq> 0" using Suc.prems by (simp add: word_of_nat_eq_0_iff dvd_def del: of_nat_add of_nat_Suc) presburger
  then have "store_fits M ?n ?d" using sp s(3) Suc.prems by (simp add: store_fits_def good_name_def good_data_def del: of_nat_add of_nat_Suc)
  then obtain s' where "store_holds s' (M(?n \<mapsto> ?d))" using nv.put_ok [OF s(1)] by blast
  moreover have "store_size (M(?n \<mapsto> ?d)) = Suc k * 528" using store_size_upd [OF s(2) new] sp s(3) by simp
  moreover have "\<exists>i<Suc k. n = [of_nat (i + 1)]" if "(M(?n \<mapsto> ?d)) n \<noteq> None" for n
    using that s(4) [of n] by (cases "n = ?n") (auto simp del: of_nat_add of_nat_Suc intro: less_SucI)
  moreover have "finite (dom (M(?n \<mapsto> ?d)))" using s(2) by simp
  ultimately show ?case by blast
qed

theorem nvram_full_overruns_witness:
  "\<exists>r f g r'. region_set r [9] (replicate 512 1) f = Some (g, r', 0) \<and> seg_offset r' + seg_size r' < seg_write_offset r'"
proof -
  obtain s M where s: "store_holds s M" "store_size M = 7 * 528" "\<And>n. M n \<noteq> None \<Longrightarrow> \<exists>i<7. n = [of_nat (i + 1)]" using ex_full [of 7] by auto
  have n: "M [9] = None"
  proof (rule ccontr)
    assume "M [9] \<noteq> None"
    then obtain i :: nat where i: "i < 7" "[9] = [of_nat (i + 1) :: u8]" using s(3) by blast
    from i(1) consider "i = 0" | "i = 1" | "i = 2" | "i = 3" | "i = 4" | "i = 5" | "i = 6" by linarith
    then show False using i(2) by cases simp_all
  qed
  have "item_space [9] (replicate 512 1) = 528" by (simp add: item_space_def item_calc_aligned_size_def item_calc_real_size_def ROUND_UP_def)
  then have "\<exists>g r'. region_set (fst s) [9] (replicate 512 1) (snd s) = Some (g, r', 0) \<and> seg_offset r' + seg_size r' < seg_write_offset r'"
    by (intro nvram_full_overruns [where M = M]) (use s(1,2) n in \<open>simp_all add: store_holds_def good_name_def good_data_def\<close>)
  then show ?thesis by blast
qed

text \<open>
  Without a partition for the read-only factory region, a get of a name that the other regions do not have
  uses an item header that was never read.
\<close>

theorem nvram_missing_factory:
  assumes "store_rep (user_nvram_region s) (n_flash s) U" "store_rep (factory_rw_nvram_region s) (n_flash s) W"
    "region_scan ((set_part None (static_region None))\<lparr>storage := Some dev\<rparr>) f = Some (g, factory_nvram_region s, e)"
    "0 \<notin> set name" "U name = None" "W name = None" "0 < max_len"
  shows "nvram_config_get name max_len s = None"
proof -
  let ?r = "factory_nvram_region s"
  have "total_size ?r = 0" "seg_size ?r = 4096" "seg_item_map ?r = None"
    using absent_region_scan [OF _ _ _ assms(3)] by (simp_all add: set_part_def static_region_def)
  then have "region_get ?r name max_len (n_flash s) = None" using absent_region_find [of ?r name "n_flash s"] assms(7) by (simp add: region_get_def)
  then show ?thesis using store_get [OF assms(1,4,7)] store_get [OF assms(2,4,7)] assms(5,6) by (simp add: nvram_config_get_def)
qed

theorem nvram_missing_factory_witness: "\<exists>s. nvram_config_get [1] 4 s = None"
proof -
  let ?r = "(set_part None (static_region None))\<lparr>storage := Some nor_driver\<rparr>"
  have "scan_headers ?r 0 False f = Inr (?r, False)" for f by (subst scan_headers.simps) (simp add: set_part_def static_region_def)
  then obtain f g q e where q: "region_scan ?r f = Some (g, q, e)"
    by (auto simp: region_scan_def region_init_new_seg_def region_erase_def set_part_def static_region_def Let_def)
  obtain s where s: "nvram_holds s Map.empty Map.empty Map.empty" using ex_nvram by blast
  have "nvram_config_get [1] 4 (s\<lparr>factory_nvram_region := q\<rparr>) = None"
    by (rule nvram_missing_factory [where U = Map.empty and W = Map.empty]) (use s q in \<open>auto simp: nvram_holds_def\<close>)
  then show ?thesis by blast
qed

end
