(* ===== verification/Property_Cache.thy ===== *)
theory Property_Cache
  imports Nvram_Store
begin

text \<open>
  The properties of the system: \<^verbatim>\<open>src/framework/base/property/property_cache.c\<close>, a write-back cache of 20 items over the
  configuration store, and \<^verbatim>\<open>property_manager.c\<close>, the interface of the applications with its conversions of
  integers. The configuration has \<open>CONFIG_PROPERTY_CACHE\<close> and \<open>CONFIG_NVRAM_CONFIG\<close> set; the frequency requests around the
  writes are left out.

  A name is the list of its bytes without the closing zero. An item owns the two blocks of its name and its data, which are
  given by their contents; characters are unsigned, as on the processor of the board; \<open>mem_blocks\<close> counts the blocks of the heap that belong to the cache, and \<open>malloc_ok\<close> is whether
  \<open>mem_malloc\<close> succeeds. \<open>None\<close> is undefined behaviour.
\<close>

section \<open>The cache\<close>

abbreviation MAX_NVRAM_ITEM_CACHE_NUM :: nat where "MAX_NVRAM_ITEM_CACHE_NUM \<equiv> 20"

record cahce_item_data =
  c_name :: "u8 list"
  c_data :: "u8 list"
  data_len :: u16
  used_flag :: bool
  flush_req :: bool

record property_state =
  globle_property_cache :: "cahce_item_data list"
  global_cache_need_flush :: bool
  p_nvram :: nvram
  mem_blocks :: nat

text \<open>\<open>memcmp(item->name, name, strlen(name))\<close>: the name may end before the name of the item does.\<close>

definition name_matches :: "u8 list \<Rightarrow> cahce_item_data \<Rightarrow> bool" where
  "name_matches name item \<longleftrightarrow> take (length name) (c_name item @ [0]) = name"

definition find_property_cache :: "u8 list \<Rightarrow> property_state \<Rightarrow> nat option" where
  "find_property_cache name s =
     find (\<lambda>i. used_flag (globle_property_cache s ! i) \<and> name_matches name (globle_property_cache s ! i)) [0..<MAX_NVRAM_ITEM_CACHE_NUM]"

definition set_item :: "nat \<Rightarrow> cahce_item_data \<Rightarrow> property_state \<Rightarrow> property_state" where
  "set_item i item s = s\<lparr>globle_property_cache := (globle_property_cache s)[i := item]\<rparr>"

definition get_property_cache :: "(property_state \<Rightarrow> nat \<Rightarrow> bool) \<Rightarrow> u8 list \<Rightarrow> nat \<Rightarrow> property_state \<Rightarrow> property_state \<times> nat option" where
  "get_property_cache malloc_ok name len s =
     (case find (\<lambda>i. \<not> used_flag (globle_property_cache s ! i)) [0..<MAX_NVRAM_ITEM_CACHE_NUM] of
        None \<Rightarrow> (s, None)
      | Some i \<Rightarrow>
          if \<not> malloc_ok s (length name + 1) then (s, None)
          else let item = (globle_property_cache s ! i)\<lparr>c_name := replicate (length name) 0\<rparr>;
                   s1 = set_item i item (s\<lparr>mem_blocks := mem_blocks s + 1\<rparr>)
               in if \<not> malloc_ok s1 len then (s1\<lparr>mem_blocks := mem_blocks s1 - 1\<rparr>, None)
                  else (set_item i (item\<lparr>c_data := replicate len 0\<rparr>) (s1\<lparr>mem_blocks := mem_blocks s1 + 1\<rparr>), Some i))"

definition put_property_cache :: "nat \<Rightarrow> property_state \<Rightarrow> property_state" where
  "put_property_cache i s =
     (set_item i \<lparr>c_name = [], c_data = [], data_len = 0, used_flag = False, flush_req = False\<rparr> s)\<lparr>mem_blocks := mem_blocks s - 2\<rparr>"

definition property_cache_get :: "u8 list \<Rightarrow> nat \<Rightarrow> property_state \<Rightarrow> (int + u8 list) option" where
  "property_cache_get name len s =
     (case find_property_cache name s of
        Some i \<Rightarrow>
          let item = globle_property_cache s ! i
          in Some (Inr (take (if len < unat (data_len item) then len else unat (data_len item)) (c_data item)))
      | None \<Rightarrow> nvram_config_get name len (p_nvram s))"

definition property_cache_set :: "(property_state \<Rightarrow> nat \<Rightarrow> bool) \<Rightarrow> u8 list \<Rightarrow> u8 list \<Rightarrow> property_state \<Rightarrow> (property_state \<times> int) option" where
  "property_cache_set malloc_ok name data s =
     (case find_property_cache name s of
        Some i \<Rightarrow>
          let item = globle_property_cache s ! i
          in if unat (data_len item) = length data then Some (set_item i (item\<lparr>c_data := data\<rparr>) s, 0)
             else if \<not> malloc_ok s (length data) then None
             else Some (set_item i (item\<lparr>c_data := data, data_len := of_nat (length data)\<rparr>) s, 0)
      | None \<Rightarrow>
          (case get_property_cache malloc_ok name (length data) s of
             (s1, Some i) \<Rightarrow>
               Some (set_item i ((globle_property_cache s1 ! i)\<lparr>c_name := name, c_data := data, data_len := of_nat (length data), used_flag := True\<rparr>) s1, 0)
           | (s1, None) \<Rightarrow> do {
               (v, ret) \<leftarrow> nvram_config_set name data (p_nvram s1);
               Some (s1\<lparr>p_nvram := v\<rparr>, ret)
             }))"

text \<open>One pass of the loop of a flush: the item is written, and released when that succeeds.\<close>

definition write_back :: "nat \<Rightarrow> property_state \<Rightarrow> property_state option" where
  "write_back i s =
     (let item = globle_property_cache s ! i
      in do {
        (v, ret) \<leftarrow> nvram_config_set (c_name item) (take (unat (data_len item)) (c_data item)) (p_nvram s);
        Some (if ret = 0 then put_property_cache i (s\<lparr>p_nvram := v\<rparr>) else s\<lparr>p_nvram := v\<rparr>)
      })"

definition name_selects :: "u8 list option \<Rightarrow> cahce_item_data \<Rightarrow> bool" where
  "name_selects name item \<longleftrightarrow> used_flag item \<and> (case name of None \<Rightarrow> True | Some n \<Rightarrow> name_matches n item)"

fun flush_items :: "u8 list option \<Rightarrow> nat list \<Rightarrow> property_state \<Rightarrow> property_state option" where
  "flush_items name [] s = Some s"
| "flush_items name (i # is) s =
     (if name_selects name (globle_property_cache s ! i)
      then do { s1 \<leftarrow> write_back i s; flush_items name is s1 }
      else flush_items name is s)"

definition property_cache_flush :: "u8 list option \<Rightarrow> property_state \<Rightarrow> (property_state \<times> int) option" where
  "property_cache_flush name s = do { s1 \<leftarrow> flush_items name [0..<MAX_NVRAM_ITEM_CACHE_NUM] s; Some (s1, 0) }"

definition property_cache_flush_req :: "u8 list option \<Rightarrow> property_state \<Rightarrow> property_state \<times> int" where
  "property_cache_flush_req name s =
     (let real_req = (\<exists>item \<in> set (globle_property_cache s). name_selects name item);
          s1 = s\<lparr>globle_property_cache := map (\<lambda>item. if name_selects name item then item\<lparr>flush_req := True\<rparr> else item) (globle_property_cache s)\<rparr>
      in (if real_req then s1\<lparr>global_cache_need_flush := True\<rparr> else s1, 0))"

fun deal_items :: "nat list \<Rightarrow> property_state \<Rightarrow> property_state option" where
  "deal_items [] s = Some s"
| "deal_items (i # is) s =
     (let item = globle_property_cache s ! i
      in if used_flag item \<and> flush_req item
         then do { s1 \<leftarrow> write_back i s; deal_items is (set_item i ((globle_property_cache s1 ! i)\<lparr>flush_req := False\<rparr>) s1) }
         else deal_items is s)"

definition property_cache_flush_req_deal :: "property_state \<Rightarrow> (property_state \<times> int) option" where
  "property_cache_flush_req_deal s =
     do { s1 \<leftarrow> deal_items [0..<MAX_NVRAM_ITEM_CACHE_NUM] s; Some (s1\<lparr>global_cache_need_flush := False\<rparr>, 0) }"

definition property_cache_init :: "property_state \<Rightarrow> property_state" where
  "property_cache_init s =
     s\<lparr>globle_property_cache := replicate MAX_NVRAM_ITEM_CACHE_NUM \<lparr>c_name = [], c_data = [], data_len = 0, used_flag = False, flush_req = False\<rparr>,
       global_cache_need_flush := False\<rparr>"

section \<open>The interface\<close>

definition property_get :: "u8 list \<Rightarrow> nat \<Rightarrow> property_state \<Rightarrow> (int + u8 list) option" where
  "property_get key value_len s = property_cache_get key value_len s"

definition property_set :: "(property_state \<Rightarrow> nat \<Rightarrow> bool) \<Rightarrow> u8 list \<Rightarrow> u8 list \<Rightarrow> property_state \<Rightarrow> (property_state \<times> int) option" where
  "property_set malloc_ok key value s = property_cache_set malloc_ok key value s"

definition property_set_factory :: "u8 list \<Rightarrow> u8 list \<Rightarrow> property_state \<Rightarrow> (property_state \<times> int) option" where
  "property_set_factory key value s =
     do { (v, ret) \<leftarrow> nvram_config_set_factory key value (p_nvram s); Some (s\<lparr>p_nvram := v\<rparr>, ret) }"

definition property_flush :: "u8 list option \<Rightarrow> property_state \<Rightarrow> (property_state \<times> int) option" where
  "property_flush key s = do { (s1, _) \<leftarrow> property_cache_flush key s; Some (s1, 0) }"

definition property_flush_req :: "u8 list option \<Rightarrow> property_state \<Rightarrow> property_state \<times> int" where
  "property_flush_req key s = (fst (property_cache_flush_req key s), 0)"

definition property_flush_req_deal :: "property_state \<Rightarrow> (property_state \<times> int) option" where
  "property_flush_req_deal s = do { (s1, _) \<leftarrow> property_cache_flush_req_deal s; Some (s1, 0) }"

definition property_manager_init :: "property_state \<Rightarrow> property_state \<times> int" where
  "property_manager_init s = (property_cache_init s, 0)"

text \<open>\<open>atoi\<close> of the C library of the kernel; \<open>None\<close> when it reads past the end of the array or the number overflows.\<close>

definition isspace :: "u8 \<Rightarrow> bool" where
  "isspace c \<longleftrightarrow> c = 0x20 \<or> c - 9 < 5"

definition isdigit :: "u8 \<Rightarrow> bool" where
  "isdigit c \<longleftrightarrow> c - 0x30 < 10"

definition int_ok :: "int \<Rightarrow> bool" where
  "int_ok v \<longleftrightarrow> - (2 ^ 31) \<le> v \<and> v < 2 ^ 31"

fun atoi_digits :: "u8 list \<Rightarrow> int \<Rightarrow> int option" where
  "atoi_digits [] n = None"
| "atoi_digits (c # cs) n =
     (if isdigit c
      then let n1 = 10 * n - int (unat (c - 0x30)) in if int_ok n1 then atoi_digits cs n1 else None
      else Some n)"

definition atoi :: "u8 list \<Rightarrow> int option" where
  "atoi s =
     (case dropWhile isspace s of
        [] \<Rightarrow> None
      | c # cs \<Rightarrow>
          if c = 0x2d then atoi_digits cs 0
          else do {
            n \<leftarrow> atoi_digits (if c = 0x2b then cs else c # cs) 0;
            if int_ok (- n) then Some (- n) else None
          })"

text \<open>The digits of \<open>%d\<close>.\<close>

fun decimal :: "nat \<Rightarrow> u8 list" where
  "decimal n = (if n < 10 then [] else decimal (n div 10)) @ [0x30 + of_nat (n mod 10)]"

declare decimal.simps [simp del]

definition print_int :: "int \<Rightarrow> u8 list" where
  "print_int v = (if v < 0 then 0x2d # decimal (nat (- v)) else decimal (nat v))"

text \<open>\<open>snprintf(&temp_data[off], sizeof(temp_data) - off, ...)\<close> of a text into 16 bytes. With an offset beyond 16 the size
  wraps around and the text is written past the array.\<close>

definition snprintf_at :: "u8 list \<Rightarrow> nat \<Rightarrow> u8 list \<Rightarrow> (u8 list \<times> nat) option" where
  "snprintf_at temp off txt =
     (if length temp < off then None
      else let room = length temp - off; w = (if room = 0 then [] else take (room - 1) txt @ [0])
           in Some (take off temp @ w @ drop (off + length w) temp, off + length txt))"

definition property_get_int :: "u8 list \<Rightarrow> int \<Rightarrow> property_state \<Rightarrow> int option" where
  "property_get_int key default_value s =
     do {
       r \<leftarrow> property_get key 16 s;
       case r of
         Inr d \<Rightarrow> if d = [] then Some default_value else atoi (d @ replicate (16 - length d) 0)
       | Inl _ \<Rightarrow> Some default_value
     }"

definition property_set_int :: "(property_state \<Rightarrow> nat \<Rightarrow> bool) \<Rightarrow> u8 list \<Rightarrow> int \<Rightarrow> property_state \<Rightarrow> (property_state \<times> int) option" where
  "property_set_int malloc_ok key value s =
     do {
       (temp, _) \<leftarrow> snprintf_at (replicate 16 0) 0 (print_int value);
       (s1, ret) \<leftarrow> property_set malloc_ok key (takeWhile (\<lambda>c. c \<noteq> 0) temp) s;
       Some (s1, if ret = 0 then - EACCES else 0)
     }"

text \<open>The loop of the setters of arrays: a comma before the first value only.\<close>

fun print_values :: "int list \<Rightarrow> u8 list \<Rightarrow> nat \<Rightarrow> u8 list option" where
  "print_values [] temp off = Some temp"
| "print_values (v # vs) temp off =
     do {
       (temp, off) \<leftarrow> (if off = 0 then snprintf_at temp off [0x2c] else Some (temp, off));
       (temp, off) \<leftarrow> snprintf_at temp off (print_int v);
       print_values vs temp off
     }"

definition property_set_int_array :: "(property_state \<Rightarrow> nat \<Rightarrow> bool) \<Rightarrow> u8 list \<Rightarrow> int list \<Rightarrow> property_state \<Rightarrow> (property_state \<times> int) option" where
  "property_set_int_array malloc_ok key values s =
     do {
       temp \<leftarrow> print_values values (replicate 16 0) 0;
       (s1, ret) \<leftarrow> property_set malloc_ok key temp s;
       Some (s1, if ret = 0 then - EACCES else 0)
     }"

definition property_set_byte_array :: "(property_state \<Rightarrow> nat \<Rightarrow> bool) \<Rightarrow> u8 list \<Rightarrow> u8 list \<Rightarrow> property_state \<Rightarrow> (property_state \<times> int) option" where
  "property_set_byte_array malloc_ok key values s =
     do {
       temp \<leftarrow> print_values (map (int \<circ> unat) values) (replicate 16 0) 0;
       (s1, ret) \<leftarrow> property_set malloc_ok key temp s;
       Some (s1, if ret = 0 then - EACCES else 0)
     }"

text \<open>\<open>char2hex\<close> and \<open>hex2bin\<close> of the kernel: the conversion stops at the first character that is no hexadecimal digit and leaves the
  rest of the buffer as it is.\<close>

definition char2hex :: "u8 \<Rightarrow> u8 option" where
  "char2hex c =
     (if 0x30 \<le> c \<and> c \<le> 0x39 then Some (c - 0x30)
      else if 0x61 \<le> c \<and> c \<le> 0x66 then Some (c - 0x61 + 10)
      else if 0x41 \<le> c \<and> c \<le> 0x46 then Some (c - 0x41 + 10)
      else None)"

fun hex_pairs :: "u8 list \<Rightarrow> u8 list \<Rightarrow> u8 list" where
  "hex_pairs (a # b # hex) (x # buf) =
     (case char2hex a of
        None \<Rightarrow> x # buf
      | Some hi \<Rightarrow> (case char2hex b of
          None \<Rightarrow> push_bit 4 hi # buf
        | Some lo \<Rightarrow> (push_bit 4 hi + lo) # hex_pairs hex buf))"
| "hex_pairs hex buf = buf"

definition hex2bin :: "u8 list \<Rightarrow> u8 list \<Rightarrow> u8 list" where
  "hex2bin hex buf =
     (let hexlen = length hex
      in if length buf < hexlen div 2 + hexlen mod 2 then buf
         else if hexlen mod 2 = 1
         then (case char2hex (hd hex) of None \<Rightarrow> buf | Some dec \<Rightarrow> dec # hex_pairs (tl hex) (tl buf))
         else hex_pairs hex buf)"

definition property_get_byte_array :: "u8 list \<Rightarrow> u8 list \<Rightarrow> u8 list \<Rightarrow> property_state \<Rightarrow> (u8 list \<times> int) option" where
  "property_get_byte_array key value default_value s =
     do {
       r \<leftarrow> property_get key 16 s;
       case r of
         Inr d \<Rightarrow> Some (if d = [] then take (length value) default_value else hex2bin (take (length value * 2) d) value, 0)
       | Inl _ \<Rightarrow> Some (take (length value) default_value, 0)
     }"

text \<open>The loop over the text runs while its pointer is null, which it never is: the values are left as they are. The default
  values are copied as \<open>value_len\<close> bytes; arrays are given as bytes.\<close>

definition property_get_int_array :: "u8 list \<Rightarrow> u8 list \<Rightarrow> nat \<Rightarrow> u8 list \<Rightarrow> property_state \<Rightarrow> (u8 list \<times> int) option" where
  "property_get_int_array key value value_len default_value s =
     do {
       r \<leftarrow> property_get key 16 s;
       case r of
         Inr d \<Rightarrow> Some (if d = [] then take value_len default_value @ drop value_len value else value, 0)
       | Inl _ \<Rightarrow> Some (take value_len default_value @ drop value_len value, 0)
     }"

end
