(* ===== verification/Slot_Table.thy ===== *)
theory Slot_Table
  imports Main
begin

text \<open>
  Tables of slots, as the firmware keeps them in arrays: each slot is in use or free, the slots in use have a key and a value, and no
  two of them have the same key. Such a table is a map; changing, taking and releasing a slot are updates of the map.
\<close>

definition slot_keys :: "('c \<Rightarrow> bool) \<Rightarrow> ('c \<Rightarrow> 'k) \<Rightarrow> 'c list \<Rightarrow> 'k list" where
  "slot_keys used key cs = map key (filter used cs)"

definition slot_map :: "('c \<Rightarrow> bool) \<Rightarrow> ('c \<Rightarrow> 'k) \<Rightarrow> ('c \<Rightarrow> 'v) \<Rightarrow> 'c list \<Rightarrow> 'k \<rightharpoonup> 'v" where
  "slot_map used key val cs = map_of (map (\<lambda>c. (key c, val c)) (filter used cs))"

lemma slot_dom: "dom (slot_map used key val cs) = set (slot_keys used key cs)"
  by (auto simp: slot_map_def slot_keys_def dom_map_of_conv_image_fst image_image)

lemma slot_None: "n \<notin> set (slot_keys used key cs) \<Longrightarrow> slot_map used key val cs n = None"
  using slot_dom [of used key val cs] by blast

lemma slot_split:
  assumes "i < length cs"
  shows "slot_keys used key cs = slot_keys used key (take i cs) @ slot_keys used key [cs ! i] @ slot_keys used key (drop (Suc i) cs)"
    and "slot_keys used key (cs[i := c]) = slot_keys used key (take i cs) @ slot_keys used key [c] @ slot_keys used key (drop (Suc i) cs)"
    and "slot_map used key val cs = slot_map used key val (drop (Suc i) cs) ++ slot_map used key val [cs ! i] ++ slot_map used key val (take i cs)"
    and "slot_map used key val (cs[i := c]) = slot_map used key val (drop (Suc i) cs) ++ slot_map used key val [c] ++ slot_map used key val (take i cs)"
proof -
  have a: "slot_keys used key (xs @ y # ys) = slot_keys used key xs @ slot_keys used key [y] @ slot_keys used key ys"
      "slot_map used key val (xs @ y # ys) = slot_map used key val ys ++ slot_map used key val [y] ++ slot_map used key val xs" for xs y ys
    by (simp_all add: slot_keys_def slot_map_def map_add_upd_left)
  note u = upd_conv_take_nth_drop [OF assms, of c]
  show "slot_keys used key cs = slot_keys used key (take i cs) @ slot_keys used key [cs ! i] @ slot_keys used key (drop (Suc i) cs)"
      "slot_map used key val cs = slot_map used key val (drop (Suc i) cs) ++ slot_map used key val [cs ! i] ++ slot_map used key val (take i cs)"
    using a id_take_nth_drop [OF assms] by metis+
  show "slot_keys used key (cs[i := c]) = slot_keys used key (take i cs) @ slot_keys used key [c] @ slot_keys used key (drop (Suc i) cs)"
      "slot_map used key val (cs[i := c]) = slot_map used key val (drop (Suc i) cs) ++ slot_map used key val [c] ++ slot_map used key val (take i cs)"
    unfolding u by (rule a)+
qed

lemma slot_used: "used c \<Longrightarrow> slot_keys used key [c] = [key c]" "used c \<Longrightarrow> slot_map used key val [c] = [key c \<mapsto> val c]"
  and slot_free: "\<not> used c \<Longrightarrow> slot_keys used key [c] = []" "\<not> used c \<Longrightarrow> slot_map used key val [c] = Map.empty"
  by (simp_all add: slot_keys_def slot_map_def)

lemma slot_change:
  assumes "i < length cs" "distinct (slot_keys used key cs)" "used (cs ! i)" "used c" "key c = key (cs ! i)"
  shows "slot_map used key val (cs[i := c]) = (slot_map used key val cs)(key c \<mapsto> val c) \<and> slot_keys used key (cs[i := c]) = slot_keys used key cs"
proof -
  have "key c \<notin> set (slot_keys used key (take i cs))" using assms(2,5) slot_used(1) [of used "cs ! i" key] assms(3)
    by (auto simp: slot_split(1) [OF assms(1)])
  then have n: "slot_map used key val (take i cs) (key c) = None" by (rule slot_None)
  have "slot_map used key val (cs[i := c]) x = ((slot_map used key val cs)(key c \<mapsto> val c)) x" for x
    using n slot_used(2) [of used "cs ! i" key val, OF assms(3)] slot_used(2) [of used c key val, OF assms(4)]
    by (cases "x = key c") (simp_all add: slot_split(3,4) [OF assms(1)] map_add_def assms(5) split: option.splits)
  moreover have "slot_keys used key (cs[i := c]) = slot_keys used key cs"
    using slot_used(1) [of used "cs ! i" key, OF assms(3)] slot_used(1) [of used c key, OF assms(4)]
    by (simp add: slot_split(1,2) [OF assms(1)] assms(5))
  ultimately show ?thesis by blast
qed

lemma slot_take:
  assumes "i < length cs" "distinct (slot_keys used key cs)" "\<not> used (cs ! i)" "used c" "key c \<notin> set (slot_keys used key cs)"
  shows "slot_map used key val (cs[i := c]) = (slot_map used key val cs)(key c \<mapsto> val c) \<and> distinct (slot_keys used key (cs[i := c])) \<and>
    set (slot_keys used key (cs[i := c])) = insert (key c) (set (slot_keys used key cs)) \<and>
    length (slot_keys used key (cs[i := c])) = length (slot_keys used key cs) + 1"
proof -
  have k: "slot_keys used key [cs ! i] = []" "slot_keys used key [c] = [key c]" "slot_map used key val [cs ! i] = Map.empty" "slot_map used key val [c] = [key c \<mapsto> val c]"
    using slot_free [of used "cs ! i" key] slot_used [of used c key] assms(3,4) by simp_all
  have n: "slot_map used key val (take i cs) (key c) = None"
    using assms(5) by (intro slot_None) (auto simp: slot_split(1) [OF assms(1)])
  have "slot_map used key val (cs[i := c]) x = ((slot_map used key val cs)(key c \<mapsto> val c)) x" for x
    using n by (cases "x = key c") (simp_all add: slot_split(3,4) [OF assms(1)] k map_add_def split: option.splits)
  moreover have "distinct (slot_keys used key (cs[i := c]))" "set (slot_keys used key (cs[i := c])) = insert (key c) (set (slot_keys used key cs))"
      "length (slot_keys used key (cs[i := c])) = length (slot_keys used key cs) + 1"
    using assms(2,5) by (auto simp: slot_split(1,2) [OF assms(1)] k)
  ultimately show ?thesis by blast
qed

lemma slot_release:
  assumes "i < length cs" "distinct (slot_keys used key cs)" "used (cs ! i)" "\<not> used c"
  shows "slot_map used key val (cs[i := c]) = (slot_map used key val cs)(key (cs ! i) := None) \<and> distinct (slot_keys used key (cs[i := c])) \<and>
    set (slot_keys used key (cs[i := c])) \<subseteq> set (slot_keys used key cs) \<and> length (slot_keys used key cs) = length (slot_keys used key (cs[i := c])) + 1"
proof -
  have k: "slot_keys used key [cs ! i] = [key (cs ! i)]" "slot_keys used key [c] = []" "slot_map used key val [cs ! i] = [key (cs ! i) \<mapsto> val (cs ! i)]"
      "slot_map used key val [c] = Map.empty"
    using slot_free [of used c key] slot_used [of used "cs ! i" key] assms(3,4) by simp_all
  have n: "slot_map used key val (take i cs) (key (cs ! i)) = None" "slot_map used key val (drop (Suc i) cs) (key (cs ! i)) = None"
    using assms(2) by (auto simp: slot_split(1) [OF assms(1)] k intro!: slot_None)
  have "slot_map used key val (cs[i := c]) x = ((slot_map used key val cs)(key (cs ! i) := None)) x" for x
    using n by (cases "x = key (cs ! i)") (simp_all add: slot_split(3,4) [OF assms(1)] k map_add_def split: option.splits)
  moreover have "distinct (slot_keys used key (cs[i := c]))" "set (slot_keys used key (cs[i := c])) \<subseteq> set (slot_keys used key cs)"
      "length (slot_keys used key cs) = length (slot_keys used key (cs[i := c])) + 1"
    using assms(2) by (auto simp: slot_split(1,2) [OF assms(1)] k)
  ultimately show ?thesis by blast
qed

lemma slot_idle:
  assumes "i < length cs" "\<not> used (cs ! i)" "\<not> used c"
  shows "slot_map used key val (cs[i := c]) = slot_map used key val cs" "slot_keys used key (cs[i := c]) = slot_keys used key cs"
proof -
  show "slot_map used key val (cs[i := c]) = slot_map used key val cs"
    unfolding slot_split(3,4) [OF assms(1)] slot_free(2) [of used "cs ! i", OF assms(2)] slot_free(2) [of used c, OF assms(3)] by (rule refl)
  show "slot_keys used key (cs[i := c]) = slot_keys used key cs"
    unfolding slot_split(2) [OF assms(1)] slot_split(1) [OF assms(1), of used key] slot_free(1) [of used "cs ! i", OF assms(2)] slot_free(1) [of used c, OF assms(3)] by (rule refl)
qed

lemma slot_nth:
  assumes "i < length cs" "distinct (slot_keys used key cs)" "used (cs ! i)"
  shows "slot_map used key val cs (key (cs ! i)) = Some (val (cs ! i))"
proof -
  have "slot_map used key val (cs[i := cs ! i]) = (slot_map used key val cs)(key (cs ! i) \<mapsto> val (cs ! i))"
    using slot_change [OF assms assms(3) refl] by blast
  then show ?thesis by (metis list_update_id fun_upd_same)
qed

end
