(* ===== verification/Property_Store.thy ===== *)
theory Property_Store
  imports Property_Cache Slot_Table
begin

text \<open>
  Correctness of the properties: the cache as a map from names to values that lies over the configuration store, and the two
  together as one store of named values. The names in use form a table: a finite set of names, none of which begins
  with another one, with the largest size of the value of each; the values of all names fit into one segment of the flash.
\<close>

section \<open>The cache as a map\<close>

definition names :: "cahce_item_data list \<Rightarrow> u8 list list" where
  "names cs = slot_keys used_flag c_name cs"

definition cached :: "cahce_item_data list \<Rightarrow> u8 list \<rightharpoonup> u8 list" where
  "cached cs = slot_map used_flag c_name c_data cs"

lemmas cached_dom = slot_dom [of "used_flag :: cahce_item_data \<Rightarrow> bool" c_name c_data, folded names_def cached_def]
  and cached_None = slot_None [of _ "used_flag :: cahce_item_data \<Rightarrow> bool" c_name _ c_data, folded names_def cached_def]
  and cached_change = slot_change [where used = "used_flag :: cahce_item_data \<Rightarrow> bool" and key = c_name and val = c_data, folded names_def cached_def]
  and cached_take = slot_take [where used = "used_flag :: cahce_item_data \<Rightarrow> bool" and key = c_name and val = c_data, folded names_def cached_def]
  and cached_release = slot_release [where used = "used_flag :: cahce_item_data \<Rightarrow> bool" and key = c_name and val = c_data, folded names_def cached_def]
  and cached_idle = slot_idle(1) [where used = "used_flag :: cahce_item_data \<Rightarrow> bool" and key = c_name and val = c_data, folded cached_def]
    slot_idle(2) [where used = "used_flag :: cahce_item_data \<Rightarrow> bool" and key = c_name, folded names_def]
  and cached_nth = slot_nth [where used = "used_flag :: cahce_item_data \<Rightarrow> bool" and key = c_name and val = c_data, folded names_def cached_def]

section \<open>Tables of names\<close>

definition prefix_free :: "u8 list set \<Rightarrow> bool" where
  "prefix_free N \<longleftrightarrow> (\<forall>a\<in>N. \<forall>b\<in>N. take (length a) b = a \<longrightarrow> a = b)"

definition space :: "u8 list \<Rightarrow> nat \<Rightarrow> nat" where
  "space n k = item_calc_aligned_size (length n + 1) k"

definition table :: "u8 list set \<Rightarrow> (u8 list \<Rightarrow> nat) \<Rightarrow> bool" where
  "table N B \<longleftrightarrow> finite N \<and> prefix_free N \<and>
     (\<forall>n\<in>N. good_name n \<and> B n \<le> NVRAM_MAX_DATA_SIZE \<and> (\<Sum>m\<in>N. space m (B m)) + space n (B n) \<le> 4080)"

definition user_ok :: "u8 list set \<Rightarrow> (u8 list \<Rightarrow> nat) \<Rightarrow> (u8 list \<rightharpoonup> u8 list) \<Rightarrow> bool" where
  "user_ok N B U \<longleftrightarrow> (\<forall>n v. U n = Some v \<longrightarrow> n \<in> N \<and> length v \<le> B n)"

definition slot_ok :: "u8 list set \<Rightarrow> (u8 list \<Rightarrow> nat) \<Rightarrow> cahce_item_data \<Rightarrow> bool" where
  "slot_ok N B c \<longleftrightarrow> (used_flag c \<longrightarrow> c_name c \<in> N \<and> length (c_data c) \<le> B (c_name c) \<and> length (c_data c) = unat (data_len c))"

definition cache_ok :: "u8 list set \<Rightarrow> (u8 list \<Rightarrow> nat) \<Rightarrow> property_state \<Rightarrow> bool" where
  "cache_ok N B s \<longleftrightarrow> length (globle_property_cache s) = MAX_NVRAM_ITEM_CACHE_NUM \<and> list_all (slot_ok N B) (globle_property_cache s) \<and>
     distinct (names (globle_property_cache s)) \<and> mem_blocks s = 2 * length (names (globle_property_cache s))"

definition prop_rep :: "u8 list set \<Rightarrow> (u8 list \<Rightarrow> nat) \<Rightarrow> property_state \<Rightarrow> (u8 list \<rightharpoonup> u8 list) \<Rightarrow> (u8 list \<rightharpoonup> u8 list) \<Rightarrow> (u8 list \<rightharpoonup> u8 list) \<Rightarrow> bool" where
  "prop_rep N B s U W F \<longleftrightarrow> cache_ok N B s \<and> nvram_holds (p_nvram s) U W F \<and> user_ok N B U"

definition prop_map :: "(u8 list \<rightharpoonup> u8 list) \<Rightarrow> property_state \<Rightarrow> u8 list \<rightharpoonup> u8 list" where
  "prop_map U s n = (case cached (globle_property_cache s) n of Some d \<Rightarrow> if d = [] then None else Some d | None \<Rightarrow> U n)"

lemma space_mono: "j \<le> k \<Longrightarrow> space n j \<le> space n k"
  by (simp add: space_def item_calc_aligned_size_def item_calc_real_size_def ROUND_UP_def div_le_mono)

lemma space_item: "item_space n v = space n (length v)"
  by (simp add: item_space_def space_def)

lemma table_fits:
  assumes "table N B" "user_ok N B U" "name \<in> N" "data \<noteq> []" "length data \<le> B name"
  shows "store_fits U name data"
proof -
  have sub: "dom U \<subseteq> N" using assms(2) by (auto simp: user_ok_def)
  have "store_size U \<le> (\<Sum>m\<in>dom U. space m (B m))"
    unfolding store_size_def space_item using assms(2) by (intro sum_mono space_mono) (auto simp: user_ok_def)
  also have "\<dots> \<le> (\<Sum>m\<in>N. space m (B m))" using sub assms(1) by (intro sum_mono2) (auto simp: table_def)
  finally have "store_size U + item_space name data \<le> 4080"
    using assms(1,3) space_mono [OF assms(5), of name] by (fastforce simp: table_def space_item)
  then show ?thesis using assms by (auto simp: store_fits_def good_data_def table_def)
qed

lemma user_ok_upd: "user_ok N B U \<Longrightarrow> name \<in> N \<Longrightarrow> length data \<le> B name \<Longrightarrow> user_ok N B (U(name \<mapsto> data))"
  and user_ok_del: "user_ok N B U \<Longrightarrow> user_ok N B (U(name := None))"
  by (auto simp: user_ok_def)

section \<open>Searching the cache\<close>

lemma name_matches_iff: "0 \<notin> set name \<Longrightarrow> name_matches name item \<longleftrightarrow> take (length name) (c_name item) = name"
proof (cases "length name \<le> length (c_name item)")
  case False
  assume z: "0 \<notin> set name"
  have "take (length name) (c_name item @ [0]) = c_name item @ [0]" using False by simp
  moreover have "c_name item @ [0] \<noteq> name" using z by auto
  moreover have "take (length name) (c_name item) \<noteq> name" using False by (metis length_take min.absorb_iff2 nat_le_linear)
  ultimately show ?thesis by (simp add: name_matches_def)
qed (simp add: name_matches_def)

lemma cache_okD:
  assumes "cache_ok N B s" "i < MAX_NVRAM_ITEM_CACHE_NUM"
  shows "i < length (globle_property_cache s)" "distinct (names (globle_property_cache s))" "slot_ok N B (globle_property_cache s ! i)"
    "length (globle_property_cache s) = MAX_NVRAM_ITEM_CACHE_NUM"
  using assms by (auto simp: cache_ok_def list_all_length)

lemma names_mem:
  assumes "cache_ok N B s"
  shows "name \<in> set (names (globle_property_cache s)) \<longleftrightarrow>
    (\<exists>i < MAX_NVRAM_ITEM_CACHE_NUM. used_flag (globle_property_cache s ! i) \<and> c_name (globle_property_cache s ! i) = name)"
  using assms by (auto simp: names_def slot_keys_def cache_ok_def in_set_conv_nth)

lemma find_cases:
  assumes "table N B" "cache_ok N B s" "name \<in> N"
  shows "find_property_cache name s = None \<Longrightarrow> cached (globle_property_cache s) name = None"
    and "find_property_cache name s = Some i \<Longrightarrow> i < MAX_NVRAM_ITEM_CACHE_NUM \<and> used_flag (globle_property_cache s ! i) \<and>
      c_name (globle_property_cache s ! i) = name \<and> cached (globle_property_cache s) name = Some (c_data (globle_property_cache s ! i))"
proof -
  have z: "0 \<notin> set name" "\<And>b. b \<in> N \<Longrightarrow> take (length name) b = name \<Longrightarrow> name = b"
    using assms(1,3) unfolding table_def good_name_def prefix_free_def by blast+
  have m: "name_matches name (globle_property_cache s ! i) \<longleftrightarrow> c_name (globle_property_cache s ! i) = name"
    if "i < MAX_NVRAM_ITEM_CACHE_NUM" "used_flag (globle_property_cache s ! i)" for i
  proof -
    have "c_name (globle_property_cache s ! i) \<in> N" using cache_okD(3) [OF assms(2) that(1)] that(2) by (simp add: slot_ok_def)
    then have "take (length name) (c_name (globle_property_cache s ! i)) = name \<Longrightarrow> name = c_name (globle_property_cache s ! i)" by (rule z(2))
    then show ?thesis unfolding name_matches_iff [OF z(1)] by fastforce
  qed
  show "cached (globle_property_cache s) name = None" if "find_property_cache name s = None"
  proof (rule cached_None, rule notI)
    assume "name \<in> set (names (globle_property_cache s))"
    then obtain i where "i < MAX_NVRAM_ITEM_CACHE_NUM" "used_flag (globle_property_cache s ! i)" "c_name (globle_property_cache s ! i) = name"
      using names_mem [OF assms(2)] by blast
    then have "i \<in> set [0..<MAX_NVRAM_ITEM_CACHE_NUM]" "name_matches name (globle_property_cache s ! i)" "used_flag (globle_property_cache s ! i)"
      using m by (simp_all del: upt_conv_Cons)
    then show False using that unfolding find_property_cache_def find_None_iff by blast
  qed
  show "i < MAX_NVRAM_ITEM_CACHE_NUM \<and> used_flag (globle_property_cache s ! i) \<and>
      c_name (globle_property_cache s ! i) = name \<and> cached (globle_property_cache s) name = Some (c_data (globle_property_cache s ! i))"
    if "find_property_cache name s = Some i"
  proof -
    have i: "i < MAX_NVRAM_ITEM_CACHE_NUM" "used_flag (globle_property_cache s ! i)" "name_matches name (globle_property_cache s ! i)"
      using that unfolding find_property_cache_def find_Some_iff by (auto simp: nth_upt simp del: upt_conv_Cons)
    then show ?thesis using m cached_nth [OF cache_okD(1,2) [OF assms(2) i(1)] i(2)] by auto
  qed
qed

lemma property_get_eq:
  assumes "table N B" "prop_rep N B s U W F" "name \<in> N" "0 < len"
  shows "property_get name len s = Some (case cached (globle_property_cache s) name of Some d \<Rightarrow> Inr (take len d)
    | None \<Rightarrow> (case nvram_find U W F name of None \<Rightarrow> Inl (- ENOENT) | Some v \<Rightarrow> Inr (take len v)))"
proof -
  have c: "cache_ok N B s" "nvram_holds (p_nvram s) U W F" using assms(2) by (auto simp: prop_rep_def)
  have z: "0 \<notin> set name" using assms(1,3) by (auto simp: table_def good_name_def)
  show ?thesis
  proof (cases "find_property_cache name s")
    case None
    then show ?thesis using find_cases(1) [OF assms(1) c(1) assms(3) None] config_get [OF c(2) z assms(4)]
      by (simp add: property_get_def property_cache_get_def)
  next
    case (Some i)
    note f = find_cases(2) [OF assms(1) c(1) assms(3) Some]
    then have "length (c_data (globle_property_cache s ! i)) = unat (data_len (globle_property_cache s ! i))"
      using cache_okD(3) [OF c(1), of i] by (auto simp: slot_ok_def)
    then show ?thesis using f Some by (simp add: property_get_def property_cache_get_def Let_def)
  qed
qed

section \<open>Setting a property\<close>

lemma set_item_simps [simp]: "globle_property_cache (set_item i c s) = (globle_property_cache s)[i := c]" "p_nvram (set_item i c s) = p_nvram s"
    "mem_blocks (set_item i c s) = mem_blocks s" "global_cache_need_flush (set_item i c s) = global_cache_need_flush s"
  by (simp_all add: set_item_def)

lemma slots_upd: "list_all (slot_ok N B) cs \<Longrightarrow> slot_ok N B c \<Longrightarrow> list_all (slot_ok N B) (cs[i := c])"
  using set_update_subset_insert [of cs i c] by (auto simp: list_all_iff)

lemma len16: "n \<le> NVRAM_MAX_DATA_SIZE \<Longrightarrow> unat (of_nat n :: u16) = n"
  by (simp add: unat_of_nat)

lemma get_item_cases:
  assumes "cache_ok N B s" "get_property_cache malloc_ok name len s = (s1, r)"
  shows "(r = None \<and> cache_ok N B s1 \<and> cached (globle_property_cache s1) = cached (globle_property_cache s) \<and> p_nvram s1 = p_nvram s) \<or>
    (\<exists>i c. r = Some i \<and> i < MAX_NVRAM_ITEM_CACHE_NUM \<and> \<not> used_flag (globle_property_cache s ! i) \<and> \<not> used_flag c \<and>
      s1 = set_item i c s\<lparr>mem_blocks := mem_blocks s + 2\<rparr>)"
proof (cases "find (\<lambda>i. \<not> used_flag (globle_property_cache s ! i)) [0..<MAX_NVRAM_ITEM_CACHE_NUM]")
  case None
  then show ?thesis using assms by (simp add: get_property_cache_def del: upt_conv_Cons)
next
  case (Some i)
  then have i: "i < MAX_NVRAM_ITEM_CACHE_NUM" "\<not> used_flag (globle_property_cache s ! i)" unfolding find_Some_iff by (auto simp del: upt_conv_Cons)
  note d = cache_okD [OF assms(1) i(1)]
  let ?c = "(globle_property_cache s ! i)\<lparr>c_name := replicate (length name) 0\<rparr>"
  have "cache_ok N B (set_item i ?c s)" "cached ((globle_property_cache s)[i := ?c]) = cached (globle_property_cache s)"
    using assms(1) i(2) cached_idle [OF d(1) i(2), of ?c] by (auto simp: cache_ok_def slot_ok_def intro: slots_upd)
  then have fail: "cache_ok N B (set_item i ?c s)" "cached (globle_property_cache (set_item i ?c s)) = cached (globle_property_cache s)" by simp_all
  consider "\<not> malloc_ok s (length name + 1)" | "malloc_ok s (length name + 1)" "\<not> malloc_ok (set_item i ?c (s\<lparr>mem_blocks := mem_blocks s + 1\<rparr>)) len"
    | "malloc_ok s (length name + 1)" "malloc_ok (set_item i ?c (s\<lparr>mem_blocks := mem_blocks s + 1\<rparr>)) len" by blast
  then show ?thesis
  proof cases
    case 1
    then show ?thesis using assms Some by (auto simp: get_property_cache_def simp del: upt_conv_Cons)
  next
    case 2
    then have "r = None" "s1 = set_item i ?c s" using assms(2) Some by (auto simp: get_property_cache_def Let_def set_item_def simp del: upt_conv_Cons)
    then show ?thesis using fail by simp
  next
    case 3
    then have "r = Some i" "s1 = set_item i (?c\<lparr>c_data := replicate len 0\<rparr>) s\<lparr>mem_blocks := mem_blocks s + 2\<rparr>"
      using assms(2) Some by (auto simp: get_property_cache_def Let_def set_item_def simp del: upt_conv_Cons)
    then show ?thesis using i by (intro disjI2 exI [of _ i] exI [of _ "?c\<lparr>c_data := replicate len 0\<rparr>"]) simp
  qed
qed

lemma cache_set_cases:
  assumes "table N B" "cache_ok N B s" "name \<in> N" "length data \<le> B name"
    and "\<And>d. cached (globle_property_cache s) name = Some d \<Longrightarrow> length d = length data \<or> malloc_ok s (length data)"
  shows "(\<exists>s'. property_set malloc_ok name data s = Some (s', 0) \<and> cache_ok N B s' \<and> p_nvram s' = p_nvram s \<and>
      cached (globle_property_cache s') = (cached (globle_property_cache s))(name \<mapsto> data)) \<or>
    (\<exists>s1. cache_ok N B s1 \<and> p_nvram s1 = p_nvram s \<and> cached (globle_property_cache s1) = cached (globle_property_cache s) \<and>
      cached (globle_property_cache s) name = None \<and>
      property_set malloc_ok name data s = do { (v, ret) \<leftarrow> nvram_config_set name data (p_nvram s); Some (s1\<lparr>p_nvram := v\<rparr>, ret) })"
proof (cases "find_property_cache name s")
  case (Some i)
  have b: "length data \<le> NVRAM_MAX_DATA_SIZE" using assms(1,3,4) by (fastforce simp: table_def)
  note f = find_cases(2) [OF assms(1-3) Some]
  let ?c = "(globle_property_cache s ! i)\<lparr>c_data := data, data_len := of_nat (length data)\<rparr>"
  note d = cache_okD [OF assms(2), of i]
  have eq: "property_set malloc_ok name data s = Some (set_item i ?c s, 0)"
  proof (cases "length data = unat (data_len (globle_property_cache s ! i))")
    case True
    then have "?c = (globle_property_cache s ! i)\<lparr>c_data := data\<rparr>" by simp
    then show ?thesis using True Some by (simp add: property_set_def property_cache_set_def Let_def)
  next
    case False
    then have "malloc_ok s (length data)" using assms(5) f d(3) by (auto simp: slot_ok_def)
    then show ?thesis using False Some by (simp add: property_set_def property_cache_set_def Let_def)
  qed
  have u: "cached ((globle_property_cache s)[i := ?c]) = (cached (globle_property_cache s))(name \<mapsto> data)"
      "names ((globle_property_cache s)[i := ?c]) = names (globle_property_cache s)"
    using cached_change [OF d(1,2), of ?c] f by auto
  have "slot_ok N B ?c" using f assms(3,4) len16 [OF b] by (auto simp: slot_ok_def)
  then have "cache_ok N B (set_item i ?c s)" using assms(2) u(2) by (auto simp: cache_ok_def intro: slots_upd)
  then show ?thesis using eq u(1) by (intro disjI1) auto
next
  case None
  have b: "length data \<le> NVRAM_MAX_DATA_SIZE" using assms(1,3,4) by (fastforce simp: table_def)
  note n = find_cases(1) [OF assms(1-3) None]
  obtain s1 r where g: "get_property_cache malloc_ok name (length data) s = (s1, r)" by fastforce
  have eq: "property_set malloc_ok name data s = (case r of
      Some i \<Rightarrow> Some (set_item i ((globle_property_cache s1 ! i)\<lparr>c_name := name, c_data := data, data_len := of_nat (length data), used_flag := True\<rparr>) s1, 0)
    | None \<Rightarrow> do { (v, ret) \<leftarrow> nvram_config_set name data (p_nvram s1); Some (s1\<lparr>p_nvram := v\<rparr>, ret) })"
    using None g by (simp add: property_set_def property_cache_set_def split: option.splits)
  from get_item_cases [OF assms(2) g] show ?thesis
  proof (elim disjE exE conjE)
    assume "r = None" "cache_ok N B s1" "cached (globle_property_cache s1) = cached (globle_property_cache s)" "p_nvram s1 = p_nvram s"
    then show ?thesis using eq n by (intro disjI2 exI [of _ s1]) simp
  next
    fix i c
    assume i: "r = Some i" "i < MAX_NVRAM_ITEM_CACHE_NUM" "\<not> used_flag (globle_property_cache s ! i)" "\<not> used_flag c"
      "s1 = set_item i c s\<lparr>mem_blocks := mem_blocks s + 2\<rparr>"
    let ?c = "c\<lparr>c_name := name, c_data := data, data_len := of_nat (length data), used_flag := True\<rparr>"
    let ?s = "set_item i ?c s\<lparr>mem_blocks := mem_blocks s + 2\<rparr>"
    note d = cache_okD [OF assms(2) i(2)]
    have "property_set malloc_ok name data s = Some (?s, 0)" using eq i(1,5) d(1) by (simp add: set_item_def)
    moreover have u: "cached ((globle_property_cache s)[i := ?c]) = (cached (globle_property_cache s))(name \<mapsto> data)"
        "distinct (names ((globle_property_cache s)[i := ?c]))" "length (names ((globle_property_cache s)[i := ?c])) = length (names (globle_property_cache s)) + 1"
      using cached_take [OF d(1,2) i(3), of ?c] n cached_dom [of "globle_property_cache s"] by auto
    moreover have "slot_ok N B ?c" using assms(3,4) len16 [OF b] by (simp add: slot_ok_def)
    then have "cache_ok N B ?s" using assms(2) u(2,3) by (auto simp: cache_ok_def intro: slots_upd)
    ultimately show ?thesis by (intro disjI1) auto
  qed
qed

lemma nvram_cases:
  assumes "table N B" "nvram_holds v U W F" "user_ok N B U" "name \<in> N" "length data \<le> B name"
  shows "\<exists>v'. nvram_config_set name data v = Some (v', 0) \<and> nvram_holds v' (U(name := if data = [] then None else Some data)) W F \<and>
    user_ok N B (U(name := if data = [] then None else Some data)) \<and> nvram_parts v' = nvram_parts v"
proof (cases "data = []")
  case True
  have "good_name name" using assms(1,4) by (auto simp: table_def)
  then show ?thesis using config_delete [OF assms(2)] user_ok_del [OF assms(3)] True by auto
next
  case False
  then show ?thesis using config_set [OF assms(2) table_fits [OF assms(1,3,4) False assms(5)]] user_ok_upd [OF assms(3-5)] by auto
qed

lemma set_rep:
  assumes "table N B" "prop_rep N B s U W F" "name \<in> N" "length data \<le> B name"
    and "\<And>d. cached (globle_property_cache s) name = Some d \<Longrightarrow> length d = length data \<or> malloc_ok s (length data)"
  shows "\<exists>s' U'. property_set malloc_ok name data s = Some (s', 0) \<and> prop_rep N B s' U' W F \<and> nvram_parts (p_nvram s') = nvram_parts (p_nvram s) \<and>
    (cached (globle_property_cache s') = (cached (globle_property_cache s))(name \<mapsto> data) \<and> U' = U \<or>
     cached (globle_property_cache s') = cached (globle_property_cache s) \<and> cached (globle_property_cache s) name = None \<and>
       U' = U(name := if data = [] then None else Some data))"
proof -
  have c: "cache_ok N B s" "nvram_holds (p_nvram s) U W F" "user_ok N B U" using assms(2) by (auto simp: prop_rep_def)
  from cache_set_cases [OF assms(1) c(1) assms(3,4), of malloc_ok] assms(5)
  consider s' where "property_set malloc_ok name data s = Some (s', 0)" "cache_ok N B s'" "p_nvram s' = p_nvram s"
      "cached (globle_property_cache s') = (cached (globle_property_cache s))(name \<mapsto> data)"
    | s1 where "cache_ok N B s1" "p_nvram s1 = p_nvram s" "cached (globle_property_cache s1) = cached (globle_property_cache s)"
      "cached (globle_property_cache s) name = None"
      "property_set malloc_ok name data s = do { (v, ret) \<leftarrow> nvram_config_set name data (p_nvram s); Some (s1\<lparr>p_nvram := v\<rparr>, ret) }" by blast
  then show ?thesis
  proof cases
    case 1
    then show ?thesis using c by (auto simp: prop_rep_def)
  next
    case 2
    from nvram_cases [OF assms(1) c(2,3) assms(3,4)] obtain v' where v: "nvram_config_set name data (p_nvram s) = Some (v', 0)"
        "nvram_holds v' (U(name := if data = [] then None else Some data)) W F" "user_ok N B (U(name := if data = [] then None else Some data))"
        "nvram_parts v' = nvram_parts (p_nvram s)" by blast
    have "cache_ok N B (s1\<lparr>p_nvram := v'\<rparr>)" using 2(1) by (simp add: cache_ok_def)
    then have "prop_rep N B (s1\<lparr>p_nvram := v'\<rparr>) (U(name := if data = [] then None else Some data)) W F" using v(2,3) by (simp add: prop_rep_def)
    moreover have "property_set malloc_ok name data s = Some (s1\<lparr>p_nvram := v'\<rparr>, 0)" using 2(5) v(1) by simp
    ultimately show ?thesis using v(4) 2(3,4) by (intro exI [of _ "s1\<lparr>p_nvram := v'\<rparr>"] exI [of _ "U(name := if data = [] then None else Some data)"]) simp
  qed
qed

lemma set_map:
  assumes "table N B" "prop_rep N B s U W F" "name \<in> N" "length data \<le> B name" "malloc_ok s (length data)"
  shows "\<exists>s' U'. property_set malloc_ok name data s = Some (s', 0) \<and> prop_rep N B s' U' W F \<and> nvram_parts (p_nvram s') = nvram_parts (p_nvram s) \<and>
    prop_map U' s' = (prop_map U s)(name := if data = [] then None else Some data)"
proof -
  obtain s' U' where s: "property_set malloc_ok name data s = Some (s', 0)" "prop_rep N B s' U' W F" "nvram_parts (p_nvram s') = nvram_parts (p_nvram s)"
      and c: "cached (globle_property_cache s') = (cached (globle_property_cache s))(name \<mapsto> data) \<and> U' = U \<or>
     cached (globle_property_cache s') = cached (globle_property_cache s) \<and> cached (globle_property_cache s) name = None \<and>
       U' = U(name := if data = [] then None else Some data)"
    using set_rep [OF assms(1-4), of malloc_ok] assms(5) by metis
  have "prop_map U' s' n = ((prop_map U s)(name := if data = [] then None else Some data)) n" for n
    using c by (cases "n = name") (auto simp: prop_map_def split: option.split)
  then show ?thesis using s by blast
qed

section \<open>Writing back\<close>

lemma write_back_ok:
  assumes "table N B" "prop_rep N B s U W F" "i < MAX_NVRAM_ITEM_CACHE_NUM" "used_flag (globle_property_cache s ! i)"
  shows "\<exists>s' U'. write_back i s = Some s' \<and> prop_rep N B s' U' W F \<and> nvram_parts (p_nvram s') = nvram_parts (p_nvram s) \<and> prop_map U' s' = prop_map U s \<and>
    globle_property_cache s' = (globle_property_cache s)[i := \<lparr>c_name = [], c_data = [], data_len = 0, used_flag = False, flush_req = False\<rparr>] \<and>
    global_cache_need_flush s' = global_cache_need_flush s"
proof -
  let ?c = "globle_property_cache s ! i" and ?e = "\<lparr>c_name = [], c_data = [], data_len = 0, used_flag = False, flush_req = False\<rparr>"
  have c: "cache_ok N B s" "nvram_holds (p_nvram s) U W F" "user_ok N B U" using assms(2) by (auto simp: prop_rep_def)
  note d = cache_okD [OF c(1) assms(3)]
  have sl: "c_name ?c \<in> N" "length (c_data ?c) \<le> B (c_name ?c)" "take (unat (data_len ?c)) (c_data ?c) = c_data ?c"
    using d(3) assms(4) by (auto simp: slot_ok_def)
  let ?U = "U(c_name ?c := if c_data ?c = [] then None else Some (c_data ?c))"
  obtain v' where v: "nvram_config_set (c_name ?c) (c_data ?c) (p_nvram s) = Some (v', 0)" "nvram_holds v' ?U W F" "user_ok N B ?U"
      "nvram_parts v' = nvram_parts (p_nvram s)" using nvram_cases [OF assms(1) c(2,3) sl(1,2)] by blast
  let ?s = "put_property_cache i (s\<lparr>p_nvram := v'\<rparr>)"
  have eq: "write_back i s = Some ?s" using v(1) sl(3) by (simp add: write_back_def Let_def)
  have u: "cached ((globle_property_cache s)[i := ?e]) = (cached (globle_property_cache s))(c_name ?c := None)" "distinct (names ((globle_property_cache s)[i := ?e]))"
      "length (names (globle_property_cache s)) = length (names ((globle_property_cache s)[i := ?e])) + 1"
    using cached_release [OF d(1,2) assms(4), of ?e] by auto
  have "cache_ok N B ?s" using c(1) u(2,3) slots_upd [of N B _ ?e i]
    by (auto simp: cache_ok_def put_property_cache_def slot_ok_def)
  then have "prop_rep N B ?s ?U W F" using v(2,3) by (simp add: prop_rep_def put_property_cache_def)
  moreover have "prop_map ?U ?s n = prop_map U s n" for n
    using u(1) cached_nth [OF d(1,2) assms(4)] by (cases "n = c_name ?c") (auto simp: prop_map_def put_property_cache_def split: option.split)
  ultimately show ?thesis using eq v(4) by (intro exI [of _ ?s] exI [of _ ?U]) (auto simp: put_property_cache_def)
qed

lemma flush_items_ok:
  assumes "table N B" "prop_rep N B s U W F" "set is \<subseteq> {..<MAX_NVRAM_ITEM_CACHE_NUM}"
  shows "\<exists>s' U'. flush_items nm is s = Some s' \<and> prop_rep N B s' U' W F \<and> nvram_parts (p_nvram s') = nvram_parts (p_nvram s) \<and>
    prop_map U' s' = prop_map U s \<and> (\<forall>j. j \<in> set is \<or> j < MAX_NVRAM_ITEM_CACHE_NUM \<and> \<not> name_selects nm (globle_property_cache s ! j)
      \<longrightarrow> \<not> name_selects nm (globle_property_cache s' ! j))"
  using assms(2,3)
proof (induction "is" arbitrary: s U)
  case (Cons i "is")
  show ?case
  proof (cases "name_selects nm (globle_property_cache s ! i)")
    case False
    then show ?thesis using Cons.IH [OF Cons.prems(1)] Cons.prems(2) by fastforce
  next
    case True
    then have "used_flag (globle_property_cache s ! i)" by (simp add: name_selects_def)
    then obtain s1 U1 where 1: "write_back i s = Some s1" "prop_rep N B s1 U1 W F" "nvram_parts (p_nvram s1) = nvram_parts (p_nvram s)" "prop_map U1 s1 = prop_map U s"
        "globle_property_cache s1 = (globle_property_cache s)[i := \<lparr>c_name = [], c_data = [], data_len = 0, used_flag = False, flush_req = False\<rparr>]"
      using write_back_ok [OF assms(1) Cons.prems(1)] Cons.prems(2) by fastforce
    have l: "length (globle_property_cache s) = MAX_NVRAM_ITEM_CACHE_NUM" using Cons.prems(1) by (simp add: prop_rep_def cache_ok_def)
    obtain s' U' where 2: "flush_items nm is s1 = Some s'" "prop_rep N B s' U' W F" "nvram_parts (p_nvram s') = nvram_parts (p_nvram s1)" "prop_map U' s' = prop_map U1 s1"
        "\<And>j. j \<in> set is \<or> j < MAX_NVRAM_ITEM_CACHE_NUM \<and> \<not> name_selects nm (globle_property_cache s1 ! j) \<Longrightarrow> \<not> name_selects nm (globle_property_cache s' ! j)"
      using Cons.IH [OF 1(2)] Cons.prems(2) by fastforce
    have "\<not> name_selects nm (globle_property_cache s1 ! j)" if "j = i \<or> \<not> name_selects nm (globle_property_cache s ! j)" for j
      using that Cons.prems(2) l by (cases "j = i") (auto simp: 1(5) name_selects_def)
    then have "\<not> name_selects nm (globle_property_cache s' ! j)"
      if "j \<in> set (i # is) \<or> j < MAX_NVRAM_ITEM_CACHE_NUM \<and> \<not> name_selects nm (globle_property_cache s ! j)" for j
      using that Cons.prems(2) 2(5) [of j] by auto
    then show ?thesis using True 1 2(1-4) by auto
  qed
qed auto

lemma flush_ok:
  assumes "table N B" "prop_rep N B s U W F"
  shows "\<exists>s' U'. property_flush nm s = Some (s', 0) \<and> prop_rep N B s' U' W F \<and> nvram_parts (p_nvram s') = nvram_parts (p_nvram s) \<and>
    prop_map U' s' = prop_map U s \<and> (\<forall>item\<in>set (globle_property_cache s'). \<not> name_selects nm item)"
proof -
  have "set [0..<MAX_NVRAM_ITEM_CACHE_NUM] \<subseteq> {..<MAX_NVRAM_ITEM_CACHE_NUM}" by auto
  from flush_items_ok [OF assms this, of nm] obtain s' U' where s: "flush_items nm [0..<MAX_NVRAM_ITEM_CACHE_NUM] s = Some s'" "prop_rep N B s' U' W F"
      "nvram_parts (p_nvram s') = nvram_parts (p_nvram s)" "prop_map U' s' = prop_map U s"
      "\<And>j. j \<in> set [0..<MAX_NVRAM_ITEM_CACHE_NUM] \<Longrightarrow> \<not> name_selects nm (globle_property_cache s' ! j)" by blast
  have "length (globle_property_cache s') = MAX_NVRAM_ITEM_CACHE_NUM" using s(2) by (simp add: prop_rep_def cache_ok_def)
  then have "\<forall>item\<in>set (globle_property_cache s'). \<not> name_selects nm item" using s(5) by (auto simp: in_set_conv_nth)
  then show ?thesis using s(1-4) by (auto simp: property_flush_def property_cache_flush_def simp del: upt_conv_Cons)
qed

section \<open>The properties as a store of named values\<close>

definition prop_holds :: "u8 list set \<Rightarrow> (u8 list \<Rightarrow> nat) \<Rightarrow> flash_driver \<Rightarrow> property_state \<Rightarrow> (u8 list \<rightharpoonup> u8 list) \<Rightarrow> bool" where
  "prop_holds N B dev s M \<longleftrightarrow> (\<exists>U W F. prop_rep N B s U W F \<and> (\<forall>n\<in>N. W n = None \<and> F n = None) \<and> holds_parts dev (p_nvram s) \<and> M = prop_map U s)"

definition prop_put :: "(property_state \<Rightarrow> nat \<Rightarrow> bool) \<Rightarrow> u8 list \<Rightarrow> u8 list \<Rightarrow> property_state \<Rightarrow> property_state option" where
  "prop_put malloc_ok name data s = (case property_set malloc_ok name data s of Some (s', e) \<Rightarrow> if e = 0 then Some s' else None | None \<Rightarrow> None)"

text \<open>A restart after a flush: the memory is lost, the flash is scanned again.\<close>

definition prop_restart :: "flash_driver \<Rightarrow> property_state \<Rightarrow> property_state option" where
  "prop_restart dev s = do {
     (s1, _) \<leftarrow> property_flush None s;
     let (fac, usr, rw) = nvram_parts (p_nvram s1);
     (v, _) \<leftarrow> nvram_config_init (Some fac) (Some usr) (Some rw) (Some dev) (nvram_static (n_flash (p_nvram s1)));
     Some (fst (property_manager_init (s1\<lparr>p_nvram := v, mem_blocks := 0\<rparr>)))
   }"

definition prop_look :: "u8 list \<Rightarrow> property_state \<Rightarrow> u8 list option option" where
  "prop_look name s = (case property_get name NVRAM_MAX_DATA_SIZE s of
     None \<Rightarrow> None | Some (Inr v) \<Rightarrow> Some (if v = [] then None else Some v) | Some (Inl _) \<Rightarrow> Some None)"

definition prop_fits :: "u8 list set \<Rightarrow> (u8 list \<Rightarrow> nat) \<Rightarrow> (u8 list \<rightharpoonup> u8 list) \<Rightarrow> u8 list \<Rightarrow> u8 list \<Rightarrow> bool" where
  "prop_fits N B M name data \<longleftrightarrow> name \<in> N \<and> data \<noteq> [] \<and> length data \<le> B name"

lemma init_cache_ok: "cache_ok N B (property_cache_init (s\<lparr>mem_blocks := 0\<rparr>))" "cached (globle_property_cache (property_cache_init s)) = Map.empty"
  by (simp_all add: property_cache_init_def cache_ok_def names_def cached_def slot_keys_def slot_map_def list_all_iff slot_ok_def)

lemma flush_all_empty:
  assumes "prop_rep N B s U W F" "\<forall>item\<in>set (globle_property_cache s). \<not> name_selects None item"
  shows "cached (globle_property_cache s) = Map.empty" "mem_blocks s = 0"
proof -
  have "filter used_flag (globle_property_cache s) = []" using assms(2) by (simp add: name_selects_def filter_empty_conv)
  then show "cached (globle_property_cache s) = Map.empty" "mem_blocks s = 0"
    using assms(1) by (simp_all add: cached_def names_def slot_keys_def slot_map_def prop_rep_def cache_ok_def)
qed

lemma restart_ok:
  assumes "table N B" "prop_rep N B s U W F" "holds_parts dev (p_nvram s)"
  shows "\<exists>s' U'. prop_restart dev s = Some s' \<and> prop_rep N B s' U' W F \<and> nvram_parts (p_nvram s') = nvram_parts (p_nvram s) \<and> prop_map U' s' = prop_map U s"
proof -
  obtain s1 U' where 1: "property_flush None s = Some (s1, 0)" "prop_rep N B s1 U' W F" "nvram_parts (p_nvram s1) = nvram_parts (p_nvram s)"
      "prop_map U' s1 = prop_map U s" "\<forall>item\<in>set (globle_property_cache s1). \<not> name_selects None item"
    using flush_ok [OF assms(1,2), of None] by blast
  note e = flush_all_empty [OF 1(2,5)]
  have h: "holds_parts dev (p_nvram s1)" "nvram_holds (p_nvram s1) U' W F" "user_ok N B U'"
    using assms(3) holds_parts_cong [OF 1(3)] 1(2) by (auto simp: prop_rep_def)
  obtain fac usr rw where p: "nvram_parts (p_nvram s1) = (fac, usr, rw)" by (metis surj_pair)
  obtain v where v: "nvram_config_init (Some fac) (Some usr) (Some rw) (Some dev) (nvram_static (n_flash (p_nvram s1))) = Some (v, 0)"
      "nvram_holds v U' W F" "nvram_parts v = nvram_parts (p_nvram s1)" using config_init [OF h(1,2) p] by blast
  let ?s = "property_cache_init (s1\<lparr>p_nvram := v, mem_blocks := 0\<rparr>)"
  have "prop_restart dev s = Some ?s" using 1(1) p v(1) by (simp add: prop_restart_def property_manager_init_def)
  moreover have "prop_rep N B ?s U' W F" using init_cache_ok(1) [of N B "s1\<lparr>p_nvram := v\<rparr>"] v(2) h(3)
    by (simp add: prop_rep_def property_cache_init_def)
  moreover have "prop_map U' ?s = prop_map U' s1" using init_cache_ok(2) e(1) by (auto simp: prop_map_def)
  moreover have "nvram_parts (p_nvram ?s) = nvram_parts (p_nvram s)" using v(3) 1(3) by (simp add: property_cache_init_def)
  ultimately show ?thesis using 1(4) by metis
qed

lemma look_ok:
  assumes "table N B" "prop_rep N B s U W F" "name \<in> N" "W name = None" "F name = None"
  shows "prop_look name s = Some (prop_map U s name)"
proof -
  have b: "B name \<le> 512" using assms(1,3) by (auto simp: table_def)
  have u: "\<And>v. U name = Some v \<Longrightarrow> length v \<le> B name \<and> v \<noteq> []"
    using assms(2) store_data by (fastforce simp: prop_rep_def user_ok_def nvram_holds_def good_data_def)
  have c: "length d \<le> B name" if d: "cached (globle_property_cache s) name = Some d" for d
  proof -
    have "(name, d) \<in> set (map (\<lambda>c. (c_name c, c_data c)) (filter used_flag (globle_property_cache s)))"
      using d unfolding cached_def slot_map_def by (rule map_of_SomeD)
    then show ?thesis using assms(2) by (auto simp: prop_rep_def cache_ok_def list_all_iff slot_ok_def)
  qed
  show ?thesis
  proof (cases "cached (globle_property_cache s) name")
    case (Some d)
    then have "take 512 d = d" using c b by auto
    then show ?thesis using Some property_get_eq [OF assms(1-3), of 512] by (simp add: prop_look_def prop_map_def)
  next
    case None
    have "v = take 512 v" if "U name = Some v" for v using u [OF that] b by simp
    then show ?thesis using None assms(4,5) u property_get_eq [OF assms(1-3), of 512]
      by (auto simp: prop_look_def prop_map_def nvram_find_def map_add_def split: option.splits)
  qed
qed

text \<open>The interface over a table: names, sizes, an allocator that serves small requests, and the device.\<close>

locale property_table =
  fixes N :: "u8 list set" and B :: "u8 list \<Rightarrow> nat" and malloc_ok :: "property_state \<Rightarrow> nat \<Rightarrow> bool" and dev :: flash_driver
  assumes names_ok: "table N B"
    and small_ok: "sz \<le> NVRAM_MAX_DATA_SIZE \<Longrightarrow> malloc_ok s sz"

sublocale property_table < kv: kv_store "prop_holds N B dev" "prop_put malloc_ok" "\<lambda>name. prop_put malloc_ok name []" "prop_restart dev" prop_look
  "prop_fits N B" "\<lambda>name. name \<in> N"
proof
  fix s M k v
  assume "prop_holds N B dev s M"
  then obtain U W F where h: "prop_rep N B s U W F" "\<forall>n\<in>N. W n = None \<and> F n = None" "holds_parts dev (p_nvram s)" "M = prop_map U s"
    by (auto simp: prop_holds_def)
  have set: "\<exists>s'. prop_put malloc_ok k d s = Some s' \<and> prop_holds N B dev s' (M(k := if d = [] then None else Some d))"
    if "k \<in> N" "length d \<le> B k" for d
  proof -
    have "malloc_ok s (length d)" using that names_ok by (intro small_ok) (auto simp: table_def)
    from set_map [OF names_ok h(1) that, of malloc_ok, OF this] obtain s' U' where s: "property_set malloc_ok k d s = Some (s', 0)" "prop_rep N B s' U' W F"
        "nvram_parts (p_nvram s') = nvram_parts (p_nvram s)" "prop_map U' s' = (prop_map U s)(k := if d = [] then None else Some d)" by blast
    then have "prop_holds N B dev s' (M(k := if d = [] then None else Some d))"
      using h holds_parts_cong [OF s(3)] unfolding prop_holds_def h(4) s(4) [symmetric] by blast
    then show ?thesis using s(1) by (simp add: prop_put_def)
  qed
  show "\<exists>s'. prop_put malloc_ok k v s = Some s' \<and> prop_holds N B dev s' (M(k \<mapsto> v))" if "prop_fits N B M k v"
    using set [of v] that by (auto simp: prop_fits_def)
  show "\<exists>s'. prop_put malloc_ok k [] s = Some s' \<and> prop_holds N B dev s' (M(k := None))" if "k \<in> N" using set [of "[]"] that by auto
  show "\<exists>s'. prop_restart dev s = Some s' \<and> prop_holds N B dev s' M"
    using restart_ok [OF names_ok h(1,3)] h holds_parts_cong unfolding prop_holds_def by metis
  show "prop_look k s = Some (M k)" if "k \<in> N" using look_ok [OF names_ok h(1) that] h(2,4) that by simp
qed

section \<open>Names of the earphone\<close>

text \<open>Names of \<^verbatim>\<open>property_manager.h\<close> and \<^verbatim>\<open>ui_key_map.c\<close>, with room for 192 bytes each.\<close>

definition bytes_of :: "string \<Rightarrow> u8 list" where
  "bytes_of = map (\<lambda>c. of_nat (of_char c))"

definition earphone_names :: "u8 list list" where
  "earphone_names = map bytes_of [''BT_NAME'', ''BT_MAC'', ''BT_LE_NAME'', ''BT_PRE_NAME'', ''BT_AUTOCONN_INFO'', ''AUTO_RECONNECT'',
     ''TONE_VOLUME'', ''BTPLAY_VOLUME'', ''BTCALL_VOLUME'', ''LEPLAY_VOLUME'', ''LECALL_VOLUME'', ''USOUND_VOLUME'', ''ALARM_INFO'',
     ''BT_CFO_VAL'', ''APP_KEYMAP_INFO'', ''OTA_FLAG'']"

lemma earphone_list: "list_all (\<lambda>a. good_name a \<and> length a \<le> 16 \<and> list_all (\<lambda>b. take (length a) b = a \<longrightarrow> a = b) earphone_names) earphone_names"
  by code_simp

lemma earphone_table: "table (set earphone_names) (\<lambda>_. 192)"
proof -
  note l = earphone_list [unfolded list_all_iff]
  have sp: "space n 192 \<le> 224" if "n \<in> set earphone_names" for n
  proof -
    have "(length n + 216) div 16 \<le> 14" using l that div_le_mono [of "length n + 216" 232 16] by auto
    then show ?thesis by (simp add: space_def item_calc_aligned_size_def item_calc_real_size_def ROUND_UP_def)
  qed
  have "(\<Sum>m\<in>set earphone_names. space m 192) \<le> of_nat (card (set earphone_names)) * 224" by (rule sum_bounded_above) (rule sp)
  also have "\<dots> \<le> 16 * 224" using card_length [of earphone_names] by (simp add: earphone_names_def)
  finally have "(\<Sum>m\<in>set earphone_names. space m 192) + space n 192 \<le> 4080" if "n \<in> set earphone_names" for n using sp [OF that] by simp
  then show ?thesis using l by (auto simp: table_def prefix_free_def)
qed

interpretation earphone: property_table "set earphone_names" "\<lambda>_. 192" "\<lambda>_ _. True" nor_driver
  by unfold_locales (simp_all add: earphone_table)

text \<open>The state after the first start up with blank regions.\<close>

lemma ex_properties: "\<exists>s s0. s = fst (property_manager_init s0) \<and> prop_rep N B s Map.empty Map.empty Map.empty \<and> holds_parts nor_driver (p_nvram s) \<and> cached (globle_property_cache s) = Map.empty"
proof -
  obtain v where v: "nvram_holds v Map.empty Map.empty Map.empty" using ex_nvram by blast
  let ?s = "property_cache_init \<lparr>globle_property_cache = [], global_cache_need_flush = False, p_nvram = v, mem_blocks = 0\<rparr>"
  have "prop_rep N B ?s Map.empty Map.empty Map.empty"
    using init_cache_ok(1) [of N B "\<lparr>globle_property_cache = [], global_cache_need_flush = False, p_nvram = v, mem_blocks = 0\<rparr>"] v
    by (simp add: prop_rep_def user_ok_def property_cache_init_def)
  moreover have "holds_parts nor_driver (p_nvram ?s)"
    by (simp add: property_cache_init_def holds_parts_def)
      (meson nor_driver le_add1 le_add2 le_trans max.cobounded1 max.cobounded2)
  moreover have "?s = fst (property_manager_init \<lparr>globle_property_cache = [], global_cache_need_flush = False, p_nvram = v, mem_blocks = 0\<rparr>)"
    by (simp add: property_manager_init_def)
  ultimately show ?thesis using init_cache_ok(2) by blast
qed


section \<open>Deferred flush\<close>

definition mark :: "u8 list option \<Rightarrow> nat set \<Rightarrow> cahce_item_data list \<Rightarrow> cahce_item_data list" where
  "mark nm I cs = map (\<lambda>i. if i \<in> I \<and> name_selects nm (cs ! i) then (cs ! i)\<lparr>flush_req := True\<rparr> else cs ! i) [0..<length cs]"

definition with_marks :: "u8 list option \<Rightarrow> nat set \<Rightarrow> property_state \<Rightarrow> property_state" where
  "with_marks nm I s = s\<lparr>globle_property_cache := mark nm I (globle_property_cache s)\<rparr>"

lemma mark_nth: "i < length cs \<Longrightarrow> mark nm I cs ! i = (if i \<in> I \<and> name_selects nm (cs ! i) then (cs ! i)\<lparr>flush_req := True\<rparr> else cs ! i)"
  and mark_length [simp]: "length (mark nm I cs) = length cs"
  by (simp_all add: mark_def)

lemma mark_upd: "i < length cs \<Longrightarrow> i \<notin> I \<Longrightarrow> (mark nm (insert i I) cs)[i := c] = mark nm I (cs[i := c])"
  by (rule nth_equalityI) (auto simp: mark_nth nth_list_update)

lemma mark_none: "with_marks nm {} s = s"
proof -
  have "mark nm {} cs = cs" for cs by (rule nth_equalityI) (simp_all add: mark_nth)
  then show ?thesis by (simp add: with_marks_def)
qed

lemma write_back_marks:
  assumes "i < length (globle_property_cache s)" "i \<notin> I" "name_selects nm (globle_property_cache s ! i)" "\<not> flush_req (globle_property_cache s ! i)"
  shows "do { s1 \<leftarrow> write_back i (with_marks nm (insert i I) s); Some (set_item i ((globle_property_cache s1 ! i)\<lparr>flush_req := False\<rparr>) s1) } =
    map_option (with_marks nm I) (write_back i s)"
proof -
  let ?c = "globle_property_cache s ! i"
  have m: "globle_property_cache (with_marks nm (insert i I) s) ! i = ?c\<lparr>flush_req := True\<rparr>" using assms(1,3) by (simp add: with_marks_def mark_nth)
  have p: "p_nvram (with_marks nm (insert i I) s) = p_nvram s" "mem_blocks (with_marks nm J s) = mem_blocks s" for J by (simp_all add: with_marks_def)
  show ?thesis
  proof (cases "nvram_config_set (c_name ?c) (take (unat (data_len ?c)) (c_data ?c)) (p_nvram s)")
    case None
    then show ?thesis using m p by (simp add: write_back_def Let_def)
  next
    case (Some r)
    obtain v ret where r: "r = (v, ret)" by fastforce
    have len: "i < length (mark nm (insert i I) (globle_property_cache s))" using assms(1) by simp
    show ?thesis
    proof (cases "ret = 0")
      case True
      have n: "mark nm I ((globle_property_cache s)[i := c]) ! i = c" for c using assms(1,2) by (simp add: mark_nth)
      then have "(mark nm I ((globle_property_cache s)[i := c]))[i := c] = mark nm I ((globle_property_cache s)[i := c])" for c by (metis list_update_id)
      with n show ?thesis using True Some r m p assms(1) mark_upd [OF assms(1,2)]
        by (simp add: write_back_def Let_def put_property_cache_def set_item_def with_marks_def)
    next
      case False
      have "?c\<lparr>flush_req := False\<rparr> = ?c" using assms(4) by simp
      then have "(mark nm (insert i I) (globle_property_cache s))[i := ?c\<lparr>flush_req := False\<rparr>] = mark nm I (globle_property_cache s)"
        using mark_upd [OF assms(1,2), of nm ?c] by simp
      then show ?thesis using Some r m p False by (simp add: write_back_def Let_def set_item_def with_marks_def)
    qed
  qed
qed

lemma write_back_frame:
  assumes "write_back i s = Some s'"
  shows "length (globle_property_cache s') = length (globle_property_cache s)" "j \<noteq> i \<Longrightarrow> globle_property_cache s' ! j = globle_property_cache s ! j"
  using assms by (auto simp: write_back_def Let_def put_property_cache_def set_item_def bind_eq_Some_conv split: if_splits)

lemma deal_is_flush:
  assumes "distinct is" "set is \<subseteq> {..<length (globle_property_cache s)}" "\<forall>i\<in>set is. \<not> flush_req (globle_property_cache s ! i)"
  shows "deal_items is (with_marks nm (set is) s) = flush_items nm is s"
  using assms
proof (induction "is" arbitrary: s)
  case Nil
  then show ?case by (simp add: mark_none)
next
  case (Cons i "is")
  have i: "i < length (globle_property_cache s)" "i \<notin> set is" using Cons.prems by auto
  show ?case
  proof (cases "name_selects nm (globle_property_cache s ! i)")
    case False
    then have "mark nm (insert i (set is)) (globle_property_cache s) = mark nm (set is) (globle_property_cache s)"
      by (intro nth_equalityI) (auto simp: mark_nth)
    then have "with_marks nm (set (i # is)) s = with_marks nm (set is) s" by (simp add: with_marks_def)
    moreover have "\<not> flush_req (globle_property_cache (with_marks nm (set is) s) ! i)"
      using Cons.prems(3) i by (simp add: with_marks_def mark_nth)
    ultimately show ?thesis using False Cons by (simp add: Let_def)
  next
    case True
    have used: "used_flag (globle_property_cache s ! i)" using True by (simp add: name_selects_def)
    have "deal_items (i # is) (with_marks nm (set (i # is)) s) =
        do { s1 \<leftarrow> do { s1 \<leftarrow> write_back i (with_marks nm (insert i (set is)) s); Some (set_item i ((globle_property_cache s1 ! i)\<lparr>flush_req := False\<rparr>) s1) };
             deal_items is s1 }"
      using i True used by (simp add: Let_def with_marks_def mark_nth Option.bind_assoc)
    also have "\<dots> = do { s1 \<leftarrow> map_option (with_marks nm (set is)) (write_back i s); deal_items is s1 }"
      using write_back_marks [OF i True] Cons.prems(3) by simp
    also have "\<dots> = do { s1 \<leftarrow> write_back i s; flush_items nm is s1 }"
    proof (cases "write_back i s")
      case (Some s1)
      have "deal_items is (with_marks nm (set is) s1) = flush_items nm is s1"
        using write_back_frame [OF Some] Cons.prems by (intro Cons.IH) (auto, metis)
      then show ?thesis using Some by simp
    qed simp
    finally show ?thesis using True by simp
  qed
qed

section \<open>Integers\<close>

lemma decimal_digits: "c \<in> set (decimal n) \<Longrightarrow> isdigit c"
proof (induction n rule: decimal.induct)
  case (1 n)
  have "isdigit (0x30 + of_nat (n mod 10))"
  proof -
    have "unat (of_nat (n mod 10) :: u8) = n mod 10" by (simp add: unat_of_nat)
    then have "(of_nat (n mod 10) :: u8) < 10" by (simp add: word_less_nat_alt)
    then show ?thesis by (simp add: isdigit_def)
  qed
  then show ?case using 1 by (subst (asm) (2) decimal.simps) (auto split: if_splits)
qed

lemma decimal_length: "n < 10 ^ k \<Longrightarrow> 0 < k \<Longrightarrow> length (decimal n) \<le> k"
proof (induction n arbitrary: k rule: decimal.induct)
  case (1 n)
  show ?case
  proof (cases "n < 10")
    case False
    then have "1 < k" using "1.prems" by (cases "k = 1") auto
    then obtain j where j: "k = Suc j" "0 < j" by (cases k) auto
    then have "n div 10 < 10 ^ j" using "1.prems"(1) by (simp add: less_mult_imp_div_less mult.commute)
    then show ?thesis using "1.IH" [OF False] j by (subst decimal.simps) simp
  qed (use "1.prems" in \<open>subst decimal.simps; simp\<close>)
qed

lemma decimal_not_Nil: "decimal n \<noteq> []"
  by (subst decimal.simps) simp

lemma atoi_decimal: "n \<le> 2 ^ 31 \<Longrightarrow> atoi_digits (decimal n @ rest) 0 = atoi_digits rest (- int n)"
proof (induction n arbitrary: rest rule: decimal.induct)
  case (1 n)
  let ?c = "0x30 + of_nat (n mod 10) :: u8"
  have "?c \<in> set (decimal n)" by (subst decimal.simps) simp
  then have c: "isdigit ?c" by (rule decimal_digits)
  have u: "unat (of_nat (n mod 10) :: u8) = n mod 10" by (simp add: unat_of_nat)
  have "10 * (- int (n div 10)) - int (n mod 10) = - int n" by presburger
  moreover have "int_ok (- int n)" using "1.prems" by (simp add: int_ok_def)
  ultimately have step: "atoi_digits (?c # rest) (- int (n div 10)) = atoi_digits rest (- int n)" using c u by (simp add: Let_def)
  show ?case
  proof (cases "n < 10")
    case True
    then have "decimal n = [?c]" "n div 10 = 0" by (subst decimal.simps, simp_all)
    then show ?thesis using step by simp
  next
    case False
    then have "decimal n = decimal (n div 10) @ [?c]" by (subst decimal.simps) simp
    then show ?thesis using "1.IH" [OF False, of "?c # rest"] "1.prems" step by simp
  qed
qed

lemma digit_facts: "isdigit c \<Longrightarrow> \<not> isspace c \<and> c \<noteq> 0x2d \<and> c \<noteq> 0x2b \<and> c \<noteq> 0"
  unfolding isdigit_def isspace_def by (unat_arith; auto)

lemma atoi_print:
  assumes "int_ok v"
  shows "atoi (print_int v @ replicate (Suc k) 0) = Some v" "0 \<notin> set (print_int v)" "length (print_int v) \<le> 11" "print_int v \<noteq> []"
proof -
  have z: "\<not> isdigit 0" by (simp add: isdigit_def)
  have d: "0 \<notin> set (decimal n)" for n using decimal_digits digit_facts by blast
  have l: "length (decimal n) \<le> 10" if "n \<le> 2 ^ 31" for n using decimal_length [of n 10] that by simp
  have b: "nat (- v) \<le> 2 ^ 31" "nat v \<le> 2 ^ 31" using assms by (auto simp: int_ok_def)
  show "0 \<notin> set (print_int v)" using d by (simp add: print_int_def)
  show "length (print_int v) \<le> 11" using l [OF b(1)] l [OF b(2)] by (simp add: print_int_def)
  show "print_int v \<noteq> []" using decimal_not_Nil by (simp add: print_int_def)
  show "atoi (print_int v @ replicate (Suc k) 0) = Some v"
  proof (cases "v < 0")
    case True
    then show ?thesis using atoi_decimal [OF b(1), of "replicate (Suc k) 0"] z by (simp add: atoi_def print_int_def isspace_def)
  next
    case False
    obtain c cs where c: "decimal (nat v) = c # cs" using decimal_not_Nil [of "nat v"] by (cases "decimal (nat v)") auto
    then have "\<not> isspace c" "c \<noteq> 0x2d" "c \<noteq> 0x2b" using digit_facts decimal_digits [of c "nat v"] by auto
    then show ?thesis using False atoi_decimal [OF b(2), of "replicate (Suc k) 0"] z c assms
      by (simp add: atoi_def print_int_def)
  qed
qed

lemma set_int_eq:
  assumes "int_ok v"
  shows "property_set_int malloc_ok key v s =
    do { (s1, ret) \<leftarrow> property_set malloc_ok key (print_int v) s; Some (s1, if ret = 0 then - EACCES else 0) }"
proof -
  note p = atoi_print [OF assms]
  have "takeWhile (\<lambda>c. c \<noteq> 0) (print_int v @ 0 # xs) = print_int v" for xs
    using p(2) by (metis (mono_tags, lifting) append_Nil2 takeWhile.simps(2) takeWhile_append2)
  then show ?thesis using p(3) by (simp add: property_set_int_def snprintf_at_def Let_def)
qed

lemma set_item_flag: "set_item i c (t\<lparr>global_cache_need_flush := b\<rparr>) = (set_item i c t)\<lparr>global_cache_need_flush := b\<rparr>"
  by (simp add: set_item_def)

lemma deal_flag: "deal_items is (t\<lparr>global_cache_need_flush := b\<rparr>) = map_option (\<lambda>t'. t'\<lparr>global_cache_need_flush := b\<rparr>) (deal_items is t)"
proof (induction "is" arbitrary: t)
  case (Cons i "is")
  have "write_back i (t\<lparr>global_cache_need_flush := b\<rparr>) = map_option (\<lambda>t'. t'\<lparr>global_cache_need_flush := b\<rparr>) (write_back i t)"
    by (auto simp: write_back_def Let_def put_property_cache_def set_item_def split: Option.bind_splits)
  then show ?case using Cons by (cases "write_back i t") (auto simp: Let_def set_item_flag)
qed simp

lemma nvram_find_upd: "nvram_find (U(name \<mapsto> d)) W F = (nvram_find U W F)(name \<mapsto> d)"
  by (simp add: nvram_find_def)

context property_table begin

lemma run_properties:
  assumes "prop_holds N B dev s M" "kv_fits (prop_fits N B) (\<lambda>name. name \<in> N) M ops"
  shows "\<exists>s'. kv_run (prop_put malloc_ok) (\<lambda>name. prop_put malloc_ok name []) (prop_restart dev) ops s = Some s' \<and>
    (\<forall>name. name \<in> N \<longrightarrow> prop_look name s' = Some (foldl kv_step M ops name))"
  using assms by (rule kv.run_reads)

end

section \<open>Properties\<close>

text \<open>A first set after start up takes the first place of the cache.\<close>

lemma single_find:
  assumes "globle_property_cache s = c # replicate 19 e" "used_flag c" "\<not> used_flag e" "name_matches name c"
  shows "find_property_cache name s = Some 0"
  using assms by (simp add: find_property_cache_def upt_rec)

lemma fresh_set:
  assumes "\<forall>s sz. malloc_ok s sz" "length data \<le> 512" "s = fst (property_manager_init s0)"
  shows "\<exists>s' c e. property_set malloc_ok name data s = Some (s', 0) \<and> globle_property_cache s' = c # replicate 19 e \<and> used_flag c \<and> \<not> used_flag e \<and>
    c_name c = name \<and> c_data c = data \<and> data_len c = of_nat (length data) \<and> \<not> flush_req c \<and> \<not> flush_req e \<and> \<not> global_cache_need_flush s'"
proof -
  let ?e = "\<lparr>c_name = [], c_data = [], data_len = 0, used_flag = False, flush_req = False\<rparr>"
  have s: "globle_property_cache s = replicate 20 ?e" "\<not> global_cache_need_flush s" using assms(3) by (simp_all add: property_manager_init_def property_cache_init_def)
  have "find_property_cache name s = None" using s by (auto simp: find_property_cache_def find_None_iff)
  moreover have "find (\<lambda>i. \<not> used_flag (globle_property_cache s ! i)) [0..<MAX_NVRAM_ITEM_CACHE_NUM] = Some 0" using s by (simp add: upt_rec)
  moreover have "replicate 20 ?e = ?e # replicate 19 ?e" by (simp add: numeral_eq_Suc)
  ultimately show ?thesis using assms(1) s
    by (simp add: property_set_def property_cache_set_def get_property_cache_def Let_def set_item_def del: upt_conv_Cons)
qed

text \<open>
  C10: For a table of names of which none begins with another, and whose values of the given largest sizes fit a segment together: a set of
  a name of the table to a value within its size succeeds, whether the item is in the cache, is new, or goes directly to the flash because the
  cache is full or the heap has no memory for a new item. Afterwards a get of the name returns the new value and a get of any other
  name what it returned before; the cache owns two blocks for each item it holds. Only the change of the length of a cached value
  needs the memory it asks for.
\<close>

theorem property_set_correct:
  assumes "table N B" "prop_rep N B s U W F" "name \<in> N" "data \<noteq> []" "length data \<le> B name"
    and "\<forall>d. cached (globle_property_cache s) name = Some d \<longrightarrow> length d = length data \<or> malloc_ok s (length data)"
  shows "\<exists>s' U'. property_set malloc_ok name data s = Some (s', 0) \<and> prop_rep N B s' U' W F \<and>
    (\<forall>n\<in>N. property_get n 512 s' = (if n = name then Some (Inr data) else property_get n 512 s))"
proof -
  have "\<And>d. cached (globle_property_cache s) name = Some d \<Longrightarrow> length d = length data \<or> malloc_ok s (length data)" using assms(6) by blast
  from set_rep [OF assms(1-3,5), of malloc_ok, OF this] obtain s' U' where s: "property_set malloc_ok name data s = Some (s', 0)" "prop_rep N B s' U' W F"
    and c: "cached (globle_property_cache s') = (cached (globle_property_cache s))(name \<mapsto> data) \<and> U' = U \<or>
      cached (globle_property_cache s') = cached (globle_property_cache s) \<and> cached (globle_property_cache s) name = None \<and> U' = U(name \<mapsto> data)"
    using assms(4) by auto
  have len: "take 512 data = data" using assms(1,3,5) by (fastforce simp: table_def)
  have "property_get n 512 s' = (if n = name then Some (Inr data) else property_get n 512 s)" if "n \<in> N" for n
    using c len property_get_eq [OF assms(1) s(2) that, of 512] property_get_eq [OF assms(1,2) that, of 512]
    by (cases "n = name") (auto simp: nvram_find_upd split: option.split)
  then show ?thesis using s by blast
qed

theorem property_set_correct_witness:
  "\<exists>s s'. property_set (\<lambda>_ _. False) (bytes_of ''BT_NAME'') [0x41] s = Some (s', 0) \<and> property_get (bytes_of ''BT_NAME'') 512 s' = Some (Inr [0x41])"
proof -
  obtain s where s: "prop_rep (set earphone_names) (\<lambda>_. 192) s Map.empty Map.empty Map.empty" "cached (globle_property_cache s) = Map.empty"
    using ex_properties by blast
  have n: "bytes_of ''BT_NAME'' \<in> set earphone_names" by (simp add: earphone_names_def)
  obtain s' U' where s': "property_set (\<lambda>_ _. False) (bytes_of ''BT_NAME'') [0x41] s = Some (s', 0)"
      "\<forall>n\<in>set earphone_names. property_get n 512 s' = (if n = bytes_of ''BT_NAME'' then Some (Inr [0x41]) else property_get n 512 s)"
    using property_set_correct [OF earphone_table s(1) n, of "[0x41]" "\<lambda>_ _. False"] s(2) by auto
  then show ?thesis using bspec [OF s'(2) n] by auto
qed



text \<open>
  A flush of all properties writes every cached value to the flash and releases the memory of the cache: afterwards the store itself
  returns what the properties returned before.
\<close>

theorem property_flush_persists:
  assumes "table N B" "prop_rep N B s U W F"
  shows "\<exists>s' U'. property_flush None s = Some (s', 0) \<and> prop_rep N B s' U' W F \<and> mem_blocks s' = 0 \<and>
    (\<forall>n\<in>N. \<forall>d. d \<noteq> [] \<and> property_get n 512 s = Some (Inr d) \<longrightarrow> nvram_config_get n 512 (p_nvram s') = Some (Inr d) \<and> property_get n 512 s' = Some (Inr d))"
proof -
  obtain s' U' where s: "property_flush None s = Some (s', 0)" "prop_rep N B s' U' W F" "prop_map U' s' = prop_map U s"
      "\<forall>item\<in>set (globle_property_cache s'). \<not> name_selects None item"
    using flush_ok [OF assms, of None] by blast
  note e = flush_all_empty [OF s(2,4)]
  have "U' n = prop_map U' s' n" for n using e(1) by (simp add: prop_map_def)
  then have U': "U' n = prop_map U s n" for n using s(3) by simp
  have "nvram_config_get n 512 (p_nvram s') = Some (Inr d) \<and> property_get n 512 s' = Some (Inr d)"
    if n: "n \<in> N" and d: "d \<noteq> []" "property_get n 512 s = Some (Inr d)" for n d
  proof -
    have z: "0 \<notin> set n" using assms(1) n by (auto simp: table_def good_name_def)
    have "nvram_config_get n 512 (p_nvram s') = Some (case nvram_find U' W F n of None \<Rightarrow> Inl (- ENOENT) | Some v \<Rightarrow> Inr (take 512 v))"
      using config_get [OF _ z] s(2) by (simp add: prop_rep_def)
    moreover have "(case nvram_find U' W F n of None \<Rightarrow> Inl (- ENOENT) | Some v \<Rightarrow> Inr (take 512 v)) = Inr d"
      using d property_get_eq [OF assms n, of 512] U' [of n] by (auto simp: prop_map_def nvram_find_def map_add_def split: option.splits)
    ultimately show ?thesis using property_get_eq [OF assms(1) s(2) n, of 512] e(1) by simp
  qed
  then show ?thesis using s(1,2) e(2) by (intro exI [of _ s'] exI [of _ U']) blast
qed

theorem property_flush_persists_witness: "\<exists>s s'. property_flush None s = Some (s', 0) \<and> mem_blocks s' = 0"
proof -
  obtain s where s: "prop_rep (set earphone_names) (\<lambda>_. 192) s Map.empty Map.empty Map.empty" using ex_properties by blast
  show ?thesis using property_flush_persists [OF earphone_table s] by blast
qed

text \<open>
  C33: When no other request is pending, a deferred flush does what an immediate one does: a request followed by its execution leaves the
  same state as a flush at once, also when writes fail.
\<close>

theorem property_deferred_flush:
  assumes "length (globle_property_cache s) = 20" "\<forall>item\<in>set (globle_property_cache s). \<not> flush_req item" "\<not> global_cache_need_flush s"
  shows "property_flush_req_deal (fst (property_flush_req nm s)) = map_option (\<lambda>(s', r). (s'\<lparr>global_cache_need_flush := False\<rparr>, r)) (property_flush nm s)"
proof -
  let ?is = "[0..<MAX_NVRAM_ITEM_CACHE_NUM]"
  have m: "map (\<lambda>item. if name_selects nm item then item\<lparr>flush_req := True\<rparr> else item) (globle_property_cache s) = mark nm (set ?is) (globle_property_cache s)"
    by (rule nth_equalityI) (use assms(1) in \<open>auto simp: mark_nth simp del: upt_conv_Cons\<close>)
  have "deal_items ?is (with_marks nm (set ?is) s) = flush_items nm ?is s"
    using assms(1,2) by (intro deal_is_flush) (auto simp del: upt_conv_Cons)
  then show ?thesis
    by (simp add: deal_flag property_flush_req_deal_def property_cache_flush_req_deal_def property_flush_req_def property_cache_flush_req_def Let_def m
        with_marks_def [symmetric] property_flush_def property_cache_flush_def option.map_comp del: upt_conv_Cons split: Option.bind_splits)
qed

theorem property_deferred_flush_witness:
  "\<exists>s s' nm. cached (globle_property_cache s) nm = Some [0x41] \<and> property_flush_req_deal (fst (property_flush_req None s)) = Some (s', 0) \<and>
     nvram_config_get nm 512 (p_nvram s') = Some (Inr [0x41])"
proof -
  let ?n = "bytes_of ''BT_NAME''" and ?N = "set earphone_names"
  obtain s s0 where s: "s = fst (property_manager_init s0)" "prop_rep ?N (\<lambda>_. 192) s Map.empty Map.empty Map.empty" "cached (globle_property_cache s) = Map.empty"
    using ex_properties by blast
  have n: "?n \<in> ?N" "0 \<notin> set ?n" by (simp_all add: earphone_names_def bytes_of_def)
  obtain s1 c e where 1: "property_set (\<lambda>_ _. True) ?n [0x41] s = Some (s1, 0)" "globle_property_cache s1 = c # replicate 19 e" "used_flag c"
      "c_name c = ?n" "\<not> flush_req c" "\<not> flush_req e" "\<not> global_cache_need_flush s1"
    using fresh_set [of "\<lambda>_ _. True" "[0x41]" s s0 ?n] s(1) by auto
  obtain U where 2: "prop_rep ?N (\<lambda>_. 192) s1 U Map.empty Map.empty"
      "cached (globle_property_cache s1) = [?n \<mapsto> [0x41]] \<or> cached (globle_property_cache s1) = Map.empty"
    using set_rep [OF earphone_table s(2) n(1), of "[0x41]" "\<lambda>_ _. True"] 1(1) s(3) by auto
  have "?n \<in> dom (cached (globle_property_cache s1))" using 1(2-4) by (simp add: cached_def slot_dom slot_keys_def)
  then have c: "cached (globle_property_cache s1) ?n = Some [0x41]" using 2(2) by auto
  obtain s2 U' where f: "property_flush None s1 = Some (s2, 0)" "prop_rep ?N (\<lambda>_. 192) s2 U' Map.empty Map.empty" "prop_map U' s2 = prop_map U s1"
      "\<forall>item\<in>set (globle_property_cache s2). \<not> name_selects None item"
    using flush_ok [OF earphone_table 2(1), of None] by blast
  have "prop_map U' s2 ?n = Some [0x41]" unfolding f(3) using c by (simp add: prop_map_def)
  then have "U' ?n = Some [0x41]" using flush_all_empty(1) [OF f(2,4)] by (simp add: prop_map_def)
  then have "nvram_config_get ?n 512 (p_nvram s2) = Some (Inr [0x41])"
    using config_get [of "p_nvram s2" U' Map.empty Map.empty ?n 512] n(2) f(2) by (simp add: prop_rep_def nvram_find_def)
  moreover have "property_flush_req_deal (fst (property_flush_req None s1)) = Some (s2\<lparr>global_cache_need_flush := False\<rparr>, 0)"
    using property_deferred_flush [of s1 None] 1(2,5-7) f(1) by simp
  ultimately show ?thesis using c by (intro exI [of _ s1] exI [of _ "s2\<lparr>global_cache_need_flush := False\<rparr>"] exI [of _ ?n]) simp
qed

text \<open>
  C34: An integer that is set is read back, for every 32-bit value; but the setter reports \<open>-EACCES\<close>, because it takes the
  result 0 of a successful set for a failure.
\<close>

theorem property_int_roundtrip:
  assumes "table N B" "prop_rep N B s U W F" "name \<in> N" "11 \<le> B name" "int_ok v"
    and "\<forall>d. cached (globle_property_cache s) name = Some d \<longrightarrow> malloc_ok s (length (print_int v))"
  shows "\<exists>s' U'. property_set_int malloc_ok name v s = Some (s', - EACCES) \<and> prop_rep N B s' U' W F \<and> property_get_int name dflt s' = Some v"
proof -
  note p = atoi_print [OF assms(5)]
  have "\<And>d. cached (globle_property_cache s) name = Some d \<Longrightarrow> length d = length (print_int v) \<or> malloc_ok s (length (print_int v))" using assms(6) by blast
  moreover have "length (print_int v) \<le> B name" using p(3) assms(4) by simp
  ultimately obtain s' U' where s: "property_set malloc_ok name (print_int v) s = Some (s', 0)" "prop_rep N B s' U' W F"
    and c: "cached (globle_property_cache s') name = Some (print_int v) \<or> cached (globle_property_cache s') name = None \<and> U' name = Some (print_int v)"
    using set_rep [OF assms(1-3), of "print_int v" malloc_ok] p(4) by fastforce
  have t: "take 16 (print_int v) = print_int v" using p(3) by simp
  have "property_get name 16 s' = Some (Inr (print_int v))"
    using c t property_get_eq [OF assms(1) s(2) assms(3), of 16] by (auto simp: nvram_find_def map_add_def)
  moreover have "atoi (print_int v @ replicate (16 - length (print_int v)) 0) = Some v"
  proof -
    have "16 - length (print_int v) = Suc (15 - length (print_int v))" using p(3) by simp
    then show ?thesis using p(1) by metis
  qed
  ultimately have "property_get_int name dflt s' = Some v" using p(4) by (simp add: property_get_int_def)
  then show ?thesis using s set_int_eq [OF assms(5), of malloc_ok name s] by auto
qed

theorem property_int_roundtrip_witness:
  "\<exists>s s'. property_set_int (\<lambda>_ _. True) (bytes_of ''BT_CFO_VAL'') (- 2147483648) s = Some (s', - 13) \<and>
    property_get_int (bytes_of ''BT_CFO_VAL'') 7 s' = Some (- 2147483648)"
proof -
  obtain s where s: "prop_rep (set earphone_names) (\<lambda>_. 192) s Map.empty Map.empty Map.empty" using ex_properties by blast
  have "bytes_of ''BT_CFO_VAL'' \<in> set earphone_names" by (simp add: earphone_names_def)
  then show ?thesis using property_int_roundtrip [OF earphone_table s, of "bytes_of ''BT_CFO_VAL''" "- 2147483648" "\<lambda>_ _. True" 7]
    by (auto simp: int_ok_def)
qed

text \<open>
  C40: The search of the cache compares only as many bytes as the name looked for has. When only a name has been
  set since start up, a get of a proper beginning of it returns the value of the longer name, and a set of the beginning reports success
  and overwrites the value of the longer name.
\<close>

theorem property_prefix_shadows:
  assumes "\<forall>s sz. malloc_ok s sz" "s = fst (property_manager_init s0)" "take (length short) long = short" "short \<noteq> long" "0 \<notin> set short"
    "length v \<le> 512" "length w \<le> 512"
  shows "\<exists>s1 s2. property_set malloc_ok long v s = Some (s1, 0) \<and> property_get short 512 s1 = Some (Inr v) \<and>
    property_set malloc_ok short w s1 = Some (s2, 0) \<and> property_get long 512 s2 = Some (Inr w)"
proof -
  obtain s1 c e where 1: "property_set malloc_ok long v s = Some (s1, 0)" "globle_property_cache s1 = c # replicate 19 e" "used_flag c" "\<not> used_flag e"
      "c_name c = long" "c_data c = v" "data_len c = of_nat (length v)" using fresh_set [OF assms(1,6,2), of long] by blast
  have m: "name_matches short c" "name_matches long (c\<lparr>c_data := w, data_len := x\<rparr>)" for x
    using name_matches_iff [OF assms(5), of c] assms(3) 1(5) by (simp, simp add: name_matches_def)
  note f = single_find [OF 1(2-4) m(1)]
  let ?c = "c\<lparr>c_data := w, data_len := of_nat (length w)\<rparr>"
  have "length v = length w \<Longrightarrow> c\<lparr>c_data := w\<rparr> = ?c" using 1(7) by simp
  then have 2: "property_set malloc_ok short w s1 = Some (set_item 0 ?c s1, 0)"
    using f 1(2,7) assms(1) len16 [OF assms(6)] by (auto simp: property_set_def property_cache_set_def Let_def)
  have "globle_property_cache (set_item 0 ?c s1) = ?c # replicate 19 e" using 1(2) by simp
  from single_find [OF this _ 1(4)] m(2) 1(3) have "find_property_cache long (set_item 0 ?c s1) = Some 0" by simp
  then have "property_get long 512 (set_item 0 ?c s1) = Some (Inr w)"
    using 1(2) len16 [OF assms(7)] assms(7) by (simp add: property_get_def property_cache_get_def Let_def)
  moreover have "property_get short 512 s1 = Some (Inr v)"
    using f 1(2,6,7) len16 [OF assms(6)] assms(6) by (simp add: property_get_def property_cache_get_def Let_def)
  ultimately show ?thesis using 1(1) 2 by blast
qed

theorem property_prefix_shadows_witness:
  "\<exists>s0 s1 s2. property_set (\<lambda>_ _. True) (bytes_of ''BT_CFO_VAL'') [1, 2] (fst (property_manager_init s0)) = Some (s1, 0) \<and>
    property_set (\<lambda>_ _. True) (bytes_of ''BT_CF'') [3] s1 = Some (s2, 0) \<and> property_get (bytes_of ''BT_CFO_VAL'') 512 s2 = Some (Inr [3])"
proof -
  have "0 \<notin> set (bytes_of ''BT_CF'')" by (simp add: bytes_of_def)
  then show ?thesis using property_prefix_shadows [of "\<lambda>_ _. True" _ undefined "bytes_of ''BT_CF''" "bytes_of ''BT_CFO_VAL''" "[1, 2]" "[3]"]
    by (simp add: bytes_of_def) blast
qed

end
