(* ===== verification/Input_Keypad.thy ===== *)
theory Input_Keypad
  imports Prelude
begin

text \<open>
  The keypad of \<^verbatim>\<open>src/framework/system/input/input_keypad.c\<close> and the lock of \<^verbatim>\<open>input_manager.c\<close>, in the configuration of the earphone
  (\<open>CONFIG_SOC_EP_MODE\<close> and \<open>CONFIG_INPUT_MUTIPLE_CLICK\<close> set, \<open>CONFIG_SAMPLE_CASE_XNT\<close> not set): the scans of the keys become
  clicks, long presses and combinations. A scan gives the device, the code and whether the key is down; the time of a scan is
  the 32-bit cycle counter, read once for a scan. A pending delayed work is its delay. What is reported or passed to the
  callback is a list of outputs. Which devices open, and whether half of the message pool is used, are arguments. The field
  \<open>report_stamp\<close>, which is written and never read, and the last scan, which is only printed, are left out.
\<close>

unbundle bit_operations_syntax

section \<open>Data\<close>

abbreviation KEY_TYPE_LONG1S :: u32 where "KEY_TYPE_LONG1S \<equiv> 0x10000000"
abbreviation KEY_TYPE_DOUBLE_CLICK :: u32 where "KEY_TYPE_DOUBLE_CLICK \<equiv> 0x40000000"
abbreviation KEY_TYPE_HOLD :: u32 where "KEY_TYPE_HOLD \<equiv> 0x08000000"
abbreviation KEY_TYPE_SHORT_UP :: u32 where "KEY_TYPE_SHORT_UP \<equiv> 0x04000000"
abbreviation KEY_TYPE_LONG1S_UP :: u32 where "KEY_TYPE_LONG1S_UP \<equiv> 0x02000000"
abbreviation KEY_TYPE_LONG3S_UP :: u32 where "KEY_TYPE_LONG3S_UP \<equiv> 0x01000000"
abbreviation KEY_TYPE_LONG6S_UP :: u32 where "KEY_TYPE_LONG6S_UP \<equiv> 0x00800000"
abbreviation KEY_TYPE_LONG6S :: u32 where "KEY_TYPE_LONG6S \<equiv> 0x00400000"
abbreviation KEY_TYPE_LONG3S :: u32 where "KEY_TYPE_LONG3S \<equiv> 0x00200000"
abbreviation KEY_TYPE_TRIPLE_CLICK :: u32 where "KEY_TYPE_TRIPLE_CLICK \<equiv> 0x00100000"
abbreviation KEY_TYPE_QUAD_CLICK :: u32 where "KEY_TYPE_QUAD_CLICK \<equiv> 0x00080000"
abbreviation KEY_TYPE_QUINT_CLICK :: u32 where "KEY_TYPE_QUINT_CLICK \<equiv> 0x00040000"
abbreviation KEY_TYPE_LONGS :: u32 where "KEY_TYPE_LONGS \<equiv> KEY_TYPE_LONG1S OR KEY_TYPE_LONG3S OR KEY_TYPE_LONG6S"
abbreviation KEY_TYPE_LONG_UPS :: u32 where "KEY_TYPE_LONG_UPS \<equiv> KEY_TYPE_LONG1S_UP OR KEY_TYPE_LONG3S_UP OR KEY_TYPE_LONG6S_UP"
abbreviation KEY_TYPE_CLICKS :: u32 where
  "KEY_TYPE_CLICKS \<equiv> KEY_TYPE_SHORT_UP OR KEY_TYPE_DOUBLE_CLICK OR KEY_TYPE_TRIPLE_CLICK OR KEY_TYPE_QUAD_CLICK OR KEY_TYPE_QUINT_CLICK"
abbreviation EV_KEY :: u16 where "EV_KEY \<equiv> 1"
abbreviation KEY_VALUE_UP :: u32 where "KEY_VALUE_UP \<equiv> 0"
abbreviation KEY_VALUE_DOWN :: u32 where "KEY_VALUE_DOWN \<equiv> 1"

datatype key_event = Report u32 | Callback u32

datatype key_dev = Adc_key | Onoff_key | Gpio_key

record input_keypad_info =
  report_work :: "u32 option"
  hold_key_work :: "u32 option"
  callback_work :: "u32 option"
  event_cb :: bool
  press_type :: u32
  press_code :: u16
  report_press_code :: u16
  report_key_value :: u32
  last_report_key_value :: u32
  callback_key_value :: u32
  press_timer :: u32
  last_lradc_key_code :: u8
  click_num :: "4 word"
  key_hold :: bool
  filter_itself :: bool
  combo_mode :: bool
  combo_down_0 :: bool
  combo_down_1 :: bool
  onoff_handle :: bool
  adckey_handle :: bool
  gpiokey_handle :: bool
  long_press_time :: u16
  super_long_press_time :: u16
  super_long_press_6s_time :: u16
  single_click_valid_time :: u16
  quickly_click_duration :: u16
  key_event_cancel_duration :: u16
  hold_delay_time :: u16
  hold_interval_time :: u16
  input_events :: "key_event list"

record key_scan =
  k_dev :: key_dev
  k_type :: u16
  k_code :: u16
  k_value :: u32

record input_manager_info =
  input_manager_lock :: bool
  manager_filter_itself :: bool

definition output_event :: "key_event \<Rightarrow> input_keypad_info \<Rightarrow> input_keypad_info" where
  "output_event e s = s\<lparr>input_events := input_events s @ [e]\<rparr>"

section \<open>The clock\<close>

text \<open>The counter runs at 32 MHz (\<open>CONFIG_SYS_CLOCK_HW_CYCLES_PER_SEC\<close>): \<open>z_tmcvt\<close> divides by the ratio, rounding to the nearest.\<close>

definition k_cyc_to_us_near32 :: "u32 \<Rightarrow> u32" where
  "k_cyc_to_us_near32 t = of_nat ((unat t + 32 div 2) div 32)"

definition uptime_ms :: "u32 \<Rightarrow> u32" where
  "uptime_ms cyc = k_cyc_to_us_near32 cyc div 1000"

section \<open>The works\<close>

definition report_key_event_work_handle :: "input_keypad_info \<Rightarrow> input_keypad_info" where
  "report_key_event_work_handle s =
     (let s = s\<lparr>report_work := None\<rparr>;
          s1 = (if press_type s AND KEY_TYPE_LONG_UPS \<noteq> 0 then s\<lparr>press_type := 0\<rparr>
                else if press_type s AND KEY_TYPE_CLICKS \<noteq> 0 \<and> press_type s AND KEY_TYPE_LONGS = 0 then s\<lparr>press_type := 0\<rparr>
                else s)
      in if filter_itself s1
         then if last_report_key_value s1 AND (KEY_TYPE_CLICKS OR KEY_TYPE_LONG1S_UP) \<noteq> 0 then s1\<lparr>filter_itself := False\<rparr> else s1
         else output_event (Report (last_report_key_value s1)) (s1\<lparr>click_num := 0\<rparr>))"

definition callback_key_event_work_handle :: "input_keypad_info \<Rightarrow> input_keypad_info" where
  "callback_key_event_work_handle s =
     (let s = s\<lparr>callback_work := None\<rparr> in if event_cb s then output_event (Callback (callback_key_value s)) s else s)"

definition check_hold_key_work_handle :: "bool \<Rightarrow> bool \<Rightarrow> input_keypad_info \<Rightarrow> input_keypad_info" where
  "check_hold_key_work_handle locked few_msgs s =
     (let s = s\<lparr>hold_key_work := None\<rparr>
      in if key_hold s
         then let s1 = s\<lparr>hold_key_work := Some (ucast (hold_interval_time s))\<rparr>;
                  key_value = (if locked then 0 else KEY_TYPE_HOLD OR ucast (press_code s1))
              in if key_value = 0 \<or> filter_itself s1 \<or> few_msgs then s1 else output_event (Report key_value) s1
         else s)"

definition get_click_key_type :: "nat \<Rightarrow> u32" where
  "get_click_key_type n =
     (if 1 \<le> n \<and> n \<le> 5
      then [KEY_TYPE_SHORT_UP, KEY_TYPE_DOUBLE_CLICK, KEY_TYPE_TRIPLE_CLICK, KEY_TYPE_QUAD_CLICK, KEY_TYPE_QUINT_CLICK] ! (n - 1) else 0)"

section \<open>A scan\<close>

definition low_code :: "u16 \<Rightarrow> u16" where "low_code c = c AND 0xff"
definition high_code :: "u16 \<Rightarrow> u16" where "high_code c = drop_bit 8 c AND 0xff"

definition is_lradc_input_dev :: "key_dev \<Rightarrow> input_keypad_info \<Rightarrow> bool" where
  "is_lradc_input_dev d s \<longleftrightarrow> adckey_handle s \<and> d = Adc_key"

definition is_lradc_combo_key :: "u16 \<Rightarrow> bool" where
  "is_lradc_combo_key c \<longleftrightarrow> 50 \<le> c \<and> c \<le> 52"

text \<open>The code of a key that is let go, and whether every key of a combination is.\<close>

definition combo_key_up :: "u16 \<Rightarrow> input_keypad_info \<Rightarrow> input_keypad_info" where
  "combo_key_up c s =
     (if low_code (press_code s) = c then s\<lparr>combo_down_0 := False\<rparr>
      else if high_code (press_code s) = c then s\<lparr>combo_down_1 := False\<rparr> else s)"

definition release_code :: "key_scan \<Rightarrow> input_keypad_info \<Rightarrow> input_keypad_info \<times> bool" where
  "release_code v s =
     (if \<not> combo_mode s
      then let s1 = (if \<not> is_lradc_input_dev (k_dev v) s then s\<lparr>press_code := k_code v\<rparr> else s)
           in (s1\<lparr>report_press_code := press_code s1, press_code := 0\<rparr>, True)
      else let s1 = combo_key_up (k_code v) s;
               s2 = (if is_lradc_input_dev (k_dev v) s then combo_key_up (ucast (last_lradc_key_code s1)) s1 else s1);
               s3 = s2\<lparr>report_press_code := press_code s2\<rparr>
           in if \<not> combo_down_0 s3 \<and> \<not> combo_down_1 s3 then (s3\<lparr>combo_mode := False, press_code := 0\<rparr>, True) else (s3, False))"

text \<open>The type of the event of a released key.\<close>

definition release_type :: "input_keypad_info \<Rightarrow> input_keypad_info" where
  "release_type s =
     (if press_type s AND KEY_TYPE_LONG1S \<noteq> 0 then s\<lparr>press_type := (press_type s AND NOT KEY_TYPE_LONG1S) OR KEY_TYPE_LONG1S_UP\<rparr>
      else if press_type s AND KEY_TYPE_LONG3S \<noteq> 0 then s\<lparr>press_type := (press_type s AND NOT KEY_TYPE_LONG3S) OR KEY_TYPE_LONG3S_UP\<rparr>
      else if press_type s AND KEY_TYPE_LONG6S \<noteq> 0 then s\<lparr>press_type := (press_type s AND NOT KEY_TYPE_LONG6S) OR KEY_TYPE_LONG6S_UP\<rparr>
      else let s1 = (if click_num s \<noteq> 0 then s\<lparr>report_work := None\<rparr> else s);
               s2 = (if last_report_key_value s1 = press_type s1 OR ucast (report_press_code s1)
                     then s1\<lparr>click_num := click_num s1 + 1\<rparr> else s1\<lparr>click_num := 1\<rparr>)
           in s2\<lparr>press_type := get_click_key_type (unat (click_num s2))\<rparr>)"

text \<open>\<open>None\<close>: the scan ends here, because another key of the combination is still down.\<close>

definition key_released :: "u32 \<Rightarrow> key_scan \<Rightarrow> input_keypad_info \<Rightarrow> input_keypad_info \<times> bool option" where
  "key_released now v s =
     (let (s1, go) = release_code v s
      in if \<not> go then (s1, None)
         else let s2 = release_type (s1\<lparr>key_hold := False\<rparr>);
                  time_ms = now - press_timer s2;
                  (s3, need_report) =
                    (if press_type s2 AND KEY_TYPE_LONG_UPS \<noteq> 0 then (s2, True)
                     else if time_ms \<le> ucast (single_click_valid_time s2) then (s2, True)
                     else (s2\<lparr>press_type := 0, click_num := 0, report_work := None\<rparr>, False))
              in (s3\<lparr>press_timer := now\<rparr>, Some need_report))"

text \<open>A new key that goes down: the first one, or the second one of a combination.\<close>

definition remember_lradc :: "key_scan \<Rightarrow> input_keypad_info \<Rightarrow> input_keypad_info" where
  "remember_lradc v s = (if is_lradc_input_dev (k_dev v) s then s\<lparr>last_lradc_key_code := ucast (k_code v)\<rparr> else s)"

definition place_key :: "key_scan \<Rightarrow> input_keypad_info \<Rightarrow> input_keypad_info" where
  "place_key v s =
     (if low_code (press_code s) = 0
         \<or> (press_code s = ucast (last_lradc_key_code s) \<and> is_lradc_input_dev (k_dev v) s \<and> \<not> is_lradc_combo_key (press_code s))
      then remember_lradc v (s\<lparr>press_code := k_code v, combo_mode := False, combo_down_0 := True\<rparr>)
      else if high_code (press_code s) = 0 \<and> \<not> (press_code s = ucast (last_lradc_key_code s) \<and> is_lradc_input_dev (k_dev v) s)
      then remember_lradc v
             (s\<lparr>press_code := (if press_code s < k_code v then push_bit 8 (press_code s) OR k_code v else push_bit 8 (k_code v) OR press_code s),
                combo_mode := True, combo_down_1 := True\<rparr>)
      else s)"

definition new_key_down :: "u32 \<Rightarrow> key_scan \<Rightarrow> input_keypad_info \<Rightarrow> input_keypad_info" where
  "new_key_down now v s = (place_key v s)\<lparr>press_timer := now, filter_itself := False\<rparr>"

definition long_level :: "u32 \<Rightarrow> u32 \<Rightarrow> input_keypad_info \<Rightarrow> input_keypad_info \<times> bool" where
  "long_level flag others s =
     (if press_type s AND flag = 0
      then (s\<lparr>report_press_code := press_code s,
              press_type := (press_type s AND NOT others) OR flag OR get_click_key_type (unat (click_num s))\<rparr>, True)
      else (s, False))"

text \<open>A key that stays down.\<close>

definition long_press_check :: "u32 \<Rightarrow> input_keypad_info \<Rightarrow> input_keypad_info \<times> bool" where
  "long_press_check time_ms s =
     (if ucast (super_long_press_6s_time s) \<le> time_ms then long_level KEY_TYPE_LONG6S (KEY_TYPE_LONG1S OR KEY_TYPE_LONG3S) s
      else if ucast (super_long_press_time s) \<le> time_ms then long_level KEY_TYPE_LONG3S (KEY_TYPE_LONG1S OR KEY_TYPE_LONG6S) s
      else if ucast (long_press_time s) \<le> time_ms then long_level KEY_TYPE_LONG1S (KEY_TYPE_LONG3S OR KEY_TYPE_LONG6S) s
      else (s, False))"

definition hold_check :: "u32 \<Rightarrow> input_keypad_info \<Rightarrow> input_keypad_info" where
  "hold_check time_ms s =
     (if ucast (hold_delay_time s) \<le> time_ms \<and> click_num s = 0 \<and> \<not> key_hold s \<and> press_type s AND KEY_TYPE_CLICKS = 0
      then s\<lparr>key_hold := True, hold_key_work := Some 0\<rparr> else s)"

definition key_kept_down :: "u32 \<Rightarrow> input_keypad_info \<Rightarrow> input_keypad_info \<times> bool" where
  "key_kept_down now s =
     (let time_ms = now - press_timer s;
          (s1, need_report) = long_press_check time_ms s
      in (hold_check time_ms s1, need_report))"

definition report_delay :: "input_keypad_info \<Rightarrow> u32" where
  "report_delay s = ucast (quickly_click_duration s) + ucast (key_event_cancel_duration s)"

definition scan_report :: "bool \<Rightarrow> key_scan \<Rightarrow> bool \<Rightarrow> input_keypad_info \<Rightarrow> input_keypad_info" where
  "scan_report locked v need_report s =
     (let s1 = (if event_cb s then s\<lparr>callback_key_value := push_bit 31 (k_value v) OR ucast (k_code v), callback_work := Some 0\<rparr> else s);
          s2 = (if k_value v = KEY_VALUE_DOWN \<and> click_num s1 \<noteq> 0 then s1\<lparr>report_work := Some (report_delay s1)\<rparr> else s1)
      in if need_report
         then let value = press_type s2 OR ucast (report_press_code s2);
                  s3 = s2\<lparr>report_key_value := value, last_report_key_value := value\<rparr>
              in if locked then s3\<lparr>click_num := 0\<rparr>
                 else if press_type s3 AND (KEY_TYPE_LONGS OR KEY_TYPE_LONG_UPS) \<noteq> 0 then s3\<lparr>report_work := Some 0\<rparr>
                 else s3\<lparr>report_work := Some (report_delay s3)\<rparr>
         else s2)"

definition keypad_scan_callback :: "bool \<Rightarrow> u32 \<Rightarrow> key_scan \<Rightarrow> input_keypad_info \<Rightarrow> input_keypad_info" where
  "keypad_scan_callback locked cyc v s =
     (if k_type v \<noteq> EV_KEY then s
      else let now = uptime_ms cyc;
               (s1, result) =
                 (if k_value v = KEY_VALUE_UP then key_released now v s
                  else if k_value v = KEY_VALUE_DOWN
                  then if k_code v \<noteq> low_code (press_code s) \<and> k_code v \<noteq> high_code (press_code s)
                       then (new_key_down now v s, Some False)
                       else let (s', need_report) = key_kept_down now s in (s', Some need_report)
                  else (s, Some False))
           in case result of None \<Rightarrow> s1 | Some need_report \<Rightarrow> scan_report locked v need_report s1)"

section \<open>Start up\<close>

record input_dev_init_param =
  p_long_press_time :: u16
  p_super_long_press_time :: u16
  p_super_long_press_6s_time :: u16
  p_single_click_valid_time :: u16
  p_quickly_click_duration :: u16
  p_key_event_cancel_duration :: u16
  p_hold_delay_time :: u16
  p_hold_interval_time :: u16

definition input_keypad_device_init :: "(key_dev \<Rightarrow> bool) \<Rightarrow> bool \<Rightarrow> input_keypad_info" where
  "input_keypad_device_init opens cb =
     \<lparr>report_work = None, hold_key_work = None, callback_work = None, event_cb = cb, press_type = 0, press_code = 0, report_press_code = 0,
      report_key_value = 0, last_report_key_value = 0, callback_key_value = 0, press_timer = 0, last_lradc_key_code = 0, click_num = 0,
      key_hold = False, filter_itself = False, combo_mode = False, combo_down_0 = False, combo_down_1 = False,
      onoff_handle = opens Onoff_key, adckey_handle = opens Adc_key, gpiokey_handle = opens Gpio_key,
      long_press_time = 400, super_long_press_time = 2000, super_long_press_6s_time = 6000, single_click_valid_time = 500,
      quickly_click_duration = 300, key_event_cancel_duration = 50, hold_delay_time = 500, hold_interval_time = 200, input_events = []\<rparr>"

definition input_keypad_set_init_param :: "input_dev_init_param \<Rightarrow> input_keypad_info \<Rightarrow> input_keypad_info" where
  "input_keypad_set_init_param d s =
     s\<lparr>long_press_time := p_long_press_time d, super_long_press_time := p_super_long_press_time d,
       super_long_press_6s_time := p_super_long_press_6s_time d, single_click_valid_time := p_single_click_valid_time d,
       quickly_click_duration := p_quickly_click_duration d, key_event_cancel_duration := p_key_event_cancel_duration d,
       hold_delay_time := p_hold_delay_time d, hold_interval_time := p_hold_interval_time d\<rparr>"

section \<open>Asking a key directly\<close>

definition inquiry_handle :: "bool \<Rightarrow> input_keypad_info \<Rightarrow> bool" where
  "inquiry_handle inner_onoff s = (if inner_onoff then onoff_handle s else adckey_handle s)"

definition input_keypad_onoff_inquiry_enable :: "bool \<Rightarrow> input_keypad_info option \<Rightarrow> input_keypad_info option \<times> int" where
  "input_keypad_onoff_inquiry_enable inner_onoff keypad =
     (case keypad of None \<Rightarrow> (None, - 1)
      | Some s \<Rightarrow>
          if \<not> inquiry_handle inner_onoff s then (Some s, - 1)
          else (Some (s\<lparr>press_type := 0, press_code := 0, report_press_code := 0, report_key_value := 0, callback_key_value := 0, press_timer := 0,
                        click_num := 0, key_hold := False\<rparr>), 0))"

text \<open>\<open>inquire\<close> is \<open>key_device_inquiry\<close>, which fills in the code and the value; the result is the value as \<open>int\<close>.\<close>

definition input_keypad_onoff_inquiry :: "(u16 \<Rightarrow> u16 \<times> u32) \<Rightarrow> bool \<Rightarrow> int \<Rightarrow> input_keypad_info option \<Rightarrow> int" where
  "input_keypad_onoff_inquiry inquire inner_onoff keycode keypad =
     (case keypad of None \<Rightarrow> - 1
      | Some s \<Rightarrow>
          if \<not> inquiry_handle inner_onoff s then - 1
          else let (code, val) = inquire (if inner_onoff then 0 else of_int keycode)
               in if uint code = keycode then sint val else 0)"

section \<open>The input manager\<close>

record input_state =
  input_manager :: input_manager_info
  keypad :: input_keypad_info

definition input_manager_islock :: "input_state \<Rightarrow> bool" where
  "input_manager_islock w = input_manager_lock (input_manager w)"

definition input_manager_do_lock :: "input_state \<Rightarrow> input_state" where
  "input_manager_do_lock w = w\<lparr>input_manager := (input_manager w)\<lparr>input_manager_lock := True\<rparr>\<rparr>"

definition input_manager_unlock :: "input_state \<Rightarrow> input_state" where
  "input_manager_unlock w = w\<lparr>input_manager := (input_manager w)\<lparr>input_manager_lock := False\<rparr>\<rparr>"

definition input_manager_filter_key_itself :: "input_state \<Rightarrow> input_state" where
  "input_manager_filter_key_itself w = w\<lparr>input_manager := (input_manager w)\<lparr>manager_filter_itself := True\<rparr>\<rparr>"

definition input_manager_init :: "(key_dev \<Rightarrow> bool) \<Rightarrow> bool \<Rightarrow> input_state" where
  "input_manager_init opens cb =
     input_manager_do_lock \<lparr>input_manager = \<lparr>input_manager_lock = False, manager_filter_itself = False\<rparr>,
                            keypad = input_keypad_device_init opens cb\<rparr>"

definition input_manager_set_init_param :: "input_dev_init_param \<Rightarrow> input_state \<Rightarrow> input_state" where
  "input_manager_set_init_param d w = w\<lparr>keypad := input_keypad_set_init_param d (keypad w)\<rparr>"

text \<open>What can happen: a scan, a work that is pending, a call of the manager.\<close>

inductive input_step :: "input_state \<Rightarrow> input_state \<Rightarrow> bool" where
  scan: "input_step w (w\<lparr>keypad := keypad_scan_callback (input_manager_islock w) cyc v (keypad w)\<rparr>)"
| report: "report_work (keypad w) = Some t \<Longrightarrow> input_step w (w\<lparr>keypad := report_key_event_work_handle (keypad w)\<rparr>)"
| hold: "hold_key_work (keypad w) = Some t
    \<Longrightarrow> input_step w (w\<lparr>keypad := check_hold_key_work_handle (input_manager_islock w) few_msgs (keypad w)\<rparr>)"
| callback: "callback_work (keypad w) = Some t \<Longrightarrow> input_step w (w\<lparr>keypad := callback_key_event_work_handle (keypad w)\<rparr>)"
| lock: "input_step w (input_manager_do_lock w)"
| unlock: "input_step w (input_manager_unlock w)"
| filter_itself: "input_step w (input_manager_filter_key_itself w)"
| param: "input_step w (input_manager_set_init_param d w)"

end
