(* ===== verification/Ui_Key_Map.thy ===== *)
theory Ui_Key_Map
  imports Input_Keypad "HOL-Library.Monad_Syntax"
begin

text \<open>
  The key map of \<^verbatim>\<open>src/application/bt_earphone/src/libsrc/ui_key_map/ui_key_map.c\<close>: which function a key event has. The map of the
  configuration is overlaid with the map a phone application has set, which is synchronised between the two earphones of a
  pair; from it the map of a view is made. The filter counts the requests to ignore keys.

  The configuration, the role in the pair, the channel of the device and the outcome of the requests of memory are arguments; memory
  is zeroed (\<open>heap_malloc_correct\<close>). What the code sends or stores elsewhere is a list of outputs. \<open>None\<close> is a write outside an array.
\<close>

unbundle bit_operations_syntax

section \<open>Data\<close>

abbreviation CFG_MAX_APP_KEY_FUNC_MAPS :: nat where "CFG_MAX_APP_KEY_FUNC_MAPS \<equiv> 16"
abbreviation CFG_MAX_KEY_FUNC_MAPS :: nat where "CFG_MAX_KEY_FUNC_MAPS \<equiv> 40"
abbreviation CFG_MAX_COMBO_KEY_MAPS :: nat where "CFG_MAX_COMBO_KEY_MAPS \<equiv> 8"
abbreviation KEY_EVENT_CUSTOMED_SEQUENCES :: u32 where "KEY_EVENT_CUSTOMED_SEQUENCES \<equiv> 3"
abbreviation KEY_DEVICE_TWS_UNPAIRED :: "'a::len word" where "KEY_DEVICE_TWS_UNPAIRED \<equiv> 1"
abbreviation KEY_DEVICE_TWS_PAIRED :: "'a::len word" where "KEY_DEVICE_TWS_PAIRED \<equiv> 2"
abbreviation KEY_DEVICE_CHANNEL_L :: "'a::len word" where "KEY_DEVICE_CHANNEL_L \<equiv> 4"
abbreviation KEY_DEVICE_CHANNEL_R :: "'a::len word" where "KEY_DEVICE_CHANNEL_R \<equiv> 8"
abbreviation AUDIO_DEVICE_CHANNEL_L :: u8 where "AUDIO_DEVICE_CHANNEL_L \<equiv> 1"
abbreviation AUDIO_DEVICE_CHANNEL_R :: u8 where "AUDIO_DEVICE_CHANNEL_R \<equiv> 2"

record CFG_Type_Key_Func_Map =
  Key_Func :: u8
  Key_Value :: u8
  LR_Device :: u8
  Key_Event :: u16

record CFG_Type_Combo_Key_Map =
  Combo_Func :: u8
  Key_Value_1 :: u8
  Key_Value_2 :: u8
  Combo_LR_Device :: u8
  Combo_Event :: u16

record CFG_Type_Customed_Key_Sequence =
  Key_Sequence :: u16
  Key_Event_1 :: u16
  Key_Event_2 :: u16

record app_key_map_info_t =
  is_valid :: u8
  tws_synced :: u8
  app_map :: "CFG_Type_Key_Func_Map list"

record ui_key_func_t =
  key_func :: u32
  func_state :: u32

record ui_key_map_t =
  key_val :: u32
  key_type :: u32
  app_state :: u32
  app_msg :: u32
  key_policy :: u32

datatype btsrv_role_e = BTSRV_TWS_NONE | BTSRV_TWS_PENDING | BTSRV_TWS_MASTER | BTSRV_TWS_SLAVE

datatype key_output = MSG_APP_SYNC_KEY_MAP | TWS_EVENT_APP_SETTING_KEY_MAP app_key_map_info_t | APP_KEYMAP_INFO app_key_map_info_t

record ui_key_context_t =
  cfg_key_func_maps :: "CFG_Type_Key_Func_Map list option"
  cfg_combo_key_maps :: "CFG_Type_Combo_Key_Map list option"
  cfg_customed_key_seq :: "CFG_Type_Customed_Key_Sequence list option"
  filter_key :: u16
  local_app_key_map_info :: "app_key_map_info_t option"
  key_mallocs :: nat
  key_outputs :: "key_output list"

record key_env =
  config_func_maps :: "CFG_Type_Key_Func_Map list"
  config_combo_maps :: "CFG_Type_Combo_Key_Map list"
  config_key_sequences :: "CFG_Type_Customed_Key_Sequence list"
  tws_dev_role :: btsrv_role_e
  hw_sel_dev_channel :: u8
  sw_sel_dev_channel :: u8
  key_malloc_ok :: "nat \<Rightarrow> bool"

definition key_emit :: "key_output \<Rightarrow> ui_key_context_t \<Rightarrow> ui_key_context_t" where
  "key_emit x s = s\<lparr>key_outputs := key_outputs s @ [x]\<rparr>"

definition app_mem_malloc_key :: "key_env \<Rightarrow> ui_key_context_t \<Rightarrow> ui_key_context_t \<times> bool" where
  "app_mem_malloc_key E s = (s\<lparr>key_mallocs := key_mallocs s + 1\<rparr>, key_malloc_ok E (key_mallocs s))"

definition empty_key :: CFG_Type_Key_Func_Map where
  "empty_key = \<lparr>Key_Func = 0, Key_Value = 0, LR_Device = 0, Key_Event = 0\<rparr>"

definition zero_info :: app_key_map_info_t where
  "zero_info = \<lparr>is_valid = 0, tws_synced = 0, app_map = replicate CFG_MAX_APP_KEY_FUNC_MAPS empty_key\<rparr>"

definition key_none :: "CFG_Type_Key_Func_Map \<Rightarrow> bool" where
  "key_none e \<longleftrightarrow> Key_Func e = 0 \<or> Key_Value e = 0 \<or> Key_Event e = 0"

section \<open>The map of the application\<close>

definition ui_key_notify_remap_keymap :: "ui_key_context_t \<Rightarrow> ui_key_context_t \<times> int" where
  "ui_key_notify_remap_keymap s =
     (if local_app_key_map_info s = None then (s, - 1) else (key_emit MSG_APP_SYNC_KEY_MAP s, 0))"

text \<open>The stored property: its contents when all 98 bytes of the structure were read, else the result of \<open>property_get\<close>.\<close>

definition ui_app_setting_key_map_init :: "key_env \<Rightarrow> int + app_key_map_info_t \<Rightarrow> ui_key_context_t \<Rightarrow> ui_key_context_t \<times> int" where
  "ui_app_setting_key_map_init E stored s =
     (let (s1, ok) = app_mem_malloc_key E s
      in if \<not> ok then (s1\<lparr>local_app_key_map_info := None\<rparr>, - 1)
         else case stored of
                Inr info \<Rightarrow> (s1\<lparr>local_app_key_map_info := Some info\<rparr>, 98)
              | Inl ret \<Rightarrow> (s1\<lparr>local_app_key_map_info := None\<rparr>, ret))"

definition same_key :: "CFG_Type_Key_Func_Map \<Rightarrow> CFG_Type_Key_Func_Map \<Rightarrow> bool" where
  "same_key a b \<longleftrightarrow> Key_Value a = Key_Value b \<and> Key_Event a = Key_Event b \<and> LR_Device a = LR_Device b"

definition update_key :: "CFG_Type_Key_Func_Map \<Rightarrow> CFG_Type_Key_Func_Map list \<times> nat \<Rightarrow> CFG_Type_Key_Func_Map list \<times> nat" where
  "update_key e mm =
     (let (m, match) = mm
      in if key_none e then mm
         else case find (\<lambda>j. same_key (m ! j) e) [0..<CFG_MAX_APP_KEY_FUNC_MAPS] of
                Some j \<Rightarrow> if Key_Func (m ! j) \<noteq> Key_Func e then (m[j := (m ! j)\<lparr>Key_Func := Key_Func e\<rparr>], match + 1) else mm
              | None \<Rightarrow>
                  (case find (\<lambda>j. key_none (m ! j)) [0..<CFG_MAX_APP_KEY_FUNC_MAPS] of
                     Some j \<Rightarrow> (m[j := e], match + 1)
                   | None \<Rightarrow> mm))"

text \<open>The map of this device, sent to the other one.\<close>

definition tws_send_map :: "ui_key_context_t \<Rightarrow> ui_key_context_t" where
  "tws_send_map s = (case local_app_key_map_info s of None \<Rightarrow> s | Some info \<Rightarrow> key_emit (TWS_EVENT_APP_SETTING_KEY_MAP info) s)"

definition ui_app_setting_key_map_update :: "key_env \<Rightarrow> CFG_Type_Key_Func_Map list \<Rightarrow> ui_key_context_t \<Rightarrow> ui_key_context_t \<times> int" where
  "ui_app_setting_key_map_update E key_func_map s =
     (let (s1, info) = (case local_app_key_map_info s of
            Some info \<Rightarrow> (s, Some info)
          | None \<Rightarrow> let (s', ok) = app_mem_malloc_key E s in (s', if ok then Some zero_info else None))
      in case info of
           None \<Rightarrow> (s1, - 1)
         | Some info \<Rightarrow>
             let (m, match) = fold update_key key_func_map (app_map info, 0)
             in if match = 0 then (s1\<lparr>local_app_key_map_info := Some (info\<lparr>app_map := m\<rparr>)\<rparr>, 0)
                else let info1 = \<lparr>is_valid = 1, tws_synced = (if tws_dev_role E \<noteq> BTSRV_TWS_NONE then 1 else 0), app_map = m\<rparr>;
                         s2 = key_emit (APP_KEYMAP_INFO info1) (s1\<lparr>local_app_key_map_info := Some info1\<rparr>);
                         s3 = (if tws_dev_role E \<noteq> BTSRV_TWS_NONE then tws_send_map s2 else s2)
                     in (fst (ui_key_notify_remap_keymap s3), 0))"

definition ui_app_setting_sync_key_map :: "btsrv_role_e \<Rightarrow> app_key_map_info_t \<Rightarrow> app_key_map_info_t \<Rightarrow> app_key_map_info_t \<times> int" where
  "ui_app_setting_sync_key_map dev_role local_map remote_map =
     (let use_remote =
        (if is_valid local_map = 0 then is_valid remote_map = 1
         else if tws_synced local_map = 1 then is_valid remote_map = 1 \<and> tws_synced remote_map = 0
         else is_valid remote_map = 1 \<and> tws_synced remote_map = 0 \<and> dev_role = BTSRV_TWS_SLAVE)
      in if use_remote then (remote_map\<lparr>tws_synced := 1\<rparr>, 1)
         else if is_valid local_map = 1 \<and> tws_synced local_map = 0 then (local_map\<lparr>tws_synced := 1\<rparr>, 0)
         else (local_map, - 1))"

definition ui_app_setting_key_map_tws_sync :: "key_env \<Rightarrow> app_key_map_info_t option \<Rightarrow> ui_key_context_t \<Rightarrow> ui_key_context_t" where
  "ui_app_setting_key_map_tws_sync E app_key_map_info s =
     (case app_key_map_info of
        None \<Rightarrow> tws_send_map s
      | Some remote \<Rightarrow>
          let (s1, info) = (case local_app_key_map_info s of
                Some info \<Rightarrow> (s, Some info)
              | None \<Rightarrow> let (s', ok) = app_mem_malloc_key E s in (s', if ok then Some zero_info else None))
          in case info of
               None \<Rightarrow> s1
             | Some info \<Rightarrow>
                 let (info1, retval) = ui_app_setting_sync_key_map (tws_dev_role E) info remote;
                     s2 = s1\<lparr>local_app_key_map_info := Some info1\<rparr>
                 in if 0 \<le> retval
                    then let s3 = key_emit (APP_KEYMAP_INFO info1) s2 in if retval = 1 then fst (ui_key_notify_remap_keymap s3) else s3
                    else s2)"

section \<open>The map of the configuration\<close>

definition ui_key_get_customed_key_seq :: "key_env \<Rightarrow> u32 \<Rightarrow> ui_key_context_t \<Rightarrow> ui_key_context_t \<times> u32" where
  "ui_key_get_customed_key_seq E key_event s =
     (if key_event AND KEY_EVENT_CUSTOMED_SEQUENCES = 0 then (s, key_event)
      else let (s1, ok) = (if cfg_customed_key_seq s = None
             then let (s', ok) = app_mem_malloc_key E s in (if ok then s'\<lparr>cfg_customed_key_seq := Some (config_key_sequences E)\<rparr> else s', ok)
             else (s, True))
           in if \<not> ok then (s1, 0)
              else case find (\<lambda>seq. key_event = ucast (Key_Sequence seq)) (the (cfg_customed_key_seq s1)) of
                     Some seq \<Rightarrow> (s1, ucast (Key_Event_1 seq OR Key_Event_2 seq))
                   | None \<Rightarrow> (s1, 0))"

text \<open>One entry of the map of the application, laid over the map of the configuration. A change for the right device sets
  the bit \<open>AUDIO_DEVICE_CHANNEL_R\<close>, as the code does.\<close>

definition is_channel :: "key_env \<Rightarrow> u8 \<Rightarrow> bool" where
  "is_channel E c \<longleftrightarrow> hw_sel_dev_channel E = c \<or> sw_sel_dev_channel E = c"

definition remap_key :: "key_env \<Rightarrow> CFG_Type_Key_Func_Map \<Rightarrow> CFG_Type_Key_Func_Map list \<Rightarrow> CFG_Type_Key_Func_Map list" where
  "remap_key E a cfg =
     (if key_none a then cfg
      else case find (\<lambda>j. Key_Value (cfg ! j) = Key_Value a \<and> Key_Event (cfg ! j) = Key_Event a \<and> Key_Func (cfg ! j) \<noteq> Key_Func a) [0..<CFG_MAX_KEY_FUNC_MAPS] of
             Some j \<Rightarrow>
               let c = cfg ! j; lr = LR_Device c AND NOT (KEY_DEVICE_CHANNEL_L OR KEY_DEVICE_CHANNEL_R)
               in if LR_Device a AND KEY_DEVICE_CHANNEL_L \<noteq> 0
                  then if is_channel E AUDIO_DEVICE_CHANNEL_L
                       then cfg[j := c\<lparr>LR_Device := lr OR KEY_DEVICE_CHANNEL_L, Key_Func := Key_Func a\<rparr>] else cfg
                  else if LR_Device a AND KEY_DEVICE_CHANNEL_R \<noteq> 0
                  then if is_channel E AUDIO_DEVICE_CHANNEL_R
                       then cfg[j := c\<lparr>LR_Device := lr OR AUDIO_DEVICE_CHANNEL_R, Key_Func := Key_Func a\<rparr>] else cfg
                  else cfg
           | None \<Rightarrow>
               (case find (\<lambda>j. key_none (cfg ! j)) [0..<CFG_MAX_KEY_FUNC_MAPS] of
                  Some j \<Rightarrow> cfg[j := a]
                | None \<Rightarrow> cfg))"

definition load_func_maps :: "key_env \<Rightarrow> ui_key_context_t \<Rightarrow> CFG_Type_Key_Func_Map list" where
  "load_func_maps E s =
     (case local_app_key_map_info s of
        Some info \<Rightarrow> if is_valid info \<noteq> 0 then fold (remap_key E) (app_map info) (config_func_maps E) else config_func_maps E
      | None \<Rightarrow> config_func_maps E)"

definition ui_key_func_get_config :: "key_env \<Rightarrow> nat \<Rightarrow> ui_key_context_t \<Rightarrow> ui_key_context_t \<times> CFG_Type_Key_Func_Map option" where
  "ui_key_func_get_config E cfg_index s =
     (let (s1, ok) = (if cfg_key_func_maps s = None
        then let (s', ok) = app_mem_malloc_key E s in (if ok then s'\<lparr>cfg_key_func_maps := Some (load_func_maps E s)\<rparr> else s', ok)
        else (s, True))
      in if \<not> ok then (s1, None)
         else let c = the (cfg_key_func_maps s1) ! cfg_index
              in if key_none c then (s1, None)
                 else if ucast (Key_Event c) AND KEY_EVENT_CUSTOMED_SEQUENCES \<noteq> 0
                 then let (s2, ev) = ui_key_get_customed_key_seq E (ucast (Key_Event c)) s1; c = c\<lparr>Key_Event := ucast ev\<rparr>
                      in if Key_Event c = 0 then (s2, None) else (s2, Some c)
                 else (s1, Some c))"

definition ui_combo_key_get_config :: "key_env \<Rightarrow> nat \<Rightarrow> ui_key_context_t \<Rightarrow> ui_key_context_t \<times> CFG_Type_Combo_Key_Map option" where
  "ui_combo_key_get_config E cfg_index s =
     (let (s1, ok) = (if cfg_combo_key_maps s = None
        then let (s', ok) = app_mem_malloc_key E s in (if ok then s'\<lparr>cfg_combo_key_maps := Some (config_combo_maps E)\<rparr> else s', ok)
        else (s, True))
      in if \<not> ok then (s1, None)
         else let c = the (cfg_combo_key_maps s1) ! cfg_index
              in if Combo_Func c = 0 \<or> Key_Value_1 c = 0 \<or> Key_Value_2 c = Key_Value_1 c \<or> Combo_Event c = 0 then (s1, None)
                 else if ucast (Combo_Event c) AND KEY_EVENT_CUSTOMED_SEQUENCES \<noteq> 0
                 then let (s2, ev) = ui_key_get_customed_key_seq E (ucast (Combo_Event c)) s1; c = c\<lparr>Combo_Event := ucast ev\<rparr>
                      in if Combo_Event c = 0 then (s2, None) else (s2, Some c)
                 else (s1, Some c))"

definition ui_key_func_map_end :: "ui_key_context_t \<Rightarrow> ui_key_context_t" where
  "ui_key_func_map_end s = s\<lparr>cfg_key_func_maps := None, cfg_combo_key_maps := None, cfg_customed_key_seq := None\<rparr>"

section \<open>The map of a view\<close>

definition func_entry :: "CFG_Type_Key_Func_Map \<Rightarrow> ui_key_func_t \<Rightarrow> ui_key_map_t" where
  "func_entry c p = \<lparr>key_val = ucast (Key_Value c), key_type = push_bit 16 (ucast (Key_Event c)),
     app_state = func_state p OR push_bit 28 (ucast (LR_Device c)), app_msg = key_func p, key_policy = 0\<rparr>"

definition combo_entry :: "CFG_Type_Combo_Key_Map \<Rightarrow> ui_key_func_t \<Rightarrow> ui_key_map_t" where
  "combo_entry c p =
     \<lparr>key_val = (if Key_Value_1 c < Key_Value_2 c then push_bit 8 (ucast (Key_Value_1 c)) OR ucast (Key_Value_2 c)
        else push_bit 8 (ucast (Key_Value_2 c)) OR ucast (Key_Value_1 c)),
      key_type = push_bit 16 (ucast (Combo_Event c)), app_state = func_state p OR push_bit 28 (ucast (Combo_LR_Device c)),
      app_msg = key_func p, key_policy = 0\<rparr>"

definition zero_map :: ui_key_map_t where
  "zero_map = \<lparr>key_val = 0, key_type = 0, app_state = 0, app_msg = 0, key_policy = 0\<rparr>"

fun count_funcs :: "key_env \<Rightarrow> ui_key_func_t list \<Rightarrow> nat list \<Rightarrow> ui_key_context_t \<Rightarrow> ui_key_context_t \<times> nat" where
  "count_funcs E ptable [] s = (s, 0)"
| "count_funcs E ptable (i # is) s =
     (let (s1, c) = ui_key_func_get_config E i s; (s2, n) = count_funcs E ptable is s1
      in (s2, (case c of None \<Rightarrow> 0 | Some c \<Rightarrow> length (filter (\<lambda>p. ucast (Key_Func c) = key_func p) ptable)) + n))"

fun count_combos :: "key_env \<Rightarrow> ui_key_func_t list \<Rightarrow> nat list \<Rightarrow> ui_key_context_t \<Rightarrow> ui_key_context_t \<times> nat" where
  "count_combos E ptable [] s = (s, 0)"
| "count_combos E ptable (i # is) s =
     (let (s1, c) = ui_combo_key_get_config E i s; (s2, n) = count_combos E ptable is s1
      in (s2, (case c of None \<Rightarrow> 0 | Some c \<Rightarrow> length (filter (\<lambda>p. ucast (Combo_Func c) = key_func p) ptable)) + n))"

text \<open>Writing the entries of one key from an index on, inside the array.\<close>

fun fill_entries :: "ui_key_map_t list \<Rightarrow> ui_key_map_t list \<times> nat \<Rightarrow> (ui_key_map_t list \<times> nat) option" where
  "fill_entries [] ki = Some ki"
| "fill_entries (e # es) (keymaps, index) =
     (if index < length keymaps then fill_entries es (keymaps[index := e], index + 1) else None)"

fun fill_funcs :: "key_env \<Rightarrow> ui_key_func_t list \<Rightarrow> nat list \<Rightarrow> ui_key_context_t \<Rightarrow> ui_key_map_t list \<times> nat \<Rightarrow> (ui_key_context_t \<times> ui_key_map_t list \<times> nat) option" where
  "fill_funcs E ptable [] s ki = Some (s, ki)"
| "fill_funcs E ptable (i # is) s ki =
     (let (s1, c) = ui_key_func_get_config E i s
      in do {
        ki1 \<leftarrow> (case c of None \<Rightarrow> Some ki | Some c \<Rightarrow> fill_entries (map (func_entry c) (filter (\<lambda>p. ucast (Key_Func c) = key_func p) ptable)) ki);
        fill_funcs E ptable is s1 ki1
      })"

fun fill_combos :: "key_env \<Rightarrow> ui_key_func_t list \<Rightarrow> nat list \<Rightarrow> ui_key_context_t \<Rightarrow> ui_key_map_t list \<times> nat \<Rightarrow> (ui_key_context_t \<times> ui_key_map_t list \<times> nat) option" where
  "fill_combos E ptable [] s ki = Some (s, ki)"
| "fill_combos E ptable (i # is) s ki =
     (let (s1, c) = ui_combo_key_get_config E i s
      in do {
        ki1 \<leftarrow> (case c of None \<Rightarrow> Some ki | Some c \<Rightarrow> fill_entries (map (combo_entry c) (filter (\<lambda>p. ucast (Combo_Func c) = key_func p) ptable)) ki);
        fill_combos E ptable is s1 ki1
      })"

definition ui_key_map_create :: "key_env \<Rightarrow> ui_key_func_t list \<Rightarrow> ui_key_context_t \<Rightarrow> (ui_key_context_t \<times> ui_key_map_t list option) option" where
  "ui_key_map_create E ptable s =
     (let (s1, n1) = count_funcs E ptable [0..<CFG_MAX_KEY_FUNC_MAPS] s;
          (s2, n2) = count_combos E ptable [0..<CFG_MAX_COMBO_KEY_MAPS] s1;
          match = n1 + n2
      in if match = 0 then Some (ui_key_func_map_end s2, None)
         else let (s3, ok) = app_mem_malloc_key E s2
              in if \<not> ok then Some (ui_key_func_map_end s3, None)
                 else do {
                   (s4, ki) \<leftarrow> fill_funcs E ptable [0..<CFG_MAX_KEY_FUNC_MAPS] s3 (replicate (match + 1) zero_map, 0);
                   (s5, keymaps, index) \<leftarrow> fill_combos E ptable [0..<CFG_MAX_COMBO_KEY_MAPS] s4 ki;
                   Some (ui_key_func_map_end s5, Some keymaps)
                 })"

section \<open>Device type and filter\<close>

definition ui_key_check_dev_type :: "key_env \<Rightarrow> u32 \<Rightarrow> bool" where
  "ui_key_check_dev_type E dev_type =
     (let paired = (tws_dev_role E = BTSRV_TWS_MASTER \<or> tws_dev_role E = BTSRV_TWS_SLAVE)
      in if dev_type AND KEY_DEVICE_TWS_PAIRED \<noteq> 0 \<and> dev_type AND KEY_DEVICE_TWS_UNPAIRED = 0 \<and> \<not> paired then False
         else if dev_type AND KEY_DEVICE_TWS_UNPAIRED \<noteq> 0 \<and> dev_type AND KEY_DEVICE_TWS_PAIRED = 0 \<and> paired then False
         else if dev_type AND KEY_DEVICE_CHANNEL_L \<noteq> 0 \<and> dev_type AND KEY_DEVICE_CHANNEL_R = 0 \<and>
           hw_sel_dev_channel E \<noteq> AUDIO_DEVICE_CHANNEL_L \<and> sw_sel_dev_channel E \<noteq> AUDIO_DEVICE_CHANNEL_L then False
         else if dev_type AND KEY_DEVICE_CHANNEL_R \<noteq> 0 \<and> dev_type AND KEY_DEVICE_CHANNEL_L = 0 \<and>
           hw_sel_dev_channel E \<noteq> AUDIO_DEVICE_CHANNEL_R \<and> sw_sel_dev_channel E \<noteq> AUDIO_DEVICE_CHANNEL_R then False
         else True)"

text \<open>The filter uses the lock of the input manager, which other parts of the system use as well.\<close>

definition ui_key_filter :: "bool \<Rightarrow> ui_key_context_t \<times> input_state \<Rightarrow> ui_key_context_t \<times> input_state" where
  "ui_key_filter on = (\<lambda>(s, w).
     if on then
       let w1 = (if filter_key s = 0 then input_manager_do_lock w else w)
       in (s\<lparr>filter_key := filter_key s + 1\<rparr>, w1)
     else if 0 < filter_key s then
       let s1 = s\<lparr>filter_key := filter_key s - 1\<rparr>
       in (s1, if filter_key s1 = 0 then input_manager_unlock w else w)
     else (s, w))"

end
