(* ===== verification/Ui_Keys.thy ===== *)
theory Ui_Keys
  imports Ui_Key_Map Sys_Wakelock Slot_Table
begin

text \<open>
  Correctness of the key map: the map a view gets, the map of the application and its synchronisation between two earphones,
  and the filter of keys, which is one more counted lock.
\<close>

unbundle bit_operations_syntax

section \<open>Loading the configuration\<close>

definition context_of :: "ui_key_context_t \<Rightarrow> u16 \<times> app_key_map_info_t option \<times> key_output list" where
  "context_of s = (filter_key s, local_app_key_map_info s, key_outputs s)"

text \<open>What is loaded is the configuration, and memory is served from now on.\<close>

definition loaded :: "key_env \<Rightarrow> ui_key_context_t \<Rightarrow> bool" where
  "loaded E s \<longleftrightarrow> cfg_key_func_maps s \<in> {None, Some (load_func_maps E s)} \<and> cfg_combo_key_maps s \<in> {None, Some (config_combo_maps E)} \<and>
     cfg_customed_key_seq s \<in> {None, Some (config_key_sequences E)} \<and> (\<forall>n\<ge>key_mallocs s. key_malloc_ok E n)"

definition seq_event :: "key_env \<Rightarrow> u32 \<Rightarrow> u32" where
  "seq_event E ev = (case find (\<lambda>seq. ev = ucast (Key_Sequence seq)) (config_key_sequences E) of
     Some seq \<Rightarrow> ucast (Key_Event_1 seq OR Key_Event_2 seq) | None \<Rightarrow> 0)"

definition resolve :: "key_env \<Rightarrow> CFG_Type_Key_Func_Map \<Rightarrow> CFG_Type_Key_Func_Map option" where
  "resolve E c = (if key_none c then None
     else if ucast (Key_Event c) AND KEY_EVENT_CUSTOMED_SEQUENCES = (0 :: u32) then Some c
     else let c' = c\<lparr>Key_Event := ucast (seq_event E (ucast (Key_Event c)))\<rparr> in if Key_Event c' = 0 then None else Some c')"

definition resolve_combo :: "key_env \<Rightarrow> CFG_Type_Combo_Key_Map \<Rightarrow> CFG_Type_Combo_Key_Map option" where
  "resolve_combo E c = (if Combo_Func c = 0 \<or> Key_Value_1 c = 0 \<or> Key_Value_2 c = Key_Value_1 c \<or> Combo_Event c = 0 then None
     else if ucast (Combo_Event c) AND KEY_EVENT_CUSTOMED_SEQUENCES = (0 :: u32) then Some c
     else let c' = c\<lparr>Combo_Event := ucast (seq_event E (ucast (Combo_Event c)))\<rparr> in if Combo_Event c' = 0 then None else Some c')"

lemma load_cong: "context_of s' = context_of s \<Longrightarrow> load_func_maps E s' = load_func_maps E s"
  by (simp add: context_of_def load_func_maps_def)

lemma customed_seq:
  assumes "loaded E s" "ev AND KEY_EVENT_CUSTOMED_SEQUENCES \<noteq> 0"
  shows "\<exists>s'. ui_key_get_customed_key_seq E ev s = (s', seq_event E ev) \<and> loaded E s' \<and> context_of s' = context_of s"
proof (cases "cfg_customed_key_seq s")
  case None
  let ?s = "s\<lparr>key_mallocs := key_mallocs s + 1, cfg_customed_key_seq := Some (config_key_sequences E)\<rparr>"
  have c: "context_of ?s = context_of s" by (simp add: context_of_def)
  then have "loaded E ?s" using assms(1) load_cong [OF c, of E] by (auto simp: loaded_def)
  moreover have "ui_key_get_customed_key_seq E ev s = (?s, seq_event E ev)"
    using None assms by (simp add: ui_key_get_customed_key_seq_def app_mem_malloc_key_def seq_event_def loaded_def Let_def split: option.splits)
  ultimately show ?thesis using c by blast
next
  case (Some q)
  then show ?thesis using assms by (auto simp: ui_key_get_customed_key_seq_def seq_event_def loaded_def split: option.splits)
qed

lemma get_config:
  assumes "loaded E s"
  shows "\<exists>s'. ui_key_func_get_config E i s = (s', resolve E (load_func_maps E s ! i)) \<and> loaded E s' \<and> context_of s' = context_of s"
proof -
  let ?c = "load_func_maps E s ! i"
  obtain s1 where 1: "(if cfg_key_func_maps s = None
        then let (s', ok) = app_mem_malloc_key E s in (if ok then s'\<lparr>cfg_key_func_maps := Some (load_func_maps E s)\<rparr> else s', ok)
        else (s, True)) = (s1, True)" "cfg_key_func_maps s1 = Some (load_func_maps E s)" "loaded E s1" "context_of s1 = context_of s"
  proof (cases "cfg_key_func_maps s")
    case None
    let ?s = "s\<lparr>key_mallocs := key_mallocs s + 1, cfg_key_func_maps := Some (load_func_maps E s)\<rparr>"
    have c: "context_of ?s = context_of s" by (simp add: context_of_def)
    then have "loaded E ?s" using assms load_cong [OF c, of E] by (auto simp: loaded_def)
    then show ?thesis using that [of ?s] None assms c by (simp add: app_mem_malloc_key_def loaded_def)
  qed (use assms that in \<open>auto simp: loaded_def\<close>)
  note eq = ui_key_func_get_config_def [of E i s, unfolded 1(1) Let_def prod.case]
  show ?thesis
  proof (cases "ucast (Key_Event ?c) AND KEY_EVENT_CUSTOMED_SEQUENCES = (0 :: u32) \<or> key_none ?c")
    case True
    then show ?thesis using 1 by (intro exI [of _ s1]) (auto simp: eq resolve_def)
  next
    case False
    obtain s2 where "ui_key_get_customed_key_seq E (ucast (Key_Event ?c)) s1 = (s2, seq_event E (ucast (Key_Event ?c)))" "loaded E s2" "context_of s2 = context_of s1"
      using customed_seq [OF 1(3)] False by blast
    then show ?thesis using 1 False by (intro exI [of _ s2]) (auto simp: eq resolve_def)
  qed
qed

lemma get_combo:
  assumes "loaded E s"
  shows "\<exists>s'. ui_combo_key_get_config E i s = (s', resolve_combo E (config_combo_maps E ! i)) \<and> loaded E s' \<and> context_of s' = context_of s"
proof -
  let ?c = "config_combo_maps E ! i"
  obtain s1 where 1: "(if cfg_combo_key_maps s = None
        then let (s', ok) = app_mem_malloc_key E s in (if ok then s'\<lparr>cfg_combo_key_maps := Some (config_combo_maps E)\<rparr> else s', ok)
        else (s, True)) = (s1, True)" "cfg_combo_key_maps s1 = Some (config_combo_maps E)" "loaded E s1" "context_of s1 = context_of s"
  proof (cases "cfg_combo_key_maps s")
    case None
    let ?s = "s\<lparr>key_mallocs := key_mallocs s + 1, cfg_combo_key_maps := Some (config_combo_maps E)\<rparr>"
    have c: "context_of ?s = context_of s" by (simp add: context_of_def)
    then have "loaded E ?s" using assms load_cong [OF c, of E] by (auto simp: loaded_def)
    then show ?thesis using that [of ?s] None assms c by (simp add: app_mem_malloc_key_def loaded_def)
  qed (use assms that in \<open>auto simp: loaded_def\<close>)
  let ?none = "Combo_Func ?c = 0 \<or> Key_Value_1 ?c = 0 \<or> Key_Value_2 ?c = Key_Value_1 ?c \<or> Combo_Event ?c = 0"
  have eq: "ui_combo_key_get_config E i s = (if ?none then (s1, None)
      else if ucast (Combo_Event ?c) AND KEY_EVENT_CUSTOMED_SEQUENCES \<noteq> (0 :: u32)
      then let (s2, ev) = ui_key_get_customed_key_seq E (ucast (Combo_Event ?c)) s1; c = ?c\<lparr>Combo_Event := ucast ev\<rparr>
           in if Combo_Event c = 0 then (s2, None) else (s2, Some c)
      else (s1, Some ?c))"
    unfolding ui_combo_key_get_config_def 1(1) using 1(2) by (simp add: Let_def)
  consider "?none" | "\<not> ?none" "ucast (Combo_Event ?c) AND KEY_EVENT_CUSTOMED_SEQUENCES = (0 :: u32)"
    | "\<not> ?none" "ucast (Combo_Event ?c) AND KEY_EVENT_CUSTOMED_SEQUENCES \<noteq> (0 :: u32)" by blast
  then show ?thesis
  proof cases
    case 1
    then have "resolve_combo E ?c = None" unfolding resolve_combo_def by (rule if_P)
    then show ?thesis using 1 \<open>loaded E s1\<close> \<open>context_of s1 = context_of s\<close> by (intro exI [of _ s1]) (simp only: eq if_True simp_thms)
  next
    case 2
    then show ?thesis using \<open>loaded E s1\<close> \<open>context_of s1 = context_of s\<close> \<open>cfg_combo_key_maps s1 = _\<close> by (intro exI [of _ s1]) (simp add: eq resolve_combo_def)
  next
    case 3
    obtain s2 where "ui_key_get_customed_key_seq E (ucast (Combo_Event ?c)) s1 = (s2, seq_event E (ucast (Combo_Event ?c)))" "loaded E s2" "context_of s2 = context_of s1"
      using customed_seq [OF \<open>loaded E s1\<close> 3(2)] by blast
    then show ?thesis using \<open>context_of s1 = context_of s\<close> \<open>cfg_combo_key_maps s1 = _\<close> 3 by (intro exI [of _ s2]) (simp add: eq resolve_combo_def Let_def)
  qed
qed

section \<open>Creating the map of a view\<close>

definition func_entries :: "key_env \<Rightarrow> ui_key_func_t list \<Rightarrow> CFG_Type_Key_Func_Map \<Rightarrow> ui_key_map_t list" where
  "func_entries E ptable c = (case resolve E c of None \<Rightarrow> [] | Some c \<Rightarrow> map (func_entry c) (filter (\<lambda>p. ucast (Key_Func c) = key_func p) ptable))"

definition combo_entries :: "key_env \<Rightarrow> ui_key_func_t list \<Rightarrow> CFG_Type_Combo_Key_Map \<Rightarrow> ui_key_map_t list" where
  "combo_entries E ptable c = (case resolve_combo E c of None \<Rightarrow> [] | Some c \<Rightarrow> map (combo_entry c) (filter (\<lambda>p. ucast (Combo_Func c) = key_func p) ptable))"

lemma count_funcs_ok:
  assumes "loaded E s"
  shows "\<exists>s'. count_funcs E ptable is s = (s', length (concat (map (\<lambda>i. func_entries E ptable (load_func_maps E s ! i)) is))) \<and>
    loaded E s' \<and> context_of s' = context_of s"
  using assms
proof (induction "is" arbitrary: s)
  case (Cons i "is")
  obtain s1 where 1: "ui_key_func_get_config E i s = (s1, resolve E (load_func_maps E s ! i))" "loaded E s1" "context_of s1 = context_of s"
    using get_config [OF Cons.prems] by blast
  then show ?case using Cons.IH [OF 1(2)] load_cong [OF 1(3), of E] by (auto simp: func_entries_def split: option.splits)
qed simp

lemma count_combos_ok:
  assumes "loaded E s"
  shows "\<exists>s'. count_combos E ptable is s = (s', length (concat (map (\<lambda>i. combo_entries E ptable (config_combo_maps E ! i)) is))) \<and>
    loaded E s' \<and> context_of s' = context_of s"
  using assms
proof (induction "is" arbitrary: s)
  case (Cons i "is")
  obtain s1 where 1: "ui_combo_key_get_config E i s = (s1, resolve_combo E (config_combo_maps E ! i))" "loaded E s1" "context_of s1 = context_of s"
    using get_combo [OF Cons.prems] by blast
  then show ?case using Cons.IH [OF 1(2)] by (auto simp: combo_entries_def split: option.splits)
qed simp

lemma fill_entries_ok: "fill_entries es (xs @ ys, length xs) = (if length es \<le> length ys then Some (xs @ es @ drop (length es) ys, length xs + length es) else None)"
proof (induction es arbitrary: xs ys)
  case (Cons e es)
  show ?case
  proof (cases ys)
    case (Cons y zs)
    then have "fill_entries (e # es) (xs @ ys, length xs) = fill_entries es ((xs @ [e]) @ zs, length (xs @ [e]))" by simp
    then show ?thesis using Cons.IH [of "xs @ [e]" zs] Cons by simp
  qed simp
qed simp

lemma fill_zero: "fill_entries es (replicate m zero_map, 0) = (if length es \<le> m then Some (es @ replicate (m - length es) zero_map, length es) else None)"
  using fill_entries_ok [of es "[]" "replicate m zero_map"] by simp

lemma fill_append: "fill_entries (es @ fs) ki = Option.bind (fill_entries es ki) (fill_entries fs)"
  by (induction es ki rule: fill_entries.induct) auto

lemma fill_funcs_ok:
  assumes "loaded E s"
  shows "\<exists>s'. loaded E s' \<and> context_of s' = context_of s \<and> fill_funcs E ptable is s ki =
    map_option (\<lambda>ki'. (s', ki')) (fill_entries (concat (map (\<lambda>i. func_entries E ptable (load_func_maps E s ! i)) is)) ki)"
  using assms
proof (induction "is" arbitrary: s ki)
  case Nil
  then show ?case by auto
next
  case (Cons i "is")
  obtain s1 where 1: "ui_key_func_get_config E i s = (s1, resolve E (load_func_maps E s ! i))" "loaded E s1" "context_of s1 = context_of s"
    using get_config [OF Cons.prems] by blast
  have step: "fill_funcs E ptable (i # is) s ki =
      Option.bind (fill_entries (func_entries E ptable (load_func_maps E s ! i)) ki) (fill_funcs E ptable is s1)"
    using 1(1) by (auto simp: func_entries_def split: option.splits)
  show ?case
  proof (cases "fill_entries (func_entries E ptable (load_func_maps E s ! i)) ki")
    case None
    then show ?thesis using step 1(2,3) by (intro exI [of _ s1]) (simp add: fill_append)
  next
    case (Some ki1)
    then show ?thesis using Cons.IH [OF 1(2), of ki1] load_cong [OF 1(3), of E] step 1(3) by (auto simp: fill_append)
  qed
qed

lemma fill_combos_ok:
  assumes "loaded E s"
  shows "\<exists>s'. loaded E s' \<and> context_of s' = context_of s \<and> fill_combos E ptable is s ki =
    map_option (\<lambda>ki'. (s', ki')) (fill_entries (concat (map (\<lambda>i. combo_entries E ptable (config_combo_maps E ! i)) is)) ki)"
  using assms
proof (induction "is" arbitrary: s ki)
  case Nil
  then show ?case by auto
next
  case (Cons i "is")
  obtain s1 where 1: "ui_combo_key_get_config E i s = (s1, resolve_combo E (config_combo_maps E ! i))" "loaded E s1" "context_of s1 = context_of s"
    using get_combo [OF Cons.prems] by blast
  have step: "fill_combos E ptable (i # is) s ki =
      Option.bind (fill_entries (combo_entries E ptable (config_combo_maps E ! i)) ki) (fill_combos E ptable is s1)"
    using 1(1) by (auto simp: combo_entries_def split: option.splits)
  show ?case
  proof (cases "fill_entries (combo_entries E ptable (config_combo_maps E ! i)) ki")
    case None
    then show ?thesis using step 1(2,3) by (intro exI [of _ s1]) (simp add: fill_append)
  next
    case (Some ki1)
    then show ?thesis using Cons.IH [OF 1(2), of ki1] step 1(3) by (auto simp: fill_append)
  qed
qed

definition view_entries :: "key_env \<Rightarrow> ui_key_func_t list \<Rightarrow> ui_key_context_t \<Rightarrow> ui_key_map_t list" where
  "view_entries E ptable s =
     concat (map (\<lambda>i. func_entries E ptable (load_func_maps E s ! i)) [0..<CFG_MAX_KEY_FUNC_MAPS]) @
     concat (map (\<lambda>i. combo_entries E ptable (config_combo_maps E ! i)) [0..<CFG_MAX_COMBO_KEY_MAPS])"

text \<open>The two passes over the configuration from the allocation of the map on: \<open>n\<close> is the number the first pass counted.\<close>

lemma fill_view:
  assumes "loaded E s"
  shows "\<exists>s'. loaded E s' \<and> context_of s' = context_of s \<and>
    do { (s4, ki) \<leftarrow> fill_funcs E ptable [0..<CFG_MAX_KEY_FUNC_MAPS] s (replicate (n + 1) zero_map, 0);
         (s5, keymaps, index) \<leftarrow> fill_combos E ptable [0..<CFG_MAX_COMBO_KEY_MAPS] s4 ki;
         Some (ui_key_func_map_end s5, Some keymaps) } =
    (if length (view_entries E ptable s) \<le> n + 1
     then Some (ui_key_func_map_end s', Some (view_entries E ptable s @ replicate (n + 1 - length (view_entries E ptable s)) zero_map)) else None)"
proof -
  let ?f = "concat (map (\<lambda>i. func_entries E ptable (load_func_maps E s ! i)) [0..<CFG_MAX_KEY_FUNC_MAPS])"
    and ?c = "concat (map (\<lambda>i. combo_entries E ptable (config_combo_maps E ! i)) [0..<CFG_MAX_COMBO_KEY_MAPS])"
  obtain s1 where 1: "loaded E s1" "context_of s1 = context_of s" "\<And>ki. fill_funcs E ptable [0..<CFG_MAX_KEY_FUNC_MAPS] s (replicate (n + 1) zero_map, 0) =
      map_option (\<lambda>ki'. (s1, ki')) (fill_entries ?f (replicate (n + 1) zero_map, 0))" using fill_funcs_ok [OF assms] by metis
  have e: "fill_entries (?f @ ?c) (replicate (n + 1) zero_map, 0) = (if length (?f @ ?c) \<le> n + 1
      then Some ((?f @ ?c) @ replicate (n + 1 - length (?f @ ?c)) zero_map, length (?f @ ?c)) else None)"
    by (rule fill_zero)
  show ?thesis
  proof (cases "fill_entries ?f (replicate (n + 1) zero_map, 0)")
    case None
    then show ?thesis using 1 e by (intro exI [of _ s1]) (auto simp: fill_append view_entries_def split: if_splits simp del: upt_conv_Cons)
  next
    case (Some ki1)
    obtain s2 where 2: "loaded E s2" "context_of s2 = context_of s1"
        "fill_combos E ptable [0..<CFG_MAX_COMBO_KEY_MAPS] s1 ki1 = map_option (\<lambda>ki'. (s2, ki')) (fill_entries ?c ki1)"
      using fill_combos_ok [OF 1(1)] by blast
    have "fill_entries ?c ki1 = fill_entries (?f @ ?c) (replicate (n + 1) zero_map, 0)" using Some by (simp add: fill_append del: upt_conv_Cons)
    then show ?thesis using 1 2 Some e by (intro exI [of _ s2]) (auto simp: view_entries_def simp del: upt_conv_Cons)
  qed
qed

section \<open>The map of the application\<close>

definition key_id :: "CFG_Type_Key_Func_Map \<Rightarrow> u8 \<times> u16 \<times> u8" where
  "key_id e = (Key_Value e, Key_Event e, LR_Device e)"

abbreviation key_used :: "CFG_Type_Key_Func_Map \<Rightarrow> bool" where
  "key_used e \<equiv> \<not> key_none e"

definition key_table :: "CFG_Type_Key_Func_Map list \<Rightarrow> (u8 \<times> u16 \<times> u8) \<rightharpoonup> u8" where
  "key_table m = slot_map key_used key_id Key_Func m"

definition key_ids :: "CFG_Type_Key_Func_Map list \<Rightarrow> (u8 \<times> u16 \<times> u8) list" where
  "key_ids m = slot_keys key_used key_id m"

text \<open>Free slots are zero, and the keys in use differ.\<close>

definition app_map_ok :: "CFG_Type_Key_Func_Map list \<Rightarrow> bool" where
  "app_map_ok m \<longleftrightarrow> length m = CFG_MAX_APP_KEY_FUNC_MAPS \<and> list_all (\<lambda>e. key_none e \<longrightarrow> e = empty_key) m \<and> distinct (key_ids m)"

text \<open>
  The table the map stands for: an entry without function, key or event is ignored, and so is a new key when all places are taken.
\<close>

definition set_key :: "CFG_Type_Key_Func_Map \<Rightarrow> ((u8 \<times> u16 \<times> u8) \<rightharpoonup> u8) \<Rightarrow> (u8 \<times> u16 \<times> u8) \<rightharpoonup> u8" where
  "set_key e A = (if key_none e \<or> key_id e \<notin> dom A \<and> CFG_MAX_APP_KEY_FUNC_MAPS \<le> card (dom A) then A else A(key_id e \<mapsto> Key_Func e))"

lemma key_table_dom:
  assumes "app_map_ok m"
  shows "dom (key_table m) = set (key_ids m)" "card (set (key_ids m)) = length (key_ids m)"
  using assms by (simp_all add: key_table_def key_ids_def slot_dom app_map_ok_def distinct_card)

lemma same_key_id: "same_key a b \<longleftrightarrow> key_id a = key_id b"
  by (auto simp: same_key_def key_id_def)

lemma app_map_slots:
  assumes "app_map_ok m"
  shows "key_id e \<in> set (key_ids m) \<longleftrightarrow> (\<exists>j < CFG_MAX_APP_KEY_FUNC_MAPS. key_used (m ! j) \<and> same_key (m ! j) e)"
proof -
  have "key_id e \<in> set (key_ids m) \<longleftrightarrow> (\<exists>x\<in>set m. key_used x \<and> same_key x e)"
    unfolding key_ids_def slot_keys_def same_key_id unfolding set_map set_filter image_iff by (metis (mono_tags, lifting) mem_Collect_eq)
  then show ?thesis using assms unfolding app_map_ok_def by (metis in_set_conv_nth)
qed

lemma find_upt: "find P [0..<n] = Some j \<Longrightarrow> j < n \<and> P j" "find P [0..<n] = None \<Longrightarrow> j < n \<Longrightarrow> \<not> P j" for j n :: nat
  unfolding find_Some_iff find_None_iff by auto

lemma app_map_upd:
  assumes "app_map_ok m" "key_used e" "distinct (key_ids (m[j := e]))"
  shows "app_map_ok (m[j := e])"
  using assms set_update_subset_insert [of m j e] by (auto simp: app_map_ok_def list_all_iff)

lemma app_map_full:
  assumes "app_map_ok m"
  shows "find (\<lambda>j. key_none (m ! j)) [0..<CFG_MAX_APP_KEY_FUNC_MAPS] = None \<longleftrightarrow> CFG_MAX_APP_KEY_FUNC_MAPS \<le> length (key_ids m)"
    (is "?full \<longleftrightarrow> _")
proof -
  have l: "length m = CFG_MAX_APP_KEY_FUNC_MAPS" using assms by (simp add: app_map_ok_def)
  have "?full \<longleftrightarrow> (\<forall>j < CFG_MAX_APP_KEY_FUNC_MAPS. key_used (m ! j))" unfolding find_None_iff by auto
  also have "\<dots> \<longleftrightarrow> (\<forall>x\<in>set m. key_used x)" using l by (metis in_set_conv_nth)
  also have "\<dots> \<longleftrightarrow> CFG_MAX_APP_KEY_FUNC_MAPS \<le> length (key_ids m)"
    using length_filter_less [of _ m key_used] l by (fastforce simp: key_ids_def slot_keys_def)
  finally show ?thesis .
qed

lemma update_key_ok:
  assumes "app_map_ok m"
  shows "\<exists>m' n'. update_key e (m, n) = (m', n') \<and> app_map_ok m' \<and> key_table m' = set_key e (key_table m) \<and> n \<le> n' \<and> (n' = n \<longrightarrow> m' = m)"
proof (cases "key_none e")
  case False
  have ok: "length m = CFG_MAX_APP_KEY_FUNC_MAPS" "distinct (key_ids m)" "\<And>j. j < CFG_MAX_APP_KEY_FUNC_MAPS \<Longrightarrow> key_none (m ! j) \<Longrightarrow> m ! j = empty_key"
    using assms by (auto simp: app_map_ok_def list_all_length)
  have zero: "\<not> same_key empty_key e" using False by (auto simp: same_key_def empty_key_def key_none_def)
  show ?thesis
  proof (cases "find (\<lambda>j. same_key (m ! j) e) [0..<CFG_MAX_APP_KEY_FUNC_MAPS]")
    case (Some j)
    then have j: "j < CFG_MAX_APP_KEY_FUNC_MAPS" "same_key (m ! j) e" using find_upt(1) by blast+
    let ?c = "(m ! j)\<lparr>Key_Func := Key_Func e\<rparr>"
    have u: "key_used (m ! j)" "key_used ?c" "key_id ?c = key_id (m ! j)" "key_id ?c = key_id e"
      using j(2) ok(3) [OF j(1)] zero False by (auto simp: same_key_def key_none_def key_id_def)
    have ch: "key_table (m[j := ?c]) = (key_table m)(key_id e \<mapsto> Key_Func e)" "key_ids (m[j := ?c]) = key_ids m"
      using slot_change [of j m key_used key_id ?c Key_Func] ok(1,2) j(1) u by (simp_all add: key_table_def key_ids_def)
    have d: "key_id e \<in> dom (key_table m)" using j app_map_slots [OF assms] u(1) by (auto simp: key_table_dom(1) [OF assms])
    have nth: "key_table m (key_id e) = Some (Key_Func (m ! j))"
      using slot_nth [of j m key_used key_id Key_Func] ok(1,2) j u by (simp add: key_table_def key_ids_def same_key_id)
    show ?thesis
    proof (cases "Key_Func (m ! j) = Key_Func e")
      case True
      then have "update_key e (m, n) = (m, n)" using Some False by (simp add: update_key_def del: upt_conv_Cons)
      then show ?thesis using True nth False assms by (auto simp: set_key_def)
    next
      case f: False
      then have "update_key e (m, n) = (m[j := ?c], n + 1)" using Some False by (simp add: update_key_def del: upt_conv_Cons)
      moreover have "app_map_ok (m[j := ?c])" using ch(2) ok(2) by (intro app_map_upd assms u(2)) simp
      ultimately show ?thesis using ch False by (intro exI [of _ "m[j := ?c]"] exI [of _ "n + 1"]) (simp add: set_key_def d)
    qed
  next
    case None
    then have new: "key_id e \<notin> set (key_ids m)" using app_map_slots [OF assms] find_upt(2) by blast
    show ?thesis
    proof (cases "find (\<lambda>j. key_none (m ! j)) [0..<CFG_MAX_APP_KEY_FUNC_MAPS]")
      case full: None
      then have "CFG_MAX_APP_KEY_FUNC_MAPS \<le> length (key_ids m)" using app_map_full [OF assms] by simp
      moreover have "update_key e (m, n) = (m, n)" using None full False by (simp add: update_key_def del: upt_conv_Cons)
      ultimately show ?thesis using new assms by (simp add: set_key_def key_table_dom [OF assms])
    next
      case (Some j)
      then have j: "j < CFG_MAX_APP_KEY_FUNC_MAPS" "key_none (m ! j)" using find_upt(1) by blast+
      have r: "\<not> CFG_MAX_APP_KEY_FUNC_MAPS \<le> length (key_ids m)" using app_map_full [OF assms] Some by simp
      have "update_key e (m, n) = (m[j := e], n + 1)" using None Some False by (simp add: update_key_def del: upt_conv_Cons)
      moreover have t: "key_table (m[j := e]) = (key_table m)(key_id e \<mapsto> Key_Func e)" "distinct (key_ids (m[j := e]))"
        using slot_take [of j m key_used key_id e Key_Func] ok(1,2) j new False by (auto simp: key_table_def key_ids_def)
      moreover have "app_map_ok (m[j := e])" using False t(2) by (intro app_map_upd assms)
      ultimately show ?thesis using False by (intro exI [of _ "m[j := e]"] exI [of _ "n + 1"]) (simp add: set_key_def r key_table_dom [OF assms])
    qed
  qed
qed (use assms in \<open>auto simp: update_key_def set_key_def\<close>)

lemma update_keys_ok:
  assumes "app_map_ok m"
  shows "\<exists>m' n'. fold update_key es (m, n) = (m', n') \<and> app_map_ok m' \<and> key_table m' = fold set_key es (key_table m) \<and> n \<le> n' \<and> (n' = n \<longrightarrow> m' = m)"
  using assms
proof (induction es arbitrary: m n)
  case (Cons e es)
  obtain m1 n1 where 1: "update_key e (m, n) = (m1, n1)" "app_map_ok m1" "key_table m1 = set_key e (key_table m)" "n \<le> n1" "n1 = n \<longrightarrow> m1 = m"
    using update_key_ok [OF Cons.prems, of e n] by auto
  obtain m2 n2 where 2: "fold update_key es (m1, n1) = (m2, n2)" "app_map_ok m2" "key_table m2 = fold set_key es (key_table m1)" "n1 \<le> n2" "n2 = n1 \<longrightarrow> m2 = m1"
    using Cons.IH [OF 1(2), of n1] by auto
  then show ?case using 1 by (intro exI [of _ m2] exI [of _ n2]) auto
qed simp


section \<open>The filter as a counted lock\<close>

text \<open>
  From the first request on, the lock of the input manager is the filter's own, as long as no other part of the system uses it:
  it is locked while requests are open. A request to stop when none is open is ignored.
\<close>

definition filter_ok :: "ui_key_context_t \<times> input_state \<Rightarrow> bool" where
  "filter_ok = (\<lambda>(s, w). input_manager_islock w \<longleftrightarrow> 0 < filter_key s)"

lemmas filter_defs = ui_key_filter_def filter_ok_def input_manager_islock_def input_manager_do_lock_def input_manager_unlock_def

lemma filter_on:
  assumes "filter_ok (s, w) \<or> filter_key s = 0" "unat (filter_key s) < 65535"
  shows "filter_ok (ui_key_filter True (s, w)) \<and> unat (filter_key (fst (ui_key_filter True (s, w)))) = unat (filter_key s) + 1"
proof -
  have n: "unat (filter_key s + 1) = unat (filter_key s) + 1" using assms(2) by (simp add: unat_plus_if_size word_size)
  then have "0 < filter_key s + 1" by (simp add: word_less_nat_alt)
  then show ?thesis using assms(1) n by (auto simp: filter_defs Let_def word_gt_0)
qed

lemma filter_off:
  assumes "filter_ok (s, w)"
  shows "filter_ok (ui_key_filter False (s, w)) \<and> unat (filter_key (fst (ui_key_filter False (s, w)))) = unat (filter_key s) - 1"
proof -
  have "0 < filter_key s \<Longrightarrow> unat (filter_key s - 1) = unat (filter_key s) - 1" by (simp add: unat_minus_one word_gt_0)
  then show ?thesis using assms by (auto simp: filter_defs Let_def word_gt_0)
qed

interpretation flt: saturating_locks "\<lambda>x _. Some (ui_key_filter True x)" "\<lambda>x _. Some (ui_key_filter False x)"
  "\<lambda>x _. unat (filter_key (fst x))" filter_ok 1 65535
proof (unfold_locales, goal_cases)
  case (1 x t)
  then show ?case using filter_on [of "fst x" "snd x"] by simp
next
  case (2 x t)
  then show ?case using filter_off [of "fst x" "snd x"] by simp
next
  case (3 x t)
  then show ?case by (cases x) (simp add: ui_key_filter_def word_less_nat_alt)
qed

section \<open>Properties\<close>

text \<open>
  C18: When every request of memory succeeds, the map of a view has one entry for every function of the view and every key event of the configuration, as changed by
  the map of the application and with customised sequences resolved, first the single keys, then the combinations, and the
  closing entry behind them; no write leaves the array. There is no map when nothing matches. What was loaded is released.
\<close>

theorem key_map_create_correct:
  assumes "cfg_key_func_maps s = None" "cfg_combo_key_maps s = None" "cfg_customed_key_seq s = None" "\<forall>n\<ge>key_mallocs s. key_malloc_ok E n"
  shows "\<exists>s'. ui_key_map_create E ptable s = Some (s', if view_entries E ptable s = [] then None else Some (view_entries E ptable s @ [zero_map])) \<and>
    context_of s' = context_of s \<and> cfg_key_func_maps s' = None \<and> cfg_combo_key_maps s' = None \<and> cfg_customed_key_seq s' = None"
proof -
  have l: "loaded E s" using assms by (simp add: loaded_def)
  let ?f = "concat (map (\<lambda>i. func_entries E ptable (load_func_maps E s ! i)) [0..<CFG_MAX_KEY_FUNC_MAPS])"
    and ?c = "concat (map (\<lambda>i. combo_entries E ptable (config_combo_maps E ! i)) [0..<CFG_MAX_COMBO_KEY_MAPS])" and ?v = "view_entries E ptable s"
  obtain s1 where 1: "count_funcs E ptable [0..<CFG_MAX_KEY_FUNC_MAPS] s = (s1, length ?f)" "loaded E s1" "context_of s1 = context_of s"
    using count_funcs_ok [OF l] by blast
  obtain s2 where 2: "count_combos E ptable [0..<CFG_MAX_COMBO_KEY_MAPS] s1 = (s2, length ?c)" "loaded E s2" "context_of s2 = context_of s1"
    using count_combos_ok [OF 1(2)] by blast
  have n: "length ?f + length ?c = length ?v" by (simp add: view_entries_def del: upt_conv_Cons)
  let ?s = "s2\<lparr>key_mallocs := key_mallocs s2 + 1\<rparr>"
  have c: "context_of ?s = context_of s" using 1(3) 2(3) by (simp add: context_of_def)
  have l2: "loaded E ?s" using 2(2) load_cong [of ?s s2 E] by (auto simp: loaded_def context_of_def)
  obtain s3 where 3: "context_of s3 = context_of ?s"
      "do { (s4, ki) \<leftarrow> fill_funcs E ptable [0..<CFG_MAX_KEY_FUNC_MAPS] ?s (replicate (length ?v + 1) zero_map, 0);
           (s5, keymaps, index) \<leftarrow> fill_combos E ptable [0..<CFG_MAX_COMBO_KEY_MAPS] s4 ki;
           Some (ui_key_func_map_end s5, Some keymaps) } = Some (ui_key_func_map_end s3, Some (?v @ [zero_map]))"
    using fill_view [OF l2, of ptable "length ?v"] load_cong [OF c, of E] by (auto simp: view_entries_def)
  have e: "context_of (ui_key_func_map_end t) = context_of t" "cfg_key_func_maps (ui_key_func_map_end t) = None"
      "cfg_combo_key_maps (ui_key_func_map_end t) = None" "cfg_customed_key_seq (ui_key_func_map_end t) = None" for t
    by (simp_all add: ui_key_func_map_end_def context_of_def)
  have ok: "app_mem_malloc_key E s2 = (?s, True)" using 2(2) by (simp add: app_mem_malloc_key_def loaded_def)
  have "ui_key_map_create E ptable s = (if ?v = [] then Some (ui_key_func_map_end s2, None) else Some (ui_key_func_map_end s3, Some (?v @ [zero_map])))"
    unfolding ui_key_map_create_def 1(1) 2(1) Let_def prod.case ok n using 3(2) by simp
  then show ?thesis using e c 3(1) 1(3) 2(3) by (cases "?v = []") auto
qed

definition ex_ctx :: ui_key_context_t where
  "ex_ctx = \<lparr>cfg_key_func_maps = None, cfg_combo_key_maps = None, cfg_customed_key_seq = None, filter_key = 0, local_app_key_map_info = None,
     key_mallocs = 0, key_outputs = []\<rparr>"

definition ex_combo :: CFG_Type_Combo_Key_Map where
  "ex_combo = \<lparr>Combo_Func = 0, Key_Value_1 = 0, Key_Value_2 = 0, Combo_LR_Device = 0, Combo_Event = 0\<rparr>"

definition ex_env_of :: "(nat \<Rightarrow> bool) \<Rightarrow> key_env" where
  "ex_env_of ok = \<lparr>config_func_maps = \<lparr>Key_Func = 5, Key_Value = 1, LR_Device = 0, Key_Event = 0x400\<rparr> #
       \<lparr>Key_Func = 6, Key_Value = 2, LR_Device = 0, Key_Event = 0x400\<rparr> # replicate 38 empty_key, config_combo_maps = replicate 8 ex_combo,
     config_key_sequences = [], tws_dev_role = BTSRV_TWS_NONE, hw_sel_dev_channel = 2, sw_sel_dev_channel = 0, key_malloc_ok = ok\<rparr>"

definition ex_ptable :: "ui_key_func_t list" where
  "ex_ptable = [\<lparr>key_func = 5, func_state = 1\<rparr>, \<lparr>key_func = 6, func_state = 3\<rparr>]"

lemma ex_ctx_fields: "cfg_key_func_maps ex_ctx = None" "cfg_combo_key_maps ex_ctx = None" "cfg_customed_key_seq ex_ctx = None"
  by (simp_all add: ex_ctx_def)

lemma ex_view: "view_entries (ex_env_of ok) ex_ptable ex_ctx =
    [\<lparr>key_val = 1, key_type = 0x4000000, app_state = 1, app_msg = 5, key_policy = 0\<rparr>, \<lparr>key_val = 2, key_type = 0x4000000, app_state = 3, app_msg = 6, key_policy = 0\<rparr>]"
  by (simp add: view_entries_def ex_env_of_def ex_ctx_def ex_ptable_def load_func_maps_def func_entries_def combo_entries_def resolve_def resolve_combo_def
      key_none_def empty_key_def ex_combo_def func_entry_def upt_rec nth_Cons')

theorem key_map_create_correct_witness:
  "\<exists>s'. ui_key_map_create (ex_env_of (\<lambda>_. True)) ex_ptable ex_ctx = Some (s', Some
    [\<lparr>key_val = 1, key_type = 0x4000000, app_state = 1, app_msg = 5, key_policy = 0\<rparr>, \<lparr>key_val = 2, key_type = 0x4000000, app_state = 3, app_msg = 6, key_policy = 0\<rparr>, zero_map])"
proof -
  have "\<forall>n\<ge>key_mallocs ex_ctx. key_malloc_ok (ex_env_of (\<lambda>_. True)) n" by (simp add: ex_env_of_def)
  from key_map_create_correct [OF ex_ctx_fields this, of ex_ptable] show ?thesis by (auto simp: ex_view)
qed

text \<open>
  When memory runs out for a moment at the first request, the first pass misses the entries of the first key but the second
  pass finds them: with one such entry the map has no closing entry, with two or more the code writes past the end of the array.
\<close>

theorem key_map_transient_failure:
  assumes "cfg_key_func_maps s = None" "cfg_combo_key_maps s = None" "cfg_customed_key_seq s = None" "\<forall>n. key_malloc_ok E n \<longleftrightarrow> n \<noteq> key_mallocs s"
    "n0 = length (func_entries E ptable (load_func_maps E s ! 0))" "n0 < length (view_entries E ptable s)"
  shows "(n0 = 1 \<longrightarrow> (\<exists>s'. ui_key_map_create E ptable s = Some (s', Some (view_entries E ptable s)))) \<and>
    (2 \<le> n0 \<longrightarrow> ui_key_map_create E ptable s = None)"
proof -
  let ?s0 = "s\<lparr>key_mallocs := key_mallocs s + 1\<rparr>"
  have c0: "context_of ?s0 = context_of s" by (simp add: context_of_def)
  have l: "loaded E ?s0" using assms(1-4) by (auto simp: loaded_def)
  note L = load_cong [OF c0, of E]
  have first: "ui_key_func_get_config E 0 s = (?s0, None)"
    using assms(1,4) by (simp add: ui_key_func_get_config_def app_mem_malloc_key_def)
  let ?f = "concat (map (\<lambda>i. func_entries E ptable (load_func_maps E s ! i)) [1..<CFG_MAX_KEY_FUNC_MAPS])"
    and ?c = "concat (map (\<lambda>i. combo_entries E ptable (config_combo_maps E ! i)) [0..<CFG_MAX_COMBO_KEY_MAPS])" and ?v = "view_entries E ptable s"
  have up: "[0..<CFG_MAX_KEY_FUNC_MAPS] = 0 # [1..<CFG_MAX_KEY_FUNC_MAPS]" by (simp add: upt_rec)
  obtain s1 where 1: "count_funcs E ptable [1..<CFG_MAX_KEY_FUNC_MAPS] ?s0 = (s1, length ?f)" "loaded E s1" "context_of s1 = context_of ?s0"
    using count_funcs_ok [OF l, of ptable "[1..<CFG_MAX_KEY_FUNC_MAPS]"] L by auto
  have 0: "count_funcs E ptable [0..<CFG_MAX_KEY_FUNC_MAPS] s = (s1, length ?f)" unfolding up using first 1(1) by simp
  obtain s2 where 2: "count_combos E ptable [0..<CFG_MAX_COMBO_KEY_MAPS] s1 = (s2, length ?c)" "loaded E s2" "context_of s2 = context_of s1"
    using count_combos_ok [OF 1(2)] by blast
  have v: "length ?v = n0 + (length ?f + length ?c)" unfolding view_entries_def up by (simp add: assms(5) del: upt_conv_Cons)
  let ?s = "s2\<lparr>key_mallocs := key_mallocs s2 + 1\<rparr>" and ?n = "length ?f + length ?c"
  have c: "context_of ?s = context_of s" using 1(3) 2(3) c0 by (simp add: context_of_def)
  have l2: "loaded E ?s" using 2(2) load_cong [of ?s s2 E] by (auto simp: loaded_def context_of_def)
  have v2: "view_entries E ptable ?s = ?v" using load_cong [OF c, of E] by (simp add: view_entries_def)
  obtain s3 where 3: "do { (s4, ki) \<leftarrow> fill_funcs E ptable [0..<CFG_MAX_KEY_FUNC_MAPS] ?s (replicate (?n + 1) zero_map, 0);
           (s5, keymaps, index) \<leftarrow> fill_combos E ptable [0..<CFG_MAX_COMBO_KEY_MAPS] s4 ki;
           Some (ui_key_func_map_end s5, Some keymaps) } =
      (if length ?v \<le> ?n + 1 then Some (ui_key_func_map_end s3, Some (?v @ replicate (?n + 1 - length ?v) zero_map)) else None)"
    using fill_view [OF l2, of ptable ?n] unfolding v2 by blast
  have ok: "app_mem_malloc_key E s2 = (?s, True)" using 2(2) by (simp add: app_mem_malloc_key_def loaded_def)
  have pos: "?n \<noteq> 0" using v assms(6) by linarith
  have eq: "ui_key_map_create E ptable s =
      (if length ?v \<le> ?n + 1 then Some (ui_key_func_map_end s3, Some (?v @ replicate (?n + 1 - length ?v) zero_map)) else None)"
    unfolding ui_key_map_create_def 0 2(1) Let_def prod.case ok 3 [symmetric] if_not_P [OF pos] by (simp only: if_False simp_thms not_True_eq_False)
  show ?thesis unfolding eq using v by auto
qed

theorem key_map_transient_failure_witness:
  "\<exists>s'. ui_key_map_create (ex_env_of (\<lambda>n. n \<noteq> 0)) ex_ptable ex_ctx = Some (s', Some
    [\<lparr>key_val = 1, key_type = 0x4000000, app_state = 1, app_msg = 5, key_policy = 0\<rparr>, \<lparr>key_val = 2, key_type = 0x4000000, app_state = 3, app_msg = 6, key_policy = 0\<rparr>])"
proof -
  have a: "\<forall>n. key_malloc_ok (ex_env_of (\<lambda>n. n \<noteq> 0)) n \<longleftrightarrow> n \<noteq> key_mallocs ex_ctx" by (simp add: ex_env_of_def ex_ctx_def)
  have b: "1 = length (func_entries (ex_env_of (\<lambda>n. n \<noteq> 0)) ex_ptable (load_func_maps (ex_env_of (\<lambda>n. n \<noteq> 0)) ex_ctx ! 0))"
    by (simp add: ex_env_of_def ex_ctx_def ex_ptable_def load_func_maps_def func_entries_def resolve_def key_none_def)
  have "1 < length (view_entries (ex_env_of (\<lambda>n. n \<noteq> 0)) ex_ptable ex_ctx)" by (simp add: ex_view)
  from key_map_transient_failure [OF ex_ctx_fields a b this] show ?thesis by (simp add: ex_view)
qed

text \<open>
  C22: Setting keys by the phone updates the map of the application like a table of 16 places from key, event and device to function: each
  valid entry replaces the function of its key or takes a free place, a new key is dropped when all places are taken, and all others
  keep theirs; the result is 0 in every case. The first update starts from an empty map, for which it needs memory: without, the result is -1 and nothing changes.
  When the table changed, the new map is stored, sent to the other earphone if there is one, and the view is told.
\<close>

theorem key_map_update_correct:
  assumes "info = (case local_app_key_map_info s of None \<Rightarrow> zero_info | Some i \<Rightarrow> i)" "app_map_ok (app_map info)"
    "mem = (local_app_key_map_info s \<noteq> None \<or> key_malloc_ok E (key_mallocs s))"
  shows "(\<not> mem \<longrightarrow> ui_app_setting_key_map_update E es s = (s\<lparr>key_mallocs := key_mallocs s + 1\<rparr>, - 1)) \<and>
    (mem \<longrightarrow> (\<exists>s' info'. ui_app_setting_key_map_update E es s = (s', 0) \<and> local_app_key_map_info s' = Some info' \<and> app_map_ok (app_map info') \<and>
      key_table (app_map info') = fold set_key es (key_table (app_map info)) \<and>
      (key_table (app_map info') \<noteq> key_table (app_map info) \<longrightarrow> is_valid info' = 1 \<and>
        key_outputs s' = key_outputs s @ [APP_KEYMAP_INFO info'] @ (if tws_dev_role E = BTSRV_TWS_NONE then [] else [TWS_EVENT_APP_SETTING_KEY_MAP info']) @ [MSG_APP_SYNC_KEY_MAP])))"
proof -
  obtain m n where m: "fold update_key es (app_map info, 0) = (m, n)" "app_map_ok m" "key_table m = fold set_key es (key_table (app_map info))" "n = 0 \<longrightarrow> m = app_map info"
    using update_keys_ok [OF assms(2), of es 0] by auto
  define s1 where "s1 = (if local_app_key_map_info s = None then s\<lparr>key_mallocs := key_mallocs s + 1\<rparr> else s)"
  have start: "(case local_app_key_map_info s of Some i \<Rightarrow> (s, Some i)
      | None \<Rightarrow> let (s', ok) = app_mem_malloc_key E s in (s', if ok then Some zero_info else None)) = (s1, if mem then Some info else None)"
    using assms(1,3) by (auto simp: s1_def app_mem_malloc_key_def split: option.splits)
  have o: "key_outputs s1 = key_outputs s" by (simp add: s1_def)
  show ?thesis
  proof (cases mem)
    case False
    then have "ui_app_setting_key_map_update E es s = (s1, - 1)" unfolding ui_app_setting_key_map_update_def start by simp
    then show ?thesis using False assms(3) by (simp add: s1_def)
  next
    case True
    then show ?thesis using m o unfolding ui_app_setting_key_map_update_def start
      by (cases "n = 0") (auto simp: Let_def ui_key_notify_remap_keymap_def key_emit_def tws_send_map_def)
  qed
qed

theorem key_map_update_correct_witness:
  "\<exists>s' info'. ui_app_setting_key_map_update (ex_env_of (\<lambda>_. True)) [\<lparr>Key_Func = 7, Key_Value = 1, LR_Device = 4, Key_Event = 2\<rparr>]
      ex_ctx = (s', 0) \<and> local_app_key_map_info s' = Some info' \<and> key_table (app_map info') (1, 2, 4) = Some 7"
proof -
  have z: "key_ids (app_map zero_info) = []" "app_map_ok (app_map zero_info)"
    by (simp_all add: zero_info_def key_ids_def slot_keys_def key_none_def empty_key_def app_map_ok_def list_all_iff)
  have s: "zero_info = (case local_app_key_map_info ex_ctx of None \<Rightarrow> zero_info | Some i \<Rightarrow> i)" by (simp add: ex_ctx_def)
  let ?e = "\<lparr>Key_Func = 7, Key_Value = 1, LR_Device = 4, Key_Event = 2\<rparr> :: CFG_Type_Key_Func_Map"
  obtain s' info' where u: "ui_app_setting_key_map_update (ex_env_of (\<lambda>_. True)) [?e] ex_ctx = (s', 0)"
      "local_app_key_map_info s' = Some info'" "key_table (app_map info') = fold set_key [?e] (key_table (app_map zero_info))"
    using key_map_update_correct [OF s z(2) refl, of "ex_env_of (\<lambda>_. True)" "[?e]"] by (auto simp: ex_env_of_def)
  then have "key_table (app_map info') (1, 2, 4) = Some 7"
    using z(1) by (simp add: set_key_def key_none_def key_id_def key_table_dom [OF z(2)])
  then show ?thesis using u(1,2) by blast
qed





text \<open>
  C35: The filter counts: after the first request to filter, whatever the lock of the input manager was before (start up leaves it
  locked), and any sequence of at most 65534 further requests to filter and to stop filtering, with no other use of the lock between,
  the count is the number of open requests, where a request to stop with none open is ignored, and the input manager is locked exactly while the count is not 0.
\<close>

theorem key_filter_counts:
  assumes "filter_key s = 0" "length ops < 65535" "\<forall>x\<in>set ops. x = Lock 0 \<or> x = Unlock 0"
  shows "\<exists>s' w'. lock_run (\<lambda>x _. Some (ui_key_filter True x)) (\<lambda>x _. Some (ui_key_filter False x)) (s, w) (Lock 0 # ops) = Some (s', w') \<and>
    unat (filter_key s') = lock_count (\<lambda>_. 0) (Lock 0 # ops) 0 \<and>
    (input_manager_islock w' \<longleftrightarrow> 0 < lock_count (\<lambda>_. 0) (Lock 0 # ops) 0)"
proof -
  let ?x = "ui_key_filter True (s, w)" and ?c = "(\<lambda>_. 0)(0 := 1) :: nat \<Rightarrow> nat"
  have x: "filter_ok ?x" "\<forall>t<1. unat (filter_key (fst ?x)) = ?c t" using filter_on [of s w] assms(1) by simp_all
  have "\<forall>x\<in>set ops. (case x of Lock t \<Rightarrow> t | Unlock t \<Rightarrow> t) < 1" using assms(3) by auto
  with flt.run_saturates [OF x, of ops] assms(2) obtain x' where
      "lock_run (\<lambda>x _. Some (ui_key_filter True x)) (\<lambda>x _. Some (ui_key_filter False x)) ?x ops = Some x'" "filter_ok x'"
      "unat (filter_key (fst x')) = lock_count ?c ops 0"
    by (auto simp: fun_upd_def)
  then show ?thesis by (cases x') (auto simp: filter_ok_def word_less_nat_alt fun_upd_def)
qed

theorem key_filter_counts_witness:
  "\<exists>s' w'. lock_run (\<lambda>x _. Some (ui_key_filter True x)) (\<lambda>x _. Some (ui_key_filter False x)) (ex_ctx, input_manager_init (\<lambda>_. True) True)
     [Lock 0, Unlock 0, Unlock 0, Lock 0] = Some (s', w') \<and> filter_key s' = 1 \<and> input_manager_islock w'"
  using key_filter_counts [of ex_ctx "[Unlock 0, Unlock 0, Lock 0]" "input_manager_init (\<lambda>_. True) True"]
  by (auto simp: ex_ctx_def word_unat_eq_iff)

text \<open>
  A key that is changed for the right earphone is not marked for it: the code sets the number of the audio channel, which is the bit of paired
  earphones. A right earphone that is not paired then ignores the key.
\<close>

theorem key_remap_right_needs_pair:
  assumes "length cfg = 40" "key_used a" "LR_Device a AND 4 = 0" "LR_Device a AND 8 \<noteq> 0" "is_channel E AUDIO_DEVICE_CHANNEL_R"
    "find (\<lambda>j. Key_Value (cfg ! j) = Key_Value a \<and> Key_Event (cfg ! j) = Key_Event a \<and> Key_Func (cfg ! j) \<noteq> Key_Func a) [0..<40] = Some j"
    "LR_Device (cfg ! j) = 0" "tws_dev_role E = BTSRV_TWS_NONE"
  shows "Key_Func (remap_key E a cfg ! j) = Key_Func a \<and> LR_Device (remap_key E a cfg ! j) AND KEY_DEVICE_CHANNEL_R = 0 \<and>
    \<not> ui_key_check_dev_type E (ucast (LR_Device (remap_key E a cfg ! j)))"
proof -
  have j: "j < length cfg" using find_upt(1) [OF assms(6)] assms(1) by simp
  have "remap_key E a cfg ! j = (cfg ! j)\<lparr>LR_Device := 2, Key_Func := Key_Func a\<rparr>"
    using assms(2-7) j by (simp add: remap_key_def Let_def del: upt_conv_Cons)
  then show ?thesis using assms(8) by (simp add: ui_key_check_dev_type_def)
qed

theorem key_remap_right_needs_pair_witness:
  "\<not> ui_key_check_dev_type (ex_env_of (\<lambda>_. True)) (ucast (LR_Device
      (remap_key (ex_env_of (\<lambda>_. True)) \<lparr>Key_Func = 9, Key_Value = 1, LR_Device = 8, Key_Event = 0x400\<rparr> (config_func_maps (ex_env_of (\<lambda>_. True))) ! 0)))"
proof -
  let ?E = "ex_env_of (\<lambda>_. True)" and ?a = "\<lparr>Key_Func = 9, Key_Value = 1, LR_Device = 8, Key_Event = 0x400\<rparr> :: CFG_Type_Key_Func_Map"
  have "find (\<lambda>j. Key_Value (config_func_maps ?E ! j) = Key_Value ?a \<and> Key_Event (config_func_maps ?E ! j) = Key_Event ?a \<and> Key_Func (config_func_maps ?E ! j) \<noteq> Key_Func ?a) [0..<40] = Some 0"
    by (simp add: ex_env_of_def upt_rec)
  from key_remap_right_needs_pair [OF _ _ _ _ _ this, of ?E] show ?thesis by (simp add: ex_env_of_def key_none_def is_channel_def)
qed

end
