(* ===== verification/Input_Keys.thy ===== *)
theory Input_Keys
  imports Input_Keypad
begin

text \<open>
  What the keypad makes of the scans: clicks, long presses, combinations of two keys, the lock, and the clock.
\<close>

unbundle bit_operations_syntax

section \<open>Types of events\<close>

lemma click_type_cases:
  "get_click_key_type k \<in> {0, KEY_TYPE_SHORT_UP, KEY_TYPE_DOUBLE_CLICK, KEY_TYPE_TRIPLE_CLICK, KEY_TYPE_QUAD_CLICK, KEY_TYPE_QUINT_CLICK}"
proof (cases "1 \<le> k \<and> k \<le> 5")
  case True
  then have "k \<in> {1, 2, 3, 4, 5}" by auto
  then show ?thesis by (auto simp: get_click_key_type_def numeral_eq_Suc)
next
  case False
  then show ?thesis unfolding get_click_key_type_def by (simp only: if_False insertI1)
qed

lemma click_type_flags [simp]:
  "get_click_key_type k AND KEY_TYPE_LONG1S = 0" "get_click_key_type k AND KEY_TYPE_LONG3S = 0"
  "get_click_key_type k AND KEY_TYPE_LONG6S = 0" "get_click_key_type k AND 0x03800000 = 0"
  "get_click_key_type k AND 0x10600000 = 0" "get_click_key_type k AND 0x13E00000 = 0"
  using click_type_cases [of k] by auto

lemma click_type_clicks [simp]: "get_click_key_type k AND 0x441C0000 = get_click_key_type k"
  using click_type_cases [of k] by auto

lemma click_type_0 [simp]: "get_click_key_type 0 = 0"
  by (simp add: get_click_key_type_def)

section \<open>Scans of one key\<close>

definition key_down :: "key_dev \<Rightarrow> u16 \<Rightarrow> key_scan" where
  "key_down d c = \<lparr>k_dev = d, k_type = EV_KEY, k_code = c, k_value = KEY_VALUE_DOWN\<rparr>"

definition key_up :: "key_dev \<Rightarrow> u16 \<Rightarrow> key_scan" where
  "key_up d c = \<lparr>k_dev = d, k_type = EV_KEY, k_code = c, k_value = KEY_VALUE_UP\<rparr>"

definition elapsed :: "u32 \<Rightarrow> u32 \<Rightarrow> u32" where
  "elapsed p q = uptime_ms q - uptime_ms p"

text \<open>The configuration, which no scan changes.\<close>

definition settings :: "input_keypad_info \<Rightarrow> bool \<times> u16 list" where
  "settings s = (adckey_handle s,
     [long_press_time s, super_long_press_time s, super_long_press_6s_time s, single_click_valid_time s,
      quickly_click_duration s, key_event_cancel_duration s, hold_delay_time s, hold_interval_time s])"

definition idle :: "input_keypad_info \<Rightarrow> bool" where
  "idle s \<longleftrightarrow> press_type s = 0 \<and> press_code s = 0 \<and> click_num s = 0 \<and> \<not> combo_mode s \<and> report_work s = None"

definition key_code :: "u16 \<Rightarrow> bool" where
  "key_code c \<longleftrightarrow> c \<noteq> 0 \<and> c \<le> 0xff"

text \<open>\<open>k\<close> clicks of the key \<open>c\<close> are counted and wait for another one.\<close>

definition clicked :: "nat \<Rightarrow> u16 \<Rightarrow> input_keypad_info \<Rightarrow> input_keypad_info \<Rightarrow> bool" where
  "clicked k c s0 s \<longleftrightarrow>
     press_code s = 0 \<and> \<not> combo_mode s \<and> click_num s = of_nat k \<and> press_type s = get_click_key_type (k mod 16)
     \<and> input_events s = input_events s0 \<and> settings s = settings s0
     \<and> (if k = 0 then report_work s = None
        else report_work s = Some (report_delay s0) \<and> last_report_key_value s = get_click_key_type (k mod 16) OR ucast c \<and> \<not> filter_itself s)"

text \<open>The key \<open>c\<close> went down at the cycle \<open>p\<close> after \<open>k\<close> clicks.\<close>

definition held :: "nat \<Rightarrow> u16 \<Rightarrow> u32 \<Rightarrow> input_keypad_info \<Rightarrow> input_keypad_info \<Rightarrow> bool" where
  "held k c p s0 s \<longleftrightarrow>
     press_code s = c \<and> \<not> combo_mode s \<and> click_num s = of_nat k \<and> press_type s = get_click_key_type (k mod 16)
     \<and> input_events s = input_events s0 \<and> settings s = settings s0 \<and> press_timer s = uptime_ms p \<and> \<not> filter_itself s
     \<and> (k \<noteq> 0 \<longrightarrow> last_report_key_value s = get_click_key_type (k mod 16) OR ucast c)"

lemma key_code_less: "key_code c \<Longrightarrow> c < 2 ^ 8"
  by (simp add: key_code_def word_le_nat_alt word_less_nat_alt)

lemma low_code_key [simp]: "key_code c \<Longrightarrow> low_code c = c"
  using less_mask_eq [OF key_code_less, of c] by (simp add: low_code_def mask_eq_exp_minus_1)

lemma high_code_key [simp]: "key_code c \<Longrightarrow> high_code c = 0"
  using key_code_less [of c] by (simp add: high_code_def drop_bit_eq_div div_word_less)

lemma codes_0 [simp]: "low_code 0 = 0" "high_code 0 = 0"
  by (simp_all add: low_code_def high_code_def)

lemma settings_update [simp]:
  "settings (s\<lparr>press_type := x0\<rparr>) = settings s" "settings (s\<lparr>press_code := x1\<rparr>) = settings s" "settings (s\<lparr>report_press_code := x2\<rparr>) = settings s"
  "settings (s\<lparr>report_key_value := x3\<rparr>) = settings s" "settings (s\<lparr>last_report_key_value := x4\<rparr>) = settings s" "settings (s\<lparr>callback_key_value := x5\<rparr>) = settings s"
  "settings (s\<lparr>press_timer := x6\<rparr>) = settings s" "settings (s\<lparr>last_lradc_key_code := x7\<rparr>) = settings s" "settings (s\<lparr>click_num := x8\<rparr>) = settings s"
  "settings (s\<lparr>key_hold := x9\<rparr>) = settings s" "settings (s\<lparr>filter_itself := x10\<rparr>) = settings s" "settings (s\<lparr>combo_mode := x11\<rparr>) = settings s"
  "settings (s\<lparr>combo_down_0 := x12\<rparr>) = settings s" "settings (s\<lparr>combo_down_1 := x13\<rparr>) = settings s" "settings (s\<lparr>report_work := x14\<rparr>) = settings s"
  "settings (s\<lparr>hold_key_work := x15\<rparr>) = settings s" "settings (s\<lparr>callback_work := x16\<rparr>) = settings s" "settings (s\<lparr>input_events := x17\<rparr>) = settings s"
  by (simp_all add: settings_def)

lemma report_delay_settings: "report_delay s = ucast (snd (settings s) ! 4) + ucast (snd (settings s) ! 5)"
  by (simp add: report_delay_def settings_def)

text \<open>What the end of a scan leaves alone.\<close>

lemma scan_report_keeps [simp]:
  "press_code (scan_report l v b s) = press_code s" "press_type (scan_report l v b s) = press_type s"
  "combo_mode (scan_report l v b s) = combo_mode s" "input_events (scan_report l v b s) = input_events s"
  "combo_down_0 (scan_report l v b s) = combo_down_0 s" "combo_down_1 (scan_report l v b s) = combo_down_1 s"
  "press_timer (scan_report l v b s) = press_timer s" "filter_itself (scan_report l v b s) = filter_itself s"
  "report_press_code (scan_report l v b s) = report_press_code s" "key_hold (scan_report l v b s) = key_hold s"
  "settings (scan_report l v b s) = settings s"
  by (simp_all add: scan_report_def Let_def settings_def)

lemma scan_report_clicks [simp]:
  "click_num (scan_report l v b s) = (if b \<and> l then 0 else click_num s)"
  "last_report_key_value (scan_report l v b s) = (if b then press_type s OR ucast (report_press_code s) else last_report_key_value s)"
  by (simp_all add: scan_report_def Let_def)

lemma scan_report_work:
  "report_work (scan_report l v b s) =
     (if b \<and> \<not> l then Some (if press_type s AND (KEY_TYPE_LONGS OR KEY_TYPE_LONG_UPS) \<noteq> 0 then 0 else report_delay s)
      else if k_value v = KEY_VALUE_DOWN \<and> click_num s \<noteq> 0 then Some (report_delay s) else report_work s)"
  by (auto simp: scan_report_def Let_def report_delay_def)

text \<open>The three kinds of scans of a key.\<close>

lemma scan_new_key:
  "c \<noteq> low_code (press_code s) \<Longrightarrow> c \<noteq> high_code (press_code s)
   \<Longrightarrow> keypad_scan_callback l p (key_down d c) s = scan_report l (key_down d c) False (new_key_down (uptime_ms p) (key_down d c) s)"
  by (simp add: keypad_scan_callback_def key_down_def Let_def)

lemma scan_kept_key:
  "c = low_code (press_code s) \<or> c = high_code (press_code s)
   \<Longrightarrow> keypad_scan_callback l p (key_down d c) s
       = (case key_kept_down (uptime_ms p) s of (s', b) \<Rightarrow> scan_report l (key_down d c) b s')"
  by (auto simp: keypad_scan_callback_def key_down_def Let_def split: prod.split)

lemma scan_key_up:
  "keypad_scan_callback l p (key_up d c) s
   = (case key_released (uptime_ms p) (key_up d c) s of (s', None) \<Rightarrow> s' | (s', Some b) \<Rightarrow> scan_report l (key_up d c) b s')"
  by (simp add: keypad_scan_callback_def key_up_def Let_def split: prod.split option.split)

lemma settings_D:
  assumes "settings s = settings s0"
  shows "report_delay s = report_delay s0" "long_press_time s = long_press_time s0" "super_long_press_time s = super_long_press_time s0"
    "super_long_press_6s_time s = super_long_press_6s_time s0" "single_click_valid_time s = single_click_valid_time s0"
    "hold_delay_time s = hold_delay_time s0"
  using assms by (simp_all add: settings_def report_delay_def)

lemma first_key_down:
  assumes "press_code s = 0"
  shows "new_key_down now (key_down d c) s =
    (let s' = s\<lparr>press_code := c, combo_mode := False, combo_down_0 := True\<rparr>
     in (if is_lradc_input_dev d s then s'\<lparr>last_lradc_key_code := ucast c\<rparr> else s')\<lparr>press_timer := now, filter_itself := False\<rparr>)"
  using assms by (simp add: new_key_down_def place_key_def remember_lradc_def is_lradc_input_dev_def key_down_def Let_def)

lemma key_down_held:
  assumes "clicked k c s0 s" "key_code c"
  shows "held k c p s0 (keypad_scan_callback False p (key_down d c) s)"
proof -
  have "press_code s = 0" "c \<noteq> 0" using assms by (auto simp: clicked_def key_code_def)
  then show ?thesis using assms(1)
    by (auto simp: scan_new_key first_key_down held_def clicked_def Let_def settings_def scan_report_def)
qed

lemma short_kept:
  assumes "now - press_timer s < ucast (long_press_time s)" "now - press_timer s < ucast (super_long_press_time s)"
    "now - press_timer s < ucast (super_long_press_6s_time s)" "now - press_timer s < ucast (hold_delay_time s)"
  shows "key_kept_down now s = (s, False)"
  using assms by (simp add: key_kept_down_def long_press_check_def hold_check_def Let_def not_le [symmetric])

lemma held_kept:
  assumes "held k c p s0 s" "key_code c" "elapsed p q < ucast (long_press_time s0)" "elapsed p q < ucast (super_long_press_time s0)"
    "elapsed p q < ucast (super_long_press_6s_time s0)" "elapsed p q < ucast (hold_delay_time s0)"
  shows "held k c p s0 (keypad_scan_callback False q (key_down d c) s)"
proof -
  have "key_kept_down (uptime_ms q) s = (s, False)"
    using assms by (intro short_kept) (simp_all add: held_def elapsed_def settings_D [of s s0])
  then show ?thesis using assms(1, 2) by (auto simp: scan_kept_key held_def)
qed

lemma held_released:
  assumes "held k c p s0 s" "key_code c" "elapsed p q \<le> ucast (single_click_valid_time s0)"
  shows "clicked (Suc k) c s0 (keypad_scan_callback False q (key_up d c) s)"
proof -
  let ?s1 = "s\<lparr>report_press_code := c, press_code := 0, key_hold := False\<rparr>"
  let ?w = "if click_num s \<noteq> 0 then None else report_work s"
  let ?n = "of_nat (Suc k) :: 4 word"
  have code: "release_code (key_up d c) s = (s\<lparr>report_press_code := c, press_code := 0\<rparr>, True)"
    using assms(1) by (auto simp: release_code_def held_def key_up_def Let_def)
  have last: "last_report_key_value s = get_click_key_type (k mod 16) OR ucast c" if "k \<noteq> 0" using that assms(1) by (simp add: held_def)
  have num: "?n = click_num s + 1" "k = 0 \<Longrightarrow> click_num s = 0" using assms(1) by (simp_all add: held_def)
  have "Suc k mod 16 = unat ?n" by (simp only: unat_of_nat) simp
  then have "get_click_key_type (Suc k mod 16) = get_click_key_type (unat (click_num s + 1))" by (simp only: num)
  moreover have "press_type s = get_click_key_type (k mod 16)" using assms(1) by (simp add: held_def)
  ultimately have ty: "release_type ?s1 = ?s1\<lparr>report_work := ?w, click_num := ?n, press_type := get_click_key_type (Suc k mod 16)\<rparr>"
    using last num by (cases "k = 0") (simp_all add: release_type_def Let_def del: of_nat_Suc)
  have "key_released (uptime_ms q) (key_up d c) s
    = (?s1\<lparr>report_work := ?w, click_num := ?n, press_type := get_click_key_type (Suc k mod 16), press_timer := uptime_ms q\<rparr>, Some True)"
    using assms(1, 3) by (simp add: key_released_def code ty Let_def held_def elapsed_def settings_D [of s s0])
  then show ?thesis using assms(1)
    by (simp add: scan_key_up clicked_def held_def scan_report_work report_delay_settings)
qed

section \<open>Clicks\<close>

text \<open>A click: the cycles of the first scan, of the further scans while the key is down, and of the release.\<close>

definition click_scans :: "key_dev \<Rightarrow> u16 \<Rightarrow> u32 \<times> u32 list \<times> u32 \<Rightarrow> input_keypad_info \<Rightarrow> input_keypad_info" where
  "click_scans d c click s =
     (case click of (p, qs, r) \<Rightarrow>
        keypad_scan_callback False r (key_up d c) (fold (\<lambda>q. keypad_scan_callback False q (key_down d c)) (p # qs) s))"

definition quick :: "input_keypad_info \<Rightarrow> u32 \<times> u32 list \<times> u32 \<Rightarrow> bool" where
  "quick s click \<longleftrightarrow>
     (case click of (p, qs, r) \<Rightarrow>
        elapsed p r \<le> ucast (single_click_valid_time s)
        \<and> list_all (\<lambda>q. elapsed p q < ucast (long_press_time s) \<and> elapsed p q < ucast (super_long_press_time s)
             \<and> elapsed p q < ucast (super_long_press_6s_time s) \<and> elapsed p q < ucast (hold_delay_time s)) qs)"

lemma held_kept_all:
  "held k c p s0 s \<Longrightarrow> key_code c \<Longrightarrow> list_all (\<lambda>q. elapsed p q < ucast (long_press_time s0) \<and> elapsed p q < ucast (super_long_press_time s0)
      \<and> elapsed p q < ucast (super_long_press_6s_time s0) \<and> elapsed p q < ucast (hold_delay_time s0)) qs
   \<Longrightarrow> held k c p s0 (fold (\<lambda>q. keypad_scan_callback False q (key_down d c)) qs s)"
  by (induction qs arbitrary: s) (simp_all add: held_kept)

lemma click_counts:
  assumes "clicked k c s0 s" "key_code c" "quick s0 click"
  shows "clicked (Suc k) c s0 (click_scans d c click s)"
proof -
  obtain p qs r where click: "click = (p, qs, r)" by (cases click) auto
  have "held k c p s0 (fold (\<lambda>q. keypad_scan_callback False q (key_down d c)) qs (keypad_scan_callback False p (key_down d c) s))"
    using assms by (intro held_kept_all key_down_held) (simp_all add: quick_def click)
  then show ?thesis using assms by (simp add: click click_scans_def quick_def held_released)
qed

lemma clicks_count:
  "clicked k c s0 s \<Longrightarrow> key_code c \<Longrightarrow> list_all (quick s0) clicks \<Longrightarrow> clicked (k + length clicks) c s0 (fold (click_scans d c) clicks s)"
proof (induction clicks arbitrary: k s)
  case (Cons a clicks)
  then have "clicked (Suc k + length clicks) c s0 (fold (click_scans d c) clicks (click_scans d c a s))"
    by (intro Cons.IH click_counts) simp_all
  then show ?case by simp
qed simp

lemma idle_clicked: "idle s \<Longrightarrow> clicked 0 c s s"
  by (simp add: idle_def clicked_def)

lemma report_clicks:
  assumes "clicked k c s0 s" "k \<noteq> 0"
  shows "input_events (report_key_event_work_handle s) = input_events s0 @ [Report (get_click_key_type (k mod 16) OR ucast c)]"
    "idle (report_key_event_work_handle s)"
  using assms by (auto simp: report_key_event_work_handle_def clicked_def idle_def Let_def output_event_def)

text \<open>C19: From an idle keypad, a series of quick clicks of one key is one event, whatever the number of scans while the key is
  down: while the series goes on nothing is reported, the report waits for the delay, and the report gives the
  type that \<open>get_click_key_type\<close> has for the number of clicks modulo sixteen (one to five clicks have a type, the other numbers
  have none), with the code of the key. The keypad is idle again.\<close>

theorem clicks_reported:
  fixes d :: key_dev
  assumes "idle s" "key_code c" "clicks \<noteq> []" "list_all (quick s) clicks"
  defines "t \<equiv> fold (click_scans d c) clicks s"
  shows "input_events t = input_events s \<and> report_work t = Some (report_delay s)
    \<and> input_events (report_key_event_work_handle t) = input_events s @ [Report (get_click_key_type (length clicks mod 16) OR ucast c)]
    \<and> idle (report_key_event_work_handle t)"
proof -
  have t: "clicked (length clicks) c s t" using clicks_count [OF idle_clicked [OF assms(1)] assms(2, 4)] by (simp add: t_def)
  then have "input_events t = input_events s" "report_work t = Some (report_delay s)" using assms(3) by (simp_all add: clicked_def)
  then show ?thesis using report_clicks [OF t] assms(3) by simp
qed

section \<open>Long presses\<close>

definition press_level :: "input_keypad_info \<Rightarrow> u32 \<Rightarrow> u32" where
  "press_level s e =
     (if ucast (super_long_press_6s_time s) \<le> e then KEY_TYPE_LONG6S
      else if ucast (super_long_press_time s) \<le> e then KEY_TYPE_LONG3S
      else if ucast (long_press_time s) \<le> e then KEY_TYPE_LONG1S else 0)"

definition level_up :: "u32 \<Rightarrow> u32" where
  "level_up l = (if l = KEY_TYPE_LONG6S then KEY_TYPE_LONG6S_UP else if l = KEY_TYPE_LONG3S then KEY_TYPE_LONG3S_UP else KEY_TYPE_LONG1S_UP)"

text \<open>A scan of a key that is kept down, and the report it asks for at once.\<close>

definition held_scan :: "key_dev \<Rightarrow> u16 \<Rightarrow> u32 \<Rightarrow> input_keypad_info \<Rightarrow> input_keypad_info" where
  "held_scan d c q s =
     (let s' = keypad_scan_callback False q (key_down d c) s
      in if report_work s' = Some 0 then report_key_event_work_handle s' else s')"

text \<open>The key is down since the cycle \<open>p\<close>, after \<open>k\<close> clicks, and the level \<open>l\<close> was the last one reported.\<close>

definition pressed :: "nat \<Rightarrow> u16 \<Rightarrow> u32 \<Rightarrow> u32 \<Rightarrow> input_keypad_info \<Rightarrow> key_event list \<Rightarrow> input_keypad_info \<Rightarrow> bool" where
  "pressed k c p l s0 evs s \<longleftrightarrow>
     press_code s = c \<and> \<not> combo_mode s \<and> settings s = settings s0 \<and> press_timer s = uptime_ms p \<and> \<not> filter_itself s
     \<and> press_type s = get_click_key_type (k mod 16) OR l \<and> click_num s = (if l = 0 then of_nat k else 0)
     \<and> input_events s = evs \<and> (if l = 0 then report_work s \<noteq> Some 0 else report_work s = None)"

abbreviation levels :: "u32 set" where "levels \<equiv> {KEY_TYPE_LONG1S, KEY_TYPE_LONG3S, KEY_TYPE_LONG6S}"

lemma press_level_levels: "press_level s e \<in> insert 0 levels"
  by (simp add: press_level_def)

lemma key_down_pressed:
  assumes "clicked k c s0 s" "key_code c" "report_delay s0 \<noteq> 0"
  shows "pressed k c p 0 s0 (input_events s0) (keypad_scan_callback False p (key_down d c) s)"
proof -
  have "press_code s = 0" "c \<noteq> 0" using assms by (auto simp: clicked_def key_code_def)
  then have "report_work (keypad_scan_callback False p (key_down d c) s) \<noteq> Some 0" using assms(1, 3)
    by (auto simp: scan_new_key first_key_down clicked_def Let_def scan_report_work report_delay_settings split: if_splits)
  then show ?thesis using key_down_held [OF assms(1, 2), of p d] by (simp add: held_def pressed_def)
qed

text \<open>Levels replace one another in the type of the key.\<close>

lemma level_replaces:
  assumes "l \<in> insert 0 levels" "t \<in> {0, get_click_key_type k}"
  shows "((get_click_key_type k OR l) AND NOT (KEY_TYPE_LONG1S OR KEY_TYPE_LONG3S)) OR KEY_TYPE_LONG6S OR t = get_click_key_type k OR KEY_TYPE_LONG6S"
    "((get_click_key_type k OR l) AND NOT (KEY_TYPE_LONG1S OR KEY_TYPE_LONG6S)) OR KEY_TYPE_LONG3S OR t = get_click_key_type k OR KEY_TYPE_LONG3S"
    "((get_click_key_type k OR l) AND NOT (KEY_TYPE_LONG3S OR KEY_TYPE_LONG6S)) OR KEY_TYPE_LONG1S OR t = get_click_key_type k OR KEY_TYPE_LONG1S"
  using assms click_type_cases [of k] by auto

lemma level_flag:
  assumes "l \<in> insert 0 levels" "m \<in> levels"
  shows "(get_click_key_type k OR l) AND m = 0 \<longleftrightarrow> m \<noteq> l"
  using assms click_type_cases [of k] by auto

lemma long_level_pressed:
  assumes "press_type s = t OR l" "(t OR l) AND flag = 0 \<longleftrightarrow> flag \<noteq> l"
    "((t OR l) AND NOT others) OR flag OR get_click_key_type (unat (click_num s)) = t OR flag"
  shows "long_level flag others s =
    (if flag \<noteq> l then s\<lparr>report_press_code := press_code s, press_type := t OR flag\<rparr> else s, flag \<noteq> l)"
  unfolding long_level_def assms by simp

lemma long_press_check_pressed:
  fixes e :: u32
  assumes "press_type s = get_click_key_type k OR l" "get_click_key_type (unat (click_num s)) \<in> {0, get_click_key_type k}" "l \<in> insert 0 levels"
  defines "m \<equiv> press_level s e"
  shows "long_press_check e s =
    (if m \<noteq> 0 \<and> m \<noteq> l then s\<lparr>report_press_code := press_code s, press_type := get_click_key_type k OR m\<rparr> else s, m \<noteq> 0 \<and> m \<noteq> l)"
proof -
  note level = long_level_pressed [OF assms(1) level_flag [OF assms(3)]] and replaces = level_replaces [OF assms(3, 2)]
  have "long_level KEY_TYPE_LONG6S (KEY_TYPE_LONG1S OR KEY_TYPE_LONG3S) s =
     (if KEY_TYPE_LONG6S \<noteq> l then s\<lparr>report_press_code := press_code s, press_type := get_click_key_type k OR KEY_TYPE_LONG6S\<rparr> else s, KEY_TYPE_LONG6S \<noteq> l)"
    by (rule level [OF _ replaces(1)]) simp
  moreover have "long_level KEY_TYPE_LONG3S (KEY_TYPE_LONG1S OR KEY_TYPE_LONG6S) s =
     (if KEY_TYPE_LONG3S \<noteq> l then s\<lparr>report_press_code := press_code s, press_type := get_click_key_type k OR KEY_TYPE_LONG3S\<rparr> else s, KEY_TYPE_LONG3S \<noteq> l)"
    by (rule level [OF _ replaces(2)]) simp
  moreover have "long_level KEY_TYPE_LONG1S (KEY_TYPE_LONG3S OR KEY_TYPE_LONG6S) s =
     (if KEY_TYPE_LONG1S \<noteq> l then s\<lparr>report_press_code := press_code s, press_type := get_click_key_type k OR KEY_TYPE_LONG1S\<rparr> else s, KEY_TYPE_LONG1S \<noteq> l)"
    by (rule level [OF _ replaces(3)]) simp
  ultimately show ?thesis unfolding long_press_check_def m_def press_level_def
    by (cases "ucast (super_long_press_6s_time s) \<le> e"; cases "ucast (super_long_press_time s) \<le> e"; cases "ucast (long_press_time s) \<le> e"; simp)
qed

lemma hold_check_keeps [simp]:
  "press_type (hold_check e s) = press_type s" "press_code (hold_check e s) = press_code s" "combo_mode (hold_check e s) = combo_mode s"
  "settings (hold_check e s) = settings s" "press_timer (hold_check e s) = press_timer s" "filter_itself (hold_check e s) = filter_itself s"
  "click_num (hold_check e s) = click_num s" "input_events (hold_check e s) = input_events s" "report_work (hold_check e s) = report_work s"
  "report_press_code (hold_check e s) = report_press_code s"
  by (simp_all add: hold_check_def)

lemma or_level_longs:
  assumes "l \<in> levels"
  shows "(get_click_key_type k OR l) AND 0x13E00000 \<noteq> 0" "(get_click_key_type k OR l) AND 0x10600000 \<noteq> 0"
    "(get_click_key_type k OR l) AND 0x03800000 = 0"
  using assms click_type_cases [of k] by auto

lemma report_level:
  assumes "report_work s = Some 0" "\<not> filter_itself s" "press_type s = get_click_key_type k OR l" "l \<in> levels"
  shows "report_key_event_work_handle s = output_event (Report (last_report_key_value s)) (s\<lparr>report_work := None, click_num := 0\<rparr>)"
  using assms or_level_longs [OF assms(4), of k] by (simp add: report_key_event_work_handle_def Let_def)

lemma press_level_settings: "settings s = settings s0 \<Longrightarrow> press_level s e = press_level s0 e"
  by (simp add: press_level_def settings_D [of s s0])

lemma kept_pressed:
  fixes q :: u32
  assumes "pressed k c p l s0 evs s" "l \<in> insert 0 levels"
  defines "m \<equiv> press_level s0 (elapsed p q)"
  shows "key_kept_down (uptime_ms q) s =
    (hold_check (elapsed p q)
       (if m \<noteq> 0 \<and> m \<noteq> l then s\<lparr>report_press_code := c, press_type := get_click_key_type (k mod 16) OR m\<rparr> else s), m \<noteq> 0 \<and> m \<noteq> l)"
proof -
  have count: "get_click_key_type (unat (click_num s)) \<in> {0, get_click_key_type (k mod 16)}"
    using assms(1) by (cases "l = 0") (simp_all add: pressed_def unat_of_nat)
  have m: "press_level s (elapsed p q) = m" unfolding m_def using assms(1) by (intro press_level_settings) (simp add: pressed_def)
  have ty: "press_type s = get_click_key_type (k mod 16) OR l" and c: "press_code s = c" using assms(1) by (simp_all add: pressed_def)
  have "uptime_ms q - press_timer s = elapsed p q" using assms(1) by (simp add: pressed_def elapsed_def)
  then show ?thesis using long_press_check_pressed [of s "k mod 16" l "elapsed p q", OF ty count assms(2)]
    by (simp only: key_kept_down_def Let_def prod.case m c)
qed

lemma held_scan_pressed:
  fixes q :: u32
  assumes "pressed k c p l s0 evs s" "key_code c" "report_delay s0 \<noteq> 0" "l \<in> insert 0 levels"
  defines "m \<equiv> press_level s0 (elapsed p q)"
  shows "pressed k c p (if m = 0 then l else m) s0
    (if m \<noteq> 0 \<and> m \<noteq> l then evs @ [Report (get_click_key_type (k mod 16) OR m OR ucast c)] else evs) (held_scan d c q s)"
proof (cases "m \<noteq> 0 \<and> m \<noteq> l")
  case True
  let ?s1 = "hold_check (elapsed p q) (s\<lparr>report_press_code := c, press_type := get_click_key_type (k mod 16) OR m\<rparr>)"
  let ?s2 = "scan_report False (key_down d c) True ?s1"
  have m: "m \<in> levels" using True press_level_levels [of s0 "elapsed p q"] by (simp add: m_def)
  have s2: "keypad_scan_callback False q (key_down d c) s = ?s2"
    using True assms(1, 2) kept_pressed [OF assms(1, 4), of q] by (auto simp: scan_kept_key pressed_def m_def)
  have w: "report_work ?s2 = Some 0" using or_level_longs [OF m, of "k mod 16"] by (simp add: scan_report_work)
  have "report_key_event_work_handle ?s2 = output_event (Report (last_report_key_value ?s2)) (?s2\<lparr>report_work := None, click_num := 0\<rparr>)"
    using assms(1) by (intro report_level [OF w _ _ m, of "k mod 16"]) (simp_all add: pressed_def)
  then have "held_scan d c q s = output_event (Report (last_report_key_value ?s2)) (?s2\<lparr>report_work := None, click_num := 0\<rparr>)"
    by (simp add: held_scan_def s2 w Let_def)
  then show ?thesis using True assms(1) by (auto simp: pressed_def output_event_def or.assoc)
next
  case False
  let ?s1 = "hold_check (elapsed p q) s"
  have s2: "keypad_scan_callback False q (key_down d c) s = scan_report False (key_down d c) False ?s1"
    using False assms(1, 2) kept_pressed [OF assms(1, 4), of q] by (auto simp: scan_kept_key pressed_def m_def)
  have "report_work (scan_report False (key_down d c) False ?s1) \<noteq> Some 0" using assms(1, 3)
    by (auto simp: scan_report_work pressed_def report_delay_settings split: if_splits)
  then show ?thesis using False assms(1)
    by (auto simp: held_scan_def s2 Let_def pressed_def scan_report_work)
qed

lemma held_scans_pressed:
  assumes "pressed k c p l s0 evs s" "key_code c" "report_delay s0 \<noteq> 0" "l \<in> insert 0 levels"
    "ls = filter (\<lambda>l. l \<noteq> 0) (map (\<lambda>q. press_level s0 (elapsed p q)) qs)"
  shows "pressed k c p (last (l # ls)) s0
    (evs @ map (\<lambda>l. Report (get_click_key_type (k mod 16) OR l OR ucast c)) (tl (remdups_adj (l # ls)))) (fold (held_scan d c) qs s)"
  using assms
proof (induction qs arbitrary: l ls evs s)
  case (Cons q qs)
  let ?m = "press_level s0 (elapsed p q)" and ?ls = "filter (\<lambda>l. l \<noteq> 0) (map (\<lambda>q. press_level s0 (elapsed p q)) qs)"
  note step = held_scan_pressed [OF Cons.prems(1-4), of q d]
  have "(if ?m = 0 then l else ?m) \<in> insert 0 levels" using Cons.prems(4) press_level_levels [of s0 "elapsed p q"] by metis
  note IH = Cons.IH [OF step Cons.prems(2, 3) this refl]
  show ?case
  proof (cases "?m = 0 \<or> ?m = l")
    case True
    then show ?thesis using IH Cons.prems(5) by (auto split: if_splits)
  next
    case False
    then have tl: "tl (remdups_adj (l # ls)) = ?m # tl (remdups_adj (?m # ?ls))"
      using Cons.prems(5) by (auto simp add: remdups_adj_Cons_alt)
    then show ?thesis unfolding tl using False IH Cons.prems(5) by (simp del: remdups_adj.simps remdups_adj_Cons_alt)
  qed
qed simp

lemma release_type_level:
  assumes "press_type s = get_click_key_type k OR l" "l \<in> levels"
  shows "release_type s = s\<lparr>press_type := get_click_key_type k OR level_up l\<rparr>"
proof -
  have l: "l \<in> insert 0 levels" using assms(2) by (rule insertI2)
  have flags: "(get_click_key_type k OR l) AND KEY_TYPE_LONG1S \<noteq> 0 \<longleftrightarrow> l = KEY_TYPE_LONG1S"
    "(get_click_key_type k OR l) AND KEY_TYPE_LONG3S \<noteq> 0 \<longleftrightarrow> l = KEY_TYPE_LONG3S"
    "(get_click_key_type k OR l) AND KEY_TYPE_LONG6S \<noteq> 0 \<longleftrightarrow> l = KEY_TYPE_LONG6S"
    using level_flag [OF l, of KEY_TYPE_LONG1S k] level_flag [OF l, of KEY_TYPE_LONG3S k] level_flag [OF l, of KEY_TYPE_LONG6S k] by auto
  have ups: "(get_click_key_type k OR KEY_TYPE_LONG1S) AND NOT KEY_TYPE_LONG1S = get_click_key_type k"
    "(get_click_key_type k OR KEY_TYPE_LONG3S) AND NOT KEY_TYPE_LONG3S = get_click_key_type k"
    "(get_click_key_type k OR KEY_TYPE_LONG6S) AND NOT KEY_TYPE_LONG6S = get_click_key_type k"
    using click_type_cases [of k] by auto
  consider "l = KEY_TYPE_LONG1S" | "l = KEY_TYPE_LONG3S" | "l = KEY_TYPE_LONG6S" using assms(2) by blast
  then show ?thesis unfolding release_type_def assms(1) flags
    by cases (use ups in \<open>simp_all add: level_up_def\<close>)
qed

lemma long_released:
  fixes d :: key_dev and u :: u32
  assumes "pressed k c p l s0 evs s" "l \<in> levels" "key_code c"
  defines "r \<equiv> keypad_scan_callback False u (key_up d c) s"
  shows "report_work r = Some 0"
    "input_events (report_key_event_work_handle r) = evs @ [Report (get_click_key_type (k mod 16) OR level_up l OR ucast c)]"
    "idle (report_key_event_work_handle r)"
proof -
  let ?t = "get_click_key_type (k mod 16)"
  let ?s1 = "s\<lparr>report_press_code := c, press_code := 0, key_hold := False\<rparr>"
  have code: "release_code (key_up d c) s = (s\<lparr>report_press_code := c, press_code := 0\<rparr>, True)"
    using assms(1) by (auto simp: release_code_def pressed_def key_up_def Let_def)
  have ty: "press_type s = ?t OR l" using assms(1) by (simp add: pressed_def)
  have up: "release_type ?s1 = ?s1\<lparr>press_type := ?t OR level_up l\<rparr>"
    by (rule release_type_level [OF _ assms(2)]) (simp add: ty)
  have flags: "(?t OR level_up l) AND 0x03800000 \<noteq> 0" "(?t OR level_up l) AND 0x13E00000 \<noteq> 0"
    using assms(2) click_type_cases [of "k mod 16"] by (auto simp: level_up_def)
  let ?s2 = "?s1\<lparr>press_type := ?t OR level_up l, press_timer := uptime_ms u\<rparr>"
  have "key_released (uptime_ms u) (key_up d c) s = (?s2, Some True)"
    using flags by (simp add: key_released_def code up Let_def)
  then have r: "r = scan_report False (key_up d c) True ?s2" by (simp add: r_def scan_key_up)
  show "report_work r = Some 0" using flags by (simp add: r scan_report_work)
  show "input_events (report_key_event_work_handle r) = evs @ [Report (?t OR level_up l OR ucast c)]" "idle (report_key_event_work_handle r)"
    using flags assms(1) by (simp_all add: r report_key_event_work_handle_def Let_def output_event_def pressed_def idle_def or.assoc)
qed

text \<open>C20: After any number of quick clicks of a key the key goes down again and stays down. While it is scanned, each
  level of a long press, one, three or six seconds, is reported when the time since the key went down reaches it and only then,
  with the type of the clicks before; letting the key go reports the end of the last level. The keypad is idle again.\<close>

theorem long_press_reported:
  fixes d :: key_dev and p u :: u32
  assumes "idle s" "key_code c" "list_all (quick s) clicks" "report_delay s \<noteq> 0"
    "reached = remdups_adj (filter (\<lambda>l. l \<noteq> 0) (map (\<lambda>q. press_level s (elapsed p q)) qs))" "reached \<noteq> []"
  defines "t \<equiv> fold (held_scan d c) qs (keypad_scan_callback False p (key_down d c) (fold (click_scans d c) clicks s))"
  defines "r \<equiv> keypad_scan_callback False u (key_up d c) t"
  defines "report \<equiv> \<lambda>l. Report (get_click_key_type (length clicks mod 16) OR l OR ucast c)"
  shows "input_events t = input_events s @ map report reached \<and> report_work r = Some 0
    \<and> input_events (report_key_event_work_handle r) = input_events s @ map report reached @ [report (level_up (last reached))]
    \<and> idle (report_key_event_work_handle r)"
proof -
  let ?ls = "filter (\<lambda>l. l \<noteq> 0) (map (\<lambda>q. press_level s (elapsed p q)) qs)"
  have "clicked (length clicks) c s (fold (click_scans d c) clicks s)"
    using clicks_count [OF idle_clicked [OF assms(1)] assms(2, 3)] by simp
  note down = key_down_pressed [OF this assms(2, 4), of p d]
  have "?ls \<noteq> []" using assms(5, 6) by auto
  then have last: "last (0 # ?ls) = last reached" using assms(5) by (simp add: last_remdups_adj)
  have "0 \<notin> set ?ls" by simp
  then have "tl (remdups_adj (0 # ?ls)) = reached" using \<open>?ls \<noteq> []\<close> assms(5) by (cases ?ls) auto
  then have t: "pressed (length clicks) c p (last reached) s (input_events s @ map report reached) t"
    using held_scans_pressed [OF down assms(2, 4) _ refl, of qs d] last by (simp add: t_def report_def)
  have "last reached \<in> set ?ls" using assms(5, 6) last_in_set [OF assms(6)] by simp
  then obtain q where "last reached = press_level s (elapsed p q)" "last reached \<noteq> 0" by auto
  then have "last reached \<in> levels" using press_level_levels [of s "elapsed p q"] by simp
  then show ?thesis using long_released [OF t _ assms(2), of u d] t by (simp add: r_def report_def pressed_def)
qed

section \<open>The clock\<close>

lemma uptime_bound: "uptime_ms x \<le> 134217"
proof -
  have "unat (k_cyc_to_us_near32 x) \<le> 134217728" using unsigned_less [where ?'a = nat, of x]
    by (simp add: k_cyc_to_us_near32_def unsigned_of_nat take_bit_eq_mod)
  then have "unat (uptime_ms x) \<le> 134217" by (simp add: uptime_ms_def unat_div)
  then show ?thesis by (simp add: word_le_nat_alt)
qed

lemma elapsed_wrapped:
  fixes t :: u16
  assumes "uptime_ms q < uptime_ms p"
  shows "ucast t < elapsed p q"
proof -
  have "uint (uptime_ms q) < uint (uptime_ms p)" "uint (uptime_ms p) \<le> 134217" "0 \<le> uint (uptime_ms q)"
    using assms uptime_bound [of p] by (simp_all add: word_less_def word_le_def)
  moreover from this have "(uint (uptime_ms q) - uint (uptime_ms p)) mod 4294967296 = uint (uptime_ms q) - uint (uptime_ms p) + 4294967296"
    by (subst mod_add_self2 [symmetric], subst mod_pos_pos_trivial, linarith+)
  moreover have "uint (elapsed p q) = (uint (uptime_ms q) - uint (uptime_ms p)) mod 4294967296"
    by (simp add: elapsed_def uint_word_ariths(2))
  ultimately have "uint (elapsed p q) \<ge> 4294967296 - 134217" by linarith
  moreover have "uint (ucast t :: u32) < 2 ^ 16" using uint_lt2p [of t] by (simp add: unsigned_ucast_eq take_bit_int_eq_self)
  ultimately show ?thesis by (simp add: word_less_def)
qed

lemma wrapped_level: "uptime_ms q < uptime_ms p \<Longrightarrow> press_level s (elapsed p q) = KEY_TYPE_LONG6S"
  using elapsed_wrapped [of q p "super_long_press_6s_time s"] by (simp add: press_level_def less_imp_le)

lemma key_up_fields [simp]: "k_dev (key_up d c) = d" "k_code (key_up d c) = c" "k_value (key_up d c) = KEY_VALUE_UP" "k_type (key_up d c) = EV_KEY"
  by (simp_all add: key_up_def)

lemma late_release:
  assumes "held k c p s0 s" "\<not> elapsed p q \<le> ucast (single_click_valid_time s0)"
  shows "report_work (keypad_scan_callback False q (key_up d c) s) = None"
    "input_events (keypad_scan_callback False q (key_up d c) s) = input_events s0"
proof -
  let ?s1 = "s\<lparr>report_press_code := c, press_code := 0, key_hold := False\<rparr>"
  have code: "release_code (key_up d c) s = (s\<lparr>report_press_code := c, press_code := 0\<rparr>, True)"
    using assms(1) by (auto simp: release_code_def held_def Let_def)
  have keeps: "\<exists>n. press_type (release_type ?s1) = get_click_key_type n" "press_timer (release_type ?s1) = press_timer s"
    "input_events (release_type ?s1) = input_events s" "single_click_valid_time (release_type ?s1) = single_click_valid_time s"
    using assms(1) by (auto simp: release_type_def held_def Let_def)
  then have "\<exists>s'. key_released (uptime_ms q) (key_up d c) s = (s', Some False) \<and> report_work s' = None \<and> input_events s' = input_events s"
    using assms by (auto simp: key_released_def code Let_def held_def elapsed_def settings_D [of s s0])
  then show "report_work (keypad_scan_callback False q (key_up d c) s) = None"
    "input_events (keypad_scan_callback False q (key_up d c) s) = input_events s0"
    using assms(1) by (auto simp: scan_key_up scan_report_work held_def)
qed

text \<open>C37: The cycle counter starts again at zero every 134 seconds, and the difference of two times does not take that into account. A
  key that is down at that moment is reported as pressed for six seconds by the next scan, however short the press is, and
  a key that is let go at the next scan is no click at all.\<close>

theorem clock_wrap_long_press:
  fixes d :: key_dev and p q :: u32
  assumes "idle s" "key_code c" "report_delay s \<noteq> 0" "uptime_ms q < uptime_ms p"
  defines "t \<equiv> keypad_scan_callback False p (key_down d c) s"
  shows "input_events (held_scan d c q t) = input_events s @ [Report (KEY_TYPE_LONG6S OR ucast c)]
    \<and> report_work (keypad_scan_callback False q (key_up d c) t) = None
    \<and> input_events (keypad_scan_callback False q (key_up d c) t) = input_events s"
proof -
  have "pressed 0 c p 0 s (input_events s) t" unfolding t_def by (rule key_down_pressed [OF idle_clicked [OF assms(1)] assms(2, 3)])
  from held_scan_pressed [OF this assms(2, 3), of q d] wrapped_level [OF assms(4), of s]
  have long: "input_events (held_scan d c q t) = input_events s @ [Report (KEY_TYPE_LONG6S OR ucast c)]" by (simp add: pressed_def)
  have t: "held 0 c p s t" unfolding t_def by (rule key_down_held [OF idle_clicked [OF assms(1)] assms(2)])
  show ?thesis using long late_release [OF t, of q d] elapsed_wrapped [OF assms(4), of "single_click_valid_time s"] by (simp add: not_le)
qed

section \<open>The lock\<close>

definition is_report :: "key_event \<Rightarrow> bool" where
  "is_report e = (case e of Report _ \<Rightarrow> True | Callback _ \<Rightarrow> False)"

definition reports :: "input_keypad_info \<Rightarrow> key_event list" where
  "reports s = filter is_report (input_events s)"

text \<open>Neither a report nor a click waits.\<close>

definition unarmed :: "input_keypad_info \<Rightarrow> bool" where
  "unarmed s \<longleftrightarrow> report_work s = None \<and> click_num s = 0"

lemma remember_lradc_keeps [simp]:
  "report_work (remember_lradc v s) = report_work s" "click_num (remember_lradc v s) = click_num s"
  "input_events (remember_lradc v s) = input_events s"
  by (simp_all add: remember_lradc_def)

lemma if_keeps: "f a = y \<Longrightarrow> f b = y \<Longrightarrow> f (if P then a else b) = y"
  by simp

lemma new_key_down_keeps [simp]:
  "report_work (new_key_down now v s) = report_work s" "click_num (new_key_down now v s) = click_num s"
  "input_events (new_key_down now v s) = input_events s"
proof -
  have "report_work (place_key v s) = report_work s" unfolding place_key_def by (intro if_keeps [of report_work]) simp_all
  moreover have "click_num (place_key v s) = click_num s" unfolding place_key_def by (intro if_keeps [of click_num]) simp_all
  moreover have "input_events (place_key v s) = input_events s" unfolding place_key_def by (intro if_keeps [of input_events]) simp_all
  ultimately show "report_work (new_key_down now v s) = report_work s" "click_num (new_key_down now v s) = click_num s"
    "input_events (new_key_down now v s) = input_events s" by (simp_all add: new_key_down_def)
qed

lemma long_press_check_keeps [simp]:
  "report_work (fst (long_press_check e s)) = report_work s" "click_num (fst (long_press_check e s)) = click_num s"
  "input_events (fst (long_press_check e s)) = input_events s"
  by (simp_all add: long_press_check_def long_level_def)

lemma key_kept_down_keeps [simp]:
  "report_work (fst (key_kept_down now s)) = report_work s" "click_num (fst (key_kept_down now s)) = click_num s"
  "input_events (fst (key_kept_down now s)) = input_events s"
  by (simp_all add: key_kept_down_def Let_def split_beta)

lemma release_code_keeps [simp]:
  "report_work (fst (release_code v s)) = report_work s" "click_num (fst (release_code v s)) = click_num s"
  "input_events (fst (release_code v s)) = input_events s"
  by (simp_all add: release_code_def combo_key_up_def Let_def)

lemma release_type_keeps [simp]:
  "input_events (release_type s) = input_events s" "report_work s = None \<Longrightarrow> report_work (release_type s) = None"
  by (simp_all add: release_type_def Let_def)

lemma release_type_long: "press_type (release_type s) AND 0x03800000 \<noteq> 0 \<Longrightarrow> click_num (release_type s) = click_num s"
  by (simp add: release_type_def Let_def split: if_splits)

lemma key_released_events: "input_events (fst (key_released now v s)) = input_events s"
  by (simp add: key_released_def Let_def split_beta)

lemma key_released_unarmed:
  assumes "unarmed s"
  shows "report_work (fst (key_released now v s)) = None" "snd (key_released now v s) \<noteq> Some True \<Longrightarrow> unarmed (fst (key_released now v s))"
  using assms by (auto simp: key_released_def Let_def split_beta unarmed_def)

lemma scan_events: "input_events (keypad_scan_callback l cyc v s) = input_events s"
  by (auto simp: keypad_scan_callback_def Let_def split_beta key_released_events split: option.split)

lemma scan_unarmed:
  assumes "unarmed s"
  shows "unarmed (keypad_scan_callback True cyc v s)"
proof (cases "k_type v = EV_KEY \<and> k_value v = KEY_VALUE_UP")
  case True
  then show ?thesis using key_released_unarmed [OF assms, of "uptime_ms cyc" v]
    by (auto simp: keypad_scan_callback_def Let_def split_beta unarmed_def scan_report_work split: option.split)
next
  case False
  then show ?thesis using assms
    by (auto simp: keypad_scan_callback_def Let_def split_beta unarmed_def scan_report_work)
qed

definition locked_step :: "input_state \<Rightarrow> input_state \<Rightarrow> bool" where
  "locked_step w w' \<longleftrightarrow> input_step w w' \<and> input_manager_islock w'"

lemma input_step_locked:
  assumes "input_step w w'" "input_manager_islock w" "input_manager_islock w'"
  shows "\<exists>new. reports (keypad w') = reports (keypad w) @ new \<and> length new \<le> (if unarmed (keypad w) then 0 else 1)
    \<and> (new \<noteq> [] \<or> unarmed (keypad w) \<longrightarrow> unarmed (keypad w'))"
  using assms
proof cases
  case (scan cyc v)
  then show ?thesis using assms(2) scan_unarmed [of "keypad w" cyc v] by (simp add: reports_def scan_events)
next
  case (report t)
  then show ?thesis
    by (auto simp: report_key_event_work_handle_def Let_def reports_def output_event_def is_report_def unarmed_def)
next
  case (hold t few)
  then show ?thesis using assms(2) by (simp add: check_hold_key_work_handle_def Let_def reports_def unarmed_def)
next
  case (callback t)
  then show ?thesis by (simp add: callback_key_event_work_handle_def Let_def reports_def output_event_def is_report_def unarmed_def)
next
  case unlock
  then show ?thesis using assms(3) by (simp add: input_manager_islock_def input_manager_unlock_def)
qed (simp_all add: input_manager_do_lock_def input_manager_filter_key_itself_def input_manager_set_init_param_def
      input_keypad_set_init_param_def reports_def unarmed_def)

text \<open>C21: While the input is locked, whatever is scanned and whichever works run, at most one event is reported, and none if no report
  was pending and no click was counted when the lock was taken. The event need not be the one that waited: see \<open>locked_event_replaced\<close>.\<close>

theorem locked_silent:
  assumes "locked_step\<^sup>*\<^sup>* w w'" "input_manager_islock w"
  shows "\<exists>new. reports (keypad w') = reports (keypad w) @ new \<and> length new \<le> (if unarmed (keypad w) then 0 else 1)"
proof -
  have "input_manager_islock w' \<and> (\<exists>new. reports (keypad w') = reports (keypad w) @ new \<and> length new \<le> (if unarmed (keypad w) then 0 else 1)
      \<and> (new \<noteq> [] \<or> unarmed (keypad w) \<longrightarrow> unarmed (keypad w')))"
    using assms
  proof (induction rule: rtranclp_induct)
    case (step a b)
    then obtain new more where "reports (keypad a) = reports (keypad w) @ new" "length new \<le> (if unarmed (keypad w) then 0 else 1)"
      "new \<noteq> [] \<or> unarmed (keypad w) \<longrightarrow> unarmed (keypad a)" "reports (keypad b) = reports (keypad a) @ more"
      "length more \<le> (if unarmed (keypad a) then 0 else 1)" "more \<noteq> [] \<or> unarmed (keypad a) \<longrightarrow> unarmed (keypad b)"
      using input_step_locked [of a b] unfolding locked_step_def by blast
    then have "reports (keypad b) = reports (keypad w) @ new @ more \<and> length (new @ more) \<le> (if unarmed (keypad w) then 0 else 1)
      \<and> (new @ more \<noteq> [] \<or> unarmed (keypad w) \<longrightarrow> unarmed (keypad b))"
      by (cases "unarmed (keypad a)"; cases "unarmed (keypad w)") auto
    then show ?case using step unfolding locked_step_def by blast
  qed simp
  then show ?thesis by blast
qed

section \<open>Two keys at once\<close>

definition combo_code :: "u16 \<Rightarrow> u16 \<Rightarrow> u16" where
  "combo_code a b = push_bit 8 a OR b"

lemma combo_code_bytes [simp]:
  assumes "key_code a" "key_code b"
  shows "low_code (combo_code a b) = b" "high_code (combo_code a b) = a"
proof -
  have a: "a AND 0xff = a" "drop_bit 8 a = 0" and b: "b AND 0xff = b" "drop_bit 8 b = 0"
    using low_code_key [OF assms(1)] low_code_key [OF assms(2)] key_code_less [OF assms(1)] key_code_less [OF assms(2)]
    by (simp_all add: low_code_def drop_bit_eq_div div_word_less)
  have ff: "(0xff :: u16) = mask 8" by (simp add: mask_eq_exp_minus_1)
  have "push_bit 8 a AND 0xff = 0" unfolding ff by (rule bit_eqI) (simp add: bit_simps)
  moreover have "drop_bit 8 (push_bit 8 a) = a"
  proof (rule bit_eqI)
    fix n
    have "bit a n \<longleftrightarrow> bit (a AND mask 8) n" using a(1) by (simp add: ff)
    then show "bit (drop_bit 8 (push_bit 8 a)) n \<longleftrightarrow> bit a n" by (auto simp: bit_simps)
  qed
  ultimately show "low_code (combo_code a b) = b" "high_code (combo_code a b) = a"
    using a b by (simp_all add: low_code_def high_code_def combo_code_def bit.conj_disj_distrib2 drop_bit_or)
qed

text \<open>Both keys of a combination are down, and some may be let go already.\<close>

definition combo :: "u16 \<Rightarrow> u16 \<Rightarrow> u32 \<Rightarrow> bool \<Rightarrow> bool \<Rightarrow> input_keypad_info \<Rightarrow> input_keypad_info \<Rightarrow> bool" where
  "combo a b p down_a down_b s0 s \<longleftrightarrow>
     press_code s = combo_code a b \<and> combo_mode s \<and> combo_down_1 s = down_a \<and> combo_down_0 s = down_b \<and> press_timer s = uptime_ms p
     \<and> press_type s = 0 \<and> click_num s = 0 \<and> report_work s = None \<and> \<not> filter_itself s \<and> input_events s = input_events s0 \<and> settings s = settings s0"

lemma combo_down:
  assumes "idle s" "key_code x" "key_code y" "x \<noteq> y" "dx \<noteq> Adc_key" "dy \<noteq> Adc_key"
  shows "combo (min x y) (max x y) p True True s (keypad_scan_callback False p (key_down dy y) (keypad_scan_callback False p1 (key_down dx x) s))"
proof -
  let ?t = "keypad_scan_callback False p1 (key_down dx x) s"
  have xy: "x \<noteq> 0" "y \<noteq> 0" using assms(2, 3) by (auto simp: key_code_def)
  have t: "press_code ?t = x" "combo_down_0 ?t" "press_type ?t = 0" "click_num ?t = 0" "report_work ?t = None" "input_events ?t = input_events s" "settings ?t = settings s"
    using assms(1, 5) xy by (simp_all add: scan_new_key first_key_down idle_def Let_def scan_report_work is_lradc_input_dev_def)
  have "place_key (key_down dy y) ?t = ?t\<lparr>press_code := combo_code (min x y) (max x y), combo_mode := True, combo_down_1 := True\<rparr>"
    using assms(2, 3, 4, 6) xy t(1) by (auto simp: place_key_def remember_lradc_def is_lradc_input_dev_def key_down_def combo_code_def min_def max_def)
  then show ?thesis using t assms(2, 3, 4) xy
    by (simp add: scan_new_key new_key_down_def combo_def scan_report_work)
qed

lemma combo_first_up:
  assumes "combo a b p True True s0 s" "key_code a" "key_code b" "a \<noteq> b" "d \<noteq> Adc_key" "u = a \<or> u = b"
  shows "combo a b p (u \<noteq> a) (u \<noteq> b) s0 (keypad_scan_callback False r (key_up d u) s)"
  using assms by (auto simp: scan_key_up key_released_def release_code_def combo_key_up_def is_lradc_input_dev_def Let_def combo_def)

lemma combo_last_up:
  assumes "combo a b p (v = a) (v = b) s0 s" "key_code a" "key_code b" "a \<noteq> b" "d \<noteq> Adc_key" "v = a \<or> v = b"
    "elapsed p r \<le> ucast (single_click_valid_time s0)"
  shows "clicked 1 (combo_code a b) s0 (keypad_scan_callback False r (key_up d v) s)"
proof -
  let ?s1 = "s\<lparr>combo_down_0 := False, combo_down_1 := False, report_press_code := combo_code a b, combo_mode := False, press_code := 0, key_hold := False\<rparr>"
  have code: "(fst (release_code (key_up d v) s))\<lparr>key_hold := False\<rparr> = ?s1" "snd (release_code (key_up d v) s)"
    using assms(1-6) by (auto simp: release_code_def combo_key_up_def is_lradc_input_dev_def Let_def combo_def)
  have one: "get_click_key_type (Suc 0) = KEY_TYPE_SHORT_UP" by (simp add: get_click_key_type_def)
  have ty: "release_type ?s1 = ?s1\<lparr>click_num := 1, press_type := KEY_TYPE_SHORT_UP\<rparr>"
    using assms(1) by (simp add: release_type_def combo_def Let_def one)
  have "key_released (uptime_ms r) (key_up d v) s
      = (?s1\<lparr>click_num := 1, press_type := KEY_TYPE_SHORT_UP, press_timer := uptime_ms r\<rparr>, Some True)"
    using assms(1, 7) code by (simp add: key_released_def split_beta ty Let_def combo_def elapsed_def settings_D [of s s0])
  then show ?thesis using assms(1)
    by (simp add: scan_key_up clicked_def combo_def scan_report_work one report_delay_settings)
qed

text \<open>Two keys that go down one after the other, in any order, and are let go in any order, are one click of the
  combination: nothing is reported before both are up, and the code has the smaller key in the high byte and the larger
  one in the low byte. The keys are not on the ADC keypad, which sees one key at a time.\<close>

theorem combo_reported:
  fixes d :: "u16 \<Rightarrow> key_dev" and p r p1 r1 :: u32
  assumes "idle s" "key_code a" "key_code b" "a < b" "d a \<noteq> Adc_key" "d b \<noteq> Adc_key" "elapsed p r \<le> ucast (single_click_valid_time s)"
    "(x, y) \<in> {(a, b), (b, a)}" "(u, v) \<in> {(a, b), (b, a)}"
  defines "t \<equiv> keypad_scan_callback False r1 (key_up (d u) u)
    (keypad_scan_callback False p (key_down (d y) y) (keypad_scan_callback False p1 (key_down (d x) x) s))"
  defines "e \<equiv> keypad_scan_callback False r (key_up (d v) v) t"
  shows "input_events e = input_events s \<and> report_work t = None \<and> report_work e = Some (report_delay s)
    \<and> input_events (report_key_event_work_handle e) = input_events s @ [Report (KEY_TYPE_SHORT_UP OR ucast (combo_code a b))]
    \<and> idle (report_key_event_work_handle e)"
proof -
  have uv: "u = a \<or> u = b" "v = a \<or> v = b" "u \<noteq> a \<longleftrightarrow> v = a" "u \<noteq> b \<longleftrightarrow> v = b" and "a \<noteq> b" using assms(4, 9) by auto
  have "combo (min x y) (max x y) p True True s (keypad_scan_callback False p (key_down (d y) y) (keypad_scan_callback False p1 (key_down (d x) x) s))"
    using assms(1-6, 8) by (intro combo_down) auto
  moreover have "min x y = a" "max x y = b" using assms(4, 8) by auto
  ultimately have t: "combo a b p (v = a) (v = b) s t" unfolding t_def uv(3, 4) [symmetric]
    using assms(2, 3, 5, 6) uv \<open>a \<noteq> b\<close> by (intro combo_first_up) auto
  then have e: "clicked 1 (combo_code a b) s e" unfolding e_def
    using assms(2, 3, 5, 6, 7) uv \<open>a \<noteq> b\<close> by (intro combo_last_up) auto
  then have "input_events e = input_events s" "report_work e = Some (report_delay s)" by (simp_all add: clicked_def)
  moreover have "get_click_key_type 1 = KEY_TYPE_SHORT_UP" by (simp add: get_click_key_type_def)
  ultimately show ?thesis using report_clicks [OF e] t by (simp add: combo_def)
qed

section \<open>Examples\<close>

definition example_keypad :: input_keypad_info where
  "example_keypad = input_keypad_device_init (\<lambda>_. True) False"

definition at_ms :: "nat \<Rightarrow> u32" where
  "at_ms n = of_nat (32000 * n)"

definition three_clicks :: "(u32 \<times> u32 list \<times> u32) list" where
  "three_clicks = [(at_ms 100, [at_ms 150], at_ms 200), (at_ms 400, [], at_ms 450), (at_ms 600, [at_ms 620, at_ms 640], at_ms 700)]"

lemma uptime_at_ms:
  assumes "n \<le> 134217"
  shows "uptime_ms (at_ms n) = of_nat n"
proof -
  have "unat (at_ms n) = 32000 * n" using assms by (simp add: at_ms_def unsigned_of_nat take_bit_eq_mod del: of_nat_mult)
  moreover have "(32000 * n + 16) div 32 = 1000 * n" by simp
  ultimately have "unat (k_cyc_to_us_near32 (at_ms n)) = 1000 * n"
    using assms by (simp add: k_cyc_to_us_near32_def unsigned_of_nat take_bit_eq_mod del: of_nat_mult)
  then have "unat (uptime_ms (at_ms n)) = n" by (simp add: uptime_ms_def unat_div)
  then have "of_nat (unat (uptime_ms (at_ms n))) = (of_nat n :: u32)" by simp
  then show ?thesis by simp
qed

lemmas example_defs = example_keypad_def input_keypad_device_init_def three_clicks_def quick_def elapsed_def uptime_at_ms key_code_def report_delay_def
  press_level_def

lemma example_idle: "idle example_keypad"
  by (simp add: idle_def example_defs)

lemma example_clicks: "list_all (quick example_keypad) three_clicks"
  by (simp add: example_defs)

theorem clicks_reported_witness:
  "idle example_keypad \<and> key_code 5 \<and> three_clicks \<noteq> [] \<and> list_all (quick example_keypad) three_clicks
   \<and> input_events (report_key_event_work_handle (fold (click_scans Gpio_key 5) three_clicks example_keypad)) = [Report (KEY_TYPE_TRIPLE_CLICK OR 5)]"
proof -
  have hyps: "key_code 5" "three_clicks \<noteq> []" by (simp_all add: example_defs)
  have type: "get_click_key_type (length three_clicks mod 16) OR ucast (5 :: u16) = KEY_TYPE_TRIPLE_CLICK OR 5" "input_events example_keypad = []"
    by (simp_all add: example_defs get_click_key_type_def)
  show ?thesis using clicks_reported [OF example_idle hyps example_clicks, of Gpio_key] hyps example_idle example_clicks
    by (simp only: type append_Nil simp_thms)
qed

theorem long_press_reported_witness:
  "idle example_keypad \<and> list_all (quick example_keypad) [(at_ms 100, [], at_ms 200)]
   \<and> (let t = fold (held_scan Gpio_key 5) (map at_ms [400, 800, 900, 2500, 7000])
              (keypad_scan_callback False (at_ms 300) (key_down Gpio_key 5) (fold (click_scans Gpio_key 5) [(at_ms 100, [], at_ms 200)] example_keypad))
      in input_events t = map (\<lambda>l. Report (KEY_TYPE_SHORT_UP OR l OR 5)) [KEY_TYPE_LONG1S, KEY_TYPE_LONG3S, KEY_TYPE_LONG6S])"
proof -
  have reached: "[KEY_TYPE_LONG1S, KEY_TYPE_LONG3S, KEY_TYPE_LONG6S]
    = remdups_adj (filter (\<lambda>l. l \<noteq> 0) (map (\<lambda>q. press_level example_keypad (elapsed (at_ms 300) q)) (map at_ms [400, 800, 900, 2500, 7000])))"
    by (simp add: example_defs)
  have hyps: "key_code 5" "list_all (quick example_keypad) [(at_ms 100, [], at_ms 200)]" "report_delay example_keypad \<noteq> 0" by (simp_all add: example_defs)
  have rest: "input_events example_keypad = []" "get_click_key_type (length [(at_ms 100, [] :: u32 list, at_ms 200)] mod 16) = KEY_TYPE_SHORT_UP"
    "ucast (5 :: u16) = (5 :: u32)" by (simp_all add: example_defs get_click_key_type_def)
  show ?thesis
    using long_press_reported [OF example_idle hyps reached, of Gpio_key "at_ms 7500"] hyps example_idle
    by (simp only: rest append_Nil Let_def simp_thms list.distinct not_False_eq_True)
qed

theorem clock_wrap_long_press_witness:
  "uptime_ms 0 < uptime_ms (2 ^ 32 - 100) \<and> idle example_keypad
   \<and> input_events (held_scan Gpio_key 5 0 (keypad_scan_callback False (2 ^ 32 - 100) (key_down Gpio_key 5) example_keypad)) = [Report (KEY_TYPE_LONG6S OR 5)]"
proof -
  have hyps: "key_code 5" "report_delay example_keypad \<noteq> 0" "uptime_ms 0 < uptime_ms (2 ^ 32 - 100)"
    by (simp_all add: example_defs uptime_ms_def k_cyc_to_us_near32_def word_less_nat_alt unat_div)
  have rest: "input_events example_keypad = []" "ucast (5 :: u16) = (5 :: u32)" by (simp_all add: example_defs)
  show ?thesis using clock_wrap_long_press [OF example_idle hyps, of Gpio_key] hyps(3) example_idle
    by (simp only: rest append_Nil simp_thms)
qed

definition example_locked :: "nat \<Rightarrow> input_state" where
  "example_locked n =
     (let w = input_manager_init (\<lambda>_. True) False; w1 = w\<lparr>keypad := keypad_scan_callback True (at_ms 10) (key_down Gpio_key 5) (keypad w)\<rparr>
      in if n = 0 then w else if n = 1 then w1 else w1\<lparr>keypad := keypad_scan_callback True (at_ms 90) (key_up Gpio_key 5) (keypad w1)\<rparr>)"

theorem locked_silent_witness:
  "input_manager_islock (example_locked 0) \<and> unarmed (keypad (example_locked 0)) \<and> reports (keypad (example_locked 2)) = []"
proof -
  have locked: "input_manager_islock (example_locked 0)" "input_manager_islock (example_locked 1)" "input_manager_islock (example_locked 2)"
    "unarmed (keypad (example_locked 0))" "reports (keypad (example_locked 0)) = []"
    by (simp_all add: example_locked_def Let_def input_manager_init_def input_manager_islock_def input_manager_do_lock_def unarmed_def reports_def
        input_keypad_device_init_def)
  have "input_step (example_locked 0) (example_locked 1)" "input_step (example_locked 1) (example_locked 2)"
    using input_step.scan [of "example_locked 0" "at_ms 10" "key_down Gpio_key 5"] input_step.scan [of "example_locked 1" "at_ms 90" "key_up Gpio_key 5"]
      locked(1, 2) by (simp_all add: example_locked_def Let_def)
  then have steps: "locked_step (example_locked 0) (example_locked 1)"
    "locked_step (example_locked 1) (example_locked 2)" using locked by (simp_all add: locked_step_def)
  have "locked_step\<^sup>*\<^sup>* (example_locked 0) (example_locked 2)"
    by (rule rtranclp.rtrancl_into_rtrancl [where b = "example_locked 1"], rule r_into_rtranclp) (rule steps)+
  from locked_silent [OF this locked(1)] show ?thesis using locked by simp
qed

text \<open>
  A report that waits when the lock is taken is replaced by a key pressed under the lock: after a click of key 5 the input is locked, then key 6
  is held, and the report that was left by the click gives the long press of key 6.
\<close>

theorem locked_event_replaced:
  defines "s \<equiv> fold (click_scans Gpio_key 5) [(at_ms 100, [], at_ms 200)] example_keypad"
  defines "t1 \<equiv> keypad_scan_callback True (at_ms 300) (key_down Gpio_key 6) s"
  defines "t \<equiv> keypad_scan_callback True (at_ms 1400) (key_down Gpio_key 6) t1"
  shows "report_work s \<noteq> None \<and> last_report_key_value s = KEY_TYPE_SHORT_UP OR 5 \<and> report_work t \<noteq> None \<and>
      input_events (report_key_event_work_handle t) = [Report (KEY_TYPE_LONG1S OR KEY_TYPE_SHORT_UP OR 6)]"
proof -
  have "clicked 1 5 example_keypad s"
    using clicks_count [OF idle_clicked [OF example_idle], of 5 "[(at_ms 100, [], at_ms 200)]" Gpio_key] by (simp add: example_defs s_def)
  then have s: "press_code s = 0" "click_num s = 1" "press_type s = KEY_TYPE_SHORT_UP" "input_events s = []" "report_work s = Some (report_delay example_keypad)"
      "last_report_key_value s = KEY_TYPE_SHORT_UP OR 5" "settings s = settings example_keypad"
    by (simp_all add: clicked_def get_click_key_type_def example_keypad_def input_keypad_device_init_def)
  have d: "(6 :: u16) \<noteq> low_code (press_code s)" "(6 :: u16) \<noteq> high_code (press_code s)" by (simp_all add: s low_code_def high_code_def)
  have t1: "press_code t1 = 6" "click_num t1 = 1" "press_type t1 = KEY_TYPE_SHORT_UP" "input_events t1 = []" "press_timer t1 = 300" "\<not> filter_itself t1"
      "settings t1 = settings example_keypad"
    unfolding t1_def scan_new_key [OF d] using s by (simp_all add: first_key_down Let_def is_lradc_input_dev_def scan_report_def uptime_at_ms settings_def)
  have k: "(6 :: u16) = low_code (press_code t1)" by (simp add: t1 low_code_def)
  have l: "long_press_time t1 = long_press_time example_keypad" "super_long_press_time t1 = super_long_press_time example_keypad"
      "super_long_press_6s_time t1 = super_long_press_6s_time example_keypad" "hold_delay_time t1 = hold_delay_time example_keypad"
    using t1(7) by (simp_all add: settings_def)
  have kk: "fst (key_kept_down 1400 t1) = t1\<lparr>report_press_code := 6, press_type := KEY_TYPE_LONG1S OR KEY_TYPE_SHORT_UP\<rparr>" "snd (key_kept_down 1400 t1)"
    using t1 l by (simp_all add: key_kept_down_def long_press_check_def long_level_def hold_check_def Let_def example_keypad_def input_keypad_device_init_def get_click_key_type_def)
  have t: "t = scan_report True (key_down Gpio_key 6) True (t1\<lparr>report_press_code := 6, press_type := KEY_TYPE_LONG1S OR KEY_TYPE_SHORT_UP\<rparr>)"
    unfolding t_def scan_kept_key [OF disjI1 [OF k]] using kk by (simp add: uptime_at_ms split_beta)
  show ?thesis using s t1 unfolding t by (simp add: scan_report_def Let_def key_down_def report_key_event_work_handle_def output_event_def)
qed

theorem combo_reported_witness:
  "idle example_keypad \<and> key_code 5 \<and> key_code 6
   \<and> input_events (report_key_event_work_handle
       (keypad_scan_callback False (at_ms 300) (key_up Gpio_key 6) (keypad_scan_callback False (at_ms 250) (key_up Gpio_key 5)
         (keypad_scan_callback False (at_ms 120) (key_down Gpio_key 5) (keypad_scan_callback False (at_ms 100) (key_down Gpio_key 6) example_keypad)))))
     = [Report (KEY_TYPE_SHORT_UP OR 0x506)]"
proof -
  have hyps: "key_code 5" "key_code 6" "(5 :: u16) < 6" "elapsed (at_ms 120) (at_ms 300) \<le> ucast (single_click_valid_time example_keypad)" by (simp_all add: example_defs)
  have rest: "input_events example_keypad = []" "ucast (combo_code 5 6) = (0x506 :: u32)" by (simp_all add: example_defs combo_code_def)
  show ?thesis
    using combo_reported [of example_keypad 5 6 "\<lambda>_. Gpio_key" "at_ms 120" "at_ms 300" 6 5 5 6 "at_ms 250" "at_ms 100"] hyps example_idle
    by (simp add: rest)
qed

end
