(* ===== verification/Spec2Isabelle.thy ===== *)
theory Spec2Isabelle
  imports Acts_Ringbuf Ringbuff_Stream Buffer_Stream Sys_Standby Led_Display Mem_Manager Property_Store Ui_Keys Input_Keys
begin

text \<open>
  Verification of the core services of a Bluetooth earphone and dongle firmware (Actions Semiconductor
  SDK): the byte ring buffer, the stream layer over it, the heap, the standby state machine with its wake locks,
  the LED display, the configuration store in flash with the properties over it, the keypad and the key map. The
  firmware is written in C on top of the Zephyr kernel; the parts below are the services that every application of \<^verbatim>\<open>src/application/bt_earphone\<close> and every media flow goes through.

  \<^bold>\<open>Parts and how they interact.\<close>

  \<^item> \<^verbatim>\<open>src/framework/base/utils/acts_ringbuf/acts_ringbuf.c\<close>: a single ring buffer of bytes. Producer and consumer each
    own one free-running counter and one offset; the data area may live in DSP memory.
    Theory \<open>Acts_Ringbuf\<close>: the control block is a record of 32-bit words, the memory a function from addresses
    to bytes, one definition for each function of the file. Copies between two buffers and through streams
    are included.
  \<^item> \<^verbatim>\<open>src/framework/base/utils/stream/stream.c\<close>: generic streams with a table of operations, attachment of one stream
    to another, observers, blocking reads and writes. Theory \<open>Io_Stream\<close>: the table of operations is a record of
    functions, the streams live in a store indexed by address so that attachment and aliasing are visible.
  \<^item> \<^verbatim>\<open>stream/ringbuff_stream.c\<close>: the streams over ring buffers, theory \<open>Ringbuff_Stream\<close>; their operations are the
    model of the ring buffer applied to the shared memory.
  \<^item> \<^verbatim>\<open>stream/bufferstream.c\<close>: the stream over a plain or circular memory area, theory \<open>Buffer_Stream\<close>.
  \<^item> \<^verbatim>\<open>src/framework/base/memory/page_buddy/rom_buddy.c\<close>: the allocator inside one page of 2048 bytes, a tree of 255
    nodes packed into fields of 8, 4, 2 and 1 bits that lives in the page itself. Theory \<open>Rom_Buddy\<close> holds the model
    and the packed table, \<open>Buddy_Tree\<close> the tree of free sizes, \<open>Buddy_Page\<close> the relation between a tree and its live
    blocks, \<open>Buddy_Alloc\<close> the properties of allocation and free.
  \<^item> \<^verbatim>\<open>page_buddy/page.c\<close>, \<^verbatim>\<open>rom_page.c\<close>, \<^verbatim>\<open>page_init.c\<close>: the pool of pages, a ring of free pages linked by
    indices, theory \<open>Page_Pool\<close>.
  \<^item> \<^verbatim>\<open>page_buddy/malloc.c\<close>, \<^verbatim>\<open>free.c\<close>, \<^verbatim>\<open>mem_page.c\<close>, \<^verbatim>\<open>mem_manager.c\<close>: the heap that every other part
    allocates from, on buddy pages and ranges of pages. Theory \<open>Mem_Buddy\<close> is the model, \<open>Mem_Entries\<close> shows how the
    28 bytes of the list of owned pages are read and changed, \<open>Mem_Heap\<close> the invariant and every branch of
    allocation and free, \<open>Mem_Manager\<close> the properties.
  \<^item> \<^verbatim>\<open>src/framework/system/sys_wakelock.c\<close>: counted wake locks, theory \<open>Sys_Wakelock\<close>.
  \<^item> \<^verbatim>\<open>src/framework/system/sys_standby.c\<close>: the standby machine NORMAL, S1, S2, S3 driven by a periodic work, theory
    \<open>Sys_Standby\<close>. It reads the wake locks and tells the application, the services, the display and the message
    manager when to suspend and resume.
  \<^item> \<^verbatim>\<open>src/application/bt_earphone/src/libsrc/led_display/\<close>: \<^verbatim>\<open>led_layer.c\<close> (layers and regions, theory \<open>Led_Layer\<close>),
    \<^verbatim>\<open>led_ctrl.c\<close> (flashing of single LEDs by timers, theory \<open>Led_Ctrl\<close>) and \<^verbatim>\<open>led_display.c\<close> (display models of
    notifications, theory \<open>Led_Display\<close>), which calls the other two and is called back when a limited display ends.
  \<^item> \<^verbatim>\<open>src/zephyr/drivers/nvram/nvram_storage.c\<close>, \<^verbatim>\<open>nvram_config.c\<close>: the configuration store, named items in a log on
    flash. Theory \<open>Nvram_Storage\<close> holds the access to the flash and the regions, \<open>Nvram_Bitmap\<close> the bitmap that finds
    items fast, \<open>Nvram_Config\<close> the model of items, segments, start up and interface; \<open>Nvram_Log\<close> relates the bytes of
    a segment to a list of entries, \<open>Nvram_Region\<close> every operation of a region to an operation on that list,
    \<open>Nvram_Store\<close> the list to a map from names to values.
  \<^item> \<^verbatim>\<open>src/framework/base/property/\<close>: the properties of the applications, \<^verbatim>\<open>property_cache.c\<close> (a write-back cache over the
    configuration store) and \<^verbatim>\<open>property_manager.c\<close> (the interface and the conversion of integers). Theory \<open>Property_Cache\<close> is
    the model, \<open>Property_Store\<close> its correctness over the model of the configuration store.
  \<^item> \<^verbatim>\<open>src/application/bt_earphone/src/libsrc/ui_key_map/ui_key_map.c\<close>: the functions of key events, their change by a phone
    application and the synchronisation between two earphones, and the filter of keys, which uses the lock of the input manager. Theory
    \<open>Ui_Key_Map\<close> is the model, over that of the input manager, \<open>Ui_Keys\<close> its correctness.
  \<^item> \<^verbatim>\<open>src/framework/system/input/input_keypad.c\<close> and the lock of \<^verbatim>\<open>input_manager.c\<close>: what the scans of keys
    become, clicks, long presses and combinations, which the key map then gives a meaning. Theory \<open>Input_Keypad\<close> is the model, with a
    step relation of scans, works and calls, \<open>Input_Keys\<close> its correctness.

  \<open>Prelude\<close> holds the types of machine words, the memory, the signed reading of words and the list and word
  lemmas the components share. \<open>Fifo_Spec\<close> is the contract of a bounded queue of bytes, a locale with its
  consequences for any sequence of operations. \<open>Heap_Spec\<close> is the contract of an allocator of
  blocks, a locale with the same kind of consequences; it is interpreted three times, on the buddy page, the page pool
  and the whole heap. \<open>Kv_Spec\<close> is the contract of a store of named values that survive a restart, interpreted on a region
  of the configuration store and, by a sublocale over tables of names, on the properties. \<open>Slot_Table\<close> shows that an array of slots
  with different keys is a map; the property cache and the key map use it. The contract of counted locks in \<open>Sys_Wakelock\<close> is
  interpreted on the wake locks and, extended by the law that a release without holder is ignored, on the key filter.

  \<^bold>\<open>What is shown.\<close>

  \<^item> Ring buffer: an invariant of the control block; put appends and get removes from the abstract contents (a list of
    bytes) also across the wrap and for every value of the free-running counters; any sequence of operations conserves
    the bytes and their order, by interpretation of the locale \<open>byte_fifo\<close> on the definitions; the loop of the copy
    ends and moves the oldest bytes; claims, streamed reads and defragmentation.
  \<^item> Streams: the ring buffer stream is a byte queue again, by a second interpretation of the same
    locale, while it does not block, is not attached and not observed; a write that fits both goes to the attached
    stream too; the free space of a chain of attached streams is the minimum over the chain; a blocking read with a
    timeout ends while the stream exists and keeps the timeout; create and destroy leave the heap as it was.
  \<^item> Heap: the packed table behaves like an array; the tree of a buddy page describes its live blocks at any time; an
    allocation returns a block that overlaps no live block, zeroed, and fails only when no suitable space is free; a free
    removes exactly one block; outside the block that is handed out and the control blocks of the buddy pages no byte of the
    pool changes; any sequence of calls from start up runs to its end or to a request that panics, and keeps blocks
    apart and inside the pool; the statistic of allocated bytes is exact.
  \<^item> Wake locks: after any fair sequence of calls the check reports the number of holders (locale \<open>counted_locks\<close>).
  \<^item> Standby: a step relation of the periodic work, the lock calls and the passing of time; in every reachable
    state the machine rests in NORMAL, S1 or S2, the display is on exactly in NORMAL, suspend and resume alternate, and
    a run of the work that starts under a wake lock suspends nothing and does not enter deep sleep; the work always returns.
    The power-down timer may expire at any time from its start to the test of its flag; the gap between the test and the stop of the
    timer is left out by the hypothesis \<open>quiet\<close>, there the code loses the power-off message.
  \<^item> LED display: an update gives every LED to the front-most layer that contains it; in every reachable state of
    the display the layers are sorted and complete, the region of a layer is the LEDs of its display model in the stored
    configuration, and every running control belongs to the display model its layer holds; a limited display model flashes exactly as often as configured and then ends.
  \<^item> Configuration store: the searches in the bitmap find the first set bit; a set that fits stores its value and
    changes no other name, also when the segment is full and the items move to the next one; a get prefers the user
    region over the factory regions; start up finds every value again; any sequence of sets, removals and restarts
    in which every value fits refines a map (locale \<open>kv_store\<close>); clearing ahead loses nothing.
  \<^item> Properties: a set is read back, from the cache or from the flash, and changes no other name, as long as no name in use begins
    with another one; a flush writes every cached value and releases its memory; a deferred flush equals an immediate
    one when no other request is pending; with names apart from the factory regions and memory served, the whole refines a map across restarts; integers survive the round trip through text.
  \<^item> Key map: while memory is served, the map of a view is complete and closed and stays inside its array; changes by the phone act like
    updates of a table of 16 places; two earphones that exchange their maps end with the same map, unless both were marked as
    synchronised already; the filter locks the input exactly while requests are open, as long as it alone uses the lock.
  \<^item> Keypad: a series of clicks is one event with their number modulo 16; the levels of a long press are reported once each and ended
    once; two keys pressed and released in any order are one event; under the lock at most one event is reported, and none when nothing waited.

  Properties that describe where the code departs from its intent (overlapping copies in the
  defragmentation, results of attached streams, the message manager left locked, frees of foreign addresses and
  requests beyond \<open>2 ^ 31\<close> bytes in the heap, limited display models that never
  end, a power loss during a set, an item too large for its segment, names that begin with
  other names, memory that is missing for a moment, a cycle counter that starts again while a key is down,
  a waiting event that is replaced under the lock and others) are stated as theorems about the same definitions.

  \<^bold>\<open>Modelling conventions.\<close> Machine integers are words of their width, and every addition and
  comparison that can wrap is made on words. \<open>None\<close> is undefined behaviour (a null or dangling pointer, an overlapping
  \<open>memcpy\<close>) or, for the loops defined by \<open>partial_function (option)\<close>, a loop that does not end; results of the code
  (error numbers, counts) are ordinary values. There is no fuel: termination is a theorem where it is claimed.
  Heap pointers are distances from the start of the pool. A request that cannot be served panics, and the system stops: the result
  \<open>Malloc_Panic\<close> is this end, and a run of calls stops there. The control block of a buddy page is a record beside the
  bytes of the pool; \<open>heap_byte\<close> puts it where the code has it, in the last 128 bytes of its page, and the statements about unchanged bytes are about \<open>heap_byte\<close>. The theorems on the heap hold for pools
  of up to 26 pages (the configuration has 8), so that the list of owned pages never fills before the pool does;
  those on the page pool hold for up to 127 pages, the range of its indices.
  The flash driver is a record of functions; the theorems on the configuration store suppose that it is a NOR flash (\<open>nor_flash\<close>:
  a write clears bits, an erase of whole sectors sets them), segments of 4096 bytes as configured and regions of at least two
  segments. They suppose a partition for each of the three regions; the layout in the repository (\<^verbatim>\<open>firmware.xml\<close>) has none with the
  file id of the read-only factory region, and \<open>nvram_missing_factory\<close> shows what a get of an absent name does then. Offsets in a region are natural numbers, since a partition ends below \<open>2 ^ 31\<close>.
  Functions that run under an interrupt lock or on the single system work queue are atomic steps. Allocators, the kernel
  semaphores and timers, the clock, the stored configuration, the display and LED drivers and the managers that
  \<open>sys_standby.c\<close> notifies are arguments of the definitions, collected in environment records; what a theorem
  needs of them is an explicit hypothesis.

  \<^bold>\<open>Not modelled.\<close> Logging and dump functions; the alternative heaps \<^verbatim>\<open>mem_slab.c\<close> and \<^verbatim>\<open>mem_pool.c\<close>,
  which the configurations do not select; the cache of the configuration store for NAND flash; the Bluetooth stack and its managers, the audio and DSP
  libraries, USB, the user interface library, over-the-air upgrade, production tests and the kernel: they are driven by
  hardware or by libraries without sources. Candidates for extension, in this order: the message and service managers
  (\<^verbatim>\<open>framework/base/core\<close>), the serial packet protocol (\<^verbatim>\<open>libsrc/usp\<close>) and the alarm manager.
\<close>

end
